(* ===== verification/Rook_Prelude.thy ===== *)
theory Rook_Prelude
  imports Main "HOL-Library.Word"
begin

text \<open>
  Shared vocabulary of the development: machine integers of the Rust sources as words, byte
  strings, little-endian integer codecs, slices, and the list and option facts the component
  theories use.

  A Rust array \<open>[u8; n]\<close> is a word of \<open>8 * n\<close> bits (\<open>digest\<close> is \<open>[u8; 32]\<close>, \<open>id16\<close> is
  \<open>[u8; 16]\<close>); \<open>to_le\<close> lists its bytes in index order and \<open>from_le\<close> reads them back, so the
  length of an array is carried by its type as it is in Rust.  \<open>usize\<close> values are lengths and
  offsets of byte strings held in memory and are modelled as \<open>nat\<close>.
\<close>

unbundle bit_operations_syntax

type_synonym byte = "8 word"
type_synonym bytes = "8 word list"
type_synonym u8 = "8 word"
type_synonym u16 = "16 word"
type_synonym u32 = "32 word"
type_synonym u64 = "64 word"
type_synonym i64 = "64 word" \<comment> \<open>read through \<open>sint\<close>\<close>
type_synonym digest = "256 word" \<comment> \<open>\<open>[u8; 32]\<close>\<close>
type_synonym id16 = "128 word" \<comment> \<open>\<open>[u8; 16]\<close>\<close>

named_theorems codec_simps \<open>lengths and inverses of byte codecs\<close>

subsection \<open>Options\<close>

text \<open>\<open>Iterator::find_map\<close>.\<close>

fun find_map :: "('a \<Rightarrow> 'b option) \<Rightarrow> 'a list \<Rightarrow> 'b option" where
  "find_map f [] = None"
| "find_map f (x # xs) = (case f x of None \<Rightarrow> find_map f xs | Some y \<Rightarrow> Some y)"

lemma find_map_Some: "find_map f xs = Some y \<Longrightarrow> \<exists>x\<in>set xs. f x = Some y"
  by (induction xs) (auto split: option.splits)

text \<open>The \<open>?\<close> of a fallible step that succeeds.\<close>

lemma try_Inr: "(case m of Inl e \<Rightarrow> Inl e | Inr y \<Rightarrow> f y) = Inr x \<longleftrightarrow> (\<exists>y. m = Inr y \<and> f y = Inr x)"
  by (cases m) auto

subsection \<open>Little-endian integers\<close>

fun nat_to_le :: "nat \<Rightarrow> nat \<Rightarrow> bytes" where
  "nat_to_le 0 x = []"
| "nat_to_le (Suc n) x = word_of_nat (x mod 256) # nat_to_le n (x div 256)"

fun le_to_nat :: "bytes \<Rightarrow> nat" where
  "le_to_nat [] = 0"
| "le_to_nat (b # bs) = unat b + 256 * le_to_nat bs"

definition to_le :: "'a::len word \<Rightarrow> bytes" where
  "to_le w = nat_to_le (LENGTH('a) div 8) (unat w)"

definition from_le :: "bytes \<Rightarrow> 'a::len word" where
  "from_le bs = word_of_nat (le_to_nat bs)"

lemma nat_to_le_numeral [simp]:
  "nat_to_le (numeral k) x =
     word_of_nat (x mod 256) # nat_to_le (pred_numeral k) (x div 256)"
  by (subst numeral_eq_Suc [of k]) (rule nat_to_le.simps(2))

lemma length_nat_to_le [simp]: "length (nat_to_le n x) = n"
  by (induction n arbitrary: x) auto

lemma unat_byte_of_nat [simp]: "unat (word_of_nat n :: byte) = n mod 256"
  by (simp add: unat_of_nat)

lemma le_to_nat_to_le: "le_to_nat (nat_to_le n x) = x mod 256 ^ n"
proof (induction n arbitrary: x)
  case 0
  then show ?case by simp
next
  case (Suc n)
  have "x mod 256 + 256 * (x div 256 mod 256 ^ n) = x mod (256 * 256 ^ n)"
    by (simp add: mod_mult2_eq add.commute)
  with Suc show ?case by simp
qed

lemma le_to_nat_bound: "le_to_nat bs < 256 ^ length bs"
proof (induction bs)
  case Nil
  then show ?case by simp
next
  case (Cons b bs)
  have "unat b < 256"
    using unsigned_less [of b, where ?'a = nat] by simp
  with Cons.IH show ?case by simp
qed

lemma nat_to_le_to_nat: "nat_to_le (length bs) (le_to_nat bs) = bs"
proof (induction bs)
  case Nil
  then show ?case by simp
next
  case (Cons b bs)
  have b: "unat b < 256"
    using unsigned_less [of b, where ?'a = nat] by simp
  then have "(unat b + 256 * le_to_nat bs) mod 256 = unat b"
    and "(unat b + 256 * le_to_nat bs) div 256 = le_to_nat bs"
    by simp_all
  with Cons.IH show ?case by simp
qed

lemma length_to_le: "length (to_le (w :: 'a::len word)) = LENGTH('a) div 8"
  by (simp add: to_le_def)

lemma length_to_le_widths [simp, codec_simps]:
  "length (to_le (a :: u8)) = 1"
  "length (to_le (b :: u16)) = 2"
  "length (to_le (c :: u32)) = 4"
  "length (to_le (d :: u64)) = 8"
  "length (to_le (e :: id16)) = 16"
  "length (to_le (f :: digest)) = 32"
  by (simp_all add: length_to_le)

lemma from_to_le_gen:
  assumes "LENGTH('a) = 8 * n"
  shows "from_le (to_le (w :: 'a::len word)) = w"
proof -
  have "(256::nat) ^ n = 2 ^ LENGTH('a)"
    by (simp add: assms power_mult)
  then show ?thesis
    using unsigned_less [of w, where ?'a = nat] assms
    by (simp add: from_le_def to_le_def le_to_nat_to_le)
qed

lemma from_to_le [simp, codec_simps]:
  "from_le (to_le (b :: u16)) = b"
  "from_le (to_le (c :: u32)) = c"
  "from_le (to_le (d :: u64)) = d"
  "from_le (to_le (e :: id16)) = e"
  "from_le (to_le (f :: digest)) = f"
  by (rule from_to_le_gen [where n = 2], simp, rule from_to_le_gen [where n = 4], simp,
      rule from_to_le_gen [where n = 8], simp, rule from_to_le_gen [where n = 16], simp,
      rule from_to_le_gen [where n = 32], simp)

lemma to_from_le_gen:
  assumes "LENGTH('a) = 8 * length bs"
  shows "to_le (from_le bs :: 'a::len word) = bs"
proof -
  have "(256::nat) ^ length bs = 2 ^ LENGTH('a)"
    by (simp add: assms power_mult)
  then have "le_to_nat bs < 2 ^ LENGTH('a)"
    using le_to_nat_bound [of bs] by simp
  then show ?thesis
    using assms
    by (simp add: from_le_def to_le_def unat_of_nat take_bit_eq_mod nat_to_le_to_nat)
qed

lemma to_from_le:
  "length bs = 2 \<Longrightarrow> to_le (from_le bs :: u16) = bs"
  "length bs = 4 \<Longrightarrow> to_le (from_le bs :: u32) = bs"
  "length bs = 8 \<Longrightarrow> to_le (from_le bs :: u64) = bs"
  "length bs = 16 \<Longrightarrow> to_le (from_le bs :: id16) = bs"
  "length bs = 32 \<Longrightarrow> to_le (from_le bs :: digest) = bs"
  by (rule to_from_le_gen, simp)+

lemma to_le_inject [simp]:
  "to_le (b :: u16) = to_le b' \<longleftrightarrow> b = b'"
  "to_le (c :: u32) = to_le c' \<longleftrightarrow> c = c'"
  "to_le (d :: u64) = to_le d' \<longleftrightarrow> d = d'"
  "to_le (e :: id16) = to_le e' \<longleftrightarrow> e = e'"
  "to_le (f :: digest) = to_le f' \<longleftrightarrow> f = f'"
  by (metis from_to_le)+

subsection \<open>Slices\<close>

text \<open>
  \<open>subslice a b xs\<close> is the Rust slice \<open>xs[a..b]\<close> where it is in range; \<open>get_range\<close> is
  \<open>xs.get(a..b)\<close>, \<open>None\<close> out of range.
\<close>

definition subslice :: "nat \<Rightarrow> nat \<Rightarrow> 'a list \<Rightarrow> 'a list" where
  "subslice a b xs = take (b - a) (drop a xs)"

definition get_range :: "nat \<Rightarrow> nat \<Rightarrow> 'a list \<Rightarrow> 'a list option" where
  "get_range a b xs = (if a \<le> b \<and> b \<le> length xs then Some (subslice a b xs) else None)"

definition get_at :: "'a list \<Rightarrow> nat \<Rightarrow> 'a option" where
  "get_at xs i = (if i < length xs then Some (xs ! i) else None)"

lemma length_subslice [simp]: "length (subslice a b xs) = min (b - a) (length xs - a)"
  by (simp add: subslice_def min.commute)

lemma subslice_full [simp]: "subslice 0 (length xs) xs = xs"
  by (simp add: subslice_def)

lemma subslice_append_right [simp]:
  "length xs \<le> a \<Longrightarrow> subslice a b (xs @ ys) = subslice (a - length xs) (b - length xs) ys"
  by (simp add: subslice_def)

lemma subslice_append_left:
  "b \<le> length xs \<Longrightarrow> subslice a b (xs @ ys) = subslice a b xs"
  by (cases "a \<le> b") (auto simp: subslice_def)

lemma subslice_prefix [simp]: "length xs = b \<Longrightarrow> subslice 0 b (xs @ ys) = xs"
  by (simp add: subslice_def)

lemma subslice_all [simp]: "length xs = b \<Longrightarrow> subslice 0 b xs = xs"
  by (simp add: subslice_def)

lemma subslice_join:
  "a \<le> b \<Longrightarrow> b \<le> c \<Longrightarrow> subslice a b xs @ subslice b c xs = subslice a c xs"
proof -
  assume ab: "a \<le> b" and bc: "b \<le> c"
  have "take (b - a) (drop a xs) @ take (c - b) (drop (b - a) (drop a xs))
      = take ((b - a) + (c - b)) (drop a xs)"
    by (simp only: take_add)
  moreover have "drop (b - a) (drop a xs) = drop b xs"
    using ab by simp
  moreover have "(b - a) + (c - b) = c - a"
    using ab bc by simp
  ultimately show ?thesis
    by (simp add: subslice_def)
qed

lemma subslice_drop_join:
  "a \<le> b \<Longrightarrow> subslice a b xs @ drop b xs = drop a xs"
proof -
  assume ab: "a \<le> b"
  then have "drop b xs = drop (b - a) (drop a xs)"
    by simp
  then show ?thesis
    by (simp only: subslice_def append_take_drop_id)
qed

lemma subslice_single: "i < length xs \<Longrightarrow> [xs ! i] = subslice i (Suc i) xs"
  by (simp add: subslice_def take_Suc_conv_app_nth)

lemma subslice_Cons [simp]: "0 < a \<Longrightarrow> subslice a b (x # xs) = subslice (a - 1) (b - 1) xs"
  by (simp add: subslice_def drop_Cons')

lemma get_range_Some:
  "get_range a b xs = Some ys \<longleftrightarrow> a \<le> b \<and> b \<le> length xs \<and> ys = subslice a b xs"
  by (auto simp: get_range_def)

lemma get_range_None: "get_range a b xs = None \<longleftrightarrow> \<not> (a \<le> b \<and> b \<le> length xs)"
  by (simp add: get_range_def)

lemma get_at_Some: "get_at xs i = Some x \<longleftrightarrow> i < length xs \<and> x = xs ! i"
  by (auto simp: get_at_def)

subsection \<open>Adjacent pairs, as \<open>windows(2)\<close>\<close>

fun any_window2 :: "('a \<Rightarrow> 'a \<Rightarrow> bool) \<Rightarrow> 'a list \<Rightarrow> bool" where
  "any_window2 p (x # y # xs) = (p x y \<or> any_window2 p (y # xs))"
| "any_window2 p _ = False"

lemma any_window2_map:
  "any_window2 (\<lambda>x y. p (f x) (f y)) xs = any_window2 p (map f xs)"
  by (induction "\<lambda>x y. p (f x) (f y)" xs rule: any_window2.induct) auto

lemma not_any_window2_conv_sorted_wrt:
  assumes "transp (\<lambda>x y. \<not> p x y)"
  shows "\<not> any_window2 p xs \<longleftrightarrow> sorted_wrt (\<lambda>x y. \<not> p x y) xs"
proof (induction xs rule: induct_list012)
  case (3 x y zs)
  have "\<not> p x z" if "\<not> p x y" "\<not> p y z" for z
    using transpD [OF assms, of x y z] that by simp
  with 3 show ?case
    by auto
qed auto

lemma sorted_no_adjacent_dup:
  "sorted xs \<Longrightarrow> any_window2 (=) xs \<longleftrightarrow> \<not> distinct (xs :: 'a::linorder list)"
  by (induction "(=) :: 'a \<Rightarrow> 'a \<Rightarrow> bool" xs rule: any_window2.induct) auto

subsection \<open>Prefixes of equal elements\<close>

lemma takeWhile_split:
  assumes "\<And>x. x \<in> set xs \<Longrightarrow> P x" and "takeWhile P ys = []"
  shows "takeWhile P (xs @ ys) = xs" and "dropWhile P (xs @ ys) = ys"
  using assms by (simp_all add: takeWhile_append2 dropWhile_append2 takeWhile_eq_Nil_iff dropWhile_eq_self_iff)

lemma in_set_dropWhile: "x \<in> set xs \<Longrightarrow> \<not> P x \<Longrightarrow> x \<in> set (dropWhile P xs)"
  by (induction xs) auto

lemma sorted_map_dropWhile: "sorted (map f xs) \<Longrightarrow> sorted (map f (dropWhile P xs))"
  by (induction xs) auto

subsection \<open>Word views of small numbers\<close>

lemma unat_u32 [simp]: "i < 2 ^ 32 \<Longrightarrow> unat (word_of_nat i :: u32) = i"
  by (simp add: unat_of_nat take_bit_eq_mod)

lemma ucast_u32_u64: "i < 2 ^ 32 \<Longrightarrow> (ucast (word_of_nat i :: u32) :: u64) = word_of_nat i"
  by (simp add: unsigned_of_nat take_bit_eq_mod)

lemma unat_u32_bound: "unat (n :: u32) < 2 ^ 32"
  using unsigned_less [of n, where ?'a = nat] by simp

lemma u64_of_nat_eq: "i < 2 ^ 64 \<Longrightarrow> j < 2 ^ 64 \<Longrightarrow> (word_of_nat i :: u64) = word_of_nat j \<longleftrightarrow> i = j"
  by (simp add: word_of_nat_eq_iff take_bit_eq_mod)

lemma u64_of_nat_less: "i < 2 ^ 64 \<Longrightarrow> j < 2 ^ 64 \<Longrightarrow> (word_of_nat i :: u64) < word_of_nat j \<longleftrightarrow> i < j"
  by (simp add: word_of_nat_less_iff take_bit_eq_mod)

lemma u64_of_nat_le: "i < 2 ^ 64 \<Longrightarrow> j < 2 ^ 64 \<Longrightarrow> (word_of_nat i :: u64) \<le> word_of_nat j \<longleftrightarrow> i \<le> j"
  by (simp add: word_le_nat_alt unat_of_nat take_bit_eq_mod)

subsection \<open>ASCII text as bytes\<close>

definition ascii :: "string \<Rightarrow> bytes" where
  "ascii s = map of_char s"

lemma length_ascii [simp]: "length (ascii s) = length s"
  by (simp add: ascii_def)

text \<open>\<open>checked_add\<close> of the standard library: \<open>None\<close> on overflow.\<close>

definition checked_add_i64 :: "i64 \<Rightarrow> i64 \<Rightarrow> i64 option" where
  "checked_add_i64 a b =
     (if - (2 ^ 63) \<le> sint a + sint b \<and> sint a + sint b < 2 ^ 63 then Some (a + b) else None)"

lemma checked_add_i64_sint:
  assumes "checked_add_i64 a b = Some c"
  shows "sint c = sint a + sint b"
proof -
  from assms have c: "c = a + b"
    and r: "- (2 ^ 63) \<le> sint a + sint b" "sint a + sint b < 2 ^ 63"
    by (auto simp: checked_add_i64_def split: if_splits)
  have "sint (a + b) = signed_take_bit 63 (sint a + sint b)"
    by (simp add: sint_word_add)
  also have "\<dots> = sint a + sint b"
    using r by (intro signed_take_bit_int_eq_self) simp_all
  finally show ?thesis by (simp add: c)
qed

subsection \<open>Body codecs\<close>

text \<open>
  The contracts of a pair of encoder and decoder.  The encoder may refuse a value (\<open>None\<close>), the
  decoder may refuse bytes (\<open>Inl\<close>).  A \<open>codec\<close> reads back what it wrote; a \<open>canonical\<close> decoder
  accepts nothing but what the encoder writes.
\<close>

locale codec =
  fixes enc :: "'a \<Rightarrow> bytes option" and dec :: "bytes \<Rightarrow> 'e + 'a"
  assumes dec_enc: "enc x = Some b \<Longrightarrow> dec b = Inr x"
begin

lemma enc_inject: "enc x = Some b \<Longrightarrow> enc y = Some b \<Longrightarrow> x = y"
  using dec_enc [of x b] dec_enc [of y b] by simp

end

locale canonical =
  fixes enc :: "'a \<Rightarrow> bytes option" and dec :: "bytes \<Rightarrow> 'e + 'a"
  assumes enc_dec: "dec b = Inr x \<Longrightarrow> enc x = Some b"
begin

lemma dec_inject: "dec b = Inr x \<Longrightarrow> dec b' = Inr x \<Longrightarrow> b = b'"
  using enc_dec [of b x] enc_dec [of b' x] by simp

end

locale canonical_codec = codec + canonical
begin

lemma dec_iff_enc: "dec b = Inr x \<longleftrightarrow> enc x = Some b"
  using dec_enc enc_dec by blast

end

text \<open>\<open>slice::chunks\<close>: pieces of \<open>n\<close> elements, the last one possibly shorter.\<close>

function chunks :: "nat \<Rightarrow> 'a list \<Rightarrow> 'a list list" where
  "chunks n xs = (if n = 0 \<or> xs = [] then [] else take n xs # chunks n (drop n xs))"
  by pat_completeness auto
termination by (relation "measure (\<lambda>(n, xs). length xs)") auto

declare chunks.simps [simp del]

lemma chunks_Nil [simp]: "chunks n [] = []"
  by (simp add: chunks.simps)

lemma chunks_append:
  "0 < n \<Longrightarrow> length ys = n \<Longrightarrow> chunks n (ys @ xs) = ys # chunks n xs"
  by (subst chunks.simps) auto

lemma chunks_concat:
  "0 < n \<Longrightarrow> \<forall>ys\<in>set yss. length ys = n \<Longrightarrow> chunks n (concat yss) = yss"
  by (induction yss) (simp_all add: chunks_append)

lemma concat_chunks: "0 < n \<Longrightarrow> concat (chunks n xs) = xs"
proof (induction n xs rule: chunks.induct)
  case (1 n xs)
  then show ?case by (cases "xs = []") (auto simp: chunks.simps [of n xs])
qed

lemma length_in_chunks:
  "0 < n \<Longrightarrow> length xs = n * k \<Longrightarrow> ys \<in> set (chunks n xs) \<Longrightarrow> length ys = n"
proof (induction n xs arbitrary: k rule: chunks.induct)
  case (1 n xs)
  show ?case
  proof (cases "xs = []")
    case False
    with "1.prems"(2) obtain j where k: "k = Suc j" by (cases k) auto
    with "1.prems" have "length (drop n xs) = n * j" and "n \<le> length xs" by auto
    with 1 False show ?thesis by (auto simp: chunks.simps [of n xs])
  qed (use 1 in simp)
qed

lemma length_chunks: "0 < n \<Longrightarrow> length xs = n * k \<Longrightarrow> length (chunks n xs) = k"
proof (induction k arbitrary: xs)
  case (Suc k)
  then have "xs \<noteq> []" by auto
  with Suc show ?case by (simp add: chunks.simps [of n xs])
qed simp

subsection \<open>Decimal text\<close>

text \<open>\<open>format!("{n}")\<close> of an unsigned integer.\<close>

fun decimal :: "nat \<Rightarrow> string" where
  "decimal n = (if n < 10 then [char_of (48 + n)] else decimal (n div 10) @ [char_of (48 + n mod 10)])"

declare decimal.simps [simp del]

abbreviation show_word :: "'a::len word \<Rightarrow> string" where
  "show_word w \<equiv> decimal (unat w)"

end
