(* ===== verification/Hash_Chain.thy ===== *)
theory Hash_Chain
  imports Rook_Prelude
begin

text \<open>
  BLAKE3 chains.  BLAKE3 itself is a third-party crate: the plain hash and the keyed hash are
  parameters (\<open>hash_fn\<close>, \<open>keyed_fn\<close>) of every definition that hashes.  A streaming hasher fed with
  several \<open>update\<close> calls hashes the concatenation of its inputs, which is how the sources use it.

  Both replay implementations commit a sequence of envelopes by folding
  \<open>keyed(key, previous || envelope)\<close> over it.  The locale \<open>chained\<close> is the contract such a fold
  needs from its envelope encoding: the encoded bytes determine the fields a reader looks at.  Its
  lemmas say what equal chain values then imply.  It is interpreted on the Wasm-cell envelope in
  \<open>Rook_Core\<close> and on the native envelope in \<open>Native_Stream\<close>.
\<close>

type_synonym hash_fn = "bytes \<Rightarrow> digest"
type_synonym keyed_fn = "digest \<Rightarrow> bytes \<Rightarrow> digest"

text \<open>A concrete hash, for the witnesses.\<close>

definition demo_hash :: hash_fn where "demo_hash x = 0"

definition domain_key :: "hash_fn \<Rightarrow> bytes \<Rightarrow> digest" where
  "domain_key h domain = h domain"

definition chain_with ::
  "('e \<Rightarrow> bytes) \<Rightarrow> keyed_fn \<Rightarrow> digest \<Rightarrow> digest \<Rightarrow> 'e list \<Rightarrow> digest" where
  "chain_with enc kh key initial es = fold (\<lambda>e c. kh key (to_le c @ enc e)) es initial"

text \<open>The byte strings a chain feeds to the keyed hash, in order.\<close>

fun chain_inputs ::
  "('e \<Rightarrow> bytes) \<Rightarrow> keyed_fn \<Rightarrow> digest \<Rightarrow> digest \<Rightarrow> 'e list \<Rightarrow> bytes list" where
  "chain_inputs enc kh key c [] = []"
| "chain_inputs enc kh key c (e # es) =
     (to_le c @ enc e) # chain_inputs enc kh key (kh key (to_le c @ enc e)) es"

text \<open>
  No accident of the hash on one comparison: the strings hashed for the two sequences do not
  collide, and none of them hashes to the chain's seed.
\<close>

definition no_accident ::
  "('e \<Rightarrow> bytes) \<Rightarrow> keyed_fn \<Rightarrow> digest \<Rightarrow> digest \<Rightarrow> 'e list \<Rightarrow> 'e list \<Rightarrow> bool" where
  "no_accident enc kh key initial es es' \<longleftrightarrow>
     inj_on (kh key)
       (set (chain_inputs enc kh key initial es) \<union> set (chain_inputs enc kh key initial es')) \<and>
     initial \<notin> kh key ` set (chain_inputs enc kh key initial es) \<and>
     initial \<notin> kh key ` set (chain_inputs enc kh key initial es')"

lemma chain_with_Nil [simp]: "chain_with enc kh key c [] = c"
  by (simp add: chain_with_def)

lemma chain_with_Cons [simp]:
  "chain_with enc kh key c (e # es) =
     chain_with enc kh key (kh key (to_le c @ enc e)) es"
  by (simp add: chain_with_def)

lemma chain_with_append [simp]:
  "chain_with enc kh key c (es @ es') =
     chain_with enc kh key (chain_with enc kh key c es) es'"
  by (simp add: chain_with_def)

lemma chain_with_image:
  "chain_with enc kh key c es = chain_with id kh key c (map enc es)"
  by (induction es arbitrary: c) auto

lemma chain_inputs_snoc:
  "chain_inputs enc kh key c (es @ [e]) =
     chain_inputs enc kh key c es @ [to_le (chain_with enc kh key c es) @ enc e]"
  by (induction es arbitrary: c) auto

lemma chain_inputs_image:
  "chain_inputs enc kh key c es = chain_inputs id kh key c (map enc es)"
  by (induction es arbitrary: c) auto

lemma no_accident_seed:
  "no_accident enc kh key c es (es' @ [e]) \<Longrightarrow> chain_with enc kh key c (es' @ [e]) \<noteq> c"
  "no_accident enc kh key c (es @ [e]) es' \<Longrightarrow> chain_with enc kh key c (es @ [e]) \<noteq> c"
  by (force simp: no_accident_def chain_inputs_snoc)+

lemma no_accident_prefix:
  "no_accident enc kh key c (es @ [e]) (es' @ [e']) \<Longrightarrow> no_accident enc kh key c es es'"
  by (auto simp: no_accident_def chain_inputs_snoc elim: inj_on_subset)

lemma chain_images_eq:
  assumes "no_accident enc kh key c es es'"
    and "chain_with enc kh key c es = chain_with enc kh key c es'"
  shows "map enc es = map enc es'"
  using assms
proof (induction es arbitrary: es' rule: rev_induct)
  case Nil
  show ?case
  proof (cases es' rule: rev_cases)
    case (snoc ys y)
    with Nil.prems(1) have "chain_with enc kh key c es' \<noteq> c"
      by (metis no_accident_seed(1))
    with Nil.prems(2) show ?thesis by simp
  qed simp
next
  case (snoc e es)
  show ?case
  proof (cases es' rule: rev_cases)
    case Nil
    with snoc.prems(1) have "chain_with enc kh key c (es @ [e]) \<noteq> c"
      by (rule_tac no_accident_seed(2))
    with Nil snoc.prems(2) show ?thesis by simp
  next
    case (snoc ys y)
    let ?x = "to_le (chain_with enc kh key c es) @ enc e"
    let ?y = "to_le (chain_with enc kh key c ys) @ enc y"
    from snoc.prems \<open>es' = ys @ [y]\<close> have eq: "kh key ?x = kh key ?y" by simp
    from snoc.prems(1) \<open>es' = ys @ [y]\<close>
    have "inj_on (kh key) (set (chain_inputs enc kh key c (es @ [e])) \<union>
        set (chain_inputs enc kh key c (ys @ [y])))"
      by (simp add: no_accident_def)
    then have "inj_on (kh key) {?x, ?y}"
      by (rule inj_on_subset) (simp add: chain_inputs_snoc)
    then have "?x = ?y"
      using eq by (rule inj_onD [where f = "kh key"]) simp_all
    then have "chain_with enc kh key c es = chain_with enc kh key c ys"
      and "enc e = enc y" by auto
    moreover have "no_accident enc kh key c es ys"
      using snoc.prems(1) \<open>es' = ys @ [y]\<close> by (auto dest: no_accident_prefix)
    ultimately show ?thesis
      using snoc.IH [of ys] \<open>es' = ys @ [y]\<close> by simp
  qed
qed

text \<open>
  The run chains are seeded with the keyed hash of another chain's value \<open>t\<close>.  Such a chain commits
  \<open>t\<close> as well, with no condition on the seed.
\<close>

definition seeded_inputs ::
  "('e \<Rightarrow> bytes) \<Rightarrow> keyed_fn \<Rightarrow> digest \<Rightarrow> digest \<Rightarrow> 'e list \<Rightarrow> bytes list" where
  "seeded_inputs enc kh key t es =
     to_le t # chain_inputs enc kh key (kh key (to_le t)) es"

definition no_collision :: "keyed_fn \<Rightarrow> digest \<Rightarrow> bytes list \<Rightarrow> bytes list \<Rightarrow> bool" where
  "no_collision kh key xs ys \<longleftrightarrow> inj_on (kh key) (set xs \<union> set ys)"

lemma seeded_inputs_snoc:
  "seeded_inputs enc kh key t (es @ [e]) =
     seeded_inputs enc kh key t es @ [to_le (chain_with enc kh key (kh key (to_le t)) es) @ enc e]"
  by (simp add: seeded_inputs_def chain_inputs_snoc)

text \<open>The string whose keyed hash is the value of a seeded chain: the last one hashed.\<close>

lemma seeded_last:
  "chain_with enc kh key (kh key (to_le t)) es = kh key (last (seeded_inputs enc kh key t es))"
  by (cases es rule: rev_cases) (auto simp: seeded_inputs_snoc, simp add: seeded_inputs_def)

lemma seeded_inputs_Nil [simp]: "seeded_inputs enc kh key t [] = [to_le t]"
  by (simp add: seeded_inputs_def)

lemma seeded_inputs_not_Nil [simp]: "seeded_inputs enc kh key t es \<noteq> []"
  by (simp add: seeded_inputs_def)

lemma no_collision_prefix:
  "no_collision kh key (xs @ [x]) (ys @ [y]) \<Longrightarrow> no_collision kh key xs ys"
  by (auto simp: no_collision_def elim: inj_on_subset)

lemma no_collision_last:
  assumes "no_collision kh key xs ys" "xs \<noteq> []" "ys \<noteq> []"
    and "kh key (last xs) = kh key (last ys)"
  shows "last xs = last ys"
  using assms by (auto simp: no_collision_def elim: inj_onD [where f = "kh key"])

lemma seeded_images_eq:
  assumes "no_collision kh key (seeded_inputs enc kh key t es) (seeded_inputs enc kh key t' es')"
    and "chain_with enc kh key (kh key (to_le t)) es = chain_with enc kh key (kh key (to_le t')) es'"
    and ne: "\<And>e. enc e \<noteq> []"
  shows "t = t' \<and> map enc es = map enc es'"
  using assms(1,2)
proof (induction es arbitrary: es' rule: rev_induct)
  case Nil
  then have l: "last (seeded_inputs enc kh key t []) = last (seeded_inputs enc kh key t' es')"
    by (intro no_collision_last [where kh = kh and key = key]) (auto simp: seeded_last)
  show ?case
  proof (cases es' rule: rev_cases)
    case Nil
    with l show ?thesis by (simp add: seeded_inputs_def)
  next
    case (snoc ys y)
    with l have "to_le t = to_le (chain_with enc kh key (kh key (to_le t')) ys) @ enc y"
      by (simp add: seeded_inputs_snoc)
    from arg_cong [OF this, of length] ne [of y] show ?thesis by simp
  qed
next
  case (snoc e es)
  then have l: "last (seeded_inputs enc kh key t (es @ [e])) = last (seeded_inputs enc kh key t' es')"
    by (intro no_collision_last [where kh = kh and key = key]) (auto simp: seeded_last)
  show ?case
  proof (cases es' rule: rev_cases)
    case Nil
    with l have "to_le (chain_with enc kh key (kh key (to_le t)) es) @ enc e = to_le t'"
      by (simp add: seeded_inputs_snoc)
    from arg_cong [OF this, of length] ne [of e] show ?thesis by simp
  next
    case (snoc ys y)
    with l have "chain_with enc kh key (kh key (to_le t)) es =
        chain_with enc kh key (kh key (to_le t')) ys" and "enc e = enc y"
      by (auto simp: seeded_inputs_snoc)
    moreover have "no_collision kh key (seeded_inputs enc kh key t es) (seeded_inputs enc kh key t' ys)"
      using snoc.prems(1) \<open>es' = ys @ [y]\<close>
      by (auto simp: seeded_inputs_snoc dest: no_collision_prefix)
    ultimately show ?thesis
      using snoc.IH [of ys] \<open>es' = ys @ [y]\<close> by simp
  qed
qed

locale chained =
  fixes enc :: "'e \<Rightarrow> bytes" and view :: "'e \<Rightarrow> 'v"
  assumes enc_view: "enc e = enc e' \<Longrightarrow> view e = view e'"
    and enc_not_Nil: "enc e \<noteq> []"
begin

lemma map_view_eq: "map enc es = map enc es' \<Longrightarrow> map view es = map view es'"
proof (induction es arbitrary: es')
  case (Cons e es)
  then obtain y ys where "es' = y # ys" by (cases es') auto
  with Cons show ?case by (auto dest: enc_view)
qed simp

lemma chain_commits:
  assumes "no_accident enc kh key c es es'"
    and "chain_with enc kh key c es = chain_with enc kh key c es'"
  shows "map view es = map view es'"
  using chain_images_eq [OF assms] by (rule map_view_eq)

lemma seeded_chain_commits:
  assumes "no_collision kh key (seeded_inputs enc kh key t es) (seeded_inputs enc kh key t' es')"
    and "chain_with enc kh key (kh key (to_le t)) es = chain_with enc kh key (kh key (to_le t')) es'"
  shows "t = t' \<and> map view es = map view es'"
  using seeded_images_eq [OF assms enc_not_Nil] map_view_eq by blast

lemma chain_detects:
  assumes "no_accident enc kh key c es es'" and "map view es \<noteq> map view es'"
  shows "chain_with enc kh key c es \<noteq> chain_with enc kh key c es'"
  using chain_commits [OF assms(1)] assms(2) by blast

end

end
