(* ===== verification/Rook_Core.thy ===== *)
theory Rook_Core
  imports Hash_Chain "HOL-Library.Product_Lexorder" "HOL-Library.Multiset"
begin

text \<open>
  crates/rook-core/src/lib.rs: the 72-byte envelope, the settled delivery order, the single-cell
  replay scheduler, the hash of an observed run and the streaming replay of the synthetic corpus,
  and crates/rook-core-wasm, which exports its hashes as eight words.

  Index loops over the ordered deliveries are recursions on the part of the list the loop has not
  reached: \<open>[tick_start..tick_end]\<close> is the longest prefix with the current tick.
\<close>

subsection \<open>Envelopes\<close>

definition ENVELOPE_SIZE :: nat where "ENVELOPE_SIZE = 72"
definition MAGIC :: u32 where "MAGIC = from_le (ascii ''RKE1'')"
definition VERSION :: u16 where "VERSION = 1"
definition CELL_ACTOR_ID :: u32 where "CELL_ACTOR_ID = 1"
definition SOURCE_ACTOR_ID :: u32 where "SOURCE_ACTOR_ID = 2"
definition OUTPUT_ACTOR_ID :: u32 where "OUTPUT_ACTOR_ID = 3"
definition INPUT_CHANNEL_ID :: u32 where "INPUT_CHANNEL_ID = 7"
definition OUTPUT_CHANNEL_ID :: u32 where "OUTPUT_CHANNEL_ID = 8"
definition OUTPUT_DOMAIN :: bytes where "OUTPUT_DOMAIN = ascii ''rook-output-v1''"
definition RUN_DOMAIN :: bytes where "RUN_DOMAIN = ascii ''rook-run-v1''"

datatype envelope_kind = KDeliver | KEmit | KTimer | KGap | KMarker

fun kind_code :: "envelope_kind \<Rightarrow> u16" where
  "kind_code KDeliver = 1"
| "kind_code KEmit = 2"
| "kind_code KTimer = 3"
| "kind_code KGap = 4"
| "kind_code KMarker = 5"

record envelope =
  e_kind :: envelope_kind
  e_tick :: u64
  e_src_actor :: u32
  e_dst_actor :: u32
  e_channel_id :: u32
  e_payload_len :: u32
  e_src_seq :: u64
  e_payload_blake3 :: digest

definition canonical_bytes :: "envelope \<Rightarrow> bytes" where
  "canonical_bytes e =
     to_le MAGIC @ to_le VERSION @ to_le (kind_code (e_kind e)) @ to_le (e_tick e) @
     to_le (e_src_actor e) @ to_le (e_dst_actor e) @ to_le (e_channel_id e) @
     to_le (e_payload_len e) @ to_le (e_src_seq e) @ to_le (e_payload_blake3 e)"

lemma kind_code_inject [simp]: "kind_code k = kind_code k' \<longleftrightarrow> k = k'"
  by (cases k; cases k') auto

lemma length_canonical_bytes [simp]: "length (canonical_bytes e) = ENVELOPE_SIZE"
  by (simp add: canonical_bytes_def ENVELOPE_SIZE_def)

lemma canonical_bytes_inject [simp]: "canonical_bytes e = canonical_bytes e' \<longleftrightarrow> e = e'"
  by (cases e; cases e') (auto simp: canonical_bytes_def append_eq_append_conv)

definition extend_chain :: "keyed_fn \<Rightarrow> digest \<Rightarrow> digest \<Rightarrow> envelope \<Rightarrow> digest" where
  "extend_chain kh key previous e = kh key (to_le previous @ canonical_bytes e)"

definition chain_hash :: "keyed_fn \<Rightarrow> digest \<Rightarrow> digest \<Rightarrow> envelope list \<Rightarrow> digest" where
  "chain_hash kh key initial es = fold (\<lambda>e chain. extend_chain kh key chain e) es initial"

lemma chain_hash_with: "chain_hash kh key c es = chain_with canonical_bytes kh key c es"
  by (simp add: chain_hash_def chain_with_def extend_chain_def)

lemma chain_hash_simps [simp]:
  "chain_hash kh key c [] = c"
  "chain_hash kh key c (e # es) = chain_hash kh key (extend_chain kh key c e) es"
  "chain_hash kh key c (es @ es') = chain_hash kh key (chain_hash kh key c es) es'"
  by (simp_all add: chain_hash_def)

lemma canonical_bytes_not_Nil [simp]: "canonical_bytes e \<noteq> []"
  using length_canonical_bytes [of e] by (auto simp: ENVELOPE_SIZE_def simp del: length_canonical_bytes)

interpretation cell: chained canonical_bytes "\<lambda>e. e"
  by unfold_locales simp_all

subsection \<open>Scheduling\<close>

definition scheduling_key :: "envelope \<Rightarrow> u64 \<times> u32 \<times> u32 \<times> u32 \<times> u64" where
  "scheduling_key e = (e_tick e, e_dst_actor e, e_channel_id e, e_src_actor e, e_src_seq e)"

datatype replay_error =
  DuplicateSchedulingKey | TooManyDeliveries | EmitOnDeadTick | NonMonotonicEmitSequence

record replay_hashes =
  run_hash :: digest
  output_digest :: digest

definition has_duplicate_key :: "envelope list \<Rightarrow> bool" where
  "has_duplicate_key ordered =
     any_window2 (\<lambda>a b. scheduling_key a = scheduling_key b) ordered"

definition synthetic_payload :: "u32 \<Rightarrow> bytes" where
  "synthetic_payload event_index =
     to_le event_index @ to_le (event_index * 2654435761) @
     to_le ((ucast event_index :: u64) * 1000003)"

definition echo_and_count_payload :: "u32 \<Rightarrow> u64 \<Rightarrow> bytes" where
  "echo_and_count_payload event_index emitted = synthetic_payload event_index @ to_le emitted"

definition synthetic_delivery :: "hash_fn \<Rightarrow> u32 \<Rightarrow> envelope" where
  "synthetic_delivery h event_index =
     (let payload = synthetic_payload event_index in
      \<lparr>e_kind = KDeliver, e_tick = ucast (event_index div 4),
       e_src_actor = SOURCE_ACTOR_ID, e_dst_actor = CELL_ACTOR_ID,
       e_channel_id = INPUT_CHANNEL_ID, e_payload_len = word_of_nat (length payload),
       e_src_seq = ucast event_index, e_payload_blake3 = h payload\<rparr>)"

definition synthetic_emit :: "hash_fn \<Rightarrow> u32 \<Rightarrow> u64 \<Rightarrow> envelope" where
  "synthetic_emit h event_index tick =
     (let payload = echo_and_count_payload event_index (ucast event_index + 1) in
      \<lparr>e_kind = KEmit, e_tick = tick,
       e_src_actor = CELL_ACTOR_ID, e_dst_actor = OUTPUT_ACTOR_ID,
       e_channel_id = OUTPUT_CHANNEL_ID, e_payload_len = word_of_nat (length payload),
       e_src_seq = ucast event_index, e_payload_blake3 = h payload\<rparr>)"

definition generate_synthetic_deliveries :: "hash_fn \<Rightarrow> u32 \<Rightarrow> envelope list" where
  "generate_synthetic_deliveries h event_count =
     map (\<lambda>i. synthetic_delivery h (word_of_nat i)) [0..<unat event_count]"

subsection \<open>replay\<close>

text \<open>
  The emit of one delivery, given the count after it.  \<open>emitted_count.checked_add(1)\<close> cannot fail:
  the count never exceeds the number of deliveries, which the first guard bounds by
  \<open>u32::MAX\<close> (lemma \<open>echo_emits_nth\<close>).
\<close>

definition echo_emit :: "hash_fn \<Rightarrow> envelope \<Rightarrow> u64 \<Rightarrow> envelope" where
  "echo_emit h delivery emitted_count =
     (let event_index = (ucast (emitted_count - 1) :: u32);
          payload = echo_and_count_payload event_index emitted_count in
      \<lparr>e_kind = KEmit, e_tick = e_tick delivery,
       e_src_actor = CELL_ACTOR_ID, e_dst_actor = OUTPUT_ACTOR_ID,
       e_channel_id = OUTPUT_CHANNEL_ID, e_payload_len = word_of_nat (length payload),
       e_src_seq = emitted_count - 1, e_payload_blake3 = h payload\<rparr>)"

fun emit_group ::
  "hash_fn \<Rightarrow> keyed_fn \<Rightarrow> digest \<Rightarrow> digest \<Rightarrow> envelope list \<Rightarrow> digest \<times> digest \<times> u64 \<Rightarrow>
   digest \<times> digest \<times> u64" where
  "emit_group h kh run_key output_key [] st = st"
| "emit_group h kh run_key output_key (d # ds) (run, out, emitted_count) =
     (let emitted_count' = emitted_count + 1;
          emitted = echo_emit h d emitted_count' in
      emit_group h kh run_key output_key ds
        (extend_chain kh run_key run emitted, extend_chain kh output_key out emitted,
         emitted_count'))"

abbreviation same_tick :: "envelope \<Rightarrow> envelope \<Rightarrow> bool" where
  "same_tick d \<equiv> \<lambda>e. e_tick e = e_tick d"

function replay_ticks ::
  "hash_fn \<Rightarrow> keyed_fn \<Rightarrow> digest \<Rightarrow> digest \<Rightarrow> envelope list \<Rightarrow> digest \<times> digest \<times> u64 \<Rightarrow>
   digest \<times> digest \<times> u64" where
  "replay_ticks h kh run_key output_key [] st = st"
| "replay_ticks h kh run_key output_key (d # ds) (run, out, emitted_count) =
     (let group = d # takeWhile (same_tick d) ds;
          rest = dropWhile (same_tick d) ds;
          run' = chain_hash kh run_key run group in
      replay_ticks h kh run_key output_key rest
        (emit_group h kh run_key output_key group (run', out, emitted_count)))"
  by pat_completeness auto
termination
  by (relation "measure (\<lambda>(h, kh, rk, ok, ds, st). length ds)")
    (auto simp: less_Suc_eq_le length_dropWhile_le)

definition replay :: "hash_fn \<Rightarrow> keyed_fn \<Rightarrow> envelope list \<Rightarrow> replay_error + replay_hashes" where
  "replay h kh deliveries =
     (if length deliveries > 2 ^ 32 - 1 then Inl TooManyDeliveries
      else let ordered = sort_key scheduling_key deliveries in
        if has_duplicate_key ordered then Inl DuplicateSchedulingKey
        else let trace_hash = chain_hash kh (domain_key h (ascii ''rook-trace-v1/synthetic@1'')) 0 ordered;
                 run_key = domain_key h RUN_DOMAIN;
                 output_key = domain_key h OUTPUT_DOMAIN;
                 (run, out, _) =
                   replay_ticks h kh run_key output_key ordered (kh run_key (to_le trace_hash), 0, 0)
             in Inr \<lparr>run_hash = run, output_digest = out\<rparr>)"

subsection \<open>replay\_synthetic\<close>

function synthetic_ticks ::
  "hash_fn \<Rightarrow> keyed_fn \<Rightarrow> digest \<Rightarrow> digest \<Rightarrow> u32 \<Rightarrow> nat \<Rightarrow> digest \<times> digest \<Rightarrow> digest \<times> digest" where
  "synthetic_ticks h kh run_key output_key event_count tick_start (run, out) =
     (if tick_start < unat event_count then
        let tick = word_of_nat (tick_start div 4);
            tick_end = min (unat event_count) (min (2 ^ 32 - 1) (tick_start + 4));
            run' = fold (\<lambda>i r. extend_chain kh run_key r (synthetic_delivery h (word_of_nat i)))
                     [tick_start..<tick_end] run;
            (run'', out'') = fold (\<lambda>i (r, q).
                let emitted = synthetic_emit h (word_of_nat i) tick in
                (extend_chain kh run_key r emitted, extend_chain kh output_key q emitted))
              [tick_start..<tick_end] (run', out)
        in synthetic_ticks h kh run_key output_key event_count tick_end (run'', out'')
      else (run, out))"
  by pat_completeness auto
termination
proof (relation "measure (\<lambda>(h, kh, rk, ok, n, i, st). unat n - i)", goal_cases)
  case (2 h kh rk ok n i run out)
  have "unat n < 2 ^ 32"
    using unsigned_less [of n, where ?'a = nat] by simp
  with 2 show ?case by auto
qed simp

definition replay_synthetic :: "hash_fn \<Rightarrow> keyed_fn \<Rightarrow> u32 \<Rightarrow> replay_hashes" where
  "replay_synthetic h kh event_count =
     (let trace_key = domain_key h (ascii ''rook-trace-v1/synthetic@1'');
          run_key = domain_key h RUN_DOMAIN;
          output_key = domain_key h OUTPUT_DOMAIN;
          trace_hash = fold (\<lambda>i c. extend_chain kh trace_key c (synthetic_delivery h (word_of_nat i)))
                         [0..<unat event_count] 0;
          (run, out) = synthetic_ticks h kh run_key output_key event_count 0
                         (kh run_key (to_le trace_hash), 0)
      in \<lparr>run_hash = run, output_digest = out\<rparr>)"

subsection \<open>hash\_observed\<close>

text \<open>
  One live tick: the deliveries, then the emits recorded on that tick.  Emits that carry an
  earlier tick than the current one were never delivered to.
\<close>

function observed_ticks ::
  "keyed_fn \<Rightarrow> digest \<Rightarrow> digest \<Rightarrow> envelope list \<Rightarrow> envelope list \<Rightarrow> digest \<times> digest \<Rightarrow>
   replay_error + (digest \<times> digest)" where
  "observed_ticks kh run_key output_key [] emits st =
     (if emits \<noteq> [] then Inl EmitOnDeadTick else Inr st)"
| "observed_ticks kh run_key output_key (d # ds) emits (run, out) =
     (let run' = chain_hash kh run_key run (d # takeWhile (same_tick d) ds);
          live = takeWhile (same_tick d) emits;
          later = dropWhile (same_tick d) emits;
          run'' = chain_hash kh run_key run' live;
          out'' = chain_hash kh output_key out live in
      (case later of
         e # _ \<Rightarrow> if e_tick e < e_tick d then Inl EmitOnDeadTick
                  else observed_ticks kh run_key output_key (dropWhile (same_tick d) ds) later
                         (run'', out'')
       | [] \<Rightarrow> observed_ticks kh run_key output_key (dropWhile (same_tick d) ds) later
                 (run'', out'')))"
  by pat_completeness auto
termination
  by (relation "measure (\<lambda>(kh, rk, ok, ds, es, st). length ds)")
    (auto simp: less_Suc_eq_le length_dropWhile_le)

definition hash_observed ::
  "hash_fn \<Rightarrow> keyed_fn \<Rightarrow> bytes \<Rightarrow> envelope list \<Rightarrow> envelope list \<Rightarrow> replay_error + replay_hashes" where
  "hash_observed h kh trace_domain deliveries emits =
     (if length deliveries > 2 ^ 32 - 1 then Inl TooManyDeliveries
      else let ordered = sort_key scheduling_key deliveries in
        if has_duplicate_key ordered then Inl DuplicateSchedulingKey
        else if any_window2 (\<lambda>a b. e_src_seq a \<ge> e_src_seq b \<or> e_tick a > e_tick b) emits
          then Inl NonMonotonicEmitSequence
        else let trace_hash = chain_hash kh (domain_key h trace_domain) 0 ordered;
                 run_key = domain_key h RUN_DOMAIN;
                 output_key = domain_key h OUTPUT_DOMAIN
             in (case observed_ticks kh run_key output_key ordered emits
                        (kh run_key (to_le trace_hash), 0) of
                   Inl e \<Rightarrow> Inl e
                 | Inr (run, out) \<Rightarrow> Inr \<lparr>run_hash = run, output_digest = out\<rparr>))"

subsection \<open>replay depends on the set of deliveries only\<close>

lemma has_duplicate_key_sorted:
  "has_duplicate_key (sort_key scheduling_key ds) \<longleftrightarrow> \<not> distinct (map scheduling_key ds)"
proof -
  have "has_duplicate_key (sort_key scheduling_key ds) \<longleftrightarrow>
      any_window2 (=) (map scheduling_key (sort_key scheduling_key ds))"
    unfolding has_duplicate_key_def by (rule any_window2_map)
  also have "\<dots> \<longleftrightarrow> \<not> distinct (map scheduling_key (sort_key scheduling_key ds))"
    by (rule sorted_no_adjacent_dup) (rule sorted_sort_key)
  also have "\<dots> \<longleftrightarrow> \<not> distinct (map scheduling_key ds)"
    by (simp add: distinct_map)
  finally show ?thesis .
qed

lemma sort_key_unique:
  assumes "mset ds = mset ds'" and "distinct (map scheduling_key ds)"
  shows "sort_key scheduling_key ds = sort_key scheduling_key ds'"
proof (rule sort_key_inj_key_eq)
  show "mset ds = mset (sort_key scheduling_key ds')" using assms(1) by simp
  show "inj_on scheduling_key (set ds)" using assms(2) by (simp add: distinct_map)
  show "sorted (map scheduling_key (sort_key scheduling_key ds'))" by simp
qed

lemma replay_order_independent:
  assumes "mset ds = mset ds'"
  shows "replay h kh ds = replay h kh ds'"
proof -
  have len: "length ds = length ds'" using assms by (rule mset_eq_length)
  have dup: "distinct (map scheduling_key ds) \<longleftrightarrow> distinct (map scheduling_key ds')"
    using assms by (intro mset_eq_imp_distinct_iff) simp
  show ?thesis
    using sort_key_unique [OF assms] dup
    by (cases "distinct (map scheduling_key ds)") (simp_all add: replay_def has_duplicate_key_sorted len)
qed

lemma replay_result_iff:
  "(\<exists>r. replay h kh ds = Inr r) \<longleftrightarrow> length ds \<le> 2 ^ 32 - 1 \<and> distinct (map scheduling_key ds)"
  by (auto simp: replay_def has_duplicate_key_sorted Let_def split: prod.splits)

text \<open>The emits \<open>replay\<close> makes up for a list of deliveries.\<close>

fun echo_emits :: "hash_fn \<Rightarrow> u64 \<Rightarrow> envelope list \<Rightarrow> envelope list" where
  "echo_emits h c [] = []"
| "echo_emits h c (d # ds) = echo_emit h d (c + 1) # echo_emits h (c + 1) ds"

lemma length_echo_emits [simp]: "length (echo_emits h c ds) = length ds"
  by (induction ds arbitrary: c) auto

lemma echo_emits_append:
  "echo_emits h c (ds @ ds') = echo_emits h c ds @ echo_emits h (c + word_of_nat (length ds)) ds'"
  by (induction ds arbitrary: c) (auto simp: algebra_simps)

lemma echo_emits_nth:
  "i < length ds \<Longrightarrow>
   echo_emits h c ds ! i = echo_emit h (ds ! i) (c + word_of_nat i + 1)"
proof (induction ds arbitrary: c i)
  case (Cons d ds)
  then show ?case by (cases i) (auto simp: algebra_simps)
qed simp

lemma map_tick_echo_emits [simp]: "map e_tick (echo_emits h c ds) = map e_tick ds"
  by (induction ds arbitrary: c) (auto simp: echo_emit_def Let_def)

lemma set_tick_echo_emits: "e \<in> set (echo_emits h c ds) \<Longrightarrow> e_tick e \<in> e_tick ` set ds"
  by (metis list.set_map map_tick_echo_emits image_eqI)

lemma emit_group_echo:
  "emit_group h kh rk ok ds (run, out, c) =
     (chain_hash kh rk run (echo_emits h c ds), chain_hash kh ok out (echo_emits h c ds),
      c + word_of_nat (length ds))"
  by (induction ds arbitrary: run out c) (auto simp: Let_def algebra_simps)

lemma dropWhile_same_tick_later:
  assumes "sorted (map e_tick (d # ds))" and "dropWhile (same_tick d) ds = e # rest"
  shows "e_tick d < e_tick e"
proof -
  have "e \<in> set ds" using assms(2) by (metis list.set_intros(1) set_dropWhileD)
  moreover have "e_tick e \<noteq> e_tick d" using assms(2) hd_dropWhile [of "same_tick d" ds] by auto
  ultimately show ?thesis using assms(1) by (auto simp: less_le)
qed

lemma echo_emits_later:
  assumes "sorted (map e_tick (d # ds))"
  shows "takeWhile (same_tick d) (echo_emits h c (dropWhile (same_tick d) ds)) = []"
    and "echo_emits h c (dropWhile (same_tick d) ds) = e # es \<Longrightarrow> \<not> e_tick e < e_tick d"
proof -
  define r where "r = dropWhile (same_tick d) ds"
  have r: "r = [] \<or> (\<exists>x xs. r = x # xs \<and> e_tick d < e_tick x)"
    using dropWhile_same_tick_later [OF assms] unfolding r_def
    by (cases "dropWhile (same_tick d) ds") auto
  show "takeWhile (same_tick d) (echo_emits h c (dropWhile (same_tick d) ds)) = []"
    using r unfolding r_def [symmetric] by (auto simp: echo_emit_def Let_def)
  show "\<not> e_tick e < e_tick d" if "echo_emits h c (dropWhile (same_tick d) ds) = e # es"
    using r that unfolding r_def [symmetric] by (auto simp: echo_emit_def Let_def)
qed

lemma observed_ticks_echo:
  "sorted (map e_tick ds) \<Longrightarrow>
   observed_ticks kh rk ok ds (echo_emits h c ds) (run, out) =
     (let (run', out', _) = replay_ticks h kh rk ok ds (run, out, c) in Inr (run', out'))"
proof (induction h kh rk ok ds "(run, out, c)" arbitrary: run out c rule: replay_ticks.induct)
  case (1 h kh rk ok)
  then show ?case by simp
next
  case (2 h kh rk ok d ds run out c)
  let ?grp = "d # takeWhile (same_tick d) ds" and ?rest = "dropWhile (same_tick d) ds"
  let ?c = "c + word_of_nat (length ?grp)"
  have split: "echo_emits h c (d # ds) = echo_emits h c ?grp @ echo_emits h ?c ?rest"
    using echo_emits_append [of h c ?grp ?rest]
    by (simp only: append_Cons takeWhile_dropWhile_id)
  have grp: "e_tick e = e_tick d" if "e \<in> set (echo_emits h c ?grp)" for e
    using set_tick_echo_emits [OF that] by (auto dest: set_takeWhileD)
  have later_Nil: "takeWhile (same_tick d) (echo_emits h ?c ?rest) = []"
    using "2.prems" by (rule echo_emits_later(1))
  have live: "takeWhile (same_tick d) (echo_emits h c (d # ds)) = echo_emits h c ?grp"
    unfolding split using grp later_Nil by (rule takeWhile_split(1))
  have later: "dropWhile (same_tick d) (echo_emits h c (d # ds)) = echo_emits h ?c ?rest"
    unfolding split using grp later_Nil by (rule takeWhile_split(2))
  have sorted: "sorted (map e_tick ?rest)"
    using "2.prems" by (auto intro: sorted_map_dropWhile)
  have group: "emit_group h kh rk ok ?grp (chain_hash kh rk run ?grp, out, c) =
      (chain_hash kh rk (chain_hash kh rk run ?grp) (echo_emits h c ?grp),
       chain_hash kh ok out (echo_emits h c ?grp), ?c)"
    by (rule emit_group_echo)
  have IH: "observed_ticks kh rk ok ?rest (echo_emits h ?c ?rest)
      (chain_hash kh rk (chain_hash kh rk run ?grp) (echo_emits h c ?grp),
       chain_hash kh ok out (echo_emits h c ?grp)) =
     (let (run', out', _) = replay_ticks h kh rk ok (d # ds) (run, out, c) in Inr (run', out'))"
    using "2.hyps" [OF refl refl refl _ sorted] group by (simp only: replay_ticks.simps Let_def)
  define L where "L = echo_emits h ?c ?rest"
  define G where "G = echo_emits h c ?grp"
  have "\<not> e_tick e < e_tick d" if "L = e # es" for e es
    using echo_emits_later(2) [OF "2.prems"] that unfolding L_def .
  then have step: "observed_ticks kh rk ok (d # ds) (echo_emits h c (d # ds)) (run, out) =
      observed_ticks kh rk ok ?rest L
        (chain_hash kh rk (chain_hash kh rk run ?grp) G, chain_hash kh ok out G)"
    unfolding observed_ticks.simps Let_def live later L_def [symmetric] G_def [symmetric]
    by (cases L) simp_all
  show ?case
    unfolding step L_def G_def by (rule IH)
qed


subsection \<open>An observed run of the echo cell hashes as replay does\<close>

lemma echo_emits_monotone:
  assumes "sorted (map e_tick ds)" and "length ds \<le> 2 ^ 32 - 1"
  shows "\<not> any_window2 (\<lambda>a b. e_src_seq a \<ge> e_src_seq b \<or> e_tick a > e_tick b) (echo_emits h 0 ds)"
proof -
  let ?es = "echo_emits h 0 ds"
  have "transp (\<lambda>a b. \<not> (e_src_seq a \<ge> e_src_seq b \<or> e_tick a > e_tick b))"
    by (auto intro!: transpI)
  moreover have "sorted_wrt (\<lambda>a b. \<not> (e_src_seq a \<ge> e_src_seq b \<or> e_tick a > e_tick b)) ?es"
    unfolding sorted_wrt_iff_nth_less
  proof (intro allI impI)
    fix i j assume ij: "i < j" "j < length ?es"
    have "i < 2 ^ 64" "j < 2 ^ 64" using ij assms(2) by auto
    then have "(word_of_nat i :: u64) < word_of_nat j"
      using ij by (simp add: word_less_nat_alt unat_of_nat take_bit_eq_mod)
    moreover have "e_tick (ds ! i) \<le> e_tick (ds ! j)"
      using assms(1) ij by (auto simp: sorted_iff_nth_mono)
    ultimately show "\<not> (e_src_seq (?es ! i) \<ge> e_src_seq (?es ! j) \<or> e_tick (?es ! i) > e_tick (?es ! j))"
      using ij by (simp add: echo_emits_nth echo_emit_def Let_def not_le not_less)
  qed
  ultimately show ?thesis by (rule not_any_window2_conv_sorted_wrt [THEN iffD2])
qed

lemma sorted_tick_sort_key: "sorted (map e_tick (sort_key scheduling_key ds))"
proof -
  have "sorted_wrt (\<lambda>a b. scheduling_key a \<le> scheduling_key b) (sort_key scheduling_key ds)"
    using sorted_sort_key [of scheduling_key ds] by (simp only: sorted_wrt_map)
  then show ?thesis
    unfolding sorted_wrt_map
    by (rule sorted_wrt_mono_rel [rotated]) (auto simp: scheduling_key_def less_eq_prod_def)
qed

lemma hash_observed_echo:
  "hash_observed h kh (ascii ''rook-trace-v1/synthetic@1'') ds
     (echo_emits h 0 (sort_key scheduling_key ds)) = replay h kh ds"
proof (cases "length ds > 2 ^ 32 - 1 \<or> has_duplicate_key (sort_key scheduling_key ds)")
  case True
  then show ?thesis by (auto simp: hash_observed_def replay_def Let_def)
next
  case False
  let ?o = "sort_key scheduling_key ds"
  have "\<not> any_window2 (\<lambda>a b. e_src_seq a \<ge> e_src_seq b \<or> e_tick a > e_tick b) (echo_emits h 0 ?o)"
    using False by (intro echo_emits_monotone sorted_tick_sort_key) auto
  then show ?thesis
    using False
    by (simp add: hash_observed_def replay_def observed_ticks_echo [OF sorted_tick_sort_key] Let_def
        split: prod.split)
qed

subsection \<open>The order an observed run is hashed in\<close>

function observed_order :: "envelope list \<Rightarrow> envelope list \<Rightarrow> envelope list" where
  "observed_order [] emits = []"
| "observed_order (d # ds) emits =
     (d # takeWhile (same_tick d) ds) @ takeWhile (same_tick d) emits @
       observed_order (dropWhile (same_tick d) ds) (dropWhile (same_tick d) emits)"
  by pat_completeness auto
termination
  by (relation "measure (length \<circ> fst)") (auto simp: less_Suc_eq_le length_dropWhile_le)

lemma observed_ticks_step:
  "observed_ticks kh rk ok (d # ds) es (run, out) = Inr r \<longleftrightarrow>
     (\<forall>e es'. dropWhile (same_tick d) es = e # es' \<longrightarrow> \<not> e_tick e < e_tick d) \<and>
     observed_ticks kh rk ok (dropWhile (same_tick d) ds) (dropWhile (same_tick d) es)
       (chain_hash kh rk (chain_hash kh rk run (d # takeWhile (same_tick d) ds)) (takeWhile (same_tick d) es),
        chain_hash kh ok out (takeWhile (same_tick d) es)) = Inr r"
proof (cases "dropWhile (same_tick d) es")
  case Nil
  show ?thesis unfolding observed_ticks.simps Let_def Nil by simp
next
  case (Cons e es')
  show ?thesis unfolding observed_ticks.simps Let_def Cons by simp
qed

lemma observed_ticks_chains:
  "observed_ticks kh rk ok ds es (run, out) = Inr (run', out') \<Longrightarrow>
     run' = chain_hash kh rk run (observed_order ds es) \<and> out' = chain_hash kh ok out es \<and>
     e_tick ` set es \<subseteq> e_tick ` set ds"
proof (induction ds es arbitrary: run out rule: observed_order.induct)
  case (1 es)
  then show ?case by (auto split: if_splits)
next
  case (2 d ds es)
  let ?l = "takeWhile (same_tick d) es" and ?m = "dropWhile (same_tick d) es"
  from "2.prems" have "run' = chain_hash kh rk (chain_hash kh rk (chain_hash kh rk run
        (d # takeWhile (same_tick d) ds)) ?l) (observed_order (dropWhile (same_tick d) ds) ?m)"
    and out: "out' = chain_hash kh ok (chain_hash kh ok out ?l) ?m"
    and sub: "e_tick ` set ?m \<subseteq> e_tick ` set (dropWhile (same_tick d) ds)"
    unfolding observed_ticks_step by (auto dest!: "2.IH")
  moreover have "chain_hash kh ok (chain_hash kh ok out ?l) ?m = chain_hash kh ok out es"
    by (simp flip: chain_hash_simps(3))
  moreover have "e_tick ` set es \<subseteq> e_tick ` set (d # ds)"
  proof
    fix t assume "t \<in> e_tick ` set es"
    then have "t \<in> e_tick ` set ?l \<union> e_tick ` set ?m"
      by (metis image_Un set_append takeWhile_dropWhile_id)
    moreover have "e_tick ` set ?l \<subseteq> {e_tick d}"
      by (auto dest: set_takeWhileD)
    moreover have "e_tick ` set (dropWhile (same_tick d) ds) \<subseteq> e_tick ` set (d # ds)"
      by (auto dest: set_dropWhileD)
    ultimately show "t \<in> e_tick ` set (d # ds)"
      using sub by (elim UnE) (auto dest!: subsetD)
  qed
  ultimately show ?case by simp
qed


lemma observed_ticks_total:
  assumes "sorted (map e_tick ds)" and "sorted (map e_tick es)"
    and "e_tick ` set es \<subseteq> e_tick ` set ds"
  shows "\<exists>r. observed_ticks kh rk ok ds es st = Inr r"
  using assms
proof (induction ds es arbitrary: st rule: observed_order.induct)
  case (1 es)
  then show ?case by simp
next
  case (2 d ds es)
  obtain run out where st: "st = (run, out)" by (cases st)
  let ?m = "dropWhile (same_tick d) es" and ?rest = "dropWhile (same_tick d) ds"
  have ge: "e_tick d \<le> e_tick e" if "e \<in> set es" for e
    using "2.prems"(1,3) that by fastforce
  have "e_tick ` set ?m \<subseteq> e_tick ` set ?rest"
  proof
    fix t assume "t \<in> e_tick ` set ?m"
    then obtain e where e: "e \<in> set ?m" "t = e_tick e" by blast
    obtain m0 ms where m: "?m = m0 # ms" using e by (cases ?m) auto
    have m0: "m0 \<in> set es" using m by (rule_tac set_dropWhileD [of m0 "same_tick d"]) simp
    have "e_tick m0 \<noteq> e_tick d" using m hd_dropWhile [of "same_tick d" es] by auto
    moreover have "sorted (map e_tick ?m)" using "2.prems"(2) by (rule sorted_map_dropWhile)
    ultimately have "e_tick e \<noteq> e_tick d"
      using m e ge [OF m0] by auto
    moreover have "t \<in> e_tick ` set (d # ds)"
      using "2.prems"(3) e by (auto dest: set_dropWhileD)
    ultimately obtain x where "x \<in> set ds" "e_tick x = t" "e_tick x \<noteq> e_tick d"
      using e by auto
    then show "t \<in> e_tick ` set ?rest"
      using in_set_dropWhile [of x ds "same_tick d"] by auto
  qed
  then have "\<exists>r. observed_ticks kh rk ok ?rest ?m st' = Inr r" for st'
    using "2.prems"(1,2) by (intro "2.IH") (auto intro: sorted_map_dropWhile)
  moreover have "\<not> e_tick e < e_tick d" if "?m = e # es'" for e es'
  proof -
    have "e \<in> set es" using that by (rule_tac set_dropWhileD [of e "same_tick d"]) simp
    then show ?thesis using ge by (simp add: leD)
  qed
  ultimately show ?case
    unfolding st observed_ticks_step by blast
qed

lemma observed_order_inject:
  assumes "sorted (map e_tick ds)"
    and "observed_ticks kh rk ok ds es st = Inr r" and "observed_ticks kh rk ok ds es' st' = Inr r'"
    and "observed_order ds es = observed_order ds es'"
  shows "es = es'"
  using assms
proof (induction ds es arbitrary: es' st st' rule: observed_order.induct)
  case (1 es)
  then show ?case by (auto split: if_splits)
next
  case (2 d ds es)
  obtain run out run' out' where st: "st = (run, out)" "st' = (run', out')"
    by (cases st; cases st')
  let ?rest = "dropWhile (same_tick d) ds"
  have live: "takeWhile (same_tick d) (takeWhile (same_tick d) xs @ observed_order ?rest ys)
      = takeWhile (same_tick d) xs" for xs ys
  proof (rule takeWhile_split(1))
    show "takeWhile (same_tick d) (observed_order ?rest ys) = []"
    proof (cases ?rest)
      case Nil
      show ?thesis unfolding Nil by simp
    next
      case (Cons x xs)
      show ?thesis
        unfolding Cons using dropWhile_same_tick_later [OF "2.prems"(1) Cons] by simp
    qed
  qed (auto dest: set_takeWhileD)
  have eq: "takeWhile (same_tick d) es @ observed_order ?rest (dropWhile (same_tick d) es) =
      takeWhile (same_tick d) es' @ observed_order ?rest (dropWhile (same_tick d) es')"
    using "2.prems"(4) by simp
  have l: "takeWhile (same_tick d) es = takeWhile (same_tick d) es'"
    using arg_cong [OF eq, of "takeWhile (same_tick d)"] unfolding live .
  with eq have "observed_order ?rest (dropWhile (same_tick d) es) =
      observed_order ?rest (dropWhile (same_tick d) es')" by simp
  moreover have "sorted (map e_tick ?rest)"
    using "2.prems"(1) by (auto intro: sorted_map_dropWhile)
  ultimately have "dropWhile (same_tick d) es = dropWhile (same_tick d) es'"
    using "2.prems"(2,3) "2.IH" unfolding st observed_ticks_step by blast
  with l show ?case by (metis takeWhile_dropWhile_id)
qed


subsection \<open>Streaming replay\<close>

abbreviation synth :: "hash_fn \<Rightarrow> nat \<Rightarrow> envelope" where
  "synth h i \<equiv> synthetic_delivery h (word_of_nat i)"

lemma u32_div4: "i < 2 ^ 32 \<Longrightarrow> (word_of_nat i :: u32) div 4 = word_of_nat (i div 4)"
  by (simp add: word_arith_nat_div)

lemma synth_tick: "i < 2 ^ 32 \<Longrightarrow> e_tick (synth h i) = word_of_nat (i div 4)"
  by (simp add: synthetic_delivery_def Let_def u32_div4 ucast_u32_u64)

lemma synth_seq: "i < 2 ^ 32 \<Longrightarrow> e_src_seq (synth h i) = word_of_nat i"
  by (simp add: synthetic_delivery_def Let_def ucast_u32_u64)

lemma synth_same_tick:
  "i < 2 ^ 32 \<Longrightarrow> j < 2 ^ 32 \<Longrightarrow> e_tick (synth h j) = e_tick (synth h i) \<longleftrightarrow> j div 4 = i div 4"
  by (simp add: synth_tick u64_of_nat_eq)

lemma synth_key_less:
  assumes "i < j" "j < 2 ^ 32"
  shows "scheduling_key (synth h i) < scheduling_key (synth h j)"
proof -
  have "(word_of_nat (i div 4) :: u64) \<le> word_of_nat (j div 4)"
    using assms by (intro u64_of_nat_le [THEN iffD2]) (auto simp: div_le_mono)
  moreover have "(word_of_nat i :: u64) < word_of_nat j"
    using assms by (simp add: u64_of_nat_less)
  ultimately show ?thesis
    using assms by (simp add: scheduling_key_def synth_tick synth_seq less_prod_def less_eq_prod_def)
      (simp add: synthetic_delivery_def Let_def)
qed


lemma generate_length [simp]: "length (generate_synthetic_deliveries h n) = unat n"
  by (simp add: generate_synthetic_deliveries_def)

lemma generate_keys_sorted:
  "sorted_wrt (<) (map scheduling_key (generate_synthetic_deliveries h n))"
  using unat_u32_bound [of n]
  by (auto simp: generate_synthetic_deliveries_def sorted_wrt_iff_nth_less intro!: synth_key_less)

lemma generate_sort_key:
  "sort_key scheduling_key (generate_synthetic_deliveries h n) = generate_synthetic_deliveries h n"
  by (rule sort_key_id_if_sorted)
    (rule strict_sorted_imp_sorted [OF generate_keys_sorted])

lemma generate_no_duplicate: "\<not> has_duplicate_key (generate_synthetic_deliveries h n)"
  using has_duplicate_key_sorted [of "generate_synthetic_deliveries h n"] generate_keys_sorted [of h n]
  by (auto simp: generate_sort_key strict_sorted_iff)

lemma echo_emit_synth:
  assumes "i < 2 ^ 32"
  shows "echo_emit h (synth h i) (word_of_nat i + 1) =
    synthetic_emit h (word_of_nat i) (word_of_nat (i div 4))"
proof -
  have "(ucast (word_of_nat i :: u64) :: u32) = word_of_nat i"
    using assms by (simp add: unsigned_of_nat take_bit_eq_mod)
  then show ?thesis
    using assms by (simp add: echo_emit_def synthetic_emit_def Let_def synth_tick ucast_u32_u64)
qed

lemma emit_group_synth:
  assumes "\<And>k. i \<le> k \<Longrightarrow> k < j \<Longrightarrow> k < 2 ^ 32 \<and> k div 4 = t" and "i \<le> j"
  shows "emit_group h kh rk ok (map (synth h) [i..<j]) (run, out, word_of_nat i) =
    (let (r, q) = fold (\<lambda>i (r, q).
        let emitted = synthetic_emit h (word_of_nat i) (word_of_nat t) in
        (extend_chain kh rk r emitted, extend_chain kh ok q emitted)) [i..<j] (run, out)
     in (r, q, word_of_nat j))"
  using assms
proof (induction "j - i" arbitrary: i run out)
  case 0
  then show ?case by simp
next
  case (Suc n)
  then have ij: "i < j" "i < 2 ^ 32" "i div 4 = t" by auto
  have suc: "(word_of_nat i :: u64) + 1 = word_of_nat (Suc i)" by simp
  have IH: "emit_group h kh rk ok (map (synth h) [Suc i..<j]) (run', out', word_of_nat i + 1) =
    (let (r, q) = fold (\<lambda>i (r, q).
        let emitted = synthetic_emit h (word_of_nat i) (word_of_nat t) in
        (extend_chain kh rk r emitted, extend_chain kh ok q emitted)) [Suc i..<j] (run', out')
     in (r, q, word_of_nat j))" for run' out'
    unfolding suc using Suc.hyps(2) Suc.prems by (intro Suc.hyps(1)) auto
  show ?case
    using ij echo_emit_synth [OF ij(2), of h]
    by (simp add: upt_conv_Cons Let_def IH [unfolded Let_def])
qed


text \<open>One pass of the streaming loop covers exactly the deliveries of one tick.\<close>

lemma synth_tick_group:
  assumes "4 dvd i" "i < n" "n < 2 ^ 32"
  defines "j \<equiv> min n (min (2 ^ 32 - 1) (i + 4))"
  shows "takeWhile (same_tick (synth h i)) (map (synth h) [Suc i..<n]) = map (synth h) [Suc i..<j]"
    and "dropWhile (same_tick (synth h i)) (map (synth h) [Suc i..<n]) = map (synth h) [j..<n]"
    and "Suc i \<le> j" "j \<le> n" "j = n \<or> 4 dvd j"
    and "\<And>k. i \<le> k \<Longrightarrow> k < j \<Longrightarrow> k < 2 ^ 32 \<and> k div 4 = i div 4"
proof -
  have j: "j = min n (i + 4)" using assms(3) by (auto simp: j_def)
  show ij: "Suc i \<le> j" "j \<le> n" "j = n \<or> 4 dvd j"
    using assms(1,2) by (auto simp: j min_def)
  have same: "k div 4 = i div 4" if "i \<le> k" "k < j" for k
  proof -
    obtain m where m: "i = 4 * m" using assms(1) by (elim dvdE)
    have "k < i + 4" using that(2) j by simp
    with that(1) have "k div 4 = m" unfolding m by (intro div_nat_eqI) auto
    with m show ?thesis by simp
  qed
  show "k < 2 ^ 32 \<and> k div 4 = i div 4" if "i \<le> k" "k < j" for k
    using that ij assms(3) same [OF that] by simp
  have split: "map (synth h) [Suc i..<n] = map (synth h) [Suc i..<j] @ map (synth h) [j..<n]"
    using ij upt_add_eq_append [of "Suc i" j "n - j"] by simp
  have here: "same_tick (synth h i) e" if "e \<in> set (map (synth h) [Suc i..<j])" for e
  proof -
    have "\<exists>k\<in>{Suc i..<j}. e = synth h k"
      using that by (simp only: set_map set_upt image_iff)
    then obtain k where "k \<in> {Suc i..<j}" "e = synth h k" ..
    then have k: "e = synth h k" "i \<le> k" "k < j" by auto
    then show ?thesis using same [OF k(2,3)] assms(2,3) ij by (simp add: synth_same_tick)
  qed
  have later: "takeWhile (same_tick (synth h i)) (map (synth h) [j..<n]) = []"
  proof (cases "j < n")
    case True
    then have "j = i + 4" using j by auto
    then have "j div 4 \<noteq> i div 4" by simp
    then have "\<not> same_tick (synth h i) (synth h j)"
      using True assms(2,3) synth_same_tick [of i j h] by simp
    with True show ?thesis by (simp add: upt_conv_Cons)
  qed simp
  show "takeWhile (same_tick (synth h i)) (map (synth h) [Suc i..<n]) = map (synth h) [Suc i..<j]"
    unfolding split using here later by (rule takeWhile_split(1))
  show "dropWhile (same_tick (synth h i)) (map (synth h) [Suc i..<n]) = map (synth h) [j..<n]"
    unfolding split using here later by (rule takeWhile_split(2))
qed

lemma fold_chain_synth:
  "fold (\<lambda>i r. extend_chain kh key r (synth h i)) is c = chain_hash kh key c (map (synth h) is)"
  by (induction "is" arbitrary: c) auto

declare synthetic_ticks.simps [simp del]

lemma replay_ticks_synthetic:
  assumes "i = unat n \<or> 4 dvd i" and "i \<le> unat n"
  shows "replay_ticks h kh rk ok (map (synth h) [i..<unat n]) (run, out, word_of_nat i) =
    (let (r, q) = synthetic_ticks h kh rk ok n i (run, out) in (r, q, word_of_nat (unat n)))"
  using assms
proof (induction h kh rk ok n i "(run, out)" arbitrary: run out rule: synthetic_ticks.induct)
  case (1 h kh rk ok n i run out)
  show ?case
  proof (cases "i < unat n")
    case False
    with "1.prems" show ?thesis by (subst synthetic_ticks.simps) simp
  next
    case True
    define j where "j = min (unat n) (min (2 ^ 32 - 1) (i + 4))"
    have dvd: "4 dvd i" using "1.prems"(1) True by auto
    note group = synth_tick_group [OF dvd True unat_u32_bound, folded j_def]
    define run' where "run' = fold (\<lambda>i r. extend_chain kh rk r (synth h i)) [i..<j] run"
    have run': "run' = chain_hash kh rk run (map (synth h) [i..<j])"
      by (simp add: run'_def fold_chain_synth)
    obtain r q where rq: "fold (\<lambda>k (r, q).
        let emitted = synthetic_emit h (word_of_nat k) (word_of_nat (i div 4)) in
        (extend_chain kh rk r emitted, extend_chain kh ok q emitted)) [i..<j] (run', out) = (r, q)"
      by fastforce
    have head: "map (synth h) [i..<j] = synth h i # map (synth h) [Suc i..<j]"
      using group(3) by (simp add: upt_conv_Cons)
    have "replay_ticks h kh rk ok (map (synth h) [i..<unat n]) (run, out, word_of_nat i) =
        replay_ticks h kh rk ok (map (synth h) [j..<unat n])
          (emit_group h kh rk ok (map (synth h) [i..<j]) (run', out, word_of_nat i))"
      using True unfolding run' head by (simp add: upt_conv_Cons group(1,2))
    also have "emit_group h kh rk ok (map (synth h) [i..<j]) (run', out, word_of_nat i) =
        (r, q, word_of_nat j)"
    proof (subst emit_group_synth [where t = "i div 4"])
      show "k < 2 ^ 32 \<and> k div 4 = i div 4" if "i \<le> k" "k < j" for k
        using that by (rule group(6))
      show "i \<le> j" using group(3) by (rule Suc_leD)
    qed (unfold rq, simp)
    also have "replay_ticks h kh rk ok (map (synth h) [j..<unat n]) (r, q, word_of_nat j) =
        (let (r, q) = synthetic_ticks h kh rk ok n j (r, q) in (r, q, word_of_nat (unat n)))"
      by (rule "1.hyps" [OF True refl j_def run'_def refl rq [symmetric] group(5,4)])
    also have "synthetic_ticks h kh rk ok n j (r, q) = synthetic_ticks h kh rk ok n i (run, out)"
      unfolding synthetic_ticks.simps [of h kh rk ok n i run out] if_P [OF True] Let_def
        j_def [symmetric] run'_def [symmetric] rq [unfolded Let_def] by simp
    finally show ?thesis .
  qed
qed


lemma replay_synthetic_correct:
  "replay h kh (generate_synthetic_deliveries h n) = Inr (replay_synthetic h kh n)"
proof -
  have len: "\<not> 2 ^ 32 - 1 < unat n" using unat_u32_bound [of n] by simp
  have ticks: "replay_ticks h kh rk ok (generate_synthetic_deliveries h n) (run, out, 0) =
    (let (r, q) = synthetic_ticks h kh rk ok n 0 (run, out) in (r, q, word_of_nat (unat n)))"
    for rk ok run out
    using replay_ticks_synthetic [of 0 n h kh rk ok run out]
    by (simp add: generate_synthetic_deliveries_def)
  have trace: "fold (\<lambda>i c. extend_chain kh k c (synth h i)) [0..<unat n] 0 =
      chain_hash kh k 0 (generate_synthetic_deliveries h n)" for k
    unfolding generate_synthetic_deliveries_def by (rule fold_chain_synth)
  show ?thesis
    using len unfolding replay_def replay_synthetic_def Let_def generate_sort_key trace ticks
    by (simp add: generate_no_duplicate ticks split: prod.splits)
qed


subsection \<open>What an observed hash accepts and commits\<close>

definition emits_in_order :: "envelope list \<Rightarrow> bool" where
  "emits_in_order es \<longleftrightarrow> sorted_wrt (\<lambda>a b. e_src_seq a < e_src_seq b \<and> e_tick a \<le> e_tick b) es"

lemma emits_in_order_window:
  "\<not> any_window2 (\<lambda>a b. e_src_seq a \<ge> e_src_seq b \<or> e_tick a > e_tick b) es \<longleftrightarrow> emits_in_order es"
proof -
  have eq: "(\<lambda>a b. e_src_seq a < e_src_seq b \<and> e_tick a \<le> e_tick b) =
      (\<lambda>a b. \<not> (e_src_seq a \<ge> e_src_seq b \<or> e_tick a > e_tick b))"
    by (auto simp: fun_eq_iff not_le not_less)
  have tr: "transp (\<lambda>a b. \<not> (e_src_seq a \<ge> e_src_seq b \<or> e_tick a > e_tick b))"
    by (auto intro!: transpI)
  show ?thesis
    unfolding emits_in_order_def eq by (rule not_any_window2_conv_sorted_wrt [OF tr])
qed

lemma emits_in_order_ticks: "emits_in_order es \<Longrightarrow> sorted (map e_tick es)"
  unfolding emits_in_order_def sorted_wrt_map by (erule sorted_wrt_mono_rel [rotated]) simp

lemma hash_observed_result_iff:
  "(\<exists>r. hash_observed h kh td ds es = Inr r) \<longleftrightarrow>
     length ds \<le> 2 ^ 32 - 1 \<and> distinct (map scheduling_key ds) \<and> emits_in_order es \<and>
     e_tick ` set es \<subseteq> e_tick ` set ds"
proof (cases "length ds \<le> 2 ^ 32 - 1 \<and> distinct (map scheduling_key ds) \<and> emits_in_order es")
  case False
  then show ?thesis
    by (auto simp: hash_observed_def Let_def has_duplicate_key_sorted emits_in_order_window
        simp flip: emits_in_order_window)
next
  case True
  let ?o = "sort_key scheduling_key ds"
  let ?st = "(kh (domain_key h RUN_DOMAIN) (to_le (chain_hash kh (domain_key h td) 0 ?o)), 0)"
  have "(\<exists>r. hash_observed h kh td ds es = Inr r) \<longleftrightarrow>
    (\<exists>r. observed_ticks kh (domain_key h RUN_DOMAIN) (domain_key h OUTPUT_DOMAIN) ?o es ?st = Inr r)"
    using True
    by (auto simp: hash_observed_def Let_def has_duplicate_key_sorted emits_in_order_window [symmetric]
        split: sum.splits prod.splits)
  also have "\<dots> \<longleftrightarrow> e_tick ` set es \<subseteq> e_tick ` set ?o"
    using observed_ticks_total [OF sorted_tick_sort_key emits_in_order_ticks] observed_ticks_chains True
    by (metis surj_pair)
  finally show ?thesis using True by simp
qed

text \<open>The strings the three chains of an observed run feed to the keyed hash.\<close>

definition observed_trace_inputs :: "hash_fn \<Rightarrow> keyed_fn \<Rightarrow> bytes \<Rightarrow> envelope list \<Rightarrow> bytes list" where
  "observed_trace_inputs h kh td ds =
     chain_inputs canonical_bytes kh (domain_key h td) 0 (sort_key scheduling_key ds)"

definition observed_run_inputs ::
  "hash_fn \<Rightarrow> keyed_fn \<Rightarrow> bytes \<Rightarrow> envelope list \<Rightarrow> envelope list \<Rightarrow> bytes list" where
  "observed_run_inputs h kh td ds es =
     seeded_inputs canonical_bytes kh (domain_key h RUN_DOMAIN)
       (chain_hash kh (domain_key h td) 0 (sort_key scheduling_key ds))
       (observed_order (sort_key scheduling_key ds) es)"

lemma hash_observed_InrD:
  assumes "hash_observed h kh td ds es = Inr r"
  defines "sd \<equiv> sort_key scheduling_key ds"
  defines "t \<equiv> chain_hash kh (domain_key h td) 0 sd"
  shows "run_hash r = chain_hash kh (domain_key h RUN_DOMAIN)
           (kh (domain_key h RUN_DOMAIN) (to_le t)) (observed_order sd es)"
    and "output_digest r = chain_hash kh (domain_key h OUTPUT_DOMAIN) 0 es"
    and "\<exists>x. observed_ticks kh (domain_key h RUN_DOMAIN) (domain_key h OUTPUT_DOMAIN) sd es
           (kh (domain_key h RUN_DOMAIN) (to_le t), 0) = Inr x"
  using assms(1) observed_ticks_chains
  unfolding hash_observed_def Let_def sd_def [symmetric] t_def [symmetric]
  by (auto split: if_splits sum.splits prod.splits dest!: observed_ticks_chains)

text \<open>
  Two accepted runs of one corpus with the same run hash are the same run: the same set of
  deliveries and the same emits, unless the keyed hash collides on strings hashed for them.
\<close>

lemma hash_observed_commits:
  assumes ok: "hash_observed h kh td ds es = Inr r" "hash_observed h kh td ds' es' = Inr r'"
    and same: "run_hash r = run_hash r'"
    and run: "no_collision kh (domain_key h RUN_DOMAIN)
        (observed_run_inputs h kh td ds es) (observed_run_inputs h kh td ds' es')"
    and trace: "no_accident canonical_bytes kh (domain_key h td) 0
        (sort_key scheduling_key ds) (sort_key scheduling_key ds')"
  shows "mset ds = mset ds'" and "es = es'"
proof -
  let ?o = "sort_key scheduling_key ds" and ?o' = "sort_key scheduling_key ds'"
  have "chain_hash kh (domain_key h td) 0 ?o = chain_hash kh (domain_key h td) 0 ?o' \<and>
      map (\<lambda>e. e) (observed_order ?o es) = map (\<lambda>e. e) (observed_order ?o' es')"
    using run same hash_observed_InrD(1) [OF ok(1)] hash_observed_InrD(1) [OF ok(2)]
    unfolding observed_run_inputs_def chain_hash_with by (intro cell.seeded_chain_commits) simp_all
  then have t: "chain_hash kh (domain_key h td) 0 ?o = chain_hash kh (domain_key h td) 0 ?o'"
    and order: "observed_order ?o es = observed_order ?o' es'" by simp_all
  have o: "?o = ?o'"
    using cell.chain_commits [OF trace] t by (simp add: chain_hash_with)
  then show "mset ds = mset ds'" by (metis mset_sort)
  show "es = es'"
    using order hash_observed_InrD(3) [OF ok(1)] hash_observed_InrD(3) [OF ok(2)]
      observed_order_inject [OF sorted_tick_sort_key]
    unfolding o by metis
qed

subsection \<open>Properties\<close>

text \<open>
  The Wasm-cell replay depends on the deliveries as a collection only: any two arrival orders
  of the same deliveries give the same hashes, or the same refusal.
\<close>

theorem replay_arrival_order:
  assumes "mset deliveries = mset deliveries'"
  shows "replay h kh deliveries = replay h kh deliveries'"
  using assms by (rule replay_order_independent)

theorem replay_arrival_order_witness:
  "replay demo_hash (\<lambda>_ _. 0) (map (synthetic_delivery demo_hash) [0, 1]) = replay demo_hash (\<lambda>_ _. 0) (map (synthetic_delivery demo_hash) [1, 0])"
  by (rule replay_arrival_order) simp

text \<open>
  replay succeeds exactly on at most \<open>u32::MAX\<close> deliveries with pairwise different scheduling
  keys; otherwise it refuses with the error for the first of the two conditions that fails.
\<close>

theorem replay_refusals:
  "(replay h kh deliveries = Inl TooManyDeliveries \<longleftrightarrow> length deliveries > 2 ^ 32 - 1) \<and>
   (replay h kh deliveries = Inl DuplicateSchedulingKey \<longleftrightarrow>
     length deliveries \<le> 2 ^ 32 - 1 \<and> \<not> distinct (map scheduling_key deliveries)) \<and>
   ((\<exists>r. replay h kh deliveries = Inr r) \<longleftrightarrow>
     length deliveries \<le> 2 ^ 32 - 1 \<and> distinct (map scheduling_key deliveries))"
  by (auto simp: replay_def has_duplicate_key_sorted Let_def split: prod.splits)

text \<open>
  C8. The streaming replay of the synthetic corpus, which never materialises the deliveries and is
  what the Wasm core runs, computes the hashes of the general scheduler on that corpus, for every
  event count.
\<close>

theorem replay_synthetic_agrees:
  "replay h kh (generate_synthetic_deliveries h event_count) = Inr (replay_synthetic h kh event_count)"
  by (rule replay_synthetic_correct)

text \<open>
  Hashing the run an echo cell produces (the recorded deliveries and the emits the scheduler
  makes up for them) gives exactly the result of replaying the deliveries, refusals included.
\<close>

theorem hash_observed_matches_replay:
  "hash_observed h kh (ascii ''rook-trace-v1/synthetic@1'') deliveries
     (echo_emits h 0 (sort_key scheduling_key deliveries)) = replay h kh deliveries"
  by (rule hash_observed_echo)

text \<open>
  An observed run is hashed exactly when its deliveries have one order and its emits are in
  strictly increasing sequence, on non-decreasing ticks, and on ticks that had a delivery.
\<close>

theorem hash_observed_accepts:
  "(\<exists>r. hash_observed h kh trace_domain deliveries emits = Inr r) \<longleftrightarrow>
     length deliveries \<le> 2 ^ 32 - 1 \<and> distinct (map scheduling_key deliveries) \<and>
     emits_in_order emits \<and> e_tick ` set emits \<subseteq> e_tick ` set deliveries"
  by (rule hash_observed_result_iff)

text \<open>
  C30. Two accepted runs of one corpus with the same run hash have the same deliveries (as a
  collection) and the same emits (as a sequence), unless the keyed hash collides on strings hashed
  for these two runs or maps one of them to the zero seed.
\<close>

theorem run_hash_commits_run:
  assumes "hash_observed h kh td ds es = Inr r" and "hash_observed h kh td ds' es' = Inr r'"
    and "run_hash r = run_hash r'"
    and "no_collision kh (domain_key h RUN_DOMAIN)
        (observed_run_inputs h kh td ds es) (observed_run_inputs h kh td ds' es')"
    and "no_accident canonical_bytes kh (domain_key h td) 0
        (sort_key scheduling_key ds) (sort_key scheduling_key ds')"
  shows "mset ds = mset ds' \<and> es = es'"
  using hash_observed_commits [OF assms] by blast

text \<open>
  A small keyed function for the witness: it tells the seed string, deliveries and other envelopes
  apart by length and by the kind byte.
\<close>

definition demo_keyed :: keyed_fn where
  "demo_keyed key x = (if length x = 32 then 1 else if x ! 38 = 1 then 2 else 3)"

lemma demo_keyed_simps [simp]:
  "demo_keyed key (to_le (t :: digest)) = 1"
  "demo_keyed key (to_le (c :: digest) @ canonical_bytes e) = (if e_kind e = KDeliver then 2 else 3)"
proof -
  have "(to_le c @ canonical_bytes e) ! 38 = to_le (kind_code (e_kind e)) ! 0"
    by (simp add: canonical_bytes_def nth_append)
  also have "\<dots> = word_of_nat (unat (kind_code (e_kind e)) mod 256)"
    by (simp add: to_le_def)
  also have "\<dots> = 1 \<longleftrightarrow> e_kind e = KDeliver"
    by (cases "e_kind e") simp_all
  finally show "demo_keyed key (to_le c @ canonical_bytes e) = (if e_kind e = KDeliver then 2 else 3)"
    by (simp add: demo_keyed_def ENVELOPE_SIZE_def)
  show "demo_keyed key (to_le t) = 1" by (simp add: demo_keyed_def)
qed

theorem run_hash_commits_run_witness:
  "\<exists>r. hash_observed (\<lambda>_. 0) demo_keyed [] [synthetic_delivery (\<lambda>_. 0) 0] [synthetic_emit (\<lambda>_. 0) 0 0] = Inr r \<and>
     mset [synthetic_delivery (\<lambda>_. 0) 0] = mset [synthetic_delivery (\<lambda>_. 0) 0] \<and>
     [synthetic_emit (\<lambda>_. 0) 0 0] = [synthetic_emit (\<lambda>_. 0) 0 0]"
proof -
  define h :: hash_fn where "h = (\<lambda>_. 0)"
  define d where "d = synthetic_delivery h 0"
  define e where "e = synthetic_emit h 0 0"
  have k: "e_kind d = KDeliver" "e_kind e = KEmit" "e_tick d = 0" "e_tick e = 0"
    by (simp_all add: d_def e_def synthetic_delivery_def synthetic_emit_def Let_def)
  have "\<exists>r. hash_observed h demo_keyed [] [d] [e] = Inr r"
    by (simp add: hash_observed_result_iff emits_in_order_def k)
  then obtain r where r: "hash_observed h demo_keyed [] [d] [e] = Inr r" ..
  have ord: "observed_order [d] [e] = [d, e]"
    by (simp add: k)
  have run: "no_collision demo_keyed key
     (observed_run_inputs h demo_keyed [] [d] [e]) (observed_run_inputs h demo_keyed [] [d] [e])" for key
    by (auto simp: no_collision_def observed_run_inputs_def seeded_inputs_def ord k inj_on_def
        simp del: observed_order.simps)
  have trace: "no_accident canonical_bytes demo_keyed key 0
        (sort_key scheduling_key [d]) (sort_key scheduling_key [d])" for key
    by (simp add: no_accident_def inj_on_def k)
  have "mset [d] = mset [d] \<and> [e] = [e]"
    by (rule run_hash_commits_run [OF r r refl run trace])
  with r show ?thesis unfolding d_def e_def h_def by blast
qed

end
