(* ===== verification/Cell_Abi.thy ===== *)
theory Cell_Abi
  imports Rook_Core
begin

text \<open>
  crates/rook-host/src/abi.rs: the ten host functions a Wasm cell can call, the range checks on its
  pointers and the limits on what the host retains.  Wasmtime is a third-party crate: of the guest
  the model keeps its exported memory (\<open>None\<close> when it exports none) as the bytes the host functions
  read and write.  \<open>usize\<close> is 64 bits wide and modelled by \<open>nat\<close> with the overflow checks written
  out; a negative \<open>i32\<close> cast to \<open>usize\<close> exceeds every length.  The output of the keyed hash in
  extendable mode is the parameter \<open>xof\<close>: its \<open>n\<close>-th byte for a key and an input.
\<close>

unbundle bit_operations_syntax

type_synonym i32 = "32 word"
type_synonym xof_fn = "digest \<Rightarrow> bytes \<Rightarrow> nat \<Rightarrow> byte"
type_synonym guest_mem = "bytes option"

definition MAX_ABI_TRANSFER_BYTES :: nat where "MAX_ABI_TRANSFER_BYTES = 64 * 1024"
definition MAX_EMITTED_PAYLOAD_BYTES :: nat where "MAX_EMITTED_PAYLOAD_BYTES = 4 * 1024 * 1024"
definition MAX_RETAINED_LOG_LINES :: nat where "MAX_RETAINED_LOG_LINES = 100000"
definition MAX_RETAINED_LOG_BYTES :: nat where "MAX_RETAINED_LOG_BYTES = 4 * 1024 * 1024"

record emitted_payload =
  em_tick :: u64
  em_src_seq :: u64
  em_channel_id :: u32
  em_payload :: bytes

record inbox_message =
  ib_channel_id :: u32
  ib_payload :: bytes

record host_state =
  hs_tick :: u64
  hs_actor_id :: u32
  hs_inbox :: "inbox_message list"
  hs_emit_channels :: "u32 list"
  hs_emitted_payloads :: "emitted_payload list"
  hs_emitted_payload_bytes :: nat
  hs_emitted_payload_limit :: nat
  hs_emit_sequence :: u64
  hs_random_draw_ordinal :: u64
  hs_params :: "bytes \<Rightarrow> bytes option"
  hs_log_lines :: "(u64 \<times> i32 \<times> bytes) list"
  hs_retained_log_bytes :: nat

definition default_host_state :: host_state where
  "default_host_state =
     \<lparr>hs_tick = 0, hs_actor_id = 0, hs_inbox = [], hs_emit_channels = [], hs_emitted_payloads = [],
      hs_emitted_payload_bytes = 0, hs_emitted_payload_limit = 0, hs_emit_sequence = 0,
      hs_random_draw_ordinal = 0, hs_params = Map.empty, hs_log_lines = [],
      hs_retained_log_bytes = 0\<rparr>"

datatype trap =
    NoMemory
  | BadGuestRange
  | InboxIndexOutOfRange
  | MemoryFault
  | EmitSequenceOverflow
  | DrawOrdinalOverflow
  | CellAborted i32 bytes

subsection \<open>Checks\<close>

definition checked_add_usize :: "nat \<Rightarrow> nat \<Rightarrow> nat option" where
  "checked_add_usize a b = (if a + b < 2 ^ 64 then Some (a + b) else None)"

definition checked_add_u64 :: "u64 \<Rightarrow> u64 \<Rightarrow> u64 option" where
  "checked_add_u64 a b = (if unat a + unat b < 2 ^ 64 then Some (a + b) else None)"

definition usize_of_i32 :: "i32 \<Rightarrow> nat option" where
  "usize_of_i32 i = (if sint i < 0 then None else Some (nat (sint i)))"

definition validate_emit_retention :: "nat \<Rightarrow> nat \<Rightarrow> nat \<Rightarrow> nat \<Rightarrow> nat option" where
  "validate_emit_retention payload_count payload_bytes next_length limit =
     (if payload_count \<ge> limit then None
      else case checked_add_usize payload_bytes next_length of
        None \<Rightarrow> None
      | Some next_bytes \<Rightarrow> if next_bytes \<le> MAX_EMITTED_PAYLOAD_BYTES then Some next_bytes else None)"

definition validate_log_retention :: "nat \<Rightarrow> nat \<Rightarrow> nat \<Rightarrow> nat option" where
  "validate_log_retention log_count log_bytes next_length =
     (if log_count \<ge> MAX_RETAINED_LOG_LINES then None
      else case checked_add_usize log_bytes next_length of
        None \<Rightarrow> None
      | Some next_bytes \<Rightarrow> if next_bytes \<le> MAX_RETAINED_LOG_BYTES then Some next_bytes else None)"

definition validate_abi_range :: "nat \<Rightarrow> i32 \<Rightarrow> i32 \<Rightarrow> nat \<Rightarrow> (nat \<times> nat) option" where
  "validate_abi_range memory_size pointer len maximum_length =
     (case usize_of_i32 pointer of
        None \<Rightarrow> None
      | Some p \<Rightarrow>
          (case usize_of_i32 len of
             None \<Rightarrow> None
           | Some n \<Rightarrow>
               if n > maximum_length then None
               else case checked_add_usize p n of
                 None \<Rightarrow> None
               | Some e \<Rightarrow> if e > memory_size then None else Some (p, n)))"

definition checked_guest_range :: "guest_mem \<Rightarrow> i32 \<Rightarrow> i32 \<Rightarrow> nat \<Rightarrow> trap + bytes \<times> nat \<times> nat" where
  "checked_guest_range mem pointer len maximum_length =
     (case mem of
        None \<Rightarrow> Inl NoMemory
      | Some m \<Rightarrow>
          (case validate_abi_range (length m) pointer len maximum_length of
             None \<Rightarrow> Inl BadGuestRange
           | Some (p, n) \<Rightarrow> Inr (m, p, n)))"

text \<open>\<open>Memory::read\<close> and \<open>Memory::write\<close>: out of bounds is an error, which traps.\<close>

definition mem_read :: "bytes \<Rightarrow> nat \<Rightarrow> nat \<Rightarrow> bytes option" where
  "mem_read m p n = get_range p (p + n) m"

definition mem_write :: "bytes \<Rightarrow> nat \<Rightarrow> bytes \<Rightarrow> bytes option" where
  "mem_write m p bs =
     (if p + length bs \<le> length m then Some (take p m @ bs @ drop (p + length bs) m) else None)"

subsection \<open>The host functions\<close>

definition inbox_get :: "host_state \<Rightarrow> i32 \<Rightarrow> inbox_message option" where
  "inbox_get st index =
     (case usize_of_i32 index of None \<Rightarrow> None | Some i \<Rightarrow> get_at (hs_inbox st) i)"

definition abi_inbox_meta :: "host_state \<Rightarrow> i32 \<Rightarrow> i64" where
  "abi_inbox_meta st index =
     (case inbox_get st index of
        None \<Rightarrow> 0
      | Some message \<Rightarrow>
          push_bit 32 (ucast (ib_channel_id message)) OR word_of_nat (length (ib_payload message)))"

definition abi_inbox_read ::
  "host_state \<Rightarrow> guest_mem \<Rightarrow> i32 \<Rightarrow> i32 \<Rightarrow> i32 \<Rightarrow> trap + i32 \<times> guest_mem" where
  "abi_inbox_read st mem index pointer capacity =
     (case inbox_get st index of
        None \<Rightarrow> Inl InboxIndexOutOfRange
      | Some message \<Rightarrow>
          let data = ib_payload message; n = (word_of_nat (length data) :: i32) in
          if sint capacity < sint n then Inr (- n, mem)
          else case mem of
            None \<Rightarrow> Inl NoMemory
          | Some m \<Rightarrow>
              (case usize_of_i32 pointer of
                 None \<Rightarrow> Inl MemoryFault
               | Some p \<Rightarrow>
                   (case mem_write m p data of
                      None \<Rightarrow> Inl MemoryFault
                    | Some m' \<Rightarrow> Inr (n, Some m'))))"

definition abi_emit ::
  "host_state \<Rightarrow> guest_mem \<Rightarrow> i32 \<Rightarrow> i32 \<Rightarrow> i32 \<Rightarrow> trap + i32 \<times> host_state" where
  "abi_emit st mem channel_id pointer len =
     (if channel_id \<notin> set (hs_emit_channels st) then Inr (- 1, st)
      else case checked_guest_range mem pointer len MAX_ABI_TRANSFER_BYTES of
        Inl _ \<Rightarrow> Inr (- 1, st)
      | Inr (m, p, n) \<Rightarrow>
          (case validate_emit_retention (length (hs_emitted_payloads st))
                  (hs_emitted_payload_bytes st) n (hs_emitted_payload_limit st) of
             None \<Rightarrow> Inr (- 1, st)
           | Some next_bytes \<Rightarrow>
               (case checked_add_u64 (hs_emit_sequence st) 1 of
                  None \<Rightarrow> Inl EmitSequenceOverflow
                | Some next_sequence \<Rightarrow>
                    (case mem_read m p n of
                       None \<Rightarrow> Inl MemoryFault
                     | Some data \<Rightarrow>
                         Inr (0, st\<lparr>hs_emitted_payloads := hs_emitted_payloads st @
                                     [\<lparr>em_tick = hs_tick st, em_src_seq = hs_emit_sequence st,
                                       em_channel_id = channel_id, em_payload = data\<rparr>],
                                   hs_emitted_payload_bytes := next_bytes,
                                   hs_emit_sequence := next_sequence\<rparr>)))))"

definition draw_input :: "host_state \<Rightarrow> bytes" where
  "draw_input st =
     replicate 8 0 @ to_le (ucast (hs_actor_id st) :: u64) @ to_le (hs_tick st) @
     to_le (hs_random_draw_ordinal st)"

definition abi_rand ::
  "hash_fn \<Rightarrow> xof_fn \<Rightarrow> host_state \<Rightarrow> guest_mem \<Rightarrow> i32 \<Rightarrow> i32 \<Rightarrow> trap + host_state \<times> guest_mem" where
  "abi_rand h xof st mem pointer len =
     (case checked_guest_range mem pointer len MAX_ABI_TRANSFER_BYTES of
        Inl e \<Rightarrow> Inl e
      | Inr (m, p, n) \<Rightarrow>
          let key = h (ascii ''rook-rand-v1'');
              output = map (xof key (draw_input st)) [0..<n]
          in case mem_write m p output of
            None \<Rightarrow> Inl MemoryFault
          | Some m' \<Rightarrow>
              (case checked_add_u64 (hs_random_draw_ordinal st) 1 of
                 None \<Rightarrow> Inl DrawOrdinalOverflow
               | Some ordinal \<Rightarrow> Inr (st\<lparr>hs_random_draw_ordinal := ordinal\<rparr>, Some m')))"

definition abi_param ::
  "host_state \<Rightarrow> guest_mem \<Rightarrow> i32 \<Rightarrow> i32 \<Rightarrow> i32 \<Rightarrow> i32 \<Rightarrow> trap + i32 \<times> guest_mem" where
  "abi_param st mem key_pointer key_length output_pointer output_capacity =
     (case checked_guest_range mem key_pointer key_length MAX_ABI_TRANSFER_BYTES of
        Inl _ \<Rightarrow> Inr (- 1, mem)
      | Inr (m, kp, kn) \<Rightarrow>
          (case mem_read m kp kn of
             None \<Rightarrow> Inl MemoryFault
           | Some key \<Rightarrow>
               (case hs_params st key of
                  None \<Rightarrow> Inr (- 1, mem)
                | Some val \<Rightarrow>
                    (case checked_guest_range mem output_pointer output_capacity MAX_ABI_TRANSFER_BYTES of
                       Inl _ \<Rightarrow> Inr (- 1, mem)
                     | Inr (m, p, capacity) \<Rightarrow>
                         if length val > capacity then Inr (- word_of_nat (length val), mem)
                         else case mem_write m p val of
                           None \<Rightarrow> Inl MemoryFault
                         | Some m' \<Rightarrow> Inr (word_of_nat (length val), Some m')))))"

definition abi_log ::
  "host_state \<Rightarrow> guest_mem \<Rightarrow> i32 \<Rightarrow> i32 \<Rightarrow> i32 \<Rightarrow> trap + host_state" where
  "abi_log st mem level pointer len =
     (case checked_guest_range mem pointer len MAX_ABI_TRANSFER_BYTES of
        Inl e \<Rightarrow> Inl e
      | Inr (m, p, n) \<Rightarrow>
          (case validate_log_retention (length (hs_log_lines st)) (hs_retained_log_bytes st) n of
             None \<Rightarrow> Inr st
           | Some next_bytes \<Rightarrow>
               (case mem_read m p n of
                  None \<Rightarrow> Inl MemoryFault
                | Some data \<Rightarrow>
                    Inr (st\<lparr>hs_log_lines := hs_log_lines st @ [(hs_tick st, level, data)],
                           hs_retained_log_bytes := next_bytes\<rparr>))))"

definition abi_abort :: "guest_mem \<Rightarrow> i32 \<Rightarrow> i32 \<Rightarrow> i32 \<Rightarrow> trap" where
  "abi_abort mem code pointer len =
     (case checked_guest_range mem pointer len MAX_ABI_TRANSFER_BYTES of
        Inl _ \<Rightarrow> CellAborted code []
      | Inr (m, p, n) \<Rightarrow>
          (case mem_read m p n of None \<Rightarrow> MemoryFault | Some reason \<Rightarrow> CellAborted code reason))"

subsection \<open>The capability boundary\<close>

text \<open>What \<open>define_rook_abi\<close> registers: one constructor per import, one equation per closure.\<close>

datatype abi_call =
    CallTick
  | CallInboxLen
  | CallInboxMeta i32
  | CallInboxRead i32 i32 i32
  | CallEmit i32 i32 i32
  | CallSetTimer i64
  | CallRand i32 i32
  | CallParam i32 i32 i32 i32
  | CallLog i32 i32 i32
  | CallAbort i32 i32 i32

datatype abi_value = VUnit | VI32 i32 | VI64 i64

fun host_call ::
  "hash_fn \<Rightarrow> xof_fn \<Rightarrow> abi_call \<Rightarrow> host_state \<Rightarrow> guest_mem \<Rightarrow>
     trap + abi_value \<times> host_state \<times> guest_mem" where
  "host_call h xof CallTick st mem = Inr (VI64 (hs_tick st), st, mem)"
| "host_call h xof CallInboxLen st mem = Inr (VI32 (word_of_nat (length (hs_inbox st))), st, mem)"
| "host_call h xof (CallInboxMeta index) st mem = Inr (VI64 (abi_inbox_meta st index), st, mem)"
| "host_call h xof (CallInboxRead index pointer capacity) st mem =
     (case abi_inbox_read st mem index pointer capacity of
        Inl e \<Rightarrow> Inl e | Inr (r, mem') \<Rightarrow> Inr (VI32 r, st, mem'))"
| "host_call h xof (CallEmit channel_id pointer len) st mem =
     (case abi_emit st mem channel_id pointer len of
        Inl e \<Rightarrow> Inl e | Inr (r, st') \<Rightarrow> Inr (VI32 r, st', mem))"
| "host_call h xof (CallSetTimer t) st mem = Inr (VI32 0, st, mem)"
| "host_call h xof (CallRand pointer len) st mem =
     (case abi_rand h xof st mem pointer len of
        Inl e \<Rightarrow> Inl e | Inr (st', mem') \<Rightarrow> Inr (VUnit, st', mem'))"
| "host_call h xof (CallParam kp kn op capacity) st mem =
     (case abi_param st mem kp kn op capacity of
        Inl e \<Rightarrow> Inl e | Inr (r, mem') \<Rightarrow> Inr (VI32 r, st, mem'))"
| "host_call h xof (CallLog level pointer len) st mem =
     (case abi_log st mem level pointer len of
        Inl e \<Rightarrow> Inl e | Inr st' \<Rightarrow> Inr (VUnit, st', mem))"
| "host_call h xof (CallAbort code pointer len) st mem = Inl (abi_abort mem code pointer len)"

section \<open>Lemmas\<close>

lemma sint_i32_less: "sint (i :: i32) < 2 ^ 31"
  using sint_less [of i] by simp

lemma validate_abi_range_Some:
  "validate_abi_range sz p l limit = Some (a, n) \<longleftrightarrow>
     0 \<le> sint p \<and> 0 \<le> sint l \<and> a = nat (sint p) \<and> n = nat (sint l) \<and> n \<le> limit \<and> a + n \<le> sz"
proof -
  have "nat (sint p) < nat (2 ^ 31)" "nat (sint l) < nat (2 ^ 31)"
    using sint_i32_less [of p] sint_i32_less [of l] by (simp_all only: zless_nat_conj) simp_all
  then have "nat (sint p) + nat (sint l) < 2 ^ 64" by simp
  then show ?thesis
    by (auto simp: validate_abi_range_def usize_of_i32_def checked_add_usize_def split: if_splits)
qed

lemma checked_guest_range_Inr:
  "checked_guest_range mem p l limit = Inr (m, a, n) \<longleftrightarrow>
     mem = Some m \<and> 0 \<le> sint p \<and> 0 \<le> sint l \<and> a = nat (sint p) \<and> n = nat (sint l) \<and>
     n \<le> limit \<and> a + n \<le> length m"
  using validate_abi_range_Some [of "length m" p l limit a n]
  by (cases mem) (auto simp: checked_guest_range_def split: option.splits)

lemma mem_read_Some: "mem_read m p n = Some bs \<longleftrightarrow> p + n \<le> length m \<and> bs = subslice p (p + n) m"
  by (auto simp: mem_read_def get_range_Some)

lemma length_mem_read: "mem_read m p n = Some bs \<Longrightarrow> length bs = n"
  by (auto simp: mem_read_Some)

lemma mem_write_Some:
  assumes "mem_write m p bs = Some m'"
  shows "length m' = length m" and "mem_read m' p (length bs) = Some bs"
    and "i < p \<or> p + length bs \<le> i \<Longrightarrow> i < length m \<Longrightarrow> m' ! i = m ! i"
  using assms
  by (auto simp: mem_write_def mem_read_Some subslice_def nth_append split: if_splits)

lemma checked_add_u64_Some:
  "checked_add_u64 a b = Some c \<longleftrightarrow> unat a + unat b < 2 ^ 64 \<and> c = a + b"
  by (auto simp: checked_add_u64_def)

lemma checked_add_u64_one: "checked_add_u64 a 1 = Some c \<Longrightarrow> unat c = Suc (unat a)"
  by (auto simp: checked_add_u64_Some unat_word_ariths)

lemma validate_emit_retention_Some:
  "validate_emit_retention k b n limit = Some b' \<longleftrightarrow>
     k < limit \<and> b' = b + n \<and> b' \<le> MAX_EMITTED_PAYLOAD_BYTES"
  by (auto simp: validate_emit_retention_def checked_add_usize_def MAX_EMITTED_PAYLOAD_BYTES_def)

lemma validate_log_retention_Some:
  "validate_log_retention k b n = Some b' \<longleftrightarrow>
     k < MAX_RETAINED_LOG_LINES \<and> b' = b + n \<and> b' \<le> MAX_RETAINED_LOG_BYTES"
  by (auto simp: validate_log_retention_def checked_add_usize_def MAX_RETAINED_LOG_BYTES_def)

text \<open>What \<open>emit\<close> and \<open>log\<close> do to the host's state.\<close>

definition emit_record :: "host_state \<Rightarrow> u32 \<Rightarrow> bytes \<Rightarrow> emitted_payload" where
  "emit_record st channel data =
     \<lparr>em_tick = hs_tick st, em_src_seq = hs_emit_sequence st, em_channel_id = channel, em_payload = data\<rparr>"

lemma abi_emit_cases:
  assumes "abi_emit st mem ch p l = Inr (r, st')"
  shows "r = - 1 \<and> st' = st \<or>
    r = 0 \<and> ch \<in> set (hs_emit_channels st) \<and>
    (\<exists>m data. mem = Some m \<and> mem_read m (nat (sint p)) (nat (sint l)) = Some data \<and>
       length data \<le> MAX_ABI_TRANSFER_BYTES \<and>
       length (hs_emitted_payloads st) < hs_emitted_payload_limit st \<and>
       hs_emitted_payload_bytes st + length data \<le> MAX_EMITTED_PAYLOAD_BYTES \<and>
       unat (hs_emit_sequence st) + 1 < 2 ^ 64 \<and>
       st' = st\<lparr>hs_emitted_payloads := hs_emitted_payloads st @ [emit_record st ch data],
                hs_emitted_payload_bytes := hs_emitted_payload_bytes st + length data,
                hs_emit_sequence := hs_emit_sequence st + 1\<rparr>)"
  using assms
  by (auto simp: abi_emit_def checked_guest_range_Inr validate_emit_retention_Some checked_add_u64_Some
      emit_record_def length_mem_read split: if_splits sum.splits option.splits)

lemma abi_log_cases:
  assumes "abi_log st mem level p l = Inr st'"
  shows "st' = st \<or>
    (\<exists>data. length (hs_log_lines st) < MAX_RETAINED_LOG_LINES \<and>
       hs_retained_log_bytes st + length data \<le> MAX_RETAINED_LOG_BYTES \<and>
       st' = st\<lparr>hs_log_lines := hs_log_lines st @ [(hs_tick st, level, data)],
                hs_retained_log_bytes := hs_retained_log_bytes st + length data\<rparr>)"
proof (cases "st' = st")
  case False
  with assms obtain m data where data: "mem_read m (nat (sint p)) (nat (sint l)) = Some data"
    and limits: "length (hs_log_lines st) < MAX_RETAINED_LOG_LINES"
      "hs_retained_log_bytes st + nat (sint l) \<le> MAX_RETAINED_LOG_BYTES"
    and st': "st' = st\<lparr>hs_log_lines := hs_log_lines st @ [(hs_tick st, level, data)],
                hs_retained_log_bytes := hs_retained_log_bytes st + nat (sint l)\<rparr>"
    by (auto simp: abi_log_def checked_guest_range_Inr validate_log_retention_Some
        split: sum.splits option.splits)
  from length_mem_read [OF data] limits st' show ?thesis by (intro disjI2 exI [of _ data]) simp
qed simp

subsection \<open>The life of a cell instance\<close>

text \<open>
  A fresh instance, then, in any order: the cell calls a host function, the cell works on its own
  memory (any change, growth included), and between two steps the host sets the tick, never
  backwards, and the inbox (\<open>Cell::step\<close> of rmf.rs, \<open>run_cell_replay\<close> of main.rs).
\<close>

definition fresh_host :: "host_state \<Rightarrow> bool" where
  "fresh_host st \<longleftrightarrow>
     hs_emitted_payloads st = [] \<and> hs_emitted_payload_bytes st = 0 \<and> hs_emit_sequence st = 0 \<and>
     hs_log_lines st = [] \<and> hs_retained_log_bytes st = 0"

inductive cell_life :: "hash_fn \<Rightarrow> xof_fn \<Rightarrow> host_state \<Rightarrow> guest_mem \<Rightarrow> bool" for h xof where
  born: "fresh_host st \<Longrightarrow> cell_life h xof st mem"
| calls: "cell_life h xof st mem \<Longrightarrow> host_call h xof c st mem = Inr (v, st', mem') \<Longrightarrow>
    cell_life h xof st' mem'"
| computes: "cell_life h xof st mem \<Longrightarrow> cell_life h xof st mem'"
| fed: "cell_life h xof st mem \<Longrightarrow> hs_tick st \<le> t \<Longrightarrow>
    cell_life h xof (st\<lparr>hs_tick := t, hs_inbox := inbox\<rparr>) mem"

definition retained :: "host_state \<Rightarrow> bool" where
  "retained st \<longleftrightarrow>
     length (hs_emitted_payloads st) \<le> hs_emitted_payload_limit st \<and>
     hs_emitted_payload_bytes st = sum_list (map (length \<circ> em_payload) (hs_emitted_payloads st)) \<and>
     hs_emitted_payload_bytes st \<le> MAX_EMITTED_PAYLOAD_BYTES \<and>
     (\<forall>e\<in>set (hs_emitted_payloads st).
        em_channel_id e \<in> set (hs_emit_channels st) \<and> length (em_payload e) \<le> MAX_ABI_TRANSFER_BYTES) \<and>
     length (hs_log_lines st) \<le> MAX_RETAINED_LOG_LINES \<and>
     hs_retained_log_bytes st = sum_list (map (\<lambda>(t, l, line). length line) (hs_log_lines st)) \<and>
     hs_retained_log_bytes st \<le> MAX_RETAINED_LOG_BYTES"

definition sequenced :: "host_state \<Rightarrow> bool" where
  "sequenced st \<longleftrightarrow>
     length (hs_emitted_payloads st) < 2 ^ 64 \<and>
     hs_emit_sequence st = word_of_nat (length (hs_emitted_payloads st)) \<and>
     map em_src_seq (hs_emitted_payloads st) = map word_of_nat [0..<length (hs_emitted_payloads st)] \<and>
     sorted (map em_tick (hs_emitted_payloads st)) \<and>
     (\<forall>e\<in>set (hs_emitted_payloads st). em_tick e \<le> hs_tick st)"

text \<open>A host call changes nothing the invariants look at, or it is an emit or a log line.\<close>

lemma host_call_effect:
  assumes "host_call h xof c st mem = Inr (v, st', mem')"
  shows "(\<exists>ordinal. st' = st\<lparr>hs_random_draw_ordinal := ordinal\<rparr>) \<or>
    (\<exists>ch p l r. abi_emit st mem ch p l = Inr (r, st')) \<or>
    (\<exists>level p l. abi_log st mem level p l = Inr st')"
proof -
  have same: "\<exists>ordinal. st = st\<lparr>hs_random_draw_ordinal := ordinal\<rparr>"
    by (rule exI [of _ "hs_random_draw_ordinal st"]) simp
  show ?thesis
    using assms same
    by (cases c) (auto simp: abi_rand_def Let_def split: sum.splits option.splits)
qed

lemma retained_step:
  assumes "host_call h xof c st mem = Inr (v, st', mem')" and "retained st"
  shows "retained st'"
  using host_call_effect [OF assms(1)] assms(2)
  by (auto simp: retained_def emit_record_def dest!: abi_emit_cases abi_log_cases)

lemma sequenced_step:
  assumes "host_call h xof c st mem = Inr (v, st', mem')" and "sequenced st"
  shows "sequenced st'"
proof -
  have "sequenced st'" if "abi_emit st mem ch p l = Inr (r, st')" for ch p l r
    using abi_emit_cases [OF that] assms(2)
    by (auto simp: sequenced_def emit_record_def sorted_append unat_of_nat take_bit_eq_mod)
  moreover have "sequenced st'" if "abi_log st mem level p l = Inr st'" for level p l
    using abi_log_cases [OF that] assms(2) by (auto simp: sequenced_def)
  ultimately show ?thesis
    using host_call_effect [OF assms(1)] assms(2) by (auto simp: sequenced_def)
qed

lemma cell_life_invariant:
  assumes "cell_life h xof st mem"
  shows "retained st \<and> sequenced st"
  using assms
proof induction
  case (born st mem)
  then show ?case
    by (simp add: fresh_host_def retained_def sequenced_def)
next
  case (calls st mem c v st' mem')
  then show ?case using retained_step sequenced_step by blast
next
  case (fed st mem t inbox)
  then show ?case by (auto simp: retained_def sequenced_def intro: order_trans)
qed

subsection \<open>What a call writes into the guest\<close>

text \<open>The window of guest memory a call hands out for writing: its start and its capacity.\<close>

fun write_window :: "abi_call \<Rightarrow> nat \<times> nat" where
  "write_window (CallInboxRead index pointer capacity) = (nat (sint pointer), nat (sint capacity))"
| "write_window (CallRand pointer len) = (nat (sint pointer), nat (sint len))"
| "write_window (CallParam kp kn pointer capacity) = (nat (sint pointer), nat (sint capacity))"
| "write_window _ = (0, 0)"

definition confined :: "bytes \<Rightarrow> bytes \<Rightarrow> nat \<times> nat \<Rightarrow> bool" where
  "confined m m' w \<longleftrightarrow>
     length m' = length m \<and>
     (\<forall>i<length m. i < fst w \<or> fst w + snd w \<le> i \<longrightarrow> m' ! i = m ! i)"

lemma confined_refl [simp]: "confined m m w"
  by (simp add: confined_def)

lemma confined_write:
  "Some x = mem_write m p bs \<Longrightarrow> length bs \<le> n \<Longrightarrow>
     \<exists>m'. mem_write m p bs = Some m' \<and> confined m m' (p, n)"
  using mem_write_Some [of m p bs x] by (intro exI [of _ x]) (auto simp: confined_def)

lemma sint_i32_of_nat: "k < 2 ^ 31 \<Longrightarrow> sint (word_of_nat k :: i32) = int k"
  by (simp add: signed_of_nat signed_take_bit_int_eq_self)

lemma abi_inbox_read_confined:
  assumes "abi_inbox_read st (Some m) index p capacity = Inr (r, mem')"
    and "\<forall>message\<in>set (hs_inbox st). length (ib_payload message) < 2 ^ 31"
  shows "\<exists>m'. mem' = Some m' \<and> confined m m' (nat (sint p), nat (sint capacity))"
proof -
  from assms(1) obtain message where message: "inbox_get st index = Some message"
    by (auto simp: abi_inbox_read_def split: option.splits)
  then have "length (ib_payload message) < 2 ^ 31"
    using assms(2) by (auto simp: inbox_get_def get_at_Some split: option.splits)
  with assms(1) message show ?thesis
    by (auto simp: abi_inbox_read_def Let_def sint_i32_of_nat usize_of_i32_def
        intro!: confined_write split: if_splits option.splits)
qed

lemma abi_rand_confined:
  assumes "abi_rand h xof st (Some m) p l = Inr (st', mem')"
  shows "\<exists>m'. mem' = Some m' \<and> confined m m' (nat (sint p), nat (sint l))"
  using assms
  by (auto simp: abi_rand_def Let_def checked_guest_range_Inr intro!: confined_write
      split: sum.splits option.splits)

lemma abi_param_confined:
  assumes "abi_param st (Some m) kp kn p capacity = Inr (r, mem')"
  shows "\<exists>m'. mem' = Some m' \<and> confined m m' (nat (sint p), nat (sint capacity))"
  using assms
  by (auto simp: abi_param_def checked_guest_range_Inr intro!: confined_write
      split: sum.splits option.splits if_splits)

lemma host_call_confined:
  assumes "host_call h xof c st (Some m) = Inr (v, st', mem')"
    and "\<forall>message\<in>set (hs_inbox st). length (ib_payload message) < 2 ^ 31"
  shows "\<exists>m'. mem' = Some m' \<and> confined m m' (write_window c)"
  using assms
  by (cases c) (auto split: sum.splits dest: abi_inbox_read_confined abi_rand_confined abi_param_confined)

subsection \<open>Random draws\<close>

lemma draw_input_inject:
  "draw_input st = draw_input st' \<longleftrightarrow>
     hs_actor_id st = hs_actor_id st' \<and> hs_tick st = hs_tick st' \<and>
     hs_random_draw_ordinal st = hs_random_draw_ordinal st'"
proof -
  have "take_bit 64 (unat a) = unat a" for a :: u32
    using unat_u32_bound [of a] by (simp add: take_bit_nat_eq_self)
  then have "(ucast (hs_actor_id st) :: u64) = ucast (hs_actor_id st') \<longleftrightarrow> hs_actor_id st = hs_actor_id st'"
    by (simp add: word_unat_eq_iff unsigned_ucast_eq take_bit_word_eq_self)
  then show ?thesis by (simp add: draw_input_def)
qed


section \<open>Properties\<close>

text \<open>
  C40. Whatever a cell calls and however it uses its memory, what the host retains of it stays within
  the limits: at most the granted number of emits and 4 MiB of their payloads, none over 64 KiB and
  none on a channel outside the granted ones, 100000 log lines and 4 MiB of text, with the byte
  counts exact.  Emits are numbered 0, 1, 2, ... and their ticks never decrease, which is the order
  the observed hash demands.
\<close>

theorem cell_output_bounded:
  assumes "cell_life h xof st mem"
  shows "length (hs_emitted_payloads st) \<le> hs_emitted_payload_limit st \<and>
    sum_list (map (length \<circ> em_payload) (hs_emitted_payloads st)) \<le> 4 * 1024 * 1024 \<and>
    (\<forall>e\<in>set (hs_emitted_payloads st).
       em_channel_id e \<in> set (hs_emit_channels st) \<and> length (em_payload e) \<le> 64 * 1024) \<and>
    length (hs_log_lines st) \<le> 100000 \<and>
    sum_list (map (\<lambda>(t, l, line). length line) (hs_log_lines st)) \<le> 4 * 1024 * 1024 \<and>
    map em_src_seq (hs_emitted_payloads st) = map word_of_nat [0..<length (hs_emitted_payloads st)] \<and>
    sorted (map em_tick (hs_emitted_payloads st))"
proof -
  from cell_life_invariant [OF assms] have r: "retained st" and s: "sequenced st" by blast+
  have "MAX_EMITTED_PAYLOAD_BYTES = 4 * 1024 * 1024" "MAX_ABI_TRANSFER_BYTES = 64 * 1024"
    "MAX_RETAINED_LOG_LINES = 100000" "MAX_RETAINED_LOG_BYTES = 4 * 1024 * 1024"
    by (simp_all only: MAX_EMITTED_PAYLOAD_BYTES_def MAX_ABI_TRANSFER_BYTES_def
        MAX_RETAINED_LOG_LINES_def MAX_RETAINED_LOG_BYTES_def)
  with r s show ?thesis unfolding retained_def sequenced_def by metis
qed

text \<open>A host that grants one emit on channel 8, and the emit of three bytes.\<close>

definition demo_host :: host_state where
  "demo_host = default_host_state\<lparr>hs_actor_id := 1, hs_emit_channels := [8], hs_emitted_payload_limit := 1\<rparr>"

lemma demo_emit:
  "\<exists>st'. host_call h xof (CallEmit 8 1 2) demo_host (Some [1, 2, 3]) = Inr (VI32 0, st', Some [1, 2, 3]) \<and>
     map em_payload (hs_emitted_payloads st') = [[2, 3]]"
proof -
  have r: "checked_guest_range (Some [1, 2, 3]) 1 2 MAX_ABI_TRANSFER_BYTES = Inr ([1, 2, 3], 1, 2)"
    by (simp add: checked_guest_range_Inr MAX_ABI_TRANSFER_BYTES_def)
  have d: "mem_read [1, 2, 3] 1 2 = Some [2, 3 :: byte]"
    by (simp add: mem_read_Some subslice_def)
  show ?thesis
    by (simp add: abi_emit_def demo_host_def default_host_state_def r d [simplified] validate_emit_retention_def
        checked_add_usize_def checked_add_u64_def MAX_EMITTED_PAYLOAD_BYTES_def)
qed

theorem cell_output_bounded_witness:
  "\<exists>st. cell_life demo_hash (\<lambda>_ _ _. 0) st (Some [1, 2, 3]) \<and>
     map em_payload (hs_emitted_payloads st) = [[2, 3]] \<and>
     length (hs_emitted_payloads st) \<le> hs_emitted_payload_limit st"
proof -
  have "cell_life demo_hash (\<lambda>_ _ _. 0) demo_host (Some [1, 2, 3])"
    by (rule born) (simp add: fresh_host_def demo_host_def default_host_state_def)
  with demo_emit obtain st where st: "cell_life demo_hash (\<lambda>_ _ _. 0) st (Some [1, 2, 3])"
    "map em_payload (hs_emitted_payloads st) = [[2, 3]]"
    by (metis calls)
  from cell_output_bounded [OF st(1)] st show ?thesis by (intro exI [of _ st]) simp
qed

text \<open>
  C39. A host call writes into guest memory only inside the window the cell passed with the call, and
  never changes the memory's size; only \<open>inbox_read\<close>, \<open>rand\<close> and \<open>param\<close> have a window at all.
\<close>

theorem host_call_writes_window:
  assumes "host_call h xof c st (Some m) = Inr (v, st', mem')"
    and "\<forall>message\<in>set (hs_inbox st). length (ib_payload message) < 2 ^ 31"
  shows "\<exists>m'. mem' = Some m' \<and> length m' = length m \<and>
    (\<forall>i<length m. i < fst (write_window c) \<or> fst (write_window c) + snd (write_window c) \<le> i \<longrightarrow>
       m' ! i = m ! i)"
  using host_call_confined [OF assms] by (simp add: confined_def)

theorem host_call_writes_window_witness:
  "\<exists>st' mem'. host_call demo_hash (\<lambda>_ _ _. 0) (CallEmit 8 1 2) demo_host (Some [1, 2, 3]) =
       Inr (VI32 0, st', mem') \<and> (\<exists>m'. mem' = Some m' \<and> length m' = 3)"
proof -
  obtain st' where s: "host_call demo_hash (\<lambda>_ _ _. 0) (CallEmit 8 1 2) demo_host (Some [1, 2, 3]) =
       Inr (VI32 0, st', Some [1, 2, 3])" using demo_emit by blast
  have "\<forall>message\<in>set (hs_inbox demo_host). length (ib_payload message) < 2 ^ 31"
    by (simp add: demo_host_def default_host_state_def)
  from host_call_writes_window [OF s this] s show ?thesis by auto
qed

text \<open>
  The answers of \<open>param\<close> for a key that is present, given a valid output range: the length, with
  the value written at the start of the range, when it fits; minus the length, with memory unchanged,
  when it does not.  So the answer -1, which stands for an absent key, is also given for a value of
  one byte and no room for it.
\<close>

theorem param_answers:
  assumes "checked_guest_range (Some m) kp kn MAX_ABI_TRANSFER_BYTES = Inr (m, k, n)"
    and "mem_read m k n = Some key" and "hs_params st key = Some val" and "length val < 2 ^ 31"
    and "checked_guest_range (Some m) p capacity MAX_ABI_TRANSFER_BYTES = Inr (m, a, c)"
  shows "(length val \<le> c \<longrightarrow> (\<exists>m'. abi_param st (Some m) kp kn p capacity =
        Inr (word_of_nat (length val), Some m') \<and> mem_read m' a (length val) = Some val)) \<and>
    (c < length val \<longrightarrow> abi_param st (Some m) kp kn p capacity = Inr (- word_of_nat (length val), Some m)) \<and>
    (abi_param st (Some m) kp kn p capacity = Inr (- 1, Some m) \<longleftrightarrow> length val = 1 \<and> c = 0)"
proof -
  have range: "a + c \<le> length m" using assms(5) by (simp add: checked_guest_range_Inr)
  have small: "(word_of_nat (length val) :: i32) = word_of_nat (Suc 0) \<longleftrightarrow> length val = Suc 0"
      "(word_of_nat (length val) :: i32) \<noteq> - 1"
    using assms(4) sint_i32_of_nat [of "length val"]
    by (auto simp: word_of_nat_eq_iff take_bit_eq_mod)
  have eq: "abi_param st (Some m) kp kn p capacity =
      (if length val > c then Inr (- word_of_nat (length val), Some m)
       else case mem_write m a val of None \<Rightarrow> Inl MemoryFault
       | Some m' \<Rightarrow> Inr (word_of_nat (length val), Some m'))"
    using assms by (simp add: abi_param_def)
  show ?thesis
  proof (cases "length val \<le> c")
    case True
    with range obtain m' where m': "mem_write m a val = Some m'" by (simp add: mem_write_def)
    from True m' small mem_write_Some(2) [OF m'] show ?thesis by (simp add: eq)
  next
    case False
    with small show ?thesis by (auto simp: eq)
  qed
qed

theorem param_answers_witness:
  "abi_param (demo_host\<lparr>hs_params := [[7] \<mapsto> [9]]\<rparr>) (Some [7]) 0 1 0 0 = Inr (- 1, Some [7]) \<and>
   abi_param demo_host (Some [7]) 0 1 0 0 = Inr (- 1, Some [7])"
proof -
  have k: "checked_guest_range (Some [7]) 0 1 MAX_ABI_TRANSFER_BYTES = Inr ([7], 0, 1)"
    and o: "checked_guest_range (Some [7]) 0 0 MAX_ABI_TRANSFER_BYTES = Inr ([7], 0, 0)"
    and r: "mem_read [7] 0 1 = Some [7 :: byte]"
    by (simp_all add: checked_guest_range_Inr MAX_ABI_TRANSFER_BYTES_def mem_read_Some subslice_def)
  have "abi_param (demo_host\<lparr>hs_params := [[7] \<mapsto> [9]]\<rparr>) (Some [7]) 0 1 0 0 = Inr (- 1, Some [7])"
    using param_answers [OF k r _ _ o, of "demo_host\<lparr>hs_params := [[7] \<mapsto> [9]]\<rparr>" "[9]"] by simp
  moreover have "abi_param demo_host (Some [7]) 0 1 0 0 = Inr (- 1, Some [7])"
    by (simp add: abi_param_def k r [simplified] demo_host_def default_host_state_def)
  ultimately show ?thesis by blast
qed

end
