(* ===== verification/Cell_Host.thy ===== *)
theory Cell_Host
  imports Cell_Abi
begin

text \<open>
  The host of one cell: crates/rook-host/src/rmf.rs, the parts that do not depend on the robots'
  script.  The Wasm module is data the host loads: it is the parameter \<open>guest\<close>, what instantiating
  and initialising it gives and what one \<open>rook_step\<close> does, each to the host's state and the guest's
  memory, or the trap that ended it.  The locale \<open>abi_cell\<close> is the contract that makes it a cell: it
  reaches the host through the ten imports only.
\<close>

subsection \<open>Data\<close>

definition CH_HEARTBEAT :: u32 where "CH_HEARTBEAT = 20"

record delivery =
  dv_envelope :: envelope
  dv_payload :: bytes

record bag_delivery =
  bd_tick :: u64
  bd_channel_id :: u32
  bd_payload :: bytes

record cell_run =
  cr_deliveries :: "delivery list"
  cr_emits :: "emitted_payload list"
  cr_log_lines :: "(u64 \<times> i32 \<times> bytes) list"
  cr_exceptions_logged :: nat
  cr_gridlock_heartbeats :: nat

record 'g guest =
  g_init :: "host_state \<Rightarrow> trap + 'g \<times> host_state \<times> guest_mem"
  g_step :: "'g \<Rightarrow> host_state \<Rightarrow> guest_mem \<Rightarrow> trap + 'g \<times> host_state \<times> guest_mem"

record 'g cell =
  cl_guest :: 'g
  cl_state :: host_state
  cl_memory :: guest_mem

subsection \<open>Running a cell\<close>

definition cell_host :: "u64 \<Rightarrow> nat \<Rightarrow> host_state" where
  "cell_host min_conflict_angle emit_limit =
     default_host_state\<lparr>hs_actor_id := CELL_ACTOR_ID, hs_emit_channels := [CH_HEARTBEAT],
       hs_emitted_payload_limit := emit_limit,
       hs_params := [ascii ''min_conflict_angle'' \<mapsto> to_le min_conflict_angle]\<rparr>"

definition instantiate_cell :: "'g guest \<Rightarrow> host_state \<Rightarrow> trap + 'g cell" where
  "instantiate_cell cell st =
     (case g_init cell st of
        Inl e \<Rightarrow> Inl e
      | Inr (g, st', mem) \<Rightarrow> Inr \<lparr>cl_guest = g, cl_state = st', cl_memory = mem\<rparr>)"

definition cell_step :: "'g guest \<Rightarrow> u64 \<Rightarrow> inbox_message list \<Rightarrow> 'g cell \<Rightarrow> trap + nat \<times> 'g cell" where
  "cell_step cell tick inbox c =
     (let first_emit = length (hs_emitted_payloads (cl_state c)) in
      case g_step cell (cl_guest c) ((cl_state c)\<lparr>hs_tick := tick, hs_inbox := inbox\<rparr>) (cl_memory c) of
        Inl e \<Rightarrow> Inl e
      | Inr (g, st', mem) \<Rightarrow>
          Inr (first_emit, \<lparr>cl_guest = g, cl_state = st'\<lparr>hs_inbox := []\<rparr>, cl_memory = mem\<rparr>))"

definition cell_finish :: "'g cell \<Rightarrow> cell_run" where
  "cell_finish c =
     (let st = cl_state c in
      \<lparr>cr_deliveries = [], cr_emits = hs_emitted_payloads st, cr_log_lines = hs_log_lines st,
       cr_exceptions_logged = length (filter (\<lambda>(t, level, line). level = 2) (hs_log_lines st)),
       cr_gridlock_heartbeats =
         length (filter (\<lambda>e. get_at (em_payload e) 0 = Some 1) (hs_emitted_payloads st))\<rparr>)"

definition message_of :: "delivery \<Rightarrow> inbox_message" where
  "message_of d = \<lparr>ib_channel_id = e_channel_id (dv_envelope d), ib_payload = dv_payload d\<rparr>"

abbreviation dv_tick :: "delivery \<Rightarrow> u64" where "dv_tick d \<equiv> e_tick (dv_envelope d)"

function feed_ticks :: "'g guest \<Rightarrow> delivery list \<Rightarrow> 'g cell \<Rightarrow> trap + 'g cell" where
  "feed_ticks cell [] c = Inr c"
| "feed_ticks cell (d # ds) c =
     (let tick = dv_tick d;
          inbox = map message_of (d # takeWhile (\<lambda>e. dv_tick e = tick) ds)
      in case cell_step cell tick inbox c of
        Inl e \<Rightarrow> Inl e
      | Inr (first_emit, c') \<Rightarrow> feed_ticks cell (dropWhile (\<lambda>e. dv_tick e = tick) ds) c')"
  by pat_completeness auto
termination
  by (relation "measure (\<lambda>(cell, ds, c). length ds)") (auto simp: less_Suc_eq_le length_dropWhile_le)

definition delivery_key :: "delivery \<Rightarrow> u64 \<times> u32 \<times> u32 \<times> u32 \<times> u64" where
  "delivery_key d = scheduling_key (dv_envelope d)"

definition replay_deliveries :: "'g guest \<Rightarrow> u64 \<Rightarrow> delivery list \<Rightarrow> trap + cell_run" where
  "replay_deliveries cell min_conflict_angle deliveries =
     (let ordered = sort_key delivery_key deliveries in
      case instantiate_cell cell (cell_host min_conflict_angle (length ordered)) of
        Inl e \<Rightarrow> Inl e
      | Inr c \<Rightarrow>
          (case feed_ticks cell ordered c of
             Inl e \<Rightarrow> Inl e
           | Inr c' \<Rightarrow> Inr ((cell_finish c')\<lparr>cr_deliveries := ordered\<rparr>)))"

fun feed_bag :: "'g guest \<Rightarrow> bag_delivery list \<Rightarrow> 'g cell \<Rightarrow> trap + 'g cell" where
  "feed_bag cell [] c = Inr c"
| "feed_bag cell (d # ds) c =
     (case cell_step cell (bd_tick d)
             [\<lparr>ib_channel_id = bd_channel_id d, ib_payload = bd_payload d\<rparr>] c of
        Inl e \<Rightarrow> Inl e
      | Inr (first_emit, c') \<Rightarrow> feed_bag cell ds c')"

definition replay_bag_deliveries ::
  "'g guest \<Rightarrow> u64 \<Rightarrow> bag_delivery list \<Rightarrow> trap + (u64 \<times> bytes) list" where
  "replay_bag_deliveries cell min_conflict_angle deliveries =
     (case instantiate_cell cell (cell_host min_conflict_angle (length deliveries * 2)) of
        Inl e \<Rightarrow> Inl e
      | Inr c \<Rightarrow>
          (case feed_bag cell deliveries c of
             Inl e \<Rightarrow> Inl e
           | Inr c' \<Rightarrow> Inr (map (\<lambda>e. (em_tick e, em_payload e)) (cr_emits (cell_finish c')))))"

subsection \<open>Hashing and comparing runs\<close>

definition RMF_TRACE_DOMAIN :: bytes where
  "RMF_TRACE_DOMAIN = ascii ''rook-trace-v1/rmf-blockade-synthetic@1''"

definition emit_envelope :: "hash_fn \<Rightarrow> emitted_payload \<Rightarrow> envelope" where
  "emit_envelope h e =
     \<lparr>e_kind = KEmit, e_tick = em_tick e, e_src_actor = CELL_ACTOR_ID, e_dst_actor = OUTPUT_ACTOR_ID,
      e_channel_id = em_channel_id e, e_payload_len = word_of_nat (length (em_payload e)),
      e_src_seq = em_src_seq e, e_payload_blake3 = h (em_payload e)\<rparr>"

definition run_hashes :: "hash_fn \<Rightarrow> keyed_fn \<Rightarrow> cell_run \<Rightarrow> replay_error + replay_hashes" where
  "run_hashes h kh r =
     hash_observed h kh RMF_TRACE_DOMAIN (map dv_envelope (cr_deliveries r))
       (map (emit_envelope h) (cr_emits r))"

datatype run_mismatch =
    EmitCountDiffers nat nat
  | EmitDiffers nat
  | HashingFailed replay_error
  | HashesDiffer replay_hashes replay_hashes

definition same_emit :: "emitted_payload \<Rightarrow> emitted_payload \<Rightarrow> bool" where
  "same_emit a b \<longleftrightarrow>
     \<not> (em_tick a \<noteq> em_tick b \<or> em_src_seq a \<noteq> em_src_seq b \<or> em_payload a \<noteq> em_payload b)"

definition require_same_run ::
  "hash_fn \<Rightarrow> keyed_fn \<Rightarrow> cell_run \<Rightarrow> cell_run \<Rightarrow> run_mismatch + unit" where
  "require_same_run h kh expected actual =
     (if length (cr_emits expected) \<noteq> length (cr_emits actual)
      then Inl (EmitCountDiffers (length (cr_emits actual)) (length (cr_emits expected)))
      else case find (\<lambda>i. \<not> same_emit (cr_emits expected ! i) (cr_emits actual ! i))
                  [0..<length (cr_emits expected)] of
        Some i \<Rightarrow> Inl (EmitDiffers i)
      | None \<Rightarrow>
          (case run_hashes h kh expected of
             Inl e \<Rightarrow> Inl (HashingFailed e)
           | Inr expected_hashes \<Rightarrow>
               (case run_hashes h kh actual of
                  Inl e \<Rightarrow> Inl (HashingFailed e)
                | Inr actual_hashes \<Rightarrow>
                    if expected_hashes \<noteq> actual_hashes
                    then Inl (HashesDiffer expected_hashes actual_hashes) else Inr ())))"

section \<open>Cells that keep to the host interface\<close>

text \<open>What a stretch of guest execution can do: host calls and work on its own memory.\<close>

inductive abi_steps ::
  "hash_fn \<Rightarrow> xof_fn \<Rightarrow> host_state \<Rightarrow> guest_mem \<Rightarrow> host_state \<Rightarrow> guest_mem \<Rightarrow> bool" for h xof where
  idle: "abi_steps h xof st mem st mem'"
| then_call: "abi_steps h xof st mem st1 mem1 \<Longrightarrow> host_call h xof c st1 mem1 = Inr (v, st2, mem2) \<Longrightarrow>
    abi_steps h xof st mem st2 mem3"

lemma abi_steps_life: "abi_steps h xof st mem st' mem' \<Longrightarrow> cell_life h xof st mem \<Longrightarrow> cell_life h xof st' mem'"
  by (induction rule: abi_steps.induct) (auto intro: cell_life.intros)

lemma abi_steps_memory: "abi_steps h xof st mem st' mem' \<Longrightarrow> abi_steps h xof st mem st' mem''"
  by (erule abi_steps.cases) (auto intro: abi_steps.intros)

lemma abi_steps_trans:
  "abi_steps h xof st1 mem1 st2 mem2 \<Longrightarrow> abi_steps h xof st mem st1 mem1 \<Longrightarrow> abi_steps h xof st mem st2 mem2"
  by (induction rule: abi_steps.induct) (auto intro: abi_steps.intros abi_steps_memory)

lemma abi_steps_call:
  "host_call h xof c st mem = Inr (v, st', mem') \<Longrightarrow> abi_steps h xof st mem st' mem'"
  by (rule then_call [OF idle])

text \<open>Nothing but the emits, the log and the draw counter changes within a tick.\<close>

definition same_settings :: "host_state \<Rightarrow> host_state \<Rightarrow> bool" where
  "same_settings st st' \<longleftrightarrow>
     hs_tick st' = hs_tick st \<and> hs_inbox st' = hs_inbox st \<and> hs_actor_id st' = hs_actor_id st \<and>
     hs_emit_channels st' = hs_emit_channels st \<and> hs_params st' = hs_params st \<and>
     hs_emitted_payload_limit st' = hs_emitted_payload_limit st"

definition emits_now :: "host_state \<Rightarrow> host_state \<Rightarrow> bool" where
  "emits_now st st' \<longleftrightarrow>
     (\<exists>new. hs_emitted_payloads st' = hs_emitted_payloads st @ new \<and>
        (\<forall>e\<in>set new. em_tick e = hs_tick st))"

lemma host_call_settings:
  assumes "host_call h xof c st mem = Inr (v, st', mem')"
  shows "same_settings st st' \<and> emits_now st st'"
  using host_call_effect [OF assms]
  by (auto simp: same_settings_def emits_now_def emit_record_def dest!: abi_emit_cases abi_log_cases)

lemma abi_steps_settings: "abi_steps h xof st mem st' mem' \<Longrightarrow> same_settings st st' \<and> emits_now st st'"
proof (induction rule: abi_steps.induct)
  case (then_call st mem st1 mem1 c v st2 mem2 mem3)
  with host_call_settings [OF then_call.hyps(2)] show ?case
    by (auto simp: same_settings_def emits_now_def)
qed (simp add: same_settings_def emits_now_def)

lemma sequenced_emits_in_order:
  assumes "sequenced st"
  shows "emits_in_order (map (emit_envelope h) (hs_emitted_payloads st))"
proof -
  let ?es = "hs_emitted_payloads st"
  have "sorted_wrt (\<lambda>i j. em_src_seq (?es ! i) < em_src_seq (?es ! j) \<and> em_tick (?es ! i) \<le> em_tick (?es ! j))
      [0..<length ?es]"
  proof (rule sorted_wrt_iff_nth_less [THEN iffD2], intro allI impI)
    fix i j assume ij: "i < j" "j < length [0..<length ?es]"
    have "em_src_seq (?es ! k) = word_of_nat k" if "k < length ?es" for k
      using assms that unfolding sequenced_def
      by (metis (no_types, lifting) add_0 length_map nth_map nth_upt)
    then show "em_src_seq (?es ! ([0..<length ?es] ! i)) < em_src_seq (?es ! ([0..<length ?es] ! j)) \<and>
        em_tick (?es ! ([0..<length ?es] ! i)) \<le> em_tick (?es ! ([0..<length ?es] ! j))"
      using ij assms by (auto simp: sequenced_def u64_of_nat_less sorted_map sorted_wrt_iff_nth_less)
  qed
  then have "sorted_wrt (\<lambda>a b. em_src_seq a < em_src_seq b \<and> em_tick a \<le> em_tick b) (map ((!) ?es) [0..<length ?es])"
    by (simp only: sorted_wrt_map)
  then show ?thesis
    by (simp add: emits_in_order_def sorted_wrt_map emit_envelope_def map_nth)
qed

lemma sorted_dv_tick: "sorted (map dv_tick (sort_key delivery_key ds))"
proof -
  have "sorted_wrt (\<lambda>a b. delivery_key a \<le> delivery_key b) (sort_key delivery_key ds)"
    using sorted_sort_key [of delivery_key ds] by (simp only: sorted_wrt_map)
  then show ?thesis
    unfolding sorted_wrt_map
    by (rule sorted_wrt_mono_rel [rotated]) (auto simp: delivery_key_def scheduling_key_def less_eq_prod_def)
qed

locale abi_cell =
  fixes h :: hash_fn and xof :: xof_fn and cell :: "'g guest"
  assumes init_abi: "g_init cell st = Inr (g, st', mem') \<Longrightarrow> abi_steps h xof st None st' mem'"
    and step_abi: "g_step cell g st mem = Inr (g', st', mem') \<Longrightarrow> abi_steps h xof st mem st' mem'"
begin

lemma cell_step_life:
  assumes "cell_step cell tick inbox c = Inr (k, c')" and "cell_life h xof (cl_state c) (cl_memory c)"
    and "hs_tick (cl_state c) \<le> tick"
  shows "cell_life h xof (cl_state c') (cl_memory c') \<and> hs_tick (cl_state c') = tick \<and>
    hs_emitted_payload_limit (cl_state c') = hs_emitted_payload_limit (cl_state c) \<and>
    (\<exists>new. hs_emitted_payloads (cl_state c') = hs_emitted_payloads (cl_state c) @ new \<and>
       (\<forall>e\<in>set new. em_tick e = tick))"
proof -
  let ?st = "(cl_state c)\<lparr>hs_tick := tick, hs_inbox := inbox\<rparr>"
  from assms(1) obtain g st' mem where s: "g_step cell (cl_guest c) ?st (cl_memory c) = Inr (g, st', mem)"
    and c': "c' = \<lparr>cl_guest = g, cl_state = st'\<lparr>hs_inbox := []\<rparr>, cl_memory = mem\<rparr>"
    by (auto simp: cell_step_def Let_def split: sum.splits)
  note steps = step_abi [OF s]
  have "cell_life h xof ?st (cl_memory c)" using assms(2,3) by (rule fed)
  with steps have "cell_life h xof st' mem" by (rule abi_steps_life)
  then have "cell_life h xof (st'\<lparr>hs_tick := hs_tick st', hs_inbox := []\<rparr>) mem" by (rule fed) simp
  moreover have "same_settings ?st st'" "emits_now ?st st'" using abi_steps_settings [OF steps] by blast+
  ultimately show ?thesis by (auto simp: c' same_settings_def emits_now_def)
qed

lemma feed_ticks_life:
  assumes "feed_ticks cell ds c = Inr c'" and "cell_life h xof (cl_state c) (cl_memory c)"
    and "sorted (map dv_tick ds)" and "\<forall>d\<in>set ds. hs_tick (cl_state c) \<le> dv_tick d"
  shows "cell_life h xof (cl_state c') (cl_memory c') \<and>
    hs_emitted_payload_limit (cl_state c') = hs_emitted_payload_limit (cl_state c) \<and>
    (\<exists>new. hs_emitted_payloads (cl_state c') = hs_emitted_payloads (cl_state c) @ new \<and>
       em_tick ` set new \<subseteq> dv_tick ` set ds)"
  using assms
proof (induction "length ds" arbitrary: ds c rule: less_induct)
  case less
  show ?case
  proof (cases ds)
    case Nil
    with less show ?thesis by auto
  next
    case (Cons d rest)
    let ?later = "dropWhile (\<lambda>e. dv_tick e = dv_tick d) rest"
    obtain k c1 where s: "cell_step cell (dv_tick d)
          (map message_of (d # takeWhile (\<lambda>e. dv_tick e = dv_tick d) rest)) c = Inr (k, c1)"
      and f: "feed_ticks cell ?later c1 = Inr c'"
      using less.prems(1) by (auto simp: Cons Let_def split: sum.splits)
    from less.prems have le: "hs_tick (cl_state c) \<le> dv_tick d" by (simp add: Cons)
    note first = cell_step_life [OF s less.prems(2) le]
    have "sorted (map dv_tick ?later)"
      using less.prems(3) by (simp add: Cons sorted_map_dropWhile)
    moreover have "\<forall>e\<in>set ?later. hs_tick (cl_state c1) \<le> dv_tick e"
      using first less.prems(3) by (auto simp: Cons dest: set_dropWhileD)
    moreover have "length ?later < length ds"
      by (simp add: Cons less_Suc_eq_le length_dropWhile_le)
    moreover have "cell_life h xof (cl_state c1) (cl_memory c1)" using first by blast
    ultimately have "cell_life h xof (cl_state c') (cl_memory c') \<and>
        hs_emitted_payload_limit (cl_state c') = hs_emitted_payload_limit (cl_state c1) \<and>
        (\<exists>new. hs_emitted_payloads (cl_state c') = hs_emitted_payloads (cl_state c1) @ new \<and>
           em_tick ` set new \<subseteq> dv_tick ` set ?later)"
      using less.hyps f by blast
    then obtain new where life: "cell_life h xof (cl_state c') (cl_memory c')"
      and limit: "hs_emitted_payload_limit (cl_state c') = hs_emitted_payload_limit (cl_state c1)"
      and new: "hs_emitted_payloads (cl_state c') = hs_emitted_payloads (cl_state c1) @ new"
        "em_tick ` set new \<subseteq> dv_tick ` set ?later" by blast
    from first obtain now where
      now: "hs_emitted_payloads (cl_state c1) = hs_emitted_payloads (cl_state c) @ now"
        "\<forall>e\<in>set now. em_tick e = dv_tick d" by blast
    have "dv_tick ` set ?later \<subseteq> dv_tick ` set ds" by (auto simp: Cons dest: set_dropWhileD)
    with life limit first new now show ?thesis
      by (intro conjI exI [of _ "now @ new"]) (auto simp: Cons)
  qed
qed

lemma instantiate_life:
  assumes "instantiate_cell cell st = Inr c" and "fresh_host st"
  shows "cell_life h xof (cl_state c) (cl_memory c) \<and> hs_tick (cl_state c) = hs_tick st \<and>
    hs_emitted_payload_limit (cl_state c) = hs_emitted_payload_limit st \<and>
    (\<forall>e\<in>set (hs_emitted_payloads (cl_state c)). em_tick e = hs_tick st)"
proof -
  from assms(1) obtain g st' mem where g: "g_init cell st = Inr (g, st', mem)"
    and c: "c = \<lparr>cl_guest = g, cl_state = st', cl_memory = mem\<rparr>"
    by (auto simp: instantiate_cell_def split: sum.splits)
  have "cell_life h xof st None" using assms(2) by (rule born)
  with init_abi [OF g] have "cell_life h xof st' mem" by (rule abi_steps_life)
  then show ?thesis
    using abi_steps_settings [OF init_abi [OF g]] assms(2)
    by (auto simp: c same_settings_def emits_now_def fresh_host_def)
qed

lemma replay_deliveries_emits:
  assumes "replay_deliveries cell angle ds = Inr r"
  shows "cr_deliveries r = sort_key delivery_key ds" and "emits_in_order (map (emit_envelope h) (cr_emits r))"
    and "em_tick ` set (cr_emits r) \<subseteq> insert 0 (dv_tick ` set ds)" and "length (cr_emits r) \<le> length ds"
proof -
  let ?o = "sort_key delivery_key ds"
  from assms obtain c c' where c: "instantiate_cell cell (cell_host angle (length ds)) = Inr c"
    and c': "feed_ticks cell ?o c = Inr c'" and r: "r = (cell_finish c')\<lparr>cr_deliveries := ?o\<rparr>"
    by (auto simp: replay_deliveries_def Let_def split: sum.splits)
  have fresh: "fresh_host (cell_host angle (length ds))" "hs_tick (cell_host angle (length ds)) = 0"
      "hs_emitted_payload_limit (cell_host angle (length ds)) = length ds"
    by (simp_all add: fresh_host_def cell_host_def default_host_state_def)
  note born = instantiate_life [OF c fresh(1)]
  have "sorted (map dv_tick ?o)" by (rule sorted_dv_tick)
  then have run: "cell_life h xof (cl_state c') (cl_memory c') \<and>
      hs_emitted_payload_limit (cl_state c') = length ds \<and>
      (\<exists>new. hs_emitted_payloads (cl_state c') = hs_emitted_payloads (cl_state c) @ new \<and>
         em_tick ` set new \<subseteq> dv_tick ` set ?o)"
    using feed_ticks_life [OF c'] born fresh by simp
  then have inv: "retained (cl_state c')" "sequenced (cl_state c')"
    using cell_life_invariant by blast+
  have emits: "cr_emits r = hs_emitted_payloads (cl_state c')"
    by (simp add: r cell_finish_def Let_def)
  show "cr_deliveries r = ?o" by (simp add: r)
  show "emits_in_order (map (emit_envelope h) (cr_emits r))"
    unfolding emits by (rule sequenced_emits_in_order [OF inv(2)])
  show "em_tick ` set (cr_emits r) \<subseteq> insert 0 (dv_tick ` set ds)"
    unfolding emits using run born fresh(2) by (auto simp: image_subset_iff)
  show "length (cr_emits r) \<le> length ds"
    unfolding emits using inv(1) run by (simp add: retained_def)
qed

end

lemma map_envelope_keys: "map scheduling_key (map dv_envelope ds) = map delivery_key ds"
  by (simp add: delivery_key_def)

lemma run_hashes_result_iff:
  assumes "emits_in_order (map (emit_envelope h) (cr_emits r))"
  shows "(\<exists>x. run_hashes h kh r = Inr x) \<longleftrightarrow>
    length (cr_deliveries r) \<le> 2 ^ 32 - 1 \<and> distinct (map delivery_key (cr_deliveries r)) \<and>
    em_tick ` set (cr_emits r) \<subseteq> dv_tick ` set (cr_deliveries r)"
proof -
  have "e_tick ` set (map (emit_envelope h) es) = em_tick ` set es" for es
    by (simp add: image_image emit_envelope_def)
  moreover have "e_tick ` set (map dv_envelope ds) = dv_tick ` set ds" for ds
    by (simp add: image_image)
  ultimately show ?thesis
    using assms unfolding run_hashes_def hash_observed_result_iff map_envelope_keys by simp
qed

lemma sort_deliveries_unique:
  assumes "mset ds = mset ds'" and "distinct (map delivery_key ds)"
  shows "sort_key delivery_key ds = sort_key delivery_key ds'"
proof (rule sort_key_inj_key_eq)
  show "mset ds = mset (sort_key delivery_key ds')" using assms(1) by simp
  show "inj_on delivery_key (set ds)" using assms(2) by (simp add: distinct_map)
  show "sorted (map delivery_key (sort_key delivery_key ds'))" by simp
qed

lemma require_same_run_iff:
  "require_same_run h kh r r' = Inr () \<longleftrightarrow>
     list_all2 same_emit (cr_emits r) (cr_emits r') \<and>
     (\<exists>x. run_hashes h kh r = Inr x \<and> run_hashes h kh r' = Inr x)"
proof -
  have "find (\<lambda>i. \<not> same_emit (cr_emits r ! i) (cr_emits r' ! i)) [0..<length (cr_emits r)] = None \<longleftrightarrow>
      (\<forall>i<length (cr_emits r). same_emit (cr_emits r ! i) (cr_emits r' ! i))"
    by (simp add: find_None_iff atLeast0LessThan Ball_def)
  then show ?thesis
    by (auto simp: require_same_run_def list_all2_conv_all_nth split: option.splits sum.splits if_splits)
qed

section \<open>Properties\<close>

text \<open>
  Replaying recorded deliveries into a cell depends on them as a collection only, and the run of
  any cell that keeps to the host interface can be hashed: it has at most one emit per delivery, in
  the order the observed hash demands, and is refused only for deliveries without one order or for
  an emit during initialization, which carries tick 0 without a delivery at tick 0.
\<close>

theorem cell_replay_hashable:
  assumes "abi_cell h xof cell" and "replay_deliveries cell angle ds = Inr r"
    and "distinct (map delivery_key ds)" and "length ds \<le> 2 ^ 32 - 1"
  shows "(mset ds' = mset ds \<longrightarrow> replay_deliveries cell angle ds' = Inr r) \<and>
    length (cr_emits r) \<le> length ds \<and>
    ((\<exists>x. run_hashes h kh r = Inr x) \<longleftrightarrow>
       (\<forall>e\<in>set (cr_emits r). em_tick e = 0 \<longrightarrow> 0 \<in> dv_tick ` set ds))"
proof -
  note emits = abi_cell.replay_deliveries_emits [OF assms(1,2)]
  have "length (cr_deliveries r) \<le> 2 ^ 32 - 1" "distinct (map delivery_key (cr_deliveries r))"
    using assms(3,4) by (simp_all add: emits(1) distinct_map)
  moreover have "em_tick ` set (cr_emits r) \<subseteq> dv_tick ` set ds \<longleftrightarrow>
      (\<forall>e\<in>set (cr_emits r). em_tick e = 0 \<longrightarrow> 0 \<in> dv_tick ` set ds)"
    using emits(3) by auto
  ultimately have "(\<exists>x. run_hashes h kh r = Inr x) \<longleftrightarrow>
      (\<forall>e\<in>set (cr_emits r). em_tick e = 0 \<longrightarrow> 0 \<in> dv_tick ` set ds)"
    using run_hashes_result_iff [OF emits(2)] by (simp add: emits(1))
  moreover have "replay_deliveries cell angle ds' = Inr r" if "mset ds' = mset ds"
    using assms(2) sort_deliveries_unique [OF that [symmetric] assms(3)]
    by (simp add: replay_deliveries_def Let_def)
  ultimately show ?thesis using emits(4) by blast
qed

text \<open>A cell that only sleeps.\<close>

definition idle_guest :: "unit guest" where
  "idle_guest = \<lparr>g_init = (\<lambda>st. Inr ((), st, None)), g_step = (\<lambda>g st mem. Inr (g, st, mem))\<rparr>"

theorem cell_replay_hashable_witness:
  "\<exists>r x. replay_deliveries idle_guest 0 [\<lparr>dv_envelope = synthetic_delivery demo_hash 0, dv_payload = []\<rparr>] = Inr r \<and>
     run_hashes demo_hash (\<lambda>_ _. 0) r = Inr x"
proof -
  let ?ds = "[\<lparr>dv_envelope = synthetic_delivery demo_hash 0, dv_payload = []\<rparr>]"
  have cell: "abi_cell demo_hash (\<lambda>_ _ _. 0) idle_guest"
    by unfold_locales (auto simp: idle_guest_def intro: idle)
  have "\<exists>r. replay_deliveries idle_guest 0 ?ds = Inr r \<and> cr_emits r = []"
    by (simp add: replay_deliveries_def instantiate_cell_def idle_guest_def cell_step_def
        cell_finish_def cell_host_def default_host_state_def Let_def)
  then obtain r where r: "replay_deliveries idle_guest 0 ?ds = Inr r" "cr_emits r = []" by blast
  have "distinct (map delivery_key ?ds)" "length ?ds \<le> 2 ^ 32 - 1" by simp_all
  from cell_replay_hashable [OF cell r(1) this] r show ?thesis by simp
qed

text \<open>
  Two runs are accepted as the same exactly when their emits agree one by one in tick, sequence
  and payload and both hash to the same run hash and output digest.
\<close>

theorem same_run_exact:
  "require_same_run h kh r r' = Inr () \<longleftrightarrow>
     length (cr_emits r) = length (cr_emits r') \<and>
     map em_tick (cr_emits r) = map em_tick (cr_emits r') \<and>
     map em_src_seq (cr_emits r) = map em_src_seq (cr_emits r') \<and>
     map em_payload (cr_emits r) = map em_payload (cr_emits r') \<and>
     (\<exists>x. run_hashes h kh r = Inr x \<and> run_hashes h kh r' = Inr x)"
proof -
  have "list_all2 same_emit (cr_emits r) (cr_emits r') \<longleftrightarrow>
      length (cr_emits r) = length (cr_emits r') \<and>
      map em_tick (cr_emits r) = map em_tick (cr_emits r') \<and>
      map em_src_seq (cr_emits r) = map em_src_seq (cr_emits r') \<and>
      map em_payload (cr_emits r) = map em_payload (cr_emits r')"
    by (auto simp: list_all2_conv_all_nth same_emit_def list_eq_iff_nth_eq)
  then show ?thesis unfolding require_same_run_iff by blast
qed

end
