(* ===== verification/Native_Stream.thy ===== *)
theory Native_Stream
  imports Rook_Core
begin

text \<open>
  crates/rook-native/src/lib.rs: the native stream.  Event types and the envelope kind each must
  carry, frames and their wire form, the three decoded markers, payload and stream decoding with
  every refusal, and the execution hashes of a decoded recording.

  The decoder's loop runs on the unread rest of the input; \<open>cursor\<close> is the offset of that rest, which
  only error values mention.  \<open>payload_start.checked_add(payload_len)\<close> adds a \<open>u32\<close> to an offset of
  a byte string in memory, which a 64-bit \<open>usize\<close> always holds.
\<close>

definition NATIVE_ENVELOPE_VERSION :: u16 where "NATIVE_ENVELOPE_VERSION = 2"
definition STREAM_VERSION :: u16 where "STREAM_VERSION = 1"
definition FRAME_HEADER_SIZE :: nat where "FRAME_HEADER_SIZE = 80"
definition EVENT_HEADER_SIZE :: nat where "EVENT_HEADER_SIZE = 8"
definition SESSION_ACTOR_ID :: u32 where "SESSION_ACTOR_ID = 0"
definition COMPONENT_ACTOR_ID :: u32 where "COMPONENT_ACTOR_ID = 1"
definition SESSION_CHANNEL_ID :: u32 where "SESSION_CHANNEL_ID = 0"
definition FLAG_ATTEMPTED :: u32 where "FLAG_ATTEMPTED = 1"
definition FLAG_CONFIRMED :: u32 where "FLAG_CONFIRMED = 2"
definition FLAG_COUNT_UNKNOWN :: u32 where "FLAG_COUNT_UNKNOWN = 4"
definition FLAGS_DEFINED :: u32 where
  "FLAGS_DEFINED = FLAG_ATTEMPTED OR FLAG_CONFIRMED OR FLAG_COUNT_UNKNOWN"
definition EVENT_SCHEMA :: u16 where "EVENT_SCHEMA = 1"
definition TRACE_DOMAIN_PREFIX :: bytes where "TRACE_DOMAIN_PREFIX = ascii ''rook-native-trace-v1/''"
definition NATIVE_RUN_DOMAIN :: bytes where "NATIVE_RUN_DOMAIN = ascii ''rook-native-run-v1''"
definition NATIVE_OUTPUT_DOMAIN :: bytes where "NATIVE_OUTPUT_DOMAIN = ascii ''rook-native-output-v1''"

subsection \<open>Event types\<close>

datatype event_type =
    EvSession | EvEnd | EvGap | EvStartingState | EvLifecycle | EvMessage | EvClock | EvTimer
  | EvServiceResponse | EvGoalResponse | EvFeedback | EvResult | EvCancelResponse
  | EvServiceRequest | EvPublish | EvServiceCall | EvGoalSend | EvCancelSend
  | EvServiceResponseSend | EvLifecycleResult | EvStatus | EvTimerControl

fun event_code :: "event_type \<Rightarrow> u16" where
  "event_code EvSession = 0x01"
| "event_code EvEnd = 0x02"
| "event_code EvGap = 0x03"
| "event_code EvStartingState = 0x04"
| "event_code EvLifecycle = 0x05"
| "event_code EvMessage = 0x10"
| "event_code EvClock = 0x11"
| "event_code EvTimer = 0x12"
| "event_code EvServiceResponse = 0x13"
| "event_code EvGoalResponse = 0x14"
| "event_code EvFeedback = 0x15"
| "event_code EvResult = 0x16"
| "event_code EvCancelResponse = 0x17"
| "event_code EvServiceRequest = 0x18"
| "event_code EvPublish = 0x20"
| "event_code EvServiceCall = 0x21"
| "event_code EvGoalSend = 0x22"
| "event_code EvCancelSend = 0x23"
| "event_code EvServiceResponseSend = 0x24"
| "event_code EvLifecycleResult = 0x25"
| "event_code EvStatus = 0x26"
| "event_code EvTimerControl = 0x27"

definition all_events :: "event_type list" where
  "all_events =
     [EvSession, EvEnd, EvGap, EvStartingState, EvLifecycle, EvMessage, EvClock, EvTimer,
      EvServiceResponse, EvGoalResponse, EvFeedback, EvResult, EvCancelResponse, EvServiceRequest,
      EvPublish, EvServiceCall, EvGoalSend, EvCancelSend, EvServiceResponseSend,
      EvLifecycleResult, EvStatus, EvTimerControl]"

definition from_u16 :: "u16 \<Rightarrow> event_type option" where
  "from_u16 v = find (\<lambda>event. event_code event = v) all_events"

fun event_kind :: "event_type \<Rightarrow> envelope_kind" where
  "event_kind EvSession = KMarker"
| "event_kind EvEnd = KMarker"
| "event_kind EvStartingState = KMarker"
| "event_kind EvGap = KGap"
| "event_kind EvTimer = KTimer"
| "event_kind EvLifecycle = KDeliver"
| "event_kind EvMessage = KDeliver"
| "event_kind EvClock = KDeliver"
| "event_kind EvServiceResponse = KDeliver"
| "event_kind EvGoalResponse = KDeliver"
| "event_kind EvFeedback = KDeliver"
| "event_kind EvResult = KDeliver"
| "event_kind EvCancelResponse = KDeliver"
| "event_kind EvServiceRequest = KDeliver"
| "event_kind EvPublish = KEmit"
| "event_kind EvServiceCall = KEmit"
| "event_kind EvGoalSend = KEmit"
| "event_kind EvCancelSend = KEmit"
| "event_kind EvServiceResponseSend = KEmit"
| "event_kind EvLifecycleResult = KEmit"
| "event_kind EvStatus = KEmit"
| "event_kind EvTimerControl = KEmit"

subsection \<open>Frames\<close>

record event_header =
  h_event_type :: event_type
  h_schema :: u16
  h_flags :: u32

definition encode_header :: "event_header \<Rightarrow> bytes" where
  "encode_header hdr =
     to_le (event_code (h_event_type hdr)) @ to_le (h_schema hdr) @ to_le (h_flags hdr)"

record frame =
  f_ordinal :: u64
  f_src_actor :: u32
  f_dst_actor :: u32
  f_channel_id :: u32
  f_src_seq :: u64
  f_observed_ns :: u64
  f_header :: event_header
  f_body :: bytes

abbreviation f_event_type :: "frame \<Rightarrow> event_type" where
  "f_event_type f \<equiv> h_event_type (f_header f)"

definition frame_kind :: "frame \<Rightarrow> envelope_kind" where
  "frame_kind f = event_kind (f_event_type f)"

definition payload :: "frame \<Rightarrow> bytes" where
  "payload f = encode_header (f_header f) @ f_body f"

definition envelope_bytes :: "hash_fn \<Rightarrow> frame \<Rightarrow> bytes" where
  "envelope_bytes h f =
     to_le MAGIC @ to_le NATIVE_ENVELOPE_VERSION @ to_le (kind_code (frame_kind f)) @
     to_le (f_ordinal f) @ to_le (f_src_actor f) @ to_le (f_dst_actor f) @
     to_le (f_channel_id f) @ to_le (word_of_nat (length (payload f)) :: u32) @
     to_le (f_src_seq f) @ to_le (h (payload f))"

definition encode_frame :: "hash_fn \<Rightarrow> frame \<Rightarrow> bytes" where
  "encode_frame h f = envelope_bytes h f @ to_le (f_observed_ns f) @ payload f"

definition encode_stream :: "hash_fn \<Rightarrow> frame list \<Rightarrow> bytes" where
  "encode_stream h fs = fold (\<lambda>f out. out @ encode_frame h f) fs []"

subsection \<open>Refusals\<close>

datatype stream_error =
    Truncated nat
  | BadMagic u64
  | WrongEnvelopeVersion u64 u16
  | UnknownKind u64 u16
  | UnknownEventType u64 u16
  | KindMismatch u64
  | PayloadTooShort u64
  | PayloadHashMismatch u64
  | UnsupportedSchema u64 u16
  | MalformedBody u64 event_type
  | ReservedFlags u64 u32
  | NonContiguousOrdinal u64 u64
  | SequenceGap u64 u64 u64
  | MissingSession
  | UnexpectedSession u64
  | UnsupportedStreamVersion u16
  | MissingEnd
  | UnexpectedEnd u64
  | EndMismatch u64
  | MalformedMarker u64

subsection \<open>Markers\<close>

record session =
  s_uuid :: id16
  s_record_utc_ns :: u64
  s_pid :: u32

definition encode_session :: "session \<Rightarrow> bytes" where
  "encode_session s =
     to_le STREAM_VERSION @ to_le (s_uuid s) @ to_le (s_record_utc_ns s) @ to_le (s_pid s)"

definition decode_session :: "bytes \<Rightarrow> stream_error + session" where
  "decode_session body =
     (if length body \<noteq> 30 then Inl (MalformedMarker 0)
      else let version = from_le (subslice 0 2 body) in
        if version \<noteq> STREAM_VERSION then Inl (UnsupportedStreamVersion version)
        else Inr \<lparr>s_uuid = from_le (subslice 2 18 body),
                  s_record_utc_ns = from_le (subslice 18 26 body),
                  s_pid = from_le (subslice 26 30 body)\<rparr>)"

record end_marker =
  en_uuid :: id16
  en_frame_count :: u64

definition encode_end :: "end_marker \<Rightarrow> bytes" where
  "encode_end e = to_le (en_uuid e) @ to_le (en_frame_count e)"

definition decode_end :: "u64 \<Rightarrow> bytes \<Rightarrow> stream_error + end_marker" where
  "decode_end ordinal body =
     (if length body \<noteq> 24 then Inl (MalformedMarker ordinal)
      else Inr \<lparr>en_uuid = from_le (subslice 0 16 body),
                en_frame_count = from_le (subslice 16 24 body)\<rparr>)"

record gap =
  g_reason :: u16
  g_lost :: "u64 option"
  g_detail :: bytes

definition U64_MAX :: u64 where "U64_MAX = - 1"

definition encode_gap :: "gap \<Rightarrow> bytes option" where
  "encode_gap g =
     (if length (g_detail g) < 2 ^ 16
      then Some (to_le (g_reason g) @
             to_le (case g_lost g of None \<Rightarrow> U64_MAX | Some n \<Rightarrow> n) @
             to_le (word_of_nat (length (g_detail g)) :: u16) @ g_detail g)
      else None)"

definition gap_flags :: "gap \<Rightarrow> u32" where
  "gap_flags g = (if g_lost g = None then FLAG_COUNT_UNKNOWN else 0)"

definition decode_gap :: "u64 \<Rightarrow> bytes \<Rightarrow> stream_error + gap" where
  "decode_gap ordinal body =
     (if length body < 12 then Inl (MalformedMarker ordinal)
      else let lost = from_le (subslice 2 10 body);
               detail_len = unat (from_le (subslice 10 12 body) :: u16) in
        if length body \<noteq> 12 + detail_len then Inl (MalformedMarker ordinal)
        else Inr \<lparr>g_reason = from_le (subslice 0 2 body),
                  g_lost = (if lost \<noteq> U64_MAX then Some lost else None),
                  g_detail = drop 12 body\<rparr>)"

subsection \<open>Payloads\<close>

definition u16_at :: "bytes \<Rightarrow> nat \<Rightarrow> nat" where
  "u16_at body i = unat (from_le (subslice i (i + 2) body) :: u16)"

definition byte_in_range :: "bytes \<Rightarrow> nat \<Rightarrow> u8 \<Rightarrow> u8 \<Rightarrow> bool" where
  "byte_in_range body i low high \<longleftrightarrow> low \<le> body ! i \<and> body ! i \<le> high"

definition one_to_three :: "nat \<Rightarrow> bool" where
  "one_to_three v \<longleftrightarrow> 1 \<le> v \<and> v \<le> 3"

text \<open>Every index below is guarded by the length condition before it.\<close>

fun body_fits :: "event_type \<Rightarrow> bytes \<Rightarrow> bool" where
  "body_fits EvSession body = (length body = 30)"
| "body_fits EvEnd body = (length body = 24)"
| "body_fits EvGap body = (length body \<ge> 12 \<and> length body = 12 + u16_at body 10)"
| "body_fits EvStartingState body = (length body = 34 \<and> one_to_three (u16_at body 0))"
| "body_fits EvLifecycle body = (length body = 9)"
| "body_fits EvMessage body = (length body \<ge> 2 \<and> one_to_three (u16_at body 0))"
| "body_fits EvClock body = (length body = 18 \<and> one_to_three (u16_at body 0))"
| "body_fits EvTimer body =
     (length body = 27 \<and> one_to_three (u16_at body 4) \<and> byte_in_range body 22 1 3)"
| "body_fits EvServiceResponse body = (length body \<ge> 12)"
| "body_fits EvGoalResponse body = (length body = 33)"
| "body_fits EvFeedback body = (length body \<ge> 24)"
| "body_fits EvResult body = (length body \<ge> 25)"
| "body_fits EvCancelResponse body =
     (length body \<ge> 11 \<and> length body = 11 + 16 * u16_at body 9)"
| "body_fits EvServiceRequest body = (length body \<ge> 8)"
| "body_fits EvPublish body = (length body \<ge> 6 \<and> one_to_three (u16_at body 4))"
| "body_fits EvServiceCall body = (length body \<ge> 8)"
| "body_fits EvGoalSend body = (length body \<ge> 16)"
| "body_fits EvCancelSend body = (length body = 24)"
| "body_fits EvServiceResponseSend body = (length body \<ge> 8)"
| "body_fits EvLifecycleResult body = (length body = 2)"
| "body_fits EvStatus body = True"
| "body_fits EvTimerControl body = (length body = 5 \<and> byte_in_range body 4 1 2)"

definition decode_payload :: "u64 \<Rightarrow> bytes \<Rightarrow> stream_error + event_header \<times> bytes" where
  "decode_payload ordinal pl =
     (if length pl < EVENT_HEADER_SIZE then Inl (PayloadTooShort ordinal)
      else let code = from_le (subslice 0 2 pl) in
        case from_u16 code of
          None \<Rightarrow> Inl (UnknownEventType ordinal code)
        | Some event_type \<Rightarrow>
            let schema = from_le (subslice 2 4 pl) in
            if schema \<noteq> EVENT_SCHEMA then Inl (UnsupportedSchema ordinal schema)
            else let flags = from_le (subslice 4 8 pl) in
              if flags AND NOT FLAGS_DEFINED \<noteq> 0 then Inl (ReservedFlags ordinal flags)
              else let body = drop EVENT_HEADER_SIZE pl in
                if \<not> body_fits event_type body then Inl (MalformedBody ordinal event_type)
                else Inr (\<lparr>h_event_type = event_type, h_schema = schema, h_flags = flags\<rparr>, body))"

subsection \<open>Streams\<close>

fun kind_of_code :: "nat \<Rightarrow> envelope_kind option" where
  "kind_of_code n =
     (if n = 1 then Some KDeliver else if n = 2 then Some KEmit else if n = 3 then Some KTimer
      else if n = 4 then Some KGap else if n = 5 then Some KMarker else None)"

record stream_state =
  st_frames :: "frame list"
  st_sequences :: "u32 \<times> u32 \<Rightarrow> u64 option"
  st_session :: "session option"
  st_ended :: bool

definition init_stream :: stream_state where
  "init_stream =
     \<lparr>st_frames = [], st_sequences = Map.empty, st_session = None, st_ended = False\<rparr>"

text \<open>The first half of the loop body: one frame off the front of \<open>rest\<close>, and its payload length.\<close>

definition read_frame :: "hash_fn \<Rightarrow> u64 \<Rightarrow> nat \<Rightarrow> bytes \<Rightarrow> stream_error + frame \<times> nat" where
  "read_frame h expected_ordinal cursor rest =
     (case get_range 0 FRAME_HEADER_SIZE rest of
        None \<Rightarrow> Inl (Truncated cursor)
      | Some header \<Rightarrow>
          if (from_le (subslice 0 4 header) :: u32) \<noteq> MAGIC then Inl (BadMagic expected_ordinal)
          else let version = from_le (subslice 4 6 header) in
          if version \<noteq> NATIVE_ENVELOPE_VERSION
          then Inl (WrongEnvelopeVersion expected_ordinal version)
          else let kind_value = (from_le (subslice 6 8 header) :: u16) in
          case kind_of_code (unat kind_value) of
            None \<Rightarrow> Inl (UnknownKind expected_ordinal kind_value)
          | Some kind \<Rightarrow>
              let ordinal = from_le (subslice 8 16 header) in
              if ordinal \<noteq> expected_ordinal
              then Inl (NonContiguousOrdinal expected_ordinal ordinal)
              else let payload_len = unat (from_le (subslice 28 32 header) :: u32) in
              case get_range FRAME_HEADER_SIZE (FRAME_HEADER_SIZE + payload_len) rest of
                None \<Rightarrow> Inl (Truncated cursor)
              | Some pl \<Rightarrow>
                  if h pl \<noteq> from_le (subslice 40 72 header)
                  then Inl (PayloadHashMismatch ordinal)
                  else case decode_payload ordinal pl of
                    Inl e \<Rightarrow> Inl e
                  | Inr (hdr, body) \<Rightarrow>
                      if event_kind (h_event_type hdr) \<noteq> kind then Inl (KindMismatch ordinal)
                      else Inr (\<lparr>f_ordinal = ordinal,
                                 f_src_actor = from_le (subslice 16 20 header),
                                 f_dst_actor = from_le (subslice 20 24 header),
                                 f_channel_id = from_le (subslice 24 28 header),
                                 f_src_seq = from_le (subslice 32 40 header),
                                 f_observed_ns = from_le (subslice 72 80 header),
                                 f_header = hdr, f_body = body\<rparr>, payload_len))"

definition session_tuple :: "u32 \<times> u32 \<times> u32" where
  "session_tuple = (SESSION_ACTOR_ID, SESSION_ACTOR_ID, SESSION_CHANNEL_ID)"

fun expected_tuple :: "event_type \<Rightarrow> (u32 \<times> u32 \<times> u32) option" where
  "expected_tuple EvSession = Some session_tuple"
| "expected_tuple EvEnd = Some session_tuple"
| "expected_tuple EvGap = Some session_tuple"
| "expected_tuple EvStartingState =
     Some (SESSION_ACTOR_ID, COMPONENT_ACTOR_ID, SESSION_CHANNEL_ID)"
| "expected_tuple _ = None"

definition frame_tuple :: "frame \<Rightarrow> u32 \<times> u32 \<times> u32" where
  "frame_tuple f = (f_src_actor f, f_dst_actor f, f_channel_id f)"

definition sequence_key :: "frame \<Rightarrow> u32 \<times> u32" where
  "sequence_key f = (f_src_actor f, f_channel_id f)"

definition expected_seq :: "(u32 \<times> u32 \<Rightarrow> u64 option) \<Rightarrow> u32 \<times> u32 \<Rightarrow> u64" where
  "expected_seq sequences k = (case sequences k of None \<Rightarrow> 0 | Some n \<Rightarrow> n)"

text \<open>The marker arm of the loop body: the new session and end state, or the refusal.\<close>

definition check_marker ::
  "session option \<Rightarrow> frame \<Rightarrow> stream_error + session option \<times> bool" where
  "check_marker sess f =
     (case f_event_type f of
        EvSession \<Rightarrow>
          if f_ordinal f \<noteq> 0 then Inl (UnexpectedSession (f_ordinal f))
          else (case decode_session (f_body f) of Inl e \<Rightarrow> Inl e | Inr s \<Rightarrow> Inr (Some s, False))
      | EvEnd \<Rightarrow>
          (case decode_end (f_ordinal f) (f_body f) of
             Inl e \<Rightarrow> Inl e
           | Inr en \<Rightarrow>
               (case sess of
                  None \<Rightarrow> Inl MissingSession
                | Some s \<Rightarrow>
                    if en_uuid en \<noteq> s_uuid s \<or> en_frame_count en \<noteq> f_ordinal f
                    then Inl (EndMismatch (f_ordinal f)) else Inr (sess, True)))
      | EvGap \<Rightarrow>
          (case decode_gap (f_ordinal f) (f_body f) of
             Inl e \<Rightarrow> Inl e
           | Inr g \<Rightarrow>
               if (h_flags (f_header f) AND FLAG_COUNT_UNKNOWN \<noteq> 0) \<noteq> (g_lost g = None)
               then Inl (MalformedMarker (f_ordinal f)) else Inr (sess, False))
      | _ \<Rightarrow> (if sess = None then Inl MissingSession else Inr (sess, False)))"

text \<open>The second half of the loop body, up to \<open>frames.push\<close>.\<close>

definition check_frame :: "stream_state \<Rightarrow> frame \<Rightarrow> stream_error + stream_state" where
  "check_frame st f =
     (let expected = expected_seq (st_sequences st) (sequence_key f) in
      if f_src_seq f \<noteq> expected then Inl (SequenceGap (f_ordinal f) expected (f_src_seq f))
      else if (case expected_tuple (f_event_type f) of None \<Rightarrow> False | Some t \<Rightarrow> t \<noteq> frame_tuple f)
        then Inl (MalformedMarker (f_ordinal f))
      else case check_marker (st_session st) f of
        Inl e \<Rightarrow> Inl e
      | Inr (sess, ended) \<Rightarrow>
          Inr \<lparr>st_frames = st_frames st @ [f],
               st_sequences = (st_sequences st)(sequence_key f \<mapsto> expected + 1),
               st_session = sess, st_ended = ended\<rparr>)"

function decode_from ::
  "hash_fn \<Rightarrow> nat \<Rightarrow> bytes \<Rightarrow> stream_state \<Rightarrow> stream_error + stream_state" where
  "decode_from h cursor rest st =
     (if rest = [] then Inr st
      else if st_ended st then Inl (UnexpectedEnd (word_of_nat (length (st_frames st)) - 1))
      else case read_frame h (word_of_nat (length (st_frames st))) cursor rest of
        Inl e \<Rightarrow> Inl e
      | Inr (f, payload_len) \<Rightarrow>
          (case check_frame st f of
             Inl e \<Rightarrow> Inl e
           | Inr st' \<Rightarrow>
               decode_from h (cursor + (FRAME_HEADER_SIZE + payload_len))
                 (drop (FRAME_HEADER_SIZE + payload_len) rest) st'))"
  by pat_completeness auto
termination
  by (relation "measure (\<lambda>(h, cursor, rest, st). length rest)")
    (auto simp: FRAME_HEADER_SIZE_def)

declare decode_from.simps [simp del]

definition decode_stream :: "hash_fn \<Rightarrow> bytes \<Rightarrow> stream_error + frame list" where
  "decode_stream h bs =
     (case decode_from h 0 bs init_stream of
        Inl e \<Rightarrow> Inl e
      | Inr st \<Rightarrow>
          if st_session st = None then Inl MissingSession
          else if \<not> st_ended st then Inl MissingEnd
          else Inr (st_frames st))"

subsection \<open>Execution hashes\<close>

record native_hashes =
  n_trace_hash :: digest
  n_run_hash :: digest
  n_output_digest :: digest

definition extend_chain_native ::
  "hash_fn \<Rightarrow> keyed_fn \<Rightarrow> digest \<Rightarrow> digest \<Rightarrow> frame \<Rightarrow> digest" where
  "extend_chain_native h kh key previous f = kh key (to_le previous @ envelope_bytes h f)"

definition is_emit :: "frame \<Rightarrow> bool" where
  "is_emit f \<longleftrightarrow> frame_kind f = KEmit"

definition hash_frames :: "hash_fn \<Rightarrow> keyed_fn \<Rightarrow> bytes \<Rightarrow> frame list \<Rightarrow> native_hashes" where
  "hash_frames h kh corpus fs =
     (let trace_key = domain_key h (TRACE_DOMAIN_PREFIX @ corpus);
          run_key = domain_key h NATIVE_RUN_DOMAIN;
          output_key = domain_key h NATIVE_OUTPUT_DOMAIN;
          trace_hash = fold (\<lambda>f c. extend_chain_native h kh trace_key c f)
                         (filter (\<lambda>f. \<not> is_emit f) fs) 0;
          (run, out) = fold (\<lambda>f (r, q).
              (extend_chain_native h kh run_key r f,
               if is_emit f then extend_chain_native h kh output_key q f else q))
            fs (kh run_key (to_le trace_hash), 0)
      in \<lparr>n_trace_hash = trace_hash, n_run_hash = run, n_output_digest = out\<rparr>)"

definition raw_record_hash :: "hash_fn \<Rightarrow> bytes \<Rightarrow> digest" where
  "raw_record_hash h bs = h bs"


section \<open>Lemmas\<close>

lemma from_u16_event_code [simp]: "from_u16 (event_code e) = Some e"
  by (cases e) (simp_all add: from_u16_def all_events_def)

lemma from_u16_Some: "from_u16 v = Some e \<longleftrightarrow> v = event_code e"
proof
  assume "from_u16 v = Some e"
  then show "v = event_code e" by (auto simp: from_u16_def find_Some_iff)
qed simp

lemma event_code_inject [simp]: "event_code e = event_code e' \<longleftrightarrow> e = e'"
  by (metis from_u16_event_code option.inject)

lemma length_encode_header [simp]: "length (encode_header hdr) = EVENT_HEADER_SIZE"
  by (simp add: encode_header_def EVENT_HEADER_SIZE_def)

lemma length_payload [simp]: "length (payload f) = EVENT_HEADER_SIZE + length (f_body f)"
  by (simp add: payload_def)

lemma length_envelope_bytes [simp]: "length (envelope_bytes h f) = ENVELOPE_SIZE"
  by (simp add: envelope_bytes_def ENVELOPE_SIZE_def)

lemma length_encode_frame [simp]:
  "length (encode_frame h f) = FRAME_HEADER_SIZE + length (payload f)"
  by (simp add: encode_frame_def ENVELOPE_SIZE_def FRAME_HEADER_SIZE_def)

lemma encode_stream_Nil [simp]: "encode_stream h [] = []"
  by (simp add: encode_stream_def)

lemma fold_append_out: "fold (\<lambda>f out. out @ g f) fs out = out @ concat (map g fs)"
  by (induction fs arbitrary: out) auto

lemma encode_stream_concat: "encode_stream h fs = concat (map (encode_frame h) fs)"
  by (simp add: encode_stream_def fold_append_out)

lemma encode_stream_Cons [simp]: "encode_stream h (f # fs) = encode_frame h f @ encode_stream h fs"
  by (simp add: encode_stream_concat)

lemma encode_stream_append [simp]:
  "encode_stream h (fs @ gs) = encode_stream h fs @ encode_stream h gs"
  by (simp add: encode_stream_concat)

subsection \<open>Marker round trips\<close>

lemma decode_encode_session: "decode_session (encode_session s) = Inr s"
  by (simp add: decode_session_def encode_session_def)

lemma encode_decode_session:
  assumes "decode_session body = Inr s"
  shows "encode_session s = body"
proof -
  from assms have len: "length body = 30" and v: "from_le (subslice 0 2 body) = STREAM_VERSION"
    and s: "s = \<lparr>s_uuid = from_le (subslice 2 18 body), s_record_utc_ns = from_le (subslice 18 26 body),
      s_pid = from_le (subslice 26 30 body)\<rparr>"
    by (auto simp: decode_session_def Let_def split: if_splits)
  have "to_le STREAM_VERSION = subslice 0 2 body"
    using len by (simp flip: v add: to_from_le)
  then show ?thesis
    using len by (simp add: encode_session_def s to_from_le subslice_join)
qed

lemma decode_encode_end: "decode_end n (encode_end e) = Inr e"
  by (simp add: decode_end_def encode_end_def)

lemma encode_decode_end: "decode_end n body = Inr e \<Longrightarrow> encode_end e = body"
  by (auto simp: decode_end_def encode_end_def to_from_le subslice_join split: if_splits)


lemma decode_encode_gap:
  assumes "encode_gap g = Some body"
  shows "decode_gap n body = Inr (g\<lparr>g_lost := (if g_lost g = Some U64_MAX then None else g_lost g)\<rparr>)"
proof -
  let ?l = "case g_lost g of None \<Rightarrow> U64_MAX | Some n \<Rightarrow> n"
  from assms have len: "length (g_detail g) < 2 ^ 16"
    and body: "body = to_le (g_reason g) @ to_le ?l @ to_le (word_of_nat (length (g_detail g)) :: u16) @ g_detail g"
    by (auto simp: encode_gap_def split: if_splits)
  from len have "unat (word_of_nat (length (g_detail g)) :: u16) = length (g_detail g)"
    by (simp add: unat_of_nat take_bit_eq_mod)
  then show ?thesis
    by (simp add: decode_gap_def body Let_def split: option.split)
qed

lemma encode_decode_gap:
  assumes "decode_gap n body = Inr g"
  shows "encode_gap g = Some body" and "g_lost g \<noteq> Some U64_MAX"
proof -
  from assms have len: "length body = 12 + unat (from_le (subslice 10 12 body) :: u16)"
    and g: "g_reason g = from_le (subslice 0 2 body)" "g_detail g = drop 12 body"
      "g_lost g = (if from_le (subslice 2 10 body) \<noteq> U64_MAX then Some (from_le (subslice 2 10 body)) else None)"
    by (auto simp: decode_gap_def Let_def split: if_splits)
  have lost: "(case g_lost g of None \<Rightarrow> U64_MAX | Some n \<Rightarrow> n) = from_le (subslice 2 10 body)"
    by (simp add: g)
  have d: "length (g_detail g) = unat (from_le (subslice 10 12 body) :: u16)"
    using len by (simp add: g)
  then have "length (g_detail g) < 2 ^ 16"
    using unsigned_less [of "from_le (subslice 10 12 body) :: u16", where ?'a = nat] by simp
  moreover have "subslice 0 2 body @ subslice 2 10 body @ subslice 10 12 body @ drop 12 body = body"
    using len by (simp add: subslice_drop_join flip: append_assoc)
  ultimately show "encode_gap g = Some body"
    using len by (simp add: encode_gap_def lost d to_from_le) (simp add: g to_from_le)
  show "g_lost g \<noteq> Some U64_MAX" by (simp add: g)
qed

interpretation session: canonical_codec "\<lambda>s. Some (encode_session s)" decode_session
  by unfold_locales (auto simp: decode_encode_session encode_decode_session)

interpretation end_codec: canonical_codec "\<lambda>e. Some (encode_end e)" "decode_end n" for n
  by unfold_locales (auto simp: decode_encode_end encode_decode_end)

interpretation gap: canonical encode_gap "decode_gap n" for n
  by unfold_locales (rule encode_decode_gap(1))

subsection \<open>Payload round trips\<close>

definition wf_header :: "event_header \<Rightarrow> bool" where
  "wf_header hdr \<longleftrightarrow> h_schema hdr = EVENT_SCHEMA \<and> h_flags hdr AND NOT FLAGS_DEFINED = 0"

definition wf_frame :: "frame \<Rightarrow> bool" where
  "wf_frame f \<longleftrightarrow> wf_header (f_header f) \<and> body_fits (f_event_type f) (f_body f) \<and>
     length (payload f) < 2 ^ 32"

lemma decode_payload_encode:
  assumes "wf_header hdr" and "body_fits (h_event_type hdr) body"
  shows "decode_payload n (encode_header hdr @ body) = Inr (hdr, body)"
  using assms
  by (simp add: decode_payload_def encode_header_def EVENT_HEADER_SIZE_def Let_def wf_header_def)

lemma decode_payload_sound:
  assumes "decode_payload n pl = Inr (hdr, body)"
  shows "pl = encode_header hdr @ body" and "wf_header hdr" and "body_fits (h_event_type hdr) body"
proof -
  from assms have len: "8 \<le> length pl"
    by (auto simp: decode_payload_def EVENT_HEADER_SIZE_def split: if_splits)
  from assms obtain e where e: "from_u16 (from_le (subslice 0 2 pl)) = Some e"
    and hdr: "hdr = \<lparr>h_event_type = e, h_schema = from_le (subslice 2 4 pl), h_flags = from_le (subslice 4 8 pl)\<rparr>"
    and body: "body = drop 8 pl" and fits: "body_fits e body" and wf: "wf_header hdr"
    by (auto simp: decode_payload_def EVENT_HEADER_SIZE_def Let_def wf_header_def
        split: if_splits option.splits)
  from e have "event_code e = from_le (subslice 0 2 pl)" by (simp add: from_u16_Some)
  then have "encode_header hdr = subslice 0 2 pl @ subslice 2 4 pl @ subslice 4 8 pl"
    using len by (simp add: encode_header_def hdr to_from_le)
  then show "pl = encode_header hdr @ body"
    using len by (simp add: body subslice_join subslice_drop_join flip: append_assoc)
  show "wf_header hdr" by (rule wf)
  show "body_fits (h_event_type hdr) body" using fits by (simp add: hdr)
qed


subsection \<open>Frames on the wire\<close>

lemma kind_of_kind_code [simp]: "kind_of_code (unat (kind_code k)) = Some k"
  by (cases k) simp_all

lemma kind_of_code_Some:
  assumes "kind_of_code (unat v) = Some k"
  shows "v = kind_code k"
proof -
  have "unat v = unat (kind_code k)"
    using assms by (cases k) (auto split: if_splits)
  then show ?thesis by (simp add: word_unat_eq_iff)
qed

declare kind_of_code.simps [simp del]

lemma read_frame_encode:
  assumes "wf_frame f"
  shows "read_frame h (f_ordinal f) cursor (encode_frame h f @ rest) = Inr (f, length (payload f))"
proof -
  let ?hdr = "envelope_bytes h f @ to_le (f_observed_ns f)"
  have hdr: "get_range 0 FRAME_HEADER_SIZE (encode_frame h f @ rest) = Some ?hdr"
  proof -
    have "encode_frame h f @ rest = ?hdr @ (payload f @ rest)" by (simp add: encode_frame_def)
    moreover have l: "length ?hdr = 80" by (simp add: ENVELOPE_SIZE_def)
    moreover have "subslice 0 80 (?hdr @ (payload f @ rest)) = ?hdr"
      by (rule subslice_prefix) (rule l)
    ultimately show ?thesis
      unfolding get_range_def FRAME_HEADER_SIZE_def by simp
  qed
  have len: "unat (word_of_nat (length (payload f)) :: u32) = length (payload f)"
    using assms by (intro unat_u32) (simp add: wf_frame_def)
  have pl: "get_range FRAME_HEADER_SIZE (FRAME_HEADER_SIZE + length (payload f)) (encode_frame h f @ rest)
      = Some (payload f)"
    by (simp add: get_range_def encode_frame_def FRAME_HEADER_SIZE_def ENVELOPE_SIZE_def
        del: length_payload)
  have dec: "decode_payload n (payload f) = Inr (f_header f, f_body f)" for n
    using assms unfolding payload_def by (intro decode_payload_encode) (auto simp: wf_frame_def)
  have fields: "from_le (subslice 0 4 ?hdr) = MAGIC"
      "from_le (subslice 4 6 ?hdr) = NATIVE_ENVELOPE_VERSION"
      "from_le (subslice 6 8 ?hdr) = kind_code (frame_kind f)"
      "from_le (subslice 8 16 ?hdr) = f_ordinal f"
      "from_le (subslice 16 20 ?hdr) = f_src_actor f"
      "from_le (subslice 20 24 ?hdr) = f_dst_actor f"
      "from_le (subslice 24 28 ?hdr) = f_channel_id f"
      "from_le (subslice 28 32 ?hdr) = (word_of_nat (length (payload f)) :: u32)"
      "from_le (subslice 32 40 ?hdr) = f_src_seq f"
      "from_le (subslice 40 72 ?hdr) = h (payload f)"
      "from_le (subslice 72 80 ?hdr) = f_observed_ns f"
    by (simp_all add: envelope_bytes_def del: length_payload)
  show ?thesis
    unfolding read_frame_def hdr option.case fields Let_def len pl dec sum.case prod.case kind_of_kind_code
    by (simp add: frame_kind_def)
qed

lemma read_frame_sound:
  assumes "read_frame h n cursor rest = Inr (f, len)"
  shows "rest = encode_frame h f @ drop (FRAME_HEADER_SIZE + len) rest"
    and "wf_frame f" and "f_ordinal f = n" and "len = length (payload f)"
proof -
  let ?hdr = "subslice 0 80 rest"
  from assms have l80: "80 \<le> length rest"
    by (auto simp: read_frame_def get_range_def FRAME_HEADER_SIZE_def split: if_splits)
  then have hdr: "get_range 0 FRAME_HEADER_SIZE rest = Some ?hdr"
    by (simp add: get_range_def FRAME_HEADER_SIZE_def)
  let ?len = "unat (from_le (subslice 28 32 ?hdr) :: u32)"
  from assms obtain kind pl hdr body where
      magic: "from_le (subslice 0 4 ?hdr) = MAGIC"
    and version: "from_le (subslice 4 6 ?hdr) = NATIVE_ENVELOPE_VERSION"
    and kind: "kind_of_code (unat (from_le (subslice 6 8 ?hdr) :: u16)) = Some kind"
    and ordinal: "from_le (subslice 8 16 ?hdr) = n"
    and pl: "get_range FRAME_HEADER_SIZE (FRAME_HEADER_SIZE + ?len) rest = Some pl"
    and hash: "h pl = from_le (subslice 40 72 ?hdr)"
    and dec: "decode_payload n pl = Inr (hdr, body)"
    and kinds: "event_kind (h_event_type hdr) = kind"
    and f: "f = \<lparr>f_ordinal = n, f_src_actor = from_le (subslice 16 20 ?hdr),
        f_dst_actor = from_le (subslice 20 24 ?hdr), f_channel_id = from_le (subslice 24 28 ?hdr),
        f_src_seq = from_le (subslice 32 40 ?hdr), f_observed_ns = from_le (subslice 72 80 ?hdr),
        f_header = hdr, f_body = body\<rparr>"
    and len: "len = ?len"
    unfolding read_frame_def hdr option.case Let_def
    by (auto split: if_splits option.splits sum.splits prod.splits)
  have pl_f: "pl = payload f"
    using decode_payload_sound(1) [OF dec] by (simp add: payload_def f)
  from pl have l: "80 + ?len \<le> length rest" and plr: "pl = subslice 80 (80 + ?len) rest"
    by (auto simp: get_range_Some FRAME_HEADER_SIZE_def)
  then have lpl: "length (payload f) = ?len" by (simp add: pl_f [symmetric])
  show "len = length (payload f)" using len lpl by simp
  show "f_ordinal f = n" by (simp add: f)
  show "wf_frame f"
    using decode_payload_sound(2,3) [OF dec] lpl unat_u32_bound [of "from_le (subslice 28 32 ?hdr)"]
    by (simp add: wf_frame_def f)
  have lh: "length ?hdr = 80" using l80 by simp
  have "to_le MAGIC = subslice 0 4 ?hdr" "to_le NATIVE_ENVELOPE_VERSION = subslice 4 6 ?hdr"
    using lh by (simp_all flip: magic version add: to_from_le)
  moreover have "to_le (kind_code (frame_kind f)) = subslice 6 8 ?hdr"
    using lh by (simp add: frame_kind_def f kinds to_from_le flip: kind_of_code_Some [OF kind])
  moreover have "to_le (word_of_nat (length (payload f)) :: u32) = subslice 28 32 ?hdr"
    using lh unfolding lpl by (simp add: to_from_le)
  moreover have "to_le (h (payload f)) = subslice 40 72 ?hdr"
    using lh hash by (simp add: pl_f to_from_le)
  ultimately have "envelope_bytes h f @ to_le (f_observed_ns f) =
      subslice 0 4 ?hdr @ subslice 4 6 ?hdr @ subslice 6 8 ?hdr @ subslice 8 16 ?hdr @
      subslice 16 20 ?hdr @ subslice 20 24 ?hdr @ subslice 24 28 ?hdr @ subslice 28 32 ?hdr @
      subslice 32 40 ?hdr @ subslice 40 72 ?hdr @ subslice 72 80 ?hdr"
    using lh unfolding envelope_bytes_def by (simp add: f to_from_le flip: ordinal)
  also have "\<dots> = ?hdr"
    using lh by (simp add: subslice_join)
  finally have "encode_frame h f = ?hdr @ pl"
    by (simp add: encode_frame_def pl_f)
  also have "\<dots> = subslice 0 (80 + ?len) rest"
    using l by (simp add: plr subslice_join)
  finally show "rest = encode_frame h f @ drop (FRAME_HEADER_SIZE + len) rest"
    using l len by (simp add: FRAME_HEADER_SIZE_def subslice_drop_join)
qed


subsection \<open>Runs of the decoder's loop\<close>

text \<open>One turn of the loop on a frame already read: the checks around \<open>frames.push\<close>.\<close>

inductive stream_run :: "stream_state \<Rightarrow> frame list \<Rightarrow> stream_state \<Rightarrow> bool" where
  stop: "stream_run st [] st"
| turn: "\<not> st_ended st \<Longrightarrow> wf_frame f \<Longrightarrow> f_ordinal f = word_of_nat (length (st_frames st)) \<Longrightarrow>
    check_frame st f = Inr st1 \<Longrightarrow> stream_run st1 fs st2 \<Longrightarrow> stream_run st (f # fs) st2"

inductive_simps stream_run_Nil [simp]: "stream_run st [] st'"
inductive_simps stream_run_Cons: "stream_run st (f # fs) st'"

lemma stream_run_append:
  "stream_run st (fs @ gs) st' \<longleftrightarrow> (\<exists>st1. stream_run st fs st1 \<and> stream_run st1 gs st')"
  by (induction fs arbitrary: st) (auto simp: stream_run_Cons)

lemma encode_frame_not_Nil [simp]: "encode_frame h f \<noteq> []"
  using length_encode_frame [of h f] by (auto simp: FRAME_HEADER_SIZE_def simp del: length_encode_frame)

lemma decode_from_run:
  assumes "stream_run st fs st'"
  shows "decode_from h cursor (encode_stream h fs) st = Inr st'"
  using assms
proof (induction arbitrary: cursor)
  case (stop st)
  then show ?case by (simp add: decode_from.simps)
next
  case (turn st f st1 fs st2)
  have "read_frame h (word_of_nat (length (st_frames st))) cursor (encode_stream h (f # fs))
      = Inr (f, length (payload f))"
    using read_frame_encode [OF turn.hyps(2)] turn.hyps(3) by simp
  then show ?case
    using turn by (subst decode_from.simps) (simp del: length_payload)
qed

lemma run_of_decode_from:
  "decode_from h cursor bs st = Inr st' \<Longrightarrow> \<exists>fs. stream_run st fs st' \<and> encode_stream h fs = bs"
proof (induction h cursor bs st rule: decode_from.induct)
  case (1 h cursor rest st)
  show ?case
  proof (cases "rest = []")
    case True
    with "1.prems" have "stream_run st [] st'" by (simp add: decode_from.simps)
    with True show ?thesis by (intro exI [of _ "[]"]) simp
  next
    case False
    with "1.prems" obtain f len st1 where running: "\<not> st_ended st"
      and read: "read_frame h (word_of_nat (length (st_frames st))) cursor rest = Inr (f, len)"
      and check: "check_frame st f = Inr st1"
      and more: "decode_from h (cursor + (FRAME_HEADER_SIZE + len))
                   (drop (FRAME_HEADER_SIZE + len) rest) st1 = Inr st'"
      by (subst (asm) decode_from.simps) (auto split: if_splits sum.splits prod.splits)
    from "1.IH" [OF False running read refl check more] obtain fs where
      fs: "stream_run st1 fs st'" "encode_stream h fs = drop (FRAME_HEADER_SIZE + len) rest"
      by auto
    note sound = read_frame_sound [OF read]
    have "stream_run st (f # fs) st'"
      using running sound(2,3) check fs(1) by (rule turn)
    moreover have "encode_stream h (f # fs) = rest"
      using sound(1) fs(2) by simp
    ultimately show ?thesis by blast
  qed
qed

lemma check_frame_Inr:
  "check_frame st f = Inr st' \<longleftrightarrow>
     f_src_seq f = expected_seq (st_sequences st) (sequence_key f) \<and>
     (\<forall>t. expected_tuple (f_event_type f) = Some t \<longrightarrow> t = frame_tuple f) \<and>
     (\<exists>sess ended. check_marker (st_session st) f = Inr (sess, ended) \<and>
        st' = \<lparr>st_frames = st_frames st @ [f],
               st_sequences = (st_sequences st)(sequence_key f \<mapsto> f_src_seq f + 1),
               st_session = sess, st_ended = ended\<rparr>)"
  by (auto simp: check_frame_def Let_def split: option.splits sum.splits if_splits)

lemma stream_run_frames: "stream_run st fs st' \<Longrightarrow> st_frames st' = st_frames st @ fs"
  by (induction rule: stream_run.induct) (auto simp: check_frame_Inr)

lemma decode_stream_Inr:
  "decode_stream h bs = Inr fs \<longleftrightarrow>
     encode_stream h fs = bs \<and>
     (\<exists>st. stream_run init_stream fs st \<and> st_session st \<noteq> None \<and> st_ended st)"
proof
  assume "decode_stream h bs = Inr fs"
  then obtain st where st: "decode_from h 0 bs init_stream = Inr st"
    and fin: "st_session st \<noteq> None" "st_ended st" "st_frames st = fs"
    by (auto simp: decode_stream_def split: sum.splits if_splits)
  from run_of_decode_from [OF st] obtain gs where
    gs: "stream_run init_stream gs st" "encode_stream h gs = bs" by auto
  from stream_run_frames [OF gs(1)] fin(3) have "gs = fs" by (simp add: init_stream_def)
  with gs fin show "encode_stream h fs = bs \<and>
     (\<exists>st. stream_run init_stream fs st \<and> st_session st \<noteq> None \<and> st_ended st)" by auto
next
  assume "encode_stream h fs = bs \<and>
     (\<exists>st. stream_run init_stream fs st \<and> st_session st \<noteq> None \<and> st_ended st)"
  then show "decode_stream h bs = Inr fs"
    using decode_from_run stream_run_frames by (fastforce simp: decode_stream_def init_stream_def)
qed

subsection \<open>Which frame sequences are streams\<close>

definition seq_count :: "frame list \<Rightarrow> u32 \<times> u32 \<Rightarrow> nat" where
  "seq_count fs k = length (filter (\<lambda>g. sequence_key g = k) fs)"

definition session_of :: "frame list \<Rightarrow> session option" where
  "session_of fs =
     (case fs of [] \<Rightarrow> None
      | f # _ \<Rightarrow>
          if f_event_type f = EvSession
          then (case decode_session (f_body f) of Inl _ \<Rightarrow> None | Inr s \<Rightarrow> Some s)
          else None)"

definition marker_ok :: "frame list \<Rightarrow> frame \<Rightarrow> bool" where
  "marker_ok fs f \<longleftrightarrow>
     (case f_event_type f of
        EvSession \<Rightarrow> fs = [] \<and> session_of [f] \<noteq> None
      | EvEnd \<Rightarrow>
          (\<exists>s. session_of fs = Some s \<and>
             f_body f = encode_end \<lparr>en_uuid = s_uuid s, en_frame_count = f_ordinal f\<rparr>)
      | EvGap \<Rightarrow>
          (\<exists>g. encode_gap g = Some (f_body f) \<and> g_lost g \<noteq> Some U64_MAX \<and>
             (h_flags (f_header f) AND FLAG_COUNT_UNKNOWN \<noteq> 0 \<longleftrightarrow> g_lost g = None))
      | _ \<Rightarrow> session_of fs \<noteq> None)"

text \<open>\<open>frame_ok fs f\<close>: the frame \<open>f\<close> may follow the frames \<open>fs\<close> in a stream.\<close>

definition frame_ok :: "frame list \<Rightarrow> frame \<Rightarrow> bool" where
  "frame_ok fs f \<longleftrightarrow>
     wf_frame f \<and> f_ordinal f = word_of_nat (length fs) \<and>
     f_src_seq f = word_of_nat (seq_count fs (sequence_key f)) \<and>
     (\<forall>t. expected_tuple (f_event_type f) = Some t \<longrightarrow> frame_tuple f = t) \<and>
     (fs \<noteq> [] \<longrightarrow> f_event_type (last fs) \<noteq> EvEnd) \<and> marker_ok fs f"

definition ok_prefix :: "frame list \<Rightarrow> bool" where
  "ok_prefix fs \<longleftrightarrow> (\<forall>i < length fs. frame_ok (take i fs) (fs ! i))"

definition valid_stream :: "frame list \<Rightarrow> bool" where
  "valid_stream fs \<longleftrightarrow> ok_prefix fs \<and> fs \<noteq> [] \<and> f_event_type (last fs) = EvEnd"

definition state_of :: "frame list \<Rightarrow> stream_state" where
  "state_of fs =
     \<lparr>st_frames = fs,
      st_sequences = (\<lambda>k. if seq_count fs k = 0 then None else Some (word_of_nat (seq_count fs k))),
      st_session = session_of fs,
      st_ended = (fs \<noteq> [] \<and> f_event_type (last fs) = EvEnd)\<rparr>"

lemma state_of_Nil: "state_of [] = init_stream"
  by (simp add: state_of_def init_stream_def session_of_def seq_count_def)

lemma ok_prefix_Nil [simp]: "ok_prefix []"
  by (simp add: ok_prefix_def)

lemma ok_prefix_snoc [simp]: "ok_prefix (fs @ [f]) \<longleftrightarrow> ok_prefix fs \<and> frame_ok fs f"
  by (auto simp: ok_prefix_def nth_append less_Suc_eq)

lemma expected_seq_state_of:
  "expected_seq (st_sequences (state_of fs)) k = word_of_nat (seq_count fs k)"
  by (simp add: expected_seq_def state_of_def)

lemma sequences_snoc:
  "(st_sequences (state_of fs))(sequence_key f \<mapsto> word_of_nat (seq_count fs (sequence_key f)) + 1)
     = st_sequences (state_of (fs @ [f]))"
  by (auto simp: state_of_def seq_count_def)

lemma session_of_snoc:
  "session_of (fs @ [f]) = (if fs = [] then session_of [f] else session_of fs)"
  by (cases fs) (simp_all add: session_of_def)

lemma gap_at:
  assumes "decode_gap n body = Inr g"
  shows "encode_gap g' = Some body \<and> g_lost g' \<noteq> Some U64_MAX \<longleftrightarrow> g' = g"
  using encode_decode_gap [OF assms] decode_encode_gap [of g' body n] assms by auto

lemma end_at:
  assumes "decode_end n body = Inr en"
  shows "body = encode_end e \<longleftrightarrow> e = en"
  using end_codec.dec_iff_enc [of n body e] assms by auto

lemma check_marker_ok:
  assumes f: "wf_frame f" "f_ordinal f = word_of_nat (length fs)"
    and len: "length fs < 2 ^ 64"
  shows "check_marker (session_of fs) f = Inr (sess, ended) \<longleftrightarrow>
    marker_ok fs f \<and> sess = session_of (fs @ [f]) \<and> ended = (f_event_type f = EvEnd)"
proof -
  have zero: "f_ordinal f = 0 \<longleftrightarrow> fs = []"
    using len u64_of_nat_eq [of "length fs" 0] by (simp add: f)
  have fits: "body_fits (f_event_type f) (f_body f)" using f by (simp add: wf_frame_def)
  have single: "session_of [] = None" "f_event_type f \<noteq> EvSession \<Longrightarrow> session_of [f] = None"
    by (simp_all add: session_of_def)
  consider "f_event_type f = EvSession" | "f_event_type f = EvEnd" | "f_event_type f = EvGap"
    | "f_event_type f \<notin> {EvSession, EvEnd, EvGap}" by blast
  then show ?thesis
  proof cases
    case 1
    then show ?thesis
      by (auto simp: check_marker_def marker_ok_def zero session_of_def split: sum.splits)
  next
    case 2
    then obtain en where en: "decode_end (f_ordinal f) (f_body f) = Inr en"
      using fits by (simp add: decode_end_def)
    with 2 single show ?thesis
      by (cases "fs = []"; cases "session_of fs"; cases en)
        (auto simp: check_marker_def marker_ok_def session_of_snoc end_at [OF en])
  next
    case 3
    obtain g where g: "decode_gap (f_ordinal f) (f_body f) = Inr g"
      using fits 3 by (auto simp: decode_gap_def u16_at_def Let_def)
    have "marker_ok fs f \<longleftrightarrow> (h_flags (f_header f) AND FLAG_COUNT_UNKNOWN \<noteq> 0 \<longleftrightarrow> g_lost g = None)"
      by (simp add: marker_ok_def 3 gap_at [OF g] flip: conj_assoc)
    with 3 g single show ?thesis
      by (auto simp: check_marker_def session_of_snoc)
  next
    case 4
    then show ?thesis
      using single by (cases "f_event_type f") (auto simp: check_marker_def marker_ok_def session_of_snoc)
  qed
qed

lemma check_frame_state_of:
  assumes "wf_frame f" and "f_ordinal f = word_of_nat (length fs)" and "length fs < 2 ^ 64"
  shows "check_frame (state_of fs) f = Inr st \<longleftrightarrow>
    f_src_seq f = word_of_nat (seq_count fs (sequence_key f)) \<and>
    (\<forall>t. expected_tuple (f_event_type f) = Some t \<longrightarrow> frame_tuple f = t) \<and>
    marker_ok fs f \<and> st = state_of (fs @ [f])"
proof -
  have sess: "st_session (state_of fs) = session_of fs" by (simp add: state_of_def)
  have "\<lparr>st_frames = st_frames (state_of fs) @ [f],
      st_sequences = (st_sequences (state_of fs))(sequence_key f \<mapsto>
        word_of_nat (seq_count fs (sequence_key f)) + 1),
      st_session = session_of (fs @ [f]), st_ended = (f_event_type f = EvEnd)\<rparr> = state_of (fs @ [f])"
    unfolding sequences_snoc by (simp add: state_of_def)
  then show ?thesis
    unfolding check_frame_Inr expected_seq_state_of sess check_marker_ok [OF assms]
    by auto
qed

text \<open>The states the loop reaches are determined by the frames it has pushed.\<close>

lemma stream_run_iff:
  "length fs < 2 ^ 64 \<Longrightarrow>
   stream_run init_stream fs st \<longleftrightarrow> ok_prefix fs \<and> st = state_of fs"
proof (induction fs arbitrary: st rule: rev_induct)
  case Nil
  then show ?case by (simp add: state_of_Nil)
next
  case (snoc f fs)
  have len: "length fs < 2 ^ 64" using snoc.prems by simp
  have running: "st_ended (state_of fs) \<longleftrightarrow> fs \<noteq> [] \<and> f_event_type (last fs) = EvEnd"
    and frames: "st_frames (state_of fs) = fs" by (simp_all add: state_of_def)
  have "stream_run init_stream (fs @ [f]) st \<longleftrightarrow>
      ok_prefix fs \<and> \<not> st_ended (state_of fs) \<and> wf_frame f \<and> f_ordinal f = word_of_nat (length fs) \<and>
      check_frame (state_of fs) f = Inr st"
    by (auto simp: stream_run_append stream_run_Cons snoc.IH [OF len] frames)
  also have "\<dots> \<longleftrightarrow> ok_prefix (fs @ [f]) \<and> st = state_of (fs @ [f])"
    using check_frame_state_of [OF _ _ len]
    by (auto simp: frame_ok_def running)
  finally show ?case .
qed

lemma valid_stream_session:
  assumes "valid_stream fs"
  shows "session_of fs \<noteq> None"
proof -
  from assms obtain gs f where fs: "fs = gs @ [f]" by (cases fs rule: rev_cases) (auto simp: valid_stream_def)
  with assms have e: "f_event_type f = EvEnd" and "frame_ok gs f"
    by (auto simp: valid_stream_def)
  then have "session_of gs \<noteq> None" by (auto simp: frame_ok_def marker_ok_def)
  moreover have "session_of [] = None" by (simp add: session_of_def)
  ultimately show ?thesis by (auto simp: fs session_of_snoc)
qed

lemma decode_stream_iff:
  assumes "length fs < 2 ^ 64"
  shows "decode_stream h bs = Inr fs \<longleftrightarrow> encode_stream h fs = bs \<and> valid_stream fs"
  using valid_stream_session [of fs]
  by (auto simp: decode_stream_Inr stream_run_iff [OF assms] valid_stream_def state_of_def)

subsection \<open>Streams do not extend one another\<close>

lemma decode_from_append:
  assumes "stream_run st fs st'"
  shows "\<exists>cursor'. decode_from h cursor (encode_stream h fs @ rest) st = decode_from h cursor' rest st'"
  using assms
proof (induction arbitrary: cursor)
  case (stop st)
  then show ?case by auto
next
  case (turn st f st1 fs st2)
  have "read_frame h (word_of_nat (length (st_frames st))) cursor (encode_stream h (f # fs) @ rest)
      = Inr (f, length (payload f))"
    using read_frame_encode [OF turn.hyps(2)] turn.hyps(3) by simp
  then have "decode_from h cursor (encode_stream h (f # fs) @ rest) st =
      decode_from h (cursor + (FRAME_HEADER_SIZE + length (payload f))) (encode_stream h fs @ rest) st1"
    using turn.hyps by (subst decode_from.simps) (simp del: length_payload)
  with turn.IH show ?case by metis
qed

lemma stream_extension_refused:
  assumes "decode_stream h bs = Inr fs" and "extra \<noteq> []"
  shows "decode_stream h (bs @ extra) = Inl (UnexpectedEnd (word_of_nat (length fs) - 1))"
proof -
  from assms(1) obtain st where enc: "encode_stream h fs = bs"
    and run: "stream_run init_stream fs st" and fin: "st_ended st"
    by (auto simp: decode_stream_Inr)
  from decode_from_append [OF run] obtain c where
    "decode_from h 0 (bs @ extra) init_stream = decode_from h c extra st"
    unfolding enc [symmetric] by blast
  also have "\<dots> = Inl (UnexpectedEnd (word_of_nat (length fs) - 1))"
    using assms(2) fin stream_run_frames [OF run]
    by (subst decode_from.simps) (simp add: init_stream_def)
  finally show ?thesis by (simp add: decode_stream_def)
qed

subsection \<open>What the hashes commit\<close>

lemma extend_chain_native_chain:
  "fold (\<lambda>f c. extend_chain_native h kh key c f) fs c = chain_with (envelope_bytes h) kh key c fs"
  by (simp add: chain_with_def extend_chain_native_def)

lemma fold_run_output:
  "fold (\<lambda>f (r, q). (extend_chain_native h kh k1 r f,
      if is_emit f then extend_chain_native h kh k2 q f else q)) fs (r, q) =
   (chain_with (envelope_bytes h) kh k1 r fs,
    chain_with (envelope_bytes h) kh k2 q (filter is_emit fs))"
  by (induction fs arbitrary: r q) (simp_all add: extend_chain_native_def)

lemma hash_frames_chains:
  "n_trace_hash (hash_frames h kh corpus fs) =
     chain_with (envelope_bytes h) kh (domain_key h (TRACE_DOMAIN_PREFIX @ corpus)) 0
       (filter (\<lambda>f. \<not> is_emit f) fs)"
  "n_run_hash (hash_frames h kh corpus fs) =
     chain_with (envelope_bytes h) kh (domain_key h NATIVE_RUN_DOMAIN)
       (kh (domain_key h NATIVE_RUN_DOMAIN) (to_le (n_trace_hash (hash_frames h kh corpus fs)))) fs"
  "n_output_digest (hash_frames h kh corpus fs) =
     chain_with (envelope_bytes h) kh (domain_key h NATIVE_OUTPUT_DOMAIN) 0 (filter is_emit fs)"
  by (simp_all add: hash_frames_def Let_def extend_chain_native_chain fold_run_output)

definition envelope_view ::
  "hash_fn \<Rightarrow> frame \<Rightarrow> u64 \<times> (u32 \<times> u32 \<times> u32) \<times> u64 \<times> digest" where
  "envelope_view h f = (f_ordinal f, frame_tuple f, f_src_seq f, h (payload f))"

interpretation native: chained "envelope_bytes h" "envelope_view h" for h
proof
  fix e e' :: frame
  assume "envelope_bytes h e = envelope_bytes h e'"
  then show "envelope_view h e = envelope_view h e'"
    by (simp add: envelope_bytes_def envelope_view_def frame_tuple_def)
next
  fix e :: frame
  show "envelope_bytes h e \<noteq> []"
    using length_envelope_bytes [of h e] by (auto simp: ENVELOPE_SIZE_def simp del: length_envelope_bytes)
qed

text \<open>The part of a frame the execution hashes are about.\<close>

definition timeless :: "frame \<Rightarrow> frame" where
  "timeless f = f\<lparr>f_observed_ns := 0\<rparr>"

lemma payload_inject: "payload f = payload g \<longleftrightarrow> f_header f = f_header g \<and> f_body f = f_body g"
  by (auto simp: payload_def encode_header_def)

lemma timeless_view:
  assumes "envelope_view h f = envelope_view h g" and "payload f = payload g"
  shows "timeless f = timeless g"
  using assms unfolding envelope_view_def frame_tuple_def payload_inject timeless_def
  by (intro frame.equality) simp_all

lemma map_timeless_view:
  assumes "map (envelope_view h) fs = map (envelope_view h) gs"
    and "inj_on h (payload ` (set fs \<union> set gs))"
  shows "map timeless fs = map timeless gs"
  using assms
proof (induction fs arbitrary: gs)
  case (Cons f fs)
  then obtain g gs' where gs: "gs = g # gs'" by (cases gs) auto
  with Cons.prems(1) have v: "envelope_view h f = envelope_view h g"
    and vs: "map (envelope_view h) fs = map (envelope_view h) gs'" by simp_all
  from v have "h (payload f) = h (payload g)" by (simp add: envelope_view_def)
  then have "payload f = payload g"
    by (rule inj_onD [OF Cons.prems(2)]) (simp_all add: gs)
  with v have "timeless f = timeless g" by (rule timeless_view)
  moreover have "map timeless fs = map timeless gs'"
    using vs by (rule Cons.IH) (rule inj_on_subset [OF Cons.prems(2)], auto simp: gs)
  ultimately show ?case by (simp add: gs)
qed simp

lemma envelope_bytes_timeless [simp]: "envelope_bytes h (timeless f) = envelope_bytes h f"
  by (simp add: envelope_bytes_def timeless_def payload_def frame_kind_def)

lemma is_emit_timeless [simp]: "is_emit (timeless f) = is_emit f"
  by (simp add: is_emit_def timeless_def frame_kind_def)

lemma chain_timeless:
  "chain_with (envelope_bytes h) kh key c (map timeless fs) = chain_with (envelope_bytes h) kh key c fs"
  by (induction fs arbitrary: c) auto

lemma hash_frames_timeless: "hash_frames h kh corpus (map timeless fs) = hash_frames h kh corpus fs"
  by (simp add: hash_frames_def Let_def extend_chain_native_chain fold_run_output chain_timeless
      filter_map comp_def)

definition run_inputs :: "hash_fn \<Rightarrow> keyed_fn \<Rightarrow> bytes \<Rightarrow> frame list \<Rightarrow> bytes list" where
  "run_inputs h kh corpus fs =
     seeded_inputs (envelope_bytes h) kh (domain_key h NATIVE_RUN_DOMAIN)
       (n_trace_hash (hash_frames h kh corpus fs)) fs"

lemma run_hash_views:
  assumes "no_collision kh (domain_key h NATIVE_RUN_DOMAIN)
      (run_inputs h kh corpus fs) (run_inputs h kh corpus' gs)"
    and "n_run_hash (hash_frames h kh corpus fs) = n_run_hash (hash_frames h kh corpus' gs)"
  shows "n_trace_hash (hash_frames h kh corpus fs) = n_trace_hash (hash_frames h kh corpus' gs) \<and>
    map (envelope_view h) fs = map (envelope_view h) gs"
  using assms unfolding run_inputs_def hash_frames_chains(2) by (rule native.seeded_chain_commits)

section \<open>Properties\<close>

text \<open>
  C6. \<open>decode_stream\<close> accepts exactly the wire forms of valid frame sequences, and returns the
  sequence: every frame well formed with its ordinal its position and its \<open>src_seq\<close> the number of
  earlier frames of its source and channel; markers and gaps from the session on the session
  channel; the session marker first, the end marker last, with the session's uuid and the frame
  count, and neither anywhere else; a gap flagged count-unknown exactly when its count is.
\<close>

theorem decode_stream_exact:
  assumes "length fs < 2 ^ 64"
  shows "decode_stream h bs = Inr fs \<longleftrightarrow> encode_stream h fs = bs \<and> valid_stream fs"
  using assms by (rule decode_stream_iff)

definition demo_session :: session where
  "demo_session = \<lparr>s_uuid = 7, s_record_utc_ns = 5, s_pid = 3\<rparr>"

definition demo_frames :: "frame list" where
  "demo_frames =
    [\<lparr>f_ordinal = 0, f_src_actor = 0, f_dst_actor = 0, f_channel_id = 0, f_src_seq = 0,
      f_observed_ns = 1, f_header = \<lparr>h_event_type = EvSession, h_schema = 1, h_flags = 0\<rparr>,
      f_body = encode_session demo_session\<rparr>,
     \<lparr>f_ordinal = 1, f_src_actor = 0, f_dst_actor = 0, f_channel_id = 0, f_src_seq = 1,
      f_observed_ns = 2, f_header = \<lparr>h_event_type = EvEnd, h_schema = 1, h_flags = 0\<rparr>,
      f_body = encode_end \<lparr>en_uuid = 7, en_frame_count = 1\<rparr>\<rparr>]"

lemma length_markers [simp]: "length (encode_session s) = 30" "length (encode_end e) = 24"
  by (simp_all add: encode_session_def encode_end_def)

lemma valid_demo: "valid_stream demo_frames"
proof -
  have "ok_prefix ([] @ [demo_frames ! 0] @ [demo_frames ! 1])"
    unfolding append_assoc [symmetric] ok_prefix_snoc
    by (simp add: demo_frames_def frame_ok_def marker_ok_def wf_frame_def wf_header_def session_of_def
        EVENT_SCHEMA_def EVENT_HEADER_SIZE_def seq_count_def sequence_key_def frame_tuple_def
        session_tuple_def SESSION_ACTOR_ID_def SESSION_CHANNEL_ID_def decode_encode_session demo_session_def)
  then show ?thesis by (simp add: valid_stream_def demo_frames_def)
qed

theorem decode_stream_exact_witness:
  "decode_stream (\<lambda>_. 0) (encode_stream (\<lambda>_. 0) demo_frames) = Inr demo_frames"
proof -
  have "length demo_frames < 2 ^ 64" by (simp add: demo_frames_def)
  from decode_stream_exact [OF this, of "\<lambda>_. 0"] valid_demo show ?thesis by blast
qed

text \<open>
  A finished recording is complete: with any bytes appended it is refused for its early end
  marker, and no strict prefix of it is accepted.
\<close>

theorem stream_complete:
  assumes "decode_stream h bs = Inr fs"
  shows "(extra \<noteq> [] \<longrightarrow> decode_stream h (bs @ extra) = Inl (UnexpectedEnd (word_of_nat (length fs) - 1))) \<and>
    (n < length bs \<longrightarrow> (\<exists>e. decode_stream h (take n bs) = Inl e))"
proof -
  have "\<exists>e. decode_stream h (take n bs) = Inl e" if n: "n < length bs"
  proof (cases "decode_stream h (take n bs)")
    case (Inr gs)
    have "drop n bs \<noteq> []" using n by simp
    from stream_extension_refused [OF Inr this] assms show ?thesis by simp
  qed simp
  then show ?thesis using stream_extension_refused [OF assms] by blast
qed

theorem stream_complete_witness:
  "\<exists>e. decode_stream (\<lambda>_. 0) (take 100 (encode_stream (\<lambda>_. 0) demo_frames)) = Inl e"
proof -
  have accepted: "decode_stream (\<lambda>_. 0) (encode_stream (\<lambda>_. 0) demo_frames) = Inr demo_frames"
    using valid_demo decode_stream_iff [of demo_frames "\<lambda>_. 0"] by (simp add: demo_frames_def)
  have "100 < length (encode_stream (\<lambda>_. 0) demo_frames)"
    by (simp add: demo_frames_def FRAME_HEADER_SIZE_def EVENT_HEADER_SIZE_def)
  with stream_complete [OF accepted] show ?thesis by blast
qed

text \<open>
  The run hash commits the whole recording but its observed times, which change none of the
  three hashes: two recordings with the same run hash and no BLAKE3 collision between them have the
  same frames up to \<open>observed_ns\<close> and the same trace hash.
\<close>

theorem native_run_hash_commits:
  assumes "no_collision kh (domain_key h NATIVE_RUN_DOMAIN)
      (run_inputs h kh corpus fs) (run_inputs h kh corpus' gs)"
    and "inj_on h (payload ` (set fs \<union> set gs))"
    and "n_run_hash (hash_frames h kh corpus fs) = n_run_hash (hash_frames h kh corpus' gs)"
  shows "map timeless fs = map timeless gs \<and>
    n_trace_hash (hash_frames h kh corpus fs) = n_trace_hash (hash_frames h kh corpus' gs) \<and>
    hash_frames h kh c (map timeless fs) = hash_frames h kh c fs"
  using run_hash_views [OF assms(1,3)] map_timeless_view [OF _ assms(2)] hash_frames_timeless
  by blast

theorem native_run_hash_commits_witness:
  "map timeless [hd demo_frames] = map timeless [(hd demo_frames)\<lparr>f_observed_ns := 9\<rparr>]"
proof -
  define f g where "f = hd demo_frames" and "g = (hd demo_frames)\<lparr>f_observed_ns := 9\<rparr>"
  define kh :: keyed_fn where "kh = (\<lambda>k x. if length x = 32 then 1 else 2)"
  have env: "envelope_bytes h g = envelope_bytes h f" for h
    by (simp add: f_def g_def envelope_bytes_def payload_def frame_kind_def)
  have fg: "payload g = payload f" "is_emit g = is_emit f"
    by (simp_all add: f_def g_def payload_def is_emit_def frame_kind_def)
  have hashes: "hash_frames (\<lambda>_. 0) kh [] [g] = hash_frames (\<lambda>_. 0) kh [] [f]"
    by (simp add: hash_frames_def fg env Let_def extend_chain_native_def)
  have "no_collision kh key (run_inputs (\<lambda>_. 0) kh [] [f]) (run_inputs (\<lambda>_. 0) kh [] [g])" for key
    unfolding run_inputs_def hashes
    by (simp add: no_collision_def seeded_inputs_def env inj_on_def kh_def ENVELOPE_SIZE_def)
  then have "map timeless [f] = map timeless [g] \<and>
      n_trace_hash (hash_frames (\<lambda>_. 0) kh [] [f]) = n_trace_hash (hash_frames (\<lambda>_. 0) kh [] [g]) \<and>
      hash_frames (\<lambda>_. 0) kh [] (map timeless [f]) = hash_frames (\<lambda>_. 0) kh [] [f]"
    by (rule native_run_hash_commits) (simp_all add: fg hashes)
  then show ?thesis by (simp add: f_def g_def)
qed

text \<open>
  The output digest commits the effect frames only and the trace hash the other frames only:
  neither depends on where effects stand between inputs.
\<close>

theorem native_hash_split:
  "n_output_digest (hash_frames h kh c fs) = n_output_digest (hash_frames h kh c (filter is_emit fs)) \<and>
   n_trace_hash (hash_frames h kh c fs) =
     n_trace_hash (hash_frames h kh c (filter (\<lambda>f. \<not> is_emit f) fs))"
  by (simp add: hash_frames_chains)

text \<open>
  A gap body decodes to a gap exactly when it is that gap's encoding and the gap's lost count is
  not \<open>u64::MAX\<close>, which the encoder writes for an unknown count too; the encoder refuses exactly the
  details over 65535 bytes.
\<close>

theorem gap_roundtrip:
  "(decode_gap n body = Inr g \<longleftrightarrow> encode_gap g = Some body \<and> g_lost g \<noteq> Some U64_MAX) \<and>
   encode_gap (g\<lparr>g_lost := Some U64_MAX\<rparr>) = encode_gap (g\<lparr>g_lost := None\<rparr>) \<and>
   (encode_gap g = None \<longleftrightarrow> 65535 < length (g_detail g))"
  using decode_encode_gap [of g body n] encode_decode_gap [of n body g]
  by (cases g) (auto simp: encode_gap_def)

end
