(* ===== verification/Adapter_Bodies.thy ===== *)
theory Adapter_Bodies
  imports Native_Stream
begin

text \<open>
  crates/rook-adapter-ref/src/bodies.rs: the typed bodies the reference adapter exchanges, and the
  constants of crates/rook-adapter-ref/src/lib.rs.  A refusal text of \<open>bail!\<close> is a constructor of
  \<open>body_error\<close> with the values the text prints.
\<close>

unbundle bit_operations_syntax

subsection \<open>Endpoints, channels and limits\<close>

definition ACTOR_CLOCK :: u32 where "ACTOR_CLOCK = 2"
definition ACTOR_ACTION_SERVER :: u32 where "ACTOR_ACTION_SERVER = 3"
definition ACTOR_COMMAND :: u32 where "ACTOR_COMMAND = 4"
definition ACTOR_DIAGNOSTICS :: u32 where "ACTOR_DIAGNOSTICS = 5"
definition CH_GOAL_COMMAND :: u32 where "CH_GOAL_COMMAND = 10"
definition CH_CLOCK :: u32 where "CH_CLOCK = 11"
definition CH_ACTION_RESPONSE :: u32 where "CH_ACTION_RESPONSE = 12"
definition CH_ACTION_GOAL :: u32 where "CH_ACTION_GOAL = 20"
definition CH_ACTION_CANCEL :: u32 where "CH_ACTION_CANCEL = 21"
definition CH_STATUS :: u32 where "CH_STATUS = 22"
definition CLOCK_ROS :: u16 where "CLOCK_ROS = 1"
definition GOAL_RESPONSE_DEADLINE_NS :: i64 where "GOAL_RESPONSE_DEADLINE_NS = 1000000000"
definition SERIALIZATION_RAW :: u16 where "SERIALIZATION_RAW = 2"
definition RESULT_SUCCEEDED :: u8 where "RESULT_SUCCEEDED = 4"
definition RESULT_CANCELED :: u8 where "RESULT_CANCELED = 5"
definition RESULT_ABORTED :: u8 where "RESULT_ABORTED = 6"
definition STATE_METHOD_FRESH :: u16 where "STATE_METHOD_FRESH = 1"

subsection \<open>Bodies\<close>

datatype body_error =
    MessageTooShort
  | UnsupportedSerialization u16
  | ClockLength nat
  | GoalSendTooShort
  | GoalResponseLength nat
  | ResultTooShort
  | CancelSendLength nat
  | CancelResponseTooShort
  | CancelResponseCount
  | TooManyGoals

definition message :: "bytes \<Rightarrow> bytes" where
  "message bs = to_le SERIALIZATION_RAW @ bs"

definition decode_message :: "bytes \<Rightarrow> body_error + bytes" where
  "decode_message body =
     (if length body < 2 then Inl MessageTooShort
      else let serialization = from_le (subslice 0 2 body) in
        if serialization \<noteq> SERIALIZATION_RAW then Inl (UnsupportedSerialization serialization)
        else Inr (drop 2 body))"

record clock =
  ck_clock_id :: u16
  ck_value_ns :: i64
  ck_callback_ordinal :: u64

definition encode_clock :: "clock \<Rightarrow> bytes" where
  "encode_clock c = to_le (ck_clock_id c) @ to_le (ck_value_ns c) @ to_le (ck_callback_ordinal c)"

definition decode_clock :: "bytes \<Rightarrow> body_error + clock" where
  "decode_clock body =
     (if length body \<noteq> 18 then Inl (ClockLength (length body))
      else Inr \<lparr>ck_clock_id = from_le (subslice 0 2 body),
                ck_value_ns = from_le (subslice 2 10 body),
                ck_callback_ordinal = from_le (subslice 10 18 body)\<rparr>)"

record goal_send =
  gs_goal_id :: id16
  gs_goal :: bytes

definition encode_goal_send :: "goal_send \<Rightarrow> bytes" where
  "encode_goal_send g = to_le (gs_goal_id g) @ gs_goal g"

definition decode_goal_send :: "bytes \<Rightarrow> body_error + goal_send" where
  "decode_goal_send body =
     (if length body < 16 then Inl GoalSendTooShort
      else Inr \<lparr>gs_goal_id = from_le (subslice 0 16 body), gs_goal = drop 16 body\<rparr>)"

record goal_response =
  gr_goal_send_ordinal :: u64
  gr_goal_id :: id16
  gr_accepted :: bool
  gr_stamp_ns :: i64

definition encode_goal_response :: "goal_response \<Rightarrow> bytes" where
  "encode_goal_response g =
     to_le (gr_goal_send_ordinal g) @ to_le (gr_goal_id g) @
     [if gr_accepted g then 1 else 0] @ to_le (gr_stamp_ns g)"

definition decode_goal_response :: "bytes \<Rightarrow> body_error + goal_response" where
  "decode_goal_response body =
     (if length body \<noteq> 33 then Inl (GoalResponseLength (length body))
      else Inr \<lparr>gr_goal_send_ordinal = from_le (subslice 0 8 body),
                gr_goal_id = from_le (subslice 8 24 body),
                gr_accepted = (body ! 24 \<noteq> 0),
                gr_stamp_ns = from_le (subslice 25 33 body)\<rparr>)"

record goal_result =
  rs_goal_send_ordinal :: u64
  rs_goal_id :: id16
  rs_status :: u8
  rs_result :: bytes

definition encode_goal_result :: "goal_result \<Rightarrow> bytes" where
  "encode_goal_result g =
     to_le (rs_goal_send_ordinal g) @ to_le (rs_goal_id g) @ [rs_status g] @ rs_result g"

definition decode_goal_result :: "bytes \<Rightarrow> body_error + goal_result" where
  "decode_goal_result body =
     (if length body < 25 then Inl ResultTooShort
      else Inr \<lparr>rs_goal_send_ordinal = from_le (subslice 0 8 body),
                rs_goal_id = from_le (subslice 8 24 body),
                rs_status = body ! 24,
                rs_result = drop 25 body\<rparr>)"

record cancel_send =
  cs_goal_id :: id16
  cs_stamp_ns :: i64

definition encode_cancel_send :: "cancel_send \<Rightarrow> bytes" where
  "encode_cancel_send c = to_le (cs_goal_id c) @ to_le (cs_stamp_ns c)"

definition decode_cancel_send :: "bytes \<Rightarrow> body_error + cancel_send" where
  "decode_cancel_send body =
     (if length body \<noteq> 24 then Inl (CancelSendLength (length body))
      else Inr \<lparr>cs_goal_id = from_le (subslice 0 16 body),
                cs_stamp_ns = from_le (subslice 16 24 body)\<rparr>)"

record cancel_response =
  cr_cancel_send_ordinal :: u64
  cr_return_code :: u8
  cr_goals :: "id16 list"

definition encode_cancel_response :: "cancel_response \<Rightarrow> body_error + bytes" where
  "encode_cancel_response c =
     (if 65535 < length (cr_goals c) then Inl TooManyGoals
      else Inr (to_le (cr_cancel_send_ordinal c) @ [cr_return_code c] @
             to_le (word_of_nat (length (cr_goals c)) :: u16) @ concat (map to_le (cr_goals c))))"

definition decode_cancel_response :: "bytes \<Rightarrow> body_error + cancel_response" where
  "decode_cancel_response body =
     (if length body < 11 then Inl CancelResponseTooShort
      else let n = unat (from_le (subslice 9 11 body) :: u16) in
        if length body \<noteq> 11 + 16 * n then Inl CancelResponseCount
        else Inr \<lparr>cr_cancel_send_ordinal = from_le (subslice 0 8 body),
                  cr_return_code = body ! 8,
                  cr_goals = map from_le (chunks 16 (drop 11 body))\<rparr>)"

definition starting_state :: "u16 \<Rightarrow> digest \<Rightarrow> bytes" where
  "starting_state method state_blake3 = to_le method @ to_le state_blake3"

definition status :: "bytes \<Rightarrow> bytes" where
  "status text = text"

section \<open>Lemmas\<close>

lemma decode_encode_message: "decode_message (message bs) = Inr bs"
  by (simp add: message_def decode_message_def)

lemma encode_decode_message:
  assumes "decode_message body = Inr bs"
  shows "message bs = body"
proof -
  from assms have len: "2 \<le> length body" and v: "from_le (subslice 0 2 body) = SERIALIZATION_RAW"
    and bs: "bs = drop 2 body"
    by (auto simp: decode_message_def Let_def split: if_splits)
  have "message bs = subslice 0 2 body @ drop 2 body"
    using len unfolding message_def bs v [symmetric] by (simp add: to_from_le)
  then show ?thesis by (simp add: subslice_drop_join)
qed

lemma decode_encode_goal_result: "decode_goal_result (encode_goal_result g) = Inr g"
  by (simp add: encode_goal_result_def decode_goal_result_def nth_append)

lemma encode_decode_goal_result:
  assumes "decode_goal_result body = Inr g"
  shows "encode_goal_result g = body"
proof -
  have len: "25 \<le> length body"
    and g: "g = \<lparr>rs_goal_send_ordinal = from_le (subslice 0 8 body),
      rs_goal_id = from_le (subslice 8 24 body), rs_status = body ! 24, rs_result = drop 25 body\<rparr>"
    using assms by (auto simp: decode_goal_result_def split: if_splits)
  have "encode_goal_result g = subslice 0 8 body @ subslice 8 24 body @ [body ! 24] @ drop 25 body"
    using len by (simp add: encode_goal_result_def g to_from_le)
  also have "[body ! 24] = subslice 24 25 body"
    using len subslice_single [of 24 body] by simp
  finally show ?thesis by (simp add: subslice_drop_join)
qed

lemma decode_encode_cancel_response:
  assumes "encode_cancel_response c = Inr body"
  shows "decode_cancel_response body = Inr c"
proof -
  from assms have n: "length (cr_goals c) \<le> 65535"
    and body: "body = to_le (cr_cancel_send_ordinal c) @ [cr_return_code c] @
      to_le (word_of_nat (length (cr_goals c)) :: u16) @ concat (map to_le (cr_goals c))"
    by (auto simp: encode_cancel_response_def split: if_splits)
  have u: "unat (word_of_nat (length (cr_goals c)) :: u16) = length (cr_goals c)"
    using n by (simp add: unat_of_nat take_bit_eq_mod)
  have l: "length (concat (map to_le (cr_goals c))) = 16 * length (cr_goals c)"
    by (simp add: length_concat comp_def sum_list_triv)
  have "chunks 16 (concat (map to_le (cr_goals c))) = map to_le (cr_goals c)"
    by (intro chunks_concat) auto
  then show ?thesis
    by (simp add: decode_cancel_response_def body u l Let_def nth_append comp_def)
qed

lemma encode_decode_cancel_response:
  assumes "decode_cancel_response body = Inr c"
  shows "encode_cancel_response c = Inr body"
proof -
  let ?n = "from_le (subslice 9 11 body) :: u16"
  have len: "length body = 11 + 16 * unat ?n"
    and c: "c = \<lparr>cr_cancel_send_ordinal = from_le (subslice 0 8 body), cr_return_code = body ! 8,
                  cr_goals = map from_le (chunks 16 (drop 11 body))\<rparr>"
    using assms by (auto simp: decode_cancel_response_def Let_def split: if_splits)
  have chunk: "length ys = 16" if "ys \<in> set (chunks 16 (drop 11 body))" for ys
    using that len by (intro length_in_chunks [of 16 "drop 11 body" "unat ?n"]) auto
  have n: "length (chunks 16 (drop 11 body)) = unat ?n"
    using len by (intro length_chunks) auto
  have "map (to_le \<circ> (from_le :: bytes \<Rightarrow> id16)) (chunks 16 (drop 11 body)) = chunks 16 (drop 11 body)"
    using chunk by (intro map_idI) (auto simp: to_from_le)
  then have goals: "concat (map to_le (cr_goals c)) = drop 11 body"
    by (simp add: c concat_chunks)
  have small: "unat ?n \<le> 65535"
    using unsigned_less [of ?n, where ?'a = nat] by simp
  have single: "[body ! 8] = subslice 8 9 body"
    using len subslice_single [of 8 body] by simp
  have "encode_cancel_response c = Inr (subslice 0 8 body @ subslice 8 9 body @ subslice 9 11 body @ drop 11 body)"
    using len small goals
    by (simp add: encode_cancel_response_def c n to_from_le single [symmetric])
  then show ?thesis by (simp add: subslice_drop_join)
qed

definition result_option :: "'e + 'a \<Rightarrow> 'a option" where
  "result_option r = (case r of Inl _ \<Rightarrow> None | Inr x \<Rightarrow> Some x)"

lemma result_option_Some [simp]: "result_option r = Some x \<longleftrightarrow> r = Inr x"
  by (cases r) (simp_all add: result_option_def)

interpretation message_codec: canonical_codec "\<lambda>x. Some (message x)" decode_message
  by unfold_locales (auto simp: decode_encode_message encode_decode_message)

interpretation clock_codec: canonical_codec "\<lambda>x. Some (encode_clock x)" decode_clock
  by unfold_locales
    (auto simp: encode_clock_def decode_clock_def to_from_le subslice_join split: if_splits)

interpretation goal_send_codec: canonical_codec "\<lambda>x. Some (encode_goal_send x)" decode_goal_send
  by unfold_locales
    (auto simp: encode_goal_send_def decode_goal_send_def to_from_le subslice_drop_join split: if_splits)

interpretation goal_result_codec: canonical_codec "\<lambda>x. Some (encode_goal_result x)" decode_goal_result
  by unfold_locales (auto simp: decode_encode_goal_result encode_decode_goal_result)

interpretation cancel_send_codec: canonical_codec "\<lambda>x. Some (encode_cancel_send x)" decode_cancel_send
  by unfold_locales
    (auto simp: encode_cancel_send_def decode_cancel_send_def to_from_le subslice_join split: if_splits)

interpretation cancel_response_codec:
  canonical_codec "\<lambda>x. result_option (encode_cancel_response x)" decode_cancel_response
  by (unfold_locales, unfold result_option_Some)
    (rule decode_encode_cancel_response encode_decode_cancel_response, assumption)+

interpretation goal_response_codec: codec "\<lambda>x. Some (encode_goal_response x)" decode_goal_response
  by unfold_locales
    (auto simp: encode_goal_response_def decode_goal_response_def nth_append)

lemma goal_response_normal_form:
  assumes "length b = 33"
  shows "decode_goal_response b = Inr g \<longleftrightarrow> encode_goal_response g = b[24 := (if b ! 24 \<noteq> 0 then 1 else 0)]"
proof -
  let ?a = "if b ! 24 \<noteq> 0 then 1 else 0 :: byte"
  let ?g = "\<lparr>gr_goal_send_ordinal = from_le (subslice 0 8 b), gr_goal_id = from_le (subslice 8 24 b),
      gr_accepted = (b ! 24 \<noteq> 0), gr_stamp_ns = from_le (subslice 25 33 b)\<rparr>"
  have dec: "decode_goal_response b = Inr ?g" using assms by (simp add: decode_goal_response_def)
  have "encode_goal_response ?g = subslice 0 8 b @ subslice 8 24 b @ [?a] @ subslice 25 33 b"
    using assms by (simp add: encode_goal_response_def to_from_le)
  also have "\<dots> = subslice 0 24 b @ [?a] @ subslice 25 33 b"
    by (simp add: subslice_join flip: append_assoc)
  also have "\<dots> = b[24 := ?a]"
    using assms by (subst upd_conv_take_nth_drop) (simp_all add: subslice_def)
  finally have enc: "encode_goal_response ?g = b[24 := ?a]" .
  have "?g = g \<longleftrightarrow> encode_goal_response ?g = encode_goal_response g"
    using goal_response_codec.enc_inject [of ?g "encode_goal_response g" g] by auto
  then show ?thesis unfolding dec enc by auto
qed

lemma length_encode_goal_response [simp]: "length (encode_goal_response g) = 33"
  by (simp add: encode_goal_response_def)

section \<open>Properties\<close>

text \<open>
  C35. Every body decoder is the inverse of its encoder: a decoder accepts exactly the encoder's
  output and returns the value encoded.  The one decoder that is not canonical is the goal
  response's, which reads every nonzero accepted byte as true.
\<close>

theorem bodies_roundtrip:
  "(decode_message b = Inr m \<longleftrightarrow> b = message m) \<and>
   (decode_clock b = Inr c \<longleftrightarrow> b = encode_clock c) \<and>
   (decode_goal_send b = Inr gs \<longleftrightarrow> b = encode_goal_send gs) \<and>
   (decode_goal_result b = Inr rs \<longleftrightarrow> b = encode_goal_result rs) \<and>
   (decode_cancel_send b = Inr cs \<longleftrightarrow> b = encode_cancel_send cs) \<and>
   (decode_cancel_response b = Inr cr \<longleftrightarrow> encode_cancel_response cr = Inr b) \<and>
   (decode_goal_response b = Inr gr \<longleftrightarrow>
      length b = 33 \<and> b[24 := (if b ! 24 \<noteq> 0 then 1 else 0)] = encode_goal_response gr)"
proof -
  have "decode_goal_response b = Inr gr \<Longrightarrow> length b = 33"
    by (simp add: decode_goal_response_def split: if_splits)
  then show ?thesis
    using goal_response_normal_form [of b gr]
    by (auto simp: message_codec.dec_iff_enc clock_codec.dec_iff_enc goal_send_codec.dec_iff_enc
        goal_result_codec.dec_iff_enc cancel_send_codec.dec_iff_enc cancel_response_codec.dec_iff_enc)
qed

text \<open>
  The native stream's layout check and the typed decoders agree: a body of an accepted stream
  decodes, and a body that decodes is one the stream accepts up to the enumerated clock and
  serialization fields.
\<close>

theorem body_fits_decodes:
  "(body_fits EvMessage b \<and> u16_at b 0 = unat SERIALIZATION_RAW \<longleftrightarrow> (\<exists>m. decode_message b = Inr m)) \<and>
   (body_fits EvClock b \<longleftrightarrow> (\<exists>c. decode_clock b = Inr c \<and> one_to_three (unat (ck_clock_id c)))) \<and>
   (body_fits EvGoalSend b \<longleftrightarrow> (\<exists>g. decode_goal_send b = Inr g)) \<and>
   (body_fits EvGoalResponse b \<longleftrightarrow> (\<exists>g. decode_goal_response b = Inr g)) \<and>
   (body_fits EvResult b \<longleftrightarrow> (\<exists>g. decode_goal_result b = Inr g)) \<and>
   (body_fits EvCancelSend b \<longleftrightarrow> (\<exists>c. decode_cancel_send b = Inr c)) \<and>
   (body_fits EvCancelResponse b \<longleftrightarrow> (\<exists>c. decode_cancel_response b = Inr c))"
proof -
  have m: "u16_at b 0 = unat SERIALIZATION_RAW \<longleftrightarrow> from_le (subslice 0 2 b) = SERIALIZATION_RAW"
    by (simp add: u16_at_def word_unat_eq_iff numeral_2_eq_2)
  have "body_fits EvMessage b \<and> u16_at b 0 = unat SERIALIZATION_RAW \<longleftrightarrow> (\<exists>m. decode_message b = Inr m)"
    unfolding decode_message_def m [symmetric] Let_def
    by (auto simp: one_to_three_def SERIALIZATION_RAW_def)
  moreover have "body_fits EvClock b \<longleftrightarrow> (\<exists>c. decode_clock b = Inr c \<and> one_to_three (unat (ck_clock_id c)))"
    by (auto simp: decode_clock_def u16_at_def numeral_2_eq_2)
  moreover have "body_fits EvGoalSend b \<longleftrightarrow> (\<exists>g. decode_goal_send b = Inr g)"
    by (auto simp: decode_goal_send_def)
  moreover have "body_fits EvGoalResponse b \<longleftrightarrow> (\<exists>g. decode_goal_response b = Inr g)"
    by (auto simp: decode_goal_response_def)
  moreover have "body_fits EvResult b \<longleftrightarrow> (\<exists>g. decode_goal_result b = Inr g)"
    by (auto simp: decode_goal_result_def)
  moreover have "body_fits EvCancelSend b \<longleftrightarrow> (\<exists>c. decode_cancel_send b = Inr c)"
    by (auto simp: decode_cancel_send_def)
  moreover have "body_fits EvCancelResponse b \<longleftrightarrow> (\<exists>c. decode_cancel_response b = Inr c)"
    by (auto simp: decode_cancel_response_def u16_at_def Let_def)
  ultimately show ?thesis by (intro conjI)
qed

end
