(* ===== verification/Goal_Client.thy ===== *)
theory Goal_Client
  imports Adapter_Bodies
begin

text \<open>
  crates/rook-adapter-ref/src/component.rs: the goal client under test, a state machine with four
  variants.  Every handler takes the component and returns it updated with the outcome of the step;
  \<open>None\<close> is a panic (\<open>unreachable!\<close>, \<open>expect\<close>), which the handlers never reach.  The texts of
  \<open>Consumed::No\<close> and \<open>Consumed::Refused\<close> are constructors with the values the texts print.  Counters
  are 64-bit words; an overflow of a counter (2^64 effects) is the word's wrap-around.
\<close>

unbundle bit_operations_syntax

datatype variant = VOld | VFixed | VNoop | VAlwaysCancel

definition parse_variant :: "string \<Rightarrow> variant option" where
  "parse_variant name =
     (if name = ''old'' then Some VOld else if name = ''fixed'' then Some VFixed
      else if name = ''noop'' then Some VNoop
      else if name = ''always-cancel'' then Some VAlwaysCancel else None)"

fun variant_name :: "variant \<Rightarrow> string" where
  "variant_name VOld = ''old''"
| "variant_name VFixed = ''fixed''"
| "variant_name VNoop = ''noop''"
| "variant_name VAlwaysCancel = ''always-cancel''"

record effect =
  ef_dst_actor :: u32
  ef_channel_id :: u32
  ef_src_seq :: u64
  ef_event_type :: event_type
  ef_flags :: u32
  ef_body :: bytes

datatype wait = ClockRead u64 u16 | Future u64 string

datatype decline =
    NotAddressed u32
  | NoHandler event_type u32
  | NotCommandEndpoint u32
  | GoalInFlight
  | UndecodedBody body_error
  | ClockMismatch u32 u16 u64 u16 u64
  | NoPendingRead u64
  | NoRoomForDeadline
  | GoalResponseNotBound
  | ResultNotBound
  | CancelResponseNotBound

datatype refusal = GoalResponseAfterCancel string | ResultAfterCancel

datatype consumed = Yes | No decline | Refused refusal

record outcome =
  oc_consumed :: "consumed option"
  oc_callback :: "u64 option"
  oc_effects :: "effect list"
  oc_progress :: "string list"

definition default_outcome :: outcome where
  "default_outcome = \<lparr>oc_consumed = None, oc_callback = None, oc_effects = [], oc_progress = []\<rparr>"

datatype cstate =
    Idle
  | AwaitClockForSend u64 bytes \<comment> \<open>callback, goal\<close>
  | AwaitGoalResponse u64 id16 u64 i64 \<comment> \<open>callback, goal id, send sequence, deadline\<close>
  | AwaitResult u64 id16 u64 \<comment> \<open>callback, goal id, send sequence\<close>
  | AwaitCancelResponse u64 id16 u64 string \<comment> \<open>callback, goal id, cancel sequence, reason\<close>

record component =
  c_variant :: variant
  c_state :: cstate
  c_goals_issued :: u64
  c_sequences :: "u32 \<Rightarrow> u64 option"

record input =
  in_ordinal :: u64
  in_src_actor :: u32
  in_dst_actor :: u32
  in_channel_id :: u32
  in_event_type :: event_type
  in_body :: bytes
  in_request :: "(u32 \<times> u64) option"

definition new_component :: "variant \<Rightarrow> component" where
  "new_component v =
     \<lparr>c_variant = v, c_state = Idle, c_goals_issued = 0, c_sequences = Map.empty\<rparr>"

definition goal_id :: "hash_fn \<Rightarrow> u64 \<Rightarrow> id16" where
  "goal_id h issue_index =
     from_le (take 16 (to_le (h (ascii ''rook-adapter-ref goal '' @ to_le issue_index))))"

fun waits_of :: "cstate \<Rightarrow> wait list" where
  "waits_of Idle = []"
| "waits_of (AwaitClockForSend callback goal) = [ClockRead callback CLOCK_ROS]"
| "waits_of (AwaitGoalResponse callback gid send_seq deadline_ns) =
     [Future callback ''goal_response'', ClockRead callback CLOCK_ROS]"
| "waits_of (AwaitResult callback gid send_seq) = [Future callback ''result'']"
| "waits_of (AwaitCancelResponse callback gid cancel_seq cancel_reason) =
     [Future callback ''cancel_response'']"

definition waits :: "component \<Rightarrow> wait list" where
  "waits c = waits_of (c_state c)"

definition next_seq :: "(u32 \<Rightarrow> u64 option) \<Rightarrow> u32 \<Rightarrow> u64" where
  "next_seq sequences channel = (case sequences channel of None \<Rightarrow> 0 | Some n \<Rightarrow> n)"

definition issue_effect ::
  "component \<Rightarrow> u32 \<Rightarrow> u32 \<Rightarrow> event_type \<Rightarrow> bytes \<Rightarrow> component \<times> effect" where
  "issue_effect c dst_actor channel_id event_type body =
     (let seq = next_seq (c_sequences c) channel_id in
      (c\<lparr>c_sequences := (c_sequences c)(channel_id \<mapsto> seq + 1)\<rparr>,
       \<lparr>ef_dst_actor = dst_actor, ef_channel_id = channel_id, ef_src_seq = seq,
        ef_event_type = event_type, ef_flags = FLAG_ATTEMPTED OR FLAG_CONFIRMED, ef_body = body\<rparr>))"

definition issue_status :: "component \<Rightarrow> bytes \<Rightarrow> component \<times> effect" where
  "issue_status c text = issue_effect c ACTOR_DIAGNOSTICS CH_STATUS EvStatus (status text)"

subsection \<open>Handlers\<close>

definition declined :: "component \<Rightarrow> decline \<Rightarrow> component \<times> outcome" where
  "declined c why = (c, default_outcome\<lparr>oc_consumed := Some (No why)\<rparr>)"

definition on_goal_command :: "component \<Rightarrow> input \<Rightarrow> component \<times> outcome" where
  "on_goal_command c inp =
     (if in_src_actor inp \<noteq> ACTOR_COMMAND then declined c (NotCommandEndpoint (in_src_actor inp))
      else if c_variant c = VNoop then (c, default_outcome\<lparr>oc_consumed := Some Yes\<rparr>)
      else if c_state c \<noteq> Idle then declined c GoalInFlight
      else case decode_message (in_body inp) of
        Inl e \<Rightarrow> declined c (UndecodedBody e)
      | Inr goal \<Rightarrow>
          (c\<lparr>c_state := AwaitClockForSend (in_ordinal inp) goal\<rparr>,
           default_outcome\<lparr>oc_callback := Some (in_ordinal inp), oc_consumed := Some Yes\<rparr>))"

fun clock_read :: "wait \<Rightarrow> (u64 \<times> u16) option" where
  "clock_read (ClockRead callback clock_id) = Some (callback, clock_id)"
| "clock_read (Future callback name) = None"

text \<open>The arm of \<open>on_clock\<close> for \<open>State::AwaitClockForSend\<close>.\<close>

definition submit_goal ::
  "hash_fn \<Rightarrow> component \<Rightarrow> clock \<Rightarrow> u64 \<Rightarrow> bytes \<Rightarrow> (component \<times> outcome) option" where
  "submit_goal h c clock callback goal =
     (let deadline_ns = (if c_variant c = VAlwaysCancel then None
                         else checked_add_i64 (ck_value_ns clock) GOAL_RESPONSE_DEADLINE_NS) in
      if c_variant c \<noteq> VAlwaysCancel \<and> deadline_ns = None then Some (declined c NoRoomForDeadline)
      else
        let gid = goal_id h (c_goals_issued c);
            c1 = c\<lparr>c_goals_issued := c_goals_issued c + 1\<rparr>;
            (c2, send) = issue_effect c1 ACTOR_ACTION_SERVER CH_ACTION_GOAL EvGoalSend
              (encode_goal_send \<lparr>gs_goal_id = gid, gs_goal = goal\<rparr>)
        in
        if c_variant c = VAlwaysCancel then
          let (c3, cancel) = issue_effect c2 ACTOR_ACTION_SERVER CH_ACTION_CANCEL EvCancelSend
                (encode_cancel_send \<lparr>cs_goal_id = gid, cs_stamp_ns = ck_value_ns clock\<rparr>)
          in Some (c3\<lparr>c_state := AwaitCancelResponse callback gid (ef_src_seq cancel) ''unconditional''\<rparr>,
               \<lparr>oc_consumed = Some Yes, oc_callback = Some callback, oc_effects = [send, cancel],
                oc_progress = [''goal_submitted'', ''cancel_requested'']\<rparr>)
        else case deadline_ns of
          None \<Rightarrow> None
        | Some deadline \<Rightarrow>
            Some (c2\<lparr>c_state := AwaitGoalResponse callback gid (ef_src_seq send) deadline\<rparr>,
              \<lparr>oc_consumed = Some Yes, oc_callback = Some callback, oc_effects = [send],
               oc_progress = [''goal_submitted'']\<rparr>))"

text \<open>The arm of \<open>on_clock\<close> for \<open>State::AwaitGoalResponse\<close>.\<close>

definition check_deadline ::
  "component \<Rightarrow> clock \<Rightarrow> u64 \<Rightarrow> id16 \<Rightarrow> i64 \<Rightarrow> component \<times> outcome" where
  "check_deadline c clock callback gid deadline_ns =
     (if sint (ck_value_ns clock) < sint deadline_ns
      then (c, default_outcome\<lparr>oc_callback := Some callback, oc_consumed := Some Yes\<rparr>)
      else if c_variant c = VFixed then
        let (c1, cancel) = issue_effect c ACTOR_ACTION_SERVER CH_ACTION_CANCEL EvCancelSend
              (encode_cancel_send \<lparr>cs_goal_id = gid, cs_stamp_ns = ck_value_ns clock\<rparr>)
        in (c1\<lparr>c_state :=
                AwaitCancelResponse callback gid (ef_src_seq cancel) ''goal response timeout''\<rparr>,
            \<lparr>oc_consumed = Some Yes, oc_callback = Some callback, oc_effects = [cancel],
             oc_progress = [''deadline_expired'', ''cancel_requested'']\<rparr>)
      else
        let (c1, report) = issue_status c (ascii ''goal response timed out; goal left pending'')
        in (c1\<lparr>c_state := Idle\<rparr>,
            \<lparr>oc_consumed = Some Yes, oc_callback = Some callback, oc_effects = [report],
             oc_progress = [''deadline_expired'']\<rparr>))"

definition on_clock :: "hash_fn \<Rightarrow> component \<Rightarrow> input \<Rightarrow> (component \<times> outcome) option" where
  "on_clock h c inp =
     (case decode_clock (in_body inp) of
        Inl e \<Rightarrow> Some (declined c (UndecodedBody e))
      | Inr clock \<Rightarrow>
          let pending = find_map clock_read (waits c) in
          if \<not> (pending = Some (ck_callback_ordinal clock, ck_clock_id clock) \<and>
                 in_src_actor inp = ACTOR_CLOCK)
          then Some (declined c (case pending of
              Some (callback, clock_id) \<Rightarrow>
                ClockMismatch (in_src_actor inp) (ck_clock_id clock) (ck_callback_ordinal clock)
                  clock_id callback
            | None \<Rightarrow> NoPendingRead (ck_callback_ordinal clock)))
          else case c_state c of
            AwaitClockForSend callback goal \<Rightarrow> submit_goal h c clock callback goal
          | AwaitGoalResponse callback gid send_seq deadline_ns \<Rightarrow>
              Some (check_deadline c clock callback gid deadline_ns)
          | _ \<Rightarrow> None)"

definition bound :: "input \<Rightarrow> u32 \<Rightarrow> u64 \<Rightarrow> bool" where
  "bound inp channel_id seq \<longleftrightarrow>
     in_src_actor inp = ACTOR_ACTION_SERVER \<and> in_request inp = Some (channel_id, seq)"

text \<open>What the three response handlers do once a response is bound: report and move on.\<close>

definition settled ::
  "component \<Rightarrow> u64 \<Rightarrow> string \<Rightarrow> bytes \<Rightarrow> cstate \<Rightarrow> component \<times> outcome" where
  "settled c callback progress text state =
     (let (c1, report) = issue_status c text
      in (c1\<lparr>c_state := state\<rparr>,
          \<lparr>oc_consumed = Some Yes, oc_callback = Some callback, oc_effects = [report],
           oc_progress = [progress]\<rparr>))"

definition refused :: "component \<Rightarrow> refusal \<Rightarrow> component \<times> outcome" where
  "refused c why = (c, default_outcome\<lparr>oc_consumed := Some (Refused why)\<rparr>)"

definition on_goal_response :: "component \<Rightarrow> input \<Rightarrow> component \<times> outcome" where
  "on_goal_response c inp =
     (case decode_goal_response (in_body inp) of
        Inl e \<Rightarrow> declined c (UndecodedBody e)
      | Inr response \<Rightarrow>
          (case c_state c of
             AwaitGoalResponse callback gid send_seq deadline_ns \<Rightarrow>
               if gid = gr_goal_id response \<and> bound inp CH_ACTION_GOAL send_seq
               then if gr_accepted response
                 then settled c callback ''goal_acknowledged'' (ascii ''goal accepted'')
                        (AwaitResult callback gid send_seq)
                 else settled c callback ''goal_acknowledged'' (ascii ''goal rejected'') Idle
               else declined c GoalResponseNotBound
           | AwaitCancelResponse callback gid cancel_seq cancel_reason \<Rightarrow>
               if gid = gr_goal_id response then refused c (GoalResponseAfterCancel cancel_reason)
               else declined c GoalResponseNotBound
           | _ \<Rightarrow> declined c GoalResponseNotBound))"

definition on_result :: "component \<Rightarrow> input \<Rightarrow> component \<times> outcome" where
  "on_result c inp =
     (case decode_goal_result (in_body inp) of
        Inl e \<Rightarrow> declined c (UndecodedBody e)
      | Inr result \<Rightarrow>
          (case c_state c of
             AwaitResult callback gid send_seq \<Rightarrow>
               if gid = rs_goal_id result \<and> bound inp CH_ACTION_GOAL send_seq
               then settled c callback ''goal_terminated''
                      (ascii (''goal finished with status '' @ show_word (rs_status result))) Idle
               else declined c ResultNotBound
           | AwaitCancelResponse callback gid cancel_seq cancel_reason \<Rightarrow>
               if gid = rs_goal_id result then refused c ResultAfterCancel
               else declined c ResultNotBound
           | _ \<Rightarrow> declined c ResultNotBound))"

definition on_cancel_response :: "component \<Rightarrow> input \<Rightarrow> component \<times> outcome" where
  "on_cancel_response c inp =
     (case decode_cancel_response (in_body inp) of
        Inl e \<Rightarrow> declined c (UndecodedBody e)
      | Inr response \<Rightarrow>
          (case c_state c of
             AwaitCancelResponse callback gid cancel_seq cancel_reason \<Rightarrow>
               if gid \<in> set (cr_goals response) \<and> bound inp CH_ACTION_CANCEL cancel_seq
               then settled c callback ''cancel_acknowledged'' (ascii ''cancel acknowledged'') Idle
               else declined c CancelResponseNotBound
           | _ \<Rightarrow> declined c CancelResponseNotBound))"

definition step :: "hash_fn \<Rightarrow> component \<Rightarrow> input \<Rightarrow> (component \<times> outcome) option" where
  "step h c inp =
     (let channel = in_channel_id inp; event = in_event_type inp in
      if in_dst_actor inp \<noteq> COMPONENT_ACTOR_ID
      then Some (declined c (NotAddressed (in_dst_actor inp)))
      else if channel = CH_GOAL_COMMAND \<and> event = EvMessage then Some (on_goal_command c inp)
      else if channel = CH_CLOCK \<and> event = EvClock then on_clock h c inp
      else if channel = CH_ACTION_RESPONSE \<and> event = EvGoalResponse
        then Some (on_goal_response c inp)
      else if channel = CH_ACTION_RESPONSE \<and> event = EvResult then Some (on_result c inp)
      else if channel = CH_ACTION_RESPONSE \<and> event = EvCancelResponse
        then Some (on_cancel_response c inp)
      else if event = EvStartingState then Some (c, default_outcome\<lparr>oc_consumed := Some Yes\<rparr>)
      else Some (declined c (NoHandler event channel)))"

section \<open>The protocol\<close>

text \<open>
  The abstract protocol of one step, for all variants: what may happen to an input, in terms of the
  goal and not of the dispatch.
\<close>

definition matching_clock :: "input \<Rightarrow> clock \<Rightarrow> u64 \<Rightarrow> bool" where
  "matching_clock inp clock callback \<longleftrightarrow>
     in_dst_actor inp = COMPONENT_ACTOR_ID \<and> in_channel_id inp = CH_CLOCK \<and>
     in_event_type inp = EvClock \<and> in_src_actor inp = ACTOR_CLOCK \<and>
     decode_clock (in_body inp) = Inr clock \<and>
     ck_callback_ordinal clock = callback \<and> ck_clock_id clock = CLOCK_ROS"

definition response_input :: "input \<Rightarrow> event_type \<Rightarrow> u32 \<Rightarrow> u64 \<Rightarrow> bool" where
  "response_input inp event channel seq \<longleftrightarrow>
     in_dst_actor inp = COMPONENT_ACTOR_ID \<and> in_channel_id inp = CH_ACTION_RESPONSE \<and>
     in_event_type inp = event \<and> bound inp channel seq"

text \<open>Which bound responses a waiting state takes, and the state and report they lead to.\<close>

inductive settles :: "cstate \<Rightarrow> input \<Rightarrow> u64 \<Rightarrow> string \<Rightarrow> bytes \<Rightarrow> cstate \<Rightarrow> bool" where
  accepted: "response_input inp EvGoalResponse CH_ACTION_GOAL seq \<Longrightarrow>
    decode_goal_response (in_body inp) = Inr r \<Longrightarrow> gr_goal_id r = gid \<Longrightarrow> gr_accepted r \<Longrightarrow>
    settles (AwaitGoalResponse callback gid seq deadline) inp callback ''goal_acknowledged''
      (ascii ''goal accepted'') (AwaitResult callback gid seq)"
| rejected: "response_input inp EvGoalResponse CH_ACTION_GOAL seq \<Longrightarrow>
    decode_goal_response (in_body inp) = Inr r \<Longrightarrow> gr_goal_id r = gid \<Longrightarrow> \<not> gr_accepted r \<Longrightarrow>
    settles (AwaitGoalResponse callback gid seq deadline) inp callback ''goal_acknowledged''
      (ascii ''goal rejected'') Idle"
| finished: "response_input inp EvResult CH_ACTION_GOAL seq \<Longrightarrow>
    decode_goal_result (in_body inp) = Inr s \<Longrightarrow> rs_goal_id s = gid \<Longrightarrow>
    settles (AwaitResult callback gid seq) inp callback ''goal_terminated''
      (ascii (''goal finished with status '' @ show_word (rs_status s))) Idle"
| cancelled: "response_input inp EvCancelResponse CH_ACTION_CANCEL seq \<Longrightarrow>
    decode_cancel_response (in_body inp) = Inr k \<Longrightarrow> gid \<in> set (cr_goals k) \<Longrightarrow>
    settles (AwaitCancelResponse callback gid seq reason) inp callback ''cancel_acknowledged''
      (ascii ''cancel acknowledged'') Idle"

definition send_of :: "hash_fn \<Rightarrow> component \<Rightarrow> bytes \<Rightarrow> component \<times> effect" where
  "send_of h c goal =
     issue_effect (c\<lparr>c_goals_issued := c_goals_issued c + 1\<rparr>) ACTOR_ACTION_SERVER CH_ACTION_GOAL
       EvGoalSend (encode_goal_send \<lparr>gs_goal_id = goal_id h (c_goals_issued c), gs_goal = goal\<rparr>)"

definition cancel_of :: "component \<Rightarrow> id16 \<Rightarrow> i64 \<Rightarrow> component \<times> effect" where
  "cancel_of c gid stamp =
     issue_effect c ACTOR_ACTION_SERVER CH_ACTION_CANCEL EvCancelSend
       (encode_cancel_send \<lparr>cs_goal_id = gid, cs_stamp_ns = stamp\<rparr>)"

inductive client_step :: "hash_fn \<Rightarrow> component \<Rightarrow> input \<Rightarrow> outcome \<Rightarrow> component \<Rightarrow> bool" for h where
  stay: "oc_effects out = [] \<Longrightarrow> oc_progress out = [] \<Longrightarrow> oc_consumed out \<noteq> None \<Longrightarrow>
    client_step h c inp out c"
| start: "c_state c = Idle \<Longrightarrow> c_variant c \<noteq> VNoop \<Longrightarrow> decode_message (in_body inp) = Inr goal \<Longrightarrow>
    client_step h c inp
      \<lparr>oc_consumed = Some Yes, oc_callback = Some (in_ordinal inp), oc_effects = [], oc_progress = []\<rparr>
      (c\<lparr>c_state := AwaitClockForSend (in_ordinal inp) goal\<rparr>)"
| submit: "c_state c = AwaitClockForSend callback goal \<Longrightarrow> c_variant c \<noteq> VAlwaysCancel \<Longrightarrow>
    matching_clock inp clock callback \<Longrightarrow>
    checked_add_i64 (ck_value_ns clock) GOAL_RESPONSE_DEADLINE_NS = Some deadline \<Longrightarrow>
    send_of h c goal = (c1, send) \<Longrightarrow>
    client_step h c inp
      \<lparr>oc_consumed = Some Yes, oc_callback = Some callback, oc_effects = [send],
       oc_progress = [''goal_submitted'']\<rparr>
      (c1\<lparr>c_state := AwaitGoalResponse callback (goal_id h (c_goals_issued c)) (ef_src_seq send) deadline\<rparr>)"
| submit_cancel: "c_state c = AwaitClockForSend callback goal \<Longrightarrow> c_variant c = VAlwaysCancel \<Longrightarrow>
    matching_clock inp clock callback \<Longrightarrow> send_of h c goal = (c1, send) \<Longrightarrow>
    cancel_of c1 (goal_id h (c_goals_issued c)) (ck_value_ns clock) = (c2, cancel) \<Longrightarrow>
    client_step h c inp
      \<lparr>oc_consumed = Some Yes, oc_callback = Some callback, oc_effects = [send, cancel],
       oc_progress = [''goal_submitted'', ''cancel_requested'']\<rparr>
      (c2\<lparr>c_state := AwaitCancelResponse callback (goal_id h (c_goals_issued c)) (ef_src_seq cancel)
            ''unconditional''\<rparr>)"
| expire_cancel: "c_state c = AwaitGoalResponse callback gid seq deadline \<Longrightarrow> c_variant c = VFixed \<Longrightarrow>
    matching_clock inp clock callback \<Longrightarrow> sint deadline \<le> sint (ck_value_ns clock) \<Longrightarrow>
    cancel_of c gid (ck_value_ns clock) = (c1, cancel) \<Longrightarrow>
    client_step h c inp
      \<lparr>oc_consumed = Some Yes, oc_callback = Some callback, oc_effects = [cancel],
       oc_progress = [''deadline_expired'', ''cancel_requested'']\<rparr>
      (c1\<lparr>c_state := AwaitCancelResponse callback gid (ef_src_seq cancel) ''goal response timeout''\<rparr>)"
| expire_report: "c_state c = AwaitGoalResponse callback gid seq deadline \<Longrightarrow> c_variant c \<noteq> VFixed \<Longrightarrow>
    matching_clock inp clock callback \<Longrightarrow> sint deadline \<le> sint (ck_value_ns clock) \<Longrightarrow>
    issue_status c (ascii ''goal response timed out; goal left pending'') = (c1, report) \<Longrightarrow>
    client_step h c inp
      \<lparr>oc_consumed = Some Yes, oc_callback = Some callback, oc_effects = [report],
       oc_progress = [''deadline_expired'']\<rparr>
      (c1\<lparr>c_state := Idle\<rparr>)"
| settle: "settles (c_state c) inp callback progress text next \<Longrightarrow>
    issue_status c text = (c1, report) \<Longrightarrow>
    client_step h c inp
      \<lparr>oc_consumed = Some Yes, oc_callback = Some callback, oc_effects = [report],
       oc_progress = [progress]\<rparr>
      (c1\<lparr>c_state := next\<rparr>)"

lemma stay_default [intro]: "client_step h c inp (default_outcome\<lparr>oc_consumed := Some x\<rparr>) c"
  by (rule stay) (simp_all add: default_outcome_def)

lemma stay_declined [intro]: "declined c why = (c', out) \<Longrightarrow> client_step h c inp out c'"
  by (auto simp: declined_def)

lemma stay_refused [intro]: "refused c why = (c', out) \<Longrightarrow> client_step h c inp out c'"
  by (auto simp: refused_def)

lemma pending_read:
  "find_map clock_read (waits c) = Some (callback, clock_id) \<longleftrightarrow>
     clock_id = CLOCK_ROS \<and>
     ((\<exists>goal. c_state c = AwaitClockForSend callback goal) \<or>
      (\<exists>gid seq deadline. c_state c = AwaitGoalResponse callback gid seq deadline))"
  by (cases "c_state c") (auto simp: waits_def)

lemma on_clock_step:
  assumes "in_dst_actor inp = COMPONENT_ACTOR_ID" "in_channel_id inp = CH_CLOCK" "in_event_type inp = EvClock"
  shows "\<exists>c' out. on_clock h c inp = Some (c', out) \<and> client_step h c inp out c'"
proof (cases "decode_clock (in_body inp)")
  case (Inl e)
  then show ?thesis by (auto simp: on_clock_def declined_def)
next
  case (Inr clock)
  show ?thesis
  proof (cases "find_map clock_read (waits c) = Some (ck_callback_ordinal clock, ck_clock_id clock) \<and>
      in_src_actor inp = ACTOR_CLOCK")
    case False
    then show ?thesis by (auto simp: on_clock_def Inr declined_def Let_def)
  next
    case True
    then have m: "matching_clock inp clock (ck_callback_ordinal clock)"
      using assms Inr by (simp add: matching_clock_def pending_read)
    from True consider goal where "c_state c = AwaitClockForSend (ck_callback_ordinal clock) goal"
      | gid seq deadline where "c_state c = AwaitGoalResponse (ck_callback_ordinal clock) gid seq deadline"
      by (auto simp: pending_read)
    then show ?thesis
    proof cases
      case st: 1
      have eq: "on_clock h c inp = submit_goal h c clock (ck_callback_ordinal clock) goal"
        using True by (simp add: on_clock_def Inr st)
      obtain c1 send where send: "send_of h c goal = (c1, send)" by force
      obtain c2 cancel where
        cancel: "cancel_of c1 (goal_id h (c_goals_issued c)) (ck_value_ns clock) = (c2, cancel)" by force
      show ?thesis
      proof (cases "c_variant c = VAlwaysCancel")
        case True
        have "on_clock h c inp = Some (c2\<lparr>c_state := AwaitCancelResponse (ck_callback_ordinal clock)
            (goal_id h (c_goals_issued c)) (ef_src_seq cancel) ''unconditional''\<rparr>,
            \<lparr>oc_consumed = Some Yes, oc_callback = Some (ck_callback_ordinal clock),
             oc_effects = [send, cancel], oc_progress = [''goal_submitted'', ''cancel_requested'']\<rparr>)"
          using send cancel True by (simp add: eq submit_goal_def send_of_def cancel_of_def Let_def)
        with submit_cancel [OF st True m send cancel] show ?thesis by blast
      next
        case False
        show ?thesis
        proof (cases "checked_add_i64 (ck_value_ns clock) GOAL_RESPONSE_DEADLINE_NS")
          case None
          with False show ?thesis by (auto simp: eq submit_goal_def declined_def)
        next
          case (Some deadline)
          have "on_clock h c inp = Some (c1\<lparr>c_state := AwaitGoalResponse (ck_callback_ordinal clock)
              (goal_id h (c_goals_issued c)) (ef_src_seq send) deadline\<rparr>,
              \<lparr>oc_consumed = Some Yes, oc_callback = Some (ck_callback_ordinal clock),
               oc_effects = [send], oc_progress = [''goal_submitted'']\<rparr>)"
            using send False Some by (simp add: eq submit_goal_def send_of_def Let_def)
          with submit [OF st False m Some send] show ?thesis by blast
        qed
      qed
    next
      case st: 2
      have eq: "on_clock h c inp = Some (check_deadline c clock (ck_callback_ordinal clock) gid deadline)"
        using True by (simp add: on_clock_def Inr st)
      show ?thesis
      proof (cases "sint deadline \<le> sint (ck_value_ns clock)")
        case False
        then show ?thesis
          unfolding eq by (auto simp: check_deadline_def default_outcome_def intro: stay)
      next
        case late: True
        obtain c1 cancel where cancel: "cancel_of c gid (ck_value_ns clock) = (c1, cancel)" by force
        obtain c2 report where
          report: "issue_status c (ascii ''goal response timed out; goal left pending'') = (c2, report)"
          by force
        show ?thesis
        proof (cases "c_variant c = VFixed")
          case True
          with late cancel expire_cancel [OF st True m late cancel] show ?thesis
            unfolding eq by (auto simp: check_deadline_def cancel_of_def Let_def)
        next
          case False
          with late report expire_report [OF st False m late report] show ?thesis
            unfolding eq by (auto simp: check_deadline_def Let_def)
        qed
      qed
    qed
  qed
qed

lemma settled_step:
  assumes "settles st inp callback progress text next" and "c_state c = st"
    and "settled c callback progress text next = (c', out)"
  shows "client_step h c inp out c'"
proof -
  obtain c1 report where i: "issue_status c text = (c1, report)" by force
  from settle [OF assms(1) [folded assms(2)] i] assms(3) i show ?thesis by (auto simp: settled_def)
qed

lemma on_goal_command_step:
  "on_goal_command c inp = (c', out) \<Longrightarrow> client_step h c inp out c'"
  using start [of c inp _ h]
  by (auto simp: on_goal_command_def default_outcome_def split: if_splits sum.splits intro: stay)

lemma on_goal_response_step:
  assumes "in_dst_actor inp = COMPONENT_ACTOR_ID" "in_channel_id inp = CH_ACTION_RESPONSE"
    "in_event_type inp = EvGoalResponse" and "on_goal_response c inp = (c', out)"
  shows "client_step h c inp out c'"
proof (cases "decode_goal_response (in_body inp)")
  case (Inr r)
  with assms show ?thesis
    by (auto simp: on_goal_response_def response_input_def split: cstate.splits if_splits
        intro: settled_step [OF accepted] settled_step [OF rejected])
qed (use assms in \<open>auto simp: on_goal_response_def\<close>)

lemma on_result_step:
  assumes "in_dst_actor inp = COMPONENT_ACTOR_ID" "in_channel_id inp = CH_ACTION_RESPONSE"
    "in_event_type inp = EvResult" and "on_result c inp = (c', out)"
  shows "client_step h c inp out c'"
proof (cases "decode_goal_result (in_body inp)")
  case (Inr r)
  with assms show ?thesis
    by (auto simp: on_result_def response_input_def split: cstate.splits if_splits
        intro: settled_step [OF finished])
qed (use assms in \<open>auto simp: on_result_def\<close>)

lemma on_cancel_response_step:
  assumes "in_dst_actor inp = COMPONENT_ACTOR_ID" "in_channel_id inp = CH_ACTION_RESPONSE"
    "in_event_type inp = EvCancelResponse" and "on_cancel_response c inp = (c', out)"
  shows "client_step h c inp out c'"
proof (cases "decode_cancel_response (in_body inp)")
  case (Inr r)
  with assms show ?thesis
    by (auto simp: on_cancel_response_def response_input_def split: cstate.splits if_splits
        intro: settled_step [OF cancelled])
qed (use assms in \<open>auto simp: on_cancel_response_def\<close>)

text \<open>The dispatch refines the protocol, and no input makes it panic.\<close>

lemma step_client_step: "\<exists>c' out. step h c inp = Some (c', out) \<and> client_step h c inp out c'"
proof (cases "in_dst_actor inp = COMPONENT_ACTOR_ID")
  case True
  consider "in_channel_id inp = CH_GOAL_COMMAND" "in_event_type inp = EvMessage"
    | "in_channel_id inp = CH_CLOCK" "in_event_type inp = EvClock"
    | "in_channel_id inp = CH_ACTION_RESPONSE" "in_event_type inp = EvGoalResponse"
    | "in_channel_id inp = CH_ACTION_RESPONSE" "in_event_type inp = EvResult"
    | "in_channel_id inp = CH_ACTION_RESPONSE" "in_event_type inp = EvCancelResponse"
    | (none) "\<not> (in_channel_id inp = CH_GOAL_COMMAND \<and> in_event_type inp = EvMessage)"
      "\<not> (in_channel_id inp = CH_CLOCK \<and> in_event_type inp = EvClock)"
      "\<not> (in_channel_id inp = CH_ACTION_RESPONSE \<and>
          in_event_type inp \<in> {EvGoalResponse, EvResult, EvCancelResponse})"
    by blast
  then show ?thesis
  proof cases
    case 1
    then show ?thesis
      using True on_goal_command_step [of c inp] by (cases "on_goal_command c inp") (auto simp: step_def)
  next
    case 2
    then show ?thesis using True on_clock_step [OF True 2] by (auto simp: step_def)
  next
    case 3
    then show ?thesis
      using True on_goal_response_step [OF True 3] by (cases "on_goal_response c inp") (auto simp: step_def)
  next
    case 4
    then show ?thesis
      using True on_result_step [OF True 4] by (cases "on_result c inp") (auto simp: step_def)
  next
    case 5
    then show ?thesis
      using True on_cancel_response_step [OF True 5]
      by (cases "on_cancel_response c inp") (auto simp: step_def)
  next
    case none
    then have "step h c inp = Some (if in_event_type inp = EvStartingState
        then (c, default_outcome\<lparr>oc_consumed := Some Yes\<rparr>)
        else declined c (NoHandler (in_event_type inp) (in_channel_id inp)))"
      using True by (auto simp: step_def)
    then show ?thesis by (auto simp: declined_def)
  qed
qed (auto simp: step_def declined_def)

lemma stepE:
  assumes "step h c inp = Some (c', out)"
  shows "client_step h c inp out c'"
  using step_client_step [of h c inp] assms by auto

subsection \<open>Runs\<close>

type_synonym client_trace = "(input \<times> outcome) list"

inductive client_run :: "hash_fn \<Rightarrow> variant \<Rightarrow> component \<Rightarrow> client_trace \<Rightarrow> bool" for h v where
  begin_run: "client_run h v (new_component v) []"
| next_input: "client_run h v c tr \<Longrightarrow> step h c inp = Some (c', out) \<Longrightarrow>
    client_run h v c' (tr @ [(inp, out)])"

definition effects_of :: "client_trace \<Rightarrow> effect list" where
  "effects_of tr = concat (map (oc_effects \<circ> snd) tr)"

lemma effects_of_simps [simp]:
  "effects_of [] = []"
  "effects_of (tr @ [(inp, out)]) = effects_of tr @ oc_effects out"
  by (simp_all add: effects_of_def)

lemma run_for_inputs: "\<exists>c tr. client_run h v c tr \<and> map fst tr = inputs"
proof (induction inputs rule: rev_induct)
  case Nil
  then show ?case using begin_run by fastforce
next
  case (snoc inp inputs)
  then obtain c tr where run: "client_run h v c tr" "map fst tr = inputs" by blast
  from step_client_step [of h c inp] obtain c' out where "step h c inp = Some (c', out)" by blast
  from next_input [OF run(1) this] run(2) show ?case by fastforce
qed

subsection \<open>Issuing effects\<close>

lemma issue_effect_fields:
  assumes "issue_effect c dst ch ty body = (c', e)"
  shows "c_state c' = c_state c" "c_variant c' = c_variant c" "c_goals_issued c' = c_goals_issued c"
    "ef_dst_actor e = dst" "ef_channel_id e = ch" "ef_event_type e = ty" "ef_body e = body"
    "ef_flags e = FLAG_ATTEMPTED OR FLAG_CONFIRMED"
    "ef_src_seq e = next_seq (c_sequences c) ch"
    "c_sequences c' = (c_sequences c)(ch \<mapsto> ef_src_seq e + 1)"
  using assms by (auto simp: issue_effect_def Let_def)

lemma issue_status_fields:
  assumes "issue_status c text = (c', e)"
  shows "c_state c' = c_state c" "c_variant c' = c_variant c" "c_goals_issued c' = c_goals_issued c"
    "ef_channel_id e = CH_STATUS" "ef_event_type e = EvStatus"
  using issue_effect_fields [OF assms [unfolded issue_status_def]] by simp_all

lemma send_of_fields:
  assumes "send_of h c goal = (c', e)"
  shows "c_state c' = c_state c" "c_variant c' = c_variant c" "c_goals_issued c' = c_goals_issued c + 1"
    "ef_channel_id e = CH_ACTION_GOAL" "ef_event_type e = EvGoalSend"
    "decode_goal_send (ef_body e) = Inr \<lparr>gs_goal_id = goal_id h (c_goals_issued c), gs_goal = goal\<rparr>"
  using issue_effect_fields [OF assms [unfolded send_of_def]] by (simp_all add: goal_send_codec.dec_enc)

lemma cancel_of_fields:
  assumes "cancel_of c gid stamp = (c', e)"
  shows "c_state c' = c_state c" "c_variant c' = c_variant c" "c_goals_issued c' = c_goals_issued c"
    "ef_channel_id e = CH_ACTION_CANCEL" "ef_event_type e = EvCancelSend"
    "decode_cancel_send (ef_body e) = Inr \<lparr>cs_goal_id = gid, cs_stamp_ns = stamp\<rparr>"
  using issue_effect_fields [OF assms [unfolded cancel_of_def]] by (simp_all add: cancel_send_codec.dec_enc)

lemmas issue_fields = issue_status_fields send_of_fields cancel_of_fields

definition count_on :: "u32 \<Rightarrow> effect list \<Rightarrow> nat" where
  "count_on ch es = length (filter (\<lambda>e. ef_channel_id e = ch) es)"

definition numbered :: "effect list \<Rightarrow> bool" where
  "numbered es \<longleftrightarrow>
     (\<forall>i < length es. ef_src_seq (es ! i) = word_of_nat (count_on (ef_channel_id (es ! i)) (take i es)))"

definition in_sequence :: "component \<Rightarrow> effect list \<Rightarrow> bool" where
  "in_sequence c es \<longleftrightarrow>
     numbered es \<and> (\<forall>ch. next_seq (c_sequences c) ch = word_of_nat (count_on ch es))"

lemma numbered_snoc:
  "numbered (es @ [e]) \<longleftrightarrow> numbered es \<and> ef_src_seq e = word_of_nat (count_on (ef_channel_id e) es)"
  by (auto simp: numbered_def nth_append less_Suc_eq)

lemma in_sequence_state [simp]:
  "in_sequence (c\<lparr>c_state := s\<rparr>) es = in_sequence c es"
  "in_sequence (c\<lparr>c_goals_issued := n\<rparr>) es = in_sequence c es"
  by (simp_all add: in_sequence_def)

lemma in_sequence_issue:
  assumes "in_sequence c es" and "issue_effect c dst ch ty body = (c', e)"
  shows "in_sequence c' (es @ [e])"
  using assms(1) issue_effect_fields [OF assms(2)]
  by (auto simp: in_sequence_def numbered_snoc next_seq_def count_on_def)

lemma in_sequence_issues:
  "in_sequence c es \<Longrightarrow> issue_status c text = (c', e) \<Longrightarrow> in_sequence c' (es @ [e])"
  "in_sequence c es \<Longrightarrow> cancel_of c gid stamp = (c', e) \<Longrightarrow> in_sequence c' (es @ [e])"
  "in_sequence c es \<Longrightarrow> send_of h c goal = (c', e) \<Longrightarrow> in_sequence c' (es @ [e])"
  unfolding issue_status_def cancel_of_def send_of_def
  by (erule (1) in_sequence_issue, erule (1) in_sequence_issue)
    (rule in_sequence_issue [rotated], assumption, simp)

lemma in_sequence_step:
  assumes "client_step h c inp out c'" and "in_sequence c es"
  shows "in_sequence c' (es @ oc_effects out)"
  using assms
proof cases
  case (submit_cancel callback goal clock c1 send c2 cancel)
  then have "in_sequence c2 ((es @ [send]) @ [cancel])"
    using assms(2) by (blast intro: in_sequence_issues)
  with submit_cancel show ?thesis by simp
qed (auto intro: in_sequence_issues)

lemma in_sequence_run: "client_run h v c tr \<Longrightarrow> in_sequence c (effects_of tr)"
proof (induction rule: client_run.induct)
  case begin_run
  then show ?case
    by (simp add: in_sequence_def numbered_def new_component_def next_seq_def count_on_def)
next
  case (next_input c tr inp c' out)
  then show ?case by (auto intro: in_sequence_step dest: stepE)
qed

subsection \<open>Variants\<close>

lemma client_step_variant: "client_step h c inp out c' \<Longrightarrow> c_variant c' = c_variant c"
  by (induction rule: client_step.induct) (auto simp: issue_fields)

lemma client_run_variant: "client_run h v c tr \<Longrightarrow> c_variant c = v"
  by (induction rule: client_run.induct) (auto simp: new_component_def dest!: stepE client_step_variant)

text \<open>What one step of each variant emits.\<close>

lemma step_effects:
  assumes "client_step h c inp out c'" and "c_variant c = v"
  shows "v = VNoop \<Longrightarrow> c_state c = Idle \<Longrightarrow> c' = c \<and> oc_effects out = []"
    and "v = VOld \<Longrightarrow> e \<in> set (oc_effects out) \<Longrightarrow> ef_event_type e \<noteq> EvCancelSend"
    and "v = VAlwaysCancel \<Longrightarrow> s \<in> set (oc_effects out) \<Longrightarrow> ef_event_type s = EvGoalSend \<Longrightarrow>
      \<exists>k g d. oc_effects out = [s, k] \<and> ef_event_type k = EvCancelSend \<and>
        decode_goal_send (ef_body s) = Inr g \<and> decode_cancel_send (ef_body k) = Inr d \<and>
        cs_goal_id d = gs_goal_id g"
  using assms
  by (induction rule: client_step.induct) (auto simp: issue_fields elim: settles.cases)

lemma noop_run: "client_run h VNoop c tr \<Longrightarrow> c_state c = Idle \<and> effects_of tr = []"
proof (induction rule: client_run.induct)
  case (next_input c tr inp c' out)
  then show ?case
    using step_effects(1) [OF stepE [OF next_input.hyps(2)] client_run_variant [OF next_input.hyps(1)]]
    by simp
qed (simp add: new_component_def)

lemma run_steps:
  assumes "client_run h v c tr" and "(inp, out) \<in> set tr"
  shows "\<exists>c0 c1. c_variant c0 = v \<and> client_step h c0 inp out c1"
  using assms
proof (induction rule: client_run.induct)
  case (next_input c tr inp' c' out')
  then show ?case
    using client_run_variant [OF next_input.hyps(1)] stepE [OF next_input.hyps(2)] by auto
qed simp

subsection \<open>Goal identities\<close>

definition goal_sends :: "effect list \<Rightarrow> effect list" where
  "goal_sends es = filter (\<lambda>e. ef_event_type e = EvGoalSend) es"

lemma goal_sends_simps [simp]:
  "goal_sends [] = []"
  "goal_sends (es @ fs) = goal_sends es @ goal_sends fs"
  "goal_sends (e # es) = (if ef_event_type e = EvGoalSend then e # goal_sends es else goal_sends es)"
  by (simp_all add: goal_sends_def)

definition sent_goal_id :: "effect \<Rightarrow> id16 option" where
  "sent_goal_id e =
     (case decode_goal_send (ef_body e) of Inl _ \<Rightarrow> None | Inr g \<Rightarrow> Some (gs_goal_id g))"

definition ids_issued :: "hash_fn \<Rightarrow> component \<Rightarrow> effect list \<Rightarrow> bool" where
  "ids_issued h c es \<longleftrightarrow>
     c_goals_issued c = word_of_nat (length (goal_sends es)) \<and>
     map sent_goal_id (goal_sends es) =
       map (\<lambda>i. Some (goal_id h (word_of_nat i))) [0..<length (goal_sends es)]"

lemma ids_issued_step:
  assumes "client_step h c inp out c'" and "ids_issued h c es"
  shows "ids_issued h c' (es @ oc_effects out)"
  using assms
  by (induction rule: client_step.induct) (auto simp: ids_issued_def issue_fields sent_goal_id_def)

lemma ids_issued_run: "client_run h v c tr \<Longrightarrow> ids_issued h c (effects_of tr)"
proof (induction rule: client_run.induct)
  case begin_run
  then show ?case by (simp add: ids_issued_def new_component_def)
next
  case (next_input c tr inp c' out)
  then show ?case by (auto intro: ids_issued_step dest: stepE)
qed

subsection \<open>The open goal\<close>

text \<open>
  The goal sent and not yet acknowledged or timed out, with the clock value it was sent at, read off
  the trace alone.
\<close>

definition track_goal :: "input \<times> outcome \<Rightarrow> (id16 \<times> i64) option \<Rightarrow> (id16 \<times> i64) option" where
  "track_goal turn cur =
     (case goal_sends (oc_effects (snd turn)) of
        e # _ \<Rightarrow>
          (case (sent_goal_id e, decode_clock (in_body (fst turn))) of
             (Some gid, Inr clock) \<Rightarrow> Some (gid, ck_value_ns clock) | _ \<Rightarrow> None)
      | [] \<Rightarrow>
          if ''goal_acknowledged'' \<in> set (oc_progress (snd turn)) \<or>
             ''deadline_expired'' \<in> set (oc_progress (snd turn))
          then None else cur)"

definition open_goal :: "client_trace \<Rightarrow> (id16 \<times> i64) option" where
  "open_goal tr = fold track_goal tr None"

lemma open_goal_simps [simp]:
  "open_goal [] = None"
  "open_goal (tr @ [x]) = track_goal x (open_goal tr)"
  by (simp_all add: open_goal_def)

definition deadline_after :: "i64 \<Rightarrow> i64 \<Rightarrow> bool" where
  "deadline_after sent deadline \<longleftrightarrow> sint deadline = sint sent + 1000000000"

fun awaits_goal :: "cstate \<Rightarrow> (id16 \<times> i64) option \<Rightarrow> bool" where
  "awaits_goal (AwaitGoalResponse callback gid seq deadline) cur =
     (\<exists>sent. cur = Some (gid, sent) \<and> deadline_after sent deadline)"
| "awaits_goal _ cur = (cur = None)"

lemma deadline_after_add:
  "checked_add_i64 t GOAL_RESPONSE_DEADLINE_NS = Some d \<Longrightarrow> deadline_after t d"
  by (drule checked_add_i64_sint) (simp add: deadline_after_def GOAL_RESPONSE_DEADLINE_NS_def)

lemma awaits_goal_step:
  assumes "client_step h c inp out c'" and "awaits_goal (c_state c) cur" and "c_variant c \<noteq> VAlwaysCancel"
  shows "awaits_goal (c_state c') (track_goal (inp, out) cur)"
  using assms
proof (induction rule: client_step.induct)
  case (submit c callback goal inp clock deadline c1 send)
  then show ?case
    by (auto simp: track_goal_def issue_fields sent_goal_id_def matching_clock_def deadline_after_add)
next
  case (settle c inp callback progress words nxt c1 report)
  from settle.hyps(1) settle.prems show ?case
    by cases (simp_all add: track_goal_def issue_status_fields [OF settle.hyps(2)])
qed (auto simp: track_goal_def issue_fields)

lemma awaits_goal_run:
  "client_run h v c tr \<Longrightarrow> v \<noteq> VAlwaysCancel \<Longrightarrow> awaits_goal (c_state c) (open_goal tr)"
proof (induction rule: client_run.induct)
  case begin_run
  then show ?case by (simp add: new_component_def)
next
  case (next_input c tr inp c' out)
  then show ?case
    using awaits_goal_step [OF stepE] client_run_variant [OF next_input.hyps(1)] by auto
qed

text \<open>An observation that finds the deadline of the pending goal passed.\<close>

definition deadline_passed :: "component \<Rightarrow> input \<Rightarrow> clock \<Rightarrow> bool" where
  "deadline_passed c inp clock \<longleftrightarrow>
     (\<exists>callback gid seq deadline. c_state c = AwaitGoalResponse callback gid seq deadline \<and>
        matching_clock inp clock callback \<and> sint deadline \<le> sint (ck_value_ns clock))"

lemma step_deadline:
  assumes "c_state c = AwaitGoalResponse callback gid seq deadline" and "matching_clock inp clock callback"
  shows "step h c inp = Some (check_deadline c clock callback gid deadline)"
  using assms by (auto simp: step_def Let_def on_clock_def matching_clock_def waits_def)

lemma fixed_cancel_step:
  assumes "step h c inp = Some (c', out)" and "c_variant c = VFixed"
  shows "(\<exists>e\<in>set (oc_effects out). ef_event_type e = EvCancelSend) \<longleftrightarrow> (\<exists>clock. deadline_passed c inp clock)"
proof
  assume "\<exists>e\<in>set (oc_effects out). ef_event_type e = EvCancelSend"
  with stepE [OF assms(1)] assms(2) show "\<exists>clock. deadline_passed c inp clock"
    by cases (auto simp: issue_fields deadline_passed_def)
next
  assume "\<exists>clock. deadline_passed c inp clock"
  then obtain clock callback gid seq deadline where
    st: "c_state c = AwaitGoalResponse callback gid seq deadline" "matching_clock inp clock callback"
    and late: "sint deadline \<le> sint (ck_value_ns clock)" by (auto simp: deadline_passed_def)
  have "step h c inp = Some (check_deadline c clock callback gid deadline)" by (rule step_deadline [OF st])
  with assms late obtain c1 where "cancel_of c gid (ck_value_ns clock) = (c1, hd (oc_effects out))"
    and "oc_effects out \<noteq> []"
    by (auto simp: check_deadline_def cancel_of_def Let_def split: prod.splits)
  then show "\<exists>e\<in>set (oc_effects out). ef_event_type e = EvCancelSend"
    using cancel_of_fields(5) hd_in_set by blast
qed

subsection \<open>Old and fixed\<close>

definition as_old :: "component \<Rightarrow> component" where
  "as_old c = c\<lparr>c_variant := VOld\<rparr>"

lemma as_old_simps [simp]:
  "c_variant (as_old c) = VOld" "c_state (as_old c) = c_state c"
  "c_goals_issued (as_old c) = c_goals_issued c" "c_sequences (as_old c) = c_sequences c"
  "(as_old c)\<lparr>c_state := s\<rparr> = as_old (c\<lparr>c_state := s\<rparr>)"
  "(as_old c)\<lparr>c_goals_issued := n\<rparr> = as_old (c\<lparr>c_goals_issued := n\<rparr>)"
  "(as_old c)\<lparr>c_sequences := q\<rparr> = as_old (c\<lparr>c_sequences := q\<rparr>)"
  by (simp_all add: as_old_def)

lemma as_old_issue:
  "issue_effect (as_old c) dst ch ty body = map_prod as_old id (issue_effect c dst ch ty body)"
  by (simp add: issue_effect_def Let_def)

lemma as_old_handlers:
  "declined (as_old c) why = map_prod as_old id (declined c why)"
  "refused (as_old c) r = map_prod as_old id (refused c r)"
  "settled (as_old c) callback progress text st = map_prod as_old id (settled c callback progress text st)"
  "waits (as_old c) = waits c"
  by (auto simp: declined_def refused_def settled_def issue_status_def as_old_issue waits_def
      split: prod.splits)

lemma as_old_step:
  assumes "c_variant c = VFixed" and "\<nexists>clock. deadline_passed c inp clock"
  shows "step h (as_old c) inp = map_option (map_prod as_old id) (step h c inp)"
proof -
  have "on_goal_command (as_old c) inp = map_prod as_old id (on_goal_command c inp)"
    using assms(1) by (auto simp: on_goal_command_def as_old_handlers split: sum.splits)
  moreover have "on_goal_response (as_old c) inp = map_prod as_old id (on_goal_response c inp)"
    "on_result (as_old c) inp = map_prod as_old id (on_result c inp)"
    "on_cancel_response (as_old c) inp = map_prod as_old id (on_cancel_response c inp)"
    by (auto simp: on_goal_response_def on_result_def on_cancel_response_def as_old_handlers
        split: sum.splits cstate.splits)
  moreover have "on_clock h (as_old c) inp = map_option (map_prod as_old id) (on_clock h c inp)"
    if "in_dst_actor inp = COMPONENT_ACTOR_ID" "in_channel_id inp = CH_CLOCK" "in_event_type inp = EvClock"
  proof -
    have "submit_goal h (as_old c) clock callback goal =
        map_option (map_prod as_old id) (submit_goal h c clock callback goal)" for clock callback goal
      using assms(1)
      by (auto simp: submit_goal_def Let_def as_old_issue as_old_handlers split: prod.splits option.splits)
    moreover have "check_deadline (as_old c) clock callback gid deadline =
        map_prod as_old id (check_deadline c clock callback gid deadline)"
      if "sint (ck_value_ns clock) < sint deadline" for clock callback gid deadline
      using that by (simp add: check_deadline_def)
    ultimately show ?thesis
      using assms(2) that
      by (auto simp: on_clock_def Let_def as_old_handlers deadline_passed_def matching_clock_def
          pending_read not_le split: sum.splits cstate.splits)
  qed
  ultimately show ?thesis
    by (auto simp: step_def Let_def as_old_handlers)
qed

definition may_settle :: "cstate \<Rightarrow> input \<Rightarrow> bool" where
  "may_settle st inp \<longleftrightarrow> (\<exists>callback progress words nxt. settles st inp callback progress words nxt)"

lemma may_settleI: "settles st inp callback progress words nxt \<Longrightarrow> may_settle st inp"
  by (auto simp: may_settle_def)

lemma step_response:
  assumes "step h c inp = Some (c', out)"
    and "in_event_type inp \<in> {EvGoalResponse, EvResult, EvCancelResponse}"
  shows "oc_consumed out = Some Yes \<longleftrightarrow> may_settle (c_state c) inp"
proof
  assume "oc_consumed out = Some Yes"
  with assms have dst: "in_dst_actor inp = COMPONENT_ACTOR_ID" "in_channel_id inp = CH_ACTION_RESPONSE"
    by (auto simp: step_def declined_def default_outcome_def Let_def split: if_splits)
  consider "in_event_type inp = EvGoalResponse" | "in_event_type inp = EvResult" | "in_event_type inp = EvCancelResponse"
    using assms(2) by blast
  then show "may_settle (c_state c) inp"
  proof cases
    case 1
    with assms dst have "on_goal_response c inp = (c', out)" by (simp add: step_def)
    with \<open>oc_consumed out = Some Yes\<close> 1 dst show ?thesis
      by (auto simp: on_goal_response_def declined_def refused_def default_outcome_def response_input_def
          split: sum.splits cstate.splits if_splits intro: may_settleI [OF accepted] may_settleI [OF rejected])
  next
    case 2
    with assms dst have "on_result c inp = (c', out)" by (simp add: step_def)
    with \<open>oc_consumed out = Some Yes\<close> 2 dst show ?thesis
      by (auto simp: on_result_def declined_def refused_def default_outcome_def response_input_def
          split: sum.splits cstate.splits if_splits intro: may_settleI [OF finished])
  next
    case 3
    with assms dst have "on_cancel_response c inp = (c', out)" by (simp add: step_def)
    with \<open>oc_consumed out = Some Yes\<close> 3 dst show ?thesis
      by (auto simp: on_cancel_response_def declined_def refused_def default_outcome_def response_input_def
          split: sum.splits cstate.splits if_splits intro: may_settleI [OF cancelled])
  qed
next
  assume "may_settle (c_state c) inp"
  then obtain callback progress words nxt where s: "settles (c_state c) inp callback progress words nxt"
    by (auto simp: may_settle_def)
  then have "step h c inp = Some (settled c callback progress words nxt)"
    by (cases rule: settles.cases)
      (auto simp: response_input_def step_def Let_def on_goal_response_def on_result_def on_cancel_response_def)
  with assms show "oc_consumed out = Some Yes"
    by (auto simp: settled_def split: prod.splits)
qed

section \<open>Properties\<close>

text \<open>
  The component never panics, in any state and on any input: every step answers whether the input
  was consumed, and an input declined or refused changes no state, emits nothing and reports no
  progress.
\<close>

theorem client_step_total:
  "\<exists>c' out. step h c inp = Some (c', out) \<and> oc_consumed out \<noteq> None \<and>
     (oc_consumed out = Some Yes \<or> c' = c \<and> oc_effects out = [] \<and> oc_progress out = [])"
proof -
  from step_client_step [of h c inp] obtain c' out where
    "step h c inp = Some (c', out)" and cs: "client_step h c inp out c'" by blast
  from cs have "oc_consumed out \<noteq> None \<and>
      (oc_consumed out = Some Yes \<or> c' = c \<and> oc_effects out = [] \<and> oc_progress out = [])"
    by cases auto
  with \<open>step h c inp = Some (c', out)\<close> show ?thesis by blast
qed

text \<open>
  In every run the effects on each channel are numbered 0, 1, 2, ... in issuance order, and the
  n-th goal sent carries the n-th generated identity: both depend on issuance order alone.
\<close>

theorem client_effects_numbered:
  assumes "client_run h v c tr"
  shows "numbered (effects_of tr) \<and>
    map sent_goal_id (goal_sends (effects_of tr)) =
      map (\<lambda>i. Some (goal_id h (word_of_nat i))) [0..<length (goal_sends (effects_of tr))]"
  using in_sequence_run [OF assms] ids_issued_run [OF assms]
  by (simp add: in_sequence_def ids_issued_def)

definition demo_command :: input where
  "demo_command =
     \<lparr>in_ordinal = 5, in_src_actor = ACTOR_COMMAND, in_dst_actor = COMPONENT_ACTOR_ID,
      in_channel_id = CH_GOAL_COMMAND, in_event_type = EvMessage, in_body = message [1], in_request = None\<rparr>"

definition demo_clock :: "i64 \<Rightarrow> input" where
  "demo_clock t =
     \<lparr>in_ordinal = 6, in_src_actor = ACTOR_CLOCK, in_dst_actor = COMPONENT_ACTOR_ID,
      in_channel_id = CH_CLOCK, in_event_type = EvClock,
      in_body = encode_clock \<lparr>ck_clock_id = CLOCK_ROS, ck_value_ns = t, ck_callback_ordinal = 5\<rparr>,
      in_request = None\<rparr>"

lemma demo_matching: "matching_clock (demo_clock t) clock 5 \<longleftrightarrow>
    clock = \<lparr>ck_clock_id = CLOCK_ROS, ck_value_ns = t, ck_callback_ordinal = 5\<rparr>"
  by (auto simp: matching_clock_def demo_clock_def clock_codec.dec_enc)

text \<open>A goal sent at time 0, for any variant that waits.\<close>

definition demo_send :: "hash_fn \<Rightarrow> effect" where
  "demo_send h =
     \<lparr>ef_dst_actor = ACTOR_ACTION_SERVER, ef_channel_id = CH_ACTION_GOAL, ef_src_seq = 0,
      ef_event_type = EvGoalSend, ef_flags = FLAG_ATTEMPTED OR FLAG_CONFIRMED,
      ef_body = encode_goal_send \<lparr>gs_goal_id = goal_id h 0, gs_goal = [1]\<rparr>\<rparr>"

lemma demo_run:
  assumes "v = VOld \<or> v = VFixed"
  shows "\<exists>c o1. client_run h v c
      [(demo_command, o1),
       (demo_clock 0, \<lparr>oc_consumed = Some Yes, oc_callback = Some 5, oc_effects = [demo_send h],
          oc_progress = [''goal_submitted'']\<rparr>)] \<and>
    oc_effects o1 = [] \<and> oc_progress o1 = [] \<and>
    c_state c = AwaitGoalResponse 5 (goal_id h 0) 0 1000000000"
proof -
  let ?c0 = "new_component v"
  let ?c1 = "?c0\<lparr>c_state := AwaitClockForSend 5 [1]\<rparr>"
  let ?o1 = "\<lparr>oc_consumed = Some Yes, oc_callback = Some 5, oc_effects = [], oc_progress = []\<rparr>"
  let ?o2 = "\<lparr>oc_consumed = Some Yes, oc_callback = Some 5, oc_effects = [demo_send h],
          oc_progress = [''goal_submitted'']\<rparr>"
  let ?c2 = "?c1\<lparr>c_goals_issued := 1, c_sequences := [CH_ACTION_GOAL \<mapsto> 1],
      c_state := AwaitGoalResponse 5 (goal_id h 0) 0 1000000000\<rparr>"
  have 1: "step h ?c0 demo_command = Some (?c1, ?o1)"
    using assms by (auto simp: step_def demo_command_def on_goal_command_def new_component_def
        message_codec.dec_enc default_outcome_def)
  have 2: "step h ?c1 (demo_clock 0) = Some (?c2, ?o2)"
    using assms
    by (auto simp: step_def demo_clock_def on_clock_def clock_codec.dec_enc waits_def submit_goal_def
        new_component_def checked_add_i64_def GOAL_RESPONSE_DEADLINE_NS_def issue_effect_def
        next_seq_def demo_send_def Let_def)
  from next_input [OF next_input [OF begin_run 1] 2]
  have "client_run h v ?c2 [(demo_command, ?o1), (demo_clock 0, ?o2)]" by simp
  then show ?thesis by (intro exI [of _ ?c2] exI [of _ ?o1] conjI) simp_all
qed

theorem client_effects_numbered_witness:
  "numbered [demo_send demo_hash] \<and> map sent_goal_id (goal_sends [demo_send demo_hash]) = [Some (goal_id demo_hash 0)]"
proof -
  obtain c o1 where "oc_effects o1 = []" and run: "client_run demo_hash VFixed c
      [(demo_command, o1),
       (demo_clock 0, \<lparr>oc_consumed = Some Yes, oc_callback = Some 5, oc_effects = [demo_send demo_hash],
          oc_progress = [''goal_submitted'']\<rparr>)]"
    using demo_run [of VFixed demo_hash] by blast
  then show ?thesis
    using client_effects_numbered [OF run] by (simp add: effects_of_def demo_send_def)
qed

text \<open>
  What each variant may emit in a run.  The no-op emits nothing; the old variant never sends a
  cancel; the always-cancel variant follows every goal, in the same step, with the cancel of that
  goal.
\<close>

theorem variant_emissions:
  assumes "client_run h v c tr"
  shows "(v = VNoop \<longrightarrow> effects_of tr = []) \<and>
    (v = VOld \<longrightarrow> (\<forall>e\<in>set (effects_of tr). ef_event_type e \<noteq> EvCancelSend)) \<and>
    (v = VAlwaysCancel \<longrightarrow>
       (\<forall>(inp, out)\<in>set tr. \<forall>s\<in>set (oc_effects out). ef_event_type s = EvGoalSend \<longrightarrow>
          (\<exists>k g d. oc_effects out = [s, k] \<and> ef_event_type k = EvCancelSend \<and>
             decode_goal_send (ef_body s) = Inr g \<and> decode_cancel_send (ef_body k) = Inr d \<and>
             cs_goal_id d = gs_goal_id g)))"
proof -
  have "effects_of tr = []" if "v = VNoop"
    using noop_run assms that by blast
  moreover have "ef_event_type e \<noteq> EvCancelSend" if "v = VOld" "e \<in> set (effects_of tr)" for e
  proof -
    from that(2) obtain inp out where "(inp, out) \<in> set tr" and e: "e \<in> set (oc_effects out)"
      by (auto simp: effects_of_def)
    with run_steps [OF assms] obtain c0 c1 where "c_variant c0 = v" "client_step h c0 inp out c1" by blast
    then show ?thesis using step_effects(2) that(1) e by blast
  qed
  moreover have "\<exists>k g d. oc_effects out = [s, k] \<and> ef_event_type k = EvCancelSend \<and>
        decode_goal_send (ef_body s) = Inr g \<and> decode_cancel_send (ef_body k) = Inr d \<and>
        cs_goal_id d = gs_goal_id g"
    if "v = VAlwaysCancel" "(inp, out) \<in> set tr" "s \<in> set (oc_effects out)" "ef_event_type s = EvGoalSend"
    for inp out s
    using run_steps [OF assms that(2)] step_effects(3) that by blast
  ultimately show ?thesis by blast
qed

theorem variant_emissions_witness:
  "\<exists>c tr. client_run demo_hash VOld c tr \<and> effects_of tr = [demo_send demo_hash] \<and>
     (\<forall>e\<in>set (effects_of tr). ef_event_type e \<noteq> EvCancelSend)"
proof -
  obtain c o1 where "oc_effects o1 = []" and run: "client_run demo_hash VOld c
      [(demo_command, o1),
       (demo_clock 0, \<lparr>oc_consumed = Some Yes, oc_callback = Some 5, oc_effects = [demo_send demo_hash],
          oc_progress = [''goal_submitted'']\<rparr>)]"
    using demo_run [of VOld demo_hash] by blast
  then show ?thesis
    using variant_emissions [OF run] run by (intro exI conjI) (assumption | simp add: effects_of_def)+
qed

text \<open>
  C7. In every run of the fixed variant a step sends a cancel exactly when a goal is open, sent at
  \<open>sent\<close> and neither acknowledged nor timed out, and the step reads, for the waiting callback, a clock
  value one second or more after \<open>sent\<close>; the cancel then names that goal and carries that clock value.
\<close>

theorem fixed_cancels_exactly_on_expiry:
  assumes "client_run h VFixed c tr" and "step h c inp = Some (c', out)"
  shows "((\<exists>e\<in>set (oc_effects out). ef_event_type e = EvCancelSend) \<longleftrightarrow>
      (\<exists>gid sent clock callback. open_goal tr = Some (gid, sent) \<and>
         ClockRead callback CLOCK_ROS \<in> set (waits c) \<and> matching_clock inp clock callback \<and>
         sint sent + 1000000000 \<le> sint (ck_value_ns clock))) \<and>
    (\<forall>e\<in>set (oc_effects out). ef_event_type e = EvCancelSend \<longrightarrow>
      (\<exists>gid sent clock. open_goal tr = Some (gid, sent) \<and> decode_clock (in_body inp) = Inr clock \<and>
         decode_cancel_send (ef_body e) = Inr \<lparr>cs_goal_id = gid, cs_stamp_ns = ck_value_ns clock\<rparr>))"
proof -
  have v: "c_variant c = VFixed" by (rule client_run_variant [OF assms(1)])
  have open_st: "awaits_goal (c_state c) (open_goal tr)" by (rule awaits_goal_run [OF assms(1)]) simp
  have "(\<exists>clock. deadline_passed c inp clock) \<longleftrightarrow>
      (\<exists>gid sent clock callback. open_goal tr = Some (gid, sent) \<and>
         ClockRead callback CLOCK_ROS \<in> set (waits c) \<and> matching_clock inp clock callback \<and>
         sint sent + 1000000000 \<le> sint (ck_value_ns clock))"
    using open_st by (cases "c_state c") (auto simp: deadline_passed_def waits_def deadline_after_def)
  moreover have "\<exists>gid sent clock. open_goal tr = Some (gid, sent) \<and> decode_clock (in_body inp) = Inr clock \<and>
         decode_cancel_send (ef_body e) = Inr \<lparr>cs_goal_id = gid, cs_stamp_ns = ck_value_ns clock\<rparr>"
    if "e \<in> set (oc_effects out)" "ef_event_type e = EvCancelSend" for e
    using stepE [OF assms(2)] that v open_st
    by cases (auto simp: issue_fields matching_clock_def)
  ultimately show ?thesis using fixed_cancel_step [OF assms(2) v] by blast
qed

theorem fixed_cancels_exactly_on_expiry_witness:
  "\<exists>c tr c' out. client_run demo_hash VFixed c tr \<and> step demo_hash c (demo_clock 1000000000) = Some (c', out) \<and>
     (\<exists>e\<in>set (oc_effects out). ef_event_type e = EvCancelSend)"
proof -
  obtain c o1 where o1: "oc_effects o1 = []" "oc_progress o1 = []" and run: "client_run demo_hash VFixed c
      [(demo_command, o1),
       (demo_clock 0, \<lparr>oc_consumed = Some Yes, oc_callback = Some 5, oc_effects = [demo_send demo_hash],
          oc_progress = [''goal_submitted'']\<rparr>)]" (is "client_run demo_hash VFixed c ?tr")
    and st: "c_state c = AwaitGoalResponse 5 (goal_id demo_hash 0) 0 1000000000"
    using demo_run [of VFixed demo_hash] by blast
  from client_step_total obtain c' out where
    s: "step demo_hash c (demo_clock 1000000000) = Some (c', out)" by blast
  have "open_goal ?tr = Some (goal_id demo_hash 0, 0)"
    using o1 by (simp add: open_goal_def track_goal_def demo_send_def sent_goal_id_def
        goal_send_codec.dec_enc demo_clock_def clock_codec.dec_enc)
  moreover have "ClockRead 5 CLOCK_ROS \<in> set (waits c)" by (simp add: waits_def st)
  ultimately have "\<exists>gid sent clock callback. open_goal ?tr = Some (gid, sent) \<and>
      ClockRead callback CLOCK_ROS \<in> set (waits c) \<and> matching_clock (demo_clock 1000000000) clock callback \<and>
      sint sent + 1000000000 \<le> sint (ck_value_ns clock)"
    by (intro exI conjI) (assumption | simp add: demo_matching)+
  with fixed_cancels_exactly_on_expiry [OF run s] have
    "\<exists>e\<in>set (oc_effects out). ef_event_type e = EvCancelSend" by blast
  with run s show ?thesis by blast
qed

text \<open>
  The fix changes nothing but the timeout: as long as no deadline expires the old variant makes
  the same run, and at an expiry the old variant reports the timeout and goes idle, sending no
  cancel.
\<close>

theorem old_is_fixed_without_expiry:
  assumes "client_run h VFixed c tr"
    and "\<forall>(inp, out)\<in>set tr. ''deadline_expired'' \<notin> set (oc_progress out)"
  shows "client_run h VOld (as_old c) tr \<and>
    (\<forall>inp clock. deadline_passed c inp clock \<longrightarrow>
      (\<exists>c' out. step h (as_old c) inp = Some (c', out) \<and> c_state c' = Idle \<and>
         map ef_event_type (oc_effects out) = [EvStatus]))"
proof -
  have "client_run h VOld (as_old c) tr"
    using assms
  proof (induction rule: client_run.induct)
    case begin_run
    have "as_old (new_component VFixed) = new_component VOld"
      by (simp add: as_old_def new_component_def)
    then show ?case using client_run.begin_run [of h VOld] by simp
  next
    case (next_input c tr inp c' out)
    have v: "c_variant c = VFixed" by (rule client_run_variant [OF next_input.hyps(1)])
    have calm: "''deadline_expired'' \<notin> set (oc_progress out)" using next_input.prems by auto
    have "\<nexists>clock. deadline_passed c inp clock"
    proof
      assume "\<exists>clock. deadline_passed c inp clock"
      then have "\<exists>e\<in>set (oc_effects out). ef_event_type e = EvCancelSend"
        using fixed_cancel_step [OF next_input.hyps(2) v] by blast
      with stepE [OF next_input.hyps(2)] v calm show False by cases (auto simp: issue_fields)
    qed
    then have "step h (as_old c) inp = Some (as_old c', out)"
      using as_old_step [OF v] next_input.hyps(2) by simp
    moreover have "client_run h VOld (as_old c) tr" using next_input by auto
    ultimately show ?case by (rule client_run.next_input [rotated])
  qed
  moreover have "\<exists>c' out. step h (as_old c) inp = Some (c', out) \<and> c_state c' = Idle \<and>
         map ef_event_type (oc_effects out) = [EvStatus]" if late: "deadline_passed c inp clock" for inp clock
  proof -
    from late obtain callback gid seq deadline where
      st: "c_state (as_old c) = AwaitGoalResponse callback gid seq deadline" "matching_clock inp clock callback"
      and le: "sint deadline \<le> sint (ck_value_ns clock)" by (auto simp: deadline_passed_def)
    have "step h (as_old c) inp = Some (check_deadline (as_old c) clock callback gid deadline)"
      by (rule step_deadline [OF st])
    then show ?thesis
      using le by (auto simp: check_deadline_def Let_def issue_status_fields split: prod.splits)
  qed
  ultimately show ?thesis by blast
qed

theorem old_is_fixed_without_expiry_witness:
  "\<exists>c tr. client_run demo_hash VFixed c tr \<and> effects_of tr = [demo_send demo_hash] \<and> client_run demo_hash VOld (as_old c) tr"
proof -
  obtain c o1 where o1: "oc_effects o1 = []" "oc_progress o1 = []" and run: "client_run demo_hash VFixed c
      [(demo_command, o1),
       (demo_clock 0, \<lparr>oc_consumed = Some Yes, oc_callback = Some 5, oc_effects = [demo_send demo_hash],
          oc_progress = [''goal_submitted'']\<rparr>)]"
    using demo_run [of VFixed demo_hash] by blast
  from old_is_fixed_without_expiry [OF run] o1 have "client_run demo_hash VOld (as_old c) 
      [(demo_command, o1),
       (demo_clock 0, \<lparr>oc_consumed = Some Yes, oc_callback = Some 5, oc_effects = [demo_send demo_hash],
          oc_progress = [''goal_submitted'']\<rparr>)]" by simp
  with run o1 show ?thesis by (intro exI conjI) (assumption | simp add: effects_of_def)+
qed

text \<open>
  A response is applied exactly when the protocol binds it to the wait: it comes from the action
  server, the runner resolved it to the (channel, sequence) of the very request that is waiting, and
  its body names that goal.
\<close>

theorem responses_applied_iff_bound:
  assumes "step h c inp = Some (c', out)"
    and "in_event_type inp \<in> {EvGoalResponse, EvResult, EvCancelResponse}"
  shows "oc_consumed out = Some Yes \<longleftrightarrow> may_settle (c_state c) inp"
  using assms by (rule step_response)

theorem responses_applied_iff_bound_witness:
  "\<exists>c' out. step demo_hash (new_component VOld) ((demo_clock 0)\<lparr>in_event_type := EvResult\<rparr>) = Some (c', out) \<and>
     oc_consumed out \<noteq> Some Yes"
proof -
  let ?i = "(demo_clock 0)\<lparr>in_event_type := EvResult\<rparr>"
  from client_step_total obtain c' out where s: "step demo_hash (new_component VOld) ?i = Some (c', out)" by blast
  have "in_event_type ?i \<in> {EvGoalResponse, EvResult, EvCancelResponse}" by simp
  from responses_applied_iff_bound [OF s this] have "oc_consumed out \<noteq> Some Yes"
    by (auto simp: may_settle_def new_component_def elim: settles.cases)
  with s show ?thesis by blast
qed

end
