(* ===== verification/Adapter_Serve.thy ===== *)
theory Adapter_Serve
  imports Goal_Client
begin

text \<open>
  The ndjson adapter protocol around the goal client: the hex and event-name texts of
  crates/rook-adapter-ref/src/lib.rs, the messages of protocol.rs, and the request loop of
  adapter.rs.  A request is modelled after it has been parsed from its line and a response before
  it is printed on one: JSON and pipes are not modelled, a line that is no request is \<open>Garbled\<close>.  A
  text is a list of characters; those of the protocol are ASCII.
\<close>

unbundle bit_operations_syntax

subsection \<open>Hex\<close>

definition hex_digit :: "nat \<Rightarrow> char" where
  "hex_digit n = (if n < 10 then char_of (48 + n) else char_of (87 + n))"

definition hex_value :: "char \<Rightarrow> nat option" where
  "hex_value c =
     (let n = of_char c :: nat in
      if 48 \<le> n \<and> n \<le> 57 then Some (n - 48)
      else if 97 \<le> n \<and> n \<le> 102 then Some (n - 87)
      else if 65 \<le> n \<and> n \<le> 70 then Some (n - 55) else None)"

definition encode_hex :: "bytes \<Rightarrow> string" where
  "encode_hex bs = concat (map (\<lambda>b. [hex_digit (unat b div 16), hex_digit (unat b mod 16)]) bs)"

definition hex_pair :: "string \<Rightarrow> byte" where
  "hex_pair pair = word_of_nat (foldl (\<lambda>n c. 16 * n + the (hex_value c)) 0 pair)"

definition decode_hex :: "string \<Rightarrow> bytes option" where
  "decode_hex s =
     (if odd (length s) \<or> \<not> list_all (\<lambda>c. hex_value c \<noteq> None) s then None
      else Some (map hex_pair (chunks 2 s)))"

subsection \<open>Event names\<close>

fun event_type_name :: "event_type \<Rightarrow> string" where
  "event_type_name EvSession = ''Session''"
| "event_type_name EvEnd = ''End''"
| "event_type_name EvGap = ''Gap''"
| "event_type_name EvStartingState = ''StartingState''"
| "event_type_name EvLifecycle = ''Lifecycle''"
| "event_type_name EvMessage = ''Message''"
| "event_type_name EvClock = ''Clock''"
| "event_type_name EvTimer = ''Timer''"
| "event_type_name EvServiceResponse = ''ServiceResponse''"
| "event_type_name EvGoalResponse = ''GoalResponse''"
| "event_type_name EvFeedback = ''Feedback''"
| "event_type_name EvResult = ''Result''"
| "event_type_name EvCancelResponse = ''CancelResponse''"
| "event_type_name EvServiceRequest = ''ServiceRequest''"
| "event_type_name EvPublish = ''Publish''"
| "event_type_name EvServiceCall = ''ServiceCall''"
| "event_type_name EvGoalSend = ''GoalSend''"
| "event_type_name EvCancelSend = ''CancelSend''"
| "event_type_name EvServiceResponseSend = ''ServiceResponseSend''"
| "event_type_name EvLifecycleResult = ''LifecycleResult''"
| "event_type_name EvStatus = ''Status''"
| "event_type_name EvTimerControl = ''TimerControl''"

definition parse_event_type :: "string \<Rightarrow> event_type option" where
  "parse_event_type name =
     find (\<lambda>e. event_type_name e = name) (List.map_filter (\<lambda>i. from_u16 (word_of_nat i)) [1..<0x28])"

subsection \<open>Messages\<close>

record wire_frame =
  w_ordinal :: "u64 option"
  w_src_actor :: u32
  w_dst_actor :: u32
  w_channel_id :: u32
  w_src_seq :: u64
  w_event_type :: string
  w_schema :: u16
  w_flags :: u32
  w_body_hex :: string

record request_ref =
  rr_ordinal :: u64
  rr_src_actor :: u32
  rr_dst_actor :: u32
  rr_channel_id :: u32
  rr_src_seq :: u64

record identity =
  i_component :: string
  i_variant :: string
  i_adapter :: string
  i_protocol :: u32

record starting_state_id =
  ss_method :: string
  ss_blake3 :: string

datatype finish_reason = FinishExhausted | FinishScope

datatype request =
    Start u32 string string starting_state_id \<comment> \<open>protocol, corpus, scenario, state\<close>
  | StepRequest wire_frame "request_ref option"
  | Finish finish_reason

record endpoint =
  ep_actor :: u32
  ep_name :: string

record channel =
  ch_id :: u32
  ch_name :: string
  ch_direction :: string
  ch_event_types :: "string list"

datatype pending = PClockRead u64 u16 | PFuture u64 string

datatype step_status = StatusOk | StatusNotConsumed | StatusRefused

datatype response =
    Started u32 identity "endpoint list" "channel list" starting_state_id
  | StartRefused string
  | EffectLine u64 u64 wire_frame \<comment> \<open>step, callback, effect\<close>
  | ProgressLine u64 u64 string \<comment> \<open>step, callback, name\<close>
  | Stepped u64 step_status "string option" "pending list"
  | Finished finish_reason "pending list" u64

subsection \<open>Texts of the component's answers\<close>

fun body_error_text :: "body_error \<Rightarrow> string" where
  "body_error_text MessageTooShort = ''message body shorter than its serialization field''"
| "body_error_text (UnsupportedSerialization n) =
     ''unsupported message serialization '' @ show_word n @ ''; this adapter reads raw (2)''"
| "body_error_text (ClockLength n) = ''clock body is '' @ decimal n @ '' bytes, expected 18''"
| "body_error_text GoalSendTooShort = ''goal_send body shorter than a goal id''"
| "body_error_text (GoalResponseLength n) =
     ''goal_response body is '' @ decimal n @ '' bytes, expected 33''"
| "body_error_text ResultTooShort = ''result body shorter than its header''"
| "body_error_text (CancelSendLength n) =
     ''cancel_send body is '' @ decimal n @ '' bytes, expected 24''"
| "body_error_text CancelResponseTooShort = ''cancel_response body shorter than its header''"
| "body_error_text CancelResponseCount = ''cancel_response goal count does not match its length''"
| "body_error_text TooManyGoals = ''cancel_response holds more than 65535 goals''"

fun decline_text :: "decline \<Rightarrow> string" where
  "decline_text (NotAddressed actor) =
     ''input addressed to actor '' @ show_word actor @ '', not the component''"
| "decline_text (NoHandler event channel) =
     ''no handler for '' @ event_type_name event @ '' on channel '' @ show_word channel"
| "decline_text (NotCommandEndpoint actor) =
     ''goal command from actor '' @ show_word actor @ '', not the command endpoint '' @
     show_word ACTOR_COMMAND"
| "decline_text GoalInFlight = ''a goal is already in flight''"
| "decline_text (UndecodedBody e) = body_error_text e"
| "decline_text (ClockMismatch actor clock callback clock_id pending_callback) =
     ''clock observation (actor '' @ show_word actor @ '', clock '' @ show_word clock @
     '', callback '' @ show_word callback @ '') does not match the pending read (actor '' @
     show_word ACTOR_CLOCK @ '', clock '' @ show_word clock_id @ '', callback '' @
     show_word pending_callback @ '')''"
| "decline_text (NoPendingRead callback) =
     ''no pending clock read for callback '' @ show_word callback"
| "decline_text NoRoomForDeadline =
     ''clock value leaves no room for the goal response deadline''"
| "decline_text GoalResponseNotBound =
     ''goal_response is not bound to a goal awaiting a response''"
| "decline_text ResultNotBound = ''result is not bound to a goal awaiting a result''"
| "decline_text CancelResponseNotBound = ''cancel_response is not bound to a pending cancel''"

fun refusal_text :: "refusal \<Rightarrow> string" where
  "refusal_text (GoalResponseAfterCancel reason) =
     ''recorded goal_response for this goal is invalid after this run's cancel_send ('' @ reason @
     ''); the recording's environment never saw that cancel''"
| "refusal_text ResultAfterCancel =
     ''recorded result for this goal is invalid after this run's cancel_send; the recording's '' @
     ''environment never saw that cancel''"

subsection \<open>The adapter\<close>

definition ADAPTER_NAME :: string where "ADAPTER_NAME = ''rook-adapter-ref''"
definition PROTOCOL_VERSION :: u32 where "PROTOCOL_VERSION = 1"

definition endpoints :: "endpoint list" where
  "endpoints =
     map (\<lambda>(actor, name). \<lparr>ep_actor = actor, ep_name = name\<rparr>)
       [(COMPONENT_ACTOR_ID, ''component''), (ACTOR_CLOCK, ''clock''),
        (ACTOR_ACTION_SERVER, ''action_server''), (ACTOR_COMMAND, ''command''),
        (ACTOR_DIAGNOSTICS, ''diagnostics'')]"

definition channels :: "channel list" where
  "channels =
     map (\<lambda>(i, name, direction, types).
         \<lparr>ch_id = i, ch_name = name, ch_direction = direction, ch_event_types = types\<rparr>)
       [(CH_GOAL_COMMAND, ''goal_command'', ''input'', [''Message'']),
        (CH_CLOCK, ''clock'', ''input'', [''Clock'']),
        (CH_ACTION_RESPONSE, ''action_response'', ''input'',
          [''GoalResponse'', ''Result'', ''CancelResponse'']),
        (CH_ACTION_GOAL, ''action_goal'', ''effect'', [''GoalSend'']),
        (CH_ACTION_CANCEL, ''action_cancel'', ''effect'', [''CancelSend'']),
        (CH_STATUS, ''status'', ''effect'', [''Status''])]"

definition identity_of :: "variant \<Rightarrow> identity" where
  "identity_of v =
     \<lparr>i_component = ''goal-client'', i_variant = variant_name v, i_adapter = ADAPTER_NAME,
      i_protocol = PROTOCOL_VERSION\<rparr>"

fun pending_of :: "wait \<Rightarrow> pending" where
  "pending_of (ClockRead callback clock_id) = PClockRead callback clock_id"
| "pending_of (Future callback name) = PFuture callback name"

definition fresh_state_blake3 :: "hash_fn \<Rightarrow> string" where
  "fresh_state_blake3 h = encode_hex (to_le (h []))"

datatype serve_error =
    ParseRequest
  | StepBeforeStart
  | StepHasNoOrdinal
  | UnknownEvent string
  | BadHex
  | Panicked

datatype line = Blank | Garbled | Line request

text \<open>The lines one step writes, after the component has answered.\<close>

definition effect_line :: "u64 \<Rightarrow> u64 \<Rightarrow> effect \<Rightarrow> response" where
  "effect_line ordinal callback e =
     EffectLine ordinal callback
       \<lparr>w_ordinal = None, w_src_actor = COMPONENT_ACTOR_ID, w_dst_actor = ef_dst_actor e,
        w_channel_id = ef_channel_id e, w_src_seq = ef_src_seq e,
        w_event_type = event_type_name (ef_event_type e), w_schema = 1, w_flags = ef_flags e,
        w_body_hex = encode_hex (ef_body e)\<rparr>"

fun status_of :: "consumed option \<Rightarrow> step_status \<times> string option" where
  "status_of None = (StatusOk, None)"
| "status_of (Some Yes) = (StatusOk, None)"
| "status_of (Some (No why)) = (StatusNotConsumed, Some (decline_text why))"
| "status_of (Some (Refused why)) = (StatusRefused, Some (refusal_text why))"

definition step_lines :: "u64 \<Rightarrow> component \<Rightarrow> outcome \<Rightarrow> response list" where
  "step_lines ordinal c out =
     (let callback = (case oc_callback out of None \<Rightarrow> ordinal | Some k \<Rightarrow> k);
          (stat, reason) = status_of (oc_consumed out)
      in map (effect_line ordinal callback) (oc_effects out) @
         map (ProgressLine ordinal callback) (oc_progress out) @
         [Stepped ordinal stat reason (map pending_of (waits c))])"

definition component_input :: "wire_frame \<Rightarrow> request_ref option \<Rightarrow> serve_error + input" where
  "component_input inp request =
     (case w_ordinal inp of
        None \<Rightarrow> Inl StepHasNoOrdinal
      | Some ordinal \<Rightarrow>
          (case parse_event_type (w_event_type inp) of
             None \<Rightarrow> Inl (UnknownEvent (w_event_type inp))
           | Some event_type \<Rightarrow>
               (case decode_hex (w_body_hex inp) of
                  None \<Rightarrow> Inl BadHex
                | Some body \<Rightarrow>
                    Inr \<lparr>in_ordinal = ordinal, in_src_actor = w_src_actor inp,
                         in_dst_actor = w_dst_actor inp, in_channel_id = w_channel_id inp,
                         in_event_type = event_type, in_body = body,
                         in_request =
                           (case request of
                              None \<Rightarrow> None
                            | Some r \<Rightarrow>
                                if rr_src_actor r = COMPONENT_ACTOR_ID
                                then Some (rr_channel_id r, rr_src_seq r) else None)\<rparr>)))"

text \<open>
  \<open>serve\<close> from a state (the component once started, the effects counted so far): the lines written and
  the error it ends with, if any.
\<close>

fun serve_from ::
  "hash_fn \<Rightarrow> variant \<Rightarrow> component option \<Rightarrow> u64 \<Rightarrow> line list \<Rightarrow> response list \<times> serve_error option"
where
  "serve_from h v running effects [] = ([], None)"
| "serve_from h v running effects (Blank # ls) = serve_from h v running effects ls"
| "serve_from h v running effects (Garbled # ls) = ([], Some ParseRequest)"
| "serve_from h v running effects (Line (Start protocol corpus scenario state) # ls) =
     (if protocol \<noteq> PROTOCOL_VERSION
      then ([StartRefused (''protocol '' @ show_word protocol @
              '' unsupported; this adapter speaks '' @ show_word PROTOCOL_VERSION)], None)
      else if ss_method state \<noteq> ''fresh''
      then ([StartRefused (''starting-state method '' @ ss_method state @
              '' unsupported; this adapter supports fresh'')], None)
      else let (rs, e) = serve_from h v (Some (new_component v)) effects ls in
        (Started PROTOCOL_VERSION (identity_of v) endpoints channels
           \<lparr>ss_method = ''fresh'', ss_blake3 = fresh_state_blake3 h\<rparr> # rs, e))"
| "serve_from h v running effects (Line (StepRequest inp request) # ls) =
     (case running of
        None \<Rightarrow> ([], Some StepBeforeStart)
      | Some c \<Rightarrow>
          (case component_input inp request of
             Inl e \<Rightarrow> ([], Some e)
           | Inr i \<Rightarrow>
               (case step h c i of
                  None \<Rightarrow> ([], Some Panicked)
                | Some (c', out) \<Rightarrow>
                    let (rs, e) = serve_from h v (Some c')
                          (effects + word_of_nat (length (oc_effects out))) ls
                    in (step_lines (in_ordinal i) c' out @ rs, e))))"
| "serve_from h v running effects (Line (Finish reason) # ls) =
     ([Finished reason
         (map pending_of (case running of None \<Rightarrow> [] | Some c \<Rightarrow> waits c)) effects], None)"

definition serve :: "hash_fn \<Rightarrow> variant \<Rightarrow> line list \<Rightarrow> response list \<times> serve_error option" where
  "serve h v ls = serve_from h v None 0 ls"

section \<open>Lemmas\<close>

lemma hex_value_digit [simp]: "n < 16 \<Longrightarrow> hex_value (hex_digit n) = Some n"
  by (auto simp: hex_value_def hex_digit_def Let_def)

definition lower_hex :: "char \<Rightarrow> char" where
  "lower_hex c = (let n = of_char c :: nat in if 65 \<le> n \<and> n \<le> 90 then char_of (n + 32) else c)"

lemma hex_digit_value: "hex_value c = Some n \<Longrightarrow> hex_digit n = lower_hex c"
  by (auto simp: hex_value_def hex_digit_def lower_hex_def Let_def split: if_splits)

lemma hex_value_bound: "hex_value c = Some n \<Longrightarrow> n < 16"
  by (auto simp: hex_value_def Let_def split: if_splits)

lemma encode_hex_simps [simp]:
  "encode_hex [] = []"
  "encode_hex (b # bs) = [hex_digit (unat b div 16), hex_digit (unat b mod 16)] @ encode_hex bs"
  by (simp_all add: encode_hex_def)

lemma unat_byte_bound: "unat (b :: byte) < 256"
  using unsigned_less [of b, where ?'a = nat] by simp

lemma hex_pair_digits: "hex_pair [hex_digit (unat b div 16), hex_digit (unat b mod 16)] = b"
  using unat_byte_bound [of b] by (simp add: hex_pair_def)

lemma decode_encode_hex [simp]: "decode_hex (encode_hex bs) = Some bs"
proof -
  have "even (length (encode_hex bs))" by (induction bs) auto
  moreover have "list_all (\<lambda>c. hex_value c \<noteq> None) (encode_hex bs)"
  proof (induction bs)
    case (Cons b bs)
    have "unat b div 16 < 16" using unat_byte_bound [of b] by simp
    with Cons show ?case by simp
  qed simp
  moreover have "chunks 2 (encode_hex bs) =
      map (\<lambda>b. [hex_digit (unat b div 16), hex_digit (unat b mod 16)]) bs"
    unfolding encode_hex_def by (intro chunks_concat) auto
  ultimately show ?thesis
    by (simp add: decode_hex_def hex_pair_digits comp_def)
qed

lemma encode_decode_hex:
  assumes "decode_hex s = Some bs"
  shows "encode_hex bs = map lower_hex s"
proof -
  have bs: "bs = map hex_pair (chunks 2 s)"
    using assms by (auto simp: decode_hex_def split: if_splits)
  have "even (length s)" "list_all (\<lambda>c. hex_value c \<noteq> None) s"
    using assms by (auto simp: decode_hex_def split: if_splits)
  then have "encode_hex (map hex_pair (chunks 2 s)) = map lower_hex s"
  proof (induction s rule: induct_list012)
    case (3 a b s)
    then obtain i j where ij: "hex_value a = Some i" "hex_value b = Some j" by auto
    have "16 * i + j < 256" using ij [THEN hex_value_bound] by simp
    then have "unat (word_of_nat (16 * i + j) :: byte) = 16 * i + j"
      by (simp only: unat_byte_of_nat mod_less)
    then have "encode_hex [hex_pair [a, b]] = map lower_hex [a, b]"
      using ij ij [THEN hex_digit_value] hex_value_bound [OF ij(2)] by (simp add: hex_pair_def)
    then show ?case using 3 chunks_append [of 2 "[a, b]" s] by simp
  qed auto
  then show ?thesis by (simp add: bs)
qed

lemma event_names_listed:
  "List.map_filter (\<lambda>i. from_u16 (word_of_nat i)) [1..<0x28] = all_events"
  by (simp add: from_u16_def all_events_def upt_rec List.map_filter_simps)

lemma parse_event_type_name [simp]: "parse_event_type (event_type_name e) = Some e"
  unfolding parse_event_type_def event_names_listed
  by (cases e) (simp_all add: all_events_def)

lemma parse_event_type_Some: "parse_event_type name = Some e \<longleftrightarrow> name = event_type_name e"
proof
  assume "parse_event_type name = Some e"
  then show "name = event_type_name e" by (auto simp: parse_event_type_def find_Some_iff)
qed simp

lemma hex_value_lower [simp]: "hex_value (lower_hex c) = hex_value c"
  by (auto simp: hex_value_def lower_hex_def Let_def)

lemma decode_hex_lower: "decode_hex (map lower_hex s) = decode_hex s"
proof -
  have "map hex_pair (chunks 2 (map lower_hex s)) = map hex_pair (chunks 2 s)" if "even (length s)"
    using that
  proof (induction s rule: induct_list012)
    case (3 a b s)
    then show ?case
      using chunks_append [of 2 "[a, b]" s] chunks_append [of 2 "[lower_hex a, lower_hex b]" "map lower_hex s"]
      by (simp add: hex_pair_def)
  qed auto
  then show ?thesis by (simp add: decode_hex_def list.pred_map comp_def)
qed

lemma decode_hex_Some: "decode_hex s = Some bs \<longleftrightarrow> map lower_hex s = encode_hex bs"
proof
  assume "map lower_hex s = encode_hex bs"
  then have "decode_hex (map lower_hex s) = Some bs" by simp
  then show "decode_hex s = Some bs" by (simp add: decode_hex_lower)
qed (simp add: encode_decode_hex)

subsection \<open>The order of lines\<close>

fun is_effect_line :: "response \<Rightarrow> bool" where
  "is_effect_line (EffectLine _ _ _) = True"
| "is_effect_line _ = False"

text \<open>The ordinal of the \<open>stepped\<close> line that ends the block of effect and progress lines at the front.\<close>

fun block_end :: "response list \<Rightarrow> u64 option" where
  "block_end (EffectLine _ _ _ # rs) = block_end rs"
| "block_end (ProgressLine _ _ _ # rs) = block_end rs"
| "block_end (Stepped ordinal _ _ _ # rs) = Some ordinal"
| "block_end _ = None"

fun attributed :: "response list \<Rightarrow> bool" where
  "attributed [] = True"
| "attributed (EffectLine s k w # rs) = (block_end rs = Some s \<and> attributed rs)"
| "attributed (ProgressLine s k n # rs) = (block_end rs = Some s \<and> attributed rs)"
| "attributed (r # rs) = attributed rs"

fun closing_line :: "response \<Rightarrow> bool" where
  "closing_line (Finished _ _ _) = True"
| "closing_line (StartRefused _) = True"
| "closing_line _ = False"

lemma attributed_effects:
  "block_end rs = Some n \<Longrightarrow> attributed rs \<Longrightarrow>
     block_end (map (effect_line n k) es @ rs) = Some n \<and> attributed (map (effect_line n k) es @ rs)"
  by (induction es) (auto simp: effect_line_def)

lemma attributed_progress:
  "block_end rs = Some n \<Longrightarrow> attributed rs \<Longrightarrow>
     block_end (map (ProgressLine n k) ps @ rs) = Some n \<and> attributed (map (ProgressLine n k) ps @ rs)"
  by (induction ps) auto

lemma attributed_step_lines:
  assumes "attributed rs"
  shows "attributed (step_lines n c out @ rs)"
proof -
  obtain st why where "status_of (oc_consumed out) = (st, why)" by force
  moreover have "block_end (Stepped n st why ps # rs) = Some n \<and> attributed (Stepped n st why ps # rs)"
    for ps using assms by simp
  ultimately show ?thesis
    using attributed_effects attributed_progress by (simp add: step_lines_def Let_def)
qed

lemma effect_lines_step_lines:
  "filter is_effect_line (step_lines n c out) =
     map (effect_line n (case oc_callback out of None \<Rightarrow> n | Some k \<Rightarrow> k)) (oc_effects out)"
proof -
  have e: "is_effect_line \<circ> effect_line n k = (\<lambda>_. True)" "is_effect_line \<circ> ProgressLine n k = (\<lambda>_. False)" for k
    by (auto simp: effect_line_def)
  obtain st why where "status_of (oc_consumed out) = (st, why)" by force
  then show ?thesis by (simp add: step_lines_def Let_def filter_map e)
qed

lemma no_closing_step_lines: "r \<in> set (step_lines n c out) \<Longrightarrow> \<not> closing_line r"
  by (auto simp: step_lines_def effect_line_def Let_def split: prod.splits)

text \<open>The protocol the loop speaks, one rule per kind of line.\<close>

inductive serves ::
  "hash_fn \<Rightarrow> variant \<Rightarrow> component option \<Rightarrow> u64 \<Rightarrow> line list \<Rightarrow> response list \<Rightarrow>
     serve_error option \<Rightarrow> bool" for h v
where
  at_end: "serves h v running n [] [] None"
| fault: "e \<noteq> Panicked \<Longrightarrow> serves h v running n (l # ls) [] (Some e)"
| refuse: "serves h v running n (Line (Start protocol corpus scenario state) # ls) [StartRefused t] None"
| blank: "serves h v running n ls rs e \<Longrightarrow> serves h v running n (Blank # ls) rs e"
| begin_client: "serves h v (Some (new_component v)) n ls rs e \<Longrightarrow>
    serves h v running n (Line (Start protocol corpus scenario state) # ls)
      (Started PROTOCOL_VERSION (identity_of v) endpoints channels state' # rs) e"
| answer: "component_input inp req = Inr i \<Longrightarrow> step h c i = Some (c', out) \<Longrightarrow>
    serves h v (Some c') (n + word_of_nat (length (oc_effects out))) ls rs e \<Longrightarrow>
    serves h v (Some c) n (Line (StepRequest inp req) # ls) (step_lines (in_ordinal i) c' out @ rs) e"
| finish: "serves h v running n (Line (Finish reason) # ls) [Finished reason ps n] None"

lemma component_input_no_panic: "component_input inp req \<noteq> Inl Panicked"
  by (auto simp: component_input_def split: option.splits)

lemma serve_from_serves: "serve_from h v running n ls = (rs, e) \<Longrightarrow> serves h v running n ls rs e"
proof (induction h v running n ls arbitrary: rs e rule: serve_from.induct)
  case (4 h v running n protocol corpus scenario state ls)
  then show ?case by (auto simp: Let_def intro: serves.intros split: if_splits prod.splits)
next
  case (5 h v running n inp req ls)
  show ?case
  proof (cases running)
    case None
    with "5.prems" show ?thesis by (auto intro: fault)
  next
    case run: (Some c)
    show ?thesis
    proof (cases "component_input inp req")
      case (Inl x)
      with "5.prems" run show ?thesis using component_input_no_panic [of inp req] by (auto intro: fault)
    next
      case (Inr i)
      from step_client_step [of h c i] obtain c' out where s: "step h c i = Some (c', out)" by blast
      obtain rs' e' where r: "serve_from h v (Some c') (n + word_of_nat (length (oc_effects out))) ls = (rs', e')"
        by force
      have "serves h v (Some c') (n + word_of_nat (length (oc_effects out))) ls rs' e'"
        using "5.IH" [OF run Inr s refl r] .
      from answer [OF Inr s this] "5.prems" show ?thesis by (simp add: run Inr s r)
    qed
  qed
qed (auto intro: serves.intros)

lemma serves_order: "serves h v running n ls rs e \<Longrightarrow> attributed rs"
  by (induction rule: serves.induct) (auto simp: attributed_step_lines)

lemma serves_no_panic: "serves h v running n ls rs e \<Longrightarrow> e \<noteq> Some Panicked"
  by (induction rule: serves.induct) auto

lemma serves_count:
  "serves h v running n ls rs e \<Longrightarrow> Finished reason ps m \<in> set rs \<Longrightarrow>
     m = n + word_of_nat (length (filter is_effect_line rs))"
  by (induction rule: serves.induct) (auto simp: effect_lines_step_lines dest: no_closing_step_lines)

lemma serves_closing:
  "serves h v running n ls rs e \<Longrightarrow> r \<in> set rs \<Longrightarrow> closing_line r \<Longrightarrow> last rs = r \<and> e = None"
  by (induction rule: serves.induct) (auto dest: no_closing_step_lines simp: last_append)

section \<open>Properties\<close>

text \<open>
  What crosses the protocol as text is read back unchanged.  Hex decodes to the bytes it encodes,
  the decoder accepts exactly the hex texts up to letter case, and an event type's name is the only
  text parsed as it.
\<close>

theorem protocol_text_roundtrip:
  "decode_hex (encode_hex bs) = Some bs \<and>
   (decode_hex s = Some bs \<longleftrightarrow> map lower_hex s = encode_hex bs) \<and>
   (parse_event_type name = Some e \<longleftrightarrow> name = event_type_name e)"
  by (simp add: decode_hex_Some parse_event_type_Some)

text \<open>
  C9. Whatever lines an adapter is sent, it does not panic; every effect and progress line stands in
  the block of lines that ends with the \<open>stepped\<close> line of the ordinal it names; and the effect count
  it reports on \<open>finish\<close> is the number of effect lines it wrote.
\<close>

theorem serve_protocol:
  assumes "serve h v ls = (rs, e)"
  shows "e \<noteq> Some Panicked \<and> attributed rs \<and>
    (\<forall>reason ps m. Finished reason ps m \<in> set rs \<longrightarrow>
       last rs = Finished reason ps m \<and> e = None \<and>
       m = word_of_nat (length (filter is_effect_line rs)))"
proof -
  have s: "serves h v None 0 ls rs e"
    using assms unfolding serve_def by (rule serve_from_serves)
  show ?thesis
    using serves_no_panic [OF s] serves_order [OF s] serves_count [OF s] serves_closing [OF s] by auto
qed

theorem serve_protocol_witness:
  "\<exists>rs. serve demo_hash VOld
      [Line (Start 1 [] [] \<lparr>ss_method = ''fresh'', ss_blake3 = []\<rparr>),
       Line (StepRequest
         \<lparr>w_ordinal = Some 5, w_src_actor = ACTOR_COMMAND, w_dst_actor = COMPONENT_ACTOR_ID,
          w_channel_id = CH_GOAL_COMMAND, w_src_seq = 0, w_event_type = ''Message'', w_schema = 1,
          w_flags = 0, w_body_hex = encode_hex (message [1])\<rparr> None),
       Line (Finish FinishScope)] = (rs, None) \<and>
     attributed rs \<and> last rs = Finished FinishScope [PClockRead 5 CLOCK_ROS] 0"
proof -
  have name: "parse_event_type ''Message'' = Some EvMessage"
    using parse_event_type_name [of EvMessage] by simp
  let ?rs = "[Started PROTOCOL_VERSION (identity_of VOld) endpoints channels
      \<lparr>ss_method = ''fresh'', ss_blake3 = fresh_state_blake3 demo_hash\<rparr>,
      Stepped 5 StatusOk None [PClockRead 5 CLOCK_ROS],
      Finished FinishScope [PClockRead 5 CLOCK_ROS] 0]"
  have s: "serve demo_hash VOld
      [Line (Start 1 [] [] \<lparr>ss_method = ''fresh'', ss_blake3 = []\<rparr>),
       Line (StepRequest
         \<lparr>w_ordinal = Some 5, w_src_actor = ACTOR_COMMAND, w_dst_actor = COMPONENT_ACTOR_ID,
          w_channel_id = CH_GOAL_COMMAND, w_src_seq = 0, w_event_type = ''Message'', w_schema = 1,
          w_flags = 0, w_body_hex = encode_hex (message [1])\<rparr> None),
       Line (Finish FinishScope)] = (?rs, None)"
    by (simp add: serve_def PROTOCOL_VERSION_def component_input_def name step_def on_goal_command_def
        new_component_def message_codec.dec_enc default_outcome_def step_lines_def waits_def)
  from serve_protocol [OF s] s show ?thesis by (intro exI [of _ ?rs]) simp
qed

end
