(* ===== verification/Driver.thy ===== *)
theory Driver
  imports Adapter_Serve
begin

text \<open>
  crates/rook-adapter-ref/src/driver.rs: the reference driver, which replays a recording through an
  adapter and compares the effects.  The adapter is a separate process, written by anyone: it is the
  parameter \<open>react\<close>, a transition from the process's state and a request to its next state and the
  lines it writes in answer.  The driver reads lines in the order they were written; an adapter that
  owes a line and writes none has closed its stdout.  A line that does not parse is treated as
  closed stdout too: both end the replay with an error.
\<close>

unbundle bit_operations_syntax

type_synonym 's adapter = "'s \<Rightarrow> request \<Rightarrow> 's \<times> response list"

datatype stop = StopExhausted | StopGap u64 gap | StopRefused u64 string

record delivered =
  dl_recorded_ordinal :: u64
  dl_replayed_ordinal :: "u64 option"
  dl_status :: step_status
  dl_reason :: "string option"

record run =
  r_frames :: "frame list"
  r_steps :: "delivered list"
  r_effects :: "(u64 \<times> u64) list" \<comment> \<open>callback, replayed ordinal\<close>
  r_progress :: "(u64 \<times> string \<times> u64) list"
  r_pending_after_last_step :: "pending list"
  r_pending_at_finish :: "pending list"
  r_stop :: stop
  r_finish_reason :: finish_reason

datatype wire_error = UnknownWireEvent string | WireHex

datatype ref_error =
    NoRequestOrdinal u64
  | RequestNotHeld u64 u64
  | NotAnEarlierEffect u64 u64

datatype replay_failure =
    EmptyRecording
  | BadMarker stream_error
  | AdapterClosed
  | WrongStartingState starting_state_id
  | AdapterRefusedStart string
  | UnexpectedStartAnswer response
  | BadRequestRef ref_error
  | UnauthorizedEffect u64 u64 "u64 list"
  | BadEffectWire wire_error
  | NotAComponentEffect event_type u32
  | BadEffectHeader u16 u32
  | BadEffectSequence u32 u64 u64
  | UnauthorizedProgress string u64 u64 "u64 list"
  | AnsweredOther u64 u64
  | EffectsForRefusedInput
  | UnexpectedStepAnswer response
  | WrongFinishReason finish_reason
  | WrongEffectCount u64 nat
  | UnexpectedFinishAnswer response

subsection \<open>Frames on the protocol\<close>

definition wire_of_frame :: "frame \<Rightarrow> wire_frame" where
  "wire_of_frame f =
     \<lparr>w_ordinal = Some (f_ordinal f), w_src_actor = f_src_actor f, w_dst_actor = f_dst_actor f,
      w_channel_id = f_channel_id f, w_src_seq = f_src_seq f,
      w_event_type = event_type_name (f_event_type f), w_schema = h_schema (f_header f),
      w_flags = h_flags (f_header f), w_body_hex = encode_hex (f_body f)\<rparr>"

definition frame_from_wire :: "u64 \<Rightarrow> wire_frame \<Rightarrow> wire_error + frame" where
  "frame_from_wire ordinal wire =
     (case parse_event_type (w_event_type wire) of
        None \<Rightarrow> Inl (UnknownWireEvent (w_event_type wire))
      | Some event_type \<Rightarrow>
          (case decode_hex (w_body_hex wire) of
             None \<Rightarrow> Inl WireHex
           | Some body \<Rightarrow>
               Inr \<lparr>f_ordinal = ordinal, f_src_actor = w_src_actor wire,
                    f_dst_actor = w_dst_actor wire, f_channel_id = w_channel_id wire,
                    f_src_seq = w_src_seq wire, f_observed_ns = 0,
                    f_header = \<lparr>h_event_type = event_type, h_schema = w_schema wire,
                      h_flags = w_flags wire\<rparr>,
                    f_body = body\<rparr>))"

definition names_request :: "event_type \<Rightarrow> bool" where
  "names_request e \<longleftrightarrow>
     e \<in> {EvGoalResponse, EvFeedback, EvResult, EvCancelResponse, EvServiceResponse}"

definition request_ref_of :: "frame list \<Rightarrow> frame \<Rightarrow> ref_error + request_ref option" where
  "request_ref_of recording inp =
     (if \<not> names_request (f_event_type inp) then Inr None
      else case get_range 0 8 (f_body inp) of
        None \<Rightarrow> Inl (NoRequestOrdinal (f_ordinal inp))
      | Some bs \<Rightarrow>
          let request_ordinal = from_le bs in
          case get_at recording (unat request_ordinal) of
            None \<Rightarrow> Inl (RequestNotHeld (f_ordinal inp) request_ordinal)
          | Some request \<Rightarrow>
              if f_ordinal request \<noteq> request_ordinal
              then Inl (RequestNotHeld (f_ordinal inp) request_ordinal)
              else if frame_kind request \<noteq> KEmit \<or> f_src_actor request \<noteq> COMPONENT_ACTOR_ID \<or>
                      f_ordinal request \<ge> f_ordinal inp
              then Inl (NotAnEarlierEffect (f_ordinal inp) request_ordinal)
              else Inr (Some \<lparr>rr_ordinal = f_ordinal request, rr_src_actor = f_src_actor request,
                           rr_dst_actor = f_dst_actor request, rr_channel_id = f_channel_id request,
                           rr_src_seq = f_src_seq request\<rparr>))"

subsection \<open>Delivering one input\<close>

record 's driver =
  d_adapter :: 's
  d_queue :: "response list" \<comment> \<open>written by the adapter, not yet read\<close>
  d_frames :: "frame list"
  d_steps :: "delivered list"
  d_effects :: "(u64 \<times> u64) list"
  d_progress :: "(u64 \<times> string \<times> u64) list"
  d_pending :: "pending list"
  d_session_sequence :: u64
  d_effect_sequences :: "u32 \<Rightarrow> u64 option"

definition send_request :: "'s adapter \<Rightarrow> request \<Rightarrow> 's driver \<Rightarrow> 's driver" where
  "send_request react request st =
     (let (s, ls) = react (d_adapter st) request
      in st\<lparr>d_adapter := s, d_queue := d_queue st @ ls\<rparr>)"

definition push_frame :: "frame list \<Rightarrow> frame \<Rightarrow> frame list" where
  "push_frame fs f = fs @ [f\<lparr>f_ordinal := word_of_nat (length fs), f_observed_ns := 0\<rparr>]"

definition issued_by_component :: "frame list \<Rightarrow> request_ref \<Rightarrow> frame option" where
  "issued_by_component fs request =
     find (\<lambda>f. frame_kind f = KEmit \<and> f_src_actor f = COMPONENT_ACTOR_ID \<and>
       f_channel_id f = rr_channel_id request \<and> f_src_seq f = rr_src_seq request) fs"

text \<open>The text of the refusal of a response whose request this run did not make, or \<open>None\<close>.\<close>

definition unanswered :: "frame list \<Rightarrow> frame list \<Rightarrow> frame \<Rightarrow> request_ref \<Rightarrow> string option" where
  "unanswered recording fs recorded request =
     (let recorded_request = recording ! unat (rr_ordinal request);
          issued = issued_by_component fs request
      in if (case issued of None \<Rightarrow> False
             | Some i \<Rightarrow> f_dst_actor i = f_dst_actor recorded_request \<and>
                 f_event_type i = f_event_type recorded_request \<and>
                 f_body i = f_body recorded_request)
         then None
         else Some (case issued of
             Some _ \<Rightarrow>
               ''recorded response at ordinal '' @ show_word (f_ordinal recorded) @
               '' answers recorded request '' @ show_word (rr_ordinal request) @
               '', but this run's request on channel '' @ show_word (rr_channel_id request) @
               '' sequence '' @ show_word (rr_src_seq request) @ '' differs from it''
           | None \<Rightarrow>
               ''recorded response at ordinal '' @ show_word (f_ordinal recorded) @
               '' answers recorded request '' @ show_word (rr_ordinal request) @
               '', which this run never issued''))"

definition authorized_callbacks :: "'s driver \<Rightarrow> frame \<Rightarrow> request_ref option \<Rightarrow> u64 list" where
  "authorized_callbacks st recorded request =
     [f_ordinal recorded] @
     (if f_event_type recorded = EvClock
      then (case get_range 10 18 (f_body recorded) of None \<Rightarrow> [] | Some bs \<Rightarrow> [from_le bs])
      else []) @
     (case request of
        None \<Rightarrow> []
      | Some r \<Rightarrow>
          (case find (\<lambda>f. frame_kind f = KEmit \<and> f_channel_id f = rr_channel_id r \<and>
                       f_src_seq f = rr_src_seq r) (d_frames st) of
             None \<Rightarrow> []
           | Some issued \<Rightarrow>
               (case find (\<lambda>(_, ordinal). ordinal = f_ordinal issued) (d_effects st) of
                  None \<Rightarrow> []
                | Some (callback, _) \<Rightarrow> [callback])))"

text \<open>The arm of the receive loop for \<open>Response::Effect\<close>.\<close>

definition accept_effect ::
  "frame \<Rightarrow> u64 list \<Rightarrow> u64 \<Rightarrow> u64 \<Rightarrow> wire_frame \<Rightarrow> 's driver \<Rightarrow> replay_failure + 's driver" where
  "accept_effect recorded authorized stp callback effect st =
     (if stp \<noteq> f_ordinal recorded \<or> callback \<notin> set authorized
      then Inl (UnauthorizedEffect stp callback authorized)
      else case frame_from_wire 0 effect of
        Inl e \<Rightarrow> Inl (BadEffectWire e)
      | Inr f \<Rightarrow>
          if f_src_actor f \<noteq> COMPONENT_ACTOR_ID \<or> frame_kind f \<noteq> KEmit
          then Inl (NotAComponentEffect (f_event_type f) (f_src_actor f))
          else if h_schema (f_header f) \<noteq> EVENT_SCHEMA \<or>
                  h_flags (f_header f) AND NOT FLAGS_DEFINED \<noteq> 0
          then Inl (BadEffectHeader (h_schema (f_header f)) (h_flags (f_header f)))
          else let expected = next_seq (d_effect_sequences st) (f_channel_id f) in
            if f_src_seq f \<noteq> expected
            then Inl (BadEffectSequence (f_channel_id f) (f_src_seq f) expected)
            else Inr (st\<lparr>d_effect_sequences :=
                          (d_effect_sequences st)(f_channel_id f \<mapsto> expected + 1),
                        d_frames := push_frame (d_frames st) f,
                        d_effects := d_effects st @
                          [(callback, word_of_nat (length (d_frames st)))]\<rparr>))"

text \<open>The arm for \<open>Response::Stepped\<close>: the driver after the step, and the stop if it ends the run.\<close>

definition accept_stepped ::
  "frame \<Rightarrow> u64 \<Rightarrow> u64 \<Rightarrow> step_status \<Rightarrow> string option \<Rightarrow> pending list \<Rightarrow> 's driver \<Rightarrow>
     replay_failure + 's driver \<times> stop option" where
  "accept_stepped recorded replayed_ordinal ordinal stat reason ps st =
     (if ordinal \<noteq> f_ordinal recorded then Inl (AnsweredOther ordinal (f_ordinal recorded))
      else if stat = StatusRefused then
        (if word_of_nat (length (d_frames st)) \<noteq> replayed_ordinal + 1
         then Inl EffectsForRefusedInput
         else Inr (st\<lparr>d_pending := ps, d_frames := butlast (d_frames st),
                     d_steps := d_steps st @
                       [\<lparr>dl_recorded_ordinal = f_ordinal recorded, dl_replayed_ordinal = None,
                         dl_status = stat, dl_reason = reason\<rparr>]\<rparr>,
                   Some (StopRefused (f_ordinal recorded)
                     (case reason of None \<Rightarrow> [] | Some t \<Rightarrow> t))))
      else Inr (st\<lparr>d_pending := ps,
                  d_session_sequence :=
                    (if f_src_actor recorded = SESSION_ACTOR_ID \<and>
                        f_channel_id recorded = SESSION_CHANNEL_ID
                     then f_src_seq recorded + 1 else d_session_sequence st),
                  d_steps := d_steps st @
                    [\<lparr>dl_recorded_ordinal = f_ordinal recorded,
                      dl_replayed_ordinal = Some replayed_ordinal,
                      dl_status = stat, dl_reason = reason\<rparr>]\<rparr>,
                None))"

text \<open>The receive loop: reads lines off the queue up to the \<open>stepped\<close> line.\<close>

fun receive_lines ::
  "frame \<Rightarrow> u64 list \<Rightarrow> u64 \<Rightarrow> response list \<Rightarrow> 's driver \<Rightarrow>
     replay_failure + 's driver \<times> stop option" where
  "receive_lines recorded authorized replayed_ordinal [] st = Inl AdapterClosed"
| "receive_lines recorded authorized replayed_ordinal (EffectLine stp callback effect # ls) st =
     (case accept_effect recorded authorized stp callback effect st of
        Inl e \<Rightarrow> Inl e
      | Inr st' \<Rightarrow> receive_lines recorded authorized replayed_ordinal ls st')"
| "receive_lines recorded authorized replayed_ordinal (ProgressLine stp callback name # ls) st =
     (if stp \<noteq> f_ordinal recorded \<or> callback \<notin> set authorized
      then Inl (UnauthorizedProgress name stp callback authorized)
      else receive_lines recorded authorized replayed_ordinal ls
        (st\<lparr>d_progress := d_progress st @
             [(callback, name, word_of_nat (length (d_frames st)) - 1)]\<rparr>))"
| "receive_lines recorded authorized replayed_ordinal (Stepped ordinal stat reason ps # ls) st =
     accept_stepped recorded replayed_ordinal ordinal stat reason ps (st\<lparr>d_queue := ls\<rparr>)"
| "receive_lines recorded authorized replayed_ordinal (other # ls) st =
     Inl (UnexpectedStepAnswer other)"

text \<open>The body of the loop over the recording, for an input that is delivered.\<close>

definition deliver_input ::
  "'s adapter \<Rightarrow> frame list \<Rightarrow> frame \<Rightarrow> 's driver \<Rightarrow> replay_failure + 's driver \<times> stop option" where
  "deliver_input react recording recorded st =
     (case request_ref_of recording recorded of
        Inl e \<Rightarrow> Inl (BadRequestRef e)
      | Inr request \<Rightarrow>
          (case (case request of None \<Rightarrow> None
                 | Some r \<Rightarrow> unanswered recording (d_frames st) recorded r) of
             Some reason \<Rightarrow>
               Inr (st\<lparr>d_steps := d_steps st @
                       [\<lparr>dl_recorded_ordinal = f_ordinal recorded, dl_replayed_ordinal = None,
                         dl_status = StatusRefused, dl_reason = Some reason\<rparr>]\<rparr>,
                    Some (StopRefused (f_ordinal recorded) reason))
           | None \<Rightarrow>
               let st1 = send_request react (StepRequest (wire_of_frame recorded) request) st;
                   authorized = authorized_callbacks st1 recorded request;
                   replayed_ordinal = word_of_nat (length (d_frames st1))
               in receive_lines recorded authorized replayed_ordinal (d_queue st1)
                    (st1\<lparr>d_frames := push_frame (d_frames st1) recorded\<rparr>)))"

subsection \<open>The replay\<close>

fun deliver ::
  "'s adapter \<Rightarrow> frame list \<Rightarrow> frame list \<Rightarrow> 's driver \<Rightarrow> replay_failure + 's driver \<times> stop" where
  "deliver react recording [] st = Inr (st, StopExhausted)"
| "deliver react recording (recorded # rest) st =
     (if f_event_type recorded = EvSession then
        deliver react recording rest
          (st\<lparr>d_frames := push_frame (d_frames st) recorded,
             d_session_sequence := f_src_seq recorded + 1\<rparr>)
      else if f_event_type recorded = EvEnd then Inr (st, StopExhausted)
      else if f_event_type recorded = EvGap then
        (case decode_gap (f_ordinal recorded) (f_body recorded) of
           Inl e \<Rightarrow> Inl (BadMarker e)
         | Inr g \<Rightarrow> Inr (st, StopGap (f_ordinal recorded) g))
      else if frame_kind recorded = KEmit then deliver react recording rest st
      else case deliver_input react recording recorded st of
        Inl e \<Rightarrow> Inl e
      | Inr (st', Some stp) \<Rightarrow> Inr (st', stp)
      | Inr (st', None) \<Rightarrow> deliver react recording rest st')"

definition receive :: "'s driver \<Rightarrow> replay_failure + response \<times> 's driver" where
  "receive st =
     (case d_queue st of [] \<Rightarrow> Inl AdapterClosed | l # ls \<Rightarrow> Inr (l, st\<lparr>d_queue := ls\<rparr>))"

definition requested_state :: "hash_fn \<Rightarrow> starting_state_id" where
  "requested_state h = \<lparr>ss_method = ''fresh'', ss_blake3 = fresh_state_blake3 h\<rparr>"

definition start_adapter ::
  "hash_fn \<Rightarrow> 's adapter \<Rightarrow> 's \<Rightarrow> string \<Rightarrow> string \<Rightarrow> replay_failure + 's driver" where
  "start_adapter h react s corpus scenario =
     (let st = send_request react (Start PROTOCOL_VERSION corpus scenario (requested_state h))
           \<lparr>d_adapter = s, d_queue = [], d_frames = [], d_steps = [], d_effects = [],
            d_progress = [], d_pending = [], d_session_sequence = 0,
            d_effect_sequences = Map.empty\<rparr>
      in case receive st of
        Inl e \<Rightarrow> Inl e
      | Inr (Started protocol i eps chs state, st') \<Rightarrow>
          if protocol \<noteq> PROTOCOL_VERSION
          then Inl (UnexpectedStartAnswer (Started protocol i eps chs state))
          else if state \<noteq> requested_state h then Inl (WrongStartingState state)
          else Inr st'
      | Inr (StartRefused reason, st') \<Rightarrow> Inl (AdapterRefusedStart reason)
      | Inr (other, st') \<Rightarrow> Inl (UnexpectedStartAnswer other))"

definition finish_adapter ::
  "'s adapter \<Rightarrow> finish_reason \<Rightarrow> 's driver \<Rightarrow> replay_failure + pending list" where
  "finish_adapter react finish_reason st =
     (case receive (send_request react (Finish finish_reason) st) of
        Inl e \<Rightarrow> Inl e
      | Inr (Finished reason ps reported, st') \<Rightarrow>
          if reason \<noteq> finish_reason then Inl (WrongFinishReason reason)
          else if reported \<noteq> word_of_nat (length (d_effects st))
          then Inl (WrongEffectCount reported (length (d_effects st)))
          else Inr ps
      | Inr (other, st') \<Rightarrow> Inl (UnexpectedFinishAnswer other))"

definition end_frame :: "id16 \<Rightarrow> u64 \<Rightarrow> u64 \<Rightarrow> frame" where
  "end_frame uuid frame_count session_sequence =
     \<lparr>f_ordinal = frame_count, f_src_actor = SESSION_ACTOR_ID, f_dst_actor = SESSION_ACTOR_ID,
      f_channel_id = SESSION_CHANNEL_ID, f_src_seq = session_sequence, f_observed_ns = 0,
      f_header = \<lparr>h_event_type = EvEnd, h_schema = 1, h_flags = 0\<rparr>,
      f_body = encode_end \<lparr>en_uuid = uuid, en_frame_count = frame_count\<rparr>\<rparr>"

definition finish_reason_of :: "stop \<Rightarrow> finish_reason" where
  "finish_reason_of stp = (if stp = StopExhausted then FinishExhausted else FinishScope)"

definition replay_recording ::
  "hash_fn \<Rightarrow> 's adapter \<Rightarrow> 's \<Rightarrow> frame list \<Rightarrow> string \<Rightarrow> string \<Rightarrow> replay_failure + run" where
  "replay_recording h react s recording corpus scenario =
     (case recording of
        [] \<Rightarrow> Inl EmptyRecording
      | session_frame # _ \<Rightarrow>
          (case decode_session (f_body session_frame) of
             Inl e \<Rightarrow> Inl (BadMarker e)
           | Inr sess \<Rightarrow>
               (case start_adapter h react s corpus scenario of
                  Inl e \<Rightarrow> Inl e
                | Inr st0 \<Rightarrow>
                    (case deliver react recording recording st0 of
                       Inl e \<Rightarrow> Inl e
                     | Inr (st, stp) \<Rightarrow>
                         (case finish_adapter react (finish_reason_of stp) st of
                            Inl e \<Rightarrow> Inl e
                          | Inr ps \<Rightarrow>
                              Inr \<lparr>r_frames = d_frames st @
                                     [end_frame (s_uuid sess) (word_of_nat (length (d_frames st)))
                                        (d_session_sequence st)],
                                   r_steps = d_steps st, r_effects = d_effects st,
                                   r_progress = d_progress st,
                                   r_pending_after_last_step = d_pending st,
                                   r_pending_at_finish = ps, r_stop = stp,
                                   r_finish_reason = finish_reason_of stp\<rparr>)))))"

subsection \<open>Comparison\<close>

record comparison =
  cm_recorded_effects :: nat
  cm_replayed_effects :: nat
  cm_first_difference :: "nat option"
  cm_recorded_hashes :: native_hashes
  cm_replayed_hashes :: native_hashes

definition effects_agree :: "comparison \<Rightarrow> bool" where
  "effects_agree c \<longleftrightarrow> cm_first_difference c = None"

definition run_agrees :: "comparison \<Rightarrow> bool" where
  "run_agrees c \<longleftrightarrow> n_run_hash (cm_recorded_hashes c) = n_run_hash (cm_replayed_hashes c)"

definition effect_key :: "frame \<Rightarrow> u32 \<times> u32 \<times> event_type \<times> u32 \<times> bytes" where
  "effect_key f =
     (f_dst_actor f, f_channel_id f, f_event_type f, h_flags (f_header f), f_body f)"

definition compare_effects :: "frame list \<Rightarrow> frame list \<Rightarrow> nat option" where
  "compare_effects recorded replayed =
     (let shared = min (length recorded) (length replayed);
          first = find (\<lambda>i. effect_key (recorded ! i) \<noteq> effect_key (replayed ! i)) [0..<shared]
      in if first = None \<and> length recorded \<noteq> length replayed then Some shared else first)"

definition compare ::
  "hash_fn \<Rightarrow> keyed_fn \<Rightarrow> bytes \<Rightarrow> frame list \<Rightarrow> run \<Rightarrow> comparison" where
  "compare h kh corpus recording r =
     (let recorded = filter is_emit recording; replayed = filter is_emit (r_frames r)
      in \<lparr>cm_recorded_effects = length recorded, cm_replayed_effects = length replayed,
          cm_first_difference = compare_effects recorded replayed,
          cm_recorded_hashes = hash_frames h kh corpus recording,
          cm_replayed_hashes = hash_frames h kh corpus (r_frames r)\<rparr>)"

section \<open>Lemmas\<close>

subsection \<open>Frames on the protocol\<close>

definition core :: "frame \<Rightarrow> frame" where
  "core f = f\<lparr>f_ordinal := 0, f_observed_ns := 0\<rparr>"

lemma frame_from_wire_of_frame:
  "frame_from_wire n (wire_of_frame f) = Inr (f\<lparr>f_ordinal := n, f_observed_ns := 0\<rparr>)"
  by (simp add: frame_from_wire_def wire_of_frame_def)

lemma core_fields:
  "f_src_actor (core f) = f_src_actor f" "f_dst_actor (core f) = f_dst_actor f"
  "f_channel_id (core f) = f_channel_id f" "f_src_seq (core f) = f_src_seq f"
  "f_header (core f) = f_header f" "f_body (core f) = f_body f"
  by (simp_all add: core_def)

lemma core_push: "core (f\<lparr>f_ordinal := n, f_observed_ns := m\<rparr>) = core f"
  by (simp add: core_def)

lemma core_eqD:
  assumes "core f = core g"
  shows "f_src_actor f = f_src_actor g" "f_channel_id f = f_channel_id g" "f_src_seq f = f_src_seq g"
    "f_dst_actor f = f_dst_actor g" "f_header f = f_header g" "f_body f = f_body g"
  using arg_cong [OF assms, of f_src_actor] arg_cong [OF assms, of f_channel_id]
    arg_cong [OF assms, of f_src_seq] arg_cong [OF assms, of f_dst_actor]
    arg_cong [OF assms, of f_header] arg_cong [OF assms, of f_body]
  by (simp_all add: core_fields)

lemma request_ref_of_Some:
  assumes "request_ref_of recording inp = Inr (Some r)"
  shows "\<exists>i < length recording. f_ordinal (recording ! i) = rr_ordinal r \<and> i = unat (rr_ordinal r) \<and>
    is_emit (recording ! i) \<and> f_src_actor (recording ! i) = COMPONENT_ACTOR_ID \<and>
    f_channel_id (recording ! i) = rr_channel_id r \<and> f_src_seq (recording ! i) = rr_src_seq r \<and>
    rr_ordinal r < f_ordinal inp"
  using assms
  by (auto simp: request_ref_of_def get_at_Some is_emit_def not_le Let_def
      split: if_splits option.splits)

subsection \<open>The invariant of the replayed stream\<close>

text \<open>
  The driver checks everything the stream decoder will but the layout of an effect's body, so the
  frames it collects form the prefix of a stream up to \<open>fits\<close>.
\<close>

definition fits :: "frame \<Rightarrow> bool" where
  "fits f \<longleftrightarrow> body_fits (f_event_type f) (f_body f) \<and> length (payload f) < 2 ^ 32"

definition sound_prefix :: "frame list \<Rightarrow> bool" where
  "sound_prefix fs \<longleftrightarrow>
     (\<forall>i < length fs. (fits (fs ! i) \<longrightarrow> frame_ok (take i fs) (fs ! i)) \<and>
        (\<not> is_emit (fs ! i) \<longrightarrow> fits (fs ! i)))"

lemma sound_prefix_Nil [simp]: "sound_prefix []"
  by (simp add: sound_prefix_def)

lemma sound_prefix_snoc [simp]:
  "sound_prefix (fs @ [f]) \<longleftrightarrow>
     sound_prefix fs \<and> (fits f \<longrightarrow> frame_ok fs f) \<and> (\<not> is_emit f \<longrightarrow> fits f)"
  by (auto simp: sound_prefix_def nth_append less_Suc_eq)

lemma frame_ok_fits: "frame_ok fs f \<Longrightarrow> fits f"
  by (simp add: frame_ok_def wf_frame_def fits_def)

lemma sound_prefix_ok: "sound_prefix fs \<Longrightarrow> ok_prefix fs \<longleftrightarrow> (\<forall>f\<in>set fs. is_emit f \<longrightarrow> fits f)"
  by (induction fs rule: rev_induct) (auto dest: frame_ok_fits)

text \<open>The component sends exactly the effects: what the sequence rule needs of a recording.\<close>

definition component_emits :: "frame list \<Rightarrow> bool" where
  "component_emits fs \<longleftrightarrow> (\<forall>f\<in>set fs. is_emit f \<longleftrightarrow> f_src_actor f = COMPONENT_ACTOR_ID)"

definition inputs_of :: "frame list \<Rightarrow> frame list" where
  "inputs_of fs = map core (filter (\<lambda>f. \<not> is_emit f) fs)"

lemma inputs_of_simps [simp]:
  "inputs_of [] = []"
  "inputs_of (fs @ gs) = inputs_of fs @ inputs_of gs"
  "inputs_of (f # fs) = (if is_emit f then inputs_of fs else core f # inputs_of fs)"
  by (simp_all add: inputs_of_def)

lemma seq_count_simps [simp]:
  "seq_count [] k = 0"
  "seq_count (fs @ gs) k = seq_count fs k + seq_count gs k"
  "seq_count (f # fs) k = (if sequence_key f = k then 1 else 0) + seq_count fs k"
  by (simp_all add: seq_count_def)

lemma seq_count_inputs:
  assumes "component_emits fs" and "a \<noteq> COMPONENT_ACTOR_ID"
  shows "seq_count fs (a, ch) = length (filter (\<lambda>g. sequence_key g = (a, ch)) (inputs_of fs))"
  using assms
  by (induction fs) (auto simp: component_emits_def sequence_key_def core_fields)

lemma seq_count_inputs_eq:
  assumes "component_emits fs" "component_emits gs" "a \<noteq> COMPONENT_ACTOR_ID"
    and "inputs_of fs = inputs_of gs"
  shows "seq_count fs (a, ch) = seq_count gs (a, ch)"
  using assms by (simp add: seq_count_inputs)

definition renumbered :: "frame list \<Rightarrow> bool" where
  "renumbered fs \<longleftrightarrow> map f_ordinal fs = map word_of_nat [0..<length fs]"

lemma renumbered_simps [simp]:
  "renumbered []"
  "renumbered (push_frame fs f) \<longleftrightarrow> renumbered fs"
  "f_ordinal f = word_of_nat (length fs) \<Longrightarrow> renumbered (fs @ [f]) \<longleftrightarrow> renumbered fs"
  by (simp_all add: renumbered_def push_frame_def)

definition frames_inv :: "(u32 \<Rightarrow> u64 option) \<Rightarrow> frame list \<Rightarrow> bool" where
  "frames_inv seqs fs \<longleftrightarrow>
     sound_prefix fs \<and> renumbered fs \<and> component_emits fs \<and> (\<forall>f\<in>set fs. f_observed_ns f = 0 \<and> f_event_type f \<noteq> EvEnd) \<and>
     (\<forall>ch. next_seq seqs ch = word_of_nat (seq_count fs (COMPONENT_ACTOR_ID, ch)))"

lemma no_end_last: "\<forall>f\<in>set fs. f_event_type f \<noteq> EvEnd \<Longrightarrow> fs \<noteq> [] \<longrightarrow> f_event_type (last fs) \<noteq> EvEnd"
  by auto

lemma emit_type:
  assumes "is_emit f"
  shows "f_event_type f \<notin> {EvSession, EvEnd, EvGap}" and "expected_tuple (f_event_type f) = None"
  using assms by (cases "f_event_type f"; simp add: is_emit_def frame_kind_def)+

lemma frames_inv_effect:
  assumes inv: "frames_inv seqs fs" and sess: "session_of fs \<noteq> None"
    and f: "is_emit f" "f_src_actor f = COMPONENT_ACTOR_ID" "wf_header (f_header f)"
    and seq: "f_src_seq f = next_seq seqs (f_channel_id f)"
  shows "frames_inv (seqs(f_channel_id f \<mapsto> f_src_seq f + 1)) (push_frame fs f)"
proof -
  let ?f = "f\<lparr>f_ordinal := word_of_nat (length fs), f_observed_ns := 0\<rparr>"
  have emit: "is_emit ?f" using f(1) by (simp add: is_emit_def frame_kind_def)
  have "frame_ok fs ?f" if "fits ?f"
    using that inv sess f(2,3) seq emit_type [OF f(1)]
    by (cases "f_event_type f")
      (auto simp: frame_ok_def fits_def wf_frame_def frames_inv_def sequence_key_def marker_ok_def payload_def)
  then show ?thesis
    using inv f emit emit_type(1) [OF f(1)] seq
    by (auto simp: frames_inv_def push_frame_def component_emits_def next_seq_def sequence_key_def)
qed

lemma session_of_push:
  "session_of (push_frame fs f) = (if fs = [] then session_of [f] else session_of fs)"
  by (simp add: push_frame_def session_of_snoc) (simp add: session_of_def)

lemma frames_inv_input:
  assumes inv: "frames_inv seqs fs" and ok: "frame_ok dn f" and emits: "component_emits (dn @ [f])"
    and inputs: "inputs_of fs = inputs_of dn" and not_emit: "\<not> is_emit f"
    and type: "f_event_type f \<notin> {EvEnd, EvGap}"
    and sess: "f_event_type f = EvSession \<and> fs = [] \<or> f_event_type f \<noteq> EvSession \<and> session_of fs \<noteq> None"
  shows "frames_inv seqs (push_frame fs f)"
proof -
  let ?f = "f\<lparr>f_ordinal := word_of_nat (length fs), f_observed_ns := 0\<rparr>"
  have emit: "\<not> is_emit ?f" using not_emit by (simp add: is_emit_def frame_kind_def)
  have src: "f_src_actor f \<noteq> COMPONENT_ACTOR_ID"
    using emits not_emit by (auto simp: component_emits_def)
  have "component_emits fs" "component_emits dn"
    using inv emits by (auto simp: frames_inv_def component_emits_def)
  from seq_count_inputs_eq [OF this src inputs]
  have count: "seq_count fs (sequence_key f) = seq_count dn (sequence_key f)"
    by (simp add: sequence_key_def)
  have key: "sequence_key ?f = sequence_key f" by (simp add: sequence_key_def)
  have marker: "marker_ok fs ?f"
    using sess type ok
    by (cases "f_event_type f") (auto simp: marker_ok_def frame_ok_def session_of_def split: sum.splits)
  have "frame_ok fs ?f"
    using ok inv marker no_end_last [of fs]
    by (auto simp: frame_ok_def wf_frame_def payload_def frame_tuple_def key count frames_inv_def)
  then show ?thesis
    using inv emit src type frame_ok_fits
    by (auto simp: frames_inv_def push_frame_def component_emits_def sequence_key_def)
qed

subsection \<open>The receive loop\<close>

text \<open>\<open>grown st st'\<close>: between the delivery and the \<open>stepped\<close> line only effects were added.\<close>

definition grown :: "'s driver \<Rightarrow> 's driver \<Rightarrow> bool" where
  "grown st st' \<longleftrightarrow>
     (\<exists>effs. d_frames st' = d_frames st @ effs \<and> (\<forall>f\<in>set effs. is_emit f) \<and>
        (effs = [] \<longrightarrow> d_effect_sequences st' = d_effect_sequences st)) \<and>
     d_session_sequence st' = d_session_sequence st \<and> d_steps st' = d_steps st \<and>
     frames_inv (d_effect_sequences st') (d_frames st')"

lemma accept_effect_grown:
  assumes "accept_effect recorded authorized stp callback w st = Inr st'"
    and "frames_inv (d_effect_sequences st) (d_frames st)" and "session_of (d_frames st) \<noteq> None"
  shows "grown st st'"
proof -
  from assms(1) obtain f where f: "is_emit f" "f_src_actor f = COMPONENT_ACTOR_ID" "wf_header (f_header f)"
    and seq: "f_src_seq f = next_seq (d_effect_sequences st) (f_channel_id f)"
    and st': "st' = st\<lparr>d_effect_sequences := (d_effect_sequences st)(f_channel_id f \<mapsto> f_src_seq f + 1),
        d_frames := push_frame (d_frames st) f,
        d_effects := d_effects st @ [(callback, word_of_nat (length (d_frames st)))]\<rparr>"
    by (auto simp: accept_effect_def is_emit_def wf_header_def Let_def split: if_splits sum.splits)
  have "frames_inv ((d_effect_sequences st)(f_channel_id f \<mapsto> f_src_seq f + 1)) (push_frame (d_frames st) f)"
    using assms(2,3) f seq by (rule frames_inv_effect)
  moreover have "is_emit (f\<lparr>f_ordinal := n, f_observed_ns := 0\<rparr>)" for n
    using f(1) by (simp add: is_emit_def frame_kind_def)
  ultimately show ?thesis by (simp add: grown_def st' push_frame_def)
qed

lemma grown_session: "grown st st' \<Longrightarrow> session_of (d_frames st) \<noteq> None \<Longrightarrow>
    session_of (d_frames st') = session_of (d_frames st)"
  by (cases "d_frames st") (auto simp: grown_def session_of_def)

lemma grown_trans:
  assumes "grown st st1" and "grown st1 st2"
  shows "grown st st2"
proof -
  from assms obtain e1 e2 where
    "d_frames st1 = d_frames st @ e1" "\<forall>f\<in>set e1. is_emit f"
    "e1 = [] \<longrightarrow> d_effect_sequences st1 = d_effect_sequences st"
    "d_frames st2 = d_frames st1 @ e2" "\<forall>f\<in>set e2. is_emit f"
    "e2 = [] \<longrightarrow> d_effect_sequences st2 = d_effect_sequences st1"
    unfolding grown_def by blast
  with assms show ?thesis
    unfolding grown_def by (intro conjI exI [of _ "e1 @ e2"]) auto
qed

lemma receive_lines_grown:
  assumes "receive_lines recorded authorized ro ls st = Inr (st', stp)"
    and "frames_inv (d_effect_sequences st) (d_frames st)" and "session_of (d_frames st) \<noteq> None"
  shows "\<exists>st1 n stat reason ps ls'. grown st st1 \<and>
    accept_stepped recorded ro n stat reason ps (st1\<lparr>d_queue := ls'\<rparr>) = Inr (st', stp)"
  using assms
proof (induction recorded authorized ro ls st rule: receive_lines.induct)
  case (2 recorded authorized ro n callback w ls st)
  from "2.prems"(1) obtain st1 where st1: "accept_effect recorded authorized n callback w st = Inr st1"
    and more: "receive_lines recorded authorized ro ls st1 = Inr (st', stp)"
    by (auto split: sum.splits)
  have g: "grown st st1" using accept_effect_grown [OF st1 "2.prems"(2,3)] .
  then have "frames_inv (d_effect_sequences st1) (d_frames st1)" "session_of (d_frames st1) \<noteq> None"
    using grown_session [OF g "2.prems"(3)] "2.prems"(3) by (simp_all add: grown_def)
  from "2.IH" [OF st1 more this] grown_trans [OF g] show ?case by blast
next
  case (3 recorded authorized ro n callback name ls st)
  let ?st = "st\<lparr>d_progress := d_progress st @ [(callback, name, word_of_nat (length (d_frames st)) - 1)]\<rparr>"
  from "3.prems"(1) have auth: "\<not> (n \<noteq> f_ordinal recorded \<or> callback \<notin> set authorized)"
    and more: "receive_lines recorded authorized ro ls ?st = Inr (st', stp)"
    by (auto split: if_splits)
  have "grown st st1" if "grown ?st st1" for st1 using that by (simp add: grown_def)
  with "3.IH" [OF auth more] "3.prems"(2,3) show ?case by fastforce
next
  case (4 recorded authorized ro n stat reason ps ls st)
  have "grown st st" using "4.prems"(2) by (simp add: grown_def)
  moreover have "accept_stepped recorded ro n stat reason ps (st\<lparr>d_queue := ls\<rparr>) = Inr (st', stp)"
    using "4.prems"(1) by simp
  ultimately show ?case by blast
qed simp_all

subsection \<open>Deliveries\<close>

text \<open>The driver after the frames \<open>dn\<close> of the recording.\<close>

definition driver_inv :: "frame list \<Rightarrow> 's driver \<Rightarrow> bool" where
  "driver_inv dn st \<longleftrightarrow>
     frames_inv (d_effect_sequences st) (d_frames st) \<and> inputs_of (d_frames st) = inputs_of dn \<and>
     d_session_sequence st =
       word_of_nat (seq_count (d_frames st) (SESSION_ACTOR_ID, SESSION_CHANNEL_ID)) \<and>
     session_of (d_frames st) = session_of dn \<and>
     (if dn = [] then d_frames st = [] else session_of dn \<noteq> None)"

lemma inputs_of_emits: "\<forall>f\<in>set fs. is_emit f \<Longrightarrow> inputs_of fs = []"
  by (induction fs) auto

lemma seq_count_emits:
  "component_emits fs \<Longrightarrow> \<forall>f\<in>set fs. is_emit f \<Longrightarrow> a \<noteq> COMPONENT_ACTOR_ID \<Longrightarrow> seq_count fs (a, ch) = 0"
  by (simp add: seq_count_inputs inputs_of_emits)

lemma seq_count_grown:
  assumes "grown st st'" and "a \<noteq> COMPONENT_ACTOR_ID"
  shows "seq_count (d_frames st') (a, ch) = seq_count (d_frames st) (a, ch)"
proof -
  from assms obtain effs where effs: "d_frames st' = d_frames st @ effs" "\<forall>f\<in>set effs. is_emit f"
    and inv: "frames_inv (d_effect_sequences st') (d_frames st')"
    by (auto simp: grown_def)
  then have "component_emits effs" by (auto simp: frames_inv_def component_emits_def)
  then show ?thesis using effs assms(2) by (simp add: seq_count_emits)
qed

lemma inputs_of_grown: "grown st st' \<Longrightarrow> inputs_of (d_frames st') = inputs_of (d_frames st)"
  by (auto simp: grown_def inputs_of_emits)

lemma send_request_fields [simp]:
  "d_frames (send_request react req st) = d_frames st"
  "d_effect_sequences (send_request react req st) = d_effect_sequences st"
  "d_session_sequence (send_request react req st) = d_session_sequence st"
  "d_steps (send_request react req st) = d_steps st"
  "d_effects (send_request react req st) = d_effects st"
  "d_progress (send_request react req st) = d_progress st"
  by (simp_all add: send_request_def split: prod.splits)

lemma session_not_component: "SESSION_ACTOR_ID \<noteq> COMPONENT_ACTOR_ID"
  by (simp add: SESSION_ACTOR_ID_def COMPONENT_ACTOR_ID_def)

text \<open>A recorded input: what the replay assumes of each frame it delivers.\<close>

definition next_input_ok :: "frame list \<Rightarrow> frame \<Rightarrow> bool" where
  "next_input_ok dn f \<longleftrightarrow>
     dn \<noteq> [] \<and> frame_ok dn f \<and> component_emits (dn @ [f]) \<and> \<not> is_emit f \<and>
     f_event_type f \<notin> {EvSession, EvEnd, EvGap}"

lemma push_input_inv:
  assumes inv: "driver_inv dn st" and ok: "next_input_ok dn f"
  shows "frames_inv (d_effect_sequences st) (push_frame (d_frames st) f)"
    and "session_of (push_frame (d_frames st) f) = session_of dn" and "session_of dn \<noteq> None"
    and "inputs_of (push_frame (d_frames st) f) = inputs_of (dn @ [f])"
proof -
  have sess: "session_of (d_frames st) = session_of dn" "session_of dn \<noteq> None"
    using inv ok by (auto simp: driver_inv_def next_input_ok_def)
  show "frames_inv (d_effect_sequences st) (push_frame (d_frames st) f)"
    using inv ok sess
    by (intro frames_inv_input [of _ _ dn]) (auto simp: driver_inv_def next_input_ok_def)
  show "session_of (push_frame (d_frames st) f) = session_of dn"
  proof -
    have "d_frames st \<noteq> []" using sess by (auto simp: session_of_def)
    with sess show ?thesis by (simp add: session_of_push)
  qed
  show "session_of dn \<noteq> None" by (rule sess)
  have "\<not> is_emit (f\<lparr>f_ordinal := n, f_observed_ns := 0\<rparr>)" for n
    using ok by (simp add: next_input_ok_def is_emit_def frame_kind_def)
  then show "inputs_of (push_frame (d_frames st) f) = inputs_of (dn @ [f])"
    using inv ok by (simp add: driver_inv_def next_input_ok_def push_frame_def core_push)
qed

lemma deliver_input_inv:
  assumes inv: "driver_inv dn st" and ok: "next_input_ok dn f"
    and run: "deliver_input react recording f st = Inr (st', stp)"
  shows "stp = None \<Longrightarrow> driver_inv (dn @ [f]) st'"
    and "stp = Some s \<Longrightarrow> length (d_frames st') < 2 ^ 64 - 1 \<Longrightarrow>
      driver_inv dn st' \<and> s \<noteq> StopExhausted"
proof -
  from run obtain request where req: "request_ref_of recording f = Inr request"
    by (auto simp: deliver_input_def split: sum.splits)
  let ?refusal = "case request of None \<Rightarrow> None | Some r \<Rightarrow> unanswered recording (d_frames st) f r"
  have goal: "(stp = None \<longrightarrow> driver_inv (dn @ [f]) st') \<and>
      (\<forall>s. stp = Some s \<longrightarrow> length (d_frames st') < 2 ^ 64 - 1 \<longrightarrow> driver_inv dn st' \<and> s \<noteq> StopExhausted)"
  proof (cases ?refusal)
    case (Some reason)
    with run req inv show ?thesis by (auto simp: deliver_input_def driver_inv_def)
  next
    case None
    define st1 where "st1 = send_request react (StepRequest (wire_of_frame f) request) st"
    define st2 where "st2 = st1\<lparr>d_frames := push_frame (d_frames st1) f\<rparr>"
    have recv: "receive_lines f (authorized_callbacks st1 f request)
        (word_of_nat (length (d_frames st))) (d_queue st1) st2 = Inr (st', stp)"
      using run None by (simp add: deliver_input_def req st2_def st1_def Let_def)
    note pushed = push_input_inv [OF inv ok]
    have st2: "d_frames st2 = push_frame (d_frames st) f" "d_effect_sequences st2 = d_effect_sequences st"
      "d_session_sequence st2 = d_session_sequence st"
      by (simp_all add: st2_def st1_def)
    have inv2: "frames_inv (d_effect_sequences st2) (d_frames st2)" and sess2: "session_of (d_frames st2) \<noteq> None"
      using pushed by (simp_all add: st2)
    from receive_lines_grown [OF recv inv2 sess2] obtain st3 n stat reason ps ls where
      grown: "grown st2 st3"
      and stepped: "accept_stepped f (word_of_nat (length (d_frames st))) n stat reason ps
        (st3\<lparr>d_queue := ls\<rparr>) = Inr (st', stp)" by blast
    show ?thesis
    proof (cases "stat = StatusRefused")
      case False
      have keep: "stp = None" "d_frames st' = d_frames st3" "d_effect_sequences st' = d_effect_sequences st3"
        "d_session_sequence st' = (if f_src_actor f = SESSION_ACTOR_ID \<and> f_channel_id f = SESSION_CHANNEL_ID
           then f_src_seq f + 1 else d_session_sequence st)"
        using stepped False grown st2 by (auto simp: accept_stepped_def grown_def split: if_splits)
      have cnt: "seq_count (d_frames st3) (SESSION_ACTOR_ID, SESSION_CHANNEL_ID) =
          seq_count (d_frames st) (SESSION_ACTOR_ID, SESSION_CHANNEL_ID) +
          (if f_src_actor f = SESSION_ACTOR_ID \<and> f_channel_id f = SESSION_CHANNEL_ID then 1 else 0)"
        using seq_count_grown [OF grown session_not_component, of SESSION_CHANNEL_ID]
        by (simp add: st2 push_frame_def sequence_key_def)
      have emits: "component_emits (d_frames st)" "component_emits dn"
        using inv ok by (auto simp: driver_inv_def frames_inv_def next_input_ok_def component_emits_def)
      have "f_src_seq f = word_of_nat (seq_count (d_frames st) (SESSION_ACTOR_ID, SESSION_CHANNEL_ID))"
        if "f_src_actor f = SESSION_ACTOR_ID" "f_channel_id f = SESSION_CHANNEL_ID"
        using ok that seq_count_inputs_eq [OF emits session_not_component, of SESSION_CHANNEL_ID] inv
        by (simp add: next_input_ok_def frame_ok_def sequence_key_def driver_inv_def)
      then have "d_session_sequence st' =
          word_of_nat (seq_count (d_frames st') (SESSION_ACTOR_ID, SESSION_CHANNEL_ID))"
        using inv by (auto simp: keep cnt driver_inv_def)
      moreover have "inputs_of (d_frames st') = inputs_of (dn @ [f])"
        using inputs_of_grown [OF grown] pushed(4) by (simp add: keep st2)
      moreover have "session_of (d_frames st') = session_of dn"
        using grown_session [OF grown sess2] pushed(2) by (simp add: keep st2)
      moreover have "session_of (dn @ [f]) = session_of dn"
        using ok by (simp add: session_of_snoc next_input_ok_def)
      moreover have "frames_inv (d_effect_sequences st') (d_frames st')"
        using grown by (simp add: keep grown_def)
      ultimately show ?thesis using pushed(3) keep(1) by (simp add: driver_inv_def)
    next
      case True
      from grown obtain effs where effs: "d_frames st3 = d_frames st2 @ effs"
        "effs = [] \<longrightarrow> d_effect_sequences st3 = d_effect_sequences st2"
        by (auto simp: grown_def)
      have stop: "stp = Some (StopRefused (f_ordinal f) (case reason of None \<Rightarrow> [] | Some t \<Rightarrow> t))"
        and st': "d_frames st' = butlast (d_frames st3)" "d_effect_sequences st' = d_effect_sequences st3"
          "d_session_sequence st' = d_session_sequence st3"
        and len: "(word_of_nat (length (d_frames st3)) :: u64) = word_of_nat (length (d_frames st)) + 1"
        using stepped True by (auto simp: accept_stepped_def split: if_splits)
      have "effs = []" if "length (d_frames st') < 2 ^ 64 - 1"
      proof -
        have l3: "length (d_frames st3) = Suc (length (d_frames st)) + length effs"
          by (simp add: effs(1) st2 push_frame_def)
        then have small: "length (d_frames st3) < 2 ^ 64" using that by (simp add: st'(1))
        have "(word_of_nat (length (d_frames st3)) :: u64) = word_of_nat (Suc (length (d_frames st)))"
          using len by (simp add: add.commute)
        moreover have "Suc (length (d_frames st)) < 2 ^ 64" using small l3 by simp
        ultimately have "length (d_frames st3) = Suc (length (d_frames st))"
          using u64_of_nat_eq [OF small] by blast
        then show "effs = []" using l3 by simp
      qed
      then have "driver_inv dn st'" if "length (d_frames st') < 2 ^ 64 - 1"
        using that inv effs st2 st' grown
        by (simp add: driver_inv_def grown_def push_frame_def)
      with stop show ?thesis by simp
    qed
  qed
  show "stp = None \<Longrightarrow> driver_inv (dn @ [f]) st'"
    and "stp = Some s \<Longrightarrow> length (d_frames st') < 2 ^ 64 - 1 \<Longrightarrow> driver_inv dn st' \<and> s \<noteq> StopExhausted"
    using goal by auto
qed

subsection \<open>Replays\<close>

lemma ok_prefix_append: "ok_prefix (fs @ gs) \<Longrightarrow> ok_prefix fs"
  by (induction gs rule: rev_induct) (auto simp flip: append_assoc)

lemma ok_prefix_middle: "ok_prefix (fs @ f # gs) \<Longrightarrow> frame_ok fs f"
  using ok_prefix_append [of "fs @ [f]" gs] by simp

lemma valid_first:
  assumes "valid_stream (f # fs)"
  shows "f_event_type f = EvSession" and "\<exists>s. decode_session (f_body f) = Inr s \<and> session_of (f # fs) = Some s"
  using valid_stream_session [OF assms] by (auto simp: session_of_def split: if_splits sum.splits)

lemma end_is_last:
  assumes "ok_prefix (dn @ f # rest)" and "f_event_type f = EvEnd"
  shows "rest = []"
proof (cases rest)
  case (Cons g gs)
  with assms(1) have "frame_ok (dn @ [f]) g" using ok_prefix_middle [of "dn @ [f]" g gs] by simp
  with assms(2) show ?thesis by (simp add: frame_ok_def)
qed simp

lemma inputs_end: "g \<in> set dn \<Longrightarrow> f_event_type g = EvEnd \<Longrightarrow> \<exists>f\<in>set (inputs_of dn). f_event_type f = EvEnd"
  using emit_type(1) [of g] by (induction dn) (auto simp: core_fields)

lemma in_inputs_of: "f \<in> set (inputs_of fs) \<Longrightarrow> \<exists>g\<in>set fs. f_event_type g = f_event_type f"
  by (auto simp: inputs_of_def core_fields)

lemma driver_inv_no_end:
  assumes "driver_inv dn st"
  shows "\<forall>f\<in>set dn. f_event_type f \<noteq> EvEnd"
proof (intro ballI notI)
  fix g assume "g \<in> set dn" "f_event_type g = EvEnd"
  then obtain f where "f \<in> set (inputs_of dn)" "f_event_type f = EvEnd" using inputs_end by blast
  then have "\<exists>x\<in>set (d_frames st). f_event_type x = EvEnd"
    using assms in_inputs_of [of f "d_frames st"] by (simp add: driver_inv_def)
  with assms show False by (auto simp: driver_inv_def frames_inv_def)
qed

lemma deliver_session_inv:
  assumes inv: "driver_inv [] st" and ok: "frame_ok [] f" and type: "f_event_type f = EvSession"
    and emits: "component_emits [f]"
  shows "driver_inv [f] (st\<lparr>d_frames := push_frame (d_frames st) f, d_session_sequence := f_src_seq f + 1\<rparr>)"
proof -
  have fs: "d_frames st = []" using inv by (simp add: driver_inv_def)
  have not_emit: "\<not> is_emit f" using type by (simp add: is_emit_def frame_kind_def)
  have "frames_inv (d_effect_sequences st) (push_frame (d_frames st) f)"
    using inv ok emits type not_emit
    by (intro frames_inv_input [of _ _ "[]"]) (auto simp: driver_inv_def)
  moreover have "session_of [f] \<noteq> None"
    using ok type by (simp add: frame_ok_def marker_ok_def)
  moreover have "frame_tuple f = session_tuple" "f_src_seq f = 0"
    using ok type by (auto simp: frame_ok_def session_tuple_def)
  moreover have "\<not> is_emit (f\<lparr>f_ordinal := 0, f_observed_ns := 0\<rparr>)"
    using not_emit by (simp add: is_emit_def frame_kind_def)
  moreover have "session_of [f\<lparr>f_ordinal := 0, f_observed_ns := 0\<rparr>] = session_of [f]"
    by (simp add: session_of_def)
  ultimately show ?thesis
    using not_emit
    by (simp add: driver_inv_def fs push_frame_def core_push sequence_key_def frame_tuple_def session_tuple_def)
qed

lemma deliver_inv:
  assumes "ok_prefix (dn @ rest)" "component_emits (dn @ rest)" "driver_inv dn st"
    and "dn = [] \<Longrightarrow> rest \<noteq> [] \<and> f_event_type (hd rest) = EvSession"
    and "deliver react recording rest st = Inr (st', stp)" and "length (d_frames st') < 2 ^ 64 - 1"
  shows "\<exists>dn' rest'. dn @ rest = dn' @ rest' \<and> dn' \<noteq> [] \<and> driver_inv dn' st' \<and>
    (stp = StopExhausted \<longrightarrow> rest' = [] \<or> (\<exists>f. rest' = [f] \<and> f_event_type f = EvEnd))"
  using assms
proof (induction rest arbitrary: dn st)
  case Nil
  then show ?case by auto
next
  case (Cons f rest)
  have ok: "frame_ok dn f" using Cons.prems(1) by (rule ok_prefix_middle)
  have emits: "component_emits (dn @ [f])" using Cons.prems(2) by (auto simp: component_emits_def)
  have again: "\<exists>dn' rest'. (dn @ [f]) @ rest = dn' @ rest' \<and> dn' \<noteq> [] \<and> driver_inv dn' st' \<and>
      (stp = StopExhausted \<longrightarrow> rest' = [] \<or> (\<exists>f. rest' = [f] \<and> f_event_type f = EvEnd))"
    if "driver_inv (dn @ [f]) st1" "deliver react recording rest st1 = Inr (st', stp)" for st1
    using Cons.IH [of "dn @ [f]" st1] Cons.prems that by simp
  have nonempty: "dn \<noteq> []" if "f_event_type f \<noteq> EvSession" using Cons.prems(4) that by auto
  consider "f_event_type f = EvSession" | "f_event_type f = EvEnd" | "f_event_type f = EvGap"
    | (emit) "is_emit f" "f_event_type f \<notin> {EvSession, EvEnd, EvGap}"
    | (inp) "\<not> is_emit f" "f_event_type f \<notin> {EvSession, EvEnd, EvGap}"
    using emit_type(1) by blast
  then show ?case
  proof cases
    case 1
    then have "dn = []" using ok by (simp add: frame_ok_def marker_ok_def)
    with 1 ok emits Cons.prems(3) have "driver_inv (dn @ [f])
        (st\<lparr>d_frames := push_frame (d_frames st) f, d_session_sequence := f_src_seq f + 1\<rparr>)"
      using deliver_session_inv by simp
    then show ?thesis using again Cons.prems(5) 1 by simp
  next
    case 2
    then have "st' = st" "rest = []"
      using Cons.prems(5) end_is_last [OF Cons.prems(1)] by simp_all
    then show ?thesis
      using 2 nonempty Cons.prems(3) by (intro exI [of _ dn] exI [of _ "f # rest"]) auto
  next
    case 3
    then have "st' = st" "stp \<noteq> StopExhausted"
      using Cons.prems(5) by (auto split: sum.splits)
    moreover have "dn \<noteq> []" using nonempty 3 by simp
    ultimately show ?thesis
      using Cons.prems(3) by (intro exI [of _ dn] exI [of _ "f # rest"]) auto
  next
    case emit
    then have "driver_inv (dn @ [f]) st"
      using Cons.prems(3) nonempty by (simp add: driver_inv_def session_of_snoc)
    then show ?thesis using again Cons.prems(5) emit by (simp add: is_emit_def)
  next
    case inp
    then have next_ok: "next_input_ok dn f"
      using ok emits nonempty by (simp add: next_input_ok_def)
    from inp Cons.prems(5) obtain st1 s where d: "deliver_input react recording f st = Inr (st1, s)"
      and k: "s = None \<and> deliver react recording rest st1 = Inr (st', stp) \<or> s = Some stp \<and> st1 = st'"
    proof -
      have "deliver react recording (f # rest) st = (case deliver_input react recording f st of
          Inl e \<Rightarrow> Inl e | Inr (st', Some stp) \<Rightarrow> Inr (st', stp)
        | Inr (st', None) \<Rightarrow> deliver react recording rest st')"
        using inp by (simp add: is_emit_def)
      with Cons.prems(5) that show thesis
        by (cases "deliver_input react recording f st") (auto split: prod.splits option.splits)
    qed
    note step = deliver_input_inv [OF Cons.prems(3) next_ok d]
    show ?thesis
    proof (cases s)
      case None
      then show ?thesis using again step(1) k by simp
    next
      case (Some stp')
      then have "driver_inv dn st'" "stp \<noteq> StopExhausted"
        using step(2) k Cons.prems(6) by auto
      then show ?thesis
        using next_ok unfolding next_input_ok_def
        by (intro exI [of _ dn] exI [of _ "f # rest"]) auto
    qed
  qed
qed

lemma start_adapter_Inr:
  assumes "start_adapter h react s corpus scenario = Inr st"
  shows "driver_inv [] st" and "d_frames st = []" "d_steps st = []" "d_effects st = []"
    "d_effect_sequences st = Map.empty"
proof -
  show "d_frames st = []" "d_steps st = []" "d_effects st = []" "d_effect_sequences st = Map.empty"
    using assms
    by (auto simp: start_adapter_def Let_def receive_def split: list.splits response.splits if_splits sum.splits)
  moreover have "d_session_sequence st = 0"
    using assms
    by (auto simp: start_adapter_def Let_def receive_def split: list.splits response.splits if_splits sum.splits)
  ultimately show "driver_inv [] st"
    by (simp add: driver_inv_def frames_inv_def component_emits_def next_seq_def)
qed

lemma end_frame_ok:
  assumes "frames_inv seqs fs" and "session_of fs = Some s"
    and "q = word_of_nat (seq_count fs (SESSION_ACTOR_ID, SESSION_CHANNEL_ID))"
  shows "frame_ok fs (end_frame (s_uuid s) (word_of_nat (length fs)) q)"
  using assms no_end_last [of fs]
  by (simp add: frame_ok_def end_frame_def wf_frame_def wf_header_def EVENT_SCHEMA_def EVENT_HEADER_SIZE_def
      sequence_key_def frame_tuple_def session_tuple_def marker_ok_def frames_inv_def)

text \<open>What a finished replay consists of, before the end frame.\<close>

lemma replay_recording_Inr:
  assumes run: "replay_recording h react s recording corpus scenario = Inr r"
    and valid: "valid_stream recording" and emits: "component_emits recording"
    and small: "length (r_frames r) < 2 ^ 64"
  shows "\<exists>fs seqs sess q dn rest. r_frames r = fs @ [end_frame (s_uuid sess) (word_of_nat (length fs)) q] \<and>
    frames_inv seqs fs \<and> session_of fs = Some sess \<and>
    q = word_of_nat (seq_count fs (SESSION_ACTOR_ID, SESSION_CHANNEL_ID)) \<and>
    recording = dn @ rest \<and> inputs_of fs = inputs_of dn \<and>
    (r_stop r = StopExhausted \<longrightarrow> (\<exists>f. rest = [f] \<and> f_event_type f = EvEnd))"
proof -
  from run obtain f fs where rec: "recording = f # fs"
    by (auto simp: replay_recording_def split: list.splits)
  from valid_first [OF valid [unfolded rec]] obtain sess where type: "f_event_type f = EvSession"
    and sess: "decode_session (f_body f) = Inr sess" "session_of recording = Some sess"
    by (auto simp: rec)
  from run obtain st0 st stp ps where st0: "start_adapter h react s corpus scenario = Inr st0"
    and d: "deliver react recording recording st0 = Inr (st, stp)"
    and r: "r_frames r = d_frames st @
        [end_frame (s_uuid sess) (word_of_nat (length (d_frames st))) (d_session_sequence st)]"
      "r_stop r = stp"
    by (auto simp: replay_recording_def rec sess simp del: deliver.simps split: sum.splits prod.splits)
  have "ok_prefix recording" using valid by (simp add: valid_stream_def)
  moreover have "length (d_frames st) < 2 ^ 64 - 1" using small by (simp add: r)
  ultimately obtain dn rest where dn: "recording = dn @ rest" "dn \<noteq> []" "driver_inv dn st"
    and stop: "stp = StopExhausted \<longrightarrow> rest = [] \<or> (\<exists>f. rest = [f] \<and> f_event_type f = EvEnd)"
    using deliver_inv [of "[]" recording st0 react recording st stp] emits start_adapter_Inr(1) [OF st0] d type
    by (auto simp: rec)
  have "session_of dn = Some sess"
    using sess(2) dn(1,2) by (cases dn) (simp_all add: session_of_def)
  moreover have "rest \<noteq> []"
  proof
    assume "rest = []"
    then have "f_event_type (last dn) = EvEnd" using valid dn(1) by (simp add: valid_stream_def)
    with driver_inv_no_end [OF dn(3)] dn(2) show False by auto
  qed
  ultimately show ?thesis
    using r dn stop unfolding driver_inv_def
    by (intro exI [of _ "d_frames st"] exI [of _ "d_effect_sequences st"] exI [of _ sess]
        exI [of _ "d_session_sequence st"] exI [of _ dn] exI [of _ rest] conjI) auto
qed

subsection \<open>Comparisons\<close>

lemma find_None_nth:
  "length xs = length ys \<Longrightarrow>
     find (\<lambda>i. f (xs ! i) \<noteq> f (ys ! i)) [0..<length xs] = None \<longleftrightarrow> map f xs = map f ys"
  by (simp add: find_None_iff list_eq_iff_nth_eq [of "map f xs"] atLeast0LessThan Ball_def)

lemma compare_effects_None:
  "compare_effects xs ys = None \<longleftrightarrow> map effect_key xs = map effect_key ys"
proof (cases "length xs = length ys")
  case True
  then show ?thesis using find_None_nth [OF True, of effect_key] by (simp add: compare_effects_def Let_def)
next
  case False
  then have "map effect_key xs \<noteq> map effect_key ys" by (metis length_map)
  with False show ?thesis by (simp add: compare_effects_def Let_def)
qed

lemma compare_effects_Some:
  assumes "compare_effects xs ys = Some i"
  shows "map effect_key (take i xs) = map effect_key (take i ys)"
    and "i = length xs \<or> i = length ys \<or> effect_key (xs ! i) \<noteq> effect_key (ys ! i)"
proof -
  let ?n = "min (length xs) (length ys)"
  have agree: "map effect_key (take k xs) = map effect_key (take k ys)"
    if "k \<le> ?n" "\<forall>j<k. effect_key (xs ! j) = effect_key (ys ! j)" for k
    using that by (simp add: list_eq_iff_nth_eq)
  consider "i < ?n" "effect_key (xs ! i) \<noteq> effect_key (ys ! i)"
      "\<forall>j<i. effect_key (xs ! j) = effect_key (ys ! j)"
    | "i = ?n" "\<forall>j<i. effect_key (xs ! j) = effect_key (ys ! j)"
    using assms
    by (auto simp: compare_effects_def Let_def find_Some_iff find_None_iff min_def split: if_splits)
  note cases = this
  show "map effect_key (take i xs) = map effect_key (take i ys)"
    using agree by (cases rule: cases) auto
  show "i = length xs \<or> i = length ys \<or> effect_key (xs ! i) \<noteq> effect_key (ys ! i)"
    by (cases rule: cases) (auto simp: min_def)
qed

lemma compare_effects_differs:
  assumes "compare_effects xs ys = Some i"
  shows "take (Suc i) (map effect_key xs) \<noteq> take (Suc i) (map effect_key ys)"
proof -
  have "length xs \<noteq> length ys \<or> i < length xs" "i \<le> length xs" "i \<le> length ys"
    using assms by (auto simp: compare_effects_def Let_def find_Some_iff split: if_splits)
  then consider "i < length xs" "i < length ys" | "i = length xs" "i < length ys" | "i < length xs" "i = length ys"
    by linarith
  then show ?thesis
  proof cases
    case 1
    with compare_effects_Some(2) [OF assms] have "effect_key (xs ! i) \<noteq> effect_key (ys ! i)" by simp
    with 1 show ?thesis by (simp add: take_Suc_conv_app_nth)
  qed (auto dest: arg_cong [where f = length])
qed

lemma compare_effects_iff:
  "compare_effects xs ys = Some i \<longleftrightarrow>
     take i (map effect_key xs) = take i (map effect_key ys) \<and>
     take (Suc i) (map effect_key xs) \<noteq> take (Suc i) (map effect_key ys)" (is "_ \<longleftrightarrow> ?first i")
proof
  assume "?first i"
  then have "map effect_key xs \<noteq> map effect_key ys" by auto
  then obtain j where j: "compare_effects xs ys = Some j" using compare_effects_None by fastforce
  then have "?first j"
    using compare_effects_Some(1) [OF j] compare_effects_differs [OF j] by (simp add: take_map)
  have apart: "\<not> n < m" if m: "?first m" and n: "?first n" for n m
  proof
    assume "n < m"
    then have "take (Suc n) zs = take (Suc n) (take m zs)" for zs :: "(u32 \<times> u32 \<times> event_type \<times> u32 \<times> bytes) list"
      by (simp add: min_absorb1)
    with m n show False by metis
  qed
  then have "i = j" using \<open>?first i\<close> \<open>?first j\<close> by (metis linorder_neqE_nat)
  with j show "compare_effects xs ys = Some i" by simp
qed (use compare_effects_Some(1) compare_effects_differs in \<open>auto simp: take_map\<close>)

section \<open>Properties\<close>

text \<open>
  C5. Whatever the adapter answers, a replay of a valid recording whose component sends exactly its
  effects gives frames that the native decoder accepts, up to one check the driver leaves out: it
  does not look at the layout of an effect's body.  The frames are renumbered from zero and carry no observed time, their inputs
  are a prefix of the recorded inputs, unchanged and in order, and all of them when the replay ends
  exhausted; no recorded effect is among them.
\<close>

theorem replay_is_a_stream:
  assumes "replay_recording h react s recording corpus scenario = Inr r"
    and "valid_stream recording" and "component_emits recording" and "length (r_frames r) < 2 ^ 64"
  shows "(decode_stream k (encode_stream k (r_frames r)) = Inr (r_frames r) \<longleftrightarrow>
      (\<forall>f\<in>set (r_frames r). is_emit f \<longrightarrow> fits f)) \<and>
    renumbered (r_frames r) \<and> (\<forall>f\<in>set (r_frames r). f_observed_ns f = 0) \<and>
    (\<exists>n. inputs_of (butlast (r_frames r)) = take n (inputs_of recording)) \<and>
    (r_stop r = StopExhausted \<longrightarrow>
      inputs_of (butlast (r_frames r)) = inputs_of (butlast recording))"
proof -
  from replay_recording_Inr [OF assms] obtain fs seqs sess q dn rest where
    r: "r_frames r = fs @ [end_frame (s_uuid sess) (word_of_nat (length fs)) q]"
    and inv: "frames_inv seqs fs" and sess: "session_of fs = Some sess"
    and q: "q = word_of_nat (seq_count fs (SESSION_ACTOR_ID, SESSION_CHANNEL_ID))"
    and dn: "recording = dn @ rest" "inputs_of fs = inputs_of dn"
    and stop: "r_stop r = StopExhausted \<longrightarrow> (\<exists>f. rest = [f] \<and> f_event_type f = EvEnd)"
    by blast
  let ?e = "end_frame (s_uuid sess) (word_of_nat (length fs)) q"
  have e: "frame_ok fs ?e" using inv sess q by (rule end_frame_ok)
  have "f_event_type ?e = EvEnd" "\<not> is_emit ?e" "f_observed_ns ?e = 0"
    by (simp_all add: end_frame_def is_emit_def frame_kind_def)
  then have "valid_stream (r_frames r) \<longleftrightarrow> (\<forall>f\<in>set (r_frames r). is_emit f \<longrightarrow> fits f)"
    using e sound_prefix_ok [of fs] inv by (simp add: valid_stream_def r frames_inv_def)
  then have "decode_stream k (encode_stream k (r_frames r)) = Inr (r_frames r) \<longleftrightarrow>
      (\<forall>f\<in>set (r_frames r). is_emit f \<longrightarrow> fits f)"
    using decode_stream_iff [OF assms(4)] by simp
  moreover have "renumbered (r_frames r)"
    using inv by (simp add: r frames_inv_def end_frame_def)
  moreover have "\<forall>f\<in>set (r_frames r). f_observed_ns f = 0"
    using inv \<open>f_observed_ns ?e = 0\<close> by (auto simp: r frames_inv_def)
  moreover have "inputs_of (butlast (r_frames r)) = take (length (inputs_of dn)) (inputs_of recording)"
    by (simp add: r dn)
  moreover have "inputs_of (butlast (r_frames r)) = inputs_of (butlast recording)"
    if "r_stop r = StopExhausted" using stop that dn by (auto simp: r)
  ultimately show ?thesis by blast
qed

text \<open>An adapter that consumes every input and does nothing.\<close>

fun quiet_adapter :: "hash_fn \<Rightarrow> unit adapter" where
  "quiet_adapter h s (Start protocol corpus scenario state) =
     (s, [Started PROTOCOL_VERSION (identity_of VNoop) [] [] (requested_state h)])"
| "quiet_adapter h s (StepRequest w r) =
     (s, [Stepped (case w_ordinal w of None \<Rightarrow> 0 | Some n \<Rightarrow> n) StatusOk None []])"
| "quiet_adapter h s (Finish reason) = (s, [Finished reason [] 0])"

lemma quiet_replay:
  "\<exists>r. replay_recording h (quiet_adapter h) () demo_frames [] [] = Inr r \<and> r_stop r = StopExhausted \<and>
     length (r_frames r) = 2"
  by (simp add: replay_recording_def demo_frames_def decode_encode_session start_adapter_def Let_def
      send_request_def receive_def finish_adapter_def finish_reason_of_def push_frame_def)

theorem replay_is_a_stream_witness:
  "\<exists>r. replay_recording demo_hash (quiet_adapter demo_hash) () demo_frames [] [] = Inr r \<and>
     inputs_of (butlast (r_frames r)) = inputs_of (butlast demo_frames)"
proof -
  from quiet_replay obtain r where r: "replay_recording demo_hash (quiet_adapter demo_hash) () demo_frames [] [] = Inr r"
    and stop: "r_stop r = StopExhausted" and len: "length (r_frames r) = 2" by blast
  have "component_emits demo_frames"
    by (simp add: component_emits_def demo_frames_def is_emit_def frame_kind_def COMPONENT_ACTOR_ID_def)
  moreover have "length (r_frames r) < 2 ^ 64" by (simp add: len)
  ultimately show ?thesis
    using replay_is_a_stream [OF r valid_demo] r stop by blast
qed

text \<open>
  C31. A recorded response reaches the adapter only when this run made the request it answers: an
  effect of the component on the recorded request's channel with its sequence number, destination,
  event type and bytes.  Otherwise the driver stops there, leaving the adapter and the replayed
  frames as they were.
\<close>

theorem response_needs_its_request:
  assumes "request_ref_of recording f = Inr (Some q)"
    and "deliver_input react recording f st = Inr (st', stp)"
  shows "(\<exists>i\<in>set (d_frames st). \<exists>j < length recording.
       is_emit i \<and> f_ordinal (recording ! j) = rr_ordinal q \<and> f_ordinal (recording ! j) < f_ordinal f \<and>
       frame_tuple i = frame_tuple (recording ! j) \<and> f_src_seq i = f_src_seq (recording ! j) \<and>
       f_event_type i = f_event_type (recording ! j) \<and> f_body i = f_body (recording ! j)) \<or>
    d_adapter st' = d_adapter st \<and> d_frames st' = d_frames st \<and>
      (\<exists>t. stp = Some (StopRefused (f_ordinal f) t))"
proof (cases "unanswered recording (d_frames st) f q")
  case (Some reason)
  with assms show ?thesis by (auto simp: deliver_input_def)
next
  case None
  then obtain i where i: "issued_by_component (d_frames st) q = Some i"
    and same: "f_dst_actor i = f_dst_actor (recording ! unat (rr_ordinal q))"
      "f_event_type i = f_event_type (recording ! unat (rr_ordinal q))"
      "f_body i = f_body (recording ! unat (rr_ordinal q))"
    by (auto simp: unanswered_def Let_def split: option.splits if_splits)
  from i have "i \<in> set (d_frames st)" "is_emit i" "f_src_actor i = COMPONENT_ACTOR_ID"
    "f_channel_id i = rr_channel_id q" "f_src_seq i = rr_src_seq q"
    by (auto simp: issued_by_component_def find_Some_iff is_emit_def)
  with request_ref_of_Some [OF assms(1)] same show ?thesis
    by (auto simp: frame_tuple_def)
qed

definition demo_request :: frame where
  "demo_request =
     \<lparr>f_ordinal = 0, f_src_actor = COMPONENT_ACTOR_ID, f_dst_actor = ACTOR_ACTION_SERVER,
      f_channel_id = CH_ACTION_GOAL, f_src_seq = 0, f_observed_ns = 0,
      f_header = \<lparr>h_event_type = EvGoalSend, h_schema = 1, h_flags = 3\<rparr>,
      f_body = encode_goal_send \<lparr>gs_goal_id = 7, gs_goal = []\<rparr>\<rparr>"

definition demo_response :: frame where
  "demo_response =
     \<lparr>f_ordinal = 1, f_src_actor = ACTOR_ACTION_SERVER, f_dst_actor = COMPONENT_ACTOR_ID,
      f_channel_id = CH_ACTION_RESPONSE, f_src_seq = 0, f_observed_ns = 0,
      f_header = \<lparr>h_event_type = EvGoalResponse, h_schema = 1, h_flags = 0\<rparr>,
      f_body = encode_goal_response \<lparr>gr_goal_send_ordinal = 0, gr_goal_id = 7, gr_accepted = True,
        gr_stamp_ns = 0\<rparr>\<rparr>"

theorem response_needs_its_request_witness:
  "\<exists>st' t. deliver_input (quiet_adapter demo_hash) [demo_request, demo_response] demo_response
      \<lparr>d_adapter = (), d_queue = [], d_frames = [], d_steps = [], d_effects = [], d_progress = [],
       d_pending = [], d_session_sequence = 0, d_effect_sequences = Map.empty\<rparr> =
        Inr (st', Some (StopRefused 1 t)) \<and> d_frames st' = []"
proof -
  let ?q = "\<lparr>rr_ordinal = 0, rr_src_actor = COMPONENT_ACTOR_ID, rr_dst_actor = ACTOR_ACTION_SERVER,
           rr_channel_id = CH_ACTION_GOAL, rr_src_seq = 0\<rparr>"
  let ?st = "\<lparr>d_adapter = (), d_queue = [], d_frames = [], d_steps = [], d_effects = [], d_progress = [],
       d_pending = [], d_session_sequence = 0, d_effect_sequences = Map.empty\<rparr>"
  let ?rec = "[demo_request, demo_response]"
  have q: "request_ref_of ?rec demo_response = Inr (Some ?q)"
    by (simp add: request_ref_of_def demo_response_def demo_request_def names_request_def get_range_def
        encode_goal_response_def get_at_def frame_kind_def)
  obtain t where t: "unanswered ?rec [] demo_response ?q = Some t"
    by (auto simp: unanswered_def issued_by_component_def)
  have d: "deliver_input (quiet_adapter demo_hash) ?rec demo_response ?st =
      Inr (?st\<lparr>d_steps := [\<lparr>dl_recorded_ordinal = 1, dl_replayed_ordinal = None,
        dl_status = StatusRefused, dl_reason = Some t\<rparr>]\<rparr>, Some (StopRefused 1 t))"
    using t by (simp add: deliver_input_def q) (simp add: demo_response_def)
  from response_needs_its_request [OF q d] have "d_frames (?st\<lparr>d_steps := [\<lparr>dl_recorded_ordinal = 1,
      dl_replayed_ordinal = None, dl_status = StatusRefused, dl_reason = Some t\<rparr>]\<rparr>) = []" by simp
  with d show ?thesis by blast
qed

text \<open>
  The comparison finds the effects in agreement exactly when the two sequences of effects are
  equal in destination, channel, event type, flags and body, in order and with multiplicity;
  otherwise the index it reports is the first at which they part: the sequences agree before it, and
  there they differ or one of them has ended.
\<close>

theorem compare_is_exact:
  "(effects_agree (compare h kh corpus recording r) \<longleftrightarrow>
      map effect_key (filter is_emit recording) = map effect_key (filter is_emit (r_frames r))) \<and>
   (cm_first_difference (compare h kh corpus recording r) = Some i \<longleftrightarrow>
      take i (map effect_key (filter is_emit recording)) =
        take i (map effect_key (filter is_emit (r_frames r))) \<and>
      take (Suc i) (map effect_key (filter is_emit recording)) \<noteq>
        take (Suc i) (map effect_key (filter is_emit (r_frames r))))"
  by (simp add: effects_agree_def compare_def Let_def compare_effects_None compare_effects_iff)

end
