(* ===== verification/Property_Check.thy ===== *)
theory Property_Check
  imports Driver
begin

text \<open>
  crates/rook-adapter-ref/src/property.rs: the two reference properties, their input and how a driver
  run becomes one.  The strings that are part of the schema (property, predicate and scope names,
  origins, event names, hex bodies) are texts; the prose of \<open>detail\<close> and \<open>missing\<close> is a constructor
  with the values it prints.  \<open>context\<close> and \<open>bail!\<close> errors are constructors of \<open>eval_error\<close>.
\<close>

unbundle bit_operations_syntax

definition INPUT_SCHEMA :: string where "INPUT_SCHEMA = ''rook-property-input@1''"
definition RESULT_SCHEMA :: string where "RESULT_SCHEMA = ''rook-property-result@1''"
definition PROPERTY_TIMEOUT_CANCEL :: string where
  "PROPERTY_TIMEOUT_CANCEL = ''goal-response-timeout-cancel@1''"
definition PROPERTY_TIMELY_ACK :: string where
  "PROPERTY_TIMELY_ACK = ''timely-ack-no-cancel@1''"

record property_event =
  pe_ordinal :: u64
  pe_origin :: string
  pe_recorded_ordinal :: "u64 option"
  pe_consumed :: "bool option"
  pe_kind :: string
  pe_event_type :: string
  pe_src_actor :: u32
  pe_dst_actor :: u32
  pe_channel_id :: u32
  pe_src_seq :: u64
  pe_flags :: u32
  pe_body_hex :: string
  pe_callback :: "u64 option"

record scope =
  sc_completion :: string
  sc_observation_end :: string

record gap_mark =
  gm_ordinal :: u64
  gm_reason :: u16
  gm_lost :: "u64 option"

record refusal_mark =
  rm_ordinal :: u64
  rm_reason :: string

record evidence =
  ev_end_of_recording :: bool
  ev_gaps :: "gap_mark list"
  ev_refusal :: "refusal_mark option"
  ev_pending_at_finish :: "pending list"

record property_input =
  pi_schema :: string
  pi_property :: string
  pi_scenario :: string
  pi_scope :: scope
  pi_goal_response_deadline_ns :: i64
  pi_events :: "property_event list"
  pi_progress :: "(u64 \<times> string) list"
  pi_evidence :: evidence
  pi_identities :: "(string \<times> string) list"

datatype verdict = VPass | VFail | VInconclusive | VInvalid

text \<open>Why the evidence stopped, and what a callback still waits for.\<close>

datatype stopped = GapInRecording gap_mark | RefusedInput refusal_mark | StoppedEarly

datatype awaited = AwaitedClock u16 u64 | AwaitedFuture string u64

datatype missing =
    MissingCommand
  | MissingPending awaited
  | MissingClock i64 u64 "stopped option"
  | MissingInputsAfterExpiry
  | MissingResponse "stopped option"
  | MissingInputsToEnd

datatype detail =
    NoCommandConsumed
  | StillWaiting "stopped option"
  | NeverSubmitted
  | CancelBeforeExpirySeen u64
  | AcknowledgedInTime u64
  | NoClockAtDeadline i64 i64
  | CancelBeforeExpiry u64 u64
  | TimedOutAndCancelled u64 u64 i64 i64 u64
  | StoppedBeforeCancel u64 stopped
  | NoCancelFollowed u64 i64 i64
  | CancelInInterval u64
  | NoAcceptance
  | ExpiredBeforeAck
  | IntervalNotElapsed stopped
  | AcknowledgedNoCancel u64 u64
  | InvalidInput string

record property_result =
  pr_schema :: string
  pr_property :: string
  pr_result :: verdict
  pr_predicate :: "string option"
  pr_ordinal :: "u64 option"
  pr_completion_ordinal :: "u64 option"
  pr_unavailable :: "string list"
  pr_missing :: "missing option"
  pr_detail :: detail

definition exit_code :: "property_result \<Rightarrow> int" where
  "exit_code r =
     (case pr_result r of VPass \<Rightarrow> 0 | VFail \<Rightarrow> 1 | VInvalid \<Rightarrow> 2 | VInconclusive \<Rightarrow> 3)"

definition verdict_result :: "string \<Rightarrow> verdict \<Rightarrow> detail \<Rightarrow> property_result" where
  "verdict_result property verdict detail =
     \<lparr>pr_schema = RESULT_SCHEMA, pr_property = property, pr_result = verdict, pr_predicate = None,
      pr_ordinal = None, pr_completion_ordinal = None, pr_unavailable = [], pr_missing = None,
      pr_detail = detail\<rparr>"

definition invalid_result :: "string \<Rightarrow> string \<Rightarrow> property_result" where
  "invalid_result property detail = verdict_result property VInvalid (InvalidInput detail)"

subsection \<open>From a driver run to the property input\<close>

fun kind_name :: "envelope_kind \<Rightarrow> string" where
  "kind_name KDeliver = ''Deliver''"
| "kind_name KEmit = ''Emit''"
| "kind_name KTimer = ''Timer''"
| "kind_name KGap = ''Gap''"
| "kind_name KMarker = ''Marker''"

text \<open>\<open>collect\<close> into a map: the last value of a key counts.\<close>

definition collect_map :: "('k \<times> 'v) list \<Rightarrow> 'k \<Rightarrow> 'v option" where
  "collect_map kvs = map_of (rev kvs)"

definition steps_by_replayed :: "delivered list \<Rightarrow> u64 \<Rightarrow> (u64 \<times> step_status) option" where
  "steps_by_replayed steps =
     collect_map (List.map_filter
       (\<lambda>s. map_option (\<lambda>r. (r, (dl_recorded_ordinal s, dl_status s))) (dl_replayed_ordinal s)) steps)"

definition event_of_frame ::
  "(u64 \<Rightarrow> u64 option) \<Rightarrow> (u64 \<Rightarrow> (u64 \<times> step_status) option) \<Rightarrow> frame \<Rightarrow> property_event" where
  "event_of_frame effect_callbacks steps f =
     (let stp = steps (f_ordinal f) in
      \<lparr>pe_ordinal = f_ordinal f,
       pe_origin = (if frame_kind f = KEmit then ''replayed'' else ''recorded''),
       pe_recorded_ordinal = map_option fst stp,
       pe_consumed = map_option (\<lambda>(_, s). s = StatusOk) stp,
       pe_kind = kind_name (frame_kind f),
       pe_event_type = event_type_name (f_event_type f),
       pe_src_actor = f_src_actor f, pe_dst_actor = f_dst_actor f,
       pe_channel_id = f_channel_id f, pe_src_seq = f_src_seq f,
       pe_flags = h_flags (f_header f), pe_body_hex = encode_hex (f_body f),
       pe_callback = effect_callbacks (f_ordinal f)\<rparr>)"

definition property_input_of ::
  "string \<Rightarrow> string \<Rightarrow> scope \<Rightarrow> i64 \<Rightarrow> run \<Rightarrow> (string \<times> string) list \<Rightarrow> property_input" where
  "property_input_of property scenario scp deadline_ns r identities =
     (let effect_callbacks = collect_map (map (\<lambda>(callback, ordinal). (ordinal, callback)) (r_effects r));
          (gaps, refusal) = (case r_stop r of
              StopExhausted \<Rightarrow> ([], None)
            | StopGap ordinal g \<Rightarrow>
                ([\<lparr>gm_ordinal = ordinal, gm_reason = g_reason g, gm_lost = g_lost g\<rparr>], None)
            | StopRefused ordinal reason \<Rightarrow>
                ([], Some \<lparr>rm_ordinal = ordinal, rm_reason = reason\<rparr>))
      in \<lparr>pi_schema = INPUT_SCHEMA, pi_property = property, pi_scenario = scenario,
          pi_scope = scp, pi_goal_response_deadline_ns = deadline_ns,
          pi_events = map (event_of_frame effect_callbacks (steps_by_replayed (r_steps r))) (r_frames r),
          pi_progress = map (\<lambda>(_, name, ordinal). (ordinal, name)) (r_progress r),
          pi_evidence = \<lparr>ev_end_of_recording = (r_stop r = StopExhausted), ev_gaps = gaps,
            ev_refusal = refusal, ev_pending_at_finish = r_pending_at_finish r\<rparr>,
          pi_identities = identities\<rparr>)"

subsection \<open>Decoded events\<close>

datatype eval_error =
    WrongSchema string
  | UnknownEventName string
  | UnknownOrigin string
  | UndecodedHex
  | UnknownProperty string
  | WrongCompletion string
  | WrongObservationEnd string
  | NoRecordedOrdinal
  | UndecodedGoalSend body_error
  | NoSendClock
  | DeadlineOverflow

record decoded =
  dc_ordinal :: u64
  dc_recorded_ordinal :: "u64 option"
  dc_consumed :: bool
  dc_callback :: "u64 option"
  dc_event_type :: event_type
  dc_replayed :: bool
  dc_dst_actor :: u32
  dc_flags :: u32
  dc_body :: bytes

definition decode_event :: "property_event \<Rightarrow> eval_error + decoded" where
  "decode_event event =
     (case parse_event_type (pe_event_type event) of
        None \<Rightarrow> Inl (UnknownEventName (pe_event_type event))
      | Some event_type \<Rightarrow>
          if pe_origin event \<noteq> ''recorded'' \<and> pe_origin event \<noteq> ''replayed''
          then Inl (UnknownOrigin (pe_origin event))
          else case decode_hex (pe_body_hex event) of
            None \<Rightarrow> Inl UndecodedHex
          | Some body \<Rightarrow>
              Inr \<lparr>dc_ordinal = pe_ordinal event, dc_recorded_ordinal = pe_recorded_ordinal event,
                   dc_consumed = (case pe_consumed event of None \<Rightarrow> False | Some c \<Rightarrow> c),
                   dc_callback = pe_callback event, dc_event_type = event_type,
                   dc_replayed = (pe_origin event = ''replayed''),
                   dc_dst_actor = pe_dst_actor event, dc_flags = pe_flags event,
                   dc_body = body\<rparr>)"

fun decode_event_list :: "property_event list \<Rightarrow> eval_error + decoded list" where
  "decode_event_list [] = Inr []"
| "decode_event_list (e # es) =
     (case decode_event e of
        Inl err \<Rightarrow> Inl err
      | Inr d \<Rightarrow> (case decode_event_list es of Inl err \<Rightarrow> Inl err | Inr ds \<Rightarrow> Inr (d # ds)))"

definition decode_events :: "property_input \<Rightarrow> eval_error + decoded list" where
  "decode_events inp = decode_event_list (pi_events inp)"

subsection \<open>Evidence\<close>

definition evidence_stopped :: "property_input \<Rightarrow> stopped option" where
  "evidence_stopped inp =
     (case ev_gaps (pi_evidence inp) of
        g # _ \<Rightarrow> Some (GapInRecording g)
      | [] \<Rightarrow>
          (case ev_refusal (pi_evidence inp) of
             Some r \<Rightarrow> Some (RefusedInput r)
           | None \<Rightarrow> if \<not> ev_end_of_recording (pi_evidence inp) then Some StoppedEarly else None))"

definition pending_for :: "property_input \<Rightarrow> u64 \<Rightarrow> awaited option" where
  "pending_for inp callback =
     find_map (\<lambda>p. case p of
         PClockRead c clock_id \<Rightarrow> if c = callback then Some (AwaitedClock clock_id callback) else None
       | PFuture c name \<Rightarrow> if c = callback then Some (AwaitedFuture name callback) else None)
       (ev_pending_at_finish (pi_evidence inp))"

subsection \<open>The goal and what happened to it\<close>

record submission =
  su_callback :: u64
  su_ordinal :: u64
  su_goal_id :: id16
  su_server :: u32
  su_sent_at_ns :: i64
  su_deadline_ns :: i64

definition clock_of :: "u64 \<Rightarrow> decoded \<Rightarrow> clock option" where
  "clock_of callback event =
     (if dc_event_type event = EvClock \<and> \<not> dc_replayed event \<and> dc_consumed event
      then (case decode_clock (dc_body event) of
              Inl _ \<Rightarrow> None
            | Inr clock \<Rightarrow> if ck_callback_ordinal clock = callback then Some clock else None)
      else None)"

definition clocks_of :: "decoded list \<Rightarrow> u64 \<Rightarrow> (decoded \<times> clock) list" where
  "clocks_of events callback =
     List.map_filter (\<lambda>event. map_option (Pair event) (clock_of callback event)) events"

definition is_command :: "decoded \<Rightarrow> bool" where
  "is_command event \<longleftrightarrow> dc_event_type event = EvMessage \<and> \<not> dc_replayed event \<and> dc_consumed event"

definition is_send_of :: "decoded \<Rightarrow> u64 \<Rightarrow> decoded \<Rightarrow> bool" where
  "is_send_of command callback event \<longleftrightarrow>
     dc_event_type event = EvGoalSend \<and> dc_replayed event \<and> dc_ordinal event > dc_ordinal command \<and>
     dc_callback event = Some callback \<and> dc_flags event AND FLAG_ATTEMPTED \<noteq> 0"

definition submission_of ::
  "property_input \<Rightarrow> decoded list \<Rightarrow> eval_error + (property_result + submission)" where
  "submission_of inp events =
     (case find is_command events of
        None \<Rightarrow>
          Inr (Inl ((verdict_result (pi_property inp) VInconclusive NoCommandConsumed)
            \<lparr>pr_predicate := Some ''goal_command_delivered'', pr_missing := Some MissingCommand\<rparr>))
      | Some command \<Rightarrow>
          (case dc_recorded_ordinal command of
             None \<Rightarrow> Inl NoRecordedOrdinal
           | Some callback \<Rightarrow>
               (case find (is_send_of command callback) events of
                  None \<Rightarrow>
                    (case pending_for inp callback of
                       Some p \<Rightarrow>
                         Inr (Inl ((verdict_result (pi_property inp) VInconclusive
                               (StillWaiting (evidence_stopped inp)))
                           \<lparr>pr_predicate := Some ''goal_submitted'',
                            pr_ordinal := Some (dc_ordinal command),
                            pr_missing := Some (MissingPending p)\<rparr>))
                     | None \<Rightarrow>
                         Inr (Inl ((verdict_result (pi_property inp) VFail NeverSubmitted)
                           \<lparr>pr_predicate := Some ''goal_submitted'',
                            pr_ordinal := Some (dc_ordinal command)\<rparr>)))
                | Some send \<Rightarrow>
                    (case decode_goal_send (dc_body send) of
                       Inl e \<Rightarrow> Inl (UndecodedGoalSend e)
                     | Inr g \<Rightarrow>
                         (let before = filter (\<lambda>(event, _). dc_ordinal event < dc_ordinal send)
                                (clocks_of events callback)
                          in if before = [] then Inl NoSendClock
                          else let sent_at = snd (last before) in
                            case checked_add_i64 (ck_value_ns sent_at)
                                   (pi_goal_response_deadline_ns inp) of
                              None \<Rightarrow> Inl DeadlineOverflow
                            | Some deadline_ns \<Rightarrow>
                                Inr (Inr \<lparr>su_callback = callback, su_ordinal = dc_ordinal send,
                                          su_goal_id = gs_goal_id g, su_server = dc_dst_actor send,
                                          su_sent_at_ns = ck_value_ns sent_at,
                                          su_deadline_ns = deadline_ns\<rparr>))))))"

definition cancel_for :: "submission \<Rightarrow> decoded \<Rightarrow> cancel_send option" where
  "cancel_for s event =
     (if dc_event_type event = EvCancelSend \<and> dc_replayed event \<and> dc_ordinal event > su_ordinal s \<and>
         dc_dst_actor event = su_server s \<and> dc_flags event AND FLAG_ATTEMPTED \<noteq> 0
      then (case decode_cancel_send (dc_body event) of
              Inl _ \<Rightarrow> None
            | Inr c \<Rightarrow> if cs_goal_id c = su_goal_id s \<or> cs_goal_id c = 0 then Some c else None)
      else None)"

definition cancels_for :: "decoded list \<Rightarrow> submission \<Rightarrow> (u64 \<times> cancel_send) list" where
  "cancels_for events s =
     List.map_filter (\<lambda>event. map_option (Pair (dc_ordinal event)) (cancel_for s event)) events"

definition acknowledges :: "submission \<Rightarrow> decoded \<Rightarrow> bool" where
  "acknowledges s event \<longleftrightarrow>
     dc_event_type event = EvGoalResponse \<and> \<not> dc_replayed event \<and> dc_consumed event \<and>
     dc_ordinal event > su_ordinal s \<and>
     (case decode_goal_response (dc_body event) of
        Inl _ \<Rightarrow> False | Inr r \<Rightarrow> gr_goal_id r = su_goal_id s)"

definition acknowledgment :: "decoded list \<Rightarrow> submission \<Rightarrow> decoded option" where
  "acknowledgment events s = find (acknowledges s) events"

subsection \<open>The two properties\<close>

definition first_expiry :: "decoded list \<Rightarrow> submission \<Rightarrow> (u64 \<times> i64) option" where
  "first_expiry events s =
     map_option (\<lambda>(event, clock). (dc_ordinal event, ck_value_ns clock))
       (find (\<lambda>(_, clock). sint (su_deadline_ns s) \<le> sint (ck_value_ns clock))
         (filter (\<lambda>(event, _). case acknowledgment events s of
              None \<Rightarrow> True | Some ack \<Rightarrow> dc_ordinal event < dc_ordinal ack)
           (filter (\<lambda>(event, _). dc_ordinal event > su_ordinal s)
             (clocks_of events (su_callback s)))))"

definition timeout_cancel_verdict ::
  "property_input \<Rightarrow> decoded list \<Rightarrow> submission \<Rightarrow> property_result" where
  "timeout_cancel_verdict inp events s =
     (let property = pi_property inp;
          deadline_ns = su_deadline_ns s;
          cancels = cancels_for events s
      in case first_expiry events s of
        None \<Rightarrow>
          (case cancels of
             (ordinal, _) # _ \<Rightarrow>
               (verdict_result property VFail (CancelBeforeExpirySeen ordinal))
                 \<lparr>pr_predicate := Some ''cancel_after_deadline_expiry'', pr_ordinal := Some ordinal\<rparr>
           | [] \<Rightarrow>
               (verdict_result property VInconclusive
                 (case acknowledgment events s of
                    Some ack \<Rightarrow> AcknowledgedInTime (dc_ordinal ack)
                  | None \<Rightarrow> NoClockAtDeadline (su_sent_at_ns s) (pi_goal_response_deadline_ns inp)))
                 \<lparr>pr_predicate := Some ''deadline_expired'',
                  pr_missing := Some (MissingClock deadline_ns (su_callback s) (evidence_stopped inp))\<rparr>)
      | Some (expiry_ordinal, expiry_ns) \<Rightarrow>
          (case find (\<lambda>(ordinal, _). ordinal < expiry_ordinal) cancels of
             Some (ordinal, _) \<Rightarrow>
               (verdict_result property VFail (CancelBeforeExpiry ordinal expiry_ordinal))
                 \<lparr>pr_predicate := Some ''cancel_after_deadline_expiry'', pr_ordinal := Some ordinal\<rparr>
           | None \<Rightarrow>
               (case find (\<lambda>(ordinal, _). ordinal > expiry_ordinal) cancels of
                  Some (ordinal, _) \<Rightarrow>
                    (verdict_result property VPass
                      (TimedOutAndCancelled (su_ordinal s) expiry_ordinal expiry_ns deadline_ns ordinal))
                      \<lparr>pr_completion_ordinal := Some ordinal,
                       pr_unavailable := [''cancel_acknowledged'', ''goal_terminated'']\<rparr>
                | None \<Rightarrow>
                    (case evidence_stopped inp of
                       Some stp \<Rightarrow>
                         (verdict_result property VInconclusive (StoppedBeforeCancel expiry_ordinal stp))
                           \<lparr>pr_predicate := Some ''cancel_request_issued'',
                            pr_missing := Some MissingInputsAfterExpiry\<rparr>
                     | None \<Rightarrow>
                         (verdict_result property VFail
                           (NoCancelFollowed expiry_ordinal expiry_ns deadline_ns))
                           \<lparr>pr_predicate := Some ''cancel_request_issued'',
                            pr_ordinal := Some expiry_ordinal\<rparr>))))"

definition timeout_cancel :: "property_input \<Rightarrow> decoded list \<Rightarrow> eval_error + property_result" where
  "timeout_cancel inp events =
     (case submission_of inp events of
        Inl e \<Rightarrow> Inl e
      | Inr (Inl verdict) \<Rightarrow> Inr verdict
      | Inr (Inr s) \<Rightarrow> Inr (timeout_cancel_verdict inp events s))"

definition accepted_ack :: "decoded list \<Rightarrow> submission \<Rightarrow> decoded option" where
  "accepted_ack events s =
     (case acknowledgment events s of
        None \<Rightarrow> None
      | Some event \<Rightarrow>
          (case decode_goal_response (dc_body event) of
             Inl _ \<Rightarrow> None | Inr r \<Rightarrow> if gr_accepted r then Some event else None))"

definition timely_ack_verdict ::
  "property_input \<Rightarrow> decoded list \<Rightarrow> submission \<Rightarrow> property_result" where
  "timely_ack_verdict inp events s =
     (let property = pi_property inp in
      case cancels_for events s of
        (ordinal, _) # _ \<Rightarrow>
          (verdict_result property VFail (CancelInInterval ordinal))
            \<lparr>pr_predicate := Some ''no_cancel_in_interval'', pr_ordinal := Some ordinal\<rparr>
      | [] \<Rightarrow>
          (case accepted_ack events s of
             None \<Rightarrow>
               (verdict_result property VInconclusive NoAcceptance)
                 \<lparr>pr_predicate := Some ''acknowledged_before_deadline'',
                  pr_missing := Some (MissingResponse (evidence_stopped inp))\<rparr>
           | Some ack \<Rightarrow>
               if list_ex (\<lambda>(event, clock). dc_ordinal event > su_ordinal s \<and>
                    dc_ordinal event < dc_ordinal ack \<and>
                    sint (su_deadline_ns s) \<le> sint (ck_value_ns clock))
                  (clocks_of events (su_callback s))
               then (verdict_result property VInconclusive ExpiredBeforeAck)
                 \<lparr>pr_predicate := Some ''acknowledged_before_deadline''\<rparr>
               else case evidence_stopped inp of
                 Some stp \<Rightarrow>
                   (verdict_result property VInconclusive (IntervalNotElapsed stp))
                     \<lparr>pr_predicate := Some ''observation_interval_elapsed'',
                      pr_missing := Some MissingInputsToEnd\<rparr>
               | None \<Rightarrow>
                   (verdict_result property VPass (AcknowledgedNoCancel (su_ordinal s) (dc_ordinal ack)))
                     \<lparr>pr_completion_ordinal :=
                        (if pi_events inp = [] then None else Some (pe_ordinal (last (pi_events inp))))\<rparr>))"

definition timely_ack :: "property_input \<Rightarrow> decoded list \<Rightarrow> eval_error + property_result" where
  "timely_ack inp events =
     (case submission_of inp events of
        Inl e \<Rightarrow> Inl e
      | Inr (Inl verdict) \<Rightarrow> Inr verdict
      | Inr (Inr s) \<Rightarrow> Inr (timely_ack_verdict inp events s))"

definition evaluate :: "property_input \<Rightarrow> eval_error + property_result" where
  "evaluate inp =
     (if pi_schema inp \<noteq> INPUT_SCHEMA then Inl (WrongSchema (pi_schema inp))
      else case decode_events inp of
        Inl e \<Rightarrow> Inl e
      | Inr events \<Rightarrow>
          (case (if pi_property inp = PROPERTY_TIMEOUT_CANCEL
                 then Some (''cancel_request_issued'', timeout_cancel)
                 else if pi_property inp = PROPERTY_TIMELY_ACK
                 then Some (''observation_interval_elapsed'', timely_ack) else None) of
             None \<Rightarrow> Inl (UnknownProperty (pi_property inp))
           | Some (completion, evaluator) \<Rightarrow>
               if sc_completion (pi_scope inp) \<noteq> completion
               then Inl (WrongCompletion (sc_completion (pi_scope inp)))
               else if sc_observation_end (pi_scope inp) \<noteq> ''end_of_recording''
               then Inl (WrongObservationEnd (sc_observation_end (pi_scope inp)))
               else evaluator inp events))"

section \<open>Lemmas\<close>

subsection \<open>Sorted events\<close>

definition in_order :: "decoded list \<Rightarrow> bool" where
  "in_order events \<longleftrightarrow> sorted_wrt (\<lambda>a b. dc_ordinal a < dc_ordinal b) events"

lemma in_order_simps [simp]:
  "in_order []"
  "in_order (e # es) \<longleftrightarrow> (\<forall>x\<in>set es. dc_ordinal e < dc_ordinal x) \<and> in_order es"
  by (simp_all add: in_order_def)

lemma in_order_unique:
  "in_order es \<Longrightarrow> a \<in> set es \<Longrightarrow> b \<in> set es \<Longrightarrow> dc_ordinal a = dc_ordinal b \<Longrightarrow> a = b"
  by (induction es) auto

text \<open>In sorted events \<open>find\<close> returns the match with the least ordinal.\<close>

lemma find_in_order:
  assumes "in_order es"
  shows "find P es = Some e \<longleftrightarrow> e \<in> set es \<and> P e \<and> (\<forall>x\<in>set es. P x \<longrightarrow> dc_ordinal e \<le> dc_ordinal x)"
  using assms
proof (induction es)
  case (Cons a es)
  show ?case
  proof (cases "P a")
    case True
    have "e = a" if "e \<in> set (a # es)" "dc_ordinal e \<le> dc_ordinal a"
      using that Cons.prems by auto
    with True Cons.prems show ?thesis by (auto simp: less_imp_le)
  next
    case False
    with Cons show ?thesis by auto
  qed
qed simp

lemma find_filter: "find P (filter R xs) = find (\<lambda>x. R x \<and> P x) xs"
  by (induction xs) auto

lemma find_pairs:
  "find Q (List.map_filter (\<lambda>e. map_option (Pair (k e)) (g e)) es) =
     map_option (\<lambda>e. (k e, the (g e))) (find (\<lambda>e. \<exists>y. g e = Some y \<and> Q (k e, y)) es)"
  by (induction es) (auto simp: List.map_filter_simps split: option.splits)

lemma map_filter_pairs_Nil:
  "List.map_filter (\<lambda>e. map_option (Pair (k e)) (g e)) es = [] \<longleftrightarrow> (\<forall>e\<in>set es. g e = None)"
  by (induction es) (auto simp: List.map_filter_simps split: option.splits)

lemma map_filter_pairs_hd:
  "List.map_filter (\<lambda>e. map_option (Pair (k e)) (g e)) es = p # ps \<Longrightarrow>
     \<exists>e\<in>set es. g e = Some (snd p) \<and> k e = fst p"
  by (induction es arbitrary: ps) (auto simp: List.map_filter_simps split: option.splits)

subsection \<open>What the property programs look for\<close>

text \<open>A clock observation that shows the deadline passed: the goal's callback consumed it, after the
  send and before any acknowledgment.\<close>

definition deadline_seen :: "decoded list \<Rightarrow> submission \<Rightarrow> decoded \<Rightarrow> bool" where
  "deadline_seen events s e \<longleftrightarrow>
     e \<in> set events \<and> su_ordinal s < dc_ordinal e \<and>
     (\<exists>clock. clock_of (su_callback s) e = Some clock \<and> sint (su_deadline_ns s) \<le> sint (ck_value_ns clock)) \<and>
     (\<forall>a\<in>set events. acknowledges s a \<longrightarrow> dc_ordinal e < dc_ordinal a)"

text \<open>An attempted cancel request for the goal, or for every goal, at the goal's server.\<close>

definition cancelled :: "decoded list \<Rightarrow> submission \<Rightarrow> decoded \<Rightarrow> bool" where
  "cancelled events s e \<longleftrightarrow> e \<in> set events \<and> cancel_for s e \<noteq> None"

lemma acknowledgment_iff:
  assumes "in_order events"
  shows "acknowledgment events s = Some a \<longleftrightarrow>
    a \<in> set events \<and> acknowledges s a \<and>
    (\<forall>x\<in>set events. acknowledges s x \<longrightarrow> dc_ordinal a \<le> dc_ordinal x)"
  unfolding acknowledgment_def by (rule find_in_order [OF assms])

lemma before_ack:
  assumes "in_order events"
  shows "(case acknowledgment events s of None \<Rightarrow> True | Some ack \<Rightarrow> dc_ordinal e < dc_ordinal ack) \<longleftrightarrow>
    (\<forall>a\<in>set events. acknowledges s a \<longrightarrow> dc_ordinal e < dc_ordinal a)"
proof (cases "acknowledgment events s")
  case None
  then have "\<forall>a\<in>set events. \<not> acknowledges s a" by (simp add: acknowledgment_def find_None_iff)
  with None show ?thesis by simp
next
  case (Some ack)
  with acknowledgment_iff [OF assms, of s ack] show ?thesis by (auto intro: less_le_trans)
qed

lemma first_expiry_conv:
  assumes "in_order events"
  shows "first_expiry events s =
    map_option (\<lambda>e. (dc_ordinal e, ck_value_ns (the (clock_of (su_callback s) e))))
      (find (deadline_seen events s) events)"
proof -
  have "find (\<lambda>e. \<exists>y. clock_of (su_callback s) e = Some y \<and>
      (su_ordinal s < dc_ordinal e \<and>
       (case acknowledgment events s of None \<Rightarrow> True | Some ack \<Rightarrow> dc_ordinal e < dc_ordinal ack) \<and>
       sint (su_deadline_ns s) \<le> sint (ck_value_ns y))) events = find (deadline_seen events s) events"
    unfolding before_ack [OF assms] by (rule find_cong) (auto simp: deadline_seen_def)
  then show ?thesis
    unfolding first_expiry_def clocks_of_def find_filter
    by (simp add: find_pairs option.map_comp comp_def split_beta conj_ac cong: option.case_cong)
qed

lemma first_expiry_None:
  "in_order events \<Longrightarrow> first_expiry events s = None \<longleftrightarrow> (\<nexists>e. deadline_seen events s e)"
  by (auto simp: first_expiry_conv find_None_iff deadline_seen_def)

lemma first_expiry_Some:
  assumes "in_order events" and "first_expiry events s = Some (n, v)"
  shows "\<exists>e. deadline_seen events s e \<and> dc_ordinal e = n \<and>
    (\<forall>x. deadline_seen events s x \<longrightarrow> n \<le> dc_ordinal x)"
proof -
  from assms obtain e where e: "find (deadline_seen events s) events = Some e" "n = dc_ordinal e"
    by (auto simp: first_expiry_conv)
  have "x \<in> set events" if "deadline_seen events s x" for x using that by (simp add: deadline_seen_def)
  with find_in_order [OF assms(1)] e show ?thesis by blast
qed

lemma find_cancel:
  "find (\<lambda>(ordinal, _). Q ordinal) (cancels_for events s) =
     map_option (\<lambda>e. (dc_ordinal e, the (cancel_for s e)))
       (find (\<lambda>e. cancel_for s e \<noteq> None \<and> Q (dc_ordinal e)) events)"
  by (simp add: cancels_for_def find_pairs conj_commute)

lemma cancels_for_Nil: "cancels_for events s = [] \<longleftrightarrow> (\<nexists>k. cancelled events s k)"
  by (auto simp: cancels_for_def map_filter_pairs_Nil cancelled_def)

lemma find_cancel_None:
  "find (\<lambda>(ordinal, _). Q ordinal) (cancels_for events s) = None \<longleftrightarrow>
     (\<forall>k. cancelled events s k \<longrightarrow> \<not> Q (dc_ordinal k))"
  by (auto simp: find_cancel find_None_iff cancelled_def)

lemma cancel_not_expiry:
  assumes "in_order events" "cancelled events s k" "deadline_seen events s e"
  shows "dc_ordinal k \<noteq> dc_ordinal e"
  using in_order_unique [OF assms(1), of k e] assms(2,3)
  by (auto simp: cancelled_def deadline_seen_def cancel_for_def clock_of_def split: if_splits)

lemma timeout_cancel_result:
  assumes "in_order events"
  shows "pr_result (timeout_cancel_verdict inp events s) =
    (if \<exists>k. cancelled events s k \<and> (\<nexists>e. deadline_seen events s e \<and> dc_ordinal e < dc_ordinal k) then VFail
     else if \<exists>k. cancelled events s k then VPass
     else if (\<exists>e. deadline_seen events s e) \<and> evidence_stopped inp = None then VFail
     else VInconclusive)"
proof (cases "first_expiry events s")
  case None
  then have no: "\<nexists>e. deadline_seen events s e" using first_expiry_None [OF assms] by blast
  show ?thesis
  proof (cases "cancels_for events s")
    case Nil
    then show ?thesis using None no cancels_for_Nil [of events s]
      by (simp add: timeout_cancel_verdict_def verdict_result_def)
  next
    case (Cons p ps)
    then have "\<exists>k. cancelled events s k" using cancels_for_Nil [of events s] by auto
    with None no Cons show ?thesis
      by (auto simp: timeout_cancel_verdict_def verdict_result_def split: prod.splits)
  qed
next
  case (Some p)
  obtain n v where p: "first_expiry events s = Some (n, v)" using Some by (cases p) auto
  from first_expiry_Some [OF assms p] obtain e where e: "deadline_seen events s e" "dc_ordinal e = n"
    and least: "\<forall>x. deadline_seen events s x \<longrightarrow> n \<le> dc_ordinal x" by blast
  have after: "(\<exists>x. deadline_seen events s x \<and> dc_ordinal x < dc_ordinal k) \<longleftrightarrow> n < dc_ordinal k" for k
    using e least by (auto intro: le_less_trans)
  have apart: "n < dc_ordinal k \<longleftrightarrow> \<not> dc_ordinal k < n" if "cancelled events s k" for k
    using cancel_not_expiry [OF assms that e(1)] e(2) by auto
  let ?early = "find (\<lambda>(ordinal, _). ordinal < n) (cancels_for events s)"
  let ?late = "find (\<lambda>(ordinal, _). n < ordinal) (cancels_for events s)"
  show ?thesis
  proof (cases ?early)
    case None
    then have late: "\<forall>k. cancelled events s k \<longrightarrow> n < dc_ordinal k"
      using find_cancel_None [of "\<lambda>m. m < n"] apart by blast
    show ?thesis
    proof (cases ?late)
      case none: None
      then have "\<nexists>k. cancelled events s k" using late find_cancel_None [of "\<lambda>m. n < m"] by blast
      then show ?thesis using none None p e(1)
        by (auto simp: timeout_cancel_verdict_def verdict_result_def split: option.splits)
    next
      case (Some q)
      then have "\<exists>k. cancelled events s k"
        using find_cancel_None [of "\<lambda>m. n < m" events s] by auto
      then show ?thesis using Some None p late after
        by (auto simp: timeout_cancel_verdict_def verdict_result_def split: prod.splits)
    qed
  next
    case (Some q)
    then have "\<not> (\<forall>k. cancelled events s k \<longrightarrow> \<not> dc_ordinal k < n)"
      using find_cancel_None [of "\<lambda>m. m < n" events s] by simp
    then obtain k where "cancelled events s k" "\<not> n < dc_ordinal k" using apart by blast
    then show ?thesis using Some p after
      by (auto simp: timeout_cancel_verdict_def verdict_result_def split: prod.splits)
  qed
qed

lemma list_ex_pairs:
  "list_ex Q (List.map_filter (\<lambda>e. map_option (Pair (k e)) (g e)) es) \<longleftrightarrow>
     (\<exists>e\<in>set es. \<exists>y. g e = Some y \<and> Q (k e, y))"
  by (induction es) (auto simp: List.map_filter_simps split: option.splits)

lemma last_pairs:
  assumes "in_order es" and "filter (\<lambda>(e, _). Q e) (List.map_filter (\<lambda>e. map_option (Pair e) (g e)) es) = ps"
    and "ps \<noteq> []"
  shows "\<exists>e y. last ps = (e, y) \<and> e \<in> set es \<and> g e = Some y \<and> Q e \<and>
    (\<forall>x\<in>set es. g x \<noteq> None \<longrightarrow> Q x \<longrightarrow> dc_ordinal x \<le> dc_ordinal e)"
  using assms
proof (induction es arbitrary: ps)
  case (Cons a es)
  let ?rest = "filter (\<lambda>(e, _). Q e) (List.map_filter (\<lambda>e. map_option (Pair e) (g e)) es)"
  have ord: "in_order es" and least: "\<forall>x\<in>set es. dc_ordinal a < dc_ordinal x" using Cons.prems(1) by simp_all
  show ?case
  proof (cases "?rest = []")
    case True
    then have none: "\<forall>x\<in>set es. g x \<noteq> None \<longrightarrow> \<not> Q x"
      by (auto simp: filter_empty_conv List.map_filter_def)
    with True Cons.prems(2,3) show ?thesis
      by (auto simp: List.map_filter_simps split: option.splits if_splits)
  next
    case False
    from Cons.IH [OF ord refl False] obtain e y where
      e: "last ?rest = (e, y)" "e \<in> set es" "g e = Some y" "Q e"
      "\<forall>x\<in>set es. g x \<noteq> None \<longrightarrow> Q x \<longrightarrow> dc_ordinal x \<le> dc_ordinal e" by blast
    have "last ps = last ?rest"
      using False Cons.prems(2) by (auto simp: List.map_filter_simps split: option.splits if_splits)
    with e least show ?thesis by (intro exI [of _ e] exI [of _ y]) (auto simp: less_imp_le)
  qed
qed (simp add: List.map_filter_simps)

text \<open>The first acknowledgment accepts the goal.\<close>

definition acceptance :: "decoded list \<Rightarrow> submission \<Rightarrow> decoded \<Rightarrow> bool" where
  "acceptance events s a \<longleftrightarrow>
     a \<in> set events \<and> acknowledges s a \<and>
     (\<forall>x\<in>set events. acknowledges s x \<longrightarrow> dc_ordinal a \<le> dc_ordinal x) \<and>
     (\<exists>r. decode_goal_response (dc_body a) = Inr r \<and> gr_accepted r)"

lemma accepted_ack_iff:
  assumes "in_order events"
  shows "accepted_ack events s = Some a \<longleftrightarrow> acceptance events s a"
proof (cases "acknowledgment events s")
  case None
  then have "\<forall>x\<in>set events. \<not> acknowledges s x" by (simp add: acknowledgment_def find_None_iff)
  with None show ?thesis by (auto simp: accepted_ack_def acceptance_def)
next
  case (Some b)
  have "acceptance events s a \<longleftrightarrow> acknowledgment events s = Some a \<and>
      (\<exists>r. decode_goal_response (dc_body a) = Inr r \<and> gr_accepted r)"
    unfolding acknowledgment_iff [OF assms] acceptance_def by blast
  with Some show ?thesis by (auto simp: accepted_ack_def split: sum.splits)
qed

lemma timely_ack_result:
  assumes "in_order events"
  shows "pr_result (timely_ack_verdict inp events s) =
    (if \<exists>k. cancelled events s k then VFail
     else if (\<exists>a. acceptance events s a) \<and> (\<nexists>e. deadline_seen events s e) \<and> evidence_stopped inp = None
     then VPass else VInconclusive)"
proof (cases "cancels_for events s")
  case (Cons p ps)
  then have "\<exists>k. cancelled events s k" using cancels_for_Nil [of events s] by auto
  with Cons show ?thesis by (auto simp: timely_ack_verdict_def verdict_result_def split: prod.splits)
next
  case Nil
  then have no: "\<nexists>k. cancelled events s k" using cancels_for_Nil [of events s] by auto
  show ?thesis
  proof (cases "accepted_ack events s")
    case None
    then have "\<nexists>a. acceptance events s a" using accepted_ack_iff [OF assms, of s] by auto
    with Nil None no show ?thesis by (auto simp: timely_ack_verdict_def verdict_result_def)
  next
    case (Some a)
    then have a: "acceptance events s a" using accepted_ack_iff [OF assms] by simp
    have "list_ex (\<lambda>(event, clock). dc_ordinal event > su_ordinal s \<and> dc_ordinal event < dc_ordinal a \<and>
         sint (su_deadline_ns s) \<le> sint (ck_value_ns clock)) (clocks_of events (su_callback s)) \<longleftrightarrow>
       (\<exists>e. deadline_seen events s e)"
    proof -
      have "(\<forall>x\<in>set events. acknowledges s x \<longrightarrow> dc_ordinal e < dc_ordinal x) \<longleftrightarrow>
          dc_ordinal e < dc_ordinal a" for e
        using a by (auto simp: acceptance_def intro: less_le_trans)
      then show ?thesis
        unfolding clocks_of_def list_ex_pairs deadline_seen_def by auto
    qed
    moreover have "\<exists>a. acceptance events s a" using a by blast
    ultimately show ?thesis
      using Nil Some no
      by (cases "\<exists>e. deadline_seen events s e"; cases "evidence_stopped inp")
        (simp_all add: timely_ack_verdict_def verdict_result_def Let_def)
  qed
qed

subsection \<open>The submission\<close>

lemma submission_of_Inr:
  assumes "submission_of inp events = Inr (Inr s)" and "in_order events"
  shows "\<exists>command send goal e clock.
    find is_command events = Some command \<and> dc_recorded_ordinal command = Some (su_callback s) \<and>
    find (is_send_of command (su_callback s)) events = Some send \<and>
    su_ordinal s = dc_ordinal send \<and> su_server s = dc_dst_actor send \<and>
    decode_goal_send (dc_body send) = Inr \<lparr>gs_goal_id = su_goal_id s, gs_goal = goal\<rparr> \<and>
    e \<in> set events \<and> clock_of (su_callback s) e = Some clock \<and> dc_ordinal e < dc_ordinal send \<and>
    (\<forall>x\<in>set events. clock_of (su_callback s) x \<noteq> None \<longrightarrow> dc_ordinal x < dc_ordinal send \<longrightarrow>
       dc_ordinal x \<le> dc_ordinal e) \<and>
    su_sent_at_ns s = ck_value_ns clock \<and>
    sint (su_deadline_ns s) = sint (ck_value_ns clock) + sint (pi_goal_response_deadline_ns inp)"
proof -
  from assms(1) obtain command callback send g deadline where
    cmd: "find is_command events = Some command" "dc_recorded_ordinal command = Some callback"
    and send: "find (is_send_of command callback) events = Some send"
    and g: "decode_goal_send (dc_body send) = Inr g"
    and ne: "filter (\<lambda>(event, _). dc_ordinal event < dc_ordinal send) (clocks_of events callback) \<noteq> []"
    and add: "checked_add_i64 (ck_value_ns (snd (last (filter (\<lambda>(event, _). dc_ordinal event < dc_ordinal send)
        (clocks_of events callback))))) (pi_goal_response_deadline_ns inp) = Some deadline"
    and s: "s = \<lparr>su_callback = callback, su_ordinal = dc_ordinal send, su_goal_id = gs_goal_id g,
      su_server = dc_dst_actor send, su_sent_at_ns = ck_value_ns (snd (last (filter (\<lambda>(event, _). dc_ordinal event < dc_ordinal send)
        (clocks_of events callback)))),
      su_deadline_ns = deadline\<rparr>"
    by (auto simp: submission_of_def Let_def split: option.splits sum.splits if_splits)
  from last_pairs [OF assms(2) refl ne [unfolded clocks_of_def]] obtain e clock where
    "last (filter (\<lambda>(event, _). dc_ordinal event < dc_ordinal send) (clocks_of events callback)) = (e, clock)" "e \<in> set events" "clock_of callback e = Some clock"
    "dc_ordinal e < dc_ordinal send"
    "\<forall>x\<in>set events. clock_of callback x \<noteq> None \<longrightarrow> dc_ordinal x < dc_ordinal send \<longrightarrow> dc_ordinal x \<le> dc_ordinal e"
    unfolding clocks_of_def by blast
  with cmd send g s checked_add_i64_sint [OF add] show ?thesis
    by (intro exI [of _ command] exI [of _ send] exI [of _ "gs_goal g"] exI [of _ e] exI [of _ clock]) auto
qed

subsection \<open>Results\<close>

text \<open>What every evaluated result looks like.\<close>

definition well_formed_result :: "property_input \<Rightarrow> property_result \<Rightarrow> bool" where
  "well_formed_result inp r \<longleftrightarrow>
     pr_schema r = RESULT_SCHEMA \<and> pr_property r = pi_property inp \<and> pr_result r \<noteq> VInvalid \<and>
     (pr_result r = VPass \<longleftrightarrow> pr_predicate r = None)"

lemma well_formed_timeout: "well_formed_result inp (timeout_cancel_verdict inp events s)"
  by (auto simp: well_formed_result_def timeout_cancel_verdict_def verdict_result_def Let_def
      split: option.splits list.splits prod.splits)

lemma well_formed_timely: "well_formed_result inp (timely_ack_verdict inp events s)"
  by (auto simp: well_formed_result_def timely_ack_verdict_def verdict_result_def Let_def
      split: option.splits list.splits prod.splits)

lemma well_formed_submission: "submission_of inp events = Inr (Inl r) \<Longrightarrow> well_formed_result inp r \<and> pr_result r \<noteq> VPass"
  by (auto simp: well_formed_result_def submission_of_def verdict_result_def Let_def
      split: option.splits sum.splits if_splits)

subsection \<open>Events of a run\<close>

definition decoded_frame ::
  "(u64 \<Rightarrow> u64 option) \<Rightarrow> (u64 \<Rightarrow> (u64 \<times> step_status) option) \<Rightarrow> frame \<Rightarrow> decoded" where
  "decoded_frame effect_callbacks steps f =
     \<lparr>dc_ordinal = f_ordinal f, dc_recorded_ordinal = map_option fst (steps (f_ordinal f)),
      dc_consumed = (\<exists>n. steps (f_ordinal f) = Some (n, StatusOk)),
      dc_callback = effect_callbacks (f_ordinal f), dc_event_type = f_event_type f,
      dc_replayed = is_emit f, dc_dst_actor = f_dst_actor f, dc_flags = h_flags (f_header f),
      dc_body = f_body f\<rparr>"

lemma decode_event_of_frame:
  "decode_event (event_of_frame callbacks steps f) = Inr (decoded_frame callbacks steps f)"
  by (cases "steps (f_ordinal f)")
    (auto simp: decode_event_def event_of_frame_def decoded_frame_def is_emit_def Let_def)

lemma decode_event_list_of_frames:
  "decode_event_list (map (event_of_frame callbacks steps) fs) = Inr (map (decoded_frame callbacks steps) fs)"
  by (induction fs) (simp_all add: decode_event_of_frame)

lemma in_order_renumbered:
  assumes "renumbered fs" and "length fs < 2 ^ 64"
  shows "in_order (map (decoded_frame callbacks steps) fs)"
  unfolding in_order_def sorted_wrt_map
proof (rule sorted_wrt_iff_nth_less [THEN iffD2], intro allI impI)
  fix i j assume ij: "i < j" "j < length fs"
  have "f_ordinal (fs ! k) = word_of_nat k" if "k < length fs" for k
    using that assms(1) unfolding renumbered_def by (metis (no_types, lifting) add_0 length_map nth_map nth_upt)
  then show "dc_ordinal (decoded_frame callbacks steps (fs ! i)) < dc_ordinal (decoded_frame callbacks steps (fs ! j))"
    using ij assms(2) u64_of_nat_less [of i j] by (simp add: decoded_frame_def)
qed

subsection \<open>The goal a recording commands\<close>

text \<open>The first event with a property: the one with the least ordinal.\<close>

definition first_event :: "(decoded \<Rightarrow> bool) \<Rightarrow> decoded list \<Rightarrow> decoded \<Rightarrow> bool" where
  "first_event P events x \<longleftrightarrow>
     x \<in> set events \<and> P x \<and> (\<forall>y\<in>set events. P y \<longrightarrow> dc_ordinal x \<le> dc_ordinal y)"

text \<open>The goal command: the first recorded message consumed; its callback is its recorded ordinal.\<close>

definition commanded :: "decoded list \<Rightarrow> u64 \<Rightarrow> decoded \<Rightarrow> bool" where
  "commanded events callback command \<longleftrightarrow>
     first_event is_command events command \<and> dc_recorded_ordinal command = Some callback"

text \<open>The last clock value a callback consumed before an ordinal.\<close>

definition clock_before :: "decoded list \<Rightarrow> u64 \<Rightarrow> u64 \<Rightarrow> clock \<Rightarrow> bool" where
  "clock_before events callback ordinal clock \<longleftrightarrow>
     (\<exists>e\<in>set events. clock_of callback e = Some clock \<and> dc_ordinal e < ordinal \<and>
        (\<forall>x\<in>set events. clock_of callback x \<noteq> None \<longrightarrow> dc_ordinal x < ordinal \<longrightarrow> dc_ordinal x \<le> dc_ordinal e))"

text \<open>The goal judged: the first attempted send of the command's callback after the command, with the
  deadline counted from the callback's last clock value before it.\<close>

definition judged_goal :: "property_input \<Rightarrow> decoded list \<Rightarrow> submission \<Rightarrow> bool" where
  "judged_goal inp events s \<longleftrightarrow>
     (\<exists>command send goal clock.
        commanded events (su_callback s) command \<and>
        first_event (is_send_of command (su_callback s)) events send \<and>
        su_ordinal s = dc_ordinal send \<and> su_server s = dc_dst_actor send \<and>
        decode_goal_send (dc_body send) = Inr \<lparr>gs_goal_id = su_goal_id s, gs_goal = goal\<rparr> \<and>
        clock_before events (su_callback s) (dc_ordinal send) clock \<and>
        su_sent_at_ns s = ck_value_ns clock \<and>
        sint (su_deadline_ns s) = sint (ck_value_ns clock) + sint (pi_goal_response_deadline_ns inp))"

text \<open>A command whose callback never sent a goal, and is not left waiting for anything.\<close>

definition never_submitted :: "property_input \<Rightarrow> decoded list \<Rightarrow> bool" where
  "never_submitted inp events \<longleftrightarrow>
     (\<exists>command callback. commanded events callback command \<and>
        (\<forall>x\<in>set events. \<not> is_send_of command callback x) \<and> pending_for inp callback = None)"

text \<open>No command, or one whose callback sent no goal but still waits for an input.\<close>

definition not_yet_submitted :: "property_input \<Rightarrow> decoded list \<Rightarrow> bool" where
  "not_yet_submitted inp events \<longleftrightarrow>
     (\<forall>x\<in>set events. \<not> is_command x) \<or>
     (\<exists>command callback. commanded events callback command \<and>
        (\<forall>x\<in>set events. \<not> is_send_of command callback x) \<and> pending_for inp callback \<noteq> None)"

lemma find_first: "in_order events \<Longrightarrow> find P events = Some x \<longleftrightarrow> first_event P events x"
  unfolding first_event_def by (rule find_in_order)

lemma find_commanded:
  assumes "in_order events"
  shows "find is_command events = Some command \<and> dc_recorded_ordinal command = Some callback \<longleftrightarrow>
    commanded events callback command"
  unfolding commanded_def find_first [OF assms] ..

lemma commanded_unique:
  assumes "in_order events" and "commanded events c k" and "commanded events c' k'"
  shows "c' = c" and "k' = k"
  using assms(2,3) unfolding find_commanded [OF assms(1), symmetric] by auto

lemma no_send: "(\<forall>x\<in>set events. \<not> P x) \<longleftrightarrow> find P events = None"
  by (auto simp: find_None_iff)

lemma checked_add_i64_Some:
  "checked_add_i64 a b = Some c \<longleftrightarrow> sint c = sint a + sint b"
proof
  assume sum: "sint c = sint a + sint b"
  have "- (2 ^ 63) \<le> sint c" "sint c < 2 ^ 63" using sint_range_size [of c] by (simp_all add: word_size)
  then obtain d where d: "checked_add_i64 a b = Some d" using sum by (simp add: checked_add_i64_def)
  then have "sint d = sint c" using checked_add_i64_sint [OF d] sum by simp
  with d show "checked_add_i64 a b = Some c" by (simp add: signed_word_eqI)
qed (rule checked_add_i64_sint)

lemma clock_before_iff:
  assumes "in_order events"
  shows "clock_before events callback ordinal clock \<longleftrightarrow>
    (let before = filter (\<lambda>(event, _). dc_ordinal event < ordinal) (clocks_of events callback)
     in before \<noteq> [] \<and> snd (last before) = clock)"
proof -
  define before where "before = filter (\<lambda>(event, _). dc_ordinal event < ordinal) (clocks_of events callback)"
  have among: "(e, y) \<in> set before \<longleftrightarrow> e \<in> set events \<and> clock_of callback e = Some y \<and> dc_ordinal e < ordinal" for e y
    by (force simp: before_def clocks_of_def List.map_filter_def image_iff)
  have least: "\<exists>e y. last before = (e, y) \<and> e \<in> set events \<and> clock_of callback e = Some y \<and> dc_ordinal e < ordinal \<and>
      (\<forall>x\<in>set events. clock_of callback x \<noteq> None \<longrightarrow> dc_ordinal x < ordinal \<longrightarrow> dc_ordinal x \<le> dc_ordinal e)"
    if "before \<noteq> []"
    using last_pairs [OF assms _ that] by (simp add: before_def clocks_of_def)
  show ?thesis
  proof
    assume "clock_before events callback ordinal clock"
    then obtain e where e: "e \<in> set events" "clock_of callback e = Some clock" "dc_ordinal e < ordinal"
      and last_e: "\<forall>x\<in>set events. clock_of callback x \<noteq> None \<longrightarrow> dc_ordinal x < ordinal \<longrightarrow> dc_ordinal x \<le> dc_ordinal e"
      by (auto simp: clock_before_def)
    then have "(e, clock) \<in> set before" by (simp add: among)
    then have ne: "before \<noteq> []" by auto
    from least [OF this] obtain x y where x: "last before = (x, y)" "x \<in> set events" "clock_of callback x = Some y"
      "dc_ordinal x < ordinal" "dc_ordinal e \<le> dc_ordinal x" using e by (metis option.distinct(1))
    have "dc_ordinal x \<le> dc_ordinal e" using last_e x by (metis option.distinct(1))
    then have "x = e" using in_order_unique [OF assms x(2) e(1)] x(5) by simp
    then show "let before = filter (\<lambda>(event, _). dc_ordinal event < ordinal) (clocks_of events callback)
        in before \<noteq> [] \<and> snd (last before) = clock"
      using x e(2) ne by (simp add: before_def [symmetric])
  next
    assume "let before = filter (\<lambda>(event, _). dc_ordinal event < ordinal) (clocks_of events callback)
        in before \<noteq> [] \<and> snd (last before) = clock"
    then have "before \<noteq> []" "snd (last before) = clock" by (simp_all add: before_def [symmetric] Let_def)
    with least show "clock_before events callback ordinal clock" unfolding clock_before_def by fastforce
  qed
qed

text \<open>\<open>submission\<close> finds exactly the goal judged.\<close>

lemma submission_of_judged:
  assumes "in_order events"
  shows "submission_of inp events = Inr (Inr s) \<longleftrightarrow> judged_goal inp events s"
proof
  assume s: "submission_of inp events = Inr (Inr s)"
  from submission_of_Inr [OF s assms] obtain command :: decoded and send :: decoded and goal and e :: decoded and clock where
    "find is_command events = Some command" "dc_recorded_ordinal command = Some (su_callback s)"
    "find (is_send_of command (su_callback s)) events = Some send"
    "su_ordinal s = dc_ordinal send" "su_server s = dc_dst_actor send"
    "decode_goal_send (dc_body send) = Inr \<lparr>gs_goal_id = su_goal_id s, gs_goal = goal\<rparr>"
    "clock_before events (su_callback s) (dc_ordinal send) clock"
    "su_sent_at_ns s = ck_value_ns clock"
    "sint (su_deadline_ns s) = sint (ck_value_ns clock) + sint (pi_goal_response_deadline_ns inp)"
    unfolding clock_before_def by blast
  then show "judged_goal inp events s"
    unfolding judged_goal_def find_commanded [OF assms, symmetric] find_first [OF assms, symmetric] by blast
next
  assume "judged_goal inp events s"
  then obtain command send goal clock where c: "find is_command events = Some command"
      "dc_recorded_ordinal command = Some (su_callback s)"
    and send: "find (is_send_of command (su_callback s)) events = Some send"
    and f: "su_ordinal s = dc_ordinal send" "su_server s = dc_dst_actor send" "su_sent_at_ns s = ck_value_ns clock"
    and g: "decode_goal_send (dc_body send) = Inr \<lparr>gs_goal_id = su_goal_id s, gs_goal = goal\<rparr>"
    and k: "clock_before events (su_callback s) (dc_ordinal send) clock"
    and d: "checked_add_i64 (ck_value_ns clock) (pi_goal_response_deadline_ns inp) = Some (su_deadline_ns s)"
    unfolding judged_goal_def find_commanded [OF assms, symmetric] find_first [OF assms, symmetric]
      checked_add_i64_Some by blast
  from k have "filter (\<lambda>(event, _). dc_ordinal event < dc_ordinal send) (clocks_of events (su_callback s)) \<noteq> []"
    "snd (last (filter (\<lambda>(event, _). dc_ordinal event < dc_ordinal send) (clocks_of events (su_callback s)))) = clock"
    unfolding clock_before_iff [OF assms] Let_def by blast+
  then show "submission_of inp events = Inr (Inr s)"
    unfolding submission_of_def c option.case send g sum.case Let_def using d by (simp add: f)
qed

lemma submission_of_cases:
  assumes "in_order events"
  shows "(\<exists>r. submission_of inp events = Inr (Inl r) \<and> pr_result r = VFail) \<longleftrightarrow> never_submitted inp events"
    and "(\<exists>r. submission_of inp events = Inr (Inl r) \<and> pr_result r = VInconclusive) \<longleftrightarrow>
      not_yet_submitted inp events"
    and "submission_of inp events = Inr (Inl r) \<Longrightarrow> pr_result r \<in> {VFail, VInconclusive}"
proof -
  show "submission_of inp events = Inr (Inl r) \<Longrightarrow> pr_result r \<in> {VFail, VInconclusive}"
    using well_formed_submission [of inp events r] by (cases "pr_result r") (auto simp: well_formed_result_def)
  show "(\<exists>r. submission_of inp events = Inr (Inl r) \<and> pr_result r = VFail) \<longleftrightarrow> never_submitted inp events"
    unfolding never_submitted_def find_commanded [OF assms, symmetric] no_send
    by (auto simp: submission_of_def verdict_result_def Let_def split: option.splits sum.splits if_splits)
  show "(\<exists>r. submission_of inp events = Inr (Inl r) \<and> pr_result r = VInconclusive) \<longleftrightarrow>
      not_yet_submitted inp events"
    unfolding not_yet_submitted_def find_commanded [OF assms, symmetric] no_send
    by (auto simp: submission_of_def verdict_result_def Let_def split: option.splits sum.splits if_splits)
qed

text \<open>An input for a property in the scope its program evaluates, and the verdict printed on it.\<close>

definition well_posed :: "property_input \<Rightarrow> string \<Rightarrow> string \<Rightarrow> bool" where
  "well_posed inp property completion \<longleftrightarrow>
     pi_schema inp = INPUT_SCHEMA \<and> pi_property inp = property \<and>
     sc_completion (pi_scope inp) = completion \<and> sc_observation_end (pi_scope inp) = ''end_of_recording''"

definition verdict_of :: "property_input \<Rightarrow> verdict \<Rightarrow> bool" where
  "verdict_of inp v \<longleftrightarrow> (\<exists>r. evaluate inp = Inr r \<and> pr_result r = v)"

lemma evaluate_well_posed:
  assumes "decode_events inp = Inr events"
  shows "well_posed inp PROPERTY_TIMEOUT_CANCEL ''cancel_request_issued'' \<Longrightarrow> evaluate inp = timeout_cancel inp events"
    and "well_posed inp PROPERTY_TIMELY_ACK ''observation_interval_elapsed'' \<Longrightarrow> evaluate inp = timely_ack inp events"
proof -
  have "PROPERTY_TIMELY_ACK \<noteq> PROPERTY_TIMEOUT_CANCEL"
    by (simp add: PROPERTY_TIMELY_ACK_def PROPERTY_TIMEOUT_CANCEL_def)
  then show "well_posed inp PROPERTY_TIMEOUT_CANCEL ''cancel_request_issued'' \<Longrightarrow> evaluate inp = timeout_cancel inp events"
    "well_posed inp PROPERTY_TIMELY_ACK ''observation_interval_elapsed'' \<Longrightarrow> evaluate inp = timely_ack inp events"
    using assms by (simp_all add: well_posed_def evaluate_def)
qed

text \<open>A verdict of an evaluation is the submission's, or that on the goal judged.\<close>

lemma verdict_cases:
  assumes "in_order events"
    and "evaluate inp = (case submission_of inp events of
        Inl e \<Rightarrow> Inl e | Inr (Inl verdict) \<Rightarrow> Inr verdict | Inr (Inr s) \<Rightarrow> Inr (judge s))"
  shows "verdict_of inp v \<longleftrightarrow>
    v = VFail \<and> never_submitted inp events \<or> v = VInconclusive \<and> not_yet_submitted inp events \<or>
    (\<exists>s. judged_goal inp events s \<and> pr_result (judge s) = v)"
proof -
  have "verdict_of inp v \<longleftrightarrow> (\<exists>r. submission_of inp events = Inr (Inl r) \<and> pr_result r = v) \<or>
      (\<exists>s. submission_of inp events = Inr (Inr s) \<and> pr_result (judge s) = v)"
    unfolding verdict_of_def assms(2) by (auto split: sum.splits)
  moreover have "(\<exists>r. submission_of inp events = Inr (Inl r) \<and> pr_result r = v) \<longleftrightarrow>
      v = VFail \<and> (\<exists>r. submission_of inp events = Inr (Inl r) \<and> pr_result r = VFail) \<or>
      v = VInconclusive \<and> (\<exists>r. submission_of inp events = Inr (Inl r) \<and> pr_result r = VInconclusive)"
    using submission_of_cases(3) [OF assms(1), of inp] by auto
  ultimately show ?thesis
    unfolding submission_of_judged [OF assms(1)] submission_of_cases(1,2) [OF assms(1)] by blast
qed

text \<open>The four verdicts on a goal that was submitted.\<close>

lemma timeout_cancel_verdicts:
  assumes "in_order events"
  shows "pr_result (timeout_cancel_verdict inp events s) = VPass \<longleftrightarrow>
      (\<exists>k. cancelled events s k) \<and>
      (\<forall>k. cancelled events s k \<longrightarrow> (\<exists>e. deadline_seen events s e \<and> dc_ordinal e < dc_ordinal k))"
    and "pr_result (timeout_cancel_verdict inp events s) = VFail \<longleftrightarrow>
      (\<exists>k. cancelled events s k \<and> (\<nexists>e. deadline_seen events s e \<and> dc_ordinal e < dc_ordinal k)) \<or>
      (\<exists>e. deadline_seen events s e) \<and> (\<nexists>k. cancelled events s k) \<and> evidence_stopped inp = None"
    and "pr_result (timeout_cancel_verdict inp events s) = VInconclusive \<longleftrightarrow>
      (\<nexists>k. cancelled events s k) \<and> ((\<nexists>e. deadline_seen events s e) \<or> evidence_stopped inp \<noteq> None)"
    and "pr_result (timeout_cancel_verdict inp events s) \<noteq> VInvalid"
  unfolding timeout_cancel_result [OF assms] by (simp_all split: if_split)

lemma timely_ack_verdicts:
  assumes "in_order events"
  shows "pr_result (timely_ack_verdict inp events s) = VFail \<longleftrightarrow> (\<exists>k. cancelled events s k)"
    and "pr_result (timely_ack_verdict inp events s) = VPass \<longleftrightarrow>
      (\<nexists>k. cancelled events s k) \<and> (\<exists>a. acceptance events s a) \<and>
      (\<nexists>e. deadline_seen events s e) \<and> evidence_stopped inp = None"
    and "pr_result (timely_ack_verdict inp events s) = VInconclusive \<longleftrightarrow>
      (\<nexists>k. cancelled events s k) \<and>
      ((\<nexists>a. acceptance events s a) \<or> (\<exists>e. deadline_seen events s e) \<or> evidence_stopped inp \<noteq> None)"
    and "pr_result (timely_ack_verdict inp events s) \<noteq> VInvalid"
  unfolding timely_ack_result [OF assms] by (simp_all split: if_split)

section \<open>A small run\<close>

definition demo_input :: property_input where
  "demo_input =
     \<lparr>pi_schema = INPUT_SCHEMA, pi_property = PROPERTY_TIMELY_ACK, pi_scenario = [],
      pi_scope = \<lparr>sc_completion = ''observation_interval_elapsed'',
        sc_observation_end = ''end_of_recording''\<rparr>,
      pi_goal_response_deadline_ns = 10, pi_events = [], pi_progress = [],
      pi_evidence = \<lparr>ev_end_of_recording = True, ev_gaps = [], ev_refusal = None,
        ev_pending_at_finish = []\<rparr>, pi_identities = []\<rparr>"

text \<open>A goal sent at ordinal 3 with deadline 10 ns, a clock value 10 at ordinal 4, a cancel at 5.\<close>

definition demo_submission :: submission where
  "demo_submission =
     \<lparr>su_callback = 5, su_ordinal = 3, su_goal_id = 7, su_server = ACTOR_ACTION_SERVER,
      su_sent_at_ns = 0, su_deadline_ns = 10\<rparr>"

definition demo_expiry :: decoded where
  "demo_expiry =
     \<lparr>dc_ordinal = 4, dc_recorded_ordinal = Some 9, dc_consumed = True, dc_callback = None,
      dc_event_type = EvClock, dc_replayed = False, dc_dst_actor = COMPONENT_ACTOR_ID, dc_flags = 0,
      dc_body = encode_clock \<lparr>ck_clock_id = CLOCK_ROS, ck_value_ns = 10, ck_callback_ordinal = 5\<rparr>\<rparr>"

definition demo_cancel :: decoded where
  "demo_cancel =
     \<lparr>dc_ordinal = 5, dc_recorded_ordinal = None, dc_consumed = False, dc_callback = Some 5,
      dc_event_type = EvCancelSend, dc_replayed = True, dc_dst_actor = ACTOR_ACTION_SERVER,
      dc_flags = 3, dc_body = encode_cancel_send \<lparr>cs_goal_id = 7, cs_stamp_ns = 10\<rparr>\<rparr>"

definition demo_command_event :: decoded where
  "demo_command_event =
     \<lparr>dc_ordinal = 1, dc_recorded_ordinal = Some 5, dc_consumed = True, dc_callback = None,
      dc_event_type = EvMessage, dc_replayed = False, dc_dst_actor = COMPONENT_ACTOR_ID, dc_flags = 0,
      dc_body = message [1]\<rparr>"

definition demo_send_clock :: decoded where
  "demo_send_clock =
     \<lparr>dc_ordinal = 2, dc_recorded_ordinal = Some 6, dc_consumed = True, dc_callback = None,
      dc_event_type = EvClock, dc_replayed = False, dc_dst_actor = COMPONENT_ACTOR_ID, dc_flags = 0,
      dc_body = encode_clock \<lparr>ck_clock_id = CLOCK_ROS, ck_value_ns = 0, ck_callback_ordinal = 5\<rparr>\<rparr>"

definition demo_send_event :: decoded where
  "demo_send_event =
     \<lparr>dc_ordinal = 3, dc_recorded_ordinal = None, dc_consumed = False, dc_callback = Some 5,
      dc_event_type = EvGoalSend, dc_replayed = True, dc_dst_actor = ACTOR_ACTION_SERVER, dc_flags = 3,
      dc_body = encode_goal_send \<lparr>gs_goal_id = 7, gs_goal = [1]\<rparr>\<rparr>"

lemmas demo_event_defs =
  demo_command_event_def demo_send_clock_def demo_send_event_def demo_expiry_def demo_cancel_def

lemma demo_submission_of:
  assumes "pi_goal_response_deadline_ns inp = 10"
  shows "submission_of inp [demo_command_event, demo_send_clock, demo_send_event, demo_expiry, demo_cancel] =
    Inr (Inr demo_submission)"
  using assms
  by (simp add: submission_of_def demo_event_defs is_command_def is_send_of_def goal_send_codec.dec_enc
      clocks_of_def clock_of_def clock_codec.dec_enc List.map_filter_simps FLAG_ATTEMPTED_def
      checked_add_i64_def demo_submission_def)

text \<open>The event a decoded one is read from.\<close>

definition demo_event :: "decoded \<Rightarrow> property_event" where
  "demo_event d =
     \<lparr>pe_ordinal = dc_ordinal d, pe_origin = (if dc_replayed d then ''replayed'' else ''recorded''),
      pe_recorded_ordinal = dc_recorded_ordinal d, pe_consumed = Some (dc_consumed d),
      pe_kind = (if dc_replayed d then ''Emit'' else ''Deliver''),
      pe_event_type = event_type_name (dc_event_type d), pe_src_actor = 0, pe_dst_actor = dc_dst_actor d,
      pe_channel_id = 0, pe_src_seq = 0, pe_flags = dc_flags d, pe_body_hex = encode_hex (dc_body d),
      pe_callback = dc_callback d\<rparr>"

lemma decode_demo_events: "decode_event_list (map demo_event ds) = Inr ds"
  by (induction ds) (simp_all add: decode_event_def demo_event_def)

definition demo_timeout :: "decoded list \<Rightarrow> property_input" where
  "demo_timeout ds = demo_input\<lparr>pi_property := PROPERTY_TIMEOUT_CANCEL,
     pi_scope := \<lparr>sc_completion = ''cancel_request_issued'', sc_observation_end = ''end_of_recording''\<rparr>,
     pi_events := map demo_event ds\<rparr>"

definition demo_timely :: "decoded list \<Rightarrow> property_input" where
  "demo_timely ds = demo_input\<lparr>pi_events := map demo_event ds\<rparr>"

lemma demo_well_posed:
  "well_posed (demo_timeout ds) PROPERTY_TIMEOUT_CANCEL ''cancel_request_issued''"
  "well_posed (demo_timely ds) PROPERTY_TIMELY_ACK ''observation_interval_elapsed''"
  "decode_events (demo_timeout ds) = Inr ds" "decode_events (demo_timely ds) = Inr ds"
  "pi_goal_response_deadline_ns (demo_timeout ds) = 10" "pi_goal_response_deadline_ns (demo_timely ds) = 10"
  "pending_for (demo_timely ds) c = None"
  by (simp_all add: well_posed_def demo_timeout_def demo_timely_def demo_input_def decode_events_def decode_demo_events
      pending_for_def)

definition demo_story :: "decoded list" where
  "demo_story = [demo_command_event, demo_send_clock, demo_send_event, demo_expiry, demo_cancel]"

lemma demo_story_order: "in_order demo_story" "in_order (take 2 demo_story)"
  by (simp_all add: demo_story_def demo_event_defs)

lemma demo_story_seen:
  "deadline_seen demo_story demo_submission e \<longleftrightarrow> e = demo_expiry"
  "cancelled demo_story demo_submission k \<longleftrightarrow> k = demo_cancel"
  by (auto simp: demo_story_def demo_event_defs demo_submission_def deadline_seen_def cancelled_def
      clock_of_def clock_codec.dec_enc acknowledges_def cancel_for_def cancel_send_codec.dec_enc
      FLAG_ATTEMPTED_def)

lemma demo_story_judged:
  "pi_goal_response_deadline_ns inp = 10 \<Longrightarrow> judged_goal inp demo_story demo_submission"
  using demo_submission_of [of inp]
  unfolding submission_of_judged [OF demo_story_order(1), symmetric] by (simp add: demo_story_def)

text \<open>A cancel in the interval fails the property, and so does a command that no goal follows.\<close>

lemma demo_never_submitted: "never_submitted (demo_timely (take 2 demo_story)) (take 2 demo_story)"
proof -
  have "commanded (take 2 demo_story) 5 demo_command_event"
    by (simp add: commanded_def first_event_def demo_story_def demo_event_defs is_command_def)
  moreover have "\<forall>x\<in>set (take 2 demo_story). \<not> is_send_of demo_command_event 5 x"
    by (simp add: demo_story_def demo_event_defs is_send_of_def)
  ultimately show ?thesis unfolding never_submitted_def using demo_well_posed(7) by blast
qed

section \<open>Properties\<close>

text \<open>
  C2. The verdict \<open>evaluate\<close> gives on a well-posed input for the timeout property, with events in order.
  It passes exactly when the commanded goal was submitted, a cancel request for it was seen and every
  cancel follows an observation that the deadline had passed.  It fails exactly when the command's
  callback, waiting for nothing, never submitted a goal (\<open>goal_submitted\<close>), or when a submitted goal was
  cancelled without such an observation before it, or its deadline was seen to pass, no cancel followed
  and the evidence is complete.  It is inconclusive exactly when no command was consumed, or its callback
  was still waiting to submit, or a submitted goal saw no cancel and either no passing of the deadline or
  evidence that stopped early.  The deadline is seen to pass by a clock value the goal's callback consumed
  after the send and before any response that names the goal, whether it accepts or refuses it.  An input
  whose command or submitted goal cannot be read (no recorded ordinal, an undecodable body, no clock before
  the send, an overflowing deadline) is an error and has no verdict; none is ever \<open>invalid\<close>.
\<close>

theorem timeout_cancel_meaning:
  assumes "well_posed inp PROPERTY_TIMEOUT_CANCEL ''cancel_request_issued''"
    and "decode_events inp = Inr events" and "in_order events"
  shows "(verdict_of inp VPass \<longleftrightarrow>
      (\<exists>s. judged_goal inp events s \<and> (\<exists>k. cancelled events s k) \<and>
        (\<forall>k. cancelled events s k \<longrightarrow> (\<exists>e. deadline_seen events s e \<and> dc_ordinal e < dc_ordinal k)))) \<and>
    (verdict_of inp VFail \<longleftrightarrow>
      never_submitted inp events \<or>
      (\<exists>s. judged_goal inp events s \<and>
        ((\<exists>k. cancelled events s k \<and> (\<nexists>e. deadline_seen events s e \<and> dc_ordinal e < dc_ordinal k)) \<or>
         (\<exists>e. deadline_seen events s e) \<and> (\<nexists>k. cancelled events s k) \<and> evidence_stopped inp = None))) \<and>
    (verdict_of inp VInconclusive \<longleftrightarrow>
      not_yet_submitted inp events \<or>
      (\<exists>s. judged_goal inp events s \<and> (\<nexists>k. cancelled events s k) \<and>
        ((\<nexists>e. deadline_seen events s e) \<or> evidence_stopped inp \<noteq> None))) \<and>
    \<not> verdict_of inp VInvalid"
proof -
  note V = verdict_cases [OF assms(3) evaluate_well_posed(1) [OF assms(2,1), unfolded timeout_cancel_def]]
  note R = timeout_cancel_verdicts [OF assms(3), of inp]
  show ?thesis unfolding V by (simp only: R verdict.distinct) blast
qed

theorem timeout_cancel_meaning_witness:
  "verdict_of (demo_timeout demo_story) VPass"
proof -
  have "dc_ordinal demo_expiry < dc_ordinal demo_cancel"
    by (simp add: demo_expiry_def demo_cancel_def)
  then have "(\<exists>k. cancelled demo_story demo_submission k) \<and>
      (\<forall>k. cancelled demo_story demo_submission k \<longrightarrow>
        (\<exists>e. deadline_seen demo_story demo_submission e \<and> dc_ordinal e < dc_ordinal k))"
    unfolding demo_story_seen by simp
  with demo_story_judged [OF demo_well_posed(5) [of demo_story]] show ?thesis
    unfolding timeout_cancel_meaning [OF demo_well_posed(1,3) demo_story_order(1), THEN conjunct1] by blast
qed

text \<open>
  C10. The verdict \<open>evaluate\<close> gives on a well-posed input for the timely-acknowledgment property, with events
  in order.  It fails exactly when the command's callback, waiting for nothing, never submitted a goal
  (\<open>goal_submitted\<close>), or any cancel request for the submitted goal was seen.  It passes exactly when a
  goal was submitted, none was cancelled, the goal's first response accepted it, the deadline was not seen
  to pass before that, and the evidence reaches the end of the recording.  It is inconclusive exactly when
  no command was consumed, or its callback was still waiting to submit, or a submitted goal saw no cancel
  but one of the other conditions of a pass fails.  Errors of reading the command or the goal have no
  verdict; none is ever \<open>invalid\<close>.
\<close>

theorem timely_ack_meaning:
  assumes "well_posed inp PROPERTY_TIMELY_ACK ''observation_interval_elapsed''"
    and "decode_events inp = Inr events" and "in_order events"
  shows "(verdict_of inp VFail \<longleftrightarrow>
      never_submitted inp events \<or> (\<exists>s k. judged_goal inp events s \<and> cancelled events s k)) \<and>
    (verdict_of inp VPass \<longleftrightarrow>
      (\<exists>s. judged_goal inp events s \<and> (\<nexists>k. cancelled events s k) \<and> (\<exists>a. acceptance events s a) \<and>
        (\<nexists>e. deadline_seen events s e) \<and> evidence_stopped inp = None)) \<and>
    (verdict_of inp VInconclusive \<longleftrightarrow>
      not_yet_submitted inp events \<or>
      (\<exists>s. judged_goal inp events s \<and> (\<nexists>k. cancelled events s k) \<and>
        ((\<nexists>a. acceptance events s a) \<or> (\<exists>e. deadline_seen events s e) \<or> evidence_stopped inp \<noteq> None))) \<and>
    \<not> verdict_of inp VInvalid"
proof -
  note V = verdict_cases [OF assms(3) evaluate_well_posed(2) [OF assms(2,1), unfolded timely_ack_def]]
  note R = timely_ack_verdicts [OF assms(3), of inp]
  show ?thesis unfolding V by (simp only: R verdict.distinct) blast
qed

theorem timely_ack_meaning_witness:
  "verdict_of (demo_timely demo_story) VFail \<and> verdict_of (demo_timely (take 2 demo_story)) VFail"
proof
  have "cancelled demo_story demo_submission demo_cancel" unfolding demo_story_seen ..
  with demo_story_judged [OF demo_well_posed(6) [of demo_story]] show "verdict_of (demo_timely demo_story) VFail"
    unfolding timely_ack_meaning [OF demo_well_posed(2,4) demo_story_order(1), THEN conjunct1] by blast
  show "verdict_of (demo_timely (take 2 demo_story)) VFail"
    unfolding timely_ack_meaning [OF demo_well_posed(2,4) demo_story_order(2), THEN conjunct1]
    using demo_never_submitted by blast
qed

text \<open>
  C34. An input that is evaluated is one of the two known properties in the scope that program
  evaluates, under the input schema.  The result is never \<open>invalid\<close>, so the exit code is 0, 1 or 3,
  and it names a deciding predicate exactly when it is not a pass.
\<close>

theorem evaluate_result:
  assumes "evaluate inp = Inr r"
  shows "pi_schema inp = INPUT_SCHEMA \<and> sc_observation_end (pi_scope inp) = ''end_of_recording'' \<and>
    (pi_property inp, sc_completion (pi_scope inp)) \<in>
      {(PROPERTY_TIMEOUT_CANCEL, ''cancel_request_issued''),
       (PROPERTY_TIMELY_ACK, ''observation_interval_elapsed'')} \<and>
    pr_schema r = RESULT_SCHEMA \<and> pr_property r = pi_property inp \<and> exit_code r \<in> {0, 1, 3} \<and>
    (exit_code r = 0 \<longleftrightarrow> pr_predicate r = None)"
proof -
  have shape: "pi_schema inp = INPUT_SCHEMA \<and> sc_observation_end (pi_scope inp) = ''end_of_recording'' \<and>
      (pi_property inp, sc_completion (pi_scope inp)) \<in>
        {(PROPERTY_TIMEOUT_CANCEL, ''cancel_request_issued''),
         (PROPERTY_TIMELY_ACK, ''observation_interval_elapsed'')} \<and>
      (\<exists>events. timeout_cancel inp events = Inr r \<or> timely_ack inp events = Inr r)"
    using assms by (auto simp: evaluate_def split: if_splits sum.splits option.splits)
  then obtain events where "timeout_cancel inp events = Inr r \<or> timely_ack inp events = Inr r" by blast
  then have "well_formed_result inp r"
    using well_formed_submission [of inp events r] well_formed_timeout [of inp events]
      well_formed_timely [of inp events]
    by (auto simp: timeout_cancel_def timely_ack_def split: sum.splits)
  then have "pr_schema r = RESULT_SCHEMA \<and> pr_property r = pi_property inp \<and> exit_code r \<in> {0, 1, 3} \<and>
      (exit_code r = 0 \<longleftrightarrow> pr_predicate r = None)"
    by (cases "pr_result r") (auto simp: well_formed_result_def exit_code_def)
  with shape show ?thesis by blast
qed

theorem evaluate_result_witness:
  "\<exists>r. evaluate demo_input = Inr r \<and> exit_code r = 3 \<and> exit_code r \<in> {0, 1, 3}"
proof -
  obtain r where r: "evaluate demo_input = Inr r" "exit_code r = 3"
    by (simp add: evaluate_def demo_input_def decode_events_def PROPERTY_TIMELY_ACK_def
        PROPERTY_TIMEOUT_CANCEL_def timely_ack_def submission_of_def verdict_result_def exit_code_def)
  from evaluate_result [OF r(1)] r show ?thesis by blast
qed

text \<open>
  C32. The property input built from a replay can always be evaluated as far as its events go: every
  event decodes to the frame it came from, recorded inputs with the adapter's answer and effects with
  their callback, and the events are in order, which is what the meanings of the verdicts assume.
\<close>

theorem replay_events_decode:
  assumes "replay_recording h react s recording corpus scenario = Inr r"
    and "valid_stream recording" and "component_emits recording" and "length (r_frames r) < 2 ^ 64"
  shows "decode_events (property_input_of property sc scp deadline r ids) =
      Inr (map (decoded_frame (collect_map (map (\<lambda>(callback, ordinal). (ordinal, callback)) (r_effects r)))
        (steps_by_replayed (r_steps r))) (r_frames r)) \<and>
    in_order (map (decoded_frame (collect_map (map (\<lambda>(callback, ordinal). (ordinal, callback)) (r_effects r)))
        (steps_by_replayed (r_steps r))) (r_frames r))"
proof -
  from replay_recording_Inr [OF assms] obtain fs seqs q and sess :: session where
    r: "r_frames r = fs @ [end_frame (s_uuid sess) (word_of_nat (length fs)) q]" and "frames_inv seqs fs"
    by blast
  then have "renumbered (r_frames r)" by (simp add: frames_inv_def end_frame_def)
  from in_order_renumbered [OF this assms(4)] show ?thesis
    by (auto simp: decode_events_def property_input_of_def Let_def decode_event_list_of_frames
        split: prod.splits)
qed

theorem replay_events_decode_witness:
  "\<exists>r es. replay_recording demo_hash (quiet_adapter demo_hash) () demo_frames [] [] = Inr r \<and>
     decode_events (property_input_of PROPERTY_TIMELY_ACK [] (pi_scope demo_input) 10 r []) = Inr es \<and>
     in_order es"
proof -
  from quiet_replay obtain r where r: "replay_recording demo_hash (quiet_adapter demo_hash) () demo_frames [] [] = Inr r"
    and len: "length (r_frames r) = 2" by blast
  have emits: "component_emits demo_frames"
    by (simp add: component_emits_def demo_frames_def is_emit_def frame_kind_def COMPONENT_ACTOR_ID_def)
  have "length (r_frames r) < 2 ^ 64" by (simp add: len)
  from replay_events_decode [OF r valid_demo emits this] r show ?thesis by blast
qed

end
