(* ===== verification/Fixture_Recorder.thy ===== *)
theory Fixture_Recorder
  imports Property_Check
begin

text \<open>
  crates/rook-adapter-ref/src/fixture.rs: the scripted environment that records the reference
  scenarios against a component variant, and the framing of the captured effects.  \<open>None\<close> from
  \<open>component.step\<close> is its panic.  Sequence numbers and ordinals are 64-bit words that wrap.
\<close>

unbundle bit_operations_syntax

datatype action =
    ActCommand bytes
  | ActClock i64
  | ActGoalResponse bool i64
  | ActResult u8
  | ActCancelResponse u8
  | ActGap

record scenario =
  sn_name :: string
  sn_property :: string
  sn_completion :: string
  sn_grade :: string
  sn_grade_reason :: string
  sn_actions :: "action list"

definition scenarios :: "scenario list" where
  "scenarios =
     [\<lparr>sn_name = ''timeout'', sn_property = PROPERTY_TIMEOUT_CANCEL,
       sn_completion = ''cancel_request_issued'', sn_grade = ''Complete'',
       sn_grade_reason =
         ''scripted environment; every input the component consumed was recorded'',
       sn_actions = [ActCommand (ascii ''goal 1''), ActClock 0, ActClock 500000000,
         ActClock 1200000000]\<rparr>,
      \<lparr>sn_name = ''timely'', sn_property = PROPERTY_TIMELY_ACK,
       sn_completion = ''observation_interval_elapsed'', sn_grade = ''Complete'',
       sn_grade_reason =
         ''scripted environment; every input the component consumed was recorded'',
       sn_actions = [ActCommand (ascii ''goal 1''), ActClock 0, ActClock 200000000,
         ActGoalResponse True 200000000, ActResult RESULT_SUCCEEDED]\<rparr>,
      \<lparr>sn_name = ''command-gap'', sn_property = PROPERTY_TIMEOUT_CANCEL,
       sn_completion = ''cancel_request_issued'', sn_grade = ''Inferred'',
       sn_grade_reason =
         ''the recorder lost events right after the goal command; the component's first clock read was never recorded'',
       sn_actions = [ActCommand (ascii ''goal 1''), ActGap]\<rparr>,
      \<lparr>sn_name = ''command-end'', sn_property = PROPERTY_TIMEOUT_CANCEL,
       sn_completion = ''cancel_request_issued'', sn_grade = ''Complete'',
       sn_grade_reason =
         ''scripted environment closed right after the goal command; the component's first clock read was never served'',
       sn_actions = [ActCommand (ascii ''goal 1'')]\<rparr>,
      \<lparr>sn_name = ''timeout-gap'', sn_property = PROPERTY_TIMEOUT_CANCEL,
       sn_completion = ''cancel_request_issued'', sn_grade = ''Inferred'',
       sn_grade_reason =
         ''the recorder admits lost events at the gap frame; replay is valid only before it'',
       sn_actions = [ActCommand (ascii ''goal 1''), ActClock 0, ActClock 500000000, ActGap]\<rparr>]"

record recorder =
  rc_frames :: "frame list"
  rc_captured :: "bytes list"
  rc_sequences :: "u32 \<times> u32 \<Rightarrow> u64 option"

definition recorder_push ::
  "recorder \<Rightarrow> u32 \<Rightarrow> u32 \<Rightarrow> u32 \<Rightarrow> event_header \<Rightarrow> bytes \<Rightarrow> recorder" where
  "recorder_push rc src_actor dst_actor channel_id hdr body =
     (let ordinal = word_of_nat (length (rc_frames rc)) :: u64;
          seq = (case rc_sequences rc (src_actor, channel_id) of None \<Rightarrow> 0 | Some n \<Rightarrow> n)
      in rc\<lparr>rc_frames := rc_frames rc @
              [\<lparr>f_ordinal = ordinal, f_src_actor = src_actor, f_dst_actor = dst_actor,
                f_channel_id = channel_id, f_src_seq = seq, f_observed_ns = ordinal * 1000000,
                f_header = hdr, f_body = body\<rparr>],
            rc_sequences := (rc_sequences rc)((src_actor, channel_id) \<mapsto> seq + 1)\<rparr>)"

definition plain_header :: "event_type \<Rightarrow> u32 \<Rightarrow> event_header" where
  "plain_header event_type flags = \<lparr>h_event_type = event_type, h_schema = 1, h_flags = flags\<rparr>"

definition session_uuid :: "hash_fn \<Rightarrow> string \<Rightarrow> id16" where
  "session_uuid h name = from_le (take 16 (to_le (h (ascii ''rook-adapter-ref session '' @ ascii name))))"

datatype record_error =
    NobodyAskedForClock
  | OnlyRosClock
  | NoGoalToAnswer
  | NoGoalToFinish
  | NoCancelToAnswer
  | CancelBodyError body_error
  | GapDetailTooLong
  | InputNotConsumed u64 consumed
  | EffectSequenceDisagrees
  | EffectBodyError body_error
  | ComponentPanicked

text \<open>The variables of the recording loop.\<close>

record fixture =
  fx_recorder :: recorder
  fx_component :: component
  fx_last_goal :: "(u64 \<times> u64 \<times> id16) option" \<comment> \<open>recorded ordinal, sequence, goal id\<close>
  fx_last_cancel :: "(u64 \<times> u64 \<times> id16) option"

text \<open>The input a scripted action stands for: source, channel, event type and body.\<close>

fun script_input :: "fixture \<Rightarrow> action \<Rightarrow> record_error + (u32 \<times> u32 \<times> event_type \<times> bytes)" where
  "script_input fx (ActCommand goal) = Inr (ACTOR_COMMAND, CH_GOAL_COMMAND, EvMessage, message goal)"
| "script_input fx (ActClock value_ns) =
     (case find_map clock_read (waits (fx_component fx)) of
        None \<Rightarrow> Inl NobodyAskedForClock
      | Some (callback, clock_id) \<Rightarrow>
          if clock_id \<noteq> CLOCK_ROS then Inl OnlyRosClock
          else Inr (ACTOR_CLOCK, CH_CLOCK, EvClock,
            encode_clock \<lparr>ck_clock_id = clock_id, ck_value_ns = value_ns,
              ck_callback_ordinal = callback\<rparr>))"
| "script_input fx (ActGoalResponse accepted stamp_ns) =
     (case fx_last_goal fx of
        None \<Rightarrow> Inl NoGoalToAnswer
      | Some (goal_send_ordinal, _, gid) \<Rightarrow>
          Inr (ACTOR_ACTION_SERVER, CH_ACTION_RESPONSE, EvGoalResponse,
            encode_goal_response \<lparr>gr_goal_send_ordinal = goal_send_ordinal, gr_goal_id = gid,
              gr_accepted = accepted, gr_stamp_ns = stamp_ns\<rparr>))"
| "script_input fx (ActResult stat) =
     (case fx_last_goal fx of
        None \<Rightarrow> Inl NoGoalToFinish
      | Some (goal_send_ordinal, _, gid) \<Rightarrow>
          Inr (ACTOR_ACTION_SERVER, CH_ACTION_RESPONSE, EvResult,
            encode_goal_result \<lparr>rs_goal_send_ordinal = goal_send_ordinal, rs_goal_id = gid,
              rs_status = stat, rs_result = ascii ''done''\<rparr>))"
| "script_input fx (ActCancelResponse return_code) =
     (case fx_last_cancel fx of
        None \<Rightarrow> Inl NoCancelToAnswer
      | Some (cancel_send_ordinal, _, gid) \<Rightarrow>
          (case encode_cancel_response \<lparr>cr_cancel_send_ordinal = cancel_send_ordinal,
              cr_return_code = return_code, cr_goals = [gid]\<rparr> of
             Inl e \<Rightarrow> Inl (CancelBodyError e)
           | Inr body \<Rightarrow> Inr (ACTOR_ACTION_SERVER, CH_ACTION_RESPONSE, EvCancelResponse, body)))"
| "script_input fx ActGap = Inl GapDetailTooLong" \<comment> \<open>not reached: a gap is no input\<close>

fun script_request :: "fixture \<Rightarrow> event_type \<Rightarrow> (u32 \<times> u64) option" where
  "script_request fx EvGoalResponse = map_option (\<lambda>(_, seq, _). (CH_ACTION_GOAL, seq)) (fx_last_goal fx)"
| "script_request fx EvResult = map_option (\<lambda>(_, seq, _). (CH_ACTION_GOAL, seq)) (fx_last_goal fx)"
| "script_request fx EvCancelResponse =
     map_option (\<lambda>(_, seq, _). (CH_ACTION_CANCEL, seq)) (fx_last_cancel fx)"
| "script_request fx _ = None"

text \<open>The loop over the effects of a step.\<close>

fun record_effects :: "fixture \<Rightarrow> effect list \<Rightarrow> record_error + fixture" where
  "record_effects fx [] = Inr fx"
| "record_effects fx (e # es) =
     (let flags = ef_flags e AND (FLAG_ATTEMPTED OR FLAG_CONFIRMED);
          effect_ordinal = word_of_nat (length (rc_frames (fx_recorder fx)));
          rc = recorder_push (fx_recorder fx) COMPONENT_ACTOR_ID (ef_dst_actor e) (ef_channel_id e)
                 (plain_header (ef_event_type e) flags) (ef_body e);
          f = last (rc_frames rc)
      in if f_src_seq f \<noteq> ef_src_seq e then Inl EffectSequenceDisagrees
         else
           let fx' = fx\<lparr>fx_recorder := rc\<lparr>rc_captured := rc_captured rc @ [payload f]\<rparr>\<rparr>
           in if ef_event_type e = EvGoalSend then
                (case decode_goal_send (ef_body e) of
                   Inl err \<Rightarrow> Inl (EffectBodyError err)
                 | Inr g \<Rightarrow> record_effects
                     (fx'\<lparr>fx_last_goal := Some (effect_ordinal, ef_src_seq e, gs_goal_id g)\<rparr>) es)
              else if ef_event_type e = EvCancelSend then
                (case decode_cancel_send (ef_body e) of
                   Inl err \<Rightarrow> Inl (EffectBodyError err)
                 | Inr c \<Rightarrow> record_effects
                     (fx'\<lparr>fx_last_cancel := Some (effect_ordinal, ef_src_seq e, cs_goal_id c)\<rparr>) es)
              else record_effects fx' es)"

definition GAP_REASON_OVERRUN :: u16 where "GAP_REASON_OVERRUN = 1"

definition script_gap :: gap where
  "script_gap = \<lparr>g_reason = GAP_REASON_OVERRUN, g_lost = Some 1, g_detail = ascii ''scripted recorder overrun''\<rparr>"

text \<open>One action that is an input: the body of the loop over the script.\<close>

definition record_input :: "hash_fn \<Rightarrow> action \<Rightarrow> fixture \<Rightarrow> record_error + fixture" where
  "record_input h a fx =
     (case script_input fx a of
        Inl e \<Rightarrow> Inl e
      | Inr (src_actor, channel_id, event_type, body) \<Rightarrow>
          let ordinal = word_of_nat (length (rc_frames (fx_recorder fx)));
              rc = recorder_push (fx_recorder fx) src_actor COMPONENT_ACTOR_ID channel_id
                     (plain_header event_type 0) body
          in case step h (fx_component fx)
                 \<lparr>in_ordinal = ordinal, in_src_actor = src_actor, in_dst_actor = COMPONENT_ACTOR_ID,
                  in_channel_id = channel_id, in_event_type = event_type, in_body = body,
                  in_request = script_request fx event_type\<rparr> of
               None \<Rightarrow> Inl ComponentPanicked
             | Some (c, out) \<Rightarrow>
                 (case oc_consumed out of
                    Some (No why) \<Rightarrow> Inl (InputNotConsumed ordinal (No why))
                  | Some (Refused why) \<Rightarrow> Inl (InputNotConsumed ordinal (Refused why))
                  | _ \<Rightarrow> record_effects (fx\<lparr>fx_recorder := rc, fx_component := c\<rparr>) (oc_effects out)))"

fun record_actions :: "hash_fn \<Rightarrow> action list \<Rightarrow> fixture \<Rightarrow> record_error + fixture" where
  "record_actions h [] fx = Inr fx"
| "record_actions h (ActGap # as) fx =
     (case encode_gap script_gap of
        None \<Rightarrow> Inl GapDetailTooLong
      | Some body \<Rightarrow>
          Inr (fx\<lparr>fx_recorder := recorder_push (fx_recorder fx) SESSION_ACTOR_ID SESSION_ACTOR_ID
            SESSION_CHANNEL_ID (plain_header EvGap (gap_flags script_gap)) body\<rparr>))"
| "record_actions h (a # as) fx =
     (case record_input h a fx of Inl e \<Rightarrow> Inl e | Inr fx' \<Rightarrow> record_actions h as fx')"

record recording =
  rg_frames :: "frame list"
  rg_captured :: "bytes list"

text \<open>The recorder once the session and the starting state are written.\<close>

definition recorder_start :: "hash_fn \<Rightarrow> string \<Rightarrow> recorder" where
  "recorder_start h name =
     recorder_push
       (recorder_push \<lparr>rc_frames = [], rc_captured = [], rc_sequences = Map.empty\<rparr>
          SESSION_ACTOR_ID SESSION_ACTOR_ID SESSION_CHANNEL_ID (plain_header EvSession 0)
          (encode_session \<lparr>s_uuid = session_uuid h name, s_record_utc_ns = 1757000000000000000,
             s_pid = 4242\<rparr>))
       SESSION_ACTOR_ID COMPONENT_ACTOR_ID SESSION_CHANNEL_ID (plain_header EvStartingState 0)
       (starting_state STATE_METHOD_FRESH (h []))"

definition record_scenario :: "hash_fn \<Rightarrow> variant \<Rightarrow> scenario \<Rightarrow> record_error + recording" where
  "record_scenario h v sc =
     (let uuid = session_uuid h (sn_name sc) in
      case record_actions h (sn_actions sc)
             \<lparr>fx_recorder = recorder_start h (sn_name sc), fx_component = new_component v,
              fx_last_goal = None, fx_last_cancel = None\<rparr> of
        Inl e \<Rightarrow> Inl e
      | Inr fx \<Rightarrow>
          let rc = recorder_push (fx_recorder fx) SESSION_ACTOR_ID SESSION_ACTOR_ID SESSION_CHANNEL_ID
                (plain_header EvEnd 0)
                (encode_end \<lparr>en_uuid = uuid,
                   en_frame_count = word_of_nat (length (rc_frames (fx_recorder fx)))\<rparr>)
          in Inr \<lparr>rg_frames = rc_frames rc, rg_captured = rc_captured rc\<rparr>)"

subsection \<open>Captured effects\<close>

definition encode_captured :: "bytes list \<Rightarrow> bytes" where
  "encode_captured captured = concat (map (\<lambda>p. to_le (word_of_nat (length p) :: u32) @ p) captured)"

datatype captured_error = TruncatedHeader | TruncatedEffect

function decode_captured_from :: "nat \<Rightarrow> bytes \<Rightarrow> captured_error + bytes list" where
  "decode_captured_from cursor bs =
     (if cursor < length bs then
        (case get_range cursor (cursor + 4) bs of
           None \<Rightarrow> Inl TruncatedHeader
         | Some hdr \<Rightarrow>
             let len = unat (from_le hdr :: u32) in
             (case get_range (cursor + 4) (cursor + 4 + len) bs of
                None \<Rightarrow> Inl TruncatedEffect
              | Some p \<Rightarrow>
                  (case decode_captured_from (cursor + 4 + len) bs of
                     Inl e \<Rightarrow> Inl e | Inr ps \<Rightarrow> Inr (p # ps))))
      else Inr [])"
  by pat_completeness auto
termination
  by (relation "measure (\<lambda>(cursor, bs). length bs - cursor)") auto

declare decode_captured_from.simps [simp del]

definition decode_captured :: "bytes \<Rightarrow> captured_error + bytes list" where
  "decode_captured bs = decode_captured_from 0 bs"

section \<open>The recorded stream is well formed\<close>

text \<open>What a component sends: one of three effect types, with a body that fits it.\<close>

definition sound_effect :: "effect \<Rightarrow> bool" where
  "sound_effect e \<longleftrightarrow>
     ef_event_type e \<in> {EvGoalSend, EvCancelSend, EvStatus} \<and> body_fits (ef_event_type e) (ef_body e) \<and>
     length (ef_body e) < 2 ^ 32 - 8 \<and> ef_flags e = FLAG_ATTEMPTED OR FLAG_CONFIRMED"

definition small_goal :: "component \<Rightarrow> bool" where
  "small_goal c \<longleftrightarrow> (\<forall>callback goal. c_state c = AwaitClockForSend callback goal \<longrightarrow> length goal < 2 ^ 32 - 24)"

lemma length_decimal: "length (decimal n) \<le> Suc n"
proof (induction n rule: decimal.induct)
  case (1 n)
  show ?case
  proof (cases "n < 10")
    case False
    then have "length (decimal n) \<le> Suc (Suc (n div 10))" using 1 by (simp add: decimal.simps [of n])
    also have "\<dots> \<le> Suc n" using False by simp
    finally show ?thesis .
  qed (simp add: decimal.simps [of n])
qed

lemma sound_status:
  assumes "issue_status c text = (c', e)" and "length text < 2 ^ 32 - 8"
  shows "sound_effect e"
  using issue_effect_fields [OF assms(1) [unfolded issue_status_def]] assms(2)
  by (simp add: sound_effect_def status_def)

lemma sound_send:
  assumes "send_of h c goal = (c', e)" and "length goal < 2 ^ 32 - 24"
  shows "sound_effect e"
  using issue_effect_fields [OF assms(1) [unfolded send_of_def]] assms(2)
  by (simp add: sound_effect_def encode_goal_send_def)

lemma sound_cancel:
  assumes "cancel_of c gid stamp = (c', e)"
  shows "sound_effect e"
  using issue_effect_fields [OF assms [unfolded cancel_of_def]]
  by (simp add: sound_effect_def encode_cancel_send_def)

lemma settles_text: "settles st inp callback progress text nxt \<Longrightarrow> length text < 2 ^ 32 - 8"
proof (induction rule: settles.induct)
  case (finished inp seq s gid callback)
  have "length (decimal (unat (rs_status s))) \<le> 256"
    using length_decimal [of "unat (rs_status s)"] unsigned_less [of "rs_status s", where ?'a = nat] by simp
  then show ?case by simp
qed simp_all

lemma settles_next: "settles st inp callback progress text nxt \<Longrightarrow> nxt \<noteq> AwaitClockForSend k g"
  by (auto elim: settles.cases)

lemma step_sound:
  assumes "client_step h c inp out c'" and "small_goal c" and "length (in_body inp) < 2 ^ 32 - 22"
  shows "small_goal c'" and "\<forall>e\<in>set (oc_effects out). sound_effect e"
  using assms
proof (induction rule: client_step.induct)
  case (start c inp goal)
  {
    case 1
    have "length goal < 2 ^ 32 - 24"
      using start.hyps(3) 1(2) by (auto simp: decode_message_def Let_def split: if_splits)
    then show ?case by (simp add: small_goal_def)
  next
    case 2
    then show ?case by simp
  }
qed (auto simp: small_goal_def settles_next issue_fields dest: sound_status sound_send sound_cancel settles_text)

subsection \<open>The recorder\<close>

definition recorder_ok :: "session \<Rightarrow> recorder \<Rightarrow> bool" where
  "recorder_ok sess rc \<longleftrightarrow>
     ok_prefix (rc_frames rc) \<and> session_of (rc_frames rc) = Some sess \<and> component_emits (rc_frames rc) \<and>
     (\<forall>k. (case rc_sequences rc k of None \<Rightarrow> 0 | Some n \<Rightarrow> n) = word_of_nat (seq_count (rc_frames rc) k)) \<and>
     rc_captured rc = map payload (filter is_emit (rc_frames rc)) \<and>
     (\<forall>f\<in>set (rc_frames rc). f_event_type f \<noteq> EvEnd)"

definition next_frame :: "recorder \<Rightarrow> u32 \<Rightarrow> u32 \<Rightarrow> u32 \<Rightarrow> event_header \<Rightarrow> bytes \<Rightarrow> frame" where
  "next_frame rc src_actor dst_actor channel_id hdr body =
     \<lparr>f_ordinal = word_of_nat (length (rc_frames rc)), f_src_actor = src_actor, f_dst_actor = dst_actor,
      f_channel_id = channel_id,
      f_src_seq = (case rc_sequences rc (src_actor, channel_id) of None \<Rightarrow> 0 | Some n \<Rightarrow> n),
      f_observed_ns = word_of_nat (length (rc_frames rc)) * 1000000, f_header = hdr, f_body = body\<rparr>"

lemma recorder_push_frames [simp]:
  "rc_frames (recorder_push rc src dst ch hdr body) = rc_frames rc @ [next_frame rc src dst ch hdr body]"
  "rc_captured (recorder_push rc src dst ch hdr body) = rc_captured rc"
  by (simp_all add: recorder_push_def next_frame_def Let_def)

lemma next_frame_fields [simp]:
  "f_event_type (next_frame rc src dst ch hdr body) = h_event_type hdr"
  "f_body (next_frame rc src dst ch hdr body) = body"
  "f_header (next_frame rc src dst ch hdr body) = hdr"
  "f_src_actor (next_frame rc src dst ch hdr body) = src"
  "f_dst_actor (next_frame rc src dst ch hdr body) = dst"
  "f_channel_id (next_frame rc src dst ch hdr body) = ch"
  "f_ordinal (next_frame rc src dst ch hdr body) = word_of_nat (length (rc_frames rc))"
  by (simp_all add: next_frame_def)

lemma push_sequences:
  assumes "\<forall>k. (case rc_sequences rc k of None \<Rightarrow> 0 | Some n \<Rightarrow> n) = (word_of_nat (seq_count (rc_frames rc) k) :: u64)"
  shows "\<forall>k. (case rc_sequences (recorder_push rc src dst ch hdr body) k of None \<Rightarrow> 0 | Some n \<Rightarrow> n) =
    (word_of_nat (seq_count (rc_frames (recorder_push rc src dst ch hdr body)) k) :: u64)"
  using assms by (auto simp: recorder_push_def next_frame_def Let_def sequence_key_def)

text \<open>A frame the loop pushes: an input (not an emit, not from the component) or an effect.\<close>

definition pushable :: "u32 \<Rightarrow> event_header \<Rightarrow> bytes \<Rightarrow> bool" where
  "pushable src hdr body \<longleftrightarrow>
     wf_header hdr \<and> body_fits (h_event_type hdr) body \<and> length body < 2 ^ 32 - 8 \<and>
     expected_tuple (h_event_type hdr) = None \<and>
     (event_kind (h_event_type hdr) = KEmit \<longleftrightarrow> src = COMPONENT_ACTOR_ID)"

lemma expected_tuple_None: "expected_tuple e = None \<longleftrightarrow> e \<notin> {EvSession, EvEnd, EvGap, EvStartingState}"
  by (cases e) simp_all

lemma next_frame_ok:
  assumes "recorder_ok sess rc" and "wf_header hdr" and "body_fits (h_event_type hdr) body"
    and "length body < 2 ^ 32 - 8"
    and "expected_tuple (h_event_type hdr) = None \<or> expected_tuple (h_event_type hdr) = Some (src, dst, ch)"
    and "marker_ok (rc_frames rc) (next_frame rc src dst ch hdr body)"
  shows "frame_ok (rc_frames rc) (next_frame rc src dst ch hdr body)"
proof -
  have "f_src_seq (next_frame rc src dst ch hdr body) = word_of_nat (seq_count (rc_frames rc) (src, ch))"
    using assms(1) by (simp add: recorder_ok_def next_frame_def)
  moreover have "rc_frames rc \<noteq> [] \<longrightarrow> f_event_type (last (rc_frames rc)) \<noteq> EvEnd"
    using assms(1) by (simp add: recorder_ok_def)
  ultimately show ?thesis
    using assms(2-6)
    by (auto simp: frame_ok_def wf_frame_def payload_def encode_header_def sequence_key_def frame_tuple_def)
qed

lemma recorder_append:
  assumes rc: "recorder_ok sess rc" and ok: "frame_ok (rc_frames rc) (next_frame rc src dst ch hdr body)"
    and emit: "event_kind (h_event_type hdr) = KEmit \<longleftrightarrow> src = COMPONENT_ACTOR_ID" and "h_event_type hdr \<noteq> EvEnd"
    and caught: "rc' = recorder_push rc src dst ch hdr body
      \<lparr>rc_captured := (if src = COMPONENT_ACTOR_ID
         then rc_captured rc @ [payload (next_frame rc src dst ch hdr body)] else rc_captured rc)\<rparr>"
  shows "recorder_ok sess rc'"
proof -
  let ?f = "next_frame rc src dst ch hdr body"
  have "is_emit ?f \<longleftrightarrow> src = COMPONENT_ACTOR_ID" using emit by (simp add: is_emit_def frame_kind_def)
  moreover have "session_of (rc_frames rc @ [?f]) = Some sess"
    using rc by (cases "rc_frames rc") (simp_all add: recorder_ok_def session_of_def)
  moreover have "rc_sequences rc' = rc_sequences (recorder_push rc src dst ch hdr body)"
    and "rc_frames rc' = rc_frames (recorder_push rc src dst ch hdr body)" by (simp_all add: caught)
  moreover note push_sequences [of rc src dst ch hdr body]
  ultimately show ?thesis
    using rc ok assms(4) unfolding recorder_ok_def by (simp add: component_emits_def caught)
qed

lemma recorder_push_ok:
  assumes rc: "recorder_ok sess rc" and push: "pushable src hdr body"
    and caught: "rc' = recorder_push rc src dst ch hdr body
      \<lparr>rc_captured := (if src = COMPONENT_ACTOR_ID
         then rc_captured rc @ [payload (next_frame rc src dst ch hdr body)] else rc_captured rc)\<rparr>"
  shows "recorder_ok sess rc'"
proof (rule recorder_append [OF rc _ _ _ caught])
  have "marker_ok (rc_frames rc) (next_frame rc src dst ch hdr body)"
    using rc push by (cases "h_event_type hdr") (simp_all add: marker_ok_def recorder_ok_def pushable_def)
  then show "frame_ok (rc_frames rc) (next_frame rc src dst ch hdr body)"
    using push by (intro next_frame_ok [OF rc]) (simp_all add: pushable_def)
qed (use push in \<open>auto simp: pushable_def\<close>)

lemma recorder_uncaught:
  "src \<noteq> COMPONENT_ACTOR_ID \<Longrightarrow> recorder_push rc src dst ch hdr body = recorder_push rc src dst ch hdr body
      \<lparr>rc_captured := (if src = COMPONENT_ACTOR_ID
         then rc_captured rc @ [payload (next_frame rc src dst ch hdr body)] else rc_captured rc)\<rparr>"
  by (cases rc) (simp add: recorder_push_def Let_def)

lemma effect_pushable:
  assumes "sound_effect e"
  shows "pushable COMPONENT_ACTOR_ID
    (plain_header (ef_event_type e) (ef_flags e AND (FLAG_ATTEMPTED OR FLAG_CONFIRMED))) (ef_body e)"
  using assms
  by (auto simp: sound_effect_def pushable_def plain_header_def wf_header_def EVENT_SCHEMA_def
      FLAGS_DEFINED_def FLAG_ATTEMPTED_def FLAG_CONFIRMED_def FLAG_COUNT_UNKNOWN_def)

lemma recorder_push_input:
  "recorder_ok sess rc \<Longrightarrow> pushable src hdr body \<Longrightarrow> src \<noteq> COMPONENT_ACTOR_ID \<Longrightarrow>
     recorder_ok sess (recorder_push rc src dst ch hdr body)"
  by (rule recorder_push_ok [OF _ _ recorder_uncaught])

lemma recorder_push_effect:
  assumes "recorder_ok sess rc" and "sound_effect e"
    and "rc1 = recorder_push rc COMPONENT_ACTOR_ID (ef_dst_actor e) (ef_channel_id e)
      (plain_header (ef_event_type e) (ef_flags e AND (FLAG_ATTEMPTED OR FLAG_CONFIRMED))) (ef_body e)"
  shows "recorder_ok sess (rc1\<lparr>rc_captured := rc_captured rc @ [payload (last (rc_frames rc1))]\<rparr>)"
  unfolding assms(3) by (rule recorder_push_ok [OF assms(1) effect_pushable [OF assms(2)]]) simp

definition small_command :: "action \<Rightarrow> bool" where
  "small_command a \<longleftrightarrow> (\<forall>goal. a = ActCommand goal \<longrightarrow> length goal < 2 ^ 32 - 24)"

lemma script_input_pushable:
  assumes "script_input fx a = Inr (src, ch, ty, body)" and "small_command a"
  shows "pushable src (plain_header ty 0) body \<and> length body < 2 ^ 32 - 22 \<and> src \<noteq> COMPONENT_ACTOR_ID"
proof (cases a)
  case (ActCommand goal)
  then show ?thesis
    using assms by (auto simp: small_command_def pushable_def plain_header_def wf_header_def EVENT_SCHEMA_def
        message_def u16_at_def subslice_def one_to_three_def SERIALIZATION_RAW_def ACTOR_COMMAND_def
        COMPONENT_ACTOR_ID_def)
next
  case (ActClock v)
  then show ?thesis
    using assms by (auto simp: pushable_def plain_header_def wf_header_def EVENT_SCHEMA_def CLOCK_ROS_def
        encode_clock_def u16_at_def subslice_def one_to_three_def ACTOR_CLOCK_def COMPONENT_ACTOR_ID_def
        split: option.splits if_splits)
next
  case (ActGoalResponse accepted stamp)
  then show ?thesis
    using assms by (auto simp: pushable_def plain_header_def wf_header_def EVENT_SCHEMA_def
        encode_goal_response_def ACTOR_ACTION_SERVER_def COMPONENT_ACTOR_ID_def split: option.splits)
next
  case (ActResult stat)
  then show ?thesis
    using assms by (auto simp: pushable_def plain_header_def wf_header_def EVENT_SCHEMA_def
        encode_goal_result_def ACTOR_ACTION_SERVER_def COMPONENT_ACTOR_ID_def split: option.splits)
next
  case (ActCancelResponse code)
  then show ?thesis
    using assms by (auto simp: pushable_def plain_header_def wf_header_def EVENT_SCHEMA_def
        encode_cancel_response_def u16_at_def subslice_def ACTOR_ACTION_SERVER_def COMPONENT_ACTOR_ID_def
        split: option.splits)
qed (use assms in simp)

text \<open>The invariant of the recording loop.\<close>

definition fixture_ok :: "session \<Rightarrow> fixture \<Rightarrow> bool" where
  "fixture_ok sess fx \<longleftrightarrow> recorder_ok sess (fx_recorder fx) \<and> small_goal (fx_component fx)"

lemma record_effects_ok:
  assumes "record_effects fx es = Inr fx'" and "fixture_ok sess fx" and "\<forall>e\<in>set es. sound_effect e"
  shows "fixture_ok sess fx' \<and> fx_component fx' = fx_component fx"
  using assms
proof (induction es arbitrary: fx)
  case (Cons e es)
  let ?hdr = "plain_header (ef_event_type e) (ef_flags e AND (FLAG_ATTEMPTED OR FLAG_CONFIRMED))"
  let ?rc = "recorder_push (fx_recorder fx) COMPONENT_ACTOR_ID (ef_dst_actor e) (ef_channel_id e) ?hdr (ef_body e)"
  let ?rc' = "?rc\<lparr>rc_captured := rc_captured (fx_recorder fx) @ [payload (last (rc_frames ?rc))]\<rparr>"
  have "sound_effect e" "recorder_ok sess (fx_recorder fx)"
    using Cons.prems(2,3) by (simp_all add: fixture_ok_def)
  then have ok: "recorder_ok sess ?rc'" using recorder_push_effect [OF _ _ refl] by blast
  have rest: "fixture_ok sess fx' \<and> fx_component fx' = fx_component fx"
    if "record_effects fx1 es = Inr fx'" "fx_recorder fx1 = ?rc'" "fx_component fx1 = fx_component fx" for fx1
    using Cons.IH [OF that(1)] Cons.prems(2,3) ok that(2,3) by (simp add: fixture_ok_def)
  let ?fx = "fx\<lparr>fx_recorder := ?rc'\<rparr>"
  consider (goal) "ef_event_type e = EvGoalSend" | (cancel) "ef_event_type e = EvCancelSend"
    | (other) "ef_event_type e \<noteq> EvGoalSend" "ef_event_type e \<noteq> EvCancelSend" by blast
  then show ?case
  proof cases
    case goal
    then obtain g where "record_effects (?fx\<lparr>fx_last_goal := Some g\<rparr>) es = Inr fx'"
      using Cons.prems(1) by (auto simp: Let_def split: if_splits sum.splits)
    from rest [OF this] show ?thesis by simp
  next
    case cancel
    then obtain k where "record_effects (?fx\<lparr>fx_last_cancel := Some k\<rparr>) es = Inr fx'"
      using Cons.prems(1) by (auto simp: Let_def split: if_splits sum.splits)
    from rest [OF this] show ?thesis by simp
  next
    case other
    then have "record_effects ?fx es = Inr fx'"
      using Cons.prems(1) by (auto simp: Let_def split: if_splits)
    from rest [OF this] show ?thesis by simp
  qed
qed simp

lemma record_input_ok:
  assumes "record_input h a fx = Inr fx'" and "fixture_ok sess fx" and "small_command a"
  shows "fixture_ok sess fx'"
proof -
  from assms(1) obtain src ch ty body where inp: "script_input fx a = Inr (src, ch, ty, body)"
    by (auto simp: record_input_def split: sum.splits)
  let ?rc = "recorder_push (fx_recorder fx) src COMPONENT_ACTOR_ID ch (plain_header ty 0) body"
  let ?in = "\<lparr>in_ordinal = word_of_nat (length (rc_frames (fx_recorder fx))), in_src_actor = src,
    in_dst_actor = COMPONENT_ACTOR_ID, in_channel_id = ch, in_event_type = ty, in_body = body,
    in_request = script_request fx ty\<rparr>"
  obtain c out where run: "step h (fx_component fx) ?in = Some (c, out)"
    using step_client_step by blast
  have "record_input h a fx = (case oc_consumed out of
      Some (No why) \<Rightarrow> Inl (InputNotConsumed (word_of_nat (length (rc_frames (fx_recorder fx)))) (No why))
    | Some (Refused why) \<Rightarrow> Inl (InputNotConsumed (word_of_nat (length (rc_frames (fx_recorder fx)))) (Refused why))
    | _ \<Rightarrow> record_effects (fx\<lparr>fx_recorder := ?rc, fx_component := c\<rparr>) (oc_effects out))"
    unfolding record_input_def inp Let_def sum.case prod.case run option.case by (rule refl)
  with assms(1) have effs: "record_effects (fx\<lparr>fx_recorder := ?rc, fx_component := c\<rparr>) (oc_effects out) = Inr fx'"
    by (auto split: option.splits consumed.splits)
  note push = script_input_pushable [OF inp assms(3)]
  have "recorder_ok sess ?rc"
    using push assms(2) by (simp add: fixture_ok_def recorder_push_input)
  moreover have "small_goal c" "\<forall>e\<in>set (oc_effects out). sound_effect e"
    using step_sound [OF stepE [OF run]] push assms(2) by (simp_all add: fixture_ok_def)
  ultimately show ?thesis using record_effects_ok [OF effs] by (simp add: fixture_ok_def)
qed

lemma gap_frame_ok:
  assumes "recorder_ok sess rc" and "encode_gap script_gap = Some body"
  shows "recorder_ok sess (recorder_push rc SESSION_ACTOR_ID SESSION_ACTOR_ID SESSION_CHANNEL_ID
      (plain_header EvGap (gap_flags script_gap)) body)"
proof -
  let ?hdr = "plain_header EvGap (gap_flags script_gap)"
  let ?f = "next_frame rc SESSION_ACTOR_ID SESSION_ACTOR_ID SESSION_CHANNEL_ID ?hdr body"
  have body: "body = to_le GAP_REASON_OVERRUN @ to_le (1 :: u64) @ to_le (25 :: u16) @ ascii ''scripted recorder overrun''"
    using assms(2) by (simp add: encode_gap_def script_gap_def)
  have "body_fits EvGap body" by (simp add: body u16_at_def subslice_def)
  moreover have "marker_ok (rc_frames rc) ?f"
    using assms(2) by (auto simp: marker_ok_def plain_header_def gap_flags_def script_gap_def U64_MAX_def
        intro!: exI [of _ script_gap])
  ultimately have "frame_ok (rc_frames rc) ?f"
    by (intro next_frame_ok [OF assms(1)])
      (simp_all add: plain_header_def wf_header_def EVENT_SCHEMA_def gap_flags_def script_gap_def body session_tuple_def)
  then show ?thesis
    by (rule recorder_append [OF assms(1) _ _ _ recorder_uncaught])
      (simp_all add: plain_header_def session_not_component)
qed

lemma record_actions_ok:
  assumes "record_actions h as fx = Inr fx'" and "fixture_ok sess fx" and "\<forall>a\<in>set as. small_command a"
  shows "recorder_ok sess (fx_recorder fx')"
  using assms
proof (induction h as fx rule: record_actions.induct)
  case (2 h as fx)
  then show ?case by (auto simp: fixture_ok_def gap_frame_ok split: option.splits)
qed (auto simp: fixture_ok_def split: sum.splits dest: record_input_ok [unfolded fixture_ok_def])


definition script_session :: "hash_fn \<Rightarrow> string \<Rightarrow> session" where
  "script_session h name =
     \<lparr>s_uuid = session_uuid h name, s_record_utc_ns = 1757000000000000000, s_pid = 4242\<rparr>"

definition state_body :: "hash_fn \<Rightarrow> bytes" where
  "state_body h = starting_state STATE_METHOD_FRESH (h [])"

definition start_frames :: "hash_fn \<Rightarrow> string \<Rightarrow> frame list" where
  "start_frames h name =
     [\<lparr>f_ordinal = 0, f_src_actor = SESSION_ACTOR_ID, f_dst_actor = SESSION_ACTOR_ID,
       f_channel_id = SESSION_CHANNEL_ID, f_src_seq = 0, f_observed_ns = 0,
       f_header = plain_header EvSession 0, f_body = encode_session (script_session h name)\<rparr>,
      \<lparr>f_ordinal = 1, f_src_actor = SESSION_ACTOR_ID, f_dst_actor = COMPONENT_ACTOR_ID,
       f_channel_id = SESSION_CHANNEL_ID, f_src_seq = 1, f_observed_ns = 1000000,
       f_header = plain_header EvStartingState 0, f_body = state_body h\<rparr>]"

lemma recorder_start_frames: "rc_frames (recorder_start h name) = start_frames h name"
  by (simp add: recorder_start_def start_frames_def recorder_push_def script_session_def state_body_def)

lemma plain_fields [simp]:
  "h_event_type (plain_header ty fl) = ty" "h_schema (plain_header ty fl) = 1" "h_flags (plain_header ty fl) = fl"
  by (simp_all add: plain_header_def)

lemma state_body_fits: "body_fits EvStartingState (state_body h)" "length (state_body h) = 34"
  by (simp_all add: state_body_def starting_state_def u16_at_def subslice_def one_to_three_def STATE_METHOD_FRESH_def)

lemma recorder_start_ok: "recorder_ok (script_session h name) (recorder_start h name)"
proof -
  have "session_of [x] = Some (script_session h name)" if "x = hd (start_frames h name)" for x
    using that by (simp add: start_frames_def session_of_def decode_encode_session)
  then have "ok_prefix (start_frames h name) \<and> session_of (start_frames h name) = Some (script_session h name)"
    using ok_prefix_snoc [of "[hd (start_frames h name)]" "start_frames h name ! 1"]
      ok_prefix_snoc [of "[]" "hd (start_frames h name)"] state_body_fits [of h]
    by (simp add: start_frames_def frame_ok_def marker_ok_def wf_frame_def wf_header_def EVENT_SCHEMA_def
        payload_def encode_header_def sequence_key_def frame_tuple_def session_tuple_def
        encode_session_def session_of_def)
  moreover have "component_emits (start_frames h name)"
    by (auto simp: start_frames_def component_emits_def is_emit_def frame_kind_def session_not_component)
  moreover have "rc_captured (recorder_start h name) = []" by (simp add: recorder_start_def)
  moreover have "filter is_emit (start_frames h name) = []"
    by (auto simp: start_frames_def is_emit_def frame_kind_def)
  moreover have "\<forall>k. (case rc_sequences (recorder_start h name) k of None \<Rightarrow> 0 | Some n \<Rightarrow> n) =
      (word_of_nat (seq_count (rc_frames (recorder_start h name)) k) :: u64)"
    unfolding recorder_start_def by (intro push_sequences) simp
  moreover have "\<forall>f\<in>set (start_frames h name). f_event_type f \<noteq> EvEnd" by (simp add: start_frames_def)
  ultimately show ?thesis by (simp add: recorder_ok_def recorder_start_frames)
qed

lemma end_push_valid:
  assumes "recorder_ok sess rc"
  shows "valid_stream (rc_frames rc @ [next_frame rc SESSION_ACTOR_ID SESSION_ACTOR_ID SESSION_CHANNEL_ID
      (plain_header EvEnd 0)
      (encode_end \<lparr>en_uuid = s_uuid sess, en_frame_count = word_of_nat (length (rc_frames rc))\<rparr>)])"
proof -
  let ?f = "next_frame rc SESSION_ACTOR_ID SESSION_ACTOR_ID SESSION_CHANNEL_ID (plain_header EvEnd 0)
      (encode_end \<lparr>en_uuid = s_uuid sess, en_frame_count = word_of_nat (length (rc_frames rc))\<rparr>)"
  have "frame_ok (rc_frames rc) ?f"
    using assms
    by (intro next_frame_ok [OF assms])
      (simp_all add: wf_header_def EVENT_SCHEMA_def encode_end_def marker_ok_def recorder_ok_def session_tuple_def)
  then show ?thesis using assms by (simp add: valid_stream_def recorder_ok_def)
qed

subsection \<open>Captured effects\<close>

lemma decode_captured_from:
  assumes "\<forall>p\<in>set ps. length p < 2 ^ 32"
  shows "decode_captured_from (length pre) (pre @ encode_captured ps) = Inr ps"
  using assms
proof (induction ps arbitrary: pre)
  case Nil
  then show ?case by (simp add: decode_captured_from.simps encode_captured_def)
next
  case (Cons p ps)
  let ?len = "to_le (word_of_nat (length p) :: u32)"
  have enc: "pre @ encode_captured (p # ps) = pre @ ?len @ p @ encode_captured ps"
    by (simp add: encode_captured_def)
  have n: "unat (word_of_nat (length p) :: u32) = length p"
    using Cons.prems by (simp add: unat_of_nat take_bit_eq_mod)
  have "get_range (length pre) (length pre + 4) (pre @ encode_captured (p # ps)) = Some ?len"
    unfolding enc by (simp add: get_range_def subslice_def)
  moreover have "get_range (length pre + 4) (length pre + 4 + length p) (pre @ encode_captured (p # ps)) = Some p"
    unfolding enc by (simp add: get_range_def subslice_def)
  moreover have "decode_captured_from (length pre + 4 + length p) (pre @ encode_captured (p # ps)) = Inr ps"
    using Cons.IH [of "pre @ ?len @ p"] Cons.prems unfolding enc by (simp add: add.assoc)
  moreover have "length pre < length (pre @ encode_captured (p # ps))" unfolding enc by simp
  ultimately show ?case by (subst decode_captured_from.simps) (simp add: n Let_def)
qed

lemma decode_encode_captured:
  assumes "\<forall>p\<in>set ps. length p < 2 ^ 32"
  shows "decode_captured (encode_captured ps) = Inr ps"
  using decode_captured_from [OF assms, of "[]"] by (simp add: decode_captured_def)

lemma encode_decode_captured_from:
  "decode_captured_from cursor bs = Inr ps \<Longrightarrow> encode_captured ps = drop cursor bs"
proof (induction cursor bs arbitrary: ps rule: decode_captured_from.induct)
  case (1 cursor bs)
  show ?case
  proof (cases "cursor < length bs")
    case False
    with 1 show ?thesis by (simp add: decode_captured_from.simps encode_captured_def)
  next
    case True
    from 1(2) True obtain hdr p qs where
      hdr: "get_range cursor (cursor + 4) bs = Some hdr"
      and p: "get_range (cursor + 4) (cursor + 4 + unat (from_le hdr :: u32)) bs = Some p"
      and qs: "decode_captured_from (cursor + 4 + unat (from_le hdr :: u32)) bs = Inr qs" and ps: "ps = p # qs"
      by (subst (asm) decode_captured_from.simps) (auto simp: Let_def split: option.splits sum.splits)
    let ?n = "unat (from_le hdr :: u32)"
    have h: "hdr = take 4 (drop cursor bs)" "length hdr = 4"
      and q: "p = take ?n (drop (cursor + 4) bs)" "length p = ?n"
      using hdr p by (auto simp: get_range_def subslice_def split: if_splits)
    have len: "to_le (word_of_nat (length p) :: u32) = hdr" using h(2) q(2) by (simp add: to_from_le)
    have "drop cursor bs = hdr @ p @ drop (cursor + 4 + ?n) bs"
      using append_take_drop_id [of 4 "drop cursor bs"] append_take_drop_id [of ?n "drop (cursor + 4) bs"]
      by (simp add: h(1) [symmetric] q(1) [symmetric] add.commute add.left_commute)
    moreover have "encode_captured qs = drop (cursor + 4 + ?n) bs"
      by (rule 1(1) [OF True hdr refl p qs])
    ultimately show ?thesis by (simp add: ps len encode_captured_def)
  qed
qed


lemma captured_exact:
  "decode_captured bs = Inr ps \<longleftrightarrow> bs = encode_captured ps \<and> (\<forall>p\<in>set ps. length p < 2 ^ 32)"
proof
  assume d: "decode_captured bs = Inr ps"
  have len: "decode_captured_from cursor bs = Inr ps \<Longrightarrow> \<forall>p\<in>set ps. length p < 2 ^ 32" for cursor
  proof (induction cursor bs arbitrary: ps rule: decode_captured_from.induct)
    case (1 cursor bs)
    show ?case
    proof (cases "cursor < length bs")
      case True
      from 1(2) True obtain hdr p qs where
        hdr: "get_range cursor (cursor + 4) bs = Some hdr"
        and p: "get_range (cursor + 4) (cursor + 4 + unat (from_le hdr :: u32)) bs = Some p"
        and qs: "decode_captured_from (cursor + 4 + unat (from_le hdr :: u32)) bs = Inr qs" and ps: "ps = p # qs"
        by (subst (asm) decode_captured_from.simps) (auto simp: Let_def split: option.splits sum.splits)
      have "length p = unat (from_le hdr :: u32)"
        using p by (auto simp: get_range_def subslice_def split: if_splits)
      then show ?thesis using 1(1) [OF True hdr refl p qs] unat_u32_bound [of "from_le hdr"] by (simp add: ps)
    qed (use 1(2) in \<open>simp add: decode_captured_from.simps\<close>)
  qed
  show "bs = encode_captured ps \<and> (\<forall>p\<in>set ps. length p < 2 ^ 32)"
    using encode_decode_captured_from [of 0 bs ps] len [of 0] d by (simp add: decode_captured_def)
qed (simp add: decode_encode_captured)

text \<open>What the recording loop ends with.\<close>

lemma record_scenario_Inr:
  assumes "record_scenario h v sc = Inr rg" and "\<forall>a\<in>set (sn_actions sc). small_command a"
  shows "\<exists>fx. record_actions h (sn_actions sc) \<lparr>fx_recorder = recorder_start h (sn_name sc),
      fx_component = new_component v, fx_last_goal = None, fx_last_cancel = None\<rparr> = Inr fx \<and>
    recorder_ok (script_session h (sn_name sc)) (fx_recorder fx) \<and>
    rg_captured rg = rc_captured (fx_recorder fx) \<and>
    rg_frames rg = rc_frames (fx_recorder fx) @ [next_frame (fx_recorder fx) SESSION_ACTOR_ID
      SESSION_ACTOR_ID SESSION_CHANNEL_ID (plain_header EvEnd 0)
      (encode_end \<lparr>en_uuid = session_uuid h (sn_name sc),
         en_frame_count = word_of_nat (length (rc_frames (fx_recorder fx)))\<rparr>)]"
proof -
  let ?fx = "\<lparr>fx_recorder = recorder_start h (sn_name sc), fx_component = new_component v,
    fx_last_goal = None, fx_last_cancel = None\<rparr>"
  from assms(1) obtain fx where run: "record_actions h (sn_actions sc) ?fx = Inr fx"
    and rg: "rg = \<lparr>rg_frames = rc_frames (fx_recorder fx) @ [next_frame (fx_recorder fx) SESSION_ACTOR_ID
      SESSION_ACTOR_ID SESSION_CHANNEL_ID (plain_header EvEnd 0)
      (encode_end \<lparr>en_uuid = session_uuid h (sn_name sc),
         en_frame_count = word_of_nat (length (rc_frames (fx_recorder fx)))\<rparr>)],
      rg_captured = rc_captured (fx_recorder fx)\<rparr>"
    by (auto simp: record_scenario_def Let_def split: sum.splits)
  have "fixture_ok (script_session h (sn_name sc)) ?fx"
    by (simp add: fixture_ok_def recorder_start_ok small_goal_def new_component_def)
  from record_actions_ok [OF run this assms(2)] run rg show ?thesis by simp
qed

section \<open>Properties of the recorder\<close>

text \<open>
  C27. Whatever the script and the variant, a recording that is made is a valid native stream of the
  component's effects and its inputs, and the effects captured a second time are exactly the payloads
  of its effect frames, in order; their file reads back unchanged.
\<close>

theorem record_is_valid:
  assumes "record_scenario h v sc = Inr rg" and "\<forall>a\<in>set (sn_actions sc). small_command a"
  shows "valid_stream (rg_frames rg) \<and> component_emits (rg_frames rg) \<and>
    rg_captured rg = map payload (filter is_emit (rg_frames rg)) \<and>
    decode_captured (encode_captured (rg_captured rg)) = Inr (rg_captured rg)"
proof -
  from record_scenario_Inr [OF assms] obtain fx :: fixture where
    ok: "recorder_ok (script_session h (sn_name sc)) (fx_recorder fx)"
    and captured: "rg_captured rg = rc_captured (fx_recorder fx)"
    and frames: "rg_frames rg = rc_frames (fx_recorder fx) @ [next_frame (fx_recorder fx) SESSION_ACTOR_ID
      SESSION_ACTOR_ID SESSION_CHANNEL_ID (plain_header EvEnd 0)
      (encode_end \<lparr>en_uuid = session_uuid h (sn_name sc),
         en_frame_count = word_of_nat (length (rc_frames (fx_recorder fx)))\<rparr>)]" by blast
  have valid: "valid_stream (rg_frames rg)"
    using end_push_valid [OF ok] by (simp add: frames script_session_def)
  moreover have "component_emits (rg_frames rg)"
    using ok by (auto simp: frames recorder_ok_def component_emits_def is_emit_def frame_kind_def
        session_not_component)
  moreover have payloads: "rg_captured rg = map payload (filter is_emit (rg_frames rg))"
    using ok by (simp add: captured frames recorder_ok_def is_emit_def frame_kind_def)
  moreover have "\<forall>f\<in>set (rg_frames rg). length (payload f) < 2 ^ 32"
    using valid
    by (auto simp: valid_stream_def ok_prefix_def frame_ok_def wf_frame_def in_set_conv_nth)
  then have "\<forall>p\<in>set (rg_captured rg). length p < 2 ^ 32" by (auto simp: payloads)
  ultimately show ?thesis using decode_encode_captured by blast
qed

definition demo_scenario :: scenario where
  "demo_scenario =
     \<lparr>sn_name = ''demo'', sn_property = PROPERTY_TIMEOUT_CANCEL, sn_completion = ''cancel_request_issued'',
      sn_grade = ''Complete'', sn_grade_reason = [],
      sn_actions = [ActCommand [1, 2, 3], ActClock 0, ActClock 1200000000]\<rparr>"

lemma demo_records: "\<exists>rg. record_scenario h VFixed demo_scenario = Inr rg \<and> length (rg_captured rg) = 2 \<and>
    length (rg_frames rg) = 8"
  by (simp add: record_scenario_def demo_scenario_def record_input_def recorder_start_def Let_def
      new_component_def step_def on_goal_command_def on_clock_def clock_codec.dec_enc [simplified]
      message_codec.dec_enc [simplified] default_outcome_def submit_goal_def check_deadline_def
      checked_add_i64_def GOAL_RESPONSE_DEADLINE_NS_def issue_effect_def next_seq_def waits_def
      goal_send_codec.dec_enc [simplified] cancel_send_codec.dec_enc [simplified] recorder_push_def
      ACTOR_COMMAND_def ACTOR_CLOCK_def CH_GOAL_COMMAND_def CH_CLOCK_def CH_ACTION_RESPONSE_def
      COMPONENT_ACTOR_ID_def SESSION_ACTOR_ID_def ACTOR_ACTION_SERVER_def CH_ACTION_GOAL_def
      CH_ACTION_CANCEL_def SESSION_CHANNEL_ID_def CLOCK_ROS_def del: next_frame_fields recorder_push_frames)


lemma demo_small: "\<forall>a\<in>set (sn_actions demo_scenario). small_command a"
  by (simp add: demo_scenario_def small_command_def)

theorem record_is_valid_witness:
  "\<exists>rg. record_scenario demo_hash VFixed demo_scenario = Inr rg \<and> valid_stream (rg_frames rg) \<and>
     length (filter is_emit (rg_frames rg)) = 2"
proof -
  obtain rg where rg: "record_scenario demo_hash VFixed demo_scenario = Inr rg" "length (rg_captured rg) = 2"
    using demo_records by blast
  note ok = record_is_valid [OF rg(1) demo_small]
  then have "length (filter is_emit (rg_frames rg)) = 2" using rg(2) by simp
  with ok rg(1) show ?thesis by blast
qed

end
