(* ===== verification/Reproduction.thy ===== *)
theory Reproduction
  imports Fixture_Recorder
begin

text \<open>
  The composition of the recorder, the driver and the reference adapter: a recording of a variant,
  replayed through the adapter around the same variant, reproduces every frame.  The adapter is used
  through the interface \<open>component_adapter\<close>, which the reference adapter (crates/rook-adapter-ref/src/adapter.rs
  \<open>serve\<close>) provides.
\<close>

subsection \<open>The adapter as a transition\<close>

text \<open>
  \<open>serve\<close> between two requests: running (the component once started, the effects counted), or
  returned.
\<close>

datatype served = Serving "component option" u64 | Returned

fun reference_adapter :: "hash_fn \<Rightarrow> variant \<Rightarrow> served adapter" where
  "reference_adapter h v Returned request = (Returned, [])"
| "reference_adapter h v (Serving running effects) (Start protocol corpus scenario state) =
     (if protocol \<noteq> PROTOCOL_VERSION
      then (Returned, [StartRefused (''protocol '' @ show_word protocol @
              '' unsupported; this adapter speaks '' @ show_word PROTOCOL_VERSION)])
      else if ss_method state \<noteq> ''fresh''
      then (Returned, [StartRefused (''starting-state method '' @ ss_method state @
              '' unsupported; this adapter supports fresh'')])
      else (Serving (Some (new_component v)) effects,
        [Started PROTOCOL_VERSION (identity_of v) endpoints channels
           \<lparr>ss_method = ''fresh'', ss_blake3 = fresh_state_blake3 h\<rparr>]))"
| "reference_adapter h v (Serving running effects) (StepRequest inp request) =
     (case running of
        None \<Rightarrow> (Returned, [])
      | Some c \<Rightarrow>
          (case component_input inp request of
             Inl e \<Rightarrow> (Returned, [])
           | Inr i \<Rightarrow>
               (case step h c i of
                  None \<Rightarrow> (Returned, [])
                | Some (c', out) \<Rightarrow>
                    (Serving (Some c') (effects + word_of_nat (length (oc_effects out))),
                     step_lines (in_ordinal i) c' out))))"
| "reference_adapter h v (Serving running effects) (Finish reason) =
     (Returned, [Finished reason
         (map pending_of (case running of None \<Rightarrow> [] | Some c \<Rightarrow> waits c)) effects])"

text \<open>The lines an adapter writes for a list of requests.\<close>

fun answers :: "'s adapter \<Rightarrow> 's \<Rightarrow> request list \<Rightarrow> response list" where
  "answers react s [] = []"
| "answers react s (r # rs) = (let (s', ls) = react s r in ls @ answers react s' rs)"

lemma returned_answers [simp]: "answers (reference_adapter h v) Returned rs = []"
  by (induction rs) simp_all

text \<open>The transition writes exactly what \<open>serve\<close> writes for the whole input.\<close>

lemma reference_adapter_serves:
  "answers (reference_adapter h v) (Serving running effects) rs =
     fst (serve_from h v running effects (map Line rs))"
proof (induction rs arbitrary: running effects)
  case (Cons r rs)
  show ?case
  proof (cases r)
    case (Start protocol corpus scenario state)
    then show ?thesis using Cons.IH by (simp add: Let_def split: prod.splits)
  next
    case (StepRequest inp request)
    then show ?thesis
      using Cons.IH by (auto simp: Let_def split: option.splits sum.splits prod.splits)
  qed simp
qed simp

text \<open>What the driver relies on: an adapter that runs a component under the protocol.\<close>

locale component_adapter =
  fixes h :: hash_fn and v :: variant
    and react :: "'s adapter" and initial :: 's and running :: "component \<Rightarrow> u64 \<Rightarrow> 's"
  assumes starts: "\<exists>i eps chs. react initial (Start PROTOCOL_VERSION corpus scenario (requested_state h)) =
      (running (new_component v) 0, [Started PROTOCOL_VERSION i eps chs (requested_state h)])"
    and steps: "component_input w q = Inr i \<Longrightarrow> step h c i = Some (c', out) \<Longrightarrow>
      react (running c n) (StepRequest w q) =
        (running c' (n + word_of_nat (length (oc_effects out))), step_lines (in_ordinal i) c' out)"
    and finishes: "\<exists>s'. react (running c n) (Finish reason) = (s', [Finished reason (map pending_of (waits c)) n])"

interpretation reference: component_adapter h v "reference_adapter h v" "Serving None 0"
    "\<lambda>c. Serving (Some c)" for h v
  by unfold_locales (auto simp: requested_state_def)

section \<open>The replay of a recording\<close>

lemma timeless_fields [simp]:
  "f_ordinal (timeless f) = f_ordinal f" "f_src_actor (timeless f) = f_src_actor f"
  "f_dst_actor (timeless f) = f_dst_actor f" "f_channel_id (timeless f) = f_channel_id f"
  "f_src_seq (timeless f) = f_src_seq f" "f_header (timeless f) = f_header f" "f_body (timeless f) = f_body f"
  "frame_kind (timeless f) = frame_kind f" "payload (timeless f) = payload f"
  "(timeless f)\<lparr>f_observed_ns := 0\<rparr> = timeless f"
  by (simp_all add: timeless_def frame_kind_def is_emit_def payload_def)

subsection \<open>Who a step's lines belong to\<close>

definition on_channel :: "effect \<Rightarrow> bool" where
  "on_channel e \<longleftrightarrow>
     (ef_event_type e = EvGoalSend \<longrightarrow> ef_channel_id e = CH_ACTION_GOAL) \<and>
     (ef_event_type e = EvCancelSend \<longrightarrow> ef_channel_id e = CH_ACTION_CANCEL)"

lemma step_on_channel: "client_step h c inp out c' \<Longrightarrow> \<forall>e\<in>set (oc_effects out). on_channel e"
  by (induction rule: client_step.induct) (auto simp: on_channel_def issue_fields)

lemma step_callback:
  assumes "client_step h c inp out c'" and "oc_effects out \<noteq> [] \<or> oc_progress out \<noteq> []"
  shows "\<exists>callback. oc_callback out = Some callback \<and>
    ((\<exists>clock. matching_clock inp clock callback) \<or>
     (\<exists>progress text nxt. settles (c_state c) inp callback progress text nxt))"
  using assms by (induction rule: client_step.induct) auto

text \<open>A request as the driver and the recorder know it: an effect frame on its channel.\<close>

definition request_frame :: "frame list \<Rightarrow> event_type \<Rightarrow> u32 \<Rightarrow> u64 \<Rightarrow> u64 \<Rightarrow> bool" where
  "request_frame fs ty ch n seq \<longleftrightarrow>
     (\<exists>f\<in>set fs. is_emit f \<and> f_ordinal f = n \<and> f_event_type f = ty \<and> f_channel_id f = ch \<and> f_src_seq f = seq)"

lemma request_frame_append: "request_frame fs ty ch n seq \<Longrightarrow> request_frame (fs @ gs) ty ch n seq"
  by (auto simp: request_frame_def)

text \<open>The recorder's last requests are frames of the recording.\<close>

definition last_requests_ok :: "fixture \<Rightarrow> bool" where
  "last_requests_ok fx \<longleftrightarrow>
     (\<forall>n seq gid. fx_last_goal fx = Some (n, seq, gid) \<longrightarrow>
        request_frame (rc_frames (fx_recorder fx)) EvGoalSend CH_ACTION_GOAL n seq) \<and>
     (\<forall>n seq gid. fx_last_cancel fx = Some (n, seq, gid) \<longrightarrow>
        request_frame (rc_frames (fx_recorder fx)) EvCancelSend CH_ACTION_CANCEL n seq)"

text \<open>The request a waiting component waits on is the recorder's last one, sent by its callback.\<close>

fun open_request :: "fixture \<Rightarrow> (u64 \<times> u64) set \<Rightarrow> cstate \<Rightarrow> bool" where
  "open_request fx effs (AwaitGoalResponse callback gid seq deadline) =
     (\<exists>n. fx_last_goal fx = Some (n, seq, gid) \<and> (callback, n) \<in> effs)"
| "open_request fx effs (AwaitResult callback gid seq) =
     (\<exists>n. fx_last_goal fx = Some (n, seq, gid) \<and> (callback, n) \<in> effs)"
| "open_request fx effs (AwaitCancelResponse callback gid seq reason) =
     (\<exists>n. fx_last_cancel fx = Some (n, seq, gid) \<and> (callback, n) \<in> effs)"
| "open_request fx effs _ = True"

text \<open>What the driver knows agrees with what the recorder wrote.\<close>

definition frames_mirror :: "fixture \<Rightarrow> 's driver \<Rightarrow> bool" where
  "frames_mirror fx st \<longleftrightarrow>
     d_frames st = map timeless (rc_frames (fx_recorder fx)) \<and>
     (\<forall>ch. next_seq (d_effect_sequences st) ch =
        word_of_nat (seq_count (rc_frames (fx_recorder fx)) (COMPONENT_ACTOR_ID, ch))) \<and>
     map snd (d_effects st) = map f_ordinal (filter is_emit (rc_frames (fx_recorder fx))) \<and>
     last_requests_ok fx"


subsection \<open>Reading the effect lines of a step\<close>

definition effect_frame :: "recorder \<Rightarrow> effect \<Rightarrow> frame" where
  "effect_frame rc e = next_frame rc COMPONENT_ACTOR_ID (ef_dst_actor e) (ef_channel_id e)
     (plain_header (ef_event_type e) (ef_flags e AND (FLAG_ATTEMPTED OR FLAG_CONFIRMED))) (ef_body e)"

lemma effect_frame_fields [simp]:
  "f_event_type (effect_frame rc e) = ef_event_type e" "f_body (effect_frame rc e) = ef_body e"
  "f_src_actor (effect_frame rc e) = COMPONENT_ACTOR_ID" "f_dst_actor (effect_frame rc e) = ef_dst_actor e"
  "f_channel_id (effect_frame rc e) = ef_channel_id e"
  "f_ordinal (effect_frame rc e) = word_of_nat (length (rc_frames rc))"
  by (simp_all add: effect_frame_def)

text \<open>The fixture after one recorded effect.\<close>

definition note_effect :: "fixture \<Rightarrow> effect \<Rightarrow> fixture" where
  "note_effect fx e =
     (let rc = recorder_push (fx_recorder fx) COMPONENT_ACTOR_ID (ef_dst_actor e) (ef_channel_id e)
            (plain_header (ef_event_type e) (ef_flags e AND (FLAG_ATTEMPTED OR FLAG_CONFIRMED))) (ef_body e);
          n = word_of_nat (length (rc_frames (fx_recorder fx)));
          fx1 = fx\<lparr>fx_recorder := rc\<lparr>rc_captured := rc_captured rc @ [payload (last (rc_frames rc))]\<rparr>\<rparr>
      in if ef_event_type e = EvGoalSend then
           (case decode_goal_send (ef_body e) of
              Inl _ \<Rightarrow> fx1 | Inr g \<Rightarrow> fx1\<lparr>fx_last_goal := Some (n, ef_src_seq e, gs_goal_id g)\<rparr>)
         else if ef_event_type e = EvCancelSend then
           (case decode_cancel_send (ef_body e) of
              Inl _ \<Rightarrow> fx1 | Inr k \<Rightarrow> fx1\<lparr>fx_last_cancel := Some (n, ef_src_seq e, cs_goal_id k)\<rparr>)
         else fx1)"

lemma record_effects_Cons:
  assumes "record_effects fx (e # es) = Inr fx'"
  shows "record_effects (note_effect fx e) es = Inr fx'"
    and "f_src_seq (effect_frame (fx_recorder fx) e) = ef_src_seq e"
    and "ef_event_type e = EvGoalSend \<Longrightarrow> \<exists>g. decode_goal_send (ef_body e) = Inr g"
    and "ef_event_type e = EvCancelSend \<Longrightarrow> \<exists>k. decode_cancel_send (ef_body e) = Inr k"
  using assms by (auto simp: note_effect_def effect_frame_def Let_def split: if_splits sum.splits)

lemma note_effect_fields [simp]:
  "rc_frames (fx_recorder (note_effect fx e)) = rc_frames (fx_recorder fx) @ [effect_frame (fx_recorder fx) e]"
  "fx_component (note_effect fx e) = fx_component fx"
  by (auto simp: note_effect_def effect_frame_def Let_def split: sum.splits)

lemma note_effect_ok:
  assumes "recorder_ok sess (fx_recorder fx)" and "sound_effect e"
  shows "recorder_ok sess (fx_recorder (note_effect fx e))"
proof -
  have "fx_recorder (note_effect fx e) =
      (let rc = recorder_push (fx_recorder fx) COMPONENT_ACTOR_ID (ef_dst_actor e) (ef_channel_id e)
            (plain_header (ef_event_type e) (ef_flags e AND (FLAG_ATTEMPTED OR FLAG_CONFIRMED))) (ef_body e)
       in rc\<lparr>rc_captured := rc_captured (fx_recorder fx) @ [payload (last (rc_frames rc))]\<rparr>)"
    by (auto simp: note_effect_def Let_def split: sum.splits)
  then show ?thesis using recorder_push_effect [OF assms refl] by (simp add: Let_def)
qed

lemma last_requests_note:
  assumes "last_requests_ok fx" and "on_channel e" and "f_src_seq (effect_frame (fx_recorder fx) e) = ef_src_seq e"
    and "is_emit (effect_frame (fx_recorder fx) e)"
  shows "last_requests_ok (note_effect fx e)"
proof -
  let ?f = "effect_frame (fx_recorder fx) e"
  have new: "request_frame (rc_frames (fx_recorder fx) @ [?f]) (ef_event_type e) (ef_channel_id e)
      (word_of_nat (length (rc_frames (fx_recorder fx)))) (ef_src_seq e)"
    using assms(3,4) by (simp add: request_frame_def)
  have goal: "fx_last_goal (note_effect fx e) = fx_last_goal fx \<or>
      ef_event_type e = EvGoalSend \<and> (\<exists>i. fx_last_goal (note_effect fx e) =
        Some (word_of_nat (length (rc_frames (fx_recorder fx))), ef_src_seq e, i))"
    and cancel: "fx_last_cancel (note_effect fx e) = fx_last_cancel fx \<or>
      ef_event_type e = EvCancelSend \<and> (\<exists>i. fx_last_cancel (note_effect fx e) =
        Some (word_of_nat (length (rc_frames (fx_recorder fx))), ef_src_seq e, i))"
    by (auto simp: note_effect_def Let_def split: sum.splits)
  have "request_frame (rc_frames (fx_recorder fx) @ [?f]) EvGoalSend CH_ACTION_GOAL n seq"
    if "fx_last_goal (note_effect fx e) = Some (n, seq, gid)" for n seq gid
  proof (cases "fx_last_goal (note_effect fx e) = fx_last_goal fx")
    case True
    then have "fx_last_goal fx = Some (n, seq, gid)" using that by simp
    then show ?thesis
      using assms(1) unfolding last_requests_ok_def by (blast intro: request_frame_append)
  next
    case False
    then show ?thesis using that goal new assms(2) by (auto simp: on_channel_def)
  qed
  moreover have "request_frame (rc_frames (fx_recorder fx) @ [?f]) EvCancelSend CH_ACTION_CANCEL n seq"
    if "fx_last_cancel (note_effect fx e) = Some (n, seq, gid)" for n seq gid
  proof (cases "fx_last_cancel (note_effect fx e) = fx_last_cancel fx")
    case True
    then have "fx_last_cancel fx = Some (n, seq, gid)" using that by simp
    then show ?thesis
      using assms(1) unfolding last_requests_ok_def by (blast intro: request_frame_append)
  next
    case False
    then show ?thesis using that cancel new assms(2) by (auto simp: on_channel_def)
  qed
  ultimately show ?thesis by (simp add: last_requests_ok_def)
qed

lemma sound_emit:
  assumes "sound_effect e"
  shows "is_emit (effect_frame rc e)" and "ef_flags e AND (FLAG_ATTEMPTED OR FLAG_CONFIRMED) = ef_flags e"
  using assms by (auto simp: sound_effect_def is_emit_def frame_kind_def)

lemma accept_recorded_effect:
  assumes st: "frames_mirror fx st" and rc: "recorder_ok sess (fx_recorder fx)"
    and e: "sound_effect e" "on_channel e" "f_src_seq (effect_frame (fx_recorder fx) e) = ef_src_seq e"
    and authorized: "callback \<in> set authorized"
    and w: "effect_line (f_ordinal recorded) callback e = EffectLine n cb w"
  shows "\<exists>seqs. accept_effect recorded authorized n cb w st =
      Inr (st\<lparr>d_effect_sequences := seqs, d_frames := d_frames st @ [timeless (effect_frame (fx_recorder fx) e)],
        d_effects := d_effects st @ [(callback, word_of_nat (length (rc_frames (fx_recorder fx))))]\<rparr>) \<and>
    frames_mirror (note_effect fx e) (st\<lparr>d_effect_sequences := seqs,
        d_frames := d_frames st @ [timeless (effect_frame (fx_recorder fx) e)],
        d_effects := d_effects st @ [(callback, word_of_nat (length (rc_frames (fx_recorder fx))))]\<rparr>)"
proof -
  let ?fs = "rc_frames (fx_recorder fx)" and ?f = "effect_frame (fx_recorder fx) e"
  note emit = sound_emit [OF e(1)]
  have len: "length (d_frames st) = length ?fs" using st by (simp add: frames_mirror_def)
  have seq: "next_seq (d_effect_sequences st) (ef_channel_id e) = ef_src_seq e"
    using st rc e(3) by (simp add: frames_mirror_def recorder_ok_def effect_frame_def next_frame_def)
  let ?seqs = "(d_effect_sequences st)(ef_channel_id e \<mapsto> ef_src_seq e + 1)"
  have frame: "\<lparr>f_ordinal = word_of_nat (length ?fs), f_src_actor = COMPONENT_ACTOR_ID, f_dst_actor = ef_dst_actor e,
      f_channel_id = ef_channel_id e, f_src_seq = ef_src_seq e, f_observed_ns = 0,
      f_header = \<lparr>h_event_type = ef_event_type e, h_schema = 1, h_flags = ef_flags e\<rparr>, f_body = ef_body e\<rparr> = timeless ?f"
    using e(3) emit(2)
    by (simp add: timeless_def effect_frame_def next_frame_def plain_header_def)
  have "wf_header \<lparr>h_event_type = ef_event_type e, h_schema = 1, h_flags = ef_flags e\<rparr>"
    using effect_pushable [OF e(1)] emit(2) by (simp add: pushable_def plain_header_def)
  moreover have "event_kind (ef_event_type e) = KEmit"
    using emit(1) [of "fx_recorder fx"] by (simp add: is_emit_def frame_kind_def)
  ultimately have "accept_effect recorded authorized n cb w st =
      Inr (st\<lparr>d_effect_sequences := ?seqs, d_frames := d_frames st @ [timeless ?f],
        d_effects := d_effects st @ [(callback, word_of_nat (length ?fs))]\<rparr>)"
    using w authorized seq frame
    by (auto simp: accept_effect_def effect_line_def frame_from_wire_def frame_kind_def wf_header_def push_frame_def
        len Let_def)
  moreover have "frames_mirror (note_effect fx e) (st\<lparr>d_effect_sequences := ?seqs, d_frames := d_frames st @ [timeless ?f],
        d_effects := d_effects st @ [(callback, word_of_nat (length ?fs))]\<rparr>)"
    using st seq emit(1) last_requests_note [OF _ e(2,3) emit(1)] e(3)
    by (auto simp: frames_mirror_def next_seq_def sequence_key_def)
  ultimately show ?thesis by blast
qed


text \<open>What the effects of a step leave as the last goal and the last cancel.\<close>

definition asks_goal :: "fixture \<Rightarrow> fixture \<Rightarrow> u64 \<Rightarrow> (u64 \<times> u64) set \<Rightarrow> effect list \<Rightarrow> bool" where
  "asks_goal fx fx' callback effs es \<longleftrightarrow>
     (if \<exists>e\<in>set es. ef_event_type e = EvGoalSend
      then \<exists>e\<in>set es. \<exists>n g. ef_event_type e = EvGoalSend \<and> decode_goal_send (ef_body e) = Inr g \<and>
        fx_last_goal fx' = Some (n, ef_src_seq e, gs_goal_id g) \<and> (callback, n) \<in> effs
      else fx_last_goal fx' = fx_last_goal fx)"

definition asks_cancel :: "fixture \<Rightarrow> fixture \<Rightarrow> u64 \<Rightarrow> (u64 \<times> u64) set \<Rightarrow> effect list \<Rightarrow> bool" where
  "asks_cancel fx fx' callback effs es \<longleftrightarrow>
     (if \<exists>e\<in>set es. ef_event_type e = EvCancelSend
      then \<exists>e\<in>set es. \<exists>n k. ef_event_type e = EvCancelSend \<and> decode_cancel_send (ef_body e) = Inr k \<and>
        fx_last_cancel fx' = Some (n, ef_src_seq e, cs_goal_id k) \<and> (callback, n) \<in> effs
      else fx_last_cancel fx' = fx_last_cancel fx)"

lemma note_effect_asks:
  assumes "ef_event_type e = EvGoalSend \<Longrightarrow> \<exists>g. decode_goal_send (ef_body e) = Inr g"
    and "ef_event_type e = EvCancelSend \<Longrightarrow> \<exists>k. decode_cancel_send (ef_body e) = Inr k"
    and "(callback, word_of_nat (length (rc_frames (fx_recorder fx)))) \<in> effs"
  shows "asks_goal fx (note_effect fx e) callback effs [e]" and "asks_cancel fx (note_effect fx e) callback effs [e]"
  using assms by (auto simp: asks_goal_def asks_cancel_def note_effect_def Let_def split: sum.splits)

lemma asks_trans:
  assumes "asks_goal fx fx1 callback effs [e]" "asks_cancel fx fx1 callback effs [e]"
    and "asks_goal fx1 fx2 callback effs' es" "asks_cancel fx1 fx2 callback effs' es" and "effs \<subseteq> effs'"
  shows "asks_goal fx fx2 callback effs' (e # es) \<and> asks_cancel fx fx2 callback effs' (e # es)"
  using assms unfolding asks_goal_def asks_cancel_def by (auto split: if_splits)

definition same_run :: "'s driver \<Rightarrow> 's driver \<Rightarrow> bool" where
  "same_run st st' \<longleftrightarrow>
     d_adapter st' = d_adapter st \<and> d_queue st' = d_queue st \<and> d_session_sequence st' = d_session_sequence st"

lemma receive_effect_lines:
  assumes "record_effects fx es = Inr fx'" and "frames_mirror fx st" and "recorder_ok sess (fx_recorder fx)"
    and "\<forall>e\<in>set es. sound_effect e \<and> on_channel e" and "callback \<in> set authorized"
  shows "\<exists>st' effs. receive_lines recorded authorized ro
        (map (effect_line (f_ordinal recorded) callback) es @ ls) st = receive_lines recorded authorized ro ls st' \<and>
    same_run st st' \<and> frames_mirror fx' st' \<and> set (d_effects st) \<subseteq> set (d_effects st') \<and>
    length (d_effects st') = length (d_effects st) + length es \<and>
    asks_goal fx fx' callback (set (d_effects st')) es \<and> asks_cancel fx fx' callback (set (d_effects st')) es \<and>
    rc_frames (fx_recorder fx') = rc_frames (fx_recorder fx) @ effs \<and> (\<forall>f\<in>set effs. is_emit f) \<and>
    fx_component fx' = fx_component fx"
  using assms
proof (induction es arbitrary: fx st)
  case Nil
  then show ?case by (auto simp: same_run_def asks_goal_def asks_cancel_def)
next
  case (Cons e es)
  let ?fs = "rc_frames (fx_recorder fx)"
  note rec = record_effects_Cons [OF Cons.prems(1)]
  have e: "sound_effect e" "on_channel e" using Cons.prems(4) by simp_all
  obtain n cb w where w: "effect_line (f_ordinal recorded) callback e = EffectLine n cb w"
    by (simp add: effect_line_def)
  from accept_recorded_effect [OF Cons.prems(2,3) e rec(2) Cons.prems(5) w] obtain seqs where
    seqs: "accept_effect recorded authorized n cb w st =
      Inr (st\<lparr>d_effect_sequences := seqs, d_frames := d_frames st @ [timeless (effect_frame (fx_recorder fx) e)],
        d_effects := d_effects st @ [(callback, word_of_nat (length ?fs))]\<rparr>) \<and>
      frames_mirror (note_effect fx e) (st\<lparr>d_effect_sequences := seqs,
        d_frames := d_frames st @ [timeless (effect_frame (fx_recorder fx) e)],
        d_effects := d_effects st @ [(callback, word_of_nat (length ?fs))]\<rparr>)" by blast
  let ?st1 = "st\<lparr>d_effect_sequences := seqs, d_frames := d_frames st @ [timeless (effect_frame (fx_recorder fx) e)],
        d_effects := d_effects st @ [(callback, word_of_nat (length ?fs))]\<rparr>"
  have st1: "accept_effect recorded authorized n cb w st = Inr ?st1"
    and mirror: "frames_mirror (note_effect fx e) ?st1" using seqs by blast+
  from Cons.IH [OF rec(1) mirror note_effect_ok [OF Cons.prems(3) e(1)] _ Cons.prems(5)] Cons.prems(4)
  obtain st' effs where IH: "receive_lines recorded authorized ro
        (map (effect_line (f_ordinal recorded) callback) es @ ls) ?st1 = receive_lines recorded authorized ro ls st'"
    "same_run ?st1 st'" "frames_mirror fx' st'" "set (d_effects ?st1) \<subseteq> set (d_effects st')"
    "length (d_effects st') = length (d_effects ?st1) + length es"
    "asks_goal (note_effect fx e) fx' callback (set (d_effects st')) es"
    "asks_cancel (note_effect fx e) fx' callback (set (d_effects st')) es"
    "rc_frames (fx_recorder fx') = rc_frames (fx_recorder (note_effect fx e)) @ effs" "\<forall>f\<in>set effs. is_emit f"
    "fx_component fx' = fx_component (note_effect fx e)" by auto
  have in_effs: "(callback, word_of_nat (length ?fs)) \<in> set (d_effects ?st1)" by simp
  from asks_trans [OF note_effect_asks [OF rec(3,4) in_effs] IH(6,7,4)]
  have "asks_goal fx fx' callback (set (d_effects st')) (e # es) \<and>
      asks_cancel fx fx' callback (set (d_effects st')) (e # es)" by blast
  moreover have "receive_lines recorded authorized ro
        (map (effect_line (f_ordinal recorded) callback) (e # es) @ ls) st = receive_lines recorded authorized ro ls st'"
    using st1 IH(1) w by simp
  moreover have "same_run st st'" using IH(2) by (simp add: same_run_def)
  moreover have "set (d_effects st) \<subseteq> set (d_effects st')" using IH(4) by auto
  moreover have "length (d_effects st') = length (d_effects st) + length (e # es)" using IH(5) by simp
  ultimately show ?case
    using IH(3,8-10) sound_emit(1) [OF e(1)]
    by (intro exI [of _ st'] exI [of _ "effect_frame (fx_recorder fx) e # effs"]) simp
qed

lemma receive_progress_lines:
  assumes "callback \<in> set authorized"
  shows "\<exists>progress. receive_lines recorded authorized ro
      (map (ProgressLine (f_ordinal recorded) callback) names @ ls) st =
    receive_lines recorded authorized ro ls (st\<lparr>d_progress := progress\<rparr>)"
proof (induction names arbitrary: st)
  case Nil
  show ?case by (intro exI [of _ "d_progress st"]) simp
next
  case (Cons name names)
  let ?p = "d_progress st @ [(callback, name, word_of_nat (length (d_frames st)) - 1)]"
  from Cons.IH [of "st\<lparr>d_progress := ?p\<rparr>"] obtain progress where
    "receive_lines recorded authorized ro (map (ProgressLine (f_ordinal recorded) callback) names @ ls)
        (st\<lparr>d_progress := ?p\<rparr>) =
      receive_lines recorded authorized ro ls (st\<lparr>d_progress := progress\<rparr>)" by auto
  then show ?case using assms by (intro exI [of _ progress]) simp
qed


subsection \<open>Finding the request of a response\<close>

lemma seq_count_take_less:
  assumes "i < j" and "j \<le> length fs" and "sequence_key (fs ! i) = k"
  shows "seq_count (take i fs) k < seq_count (take j fs) k"
proof -
  have "take j fs = take i fs @ fs ! i # drop (Suc i) (take j fs)"
    using assms(1,2) id_take_nth_drop [of i "take j fs"] by (simp add: min_def)
  then have "seq_count (take j fs) k = seq_count (take i fs @ fs ! i # drop (Suc i) (take j fs)) k" by simp
  then show ?thesis using assms(3) by simp
qed

lemma seq_count_le: "seq_count fs k \<le> length fs"
  by (simp add: seq_count_def)

lemma frame_at:
  assumes "ok_prefix fs" and "i < length fs"
  shows "f_ordinal (fs ! i) = word_of_nat i"
    and "f_src_seq (fs ! i) = word_of_nat (seq_count (take i fs) (sequence_key (fs ! i)))"
proof -
  have "frame_ok (take i fs) (fs ! i)" using assms unfolding ok_prefix_def by blast
  then show "f_ordinal (fs ! i) = word_of_nat i"
    and "f_src_seq (fs ! i) = word_of_nat (seq_count (take i fs) (sequence_key (fs ! i)))"
    using assms(2) by (simp_all add: frame_ok_def)
qed

lemma emit_unique:
  assumes ok: "ok_prefix fs" "component_emits fs" "length fs < 2 ^ 64"
    and f: "f \<in> set fs" "is_emit f" and g: "g \<in> set fs" "is_emit g"
    and same: "f_channel_id f = f_channel_id g" "f_src_seq f = f_src_seq g"
  shows "f = g"
proof -
  from f(1) g(1) obtain i j where ij: "i < length fs" "fs ! i = f" "j < length fs" "fs ! j = g"
    by (auto simp: in_set_conv_nth)
  have key: "sequence_key f = sequence_key g"
    using ok(2) f g same(1) by (auto simp: component_emits_def sequence_key_def)
  have seq: "f_src_seq (fs ! k) = word_of_nat (seq_count (take k fs) (sequence_key (fs ! k)))"
    if "k < length fs" for k by (rule frame_at(2) [OF ok(1) that])
  have small: "seq_count (take k fs) x < 2 ^ 64" for k x
    using seq_count_le [of "take k fs" x] ok(3) by (simp add: min_def split: if_splits)
  have "seq_count (take i fs) (sequence_key f) = seq_count (take j fs) (sequence_key f)"
    using seq [OF ij(1)] seq [OF ij(3)] ij same(2) key small u64_of_nat_eq by metis
  then have "i = j"
    using seq_count_take_less [of i j fs "sequence_key f"] seq_count_take_less [of j i fs "sequence_key f"] ij key
    by (cases i j rule: linorder_cases) auto
  with ij show ?thesis by simp
qed

lemma find_unique:
  assumes "x \<in> set xs" and "P x" and "\<And>y. y \<in> set xs \<Longrightarrow> P y \<Longrightarrow> y = x"
  shows "find P xs = Some x"
proof (cases "find P xs")
  case None
  with assms(1,2) show ?thesis by (simp add: find_None_iff)
next
  case (Some y)
  then obtain i where "i < length xs" "xs ! i = y" "P y" by (auto simp: find_Some_iff)
  then have "y = x" using assms(3) nth_mem by blast
  with Some show ?thesis by simp
qed

lemma ordinal_at:
  assumes "ok_prefix fs" and "length fs < 2 ^ 64" and "f \<in> set fs"
  shows "unat (f_ordinal f) < length fs" and "fs ! unat (f_ordinal f) = f"
proof -
  from assms(3) obtain i where i: "i < length fs" "fs ! i = f" by (auto simp: in_set_conv_nth)
  then have "f_ordinal f = word_of_nat i" using frame_at(1) [OF assms(1) i(1)] by simp
  then have "unat (f_ordinal f) = i" using i(1) assms(2) by (simp add: unat_of_nat take_bit_eq_mod)
  with i show "unat (f_ordinal f) < length fs" "fs ! unat (f_ordinal f) = f" by simp_all
qed

lemma request_issued:
  assumes mirror: "frames_mirror fx st" and rc: "recorder_ok sess (fx_recorder fx)"
    and small: "length (rc_frames (fx_recorder fx)) < 2 ^ 64"
    and f: "f \<in> set (rc_frames (fx_recorder fx))" "is_emit f"
    and r: "rr_channel_id r = f_channel_id f" "rr_src_seq r = f_src_seq f"
  shows "issued_by_component (d_frames st) r = Some (timeless f)"
    and "find (\<lambda>g. frame_kind g = KEmit \<and> f_channel_id g = rr_channel_id r \<and> f_src_seq g = rr_src_seq r)
      (d_frames st) = Some (timeless f)"
    and "(callback, f_ordinal f) \<in> set (d_effects st) \<Longrightarrow>
      find (\<lambda>(_, n). n = f_ordinal (timeless f)) (d_effects st) = Some (callback, f_ordinal f)"
proof -
  let ?fs = "rc_frames (fx_recorder fx)"
  have ok: "ok_prefix ?fs" "component_emits ?fs" using rc by (simp_all add: recorder_ok_def)
  have frames: "d_frames st = map timeless ?fs" using mirror by (simp add: frames_mirror_def)
  have uniq: "y = timeless f" if y: "y \<in> set (d_frames st)" "frame_kind y = KEmit" "f_channel_id y = f_channel_id f"
      "f_src_seq y = f_src_seq f" for y
  proof -
    from y(1) obtain g where g: "g \<in> set ?fs" "y = timeless g" by (auto simp: frames)
    then have "g = f"
      using y emit_unique [OF ok small _ _ f, of g] by (simp add: is_emit_def)
    with g show ?thesis by simp
  qed
  have in_st: "timeless f \<in> set (d_frames st)" "frame_kind (timeless f) = KEmit"
    using f by (simp_all add: frames is_emit_def)
  have "f_src_actor f = COMPONENT_ACTOR_ID" using ok(2) f by (simp add: component_emits_def)
  then show "issued_by_component (d_frames st) r = Some (timeless f)"
    unfolding issued_by_component_def r
  proof (intro find_unique [OF in_st(1)])
    fix y assume "y \<in> set (d_frames st)" "frame_kind y = KEmit \<and> f_src_actor y = COMPONENT_ACTOR_ID \<and>
      f_channel_id y = f_channel_id f \<and> f_src_seq y = f_src_seq f"
    then show "y = timeless f" using uniq by blast
  qed (use in_st(2) in simp)
  show "find (\<lambda>g. frame_kind g = KEmit \<and> f_channel_id g = rr_channel_id r \<and> f_src_seq g = rr_src_seq r)
      (d_frames st) = Some (timeless f)"
    unfolding r
  proof (intro find_unique [OF in_st(1)])
    fix y assume "y \<in> set (d_frames st)" "frame_kind y = KEmit \<and>
      f_channel_id y = f_channel_id f \<and> f_src_seq y = f_src_seq f"
    then show "y = timeless f" using uniq by blast
  qed (use in_st(2) in simp)
  assume cb: "(callback, f_ordinal f) \<in> set (d_effects st)"
  have "distinct (map f_ordinal (filter is_emit ?fs))"
  proof -
    have "inj_on f_ordinal (set ?fs)" using ordinal_at [OF ok(1) small] by (metis inj_onI)
    moreover have "distinct ?fs"
      unfolding distinct_conv_nth
    proof (intro allI impI notI)
      fix i j assume ij: "i < length ?fs" "j < length ?fs" "i \<noteq> j" "?fs ! i = ?fs ! j"
      then have "f_ordinal (?fs ! i) = word_of_nat i" "f_ordinal (?fs ! j) = word_of_nat j"
        using frame_at(1) [OF ok(1)] by blast+
      with ij small u64_of_nat_eq [of i j] show False by simp
    qed
    ultimately show ?thesis by (simp add: distinct_map inj_on_subset)
  qed
  then have dist: "distinct (map snd (d_effects st))" using mirror by (simp add: frames_mirror_def)
  show "find (\<lambda>(_, n). n = f_ordinal (timeless f)) (d_effects st) = Some (callback, f_ordinal f)"
  proof (rule find_unique [OF cb])
    fix y assume y: "y \<in> set (d_effects st)" "case y of (_, n) \<Rightarrow> n = f_ordinal (timeless f)"
    from y(2) have "snd y = snd (callback, f_ordinal f)" by (simp split: prod.splits)
    moreover have "inj_on snd (set (d_effects st))" using dist by (simp add: distinct_map)
    ultimately show "y = (callback, f_ordinal f)" using y(1) cb by (metis inj_onD)
  qed simp
qed

lemma issuer_authorized:
  assumes a: "find (\<lambda>g. frame_kind g = KEmit \<and> f_channel_id g = rr_channel_id r \<and> f_src_seq g = rr_src_seq r)
      (d_frames st) = Some i"
    and b: "find (\<lambda>(_, n). n = f_ordinal i) (d_effects st) = Some (callback, k)"
  shows "callback \<in> set (authorized_callbacks st f (Some r))"
  unfolding authorized_callbacks_def option.case a
  by (simp only: b option.case prod.case set_append Un_iff list.set insert_iff simp_thms)

lemma own_authorized: "f_ordinal f \<in> set (authorized_callbacks st f req)"
  unfolding authorized_callbacks_def by (simp only: set_append Un_iff list.set insert_iff simp_thms)

lemma clock_authorized:
  assumes "f_event_type f = EvClock" and "get_range 10 18 (f_body f) = Some (to_le callback)"
  shows "callback \<in> set (authorized_callbacks st f req)"
  unfolding authorized_callbacks_def
  by (simp only: assms if_True option.case from_to_le set_append Un_iff list.set insert_iff simp_thms)

lemma response_resolves:
  assumes mirror: "frames_mirror fx st" and rc: "recorder_ok sess (fx_recorder fx)"
    and recording: "recording = rc_frames (fx_recorder fx) @ f # rest" "length recording < 2 ^ 64"
    and f: "f_ordinal f = word_of_nat (length (rc_frames (fx_recorder fx)))" "names_request (f_event_type f)"
    and body: "get_range 0 8 (f_body f) = Some (to_le n)"
    and request: "request_frame (rc_frames (fx_recorder fx)) ty ch n seq"
  shows "\<exists>r. request_ref_of recording f = Inr (Some r) \<and> rr_src_actor r = COMPONENT_ACTOR_ID \<and>
    rr_channel_id r = ch \<and> rr_src_seq r = seq \<and> unanswered recording (d_frames st) f r = None \<and>
    (\<forall>callback. (callback, n) \<in> set (d_effects st) \<longrightarrow> callback \<in> set (authorized_callbacks st f (Some r)))"
proof -
  let ?fs = "rc_frames (fx_recorder fx)"
  have ok: "ok_prefix ?fs" "component_emits ?fs" using rc by (simp_all add: recorder_ok_def)
  have small: "length ?fs < 2 ^ 64" using recording by simp
  obtain g where g: "g \<in> set ?fs" "is_emit g" and n: "f_ordinal g = n" and "f_channel_id g = ch" "f_src_seq g = seq"
    using request by (auto simp: request_frame_def)
  note at = ordinal_at [OF ok(1) small g(1), unfolded n]
  have src: "f_src_actor g = COMPONENT_ACTOR_ID" using ok(2) g by (simp add: component_emits_def)
  have rec_at: "get_at recording (unat n) = Some g" "recording ! unat n = g"
    using at recording(1) by (simp_all add: get_at_def nth_append)
  have "n < f_ordinal f"
    using at(1) small by (simp add: f(1) word_less_nat_alt unat_of_nat take_bit_eq_mod)
  define r where "r = \<lparr>rr_ordinal = n, rr_src_actor = COMPONENT_ACTOR_ID, rr_dst_actor = f_dst_actor g,
    rr_channel_id = ch, rr_src_seq = seq\<rparr>"
  then have r: "rr_src_actor r = COMPONENT_ACTOR_ID" "rr_channel_id r = ch" "rr_src_seq r = seq" "rr_ordinal r = n"
    by simp_all
  have ref: "request_ref_of recording f = Inr (Some r)"
    using f(2) body rec_at(1) n g(2) src \<open>n < f_ordinal f\<close> \<open>f_channel_id g = ch\<close> \<open>f_src_seq g = seq\<close>
    by (simp add: request_ref_of_def is_emit_def Let_def r_def)
  have on: "rr_channel_id r = f_channel_id g" "rr_src_seq r = f_src_seq g"
    using r \<open>f_channel_id g = ch\<close> \<open>f_src_seq g = seq\<close> by simp_all
  note issued = request_issued [OF mirror rc small g on, unfolded n]
  have "unanswered recording (d_frames st) f r = None"
    using rec_at(2) by (simp add: unanswered_def Let_def issued(1) r(4))
  moreover have "callback \<in> set (authorized_callbacks st f (Some r))" if "(callback, n) \<in> set (d_effects st)" for callback
    by (rule issuer_authorized [OF issued(2,3)]) (rule that)
  ultimately show ?thesis using ref r by blast
qed

text \<open>The input of an action as the driver sees it: its request, and who may answer it.\<close>

definition may_answer :: "fixture \<Rightarrow> 's driver \<Rightarrow> event_type \<Rightarrow> u64 \<Rightarrow> bool" where
  "may_answer fx st ty callback \<longleftrightarrow>
     ty \<in> {EvGoalResponse, EvResult} \<and>
       (\<exists>n seq gid. fx_last_goal fx = Some (n, seq, gid) \<and> (callback, n) \<in> set (d_effects st)) \<or>
     ty = EvCancelResponse \<and>
       (\<exists>n seq gid. fx_last_cancel fx = Some (n, seq, gid) \<and> (callback, n) \<in> set (d_effects st))"

definition wire_request :: "request_ref option \<Rightarrow> (u32 \<times> u64) option" where
  "wire_request req =
     (case req of None \<Rightarrow> None
      | Some r \<Rightarrow> if rr_src_actor r = COMPONENT_ACTOR_ID then Some (rr_channel_id r, rr_src_seq r) else None)"

lemma leading_ordinal: "get_range 0 8 (to_le (n :: u64) @ bs) = Some (to_le n)"
  by (simp add: get_range_def subslice_def)

lemma input_request:
  assumes inp: "script_input fx a = Inr (src, ch, ty, body)"
    and mirror: "frames_mirror fx st" and rc: "recorder_ok sess (fx_recorder fx)"
    and recording: "recording = rc_frames (fx_recorder fx) @ f # rest" "length recording < 2 ^ 64"
    and f: "f = next_frame (fx_recorder fx) src COMPONENT_ACTOR_ID ch (plain_header ty 0) body"
  shows "\<exists>req. request_ref_of recording f = Inr req \<and> wire_request req = script_request fx ty \<and>
    (case req of None \<Rightarrow> None | Some r \<Rightarrow> unanswered recording (d_frames st) f r) = None \<and>
    (\<forall>callback. may_answer fx st ty callback \<longrightarrow> callback \<in> set (authorized_callbacks st f req))"
proof -
  have fields: "f_ordinal f = word_of_nat (length (rc_frames (fx_recorder fx)))" "f_event_type f = ty" "f_body f = body"
    by (simp_all add: f)
  have reqs: "last_requests_ok fx" using mirror by (simp add: frames_mirror_def)
  note resolve = response_resolves [OF mirror rc recording fields(1), unfolded fields]
  have plain: ?thesis if "\<not> names_request ty" "ty \<notin> {EvGoalResponse, EvResult, EvCancelResponse}"
    using that by (intro exI [of _ None])
      (cases ty; simp add: request_ref_of_def fields wire_request_def may_answer_def names_request_def)
  have response: ?thesis
    if ty: "names_request ty" and n: "get_range 0 8 body = Some (to_le n)"
      and req: "request_frame (rc_frames (fx_recorder fx)) gty gch n seq"
      and script: "script_request fx ty = Some (gch, seq)"
      and may: "\<And>callback. may_answer fx st ty callback \<Longrightarrow> (callback, n) \<in> set (d_effects st)"
    for n gty gch seq
  proof -
    from resolve [OF ty n req] obtain r where r: "request_ref_of recording f = Inr (Some r)"
      "rr_src_actor r = COMPONENT_ACTOR_ID" "rr_channel_id r = gch" "rr_src_seq r = seq"
      "unanswered recording (d_frames st) f r = None"
      "\<forall>callback. (callback, n) \<in> set (d_effects st) \<longrightarrow> callback \<in> set (authorized_callbacks st f (Some r))"
      by blast
    then show ?thesis using may by (intro exI [of _ "Some r"]) (simp add: wire_request_def script)
  qed
  show ?thesis
  proof (cases a)
    case (ActGoalResponse accepted stamp)
    with inp obtain n seq gid where g: "fx_last_goal fx = Some (n, seq, gid)" and ty: "ty = EvGoalResponse"
      and body: "body = encode_goal_response \<lparr>gr_goal_send_ordinal = n, gr_goal_id = gid,
          gr_accepted = accepted, gr_stamp_ns = stamp\<rparr>"
      by (auto split: option.splits)
    have "request_frame (rc_frames (fx_recorder fx)) EvGoalSend CH_ACTION_GOAL n seq"
      using reqs g unfolding last_requests_ok_def by blast
    from response [OF _ _ this] show ?thesis
      by (simp add: ty names_request_def body encode_goal_response_def leading_ordinal g may_answer_def)
  next
    case (ActResult stat)
    with inp obtain n seq gid where g: "fx_last_goal fx = Some (n, seq, gid)" and ty: "ty = EvResult"
      and body: "body = encode_goal_result \<lparr>rs_goal_send_ordinal = n, rs_goal_id = gid, rs_status = stat,
          rs_result = ascii ''done''\<rparr>"
      by (auto split: option.splits)
    have "request_frame (rc_frames (fx_recorder fx)) EvGoalSend CH_ACTION_GOAL n seq"
      using reqs g unfolding last_requests_ok_def by blast
    from response [OF _ _ this] show ?thesis
      by (simp add: ty names_request_def body encode_goal_result_def leading_ordinal g may_answer_def)
  next
    case (ActCancelResponse code)
    with inp obtain n seq gid where g: "fx_last_cancel fx = Some (n, seq, gid)" and ty: "ty = EvCancelResponse"
      and body: "encode_cancel_response \<lparr>cr_cancel_send_ordinal = n, cr_return_code = code, cr_goals = [gid]\<rparr> = Inr body"
      by (auto split: option.splits sum.splits)
    have "request_frame (rc_frames (fx_recorder fx)) EvCancelSend CH_ACTION_CANCEL n seq"
      using reqs g unfolding last_requests_ok_def by blast
    from response [OF _ _ this] body show ?thesis
      by (auto simp: ty names_request_def encode_cancel_response_def leading_ordinal g may_answer_def)
  next
    case (ActCommand goal)
    with inp have "ty = EvMessage" by simp
    then show ?thesis by (intro plain) (simp_all add: names_request_def)
  next
    case (ActClock reading)
    with inp have "ty = EvClock" by (auto split: option.splits if_splits)
    then show ?thesis by (intro plain) (simp_all add: names_request_def)
  qed (use inp in simp)
qed


subsection \<open>One scripted input\<close>

lemma deliver_emits:
  "\<forall>f\<in>set effs. is_emit f \<Longrightarrow> deliver react recording (effs @ rest) st = deliver react recording rest st"
proof (induction effs)
  case (Cons f effs)
  then have "frame_kind f = KEmit" by (simp add: is_emit_def)
  moreover have "f_event_type f \<noteq> EvSession \<and> f_event_type f \<noteq> EvEnd \<and> f_event_type f \<noteq> EvGap"
    using \<open>frame_kind f = KEmit\<close> by (auto simp: frame_kind_def)
  ultimately show ?case using Cons by simp
qed simp

lemma open_request_mono:
  assumes "open_request fx effs s" and "effs \<subseteq> effs'"
    and "fx_last_goal fx' = fx_last_goal fx" "fx_last_cancel fx' = fx_last_cancel fx"
  shows "open_request fx' effs' s"
  using assms by (cases s) auto

text \<open>After a step the component waits, if at all, on the last request the step's callback sent.\<close>

lemma step_open_request:
  assumes "client_step h c inp out c'" and "open_request fx effs (c_state c)" and "effs \<subseteq> effs'"
    and "oc_callback out = Some callback \<or> oc_effects out = []"
    and "asks_goal fx fx' callback effs' (oc_effects out)" "asks_cancel fx fx' callback effs' (oc_effects out)"
  shows "open_request fx' effs' (c_state c')"
  using assms
proof (induction rule: client_step.induct)
  case (stay out inp c)
  then show ?case by (auto simp: asks_goal_def asks_cancel_def intro: open_request_mono)
next
  case (settle c inp cb progress words nxt c1 report)
  then have "fx_last_goal fx' = fx_last_goal fx" "fx_last_cancel fx' = fx_last_cancel fx"
    by (auto simp: asks_goal_def asks_cancel_def issue_fields)
  moreover have "x \<in> effs \<Longrightarrow> x \<in> effs'" for x using settle by blast
  ultimately show ?case using settle by (auto elim!: settles.cases)
qed (auto simp: asks_goal_def asks_cancel_def issue_fields)

lemma clock_callback_bytes:
  "decode_clock body = Inr clock \<Longrightarrow> get_range 10 18 body = Some (to_le (ck_callback_ordinal clock))"
  using clock_codec.enc_dec [of body clock] by (auto simp: encode_clock_def get_range_def subslice_def)

lemma authorized_same:
  "d_frames st' = d_frames st \<Longrightarrow> d_effects st' = d_effects st \<Longrightarrow>
     authorized_callbacks st' f req = authorized_callbacks st f req"
  by (simp add: authorized_callbacks_def cong: option.case_cong)

text \<open>The driver in step with the recorder.\<close>

definition session_frames :: "fixture \<Rightarrow> nat" where
  "session_frames fx = seq_count (rc_frames (fx_recorder fx)) (SESSION_ACTOR_ID, SESSION_CHANNEL_ID)"

definition in_step :: "(component \<Rightarrow> u64 \<Rightarrow> 's) \<Rightarrow> fixture \<Rightarrow> 's driver \<Rightarrow> bool" where
  "in_step running fx st \<longleftrightarrow>
     d_adapter st = running (fx_component fx) (word_of_nat (length (d_effects st))) \<and> d_queue st = [] \<and>
     d_session_sequence st = word_of_nat (session_frames fx) \<and> frames_mirror fx st \<and>
     open_request fx (set (d_effects st)) (c_state (fx_component fx))"

lemma record_inputE:
  assumes "record_input h a fx = Inr fx'"
  obtains src ch ty body c' out where "script_input fx a = Inr (src, ch, ty, body)"
    and "step h (fx_component fx)
      \<lparr>in_ordinal = word_of_nat (length (rc_frames (fx_recorder fx))), in_src_actor = src,
       in_dst_actor = COMPONENT_ACTOR_ID, in_channel_id = ch, in_event_type = ty, in_body = body,
       in_request = script_request fx ty\<rparr> = Some (c', out)"
    and "fst (status_of (oc_consumed out)) = StatusOk"
    and "record_effects (fx\<lparr>fx_recorder := recorder_push (fx_recorder fx) src COMPONENT_ACTOR_ID ch
      (plain_header ty 0) body, fx_component := c'\<rparr>) (oc_effects out) = Inr fx'"
  using assms
  by (auto simp: record_input_def Let_def split: sum.splits option.splits prod.splits consumed.splits)

lemma mirror_push_input:
  assumes "frames_mirror fx st" and "src \<noteq> COMPONENT_ACTOR_ID" and "event_kind ty \<noteq> KEmit"
  shows "frames_mirror (fx\<lparr>fx_recorder := recorder_push (fx_recorder fx) src COMPONENT_ACTOR_ID ch (plain_header ty 0) body,
        fx_component := c\<rparr>)
      (st\<lparr>d_adapter := s, d_queue := q, d_frames := push_frame (d_frames st)
        (next_frame (fx_recorder fx) src COMPONENT_ACTOR_ID ch (plain_header ty 0) body)\<rparr>)"
proof -
  have "length (d_frames st) = length (rc_frames (fx_recorder fx))" using assms(1) by (simp add: frames_mirror_def)
  then show ?thesis
    using assms
    by (auto simp: frames_mirror_def push_frame_def timeless_def next_frame_def sequence_key_def is_emit_def
        frame_kind_def last_requests_ok_def intro: request_frame_append)
qed

lemma step_lines_authorized:
  assumes step: "client_step h (fx_component fx) inp out c'"
    and inp: "in_ordinal inp = f_ordinal f" "in_event_type inp = f_event_type f" "in_body inp = f_body f"
    and opened: "open_request fx (set (d_effects st)) (c_state (fx_component fx))"
    and may: "\<forall>callback. may_answer fx st (f_event_type f) callback \<longrightarrow> callback \<in> set (authorized_callbacks st f req)"
  shows "\<exists>callback. callback \<in> set (authorized_callbacks st f req) \<and>
    step_lines n c out = map (effect_line n callback) (oc_effects out) @
      map (ProgressLine n callback) (oc_progress out) @
      [Stepped n (fst (status_of (oc_consumed out))) (snd (status_of (oc_consumed out))) (map pending_of (waits c))] \<and>
    (oc_callback out = Some callback \<or> oc_effects out = [])"
proof (cases "oc_effects out \<noteq> [] \<or> oc_progress out \<noteq> []")
  case False
  then show ?thesis
    by (intro exI [of _ "f_ordinal f"]) (simp add: own_authorized step_lines_def Let_def split: prod.splits)
next
  case True
  from step_callback [OF step True] obtain callback where cb: "oc_callback out = Some callback"
    and why: "(\<exists>clock. matching_clock inp clock callback) \<or>
     (\<exists>progress words nxt. settles (c_state (fx_component fx)) inp callback progress words nxt)" by blast
  have "callback \<in> set (authorized_callbacks st f req)"
    using why
  proof
    assume "\<exists>clock. matching_clock inp clock callback"
    then have "f_event_type f = EvClock" "get_range 10 18 (f_body f) = Some (to_le callback)"
      using clock_callback_bytes [of "f_body f"] by (auto simp: matching_clock_def inp)
    then show ?thesis by (rule clock_authorized)
  next
    assume "\<exists>progress words nxt. settles (c_state (fx_component fx)) inp callback progress words nxt"
    then have "may_answer fx st (f_event_type f) callback"
      using opened by (auto simp: may_answer_def response_input_def inp elim!: settles.cases)
    then show ?thesis using may by blast
  qed
  then show ?thesis by (intro exI [of _ callback]) (simp add: cb step_lines_def Let_def split: prod.splits)
qed

lemma component_input_wire:
  "component_input (wire_of_frame f) req =
     Inr \<lparr>in_ordinal = f_ordinal f, in_src_actor = f_src_actor f, in_dst_actor = f_dst_actor f,
       in_channel_id = f_channel_id f, in_event_type = f_event_type f, in_body = f_body f,
       in_request = wire_request req\<rparr>"
  by (simp add: component_input_def wire_of_frame_def wire_request_def)

lemma accept_consumed:
  assumes "fst (status_of answer) = StatusOk" and "f_src_actor f \<noteq> SESSION_ACTOR_ID"
  shows "\<exists>steps. accept_stepped f ro (f_ordinal f) (fst (status_of answer)) (snd (status_of answer)) ps st =
    Inr (st\<lparr>d_pending := ps, d_steps := steps\<rparr>, None)"
  using assms by (cases st) (simp add: accept_stepped_def)

lemma in_step_reading:
  assumes "frames_mirror fx st" and "d_adapter st = running (fx_component fx) (word_of_nat (length (d_effects st)))"
    and "d_session_sequence st = word_of_nat (session_frames fx)" and "open_request fx (set (d_effects st)) (c_state (fx_component fx))"
  shows "in_step running fx (st\<lparr>d_progress := progress, d_queue := [], d_pending := ps, d_steps := steps\<rparr>)"
  using assms by (simp add: in_step_def frames_mirror_def)

lemma script_source: "script_input fx a = Inr (src, ch, ty, body) \<Longrightarrow> src \<noteq> SESSION_ACTOR_ID"
  by (cases a) (auto simp: ACTOR_COMMAND_def ACTOR_CLOCK_def ACTOR_ACTION_SERVER_def SESSION_ACTOR_ID_def
      split: option.splits if_splits sum.splits)

lemma record_effects_frames:
  assumes "record_effects fx es = Inr fx'" and "\<forall>e\<in>set es. sound_effect e"
  shows "\<exists>effs. rc_frames (fx_recorder fx') = rc_frames (fx_recorder fx) @ effs \<and> (\<forall>f\<in>set effs. is_emit f)"
  using assms
proof (induction es arbitrary: fx)
  case (Cons e es)
  from Cons.IH [OF record_effects_Cons(1) [OF Cons.prems(1)]] Cons.prems(2) obtain effs where
    "rc_frames (fx_recorder fx') = rc_frames (fx_recorder (note_effect fx e)) @ effs" "\<forall>f\<in>set effs. is_emit f"
    by auto
  then show ?case
    using sound_emit(1) [of e] Cons.prems(2) by (intro exI [of _ "effect_frame (fx_recorder fx) e # effs"]) simp
qed simp

lemma deliver_input_received:
  assumes "request_ref_of recording f = Inr req"
    and "(case req of None \<Rightarrow> None | Some r \<Rightarrow> unanswered recording (d_frames st) f r) = None"
    and "send_request react (StepRequest (wire_of_frame f) req) st = st'"
    and "receive_lines f (authorized_callbacks st' f req) ro ls st1 = x"
    and "ro = word_of_nat (length (d_frames st'))" "ls = d_queue st'"
    and "st1 = st'\<lparr>d_frames := push_frame (d_frames st') f\<rparr>"
  shows "deliver_input react recording f st = x"
  using assms unfolding deliver_input_def by (simp only: sum.case option.case Let_def)

context component_adapter
begin

lemma deliver_action:
  assumes rec: "record_input h a fx = Inr fx'" and st: "in_step running fx st" and ok: "fixture_ok sess fx"
    and small: "small_command a"
    and recording: "recording = rc_frames (fx_recorder fx') @ rest" "length recording < 2 ^ 64"
  shows "\<exists>blk st'. rc_frames (fx_recorder fx') = rc_frames (fx_recorder fx) @ blk \<and> in_step running fx' st' \<and>
    (\<forall>later. deliver react recording (blk @ later) st = deliver react recording later st')"
proof -
  have mirror: "frames_mirror fx st" and rc: "recorder_ok sess (fx_recorder fx)"
    and opened: "open_request fx (set (d_effects st)) (c_state (fx_component fx))"
    and adapter: "d_adapter st = running (fx_component fx) (word_of_nat (length (d_effects st)))"
    and queue: "d_queue st = []" and sess: "d_session_sequence st = word_of_nat (session_frames fx)"
    using st ok by (simp_all add: in_step_def fixture_ok_def)
  from rec obtain src ch ty body c' out where inp: "script_input fx a = Inr (src, ch, ty, body)"
    and step: "step h (fx_component fx)
      \<lparr>in_ordinal = word_of_nat (length (rc_frames (fx_recorder fx))), in_src_actor = src,
       in_dst_actor = COMPONENT_ACTOR_ID, in_channel_id = ch, in_event_type = ty, in_body = body,
       in_request = script_request fx ty\<rparr> = Some (c', out)"
    and consumed: "fst (status_of (oc_consumed out)) = StatusOk"
    and effs: "record_effects (fx\<lparr>fx_recorder := recorder_push (fx_recorder fx) src COMPONENT_ACTOR_ID ch
      (plain_header ty 0) body, fx_component := c'\<rparr>) (oc_effects out) = Inr fx'"
    by (rule record_inputE)
  define f where "f = next_frame (fx_recorder fx) src COMPONENT_ACTOR_ID ch (plain_header ty 0) body"
  define fx1 where "fx1 = fx\<lparr>fx_recorder := recorder_push (fx_recorder fx) src COMPONENT_ACTOR_ID ch
      (plain_header ty 0) body, fx_component := c'\<rparr>"
  have fields: "f_ordinal f = word_of_nat (length (rc_frames (fx_recorder fx)))" "f_src_actor f = src"
    "f_dst_actor f = COMPONENT_ACTOR_ID" "f_channel_id f = ch" "f_event_type f = ty" "f_body f = body"
    by (simp_all add: f_def)
  have push: "pushable src (plain_header ty 0) body" "length body < 2 ^ 32 - 22" "src \<noteq> COMPONENT_ACTOR_ID"
    using script_input_pushable [OF inp small] by blast+
  then have kind: "event_kind ty \<noteq> KEmit" and plain: "ty \<noteq> EvSession" "ty \<noteq> EvEnd" "ty \<noteq> EvGap"
    by (auto simp: pushable_def)
  have rc1: "recorder_ok sess (fx_recorder fx1)"
    using recorder_push_input [OF rc push(1,3)] by (simp add: fx1_def)
  define i where "i = \<lparr>in_ordinal = f_ordinal f, in_src_actor = f_src_actor f, in_dst_actor = f_dst_actor f,
       in_channel_id = f_channel_id f, in_event_type = f_event_type f, in_body = f_body f,
       in_request = script_request fx ty\<rparr>"
  have step': "step h (fx_component fx) i = Some (c', out)" using step by (simp only: i_def fields)
  note cs = stepE [OF step']
  have sound: "\<forall>e\<in>set (oc_effects out). sound_effect e \<and> on_channel e"
    using step_sound(2) [OF cs] step_on_channel [OF cs] push(2) ok by (simp add: i_def fields fixture_ok_def)
  note effs' = effs [folded fx1_def]
  from record_effects_frames [OF effs'] sound obtain es where
    es: "rc_frames (fx_recorder fx') = rc_frames (fx_recorder fx1) @ es" "\<forall>g\<in>set es. is_emit g" by blast
  have frames: "rc_frames (fx_recorder fx') = rc_frames (fx_recorder fx) @ f # es"
    by (simp add: es(1) fx1_def f_def)
  then have "recording = rc_frames (fx_recorder fx) @ f # (es @ rest)" using recording(1) by simp
  from input_request [OF inp mirror rc this recording(2) f_def] obtain req where
    req: "request_ref_of recording f = Inr req" "wire_request req = script_request fx ty"
      "(case req of None \<Rightarrow> None | Some r \<Rightarrow> unanswered recording (d_frames st) f r) = None"
    and may: "\<forall>callback. may_answer fx st ty callback \<longrightarrow> callback \<in> set (authorized_callbacks st f req)" by blast
  from step_lines_authorized [OF cs _ _ _ opened, of f req "f_ordinal f" c'] may obtain callback where
    auth: "callback \<in> set (authorized_callbacks st f req)"
    and lines: "step_lines (f_ordinal f) c' out = map (effect_line (f_ordinal f) callback) (oc_effects out) @
      map (ProgressLine (f_ordinal f) callback) (oc_progress out) @
      [Stepped (f_ordinal f) (fst (status_of (oc_consumed out))) (snd (status_of (oc_consumed out)))
        (map pending_of (waits c'))]"
    and cb: "oc_callback out = Some callback \<or> oc_effects out = []"
    by (auto simp: i_def fields)
  define s' where "s' = running c' (word_of_nat (length (d_effects st)) + word_of_nat (length (oc_effects out)))"
  have "component_input (wire_of_frame f) req = Inr i"
    by (simp add: component_input_wire i_def req(2))
  then have reacts: "react (d_adapter st) (StepRequest (wire_of_frame f) req) =
      (s', step_lines (f_ordinal f) c' out)"
    using steps [OF _ step'] by (simp add: adapter s'_def i_def)
  define st1 where "st1 = st\<lparr>d_adapter := s', d_queue := step_lines (f_ordinal f) c' out,
      d_frames := push_frame (d_frames st) f\<rparr>"
  define ro where "ro = (word_of_nat (length (d_frames st)) :: u64)"
  define closing where "closing = [Stepped (f_ordinal f) (fst (status_of (oc_consumed out)))
      (snd (status_of (oc_consumed out))) (map pending_of (waits c'))]"
  have mirror1: "frames_mirror fx1 st1"
    unfolding st1_def fx1_def f_def by (rule mirror_push_input [OF mirror push(3) kind])
  from receive_effect_lines [OF effs' mirror1 rc1 sound auth,
      where recorded = f and ro = ro and ls = "map (ProgressLine (f_ordinal f) callback) (oc_progress out) @ closing"]
  obtain st2 where st2: "receive_lines f (authorized_callbacks st f req) ro (step_lines (f_ordinal f) c' out) st1 =
      receive_lines f (authorized_callbacks st f req) ro
        (map (ProgressLine (f_ordinal f) callback) (oc_progress out) @ closing) st2"
    "same_run st1 st2" "frames_mirror fx' st2" "set (d_effects st1) \<subseteq> set (d_effects st2)"
    "length (d_effects st2) = length (d_effects st1) + length (oc_effects out)"
    "asks_goal fx1 fx' callback (set (d_effects st2)) (oc_effects out)"
    "asks_cancel fx1 fx' callback (set (d_effects st2)) (oc_effects out)" "fx_component fx' = fx_component fx1"
    by (auto simp: lines closing_def)
  from receive_progress_lines [OF auth, of f ro "oc_progress out" closing st2] obtain progress where
    "receive_lines f (authorized_callbacks st f req) ro (step_lines (f_ordinal f) c' out) st1 =
      receive_lines f (authorized_callbacks st f req) ro closing (st2\<lparr>d_progress := progress\<rparr>)"
    using st2(1) by auto
  moreover from accept_consumed [OF consumed, of f ro "map pending_of (waits c')"
      "st2\<lparr>d_progress := progress, d_queue := []\<rparr>"] script_source [OF inp] obtain reports where
    "accept_stepped f ro (f_ordinal f) (fst (status_of (oc_consumed out))) (snd (status_of (oc_consumed out)))
       (map pending_of (waits c')) (st2\<lparr>d_progress := progress, d_queue := []\<rparr>) =
     Inr (st2\<lparr>d_progress := progress, d_queue := [], d_pending := map pending_of (waits c'),
       d_steps := reports\<rparr>, None)" by (auto simp: fields)
  ultimately have received: "receive_lines f (authorized_callbacks st f req) ro
      (step_lines (f_ordinal f) c' out) st1 =
     Inr (st2\<lparr>d_progress := progress, d_queue := [], d_pending := map pending_of (waits c'),
       d_steps := reports\<rparr>, None)" by (simp add: closing_def)
  define st3 where "st3 = st2\<lparr>d_progress := progress, d_queue := [], d_pending := map pending_of (waits c'),
       d_steps := reports\<rparr>"
  have sent: "send_request react (StepRequest (wire_of_frame f) req) st =
      st\<lparr>d_adapter := s', d_queue := step_lines (f_ordinal f) c' out\<rparr>"
    by (simp add: send_request_def reacts queue)
  have "deliver_input react recording f st = Inr (st3, None)"
  proof (rule deliver_input_received [OF req(1,3) sent])
    have same: "authorized_callbacks (st\<lparr>d_adapter := s', d_queue := q\<rparr>) f req = authorized_callbacks st f req" for q
      by (rule authorized_same) simp_all
    show "receive_lines f (authorized_callbacks (st\<lparr>d_adapter := s', d_queue := step_lines (f_ordinal f) c' out\<rparr>) f req)
        ro (step_lines (f_ordinal f) c' out) st1 = Inr (st3, None)"
      unfolding same received st3_def ..
  qed (simp_all add: ro_def st1_def)
  then have "deliver react recording (f # later) st = deliver react recording later st3" for later
    using plain kind by (simp add: fields frame_kind_def)
  then have "deliver react recording ((f # es) @ later) st = deliver react recording later st3" for later
    using deliver_emits [OF es(2)] by simp
  moreover have "in_step running fx' st3"
    unfolding st3_def
  proof (rule in_step_reading [OF st2(3)])
    show "d_adapter st2 = running (fx_component fx') (word_of_nat (length (d_effects st2)))"
      using st2(2,5,8) by (simp add: same_run_def st1_def fx1_def s'_def)
    have "fixture_ok sess fx'" by (rule record_input_ok [OF rec ok small])
    then have "component_emits es" by (simp add: fixture_ok_def recorder_ok_def component_emits_def frames)
    from seq_count_emits [OF this es(2) session_not_component] script_source [OF inp]
    have "session_frames fx' = session_frames fx"
      by (simp add: session_frames_def frames sequence_key_def fields)
    then show "d_session_sequence st2 = word_of_nat (session_frames fx')"
      using st2(2) sess by (simp add: same_run_def st1_def)
    have within: "set (d_effects st) \<subseteq> set (d_effects st2)" using st2(4) by (simp add: st1_def)
    have old: "fx_last_goal fx1 = fx_last_goal fx" "fx_last_cancel fx1 = fx_last_cancel fx" "fx_component fx1 = c'"
      by (simp_all add: fx1_def)
    have "asks_goal fx fx' callback (set (d_effects st2)) (oc_effects out)"
      "asks_cancel fx fx' callback (set (d_effects st2)) (oc_effects out)"
      using st2(6,7) unfolding asks_goal_def asks_cancel_def old .
    then have "open_request fx' (set (d_effects st2)) (c_state c')"
      by (rule step_open_request [OF cs opened within cb])
    then show "open_request fx' (set (d_effects st2)) (c_state (fx_component fx'))" by (simp add: st2(8) old(3))
  qed
  ultimately show ?thesis using frames by blast
qed

end

subsection \<open>The whole script\<close>

lemma record_effects_extends:
  "record_effects fx es = Inr fx' \<Longrightarrow> \<exists>more. rc_frames (fx_recorder fx') = rc_frames (fx_recorder fx) @ more"
proof (induction es arbitrary: fx)
  case (Cons e es)
  from Cons.IH [OF record_effects_Cons(1) [OF Cons.prems]] show ?case by auto
qed simp

lemma record_input_extends:
  assumes "record_input h a fx = Inr fx'"
  shows "\<exists>more. rc_frames (fx_recorder fx') = rc_frames (fx_recorder fx) @ more"
  using assms by (rule record_inputE) (drule record_effects_extends, auto)

lemma record_actions_Cons:
  "a \<noteq> ActGap \<Longrightarrow> record_actions h (a # as) fx =
     (case record_input h a fx of Inl e \<Rightarrow> Inl e | Inr fx' \<Rightarrow> record_actions h as fx')"
  by (cases a) simp_all

lemma record_actions_extends:
  "record_actions h as fx = Inr fx' \<Longrightarrow> \<exists>more. rc_frames (fx_recorder fx') = rc_frames (fx_recorder fx) @ more"
proof (induction as arbitrary: fx)
  case (Cons a as)
  show ?case
  proof (cases "a = ActGap")
    case True
    with Cons.prems show ?thesis by (auto split: option.splits)
  next
    case False
    with Cons.prems obtain fx1 :: fixture where fx1: "record_input h a fx = Inr fx1" "record_actions h as fx1 = Inr fx'"
      by (auto simp: record_actions_Cons split: sum.splits)
    from record_input_extends [OF fx1(1)] Cons.IH [OF fx1(2)] show ?thesis by auto
  qed
qed simp

text \<open>Where a script ends: at its end, or at its first recorder gap.\<close>

definition script_stop :: "action list \<Rightarrow> frame list \<Rightarrow> stop option" where
  "script_stop as fs =
     (if ActGap \<in> set as then Some (StopGap (word_of_nat (length fs)) script_gap) else None)"

definition replayed_as :: "'s adapter \<Rightarrow> frame list \<Rightarrow> action list \<Rightarrow> fixture \<Rightarrow> fixture \<Rightarrow>
    frame list \<Rightarrow> 's driver \<Rightarrow> 's driver \<Rightarrow> bool" where
  "replayed_as react recording as fx0 fx' blk st st' \<longleftrightarrow>
     (\<forall>later. deliver react recording (blk @ later) st =
        (case script_stop as (rc_frames (fx_recorder fx0)) of
           None \<Rightarrow> deliver react recording later st'
         | Some stp \<Rightarrow> Inr (st', stp))) \<and>
     (if ActGap \<in> set as
      then \<exists>g. \<not> is_emit g \<and> rc_frames (fx_recorder fx') = rc_frames (fx_recorder fx0) @ [g]
      else fx0 = fx')"

lemma deliver_gap:
  assumes "encode_gap script_gap = Some body" and "f_event_type g = EvGap" "f_body g = body"
  shows "deliver react recording (g # later) st = Inr (st, StopGap (f_ordinal g) script_gap)"
proof -
  have "decode_gap (f_ordinal g) body = Inr script_gap"
    using decode_encode_gap [OF assms(1)] by (simp add: script_gap_def U64_MAX_def)
  then show ?thesis using assms by simp
qed

context component_adapter
begin

lemma deliver_actions:
  assumes "record_actions h as fx = Inr fx'" and "in_step running fx st" and "fixture_ok sess fx"
    and "\<forall>a\<in>set as. small_command a"
    and "recording = rc_frames (fx_recorder fx') @ rest" and "length recording < 2 ^ 64"
  shows "\<exists>fx0 blk st'. rc_frames (fx_recorder fx') = rc_frames (fx_recorder fx) @ blk \<and>
    in_step running fx0 st' \<and> replayed_as react recording as fx0 fx' blk st st'"
  using assms(1-4)
proof (induction as arbitrary: fx st)
  case Nil
  then show ?case by (intro exI [of _ fx] exI [of _ "[]"] exI [of _ st]) (simp add: replayed_as_def script_stop_def)
next
  case (Cons a as)
  show ?case
  proof (cases "a = ActGap")
    case True
    with Cons.prems(1) obtain body where body: "encode_gap script_gap = Some body"
      and fx': "fx' = fx\<lparr>fx_recorder := recorder_push (fx_recorder fx) SESSION_ACTOR_ID SESSION_ACTOR_ID
        SESSION_CHANNEL_ID (plain_header EvGap (gap_flags script_gap)) body\<rparr>"
      by (auto split: option.splits)
    define g where "g = next_frame (fx_recorder fx) SESSION_ACTOR_ID SESSION_ACTOR_ID SESSION_CHANNEL_ID
      (plain_header EvGap (gap_flags script_gap)) body"
    have g: "f_event_type g = EvGap" "f_body g = body" "\<not> is_emit g"
      "f_ordinal g = word_of_nat (length (rc_frames (fx_recorder fx)))"
      by (simp_all add: g_def is_emit_def frame_kind_def)
    have "deliver react recording ([g] @ later) st =
        Inr (st, StopGap (word_of_nat (length (rc_frames (fx_recorder fx)))) script_gap)" for later
      unfolding append.simps deliver_gap [OF body g(1,2)] g(4) ..
    with g(3) have "replayed_as react recording (a # as) fx fx' [g] st st"
      by (simp add: replayed_as_def script_stop_def True fx' g_def)
    then show ?thesis using Cons.prems(2) by (intro exI [of _ fx] exI [of _ "[g]"] exI [of _ st]) (simp add: fx' g_def)
  next
    case False
    with Cons.prems(1) obtain fx1 :: fixture where
      fx1: "record_input h a fx = Inr fx1" "record_actions h as fx1 = Inr fx'"
      by (auto simp: record_actions_Cons split: sum.splits)
    have small: "small_command a" "\<forall>a\<in>set as. small_command a" using Cons.prems(4) by simp_all
    from record_actions_extends [OF fx1(2)] obtain rest' where
      "rc_frames (fx_recorder fx') = rc_frames (fx_recorder fx1) @ rest'" by blast
    then have "recording = rc_frames (fx_recorder fx1) @ (rest' @ rest)" using assms(5) by simp
    from deliver_action [OF fx1(1) Cons.prems(2,3) small(1) this assms(6)] obtain blk st1 where
      blk: "rc_frames (fx_recorder fx1) = rc_frames (fx_recorder fx) @ blk" and st1: "in_step running fx1 st1"
      and del: "\<forall>later. deliver react recording (blk @ later) st = deliver react recording later st1" by blast
    from Cons.IH [OF fx1(2) st1 record_input_ok [OF fx1(1) Cons.prems(3) small(1)] small(2)] obtain fx0 blk' st' where
      IH: "rc_frames (fx_recorder fx') = rc_frames (fx_recorder fx1) @ blk'" "in_step running fx0 st'"
        "replayed_as react recording as fx0 fx' blk' st1 st'" by blast
    have "script_stop (a # as) fs = script_stop as fs" for fs using False by (simp add: script_stop_def)
    then have "replayed_as react recording (a # as) fx0 fx' (blk @ blk') st st'"
      using IH(3) del False by (auto simp: replayed_as_def)
    then show ?thesis using IH(1,2) blk by (intro exI [of _ fx0] exI [of _ "blk @ blk'"] exI [of _ st']) simp
  qed
qed

end

subsection \<open>The whole recording\<close>

lemma in_step_start:
  "in_step running \<lparr>fx_recorder = recorder_start h name, fx_component = new_component v, fx_last_goal = None,
      fx_last_cancel = None\<rparr>
    \<lparr>d_adapter = running (new_component v) 0, d_queue = [], d_frames = map timeless (start_frames h name),
     d_steps = steps, d_effects = [], d_progress = [], d_pending = ps, d_session_sequence = 2,
     d_effect_sequences = Map.empty\<rparr>"
proof -
  have no_emit: "filter is_emit (start_frames h name) = []"
    by (auto simp: start_frames_def is_emit_def frame_kind_def)
  have "seq_count (start_frames h name) (COMPONENT_ACTOR_ID, ch) = 0" for ch
    using session_not_component by (simp add: start_frames_def sequence_key_def)
  moreover have "seq_count (start_frames h name) (SESSION_ACTOR_ID, SESSION_CHANNEL_ID) = 2"
    by (simp add: start_frames_def sequence_key_def)
  ultimately show ?thesis
    by (simp add: in_step_def frames_mirror_def session_frames_def recorder_start_frames no_emit next_seq_def
        last_requests_ok_def new_component_def)
qed

lemma push_frame_timeless:
  "f_ordinal f = word_of_nat (length fs) \<Longrightarrow> push_frame fs f = fs @ [timeless f]"
  by (cases f) (simp add: push_frame_def timeless_def)

lemma deliver_session:
  "f_event_type f = EvSession \<Longrightarrow> deliver react recording (f # later) st = deliver react recording later
     (st\<lparr>d_frames := push_frame (d_frames st) f, d_session_sequence := f_src_seq f + 1\<rparr>)"
  by simp

lemma deliver_delivered:
  assumes "deliver_input react recording f st = Inr (st', None)"
    and "f_event_type f \<notin> {EvSession, EvEnd, EvGap}" and "\<not> is_emit f"
  shows "deliver react recording (f # later) st = deliver react recording later st'"
  using assms by (simp add: is_emit_def)

lemma step_starting_state:
  assumes "in_dst_actor i = COMPONENT_ACTOR_ID" and "in_event_type i = EvStartingState"
  shows "step h c i = Some (c, default_outcome\<lparr>oc_consumed := Some Yes\<rparr>)"
  using assms by (simp add: step_def)

lemma filter_timeless: "filter is_emit (map timeless fs) = map timeless (filter is_emit fs)"
  by (simp add: filter_map comp_def)

lemma end_frame_timeless:
  assumes "recorder_ok sess (fx_recorder fx)"
  shows "timeless (next_frame (fx_recorder fx) SESSION_ACTOR_ID SESSION_ACTOR_ID SESSION_CHANNEL_ID
      (plain_header EvEnd 0) (encode_end \<lparr>en_uuid = uuid, en_frame_count = word_of_nat (length (rc_frames (fx_recorder fx)))\<rparr>)) =
    end_frame uuid (word_of_nat (length (rc_frames (fx_recorder fx)))) (word_of_nat (session_frames fx))"
  using assms
  by (simp add: recorder_ok_def next_frame_def timeless_def end_frame_def plain_header_def session_frames_def)

context component_adapter
begin

lemma deliver_start:
  "\<exists>reports ps. \<forall>later. deliver react recording (start_frames h name @ later)
      \<lparr>d_adapter = running (new_component v) 0, d_queue = [], d_frames = [], d_steps = [], d_effects = [],
       d_progress = [], d_pending = [], d_session_sequence = 0, d_effect_sequences = Map.empty\<rparr> =
    deliver react recording later
      \<lparr>d_adapter = running (new_component v) 0, d_queue = [], d_frames = map timeless (start_frames h name),
       d_steps = reports, d_effects = [], d_progress = [], d_pending = ps, d_session_sequence = 2,
       d_effect_sequences = Map.empty\<rparr>"
proof -
  define f where "f = start_frames h name ! 1"
  define s where "s = start_frames h name ! 0"
  have frames: "start_frames h name = [s, f]" by (simp add: start_frames_def f_def s_def)
  have f: "f_event_type f = EvStartingState" "f_dst_actor f = COMPONENT_ACTOR_ID" "f_ordinal f = 1"
    "f_src_actor f = SESSION_ACTOR_ID" "f_channel_id f = SESSION_CHANNEL_ID" "f_src_seq f = 1"
    and s: "f_event_type s = EvSession" "f_ordinal s = 0" "f_src_seq s = 0"
    by (simp_all add: f_def s_def start_frames_def)
  define st1 where "st1 = \<lparr>d_adapter = running (new_component v) 0, d_queue = [], d_frames = [timeless s],
       d_steps = [], d_effects = [], d_progress = [], d_pending = [], d_session_sequence = 1,
       d_effect_sequences = Map.empty\<rparr>"
  define st0 where "st0 = \<lparr>d_adapter = running (new_component v) 0, d_queue = [], d_frames = [], d_steps = [],
       d_effects = [], d_progress = [], d_pending = [], d_session_sequence = 0, d_effect_sequences = Map.empty\<rparr>"
  have st1: "st0\<lparr>d_frames := push_frame (d_frames st0) s, d_session_sequence := f_src_seq s + 1\<rparr> = st1"
    by (simp add: st0_def st1_def push_frame_timeless s)
  define i where "i = \<lparr>in_ordinal = f_ordinal f, in_src_actor = f_src_actor f, in_dst_actor = f_dst_actor f,
       in_channel_id = f_channel_id f, in_event_type = f_event_type f, in_body = f_body f,
       in_request = wire_request None\<rparr>"
  have "step h (new_component v) i = Some (new_component v, default_outcome\<lparr>oc_consumed := Some Yes\<rparr>)"
    by (rule step_starting_state) (simp_all add: i_def f)
  then have reacts: "react (running (new_component v) 0) (StepRequest (wire_of_frame f) None) =
      (running (new_component v) 0, [Stepped 1 StatusOk None (map pending_of (waits (new_component v)))])"
    using steps [of "wire_of_frame f" None i]
    by (simp add: component_input_wire i_def f step_lines_def default_outcome_def)
  define st2 where "st2 = st1\<lparr>d_queue := [Stepped 1 StatusOk None (map pending_of (waits (new_component v)))]\<rparr>"
  define st3 where "st3 = st2\<lparr>d_frames := push_frame (d_frames st2) f\<rparr>"
  define st4 where "st4 = \<lparr>d_adapter = running (new_component v) 0, d_queue = [],
    d_frames = map timeless (start_frames h name),
    d_steps = [\<lparr>dl_recorded_ordinal = 1, dl_replayed_ordinal = Some 1, dl_status = StatusOk, dl_reason = None\<rparr>],
    d_effects = [], d_progress = [], d_pending = map pending_of (waits (new_component v)), d_session_sequence = 2,
    d_effect_sequences = Map.empty\<rparr>"
  have st3: "st3 = st4\<lparr>d_queue := d_queue st2, d_steps := [], d_pending := [], d_session_sequence := 1\<rparr>"
    using push_frame_timeless [of f "[timeless s]"]
    by (simp add: st3_def st2_def st1_def st4_def frames f)
  have "deliver_input react recording f st1 = Inr (st4, None)"
  proof (rule deliver_input_received)
    show "request_ref_of recording f = Inr None" by (simp add: request_ref_of_def names_request_def f)
    show "send_request react (StepRequest (wire_of_frame f) None) st1 = st2"
      by (simp add: send_request_def st1_def st2_def reacts)
    show "receive_lines f (authorized_callbacks st2 f None) 1 (d_queue st2) st3 = Inr (st4, None)"
      unfolding st3 by (simp add: st2_def accept_stepped_def f) (simp add: st4_def)
  qed (simp_all add: st3_def st2_def st1_def)
  then have "deliver react recording (f # later) st1 = deliver react recording later st4" for later
    by (rule deliver_delivered) (simp_all add: f is_emit_def frame_kind_def)
  then have "deliver react recording (start_frames h name @ later) st0 = deliver react recording later st4" for later
    by (simp only: frames append.simps deliver_session [OF s(1)] st1)
  then show ?thesis unfolding st0_def st4_def by blast
qed

lemma start_component:
  "start_adapter h react initial corpus name = Inr
     \<lparr>d_adapter = running (new_component v) 0, d_queue = [], d_frames = [], d_steps = [], d_effects = [],
      d_progress = [], d_pending = [], d_session_sequence = 0, d_effect_sequences = Map.empty\<rparr>"
proof -
  from starts [of corpus name] obtain i eps chs where
    "react initial (Start PROTOCOL_VERSION corpus name (requested_state h)) =
      (running (new_component v) 0, [Started PROTOCOL_VERSION i eps chs (requested_state h)])" by blast
  then show ?thesis by (simp add: start_adapter_def send_request_def receive_def Let_def)
qed

lemma finish_component:
  assumes "in_step running fx st"
  shows "\<exists>ps. finish_adapter react reason st = Inr ps"
proof -
  from finishes [of "fx_component fx" "word_of_nat (length (d_effects st))" reason] obtain s' where
    "react (d_adapter st) (Finish reason) =
      (s', [Finished reason (map pending_of (waits (fx_component fx))) (word_of_nat (length (d_effects st)))])"
    using assms by (auto simp: in_step_def)
  then show ?thesis using assms by (simp add: in_step_def finish_adapter_def send_request_def receive_def)
qed

lemma reproduces:
  assumes rec: "record_scenario h v sc = Inr rg" and small: "\<forall>a\<in>set (sn_actions sc). small_command a"
    and len: "length (rg_frames rg) < 2 ^ 64"
  shows "\<exists>r. replay_recording h react initial (rg_frames rg) corpus name = Inr r \<and>
    filter is_emit (r_frames r) = map timeless (filter is_emit (rg_frames rg)) \<and>
    (if ActGap \<in> set (sn_actions sc) then \<exists>n. r_stop r = StopGap n script_gap
     else r_stop r = StopExhausted \<and> r_frames r = map timeless (rg_frames rg))"
proof -
  let ?acts = "sn_actions sc" and ?n = "sn_name sc"
  define fx1 where "fx1 = \<lparr>fx_recorder = recorder_start h ?n, fx_component = new_component v,
      fx_last_goal = None, fx_last_cancel = None\<rparr>"
  from record_scenario_Inr [OF rec small] obtain fx :: fixture where
    run: "record_actions h ?acts fx1 = Inr fx" and rc: "recorder_ok (script_session h ?n) (fx_recorder fx)"
    and frames: "rg_frames rg = rc_frames (fx_recorder fx) @ [next_frame (fx_recorder fx) SESSION_ACTOR_ID
      SESSION_ACTOR_ID SESSION_CHANNEL_ID (plain_header EvEnd 0)
      (encode_end \<lparr>en_uuid = session_uuid h ?n,
         en_frame_count = word_of_nat (length (rc_frames (fx_recorder fx)))\<rparr>)]"
    unfolding fx1_def by blast
  define e where "e = next_frame (fx_recorder fx) SESSION_ACTOR_ID
      SESSION_ACTOR_ID SESSION_CHANNEL_ID (plain_header EvEnd 0)
      (encode_end \<lparr>en_uuid = session_uuid h ?n,
         en_frame_count = word_of_nat (length (rc_frames (fx_recorder fx)))\<rparr>)"
  have recording: "rg_frames rg = rc_frames (fx_recorder fx) @ [e]" by (simp add: frames e_def)
  let ?R = "rg_frames rg"
  obtain st0 reports ps where st0: "start_adapter h react initial corpus name = Inr st0"
    and started: "\<forall>later. deliver react ?R (start_frames h ?n @ later) st0 = deliver react ?R later
      \<lparr>d_adapter = running (new_component v) 0, d_queue = [], d_frames = map timeless (start_frames h ?n),
       d_steps = reports, d_effects = [], d_progress = [], d_pending = ps, d_session_sequence = 2,
       d_effect_sequences = Map.empty\<rparr>"
    using start_component deliver_start [of ?R ?n] by blast
  have "in_step running fx1 \<lparr>d_adapter = running (new_component v) 0, d_queue = [],
      d_frames = map timeless (start_frames h ?n), d_steps = reports, d_effects = [], d_progress = [],
      d_pending = ps, d_session_sequence = 2, d_effect_sequences = Map.empty\<rparr>"
    unfolding fx1_def by (rule in_step_start)
  with started obtain st1 where st1: "in_step running fx1 st1"
    and from_start: "\<forall>later. deliver react ?R (start_frames h ?n @ later) st0 = deliver react ?R later st1" by blast
  have "fixture_ok (script_session h ?n) fx1"
    by (simp add: fx1_def fixture_ok_def recorder_start_ok small_goal_def new_component_def)
  from deliver_actions [OF run st1 this small recording len] obtain fx0 blk st' where
    blk: "rc_frames (fx_recorder fx) = start_frames h ?n @ blk" and st': "in_step running fx0 st'"
    and replayed: "replayed_as react ?R ?acts fx0 fx blk st1 st'"
    by (auto simp: fx1_def recorder_start_frames)
  define stp where "stp = (case script_stop ?acts (rc_frames (fx_recorder fx0)) of
      None \<Rightarrow> StopExhausted | Some x \<Rightarrow> x)"
  have "?R = start_frames h ?n @ blk @ [e]" by (simp add: recording blk)
  then have "deliver react ?R ?R st0 = deliver react ?R (blk @ [e]) st1" using from_start by metis
  moreover have "f_event_type e = EvEnd" by (simp add: e_def)
  ultimately have delivered: "deliver react ?R ?R st0 = Inr (st', stp)"
    using replayed by (simp add: replayed_as_def stp_def split: option.splits)
  obtain qs where finished: "finish_adapter react (finish_reason_of stp) st' = Inr qs"
    using finish_component [OF st'] by blast
  define r where "r = \<lparr>r_frames = d_frames st' @ [end_frame (session_uuid h ?n) (word_of_nat (length (d_frames st')))
        (d_session_sequence st')], r_steps = d_steps st', r_effects = d_effects st', r_progress = d_progress st',
      r_pending_after_last_step = d_pending st', r_pending_at_finish = qs, r_stop = stp,
      r_finish_reason = finish_reason_of stp\<rparr>"
  obtain s rest where R: "?R = s # rest" and "decode_session (f_body s) = Inr (script_session h ?n)"
    by (simp add: recording blk start_frames_def decode_encode_session)
  then have "replay_recording h react initial ?R corpus name = Inr r"
    using st0 delivered finished
    by (simp add: replay_recording_def r_def script_session_def)
  moreover have mirror: "d_frames st' = map timeless (rc_frames (fx_recorder fx0))"
    and sequence: "d_session_sequence st' = word_of_nat (session_frames fx0)"
    using st' by (simp_all add: in_step_def frames_mirror_def)
  have no_emit: "\<not> is_emit e" "\<not> is_emit (end_frame i n q)" for i n q
    by (simp_all add: e_def end_frame_def is_emit_def frame_kind_def)
  have "filter is_emit (rc_frames (fx_recorder fx)) = filter is_emit (rc_frames (fx_recorder fx0))"
    using replayed by (auto simp: replayed_as_def split: if_splits)
  then have "filter is_emit (r_frames r) = map timeless (filter is_emit ?R)"
    by (simp add: r_def recording no_emit mirror filter_timeless)
  moreover have "\<exists>n. r_stop r = StopGap n script_gap" if "ActGap \<in> set ?acts"
    using that by (simp add: r_def stp_def script_stop_def)
  moreover have "r_stop r = StopExhausted \<and> r_frames r = map timeless ?R" if "ActGap \<notin> set ?acts"
  proof -
    have "fx0 = fx" using that replayed by (simp add: replayed_as_def)
    then show ?thesis
      using that end_frame_timeless [OF rc, of "session_uuid h ?n"]
      by (simp add: r_def stp_def script_stop_def mirror sequence recording e_def)
  qed
  ultimately show ?thesis by auto
qed

end

section \<open>Property\<close>

lemma effect_key_timeless [simp]: "effect_key (timeless f) = effect_key f"
  by (simp add: effect_key_def timeless_def)

text \<open>
  C1. A recording of a variant, replayed through the reference adapter around the same variant, is
  reproduced: the replay succeeds and the effects agree; without a recorder gap it consumes the whole
  recording, rebuilds every frame of it but the observed times, and the run hashes agree; at a gap it
  stops there.
\<close>

theorem same_variant_reproduces:
  assumes "record_scenario h v sc = Inr rg" and "\<forall>a\<in>set (sn_actions sc). small_command a"
    and "length (rg_frames rg) < 2 ^ 64"
  shows "\<exists>r. replay_recording h (reference_adapter h v) (Serving None 0) (rg_frames rg) corpus name = Inr r \<and>
    effects_agree (compare h kh bs (rg_frames rg) r) \<and>
    (if ActGap \<in> set (sn_actions sc) then \<exists>n. r_stop r = StopGap n script_gap
     else r_stop r = StopExhausted \<and> r_frames r = map timeless (rg_frames rg) \<and>
       run_agrees (compare h kh bs (rg_frames rg) r))"
proof -
  from reference.reproduces [OF assms] obtain r where
    run: "replay_recording h (reference_adapter h v) (Serving None 0) (rg_frames rg) corpus name = Inr r"
    and emits: "filter is_emit (r_frames r) = map timeless (filter is_emit (rg_frames rg))"
    and stop: "if ActGap \<in> set (sn_actions sc) then \<exists>n. r_stop r = StopGap n script_gap
     else r_stop r = StopExhausted \<and> r_frames r = map timeless (rg_frames rg)" by blast
  have "effects_agree (compare h kh bs (rg_frames rg) r)"
    by (simp add: effects_agree_def compare_def emits compare_effects_None comp_def Let_def)
  moreover have "run_agrees (compare h kh bs (rg_frames rg) r)" if "r_frames r = map timeless (rg_frames rg)"
    by (simp add: run_agrees_def compare_def that hash_frames_timeless Let_def)
  ultimately show ?thesis using run stop by (intro exI [of _ r]) simp
qed

theorem same_variant_reproduces_witness:
  "\<exists>rg r. record_scenario demo_hash VFixed demo_scenario = Inr rg \<and> length (filter is_emit (rg_frames rg)) = 2 \<and>
     replay_recording demo_hash (reference_adapter demo_hash VFixed) (Serving None 0) (rg_frames rg) [] [] = Inr r \<and>
     r_frames r = map timeless (rg_frames rg)"
proof -
  obtain rg where rg: "record_scenario demo_hash VFixed demo_scenario = Inr rg" "length (rg_captured rg) = 2"
    "length (rg_frames rg) = 8" using demo_records by blast
  have "length (rg_frames rg) < 2 ^ 64" by (simp add: rg(3))
  from same_variant_reproduces [OF rg(1) demo_small this, of "[]" "[]" "\<lambda>_ _. 0" "[]"]
  have "\<exists>r. replay_recording demo_hash (reference_adapter demo_hash VFixed) (Serving None 0) (rg_frames rg) [] [] = Inr r \<and>
      r_frames r = map timeless (rg_frames rg)" by (auto simp: demo_scenario_def)
  moreover from record_scenario_Inr [OF rg(1) demo_small] rg(2) have "length (filter is_emit (rg_frames rg)) = 2"
    by (auto simp: recorder_ok_def is_emit_def frame_kind_def)
  ultimately show ?thesis using rg(1) by blast
qed

end
