(* ===== verification/Ordered_Map.thy ===== *)
theory Ordered_Map
  imports Rook_Prelude "HOL-Library.List_Lexorder" "HOL-Library.Char_ord"
begin

text \<open>
  What rook-verify's maps and text parsing use of the standard library: \<open>BTreeMap\<close> as a list of
  entries in key order (strings in byte order), \<open>str::parse\<close> for unsigned and signed integers,
  \<open>strip_prefix\<close>, \<open>split_once\<close>, \<open>split\<close> and \<open>trim\<close>.  The texts are ASCII.
\<close>

subsection \<open>Ordered maps\<close>

type_synonym ('k, 'v) btree = "('k \<times> 'v) list"

fun bt_insert :: "'k::linorder \<Rightarrow> 'v \<Rightarrow> ('k, 'v) btree \<Rightarrow> ('k, 'v) btree" where
  "bt_insert k v [] = [(k, v)]"
| "bt_insert k v ((k', v') # m) =
     (if k < k' then (k, v) # (k', v') # m
      else if k = k' then (k, v) # m
      else (k', v') # bt_insert k v m)"

definition bt_ok :: "('k::linorder, 'v) btree \<Rightarrow> bool" where
  "bt_ok m \<longleftrightarrow> sorted_wrt (<) (map fst m)"

lemma bt_ok_Nil [simp]: "bt_ok []"
  by (simp add: bt_ok_def)

lemma bt_insert_keys [simp]: "fst ` set (bt_insert k v m) = insert k (fst ` set m)"
proof (induction m)
  case (Cons e m)
  then show ?case by (cases e) (simp add: insert_commute)
qed simp

lemma bt_ok_Cons: "bt_ok (e # m) \<longleftrightarrow> (\<forall>x\<in>fst ` set m. fst e < x) \<and> bt_ok m"
  by (simp add: bt_ok_def)

lemma bt_ok_insert [simp]: "bt_ok m \<Longrightarrow> bt_ok (bt_insert k v m)"
proof (induction m)
  case (Cons e m)
  obtain k' v' where e: "e = (k', v')" by force
  from Cons have m: "bt_ok m" "\<forall>x\<in>fst ` set m. k' < x" by (auto simp: e bt_ok_Cons)
  show ?case using Cons.IH [OF m(1)] m by (auto simp: e bt_ok_Cons simp del: image_iff)
qed (simp add: bt_ok_def)

lemma bt_insert_get [simp]: "bt_ok m \<Longrightarrow> map_of (bt_insert k v m) = (map_of m)(k \<mapsto> v)"
proof (induction m)
  case (Cons e m)
  then show ?case by (cases e) (simp add: bt_ok_Cons fun_eq_iff)
qed simp

lemma bt_ok_distinct: "bt_ok m \<Longrightarrow> distinct (map fst m)"
  by (simp add: bt_ok_def strict_sorted_iff)

lemma bt_get_iff: "bt_ok m \<Longrightarrow> map_of m k = Some v \<longleftrightarrow> (k, v) \<in> set m"
  by (rule map_of_eq_Some_iff [OF bt_ok_distinct])

lemma bt_insert_set: "bt_ok m \<Longrightarrow> k \<notin> fst ` set m \<Longrightarrow> set (bt_insert k v m) = insert (k, v) (set m)"
proof (induction m)
  case (Cons e m)
  then show ?case by (cases e) (simp add: bt_ok_Cons insert_commute)
qed simp

text \<open>Two ordered maps with the same entries are the same list.\<close>

lemma bt_eqI:
  assumes "bt_ok m" and "bt_ok m'" and "map_of m = map_of m'"
  shows "m = m'"
proof -
  have "e \<in> set m \<longleftrightarrow> e \<in> set m'" for e
    using assms by (cases e) (simp flip: bt_get_iff)
  then have set: "set m = set m'" by blast
  have "sorted (map fst m)" "sorted (map fst m')" "distinct (map fst m)" "distinct (map fst m')"
    using assms(1,2) by (simp_all add: bt_ok_def strict_sorted_iff)
  moreover have "inj_on fst (set m)" using bt_ok_distinct [OF assms(1)] by (simp add: distinct_map)
  ultimately show ?thesis using set
    by (intro map_sorted_distinct_set_unique [of fst]) (auto simp: distinct_map)
qed

subsection \<open>Parsing numbers\<close>

definition digit_value :: "char \<Rightarrow> nat option" where
  "digit_value c = (let n = of_char c in if 48 \<le> n \<and> n \<le> 57 then Some (n - 48) else None)"

fun digits_value :: "nat \<Rightarrow> string \<Rightarrow> nat option" where
  "digits_value acc [] = Some acc"
| "digits_value acc (c # cs) =
     (case digit_value c of None \<Rightarrow> None | Some d \<Rightarrow> digits_value (10 * acc + d) cs)"

definition parse_digits :: "string \<Rightarrow> nat option" where
  "parse_digits s = (if s = [] then None else digits_value 0 s)"

text \<open>\<open>u32::from_str\<close>: an optional plus sign, at least one digit, no overflow.\<close>

definition parse_u32 :: "string \<Rightarrow> u32 option" where
  "parse_u32 s =
     (case parse_digits (case s of c # cs \<Rightarrow> if c = CHR ''+'' then cs else s | [] \<Rightarrow> s) of
        None \<Rightarrow> None
      | Some n \<Rightarrow> if n < 2 ^ 32 then Some (word_of_nat n) else None)"

text \<open>\<open>i64::from_str\<close>: an optional sign.\<close>

definition parse_i64 :: "string \<Rightarrow> int option" where
  "parse_i64 s =
     (case s of
        [] \<Rightarrow> None
      | c # cs \<Rightarrow>
          if c = CHR ''-'' then
            (case parse_digits cs of
               None \<Rightarrow> None | Some n \<Rightarrow> if n \<le> 2 ^ 63 then Some (- int n) else None)
          else (case parse_digits (if c = CHR ''+'' then cs else s) of
               None \<Rightarrow> None | Some n \<Rightarrow> if n < 2 ^ 63 then Some (int n) else None))"

subsection \<open>Slicing text\<close>

fun strip_prefix :: "string \<Rightarrow> string \<Rightarrow> string option" where
  "strip_prefix [] s = Some s"
| "strip_prefix (p # ps) [] = None"
| "strip_prefix (p # ps) (c # cs) = (if p = c then strip_prefix ps cs else None)"

lemma strip_prefix_Some: "strip_prefix p s = Some r \<longleftrightarrow> s = p @ r"
  by (induction p s rule: strip_prefix.induct) auto

text \<open>\<open>split\<close> on one character: the pieces between the separators, at least one.\<close>

fun split_on :: "char \<Rightarrow> string \<Rightarrow> string list" where
  "split_on sep [] = [[]]"
| "split_on sep (c # cs) =
     (if c = sep then [] # split_on sep cs
      else case split_on sep cs of [] \<Rightarrow> [[c]] | p # ps \<Rightarrow> (c # p) # ps)"

definition split_once :: "char \<Rightarrow> string \<Rightarrow> (string \<times> string) option" where
  "split_once sep s =
     (let p = takeWhile (\<lambda>c. c \<noteq> sep) s in
      if length p < length s then Some (p, drop (Suc (length p)) s) else None)"

definition is_space :: "char \<Rightarrow> bool" where
  "is_space c \<longleftrightarrow> of_char c \<in> {9, 10, 11, 12, 13, 32 :: nat}"

definition trim_text :: "string \<Rightarrow> string" where
  "trim_text s = rev (dropWhile is_space (rev (dropWhile is_space s)))"

fun join_on :: "char \<Rightarrow> string list \<Rightarrow> string" where
  "join_on sep [] = []"
| "join_on sep [p] = p"
| "join_on sep (p # q # ps) = p @ sep # join_on sep (q # ps)"

lemma split_on_not_Nil [simp]: "split_on sep s \<noteq> []"
  by (induction s) (auto split: list.splits)

lemma split_on_append:
  assumes "sep \<notin> set p"
  shows "split_on sep (p @ sep # s) = p # split_on sep s" and "split_on sep p = [p]"
  using assms by (induction p) auto

lemma split_join:
  assumes "ps \<noteq> []" and "\<forall>p\<in>set ps. sep \<notin> set p"
  shows "split_on sep (join_on sep ps) = ps"
  using assms
proof (induction ps rule: induct_list012)
  case (3 p q ps)
  then show ?case by (simp add: split_on_append)
qed (simp_all add: split_on_append)

lemma split_once_append:
  assumes "sep \<notin> set k"
  shows "split_once sep (k @ sep # v) = Some (k, v)"
proof -
  have "takeWhile (\<lambda>c. c \<noteq> sep) (k @ sep # v) = k" using assms by (induction k) auto
  then show ?thesis by (simp add: split_once_def)
qed

end
