(* ===== verification/Goal_Normalization.thy ===== *)
theory Goal_Normalization
  imports Driver Ordered_Map
begin

text \<open>
  crates/rook-verify/src/normalization.rs: goal identities of a replay are put in correspondence with
  the recorded ones by order of issuance, per client.  Effects are translated to recorded identities
  before they are compared; recorded responses are translated to the replay's before they are
  delivered.  The two source hashes are build constants of the crates and parameters here.
\<close>

type_synonym identity_map = "(string, string) btree"

definition POLICY :: string where "POLICY = ''goal-ids-by-issuance@1''"

datatype goals_error =
    MissingEntry string
  | InvalidContract string string
  | IdentityDrift string
  | BadChannelNumber string
  | AmbiguousClient string
  | ClientsMissing
  | MissingClient u32
  | MissingGoalIdentity
  | ZeroIssued u64
  | DuplicateRecorded u64
  | DuplicateReplayed u64 \<comment> \<open>an execution mismatch\<close>
  | CancelUnknown \<comment> \<open>an execution mismatch\<close>
  | NotAnIssuance
  | IssuanceMissing
  | StaleResponse u64
  | ResponseGoalDiffers
  | NotACancel
  | DuplicateCancelled
  | UnknownCancelled
  | CancelledGoalDiffers
  | BadCancelBody body_error

definition entry :: "identity_map \<Rightarrow> string \<Rightarrow> goals_error + string" where
  "entry m key = (case map_of m key of None \<Rightarrow> Inl (MissingEntry key) | Some v \<Rightarrow> Inr v)"

record goal_pair =
  gp_recorded :: id16
  gp_replayed :: id16
  gp_client :: string

record goals =
  gl_enabled :: bool
  gl_clients :: "u32 \<Rightarrow> string option"
  gl_issuances :: "string \<Rightarrow> (u64 \<times> id16) list"
  gl_counts :: "string \<Rightarrow> nat"
  gl_pairs :: "(u64, goal_pair) btree"
  gl_seen :: "(string \<times> id16) set"

definition id_at :: "bytes \<Rightarrow> nat \<Rightarrow> goals_error + id16" where
  "id_at bs offset =
     (case get_range offset (offset + 16) bs of
        None \<Rightarrow> Inl MissingGoalIdentity | Some b \<Rightarrow> Inr (from_le b))"

definition goals_client :: "goals \<Rightarrow> frame \<Rightarrow> goals_error + string" where
  "goals_client g f =
     (if gl_enabled g then
        (case gl_clients g (f_channel_id f) of
           None \<Rightarrow> Inl (MissingClient (f_channel_id f)) | Some c \<Rightarrow> Inr c)
      else Inr (''actor-'' @ show_word (f_src_actor f)))"

text \<open>The clients of the manifest: its entries named normalization.client.<channel>.\<close>

fun goals_clients ::
  "identity_map \<Rightarrow> (u32 \<Rightarrow> string option) \<Rightarrow> goals_error + (u32 \<Rightarrow> string option)" where
  "goals_clients [] clients = Inr clients"
| "goals_clients ((key, value) # m) clients =
     (case strip_prefix ''normalization.client.'' key of
        None \<Rightarrow> goals_clients m clients
      | Some ch \<Rightarrow>
          (case parse_u32 ch of
             None \<Rightarrow> Inl (BadChannelNumber ch)
           | Some n \<Rightarrow>
               if clients n \<noteq> None then Inl (AmbiguousClient ch)
               else goals_clients m (clients(n \<mapsto> value))))"

text \<open>The recorded issuances, in order.\<close>

fun goals_issuances ::
  "frame list \<Rightarrow> (string \<times> id16) set \<Rightarrow> goals \<Rightarrow> goals_error + goals" where
  "goals_issuances [] seen g = Inr g"
| "goals_issuances (f # fs) seen g =
     (if f_event_type f \<noteq> EvGoalSend then goals_issuances fs seen g
      else case goals_client g f of
        Inl e \<Rightarrow> Inl e
      | Inr c \<Rightarrow>
          (case id_at (f_body f) 0 of
             Inl e \<Rightarrow> Inl e
           | Inr i \<Rightarrow>
               if i = 0 then Inl (ZeroIssued (f_ordinal f))
               else if (c, i) \<in> seen then Inl (DuplicateRecorded (f_ordinal f))
               else goals_issuances fs (insert (c, i) seen)
                 (g\<lparr>gl_issuances := (gl_issuances g)
                     (c := gl_issuances g c @ [(f_ordinal f, i)])\<rparr>)))"

definition goals_new ::
  "string \<Rightarrow> string \<Rightarrow> frame list \<Rightarrow> identity_map \<Rightarrow> string \<Rightarrow> goals_error + goals" where
  "goals_new source_hash reference_hash recording m policy =
     (case entry m ''normalization'' of
        Inl e \<Rightarrow> Inl e
      | Inr normalization \<Rightarrow>
          let enabled = (normalization = POLICY) in
          if \<not> (normalization = ''none@1'' \<and> policy = ''raw-bytes-in-order@1'' \<or>
                enabled \<and> policy = ''goal-ids-in-order@1'')
          then Inl (InvalidContract normalization policy)
          else (case entry m ''normalization_source_blake3'' of
              Inl e \<Rightarrow> Inl e
            | Inr source \<Rightarrow>
                if source \<noteq> (if enabled then source_hash else reference_hash)
                then Inl (IdentityDrift ''normalization_source_blake3'')
                else (case (if enabled then goals_clients m Map.empty else Inr Map.empty) of
                    Inl e \<Rightarrow> Inl e
                  | Inr clients \<Rightarrow>
                      if enabled \<and> \<not> list_ex (\<lambda>(key, _). strip_prefix ''normalization.client.'' key \<noteq> None) m
                      then Inl ClientsMissing
                      else goals_issuances recording {}
                        \<lparr>gl_enabled = enabled, gl_clients = clients, gl_issuances = (\<lambda>_. []),
                         gl_counts = (\<lambda>_. 0), gl_pairs = [], gl_seen = {}\<rparr>)))"

text \<open>\<open>copy_from_slice\<close> of an identity into the 16 bytes at an offset.\<close>

definition put_id :: "nat \<Rightarrow> id16 \<Rightarrow> frame \<Rightarrow> frame" where
  "put_id offset i f =
     f\<lparr>f_body := take offset (f_body f) @ to_le i @ drop (offset + 16) (f_body f)\<rparr>"

definition goals_effect :: "goals \<Rightarrow> frame \<Rightarrow> goals_error + goals \<times> frame" where
  "goals_effect g raw =
     (if f_event_type raw = EvGoalSend then
        (case goals_client g raw of
           Inl e \<Rightarrow> Inl e
         | Inr c \<Rightarrow>
             (case id_at (f_body raw) 0 of
                Inl e \<Rightarrow> Inl e
              | Inr i \<Rightarrow>
                  if i = 0 \<or> (c, i) \<in> gl_seen g then Inl (DuplicateReplayed (f_ordinal raw))
                  else
                    let n = gl_counts g c;
                        g' = g\<lparr>gl_seen := insert (c, i) (gl_seen g),
                               gl_counts := (gl_counts g)(c := n + 1)\<rparr>
                    in case get_at (gl_issuances g c) n of
                         None \<Rightarrow> Inr (g', raw)
                       | Some (ordinal, recorded) \<Rightarrow>
                           Inr (g'\<lparr>gl_pairs := bt_insert ordinal
                                    \<lparr>gp_recorded = recorded, gp_replayed = i, gp_client = c\<rparr>
                                    (gl_pairs g)\<rparr>,
                                if gl_enabled g then put_id 0 recorded raw else raw)))
      else if f_event_type raw = EvCancelSend then
        (case goals_client g raw of
           Inl e \<Rightarrow> Inl e
         | Inr c \<Rightarrow>
             (case id_at (f_body raw) 0 of
                Inl e \<Rightarrow> Inl e
              | Inr i \<Rightarrow>
                  if i = 0 then Inr (g, raw)
                  else (case find (\<lambda>(_, p). gp_client p = c \<and> gp_replayed p = i) (gl_pairs g) of
                      Some (_, p) \<Rightarrow>
                        Inr (g, if gl_enabled g then put_id 0 (gp_recorded p) raw else raw)
                    | None \<Rightarrow>
                        if (c, i) \<notin> gl_seen g then Inl CancelUnknown else Inr (g, raw))))
      else Inr (g, raw))"

text \<open>The goals of a cancel response, translated one by one.\<close>

fun cancelled_goals :: "goals \<Rightarrow> string \<Rightarrow> id16 list \<Rightarrow> id16 set \<Rightarrow> goals_error + id16 list" where
  "cancelled_goals g c [] seen = Inr []"
| "cancelled_goals g c (i # is) seen =
     (if i \<in> seen then Inl DuplicateCancelled
      else case find (\<lambda>(_, p). gp_client p = c \<and> gp_recorded p = i) (gl_pairs g) of
        None \<Rightarrow> Inl UnknownCancelled
      | Some (_, p) \<Rightarrow>
          if \<not> gl_enabled g \<and> gp_recorded p \<noteq> gp_replayed p then Inl CancelledGoalDiffers
          else (case cancelled_goals g c is (insert i seen) of
              Inl e \<Rightarrow> Inl e
            | Inr js \<Rightarrow> Inr ((if gl_enabled g then gp_replayed p else i) # js)))"

definition goals_input :: "goals \<Rightarrow> frame \<Rightarrow> frame \<Rightarrow> goals_error + frame" where
  "goals_input g raw request =
     (if f_event_type raw \<in> {EvGoalResponse, EvFeedback, EvResult} then
        (if f_event_type request \<noteq> EvGoalSend then Inl NotAnIssuance
         else case map_of (gl_pairs g) (f_ordinal request) of
           None \<Rightarrow> Inl IssuanceMissing
         | Some p \<Rightarrow>
             (case id_at (f_body raw) 8 of
                Inl e \<Rightarrow> Inl e
              | Inr i \<Rightarrow>
                  if i \<noteq> gp_recorded p then Inl (StaleResponse (f_ordinal raw))
                  else if gl_enabled g then Inr (put_id 8 (gp_replayed p) raw)
                  else if gp_recorded p \<noteq> gp_replayed p then Inl ResponseGoalDiffers
                  else Inr raw))
      else if f_event_type raw = EvCancelResponse then
        (if f_event_type request \<noteq> EvCancelSend then Inl NotACancel
         else case goals_client g request of
           Inl e \<Rightarrow> Inl e
         | Inr c \<Rightarrow>
             (case decode_cancel_response (f_body raw) of
                Inl e \<Rightarrow> Inl (BadCancelBody e)
              | Inr response \<Rightarrow>
                  (case cancelled_goals g c (cr_goals response) {} of
                     Inl e \<Rightarrow> Inl e
                   | Inr js \<Rightarrow>
                       (case encode_cancel_response (response\<lparr>cr_goals := js\<rparr>) of
                          Inl e \<Rightarrow> Inl (BadCancelBody e)
                        | Inr body \<Rightarrow> Inr (raw\<lparr>f_body := body\<rparr>)))))
      else Inr raw)"

text \<open>The effects of a replay, in the order they are issued.\<close>

fun normalize_effects :: "goals \<Rightarrow> frame list \<Rightarrow> goals_error + goals \<times> frame list" where
  "normalize_effects g [] = Inr (g, [])"
| "normalize_effects g (f # fs) =
     (case goals_effect g f of
        Inl e \<Rightarrow> Inl e
      | Inr (g', n) \<Rightarrow>
          (case normalize_effects g' fs of Inl e \<Rightarrow> Inl e | Inr (g'', ns) \<Rightarrow> Inr (g'', n # ns)))"

section \<open>What the normalization remembers\<close>

text \<open>The identities a list of effects issues for a client, in order.\<close>

definition issue_of :: "goals \<Rightarrow> frame \<Rightarrow> (string \<times> id16) option" where
  "issue_of g f =
     (if f_event_type f = EvGoalSend then
        (case (goals_client g f, id_at (f_body f) 0) of (Inr c, Inr i) \<Rightarrow> Some (c, i) | _ \<Rightarrow> None)
      else None)"

definition issued :: "goals \<Rightarrow> string \<Rightarrow> frame list \<Rightarrow> id16 list" where
  "issued g c fs = map snd (filter (\<lambda>e. fst e = c) (List.map_filter (issue_of g) fs))"

lemma map_filter_snoc: "List.map_filter f (xs @ ys) = List.map_filter f xs @ List.map_filter f ys"
  by (simp add: List.map_filter_def)

lemma issued_simps [simp]:
  "issued g c [] = []"
  "issued g c (fs @ gs) = issued g c fs @ issued g c gs"
  "issued g c (f # fs) =
     (case issue_of g f of None \<Rightarrow> [] | Some (c', i) \<Rightarrow> if c' = c then [i] else []) @ issued g c fs"
  by (auto simp: issued_def map_filter_snoc List.map_filter_def split: option.splits)

text \<open>
  The step written over the history \<open>fs\<close> of raw effects instead of the retained maps: the \<open>k\<close>-th goal
  a client issues corresponds to its \<open>k\<close>-th recorded one.
\<close>

definition position :: "'a list \<Rightarrow> 'a \<Rightarrow> nat option" where
  "position xs x = find (\<lambda>k. xs ! k = x) [0..<length xs]"

definition to_recorded :: "goals \<Rightarrow> string \<Rightarrow> nat \<Rightarrow> frame \<Rightarrow> frame" where
  "to_recorded g c k raw =
     (if gl_enabled g \<and> k < length (gl_issuances g c) then put_id 0 (snd (gl_issuances g c ! k)) raw
      else raw)"

definition spec_effect :: "goals \<Rightarrow> frame list \<Rightarrow> frame \<Rightarrow> goals_error + frame" where
  "spec_effect g fs raw =
     (if f_event_type raw \<noteq> EvGoalSend \<and> f_event_type raw \<noteq> EvCancelSend then Inr raw
      else case goals_client g raw of
        Inl e \<Rightarrow> Inl e
      | Inr c \<Rightarrow>
          (case id_at (f_body raw) 0 of
             Inl e \<Rightarrow> Inl e
           | Inr i \<Rightarrow>
               if f_event_type raw = EvGoalSend then
                 (if i = 0 \<or> i \<in> set (issued g c fs) then Inl (DuplicateReplayed (f_ordinal raw))
                  else Inr (to_recorded g c (length (issued g c fs)) raw))
               else if i = 0 then Inr raw
               else (case position (issued g c fs) i of
                   None \<Rightarrow> Inl CancelUnknown
                 | Some k \<Rightarrow> Inr (to_recorded g c k raw))))"

fun spec_effects :: "goals \<Rightarrow> frame list \<Rightarrow> frame list \<Rightarrow> goals_error + frame list" where
  "spec_effects g fs [] = Inr []"
| "spec_effects g fs (raw # raws) =
     (case spec_effect g fs raw of
        Inl e \<Rightarrow> Inl e
      | Inr n \<Rightarrow> (case spec_effects g (fs @ [raw]) raws of Inl e \<Rightarrow> Inl e | Inr ns \<Rightarrow> Inr (n # ns)))"

definition proper_ids :: "goals \<Rightarrow> bool" where
  "proper_ids g \<longleftrightarrow>
     (\<forall>c. distinct (map snd (gl_issuances g c)) \<and> 0 \<notin> snd ` set (gl_issuances g c))"

definition goals_fresh :: "goals \<Rightarrow> bool" where
  "goals_fresh g \<longleftrightarrow>
     gl_counts g = (\<lambda>_. 0) \<and> gl_pairs g = [] \<and> gl_seen g = {} \<and> proper_ids g \<and>
     (\<forall>c c' k k'. k < length (gl_issuances g c) \<longrightarrow> k' < length (gl_issuances g c') \<longrightarrow>
        fst (gl_issuances g c ! k) = fst (gl_issuances g c' ! k') \<longrightarrow> c = c' \<and> k = k')"

text \<open>The pair of the \<open>k\<close>-th goal of a client.\<close>

definition paired :: "goals \<Rightarrow> frame list \<Rightarrow> u64 \<Rightarrow> goal_pair \<Rightarrow> nat \<Rightarrow> bool" where
  "paired g fs n p k \<longleftrightarrow>
     k < length (issued g (gp_client p) fs) \<and> k < length (gl_issuances g (gp_client p)) \<and>
     gl_issuances g (gp_client p) ! k = (n, gp_recorded p) \<and>
     issued g (gp_client p) fs ! k = gp_replayed p"

definition goals_inv :: "goals \<Rightarrow> frame list \<Rightarrow> goals \<Rightarrow> bool" where
  "goals_inv g0 fs g \<longleftrightarrow>
     gl_enabled g = gl_enabled g0 \<and> gl_clients g = gl_clients g0 \<and> gl_issuances g = gl_issuances g0 \<and>
     gl_counts g = (\<lambda>c. length (issued g0 c fs)) \<and> gl_seen g = {(c, i). i \<in> set (issued g0 c fs)} \<and>
     (\<forall>c. distinct (issued g0 c fs) \<and> 0 \<notin> set (issued g0 c fs)) \<and> bt_ok (gl_pairs g) \<and>
     (\<forall>n p. (n, p) \<in> set (gl_pairs g) \<longleftrightarrow> (\<exists>k. paired g0 fs n p k))"

lemma goals_fresh_inv: "goals_fresh g \<Longrightarrow> goals_inv g [] g"
  by (simp add: goals_fresh_def goals_inv_def paired_def)

lemma goals_client_cong:
  "gl_enabled g = gl_enabled g0 \<Longrightarrow> gl_clients g = gl_clients g0 \<Longrightarrow> goals_client g = goals_client g0"
  by (simp add: goals_client_def fun_eq_iff)

lemma position_Some: "position xs x = Some k \<Longrightarrow> k < length xs \<and> xs ! k = x"
  by (auto simp: position_def find_Some_iff)

lemma position_None: "position xs x = None \<longleftrightarrow> x \<notin> set xs"
  by (auto simp: position_def find_None_iff in_set_conv_nth)

lemma position_nth: "distinct xs \<Longrightarrow> k < length xs \<Longrightarrow> position xs (xs ! k) = Some k"
proof (cases "position xs (xs ! k)")
  case (Some j)
  moreover assume "distinct xs" "k < length xs"
  ultimately show ?thesis using position_Some [OF Some] nth_eq_iff_index_eq [of xs j k] by simp
qed (simp add: position_None)

lemma find_pair_replayed:
  assumes inv: "goals_inv g0 fs g"
  shows "find (\<lambda>(_, p). gp_client p = c \<and> gp_replayed p = i) (gl_pairs g) = Some (n, p) \<Longrightarrow>
      \<exists>k. position (issued g0 c fs) i = Some k \<and> paired g0 fs n p k \<and> gp_client p = c"
    and "find (\<lambda>(_, p). gp_client p = c \<and> gp_replayed p = i) (gl_pairs g) = None \<Longrightarrow>
      position (issued g0 c fs) i = Some k \<Longrightarrow> \<not> k < length (gl_issuances g0 c)"
proof -
  assume "find (\<lambda>(_, p). gp_client p = c \<and> gp_replayed p = i) (gl_pairs g) = Some (n, p)"
  then have "(n, p) \<in> set (gl_pairs g)" "gp_client p = c" "gp_replayed p = i"
    by (auto simp: find_Some_iff dest: nth_mem [of _ "gl_pairs g"])
  moreover from this obtain k where k: "paired g0 fs n p k" using inv by (auto simp: goals_inv_def)
  moreover have "distinct (issued g0 c fs)" using inv by (simp add: goals_inv_def)
  ultimately show "\<exists>k. position (issued g0 c fs) i = Some k \<and> paired g0 fs n p k \<and> gp_client p = c"
    using position_nth [of "issued g0 c fs" k] by (auto simp: paired_def)
next
  assume none: "find (\<lambda>(_, p). gp_client p = c \<and> gp_replayed p = i) (gl_pairs g) = None"
    and pos: "position (issued g0 c fs) i = Some k"
  show "\<not> k < length (gl_issuances g0 c)"
  proof
    assume k: "k < length (gl_issuances g0 c)"
    let ?p = "\<lparr>gp_recorded = snd (gl_issuances g0 c ! k), gp_replayed = i, gp_client = c\<rparr>"
    have "paired g0 fs (fst (gl_issuances g0 c ! k)) ?p k"
      using k position_Some [OF pos] by (simp add: paired_def)
    then have "(fst (gl_issuances g0 c ! k), ?p) \<in> set (gl_pairs g)"
      using inv unfolding goals_inv_def by blast
    moreover have "\<forall>e\<in>set (gl_pairs g). \<not> (case e of (_, p) \<Rightarrow> gp_client p = c \<and> gp_replayed p = i)"
      using none by (auto simp: find_None_iff)
    ultimately show False by (auto dest!: bspec)
  qed
qed


lemma issue_of_send:
  "f_event_type f = EvGoalSend \<Longrightarrow> goals_client g f = Inr c \<Longrightarrow> id_at (f_body f) 0 = Inr i \<Longrightarrow>
     issue_of g f = Some (c, i)"
  by (simp add: issue_of_def)

lemma issue_of_other: "f_event_type f \<noteq> EvGoalSend \<Longrightarrow> issue_of g f = None"
  by (simp add: issue_of_def)

lemma goals_inv_other:
  "goals_inv g0 fs g \<Longrightarrow> issue_of g0 f = None \<Longrightarrow> goals_inv g0 (fs @ [f]) g"
  by (simp add: goals_inv_def paired_def)

text \<open>A new issuance of the client \<open>c\<close>: what it adds to the pairs.\<close>

lemma paired_snoc:
  assumes "issue_of g raw = Some (c, i)"
  shows "paired g (fs @ [raw]) n p k \<longleftrightarrow>
    paired g fs n p k \<or>
    gp_client p = c \<and> k = length (issued g c fs) \<and> k < length (gl_issuances g c) \<and>
      gl_issuances g c ! k = (n, gp_recorded p) \<and> gp_replayed p = i"
  using assms by (auto simp: paired_def nth_append less_Suc_eq)

lemma send_step:
  assumes inv: "goals_inv g0 fs g" and fresh: "goals_fresh g0"
    and raw: "issue_of g0 raw = Some (c, i)" and new: "i \<noteq> 0" "i \<notin> set (issued g0 c fs)"
    and pairs: "case get_at (gl_issuances g0 c) (length (issued g0 c fs)) of
        None \<Rightarrow> ps = gl_pairs g
      | Some (n, r) \<Rightarrow> ps = bt_insert n \<lparr>gp_recorded = r, gp_replayed = i, gp_client = c\<rparr> (gl_pairs g)"
  shows "goals_inv g0 (fs @ [raw]) (g\<lparr>gl_seen := insert (c, i) (gl_seen g),
      gl_counts := (gl_counts g)(c := length (issued g0 c fs) + 1), gl_pairs := ps\<rparr>)"
proof -
  let ?k = "length (issued g0 c fs)"
  have ps: "bt_ok ps \<and> (\<forall>n p. (n, p) \<in> set ps \<longleftrightarrow> (\<exists>k. paired g0 (fs @ [raw]) n p k))"
  proof (cases "?k < length (gl_issuances g0 c)")
    case False
    then have "ps = gl_pairs g" using pairs by (simp add: get_at_def)
    with False inv show ?thesis by (auto simp: goals_inv_def paired_snoc [OF raw])
  next
    case True
    obtain n r where nr: "gl_issuances g0 c ! ?k = (n, r)" by force
    let ?p = "\<lparr>gp_recorded = r, gp_replayed = i, gp_client = c\<rparr>"
    have ps: "ps = bt_insert n ?p (gl_pairs g)" using pairs True nr by (simp add: get_at_def)
    have "n \<notin> fst ` set (gl_pairs g)"
    proof
      assume "n \<in> fst ` set (gl_pairs g)"
      then obtain p k where p: "paired g0 fs n p k" using inv by (auto simp: goals_inv_def)
      then have "fst (gl_issuances g0 (gp_client p) ! k) = fst (gl_issuances g0 c ! ?k)"
        and "k < length (gl_issuances g0 (gp_client p))" using nr by (simp_all add: paired_def)
      then have "gp_client p = c \<and> k = ?k" using fresh True unfolding goals_fresh_def by blast
      with p show False by (simp add: paired_def)
    qed
    moreover have ok: "bt_ok (gl_pairs g)" using inv by (simp add: goals_inv_def)
    ultimately have "set ps = insert (n, ?p) (set (gl_pairs g))" unfolding ps by (simp add: bt_insert_set)
    moreover have "(n', p') = (n, ?p) \<longleftrightarrow> gp_client p' = c \<and> gl_issuances g0 c ! ?k = (n', gp_recorded p') \<and>
        gp_replayed p' = i" for n' p'
      using nr by (cases p') auto
    ultimately show ?thesis
      using inv True ok by (auto simp: goals_inv_def paired_snoc [OF raw] ps)
  qed
  then show ?thesis
    using inv raw new by (auto simp: goals_inv_def fun_eq_iff)
qed

lemma goals_effect_spec:
  assumes inv: "goals_inv g0 fs g" and fresh: "goals_fresh g0"
  shows "case goals_effect g raw of
      Inl e \<Rightarrow> spec_effect g0 fs raw = Inl e
    | Inr (g', n) \<Rightarrow> spec_effect g0 fs raw = Inr n \<and> goals_inv g0 (fs @ [raw]) g'"
proof -
  have same: "gl_enabled g = gl_enabled g0" "goals_client g = goals_client g0"
    "gl_issuances g = gl_issuances g0" "gl_counts g = (\<lambda>c. length (issued g0 c fs))"
    "gl_seen g = {(c, i). i \<in> set (issued g0 c fs)}"
    using inv goals_client_cong [of g g0] by (simp_all add: goals_inv_def)
  consider "f_event_type raw = EvGoalSend" | "f_event_type raw = EvCancelSend"
    | "f_event_type raw \<noteq> EvGoalSend \<and> f_event_type raw \<noteq> EvCancelSend" by blast
  then show ?thesis
  proof cases
    case 3
    then show ?thesis
      using goals_inv_other [OF inv issue_of_other] by (simp add: goals_effect_def spec_effect_def)
  next
    case 2
    show ?thesis
    proof (cases "goals_client g0 raw")
      case c: (Inr c)
      show ?thesis
      proof (cases "id_at (f_body raw) 0")
        case i: (Inr i)
        show ?thesis
        proof (cases "find (\<lambda>(_, p). gp_client p = c \<and> gp_replayed p = i) (gl_pairs g)")
          case None
          then show ?thesis
            using 2 c i same find_pair_replayed(2) [OF inv None] position_None [of "issued g0 c fs" i]
              goals_inv_other [OF inv issue_of_other, of raw]
            by (auto simp: goals_effect_def spec_effect_def to_recorded_def split: option.splits)
        next
          case (Some e)
          then obtain n p where e: "find (\<lambda>(_, p). gp_client p = c \<and> gp_replayed p = i) (gl_pairs g) = Some (n, p)"
            by (cases e) auto
          from find_pair_replayed(1) [OF inv e] obtain k where
            "position (issued g0 c fs) i = Some k" "paired g0 fs n p k" "gp_client p = c" by blast
          then show ?thesis
            using 2 c i same e goals_inv_other [OF inv issue_of_other, of raw]
            by (auto simp: goals_effect_def spec_effect_def to_recorded_def paired_def)
        qed
      qed (use 2 c same in \<open>simp add: goals_effect_def spec_effect_def\<close>)
    qed (use 2 same in \<open>simp add: goals_effect_def spec_effect_def\<close>)
  next
    case 1
    show ?thesis
    proof (cases "goals_client g0 raw")
      case c: (Inr c)
      show ?thesis
      proof (cases "id_at (f_body raw) 0")
        case i: (Inr i)
        show ?thesis
        proof (cases "i = 0 \<or> i \<in> set (issued g0 c fs)")
          case False
          note send_step [OF inv fresh issue_of_send [OF 1 c i], of "gl_pairs g", folded same(3)]
            send_step [OF inv fresh issue_of_send [OF 1 c i]]
          with False show ?thesis
            using 1 c i same
            by (auto simp: goals_effect_def spec_effect_def to_recorded_def Let_def get_at_def
                split: prod.splits)
        qed (use 1 c i same in \<open>auto simp: goals_effect_def spec_effect_def\<close>)
      qed (use 1 c same in \<open>simp add: goals_effect_def spec_effect_def\<close>)
    qed (use 1 same in \<open>simp add: goals_effect_def spec_effect_def\<close>)
  qed
qed

lemma normalize_effects_spec:
  assumes "goals_inv g0 fs g" and "goals_fresh g0"
  shows "case normalize_effects g raws of
      Inl e \<Rightarrow> spec_effects g0 fs raws = Inl e
    | Inr (g', ns) \<Rightarrow> spec_effects g0 fs raws = Inr ns \<and> goals_inv g0 (fs @ raws) g'"
  using assms(1)
proof (induction raws arbitrary: fs g)
  case (Cons raw raws)
  note step = goals_effect_spec [OF Cons.prems assms(2), of raw]
  show ?case
  proof (cases "goals_effect g raw")
    case (Inr e)
    then obtain g1 n where e: "goals_effect g raw = Inr (g1, n)" by (cases e) auto
    with step have n: "spec_effect g0 fs raw = Inr n" and inv: "goals_inv g0 (fs @ [raw]) g1" by auto
    from Cons.IH [OF inv] show ?thesis
      by (simp add: e n split: sum.splits prod.splits)
  qed (use step in simp)
qed simp


subsection \<open>Loading the recorded issuances\<close>

definition issue_entry :: "goals \<Rightarrow> string \<Rightarrow> frame \<Rightarrow> (u64 \<times> id16) option" where
  "issue_entry g c f =
     (case issue_of g f of
        None \<Rightarrow> None | Some (c', i) \<Rightarrow> if c' = c then Some (f_ordinal f, i) else None)"

lemma goals_issuances_Inr:
  assumes "goals_issuances fs seen g = Inr g'"
    and "seen = {(c, i). i \<in> snd ` set (gl_issuances g c)}"
    and "proper_ids g"
  shows "gl_enabled g' = gl_enabled g \<and> gl_clients g' = gl_clients g \<and> gl_counts g' = gl_counts g \<and>
    gl_pairs g' = gl_pairs g \<and> gl_seen g' = gl_seen g \<and> proper_ids g' \<and>
    (\<forall>c. gl_issuances g' c = gl_issuances g c @
List.map_filter (issue_entry g c) fs) \<and>
    (\<forall>f\<in>set fs. f_event_type f = EvGoalSend \<longrightarrow> issue_of g f \<noteq> None)"
  using assms
proof (induction fs arbitrary: seen g)
  case (Cons f fs)
  show ?case
  proof (cases "f_event_type f = EvGoalSend")
    case False
    then have "issue_entry g c f = None" for c by (simp add: issue_entry_def issue_of_other)
    then have skip: "List.map_filter (issue_entry g c) (f # fs) = List.map_filter (issue_entry g c) fs" for c
      by (simp add: List.map_filter_simps)
    have "goals_issuances fs seen g = Inr g'" using Cons.prems(1) False by simp
    from Cons.IH [OF this Cons.prems(2,3)] False show ?thesis unfolding skip set_simps by blast
  next
    case True
    from Cons.prems(1) True obtain c i where c: "goals_client g f = Inr c" "id_at (f_body f) 0 = Inr i"
      and new: "i \<noteq> 0" "(c, i) \<notin> seen"
      and rest: "goals_issuances fs (insert (c, i) seen)
          (g\<lparr>gl_issuances := (gl_issuances g)(c := gl_issuances g c @ [(f_ordinal f, i)])\<rparr>) = Inr g'"
      by (auto split: sum.splits if_splits)
    let ?g = "g\<lparr>gl_issuances := (gl_issuances g)(c := gl_issuances g c @ [(f_ordinal f, i)])\<rparr>"
    have same: "issue_of ?g = issue_of g" "issue_entry ?g = issue_entry g"
      by (simp_all add: issue_entry_def issue_of_def goals_client_def fun_eq_iff)
    have entry: "issue_entry g c' f = (if c' = c then Some (f_ordinal f, i) else None)" for c'
      using issue_of_send [OF True c] by (simp add: issue_entry_def)
    have "insert (c, i) seen = {(c, i). i \<in> snd ` set (gl_issuances ?g c)}"
      unfolding Cons.prems(2) by (intro set_eqI) (auto split: if_splits)
    moreover have "\<forall>c. distinct (map snd (gl_issuances ?g c)) \<and> 0 \<notin> snd ` set (gl_issuances ?g c)"
      using Cons.prems(2,3) new by (auto simp: image_iff proper_ids_def)
    ultimately show ?thesis
      using Cons.IH [OF rest] issue_of_send [OF True c]
      by (simp add: same entry List.map_filter_simps proper_ids_def [of ?g])
  qed
qed (simp add: List.map_filter_simps)

lemma map_snd_issuances: "map snd (List.map_filter (issue_entry g c) fs) = issued g c fs"
  by (induction fs) (auto simp: List.map_filter_simps issue_entry_def split: option.splits)

lemma goals_new_Inr:
  assumes "goals_new src ref recording m policy = Inr g"
    and "distinct (map f_ordinal recording)"
  shows "goals_fresh g" and "map snd (gl_issuances g c) = issued g c recording"
    and "\<forall>f\<in>set recording. f_event_type f = EvGoalSend \<longrightarrow> issue_of g f \<noteq> None"
    and "gl_enabled g \<longleftrightarrow> map_of m ''normalization'' = Some POLICY"
proof -
  from assms(1) obtain clients normalization where norm: "map_of m ''normalization'' = Some normalization"
    and load: "goals_issuances recording {} \<lparr>gl_enabled = (normalization = POLICY), gl_clients = clients,
      gl_issuances = (\<lambda>_. []), gl_counts = (\<lambda>_. 0), gl_pairs = [], gl_seen = {}\<rparr> = Inr g"
    by (auto simp: goals_new_def entry_def Let_def split: option.splits if_splits sum.splits)
  let ?g = "\<lparr>gl_enabled = (normalization = POLICY), gl_clients = clients,
      gl_issuances = (\<lambda>_. []), gl_counts = (\<lambda>_. 0), gl_pairs = [], gl_seen = {}\<rparr>"
  have "proper_ids ?g" by (simp add: proper_ids_def)
  from goals_issuances_Inr [OF load _ this] have load: "gl_enabled g = (normalization = POLICY)"
    "gl_clients g = clients" "gl_counts g = (\<lambda>_. 0)" "gl_pairs g = []" "gl_seen g = {}" "proper_ids g"
    "\<forall>c. gl_issuances g c = List.map_filter (issue_entry ?g c) recording"
    "\<forall>f\<in>set recording. f_event_type f = EvGoalSend \<longrightarrow> issue_of ?g f \<noteq> None" by simp_all
  have same: "issue_of ?g = issue_of g" "issue_entry ?g = issue_entry g"
    using load by (simp_all add: issue_entry_def issue_of_def goals_client_def fun_eq_iff)
  let ?iss = "issue_entry g"
  have iss: "gl_issuances g c = List.map_filter (?iss c) recording" for c using load by (simp add: same)
  show "map snd (gl_issuances g c) = issued g c recording" unfolding iss by (rule map_snd_issuances)
  show "\<forall>f\<in>set recording. f_event_type f = EvGoalSend \<longrightarrow> issue_of g f \<noteq> None" using load by (simp add: same)
  show "gl_enabled g \<longleftrightarrow> map_of m ''normalization'' = Some POLICY" using load norm by simp
  have dist: "distinct (map fst (List.map_filter (?iss c) fs))"
    if "distinct (map f_ordinal fs)" for c fs
  proof -
    have "map fst (List.map_filter (?iss c) fs) = map f_ordinal (filter (\<lambda>f. ?iss c f \<noteq> None) fs)"
      by (induction fs) (auto simp: List.map_filter_simps issue_entry_def split: option.splits)
    with that show ?thesis by (simp add: distinct_map_filter)
  qed
  have one: "c = c' \<and> k = k'"
    if "k < length (gl_issuances g c)" "k' < length (gl_issuances g c')"
      "fst (gl_issuances g c ! k) = fst (gl_issuances g c' ! k')" for c c' k k'
  proof -
    have "gl_issuances g c ! k \<in> set (List.map_filter (?iss c) recording)"
      and "gl_issuances g c' ! k' \<in> set (List.map_filter (?iss c') recording)"
      using that(1,2) by (simp_all flip: iss)
    then obtain f f' where f: "f \<in> set recording" "?iss c f = Some (gl_issuances g c ! k)"
      and f': "f' \<in> set recording" "?iss c' f' = Some (gl_issuances g c' ! k')"
      unfolding List.map_filter_def by auto
    then have "f_ordinal f = fst (gl_issuances g c ! k)" "f_ordinal f' = fst (gl_issuances g c' ! k')"
      by (cases "gl_issuances g c ! k"; cases "gl_issuances g c' ! k'";
          auto simp: issue_entry_def split: option.splits if_splits)+
    then have "f_ordinal f = f_ordinal f'" using that(3) by simp
    then have "f = f'" using assms(2) f(1) f'(1) by (auto simp: distinct_map dest: inj_onD)
    then have "c = c'" using f(2) f'(2) by (auto simp: issue_entry_def split: option.splits if_splits)
    moreover have "k = k'"
      using dist [OF assms(2), of c, folded iss] that calculation
        nth_eq_iff_index_eq [of "map fst (gl_issuances g c)" k k'] by simp
    ultimately show ?thesis by blast
  qed
  show "goals_fresh g" unfolding goals_fresh_def using load one by blast
qed


subsection \<open>Agreement up to a renaming of goal identities\<close>

text \<open>A run that issues \<open>\<rho> c i\<close> where the recording issues \<open>i\<close> for the client \<open>c\<close>.\<close>

definition rename_goal :: "goals \<Rightarrow> (string \<Rightarrow> id16 \<Rightarrow> id16) \<Rightarrow> frame \<Rightarrow> frame" where
  "rename_goal g \<rho> f =
     (if f_event_type f \<noteq> EvGoalSend \<and> f_event_type f \<noteq> EvCancelSend then f
      else case (goals_client g f, id_at (f_body f) 0) of
        (Inr c, Inr i) \<Rightarrow> if i = 0 then f else put_id 0 (\<rho> c i) f
      | _ \<Rightarrow> f)"

text \<open>Every recorded cancel names no goal or one its client issued before.\<close>

definition cancels_known :: "goals \<Rightarrow> frame list \<Rightarrow> bool" where
  "cancels_known g fs \<longleftrightarrow>
     (\<forall>k < length fs. f_event_type (fs ! k) = EvCancelSend \<longrightarrow>
        (case (goals_client g (fs ! k), id_at (f_body (fs ! k)) 0) of
           (Inr c, Inr i) \<Rightarrow> i = 0 \<or> i \<in> set (issued g c (take k fs)) | _ \<Rightarrow> False))"

lemma put_id_simps [simp]:
  "f_event_type (put_id k i f) = f_event_type f" "f_channel_id (put_id k i f) = f_channel_id f"
  "f_src_actor (put_id k i f) = f_src_actor f" "f_ordinal (put_id k i f) = f_ordinal f"
  "f_dst_actor (put_id k i f) = f_dst_actor f" "f_header (put_id k i f) = f_header f"
  "goals_client g (put_id k i f) = goals_client g f"
  by (simp_all add: put_id_def goals_client_def cong: option.case_cong)

lemma id_at_put [simp]: "id_at (f_body (put_id 0 i f)) 0 = Inr i"
  by (simp add: put_id_def id_at_def get_range_def subslice_def)

lemma put_put [simp]: "put_id 0 i (put_id 0 j f) = put_id 0 i f"
  by (simp add: put_id_def)

lemma put_same: "id_at (f_body f) 0 = Inr i \<Longrightarrow> put_id 0 i f = f"
  using append_take_drop_id [of 16 "f_body f"]
  by (auto simp: put_id_def id_at_def get_range_def subslice_def to_from_le split: if_splits)

lemma effect_key_put: "effect_key f = effect_key f' \<Longrightarrow> effect_key (put_id 0 i f) = effect_key (put_id 0 i f')"
  by (simp add: effect_key_def) (simp add: put_id_def)

lemma effect_key_same:
  assumes "effect_key f = effect_key f'"
  shows "f_event_type f = f_event_type f'" and "f_body f = f_body f'"
    and "gl_enabled g \<Longrightarrow> goals_client g f = goals_client g f'"
    and "gl_enabled g \<Longrightarrow> issue_of g f = issue_of g f'"
proof -
  show type: "f_event_type f = f_event_type f'" and body: "f_body f = f_body f'"
    using assms by (simp_all add: effect_key_def)
  have "f_channel_id f = f_channel_id f'" using assms by (simp add: effect_key_def)
  then show "goals_client g f = goals_client g f'" if "gl_enabled g"
    using that by (simp add: goals_client_def cong: option.case_cong)
  then show "issue_of g f = issue_of g f'" if "gl_enabled g"
    using that type body by (simp add: issue_of_def)
qed

lemma spec_effects_nth:
  "spec_effects g fs raws = Inr ns \<longleftrightarrow>
     length ns = length raws \<and>
     (\<forall>k < length raws. spec_effect g (fs @ take k raws) (raws ! k) = Inr (ns ! k))"
proof (induction raws arbitrary: fs ns)
  case (Cons raw raws)
  show ?case
  proof (cases "spec_effect g fs raw")
    case (Inr n)
    have "(\<forall>k < length (raw # raws). spec_effect g (fs @ take k (raw # raws)) ((raw # raws) ! k) = Inr (ns ! k)) \<longleftrightarrow>
        n = ns ! 0 \<and> (\<forall>k < length raws. spec_effect g ((fs @ [raw]) @ take k raws) (raws ! k) = Inr (ns ! Suc k))"
      using Inr by (auto simp: less_Suc_eq_0_disj)
    moreover have "spec_effects g fs (raw # raws) = Inr ns \<longleftrightarrow>
        (\<exists>ms. spec_effects g (fs @ [raw]) raws = Inr ms \<and> ns = n # ms)"
      by (auto simp: Inr split: sum.splits)
    ultimately show ?thesis
      using Cons.IH [of "fs @ [raw]"] by (cases ns) auto
  qed (auto dest: spec [of _ 0])
qed auto

lemma normalize_effects_fresh:
  assumes "goals_fresh g"
  shows "(\<exists>g'. normalize_effects g raws = Inr (g', ns)) \<longleftrightarrow>
    length ns = length raws \<and> (\<forall>k < length raws. spec_effect g (take k raws) (raws ! k) = Inr (ns ! k))"
  using normalize_effects_spec [OF goals_fresh_inv [OF assms] assms, of raws] spec_effects_nth [of g "[]" raws ns]
  by (auto split: sum.splits)

lemma issued_related:
  assumes "list_all2 (\<lambda>f f'. issue_of g f' = map_option (\<lambda>(c, i). (c, \<rho> c i)) (issue_of g f)) fs fs'"
  shows "issued g c fs' = map (\<rho> c) (issued g c fs)"
  using assms by (induction rule: list_all2_induct) (auto split: option.splits)


text \<open>The recorded effects against which a run is compared.\<close>

definition recorded_effects :: "goals \<Rightarrow> frame list \<Rightarrow> bool" where
  "recorded_effects g recs \<longleftrightarrow>
     gl_enabled g \<and> goals_fresh g \<and> cancels_known g recs \<and>
     (\<forall>c. map snd (gl_issuances g c) = issued g c recs) \<and>
     (\<forall>f\<in>set recs. f_event_type f = EvGoalSend \<longrightarrow> issue_of g f \<noteq> None)"

lemma recorded_cancel:
  assumes "recorded_effects g recs" and "k < length recs" and "f_event_type (recs ! k) = EvCancelSend"
  shows "\<exists>c i. goals_client g (recs ! k) = Inr c \<and> id_at (f_body (recs ! k)) 0 = Inr i \<and>
    (i = 0 \<or> i \<in> set (issued g c (take k recs)))"
proof -
  have "case (goals_client g (recs ! k), id_at (f_body (recs ! k)) 0) of
      (Inr c, Inr i) \<Rightarrow> i = 0 \<or> i \<in> set (issued g c (take k recs)) | _ \<Rightarrow> False"
    using assms unfolding recorded_effects_def cancels_known_def by blast
  then show ?thesis by (cases "goals_client g (recs ! k)"; cases "id_at (f_body (recs ! k)) 0") auto
qed

definition proper_renaming :: "goals \<Rightarrow> frame list \<Rightarrow> (string \<Rightarrow> id16 \<Rightarrow> id16) \<Rightarrow> bool" where
  "proper_renaming g recs \<rho> \<longleftrightarrow>
     (\<forall>c. inj_on (\<rho> c) (set (issued g c recs)) \<and> 0 \<notin> \<rho> c ` set (issued g c recs))"

lemma recorded_issued:
  assumes "recorded_effects g recs"
  shows "distinct (issued g c recs)" and "0 \<notin> set (issued g c recs)"
    and "length (gl_issuances g c) = length (issued g c recs)"
    and "k < length (issued g c recs) \<Longrightarrow> snd (gl_issuances g c ! k) = issued g c recs ! k"
proof -
  have iss: "map snd (gl_issuances g c) = issued g c recs" and "proper_ids g"
    using assms by (simp_all add: recorded_effects_def goals_fresh_def)
  then show "distinct (issued g c recs)" "0 \<notin> set (issued g c recs)"
    unfolding iss [symmetric] by (simp_all add: proper_ids_def)
  show len: "length (gl_issuances g c) = length (issued g c recs)" using arg_cong [OF iss, of length] by simp
  assume "k < length (issued g c recs)"
  then show "snd (gl_issuances g c ! k) = issued g c recs ! k" unfolding iss [symmetric] using len by simp
qed

lemma issued_take:
  assumes "k < length recs" and "issue_of g (recs ! k) = Some (c, i)"
  shows "length (issued g c (take k recs)) < length (issued g c recs)"
    and "issued g c recs ! length (issued g c (take k recs)) = i"
proof -
  have "issued g c recs = issued g c (take k recs @ recs ! k # drop (Suc k) recs)"
    using assms(1) by (simp add: id_take_nth_drop [symmetric])
  then have "issued g c recs = issued g c (take k recs) @ i # issued g c (drop (Suc k) recs)"
    using assms(2) by simp
  then show "length (issued g c (take k recs)) < length (issued g c recs)"
    and "issued g c recs ! length (issued g c (take k recs)) = i" by simp_all
qed

lemma issued_prefix:
  assumes "j < length (issued g c (take k recs))"
  shows "j < length (issued g c recs)" and "issued g c (take k recs) ! j = issued g c recs ! j"
proof -
  have "issued g c recs = issued g c (take k recs) @ issued g c (drop k recs)"
    using issued_simps(2) [of g c "take k recs" "drop k recs"] by simp
  then show "j < length (issued g c recs)" "issued g c (take k recs) ! j = issued g c recs ! j"
    using assms by (simp_all add: nth_append)
qed

text \<open>One effect of a renamed run is translated back.\<close>

lemma renamed_step:
  assumes rec: "recorded_effects g recs" and \<rho>: "proper_renaming g recs \<rho>" and k: "k < length recs"
    and key: "effect_key raw = effect_key (rename_goal g \<rho> (recs ! k))"
    and before: "\<And>c. issued g c h = map (\<rho> c) (issued g c (take k recs))"
  shows "\<exists>n. spec_effect g h raw = Inr n \<and> effect_key n = effect_key (recs ! k)"
proof -
  let ?f = "recs ! k"
  have en: "gl_enabled g" using rec by (simp add: recorded_effects_def)
  note same = effect_key_same [OF key]
  have type: "f_event_type raw = f_event_type ?f"
    using same(1) by (auto simp: rename_goal_def split: sum.splits if_splits)
  have client: "goals_client g raw = goals_client g ?f"
    using same(3) [OF en] by (auto simp: rename_goal_def split: sum.splits if_splits)
  have restored: "to_recorded g c j raw = put_id 0 i raw"
    if "j < length (issued g c recs)" "issued g c recs ! j = i" for c i j
    using that en recorded_issued(3,4) [OF rec] by (simp add: to_recorded_def)
  have inj: "\<rho> c i \<noteq> 0" "\<rho> c i = \<rho> c j \<longleftrightarrow> i = j"
    if "i \<in> set (issued g c recs)" "j \<in> set (issued g c recs)" for c i j
    using \<rho> that unfolding proper_renaming_def by (metis imageI, metis inj_onD)
  have sub: "set (issued g c (take k recs)) \<subseteq> set (issued g c recs)" for c
    using issued_simps(2) [of g c "take k recs" "drop k recs"] by auto
  consider (goal) "f_event_type ?f = EvGoalSend" | (cancel) "f_event_type ?f = EvCancelSend"
    | (other) "f_event_type ?f \<noteq> EvGoalSend \<and> f_event_type ?f \<noteq> EvCancelSend" by blast
  then show ?thesis
  proof cases
    case other
    then show ?thesis using key type by (simp add: spec_effect_def rename_goal_def)
  next
    case goal
    then have "issue_of g ?f \<noteq> None" using rec k by (simp add: recorded_effects_def)
    then obtain c i where c: "goals_client g ?f = Inr c" and i: "id_at (f_body ?f) 0 = Inr i"
      and iss: "issue_of g ?f = Some (c, i)" by (auto simp: issue_of_def split: if_splits sum.splits)
    note at = issued_take [OF k iss]
    have mem: "i \<in> set (issued g c recs)" using at by (metis nth_mem)
    then have "i \<noteq> 0" using recorded_issued(2) [OF rec] by metis
    then have ren: "rename_goal g \<rho> ?f = put_id 0 (\<rho> c i) ?f" using goal c i by (simp add: rename_goal_def)
    have "i \<notin> set (issued g c (take k recs))"
    proof
      assume "i \<in> set (issued g c (take k recs))"
      then obtain j where j: "j < length (issued g c (take k recs))" "issued g c (take k recs) ! j = i"
        by (auto simp: in_set_conv_nth)
      note in_recs = issued_prefix [OF j(1)]
      have "issued g c recs ! j = issued g c recs ! length (issued g c (take k recs))"
        unfolding at(2) in_recs(2) [symmetric] by (rule j(2))
      then have "j = length (issued g c (take k recs))"
        by (rule nth_eq_iff_index_eq [THEN iffD1, OF recorded_issued(1) [OF rec] in_recs(1) at(1)])
      with j(1) show False by simp
    qed
    then have "\<rho> c i \<notin> set (issued g c h)" using inj(2) [OF mem] sub by (auto simp: before)
    moreover have "id_at (f_body raw) 0 = Inr (\<rho> c i)" using same(2) by (simp add: ren)
    moreover have "to_recorded g c (length (issued g c h)) raw = put_id 0 i raw"
      using restored at by (simp add: before)
    moreover have "effect_key (put_id 0 i raw) = effect_key ?f"
      using effect_key_put [OF key, of i] by (simp add: ren put_same [OF i])
    ultimately show ?thesis using goal type client c inj(1) [OF mem mem] by (simp add: spec_effect_def)
  next
    case cancel
    then obtain c i where c: "goals_client g ?f = Inr c" and i: "id_at (f_body ?f) 0 = Inr i"
      and known: "i = 0 \<or> i \<in> set (issued g c (take k recs))"
      using recorded_cancel [OF rec k cancel] by blast
    show ?thesis
    proof (cases "i = 0")
      case True
      then have "rename_goal g \<rho> ?f = ?f" using cancel c i by (simp add: rename_goal_def)
      then show ?thesis using True key type client c i same(2) cancel by (simp add: spec_effect_def)
    next
      case False
      then have mem: "i \<in> set (issued g c (take k recs))" using known by simp
      then obtain j where j: "j < length (issued g c (take k recs))" "issued g c (take k recs) ! j = i"
        by (auto simp: in_set_conv_nth)
      note in_recs = issued_prefix [OF j(1)]
      have ren: "rename_goal g \<rho> ?f = put_id 0 (\<rho> c i) ?f" using False cancel c i by (simp add: rename_goal_def)
      have "distinct (issued g c h)"
        using recorded_issued(1) [OF rec, of c] issued_simps(2) [of g c "take k recs" "drop k recs"] \<rho> sub
        by (auto simp: before distinct_map proper_renaming_def intro: inj_on_subset)
      then have "position (issued g c h) (\<rho> c i) = Some j"
        using position_nth [of "issued g c h" j] j by (simp add: before)
      moreover have "id_at (f_body raw) 0 = Inr (\<rho> c i)" using same(2) by (simp add: ren)
      moreover have "to_recorded g c j raw = put_id 0 i raw" using restored in_recs j(2) by simp
      moreover have "effect_key (put_id 0 i raw) = effect_key ?f"
        using effect_key_put [OF key, of i] by (simp add: ren put_same [OF i])
      moreover have "\<rho> c i \<noteq> 0" using inj(1) mem sub by blast
      ultimately show ?thesis using cancel type client c by (simp add: spec_effect_def)
    qed
  qed
qed


text \<open>The renaming a translated run defines: the \<open>k\<close>-th goal issued for the \<open>k\<close>-th recorded one.\<close>

definition by_issuance :: "goals \<Rightarrow> frame list \<Rightarrow> frame list \<Rightarrow> string \<Rightarrow> id16 \<Rightarrow> id16" where
  "by_issuance g recs raws c i =
     (case position (issued g c recs) i of None \<Rightarrow> 0 | Some k \<Rightarrow> issued g c raws ! k)"

lemma spec_effect_type:
  assumes "spec_effect g h raw = Inr n"
  shows "f_event_type n = f_event_type raw" and "f_channel_id n = f_channel_id raw"
    and "goals_client g n = goals_client g raw"
  using assms by (auto simp: spec_effect_def to_recorded_def split: if_splits sum.splits option.splits)

lemma spec_effect_issue:
  assumes "spec_effect g h raw = Inr n" and "effect_key n = effect_key f" and "gl_enabled g"
    and "f_event_type f = EvGoalSend \<Longrightarrow> issue_of g f \<noteq> None"
  shows "map_option fst (issue_of g raw) = map_option fst (issue_of g f)"
proof -
  have type: "f_event_type raw = f_event_type f" and client: "goals_client g raw = goals_client g f"
    using spec_effect_type [OF assms(1)] effect_key_same [OF assms(2)] assms(3) by simp_all
  show ?thesis
  proof (cases "f_event_type f = EvGoalSend")
    case True
    with assms(4) obtain c where c: "goals_client g f = Inr c" and f: "map_option fst (issue_of g f) = Some c"
      by (auto simp: issue_of_def split: sum.splits if_splits)
    with assms(1) True type client have "map_option fst (issue_of g raw) = Some c"
      by (auto simp: spec_effect_def issue_of_def split: if_splits sum.splits)
    with f show ?thesis by (simp only:)
  qed (simp add: issue_of_other type)
qed

lemma issued_length_related:
  assumes "list_all2 (\<lambda>f f'. map_option fst (issue_of g f') = map_option fst (issue_of g f)) fs fs'"
  shows "length (issued g c fs') = length (issued g c fs)"
  using assms
proof (induction rule: list_all2_induct)
  case (Cons f fs f' fs')
  then show ?case by (cases "issue_of g f"; cases "issue_of g f'") auto
qed simp

lemma translated_step:
  assumes rec: "recorded_effects g recs" and k: "k < length recs"
    and spec: "spec_effect g (take k raws) raw = Inr n" and key: "effect_key n = effect_key (recs ! k)"
    and raw: "raw = raws ! k" "k < length raws"
    and lens: "\<And>c. length (issued g c raws) = length (issued g c recs)"
      "\<And>c. length (issued g c (take k raws)) = length (issued g c (take k recs))"
    and proper: "\<And>c. distinct (issued g c raws) \<and> 0 \<notin> set (issued g c raws)"
  shows "effect_key raw = effect_key (rename_goal g (by_issuance g recs raws) (recs ! k))"
proof -
  let ?f = "recs ! k" and ?\<rho> = "by_issuance g recs raws"
  have en: "gl_enabled g" using rec by (simp add: recorded_effects_def)
  have type: "f_event_type raw = f_event_type ?f" and client: "goals_client g raw = goals_client g ?f"
    using spec_effect_type [OF spec] effect_key_same [OF key] en by simp_all
  have renamed: "?\<rho> c (issued g c recs ! j) = issued g c raws ! j" if "j < length (issued g c recs)" for c j
    using position_nth [OF recorded_issued(1) [OF rec] that] by (simp add: by_issuance_def)
  have n: "to_recorded g c j raw = put_id 0 (issued g c recs ! j) raw" if "j < length (issued g c recs)" for c j
    using that en recorded_issued(3,4) [OF rec] by (simp add: to_recorded_def)
  consider (goal) "f_event_type ?f = EvGoalSend" | (cancel) "f_event_type ?f = EvCancelSend"
    | (other) "f_event_type ?f \<noteq> EvGoalSend \<and> f_event_type ?f \<noteq> EvCancelSend" by blast
  then show ?thesis
  proof cases
    case other
    then show ?thesis using spec key type by (simp add: spec_effect_def rename_goal_def)
  next
    case goal
    then have "issue_of g ?f \<noteq> None" using rec k by (simp add: recorded_effects_def)
    then obtain c i where c: "goals_client g ?f = Inr c" and i: "id_at (f_body ?f) 0 = Inr i"
      and iss: "issue_of g ?f = Some (c, i)" by (auto simp: issue_of_def split: if_splits sum.splits)
    note at = issued_take [OF k iss]
    from spec goal type client c obtain x where x: "id_at (f_body raw) 0 = Inr x"
      by (auto simp: spec_effect_def split: sum.splits)
    then have raw_iss: "issue_of g raw = Some (c, x)" using goal type client c by (simp add: issue_of_def)
    note raw_at = issued_take [OF raw(2), of g c x, folded raw(1), OF raw_iss]
    have mem: "i \<in> set (issued g c recs)" using at by (metis nth_mem)
    then have "i \<noteq> 0" using recorded_issued(2) [OF rec] by metis
    moreover have "?\<rho> c i = x" using renamed [OF at(1)] at(2) raw_at(2) lens(2) by simp
    ultimately have ren: "rename_goal g ?\<rho> ?f = put_id 0 x ?f" using goal c i by (simp add: rename_goal_def)
    have "n = put_id 0 i raw"
      using spec goal type client c x n [OF at(1)] at(2) lens(2) by (auto simp: spec_effect_def split: if_splits)
    then have "effect_key (put_id 0 x (put_id 0 i raw)) = effect_key (put_id 0 x ?f)"
      using effect_key_put [OF key] by simp
    then show ?thesis by (simp add: ren put_same [OF x])
  next
    case cancel
    then obtain c i where c: "goals_client g ?f = Inr c" and i: "id_at (f_body ?f) 0 = Inr i"
      and known: "i = 0 \<or> i \<in> set (issued g c (take k recs))"
      using recorded_cancel [OF rec k cancel] by blast
    from spec cancel type client c obtain x where x: "id_at (f_body raw) 0 = Inr x"
      by (auto simp: spec_effect_def split: sum.splits)
    show ?thesis
    proof (cases "x = 0")
      case True
      then have "n = raw" using spec cancel type client c x by (simp add: spec_effect_def)
      then have "i = 0" using x i True effect_key_same(2) [OF key] by simp
      then have "rename_goal g ?\<rho> ?f = ?f" using cancel c i by (simp add: rename_goal_def)
      with \<open>n = raw\<close> key show ?thesis by simp
    next
      case False
      then obtain j where j: "position (issued g c (take k raws)) x = Some j" and nj: "n = to_recorded g c j raw"
        using spec cancel type client c x by (auto simp: spec_effect_def split: option.splits)
      note j_at = position_Some [OF j]
      note in_raws = issued_prefix [OF conjunct1 [OF j_at]]
      have jl: "j < length (issued g c recs)" using in_raws(1) lens(1) by simp
      then have nj': "n = put_id 0 (issued g c recs ! j) raw" using n nj by simp
      then have ij: "i = issued g c recs ! j" using effect_key_same(2) [OF key] i by (metis id_at_put sum.inject(2))
      then have "i \<noteq> 0" using recorded_issued(2) [OF rec] jl nth_mem by metis
      moreover have "?\<rho> c i = x" using renamed [OF jl] ij in_raws(2) j_at by simp
      ultimately have ren: "rename_goal g ?\<rho> ?f = put_id 0 x ?f" using cancel c i by (simp add: rename_goal_def)
      have "effect_key (put_id 0 x n) = effect_key (put_id 0 x ?f)" by (rule effect_key_put [OF key])
      then show ?thesis by (simp add: ren nj' put_same [OF x])
    qed
  qed
qed


lemma issue_of_renamed:
  assumes rec: "recorded_effects g recs" and f: "f \<in> set recs"
    and key: "effect_key raw = effect_key (rename_goal g \<rho> f)"
  shows "issue_of g raw = map_option (\<lambda>(c, i). (c, \<rho> c i)) (issue_of g f)"
proof -
  have "gl_enabled g" using rec by (simp add: recorded_effects_def)
  then have raw: "issue_of g raw = issue_of g (rename_goal g \<rho> f)" by (rule effect_key_same(4) [OF key])
  show ?thesis
  proof (cases "issue_of g f")
    case None
    then have "f_event_type f \<noteq> EvGoalSend" using rec f by (auto simp: recorded_effects_def)
    then show ?thesis
      unfolding raw by (auto simp: issue_of_other rename_goal_def split: sum.splits)
  next
    case (Some e)
    then obtain c i where i: "issue_of g f = Some (c, i)" by (cases e) auto
    then have "i \<in> set (issued g c recs)"
      using f by (induction recs) (auto split: option.splits)
    then have "i \<noteq> 0" using recorded_issued(2) [OF rec] by metis
    with i show ?thesis
      unfolding raw by (auto simp: issue_of_def rename_goal_def split: if_splits sum.splits)
  qed
qed

lemma renamed_run:
  assumes rec: "recorded_effects g recs" and \<rho>: "proper_renaming g recs \<rho>"
    and keys: "map effect_key raws = map (effect_key \<circ> rename_goal g \<rho>) recs"
  shows "\<exists>g' ns. normalize_effects g raws = Inr (g', ns) \<and> map effect_key ns = map effect_key recs"
proof -
  have len: "length raws = length recs" using arg_cong [OF keys, of length] by simp
  have key: "effect_key (raws ! k) = effect_key (rename_goal g \<rho> (recs ! k))" if "k < length recs" for k
    using arg_cong [OF keys, of "\<lambda>xs. xs ! k"] that len by simp
  have before: "issued g c (take k raws) = map (\<rho> c) (issued g c (take k recs))" for c k
  proof (rule issued_related, rule list_all2_all_nthI)
    fix j assume "j < length (take k recs)"
    then show "issue_of g (take k raws ! j) = map_option (\<lambda>(c, i). (c, \<rho> c i)) (issue_of g (take k recs ! j))"
      using issue_of_renamed [OF rec _ key] by simp
  qed (simp add: len)
  have "\<forall>k < length recs. \<exists>n. spec_effect g (take k raws) (raws ! k) = Inr n \<and> effect_key n = effect_key (recs ! k)"
    using renamed_step [OF rec \<rho> _ key before] by blast
  then obtain n where n: "\<forall>k < length recs. spec_effect g (take k raws) (raws ! k) = Inr (n k) \<and>
      effect_key (n k) = effect_key (recs ! k)" by metis
  let ?ns = "map n [0..<length recs]"
  have "goals_fresh g" using rec by (simp add: recorded_effects_def)
  moreover have "length ?ns = length raws \<and> (\<forall>k < length raws. spec_effect g (take k raws) (raws ! k) = Inr (?ns ! k))"
    using n len by simp
  ultimately obtain g' where "normalize_effects g raws = Inr (g', ?ns)"
    using normalize_effects_fresh by blast
  moreover have "map effect_key ?ns = map effect_key recs"
    using n by (intro nth_equalityI) auto
  ultimately show ?thesis by blast
qed

lemma translated_run:
  assumes rec: "recorded_effects g recs" and run: "normalize_effects g raws = Inr (g', ns)"
    and keys: "map effect_key ns = map effect_key recs"
  shows "\<exists>\<rho>. proper_renaming g recs \<rho> \<and> map effect_key raws = map (effect_key \<circ> rename_goal g \<rho>) recs"
proof -
  have fresh: "goals_fresh g" and en: "gl_enabled g" using rec by (simp_all add: recorded_effects_def)
  have spec: "length ns = length raws \<and> (\<forall>k < length raws. spec_effect g (take k raws) (raws ! k) = Inr (ns ! k))"
    using normalize_effects_fresh [OF fresh] run by blast
  have len: "length raws = length recs" using arg_cong [OF keys, of length] spec by simp
  have key: "effect_key (ns ! k) = effect_key (recs ! k)" if "k < length recs" for k
    using arg_cong [OF keys, of "\<lambda>xs. xs ! k"] that len spec by simp
  have lens: "length (issued g c (take k raws)) = length (issued g c (take k recs))" for c k
  proof (rule issued_length_related, rule list_all2_all_nthI)
    fix j assume j: "j < length (take k recs)"
    then have "spec_effect g (take j raws) (raws ! j) = Inr (ns ! j)" using spec len by simp
    moreover have "f_event_type (recs ! j) = EvGoalSend \<Longrightarrow> issue_of g (recs ! j) \<noteq> None"
      using rec j by (simp add: recorded_effects_def)
    ultimately show "map_option fst (issue_of g (take k raws ! j)) = map_option fst (issue_of g (take k recs ! j))"
      using spec_effect_issue [OF _ key en] j by simp
  qed (simp add: len)
  have all: "length (issued g c raws) = length (issued g c recs)" for c
    using lens [of c "length recs"] len by simp
  have proper: "distinct (issued g c raws) \<and> 0 \<notin> set (issued g c raws)" for c
    using normalize_effects_spec [OF goals_fresh_inv [OF fresh] fresh, of raws] run
    by (simp add: goals_inv_def)
  let ?\<rho> = "by_issuance g recs raws"
  have at: "?\<rho> c (issued g c recs ! j) = issued g c raws ! j" if "j < length (issued g c recs)" for c j
    using position_nth [OF recorded_issued(1) [OF rec] that] by (simp add: by_issuance_def)
  have "map (?\<rho> c) (issued g c recs) = issued g c raws" for c
    using all by (intro nth_equalityI) (simp_all add: at)
  then have "proper_renaming g recs ?\<rho>"
    unfolding proper_renaming_def using proper by (metis distinct_map list.set_map)
  moreover have "map effect_key raws = map (effect_key \<circ> rename_goal g ?\<rho>) recs"
  proof (rule nth_equalityI)
    fix k assume "k < length (map effect_key raws)"
    then have k: "k < length recs" using len by simp
    then have s: "spec_effect g (take k raws) (raws ! k) = Inr (ns ! k)" using spec len by simp
    have "k < length raws" using k len by simp
    from translated_step [OF rec k s key [OF k] refl this all lens proper] k len
    show "map effect_key raws ! k = map (effect_key \<circ> rename_goal g ?\<rho>) recs ! k" by simp
  qed (simp add: len)
  ultimately show ?thesis by blast
qed

lemma send_is_emit: "f_event_type f = EvGoalSend \<Longrightarrow> is_emit f"
  by (simp add: is_emit_def frame_kind_def)

lemma issued_emits: "issued g c (filter is_emit fs) = issued g c fs"
proof (induction fs)
  case (Cons f fs)
  have "issue_of g f = None" if "\<not> is_emit f"
    using that send_is_emit [of f] by (intro issue_of_other) blast
  with Cons show ?case by (cases "is_emit f") simp_all
qed simp

lemma goals_new_recorded:
  assumes "goals_new src ref recording m policy = Inr g" and "distinct (map f_ordinal recording)"
    and "gl_enabled g" and "cancels_known g (filter is_emit recording)"
  shows "recorded_effects g (filter is_emit recording)"
  using goals_new_Inr [OF assms(1,2)] assms(3,4)
  by (simp add: recorded_effects_def issued_emits)

section \<open>Properties of the goal correspondence\<close>



definition demo_manifest :: identity_map where
  "demo_manifest =
     [(''normalization'', POLICY), (''normalization.client.7'', ''navigator''),
      (''normalization_source_blake3'', ''00'')]"

definition demo_goals :: goals where
  "demo_goals =
     \<lparr>gl_enabled = True, gl_clients = [7 \<mapsto> ''navigator''],
      gl_issuances = (\<lambda>_. [])(''navigator'' := [(0, 7)]), gl_counts = (\<lambda>_. 0), gl_pairs = [], gl_seen = {}\<rparr>"

definition demo_goal_send :: frame where
  "demo_goal_send = demo_request\<lparr>f_channel_id := 7\<rparr>"

lemma demo_goal_send_id: "id_at (f_body demo_goal_send) 0 = Inr 7" "f_event_type demo_goal_send = EvGoalSend"
  "f_ordinal demo_goal_send = 0" "f_channel_id demo_goal_send = 7" "is_emit demo_goal_send"
  by (simp_all add: demo_goal_send_def demo_request_def id_at_def get_range_def subslice_def
      encode_goal_send_def is_emit_def frame_kind_def)

lemma demo_goals_new: "goals_new ''00'' [] [demo_goal_send] demo_manifest ''goal-ids-in-order@1'' = Inr demo_goals"
  by (simp add: goals_new_def entry_def demo_manifest_def POLICY_def demo_goal_send_id goals_client_def
      demo_goals_def parse_u32_def parse_digits_def digit_value_def)

lemma demo_issue: "issue_of demo_goals demo_goal_send = Some (''navigator'', 7)"
  by (simp add: issue_of_def demo_goal_send_id goals_client_def demo_goals_def)


text \<open>
  After any effects of the run, a recorded goal response is delivered exactly when the issuance it
  answers is the \<open>k\<close>-th of its client, the run has issued its \<open>k\<close>-th goal for that client and the
  response names the recorded identity; it then names the run's.  Without the policy the two
  identities must be the same.
\<close>

theorem response_translation:
  assumes "goals_new src ref recording m policy = Inr g" and "distinct (map f_ordinal recording)"
    and "normalize_effects g raws = Inr (g', ns)"
    and "f_event_type response \<in> {EvGoalResponse, EvFeedback, EvResult}"
  shows "goals_input g' response request = Inr delivered \<longleftrightarrow>
    f_event_type request = EvGoalSend \<and>
    (\<exists>c k i. k < length (issued g c raws) \<and> k < length (gl_issuances g c) \<and>
       gl_issuances g c ! k = (f_ordinal request, i) \<and> id_at (f_body response) 8 = Inr i \<and>
       (if gl_enabled g then delivered = put_id 8 (issued g c raws ! k) response
        else issued g c raws ! k = i \<and> delivered = response))"
proof -
  have fresh: "goals_fresh g" by (rule goals_new_Inr(1) [OF assms(1,2)])
  have inv: "goals_inv g raws g'"
    using normalize_effects_spec [OF goals_fresh_inv [OF fresh] fresh, of raws] assms(3) by simp
  then have en: "gl_enabled g' = gl_enabled g" by (simp add: goals_inv_def)
  have pair: "map_of (gl_pairs g') (f_ordinal request) = Some p \<longleftrightarrow> (\<exists>k. paired g raws (f_ordinal request) p k)" for p
    using inv bt_get_iff [of "gl_pairs g'" "f_ordinal request" p] by (simp add: goals_inv_def)
  have "goals_input g' response request = Inr delivered \<longleftrightarrow>
      f_event_type request = EvGoalSend \<and>
      (\<exists>p. map_of (gl_pairs g') (f_ordinal request) = Some p \<and>
        id_at (f_body response) 8 = Inr (gp_recorded p) \<and>
        (if gl_enabled g then delivered = put_id 8 (gp_replayed p) response
         else gp_replayed p = gp_recorded p \<and> delivered = response))"
    using assms(4) by (auto simp: goals_input_def en split: option.splits sum.splits)
  also have "\<dots> \<longleftrightarrow> f_event_type request = EvGoalSend \<and>
      (\<exists>c k i. k < length (issued g c raws) \<and> k < length (gl_issuances g c) \<and>
         gl_issuances g c ! k = (f_ordinal request, i) \<and> id_at (f_body response) 8 = Inr i \<and>
         (if gl_enabled g then delivered = put_id 8 (issued g c raws ! k) response
          else issued g c raws ! k = i \<and> delivered = response))" (is "_ \<and> (\<exists>p. ?P p) \<longleftrightarrow> _ \<and> ?Q")
  proof -
    have "(\<exists>p. ?P p) \<longleftrightarrow> ?Q"
    proof
      assume "\<exists>p. ?P p"
      then obtain p k where "paired g raws (f_ordinal request) p k" "?P p" unfolding pair by blast
      then show ?Q by (intro exI [of _ "gp_client p"] exI [of _ k] exI [of _ "gp_recorded p"]) (simp add: paired_def)
    next
      assume ?Q
      then obtain c k i where q: "k < length (issued g c raws)" "k < length (gl_issuances g c)"
        "gl_issuances g c ! k = (f_ordinal request, i)" "id_at (f_body response) 8 = Inr i"
        "if gl_enabled g then delivered = put_id 8 (issued g c raws ! k) response
         else issued g c raws ! k = i \<and> delivered = response" by blast
      let ?p = "\<lparr>gp_recorded = i, gp_replayed = issued g c raws ! k, gp_client = c\<rparr>"
      have "paired g raws (f_ordinal request) ?p k" using q by (simp add: paired_def)
      then have "map_of (gl_pairs g') (f_ordinal request) = Some ?p" unfolding pair by blast
      with q show "\<exists>p. ?P p" by (intro exI [of _ ?p]) simp
    qed
    then show ?thesis by blast
  qed
  finally show ?thesis .
qed

theorem response_translation_witness:
  "\<exists>g' ns. normalize_effects demo_goals [put_id 0 9 demo_goal_send] = Inr (g', ns) \<and>
     goals_input g' demo_response demo_goal_send = Inr (put_id 8 9 demo_response)"
proof -
  have client: "goals_client demo_goals demo_goal_send = Inr ''navigator''"
    by (simp add: goals_client_def demo_goals_def demo_goal_send_id)
  have raw: "issue_of demo_goals (put_id 0 9 demo_goal_send) = Some (''navigator'', 9)"
    by (simp add: issue_of_def demo_goal_send_id client)
  obtain g' ns where run: "normalize_effects demo_goals [put_id 0 9 demo_goal_send] = Inr (g', ns)"
    by (simp add: goals_effect_def demo_goal_send_id client) (simp add: demo_goals_def get_at_def)
  have resp: "f_event_type demo_response = EvGoalResponse" "id_at (f_body demo_response) 8 = Inr 7"
    by (simp_all add: demo_response_def id_at_def get_range_def subslice_def encode_goal_response_def)
  have "goals_input g' demo_response demo_goal_send = Inr (put_id 8 9 demo_response)"
  proof (rule response_translation [OF demo_goals_new _ run, THEN iffD2])
    show "f_event_type demo_goal_send = EvGoalSend \<and>
      (\<exists>c k i. k < length (issued demo_goals c [put_id 0 9 demo_goal_send]) \<and>
         k < length (gl_issuances demo_goals c) \<and>
         gl_issuances demo_goals c ! k = (f_ordinal demo_goal_send, i) \<and> id_at (f_body demo_response) 8 = Inr i \<and>
         (if gl_enabled demo_goals
          then put_id 8 9 demo_response = put_id 8 (issued demo_goals c [put_id 0 9 demo_goal_send] ! k) demo_response
          else issued demo_goals c [put_id 0 9 demo_goal_send] ! k = i \<and> put_id 8 9 demo_response = demo_response))"
      by (intro conjI exI [of _ "''navigator''"] exI [of _ "0 :: nat"] exI [of _ "7 :: id16"])
        (simp_all add: resp demo_goal_send_id raw, simp_all add: demo_goals_def)
  qed (simp_all add: resp)
  with run show ?thesis by blast
qed

end
