(* ===== verification/Case_File.thy ===== *)
theory Case_File
  imports Reproduction Goal_Normalization
begin

text \<open>
  crates/rook-verify/src/case.rs: loading a case directory, which checks all evidence before any
  program is started, comparing identities and checking a build and a candidate against it.  The
  directory is a lookup from file names to contents, with whether the name stays inside the directory
  once symbolic links are resolved; reads are atomic.  The files' texts are ASCII: other UTF-8 text is
  refused here and is outside the model.  SHA-256 is a parameter, like BLAKE3.
\<close>

subsection \<open>Text files\<close>

definition text_of :: "bytes \<Rightarrow> string option" where
  "text_of bs = (if list_all (\<lambda>b. b < 128) bs then Some (map (\<lambda>b. char_of (unat b)) bs) else None)"

definition strip_cr :: "string \<Rightarrow> string" where
  "strip_cr s = (if s \<noteq> [] \<and> last s = char_of (13 :: nat) then butlast s else s)"

definition newline :: char where "newline = char_of (10 :: nat)"

text \<open>\<open>str::lines\<close>: the last line needs no newline, an empty one is dropped.\<close>

definition text_lines :: "string \<Rightarrow> string list" where
  "text_lines s =
     (let ps = split_on newline s
      in map strip_cr (butlast ps) @ (if last ps = [] then [] else [last ps]))"

text \<open>\<open>split_once\<close> and \<open>rsplitn(3, ' ')\<close>.\<close>

fun split_once_text :: "string \<Rightarrow> string \<Rightarrow> (string \<times> string) option" where
  "split_once_text sep [] = (if sep = [] then Some ([], []) else None)"
| "split_once_text sep (c # cs) =
     (case strip_prefix sep (c # cs) of
        Some r \<Rightarrow> Some ([], r)
      | None \<Rightarrow> map_option (\<lambda>(a, b). (c # a, b)) (split_once_text sep cs))"

definition rsplit3 :: "string \<Rightarrow> (string \<times> string \<times> string) option" where
  "rsplit3 s =
     (case rev (split_on CHR '' '' s) of
        a # b # c # cs \<Rightarrow> Some (a, b, join_on CHR '' '' (rev (c # cs)))
      | _ \<Rightarrow> None)"

datatype case_error =
    ReadManifest
  | MalformedHeader
  | KindNotExecutable string
  | MalformedManifestLine
  | MalformedSha string
  | InvalidManifestPath string
  | DuplicateManifestFile string
  | MissingEvidence string
  | EscapesDirectory string
  | FileIntegrity string
  | RequiredFileMissing string
  | ReadEvidence string
  | ExpectedKeyValue
  | EmptyKeyOrValue
  | DuplicateKey string
  | BadEntry goals_error
  | NotMeasured
  | UnknownGrade
  | DeclarationDrift string
  | UnsupportedInputSchema
  | DeadlineText
  | InvalidDeadline
  | HashMismatch string
  | BadStream stream_error
  | OutsideDeclared u64 string
  | StartingStateOnce
  | UnsupportedStart string
  | StartDrift
  | BadCaptured captured_error
  | CapturedDiffer
  | Drift string "string option" "string option"
  | UnsupportedCorpus
  | UnsupportedScenario
  | ArtifactMissing string
  | ArtifactDrift string
  | NoComponentArgument

text \<open>The errors made by \<open>mismatch\<close>; every other one is a plain \<open>anyhow\<close> error.\<close>

fun integrity_failure :: "case_error \<Rightarrow> bool" where
  "integrity_failure (FileIntegrity _) = True"
| "integrity_failure (HashMismatch _) = True"
| "integrity_failure CapturedDiffer = True"
| "integrity_failure _ = False"

definition case_exit_code :: "case_error \<Rightarrow> int" where
  "case_exit_code e = (if integrity_failure e then 1 else 2)"

definition hash_text :: "hash_fn \<Rightarrow> bytes \<Rightarrow> string" where
  "hash_text h bs = encode_hex (to_le (h bs))"

definition case_entry :: "identity_map \<Rightarrow> string \<Rightarrow> case_error + string" where
  "case_entry m key = (case entry m key of Inl e \<Rightarrow> Inl (BadEntry e) | Inr v \<Rightarrow> Inr v)"

fun values_lines :: "string list \<Rightarrow> identity_map \<Rightarrow> case_error + identity_map" where
  "values_lines [] m = Inr m"
| "values_lines (line # ls) m =
     (case split_once CHR ''='' line of
        None \<Rightarrow> Inl ExpectedKeyValue
      | Some (key, v) \<Rightarrow>
          if trim_text key = [] \<or> trim_text v = [] then Inl EmptyKeyOrValue
          else if map_of m (trim_text key) \<noteq> None then Inl (DuplicateKey (trim_text key))
          else values_lines ls (bt_insert (trim_text key) (trim_text v) m))"

definition values_of :: "string \<Rightarrow> case_error + identity_map" where
  "values_of s =
     values_lines (filter (\<lambda>l. l \<noteq> [] \<and> hd l \<noteq> CHR ''#'') (map trim_text (text_lines s))) []"

subsection \<open>Identities and declarations\<close>

definition CANDIDATE_KEYS :: "string list" where
  "CANDIDATE_KEYS = [''component_variant'', ''component_source_blake3'', ''component_binary_blake3'']"

text \<open>The keys of both maps in order, as a \<open>BTreeSet\<close>.\<close>

definition all_keys :: "identity_map \<Rightarrow> identity_map \<Rightarrow> string list" where
  "all_keys m m' = sorted_list_of_set (fst ` set m \<union> fst ` set m')"

definition same_identity :: "identity_map \<Rightarrow> identity_map \<Rightarrow> bool \<Rightarrow> case_error + unit" where
  "same_identity expected actual candidate =
     (case find (\<lambda>key. \<not> (candidate \<and> key \<in> set CANDIDATE_KEYS) \<and> map_of expected key \<noteq> map_of actual key)
             (all_keys expected actual) of
        None \<Rightarrow> Inr ()
      | Some key \<Rightarrow> Inl (Drift key (map_of expected key) (map_of actual key)))"

definition endpoint_key :: "u32 \<Rightarrow> string" where
  "endpoint_key actor = ''endpoint.'' @ show_word actor"

definition channel_key :: "u32 \<Rightarrow> string" where
  "channel_key ch = ''channel.'' @ show_word ch"

definition declares :: "string \<Rightarrow> frame \<Rightarrow> bool" where
  "declares declaration f =
     (case rsplit3 declaration of
        None \<Rightarrow> False
      | Some (types, direction, _) \<Rightarrow>
          direction = (if frame_kind f = KEmit then ''effect'' else ''input'') \<and>
          event_type_name (f_event_type f) \<in> set (split_on CHR '','' types))"

definition validate_event :: "frame \<Rightarrow> identity_map \<Rightarrow> case_error + unit" where
  "validate_event f m =
     (if frame_kind f = KMarker \<or> frame_kind f = KGap then Inr ()
      else case case_entry m (endpoint_key (f_src_actor f)) of
        Inl e \<Rightarrow> Inl e
      | Inr _ \<Rightarrow>
          (case case_entry m (endpoint_key (f_dst_actor f)) of
             Inl e \<Rightarrow> Inl e
           | Inr _ \<Rightarrow>
               (case case_entry m (channel_key (f_channel_id f)) of
                  Inl e \<Rightarrow> Inl e
                | Inr declaration \<Rightarrow>
                    if declares declaration f then Inr ()
                    else Inl (OutsideDeclared (f_ordinal f) (channel_key (f_channel_id f))))))"

text \<open>The checks of a list in order: the first failure.\<close>

fun check_each :: "('a \<Rightarrow> 'e + unit) \<Rightarrow> 'a list \<Rightarrow> 'e + unit" where
  "check_each P [] = Inr ()"
| "check_each P (x # xs) = (case P x of Inl e \<Rightarrow> Inl e | Inr _ \<Rightarrow> check_each P xs)"

subsection \<open>Loading a case\<close>

type_synonym case_dir = "string \<Rightarrow> (bool \<times> bytes) option" \<comment> \<open>inside the directory, contents\<close>

definition read_file :: "case_dir \<Rightarrow> string \<Rightarrow> bytes option" where
  "read_file dir name = map_option snd (dir name)"

definition read_text :: "case_dir \<Rightarrow> string \<Rightarrow> string option" where
  "read_text dir name = (case read_file dir name of None \<Rightarrow> None | Some bs \<Rightarrow> text_of bs)"

text \<open>
  \<open>Path::components\<close> are all normal: repeated slashes and inner dots are dropped by it, a leading
  slash or dot and any parent component are not.
\<close>

definition normal_path :: "string \<Rightarrow> bool" where
  "normal_path name =
     (let ps = split_on CHR ''/'' name in hd ps \<noteq> [] \<and> hd ps \<noteq> ''.'' \<and> ''..'' \<notin> set ps)"

definition MANIFEST_PREFIX :: string where "MANIFEST_PREFIX = ''# rook-capsule-v1 kind=''"

definition manifest_line ::
  "(bytes \<Rightarrow> bytes) \<Rightarrow> case_dir \<Rightarrow> string set \<Rightarrow> string \<Rightarrow> case_error + string" where
  "manifest_line sha dir covered line =
     (case split_once_text ''  '' line of
        None \<Rightarrow> Inl MalformedManifestLine
      | Some (digest, name) \<Rightarrow>
          if \<not> (length digest = 64 \<and> list_all (\<lambda>c. hex_value c \<noteq> None) digest) then Inl (MalformedSha name)
          else if \<not> (normal_path name \<and> name \<noteq> []) then Inl (InvalidManifestPath name)
          else if name \<in> covered then Inl (DuplicateManifestFile name)
          else (case dir name of
              None \<Rightarrow> Inl (MissingEvidence name)
            | Some (inside, bs) \<Rightarrow>
                if \<not> inside then Inl (EscapesDirectory name)
                else if encode_hex (sha bs) \<noteq> map lower_hex digest then Inl (FileIntegrity name)
                else Inr name))"

fun manifest_lines ::
  "(bytes \<Rightarrow> bytes) \<Rightarrow> case_dir \<Rightarrow> string list \<Rightarrow> string set \<Rightarrow> case_error + string set" where
  "manifest_lines sha dir [] covered = Inr covered"
| "manifest_lines sha dir (line # ls) covered =
     (case manifest_line sha dir covered line of
        Inl e \<Rightarrow> Inl e
      | Inr name \<Rightarrow> manifest_lines sha dir ls (insert name covered))"

definition REQUIRED_FILES :: "string list" where
  "REQUIRED_FILES = [''case'', ''identity'', ''expected'', ''events.bin'', ''effects_captured.bin'']"

definition check_manifest ::
  "(bytes \<Rightarrow> bytes) \<Rightarrow> case_dir \<Rightarrow> string \<Rightarrow> case_error + string set" where
  "check_manifest sha dir manifest =
     (case text_lines manifest of
        [] \<Rightarrow> Inl MalformedHeader
      | first # ls \<Rightarrow>
          (case strip_prefix MANIFEST_PREFIX first of
             None \<Rightarrow> Inl MalformedHeader
           | Some kind \<Rightarrow>
               if kind \<noteq> ''native-adapter'' then Inl (KindNotExecutable kind)
               else (case manifest_lines sha dir
                       (filter (\<lambda>l. trim_text l \<noteq> [] \<and> hd l \<noteq> CHR ''#'') ls) {} of
                   Inl e \<Rightarrow> Inl e
                 | Inr covered \<Rightarrow>
                     (case find (\<lambda>n. n \<notin> covered) REQUIRED_FILES of
                        Some n \<Rightarrow> Inl (RequiredFileMissing n) | None \<Rightarrow> Inr covered))))"

definition read_values :: "case_dir \<Rightarrow> string \<Rightarrow> case_error + identity_map" where
  "read_values dir name =
     (case read_text dir name of None \<Rightarrow> Inl (ReadEvidence name) | Some t \<Rightarrow> values_of t)"

definition DECLARATION_KEYS :: "string list" where
  "DECLARATION_KEYS =
     [''corpus'', ''scenario'', ''property'', ''scope.completion'', ''scope.observation_end'',
      ''comparison_policy'', ''origin'', ''grade_reason'', ''goal_response_deadline_ns'']"

definition IDENTITY_KEYS :: "string list" where
  "IDENTITY_KEYS =
     [''component'', ''component_variant'', ''adapter'', ''adapter_protocol'', ''starting_state'',
      ''starting_state_blake3'', ''normalization'', ''normalization_source_blake3'', ''property'',
      ''property_input_schema'', ''property_source_blake3'']"

definition has_entry :: "identity_map \<Rightarrow> string \<Rightarrow> case_error + unit" where
  "has_entry m key = (case case_entry m key of Inl e \<Rightarrow> Inl e | Inr _ \<Rightarrow> Inr ())"

text \<open>\<open>ensure!(entry(m, key)? == v, e)\<close>.\<close>

definition entry_is :: "identity_map \<Rightarrow> string \<Rightarrow> (string \<Rightarrow> bool) \<Rightarrow> case_error \<Rightarrow> case_error + unit" where
  "entry_is m key P e = (case case_entry m key of Inl e' \<Rightarrow> Inl e' | Inr v \<Rightarrow> if P v then Inr () else Inl e)"

definition positive_deadline :: "string \<Rightarrow> case_error + unit" where
  "positive_deadline v =
     (case parse_i64 v of
        None \<Rightarrow> Inl DeadlineText | Some n \<Rightarrow> if n > 0 then Inr () else Inl InvalidDeadline)"

text \<open>The checks of the declarations, in order.\<close>

definition check_declarations ::
  "identity_map \<Rightarrow> identity_map \<Rightarrow> identity_map \<Rightarrow> case_error + unit" where
  "check_declarations declaration m expected =
     check_each id
       ([entry_is expected ''claim'' (\<lambda>v. v = ''measured'') NotMeasured,
         entry_is expected ''grade''
           (\<lambda>v. v \<in> set [''Complete'', ''Rebuilt'', ''Inferred'', ''Watch-only'']) UnknownGrade] @
        map (has_entry declaration) DECLARATION_KEYS @
        map (has_entry m) IDENTITY_KEYS @
        [entry_is m ''property'' (\<lambda>v. map_of declaration ''property'' = Some v)
           (DeclarationDrift ''property''),
         entry_is m ''property_input_schema'' (\<lambda>v. v = INPUT_SCHEMA) UnsupportedInputSchema,
         (case case_entry declaration ''goal_response_deadline_ns'' of
            Inl e \<Rightarrow> Inl e | Inr v \<Rightarrow> positive_deadline v)])"

definition expect_hash :: "identity_map \<Rightarrow> string \<Rightarrow> string \<Rightarrow> case_error + unit" where
  "expect_hash expected key actual = entry_is expected key (\<lambda>v. v = actual) (HashMismatch key)"

definition start_method :: "string \<Rightarrow> u16 option" where
  "start_method v = (if v = ''fresh'' then Some 1 else if v = ''snapshot'' then Some 2 else None)"

definition check_start :: "identity_map \<Rightarrow> frame list \<Rightarrow> case_error + unit" where
  "check_start m frames =
     (case filter (\<lambda>f. f_event_type f = EvStartingState) frames of
        [s] \<Rightarrow>
          if f_ordinal s \<noteq> 1 then Inl StartingStateOnce
          else (case case_entry m ''starting_state'' of
              Inl e \<Rightarrow> Inl e
            | Inr v \<Rightarrow>
                (case start_method v of
                   None \<Rightarrow> Inl (UnsupportedStart v)
                 | Some method \<Rightarrow>
                     if take 2 (f_body s) = to_le method
                     then entry_is m ''starting_state_blake3'' (\<lambda>v. encode_hex (drop 2 (f_body s)) = v) StartDrift
                     else Inl StartDrift))
      | _ \<Rightarrow> Inl StartingStateOnce)"

definition check_captured :: "bytes \<Rightarrow> frame list \<Rightarrow> case_error + unit" where
  "check_captured captured frames =
     (case decode_captured captured of
        Inl e \<Rightarrow> Inl (BadCaptured e)
      | Inr ps \<Rightarrow> if map payload (filter is_emit frames) \<noteq> ps then Inl CapturedDiffer else Inr ())"

definition check_hashes ::
  "hash_fn \<Rightarrow> keyed_fn \<Rightarrow> identity_map \<Rightarrow> identity_map \<Rightarrow> frame list \<Rightarrow> case_error + unit" where
  "check_hashes h kh declaration expected frames =
     (case case_entry declaration ''corpus'' of
        Inl e \<Rightarrow> Inl e
      | Inr corpus \<Rightarrow>
          let hashes = hash_frames h kh (ascii corpus) frames in
          check_each (\<lambda>(key, actual). expect_hash expected key (encode_hex (to_le actual)))
            [(''trace_hash'', n_trace_hash hashes), (''run_hash'', n_run_hash hashes),
             (''output_digest'', n_output_digest hashes)])"

text \<open>The recorded bytes against the declarations: what \<open>Case::load\<close> checks of the evidence.\<close>

definition check_evidence ::
  "hash_fn \<Rightarrow> keyed_fn \<Rightarrow> identity_map \<Rightarrow> identity_map \<Rightarrow> identity_map \<Rightarrow> bytes \<Rightarrow> bytes \<Rightarrow>
     case_error + frame list" where
  "check_evidence h kh declaration m expected events captured =
     (case check_each (\<lambda>(key, bs). expect_hash expected key (hash_text h bs))
             [(''raw_record_blake3'', events), (''effects_captured_blake3'', captured)] of
        Inl e \<Rightarrow> Inl e
      | Inr _ \<Rightarrow>
          (case decode_stream h events of
             Inl e \<Rightarrow> Inl (BadStream e)
           | Inr frames \<Rightarrow>
               (case check_each id
                       [check_each (\<lambda>f. validate_event f m) frames, check_start m frames,
                        check_captured captured frames, check_hashes h kh declaration expected frames] of
                  Inl e \<Rightarrow> Inl e | Inr _ \<Rightarrow> Inr frames)))"

record case_file =
  cf_identity :: identity_map
  cf_declaration :: identity_map
  cf_expected :: identity_map
  cf_frames :: "frame list"
  cf_case_id :: string
  cf_raw_hash :: string
  cf_captured_hash :: string
  cf_covered :: "string set"

definition case_load ::
  "hash_fn \<Rightarrow> keyed_fn \<Rightarrow> (bytes \<Rightarrow> bytes) \<Rightarrow> case_dir \<Rightarrow> case_error + case_file" where
  "case_load h kh sha dir =
     (case read_text dir ''MANIFEST.sha256'' of
        None \<Rightarrow> Inl ReadManifest
      | Some manifest \<Rightarrow>
          (case check_manifest sha dir manifest of
             Inl e \<Rightarrow> Inl e
           | Inr covered \<Rightarrow>
               (case read_values dir ''case'' of
                  Inl e \<Rightarrow> Inl e
                | Inr declaration \<Rightarrow>
                    (case read_values dir ''identity'' of
                       Inl e \<Rightarrow> Inl e
                     | Inr m \<Rightarrow>
                         (case read_values dir ''expected'' of
                            Inl e \<Rightarrow> Inl e
                          | Inr expected \<Rightarrow>
                              (case check_declarations declaration m expected of
                                 Inl e \<Rightarrow> Inl e
                               | Inr _ \<Rightarrow>
                                   (case read_file dir ''events.bin'' of
                                      None \<Rightarrow> Inl (ReadEvidence ''events.bin'')
                                    | Some events \<Rightarrow>
                                        (case read_file dir ''effects_captured.bin'' of
                                           None \<Rightarrow> Inl (ReadEvidence ''effects_captured.bin'')
                                         | Some captured \<Rightarrow>
                                             (case check_evidence h kh declaration m expected events captured of
                                                Inl e \<Rightarrow> Inl e
                                              | Inr frames \<Rightarrow>
                                                  Inr \<lparr>cf_identity = m, cf_declaration = declaration,
                                                     cf_expected = expected, cf_frames = frames,
                                                     cf_case_id = hash_text h (ascii manifest),
                                                     cf_raw_hash = hash_text h events,
                                                     cf_captured_hash = hash_text h captured,
                                                     cf_covered = covered\<rparr>)))))))))"

subsection \<open>Builds and candidates\<close>

record artifact =
  ar_path :: string
  ar_blake3 :: string

record build =
  bd_identity :: identity_map
  bd_adapter :: artifact
  bd_component :: artifact
  bd_property :: artifact
  bd_dependencies :: "(string, artifact) btree"
  bd_adapter_args :: "string list"
  bd_property_args :: "string list"

text \<open>A path relative to the build file, resolved: the canonical path and the contents.\<close>

type_synonym artifacts = "string \<Rightarrow> (string \<times> bytes) option"

definition check_artifact :: "hash_fn \<Rightarrow> artifacts \<Rightarrow> string \<Rightarrow> artifact \<Rightarrow> case_error + artifact" where
  "check_artifact h store name a =
     (case store (ar_path a) of
        None \<Rightarrow> Inl (ArtifactMissing name)
      | Some (path, bs) \<Rightarrow>
          if hash_text h bs \<noteq> ar_blake3 a then Inl (ArtifactDrift name) else Inr (a\<lparr>ar_path := path\<rparr>))"

fun check_dependencies ::
  "hash_fn \<Rightarrow> artifacts \<Rightarrow> (string, artifact) btree \<Rightarrow> case_error + (string, artifact) btree" where
  "check_dependencies h store [] = Inr []"
| "check_dependencies h store ((key, a) # ds) =
     (case check_artifact h store key a of
        Inl e \<Rightarrow> Inl e
      | Inr a' \<Rightarrow>
          (case check_dependencies h store ds of Inl e \<Rightarrow> Inl e | Inr ds' \<Rightarrow> Inr ((key, a') # ds')))"

text \<open>The artifacts that the identity must pin, in the order they are checked.\<close>

definition pinned :: "build \<Rightarrow> (string \<times> artifact) list" where
  "pinned b =
     [(''adapter_binary_blake3'', bd_adapter b), (''component_binary_blake3'', bd_component b),
      (''property_binary_blake3'', bd_property b)] @ bd_dependencies b"

definition build_load :: "hash_fn \<Rightarrow> artifacts \<Rightarrow> build \<Rightarrow> case_error + build" where
  "build_load h store b =
     (case check_artifact h store ''adapter_binary_blake3'' (bd_adapter b) of
        Inl e \<Rightarrow> Inl e
      | Inr adapter \<Rightarrow>
          (case check_artifact h store ''component_binary_blake3'' (bd_component b) of
             Inl e \<Rightarrow> Inl e
           | Inr component \<Rightarrow>
               (case check_artifact h store ''property_binary_blake3'' (bd_property b) of
                  Inl e \<Rightarrow> Inl e
                | Inr property \<Rightarrow>
                    (case check_dependencies h store (bd_dependencies b) of
                       Inl e \<Rightarrow> Inl e
                     | Inr dependencies \<Rightarrow>
                         let b' = b\<lparr>bd_adapter := adapter, bd_component := component,
                             bd_property := property, bd_dependencies := dependencies\<rparr>
                         in (case check_each
                               (\<lambda>(key, a). entry_is (bd_identity b') key (\<lambda>v. v = ar_blake3 a) (ArtifactDrift key))
                               (pinned b') of
                             Inl e \<Rightarrow> Inl e
                           | Inr _ \<Rightarrow>
                               if ''{component}'' \<in> set (bd_adapter_args b') then Inr b'
                               else Inl NoComponentArgument)))))"

definition build_candidate :: "build \<Rightarrow> build \<Rightarrow> case_error + unit" where
  "build_candidate b c =
     (case same_identity (bd_identity b) (bd_identity c) True of
        Inl e \<Rightarrow> Inl e
      | Inr _ \<Rightarrow>
          if ar_blake3 (bd_adapter b) \<noteq> ar_blake3 (bd_adapter c) then Inl (ArtifactDrift ''adapter'')
          else if ar_blake3 (bd_property b) \<noteq> ar_blake3 (bd_property c) then Inl (ArtifactDrift ''property'')
          else if map (\<lambda>(key, a). (key, ar_blake3 a)) (bd_dependencies b) \<noteq>
                  map (\<lambda>(key, a). (key, ar_blake3 a)) (bd_dependencies c) then Inl (ArtifactDrift ''dependency'')
          else if bd_adapter_args b \<noteq> bd_adapter_args c then Inl (ArtifactDrift ''adapter_args'')
          else if bd_property_args b \<noteq> bd_property_args c then Inl (ArtifactDrift ''property_args'')
          else Inr ())"

text \<open>The argument vector of the adapter: only the placeholder is replaced.\<close>

definition build_command :: "build \<Rightarrow> string \<times> string list" where
  "build_command b =
     (ar_path (bd_adapter b),
      map (\<lambda>arg. if arg = ''{component}'' then ar_path (bd_component b) else arg) (bd_adapter_args b))"

definition REFERENCE_CORPUS :: string where "REFERENCE_CORPUS = ''adapter-ref@1''"

text \<open>
  \<open>reference_identity\<close>: the identity template compiled into the runner and the content identities of
  the reference programs (\<open>source_identity\<close>) are parameters.
\<close>

definition reference_identity ::
  "string \<Rightarrow> (string \<times> string) list \<Rightarrow> case_file \<Rightarrow> case_error + identity_map" where
  "reference_identity template sources c =
     (case case_entry (cf_declaration c) ''corpus'' of
        Inl e \<Rightarrow> Inl e
      | Inr corpus \<Rightarrow>
          if corpus \<noteq> REFERENCE_CORPUS then Inl UnsupportedCorpus
          else (case find (\<lambda>sc. map_of (cf_declaration c) ''scenario'' = Some (sn_name sc)) scenarios of
              None \<Rightarrow> Inl UnsupportedScenario
            | Some sc \<Rightarrow>
                (case values_of template of
                   Inl e \<Rightarrow> Inl e
                 | Inr m \<Rightarrow>
                     let m' = fold (\<lambda>(k, v). bt_insert k v) sources (bt_insert ''property'' (sn_property sc) m)
                     in (case check_each id
                           [same_identity (cf_identity c) m' False,
                            entry_is (cf_declaration c) ''property'' (\<lambda>v. v = sn_property sc) (DeclarationDrift ''property''),
                            entry_is (cf_declaration c) ''scope.completion'' (\<lambda>v. v = sn_completion sc)
                              (DeclarationDrift ''scope.completion''),
                            entry_is (cf_declaration c) ''scope.observation_end'' (\<lambda>v. v = ''end_of_recording'')
                              (DeclarationDrift ''scope.observation_end''),
                            entry_is (cf_declaration c) ''goal_response_deadline_ns''
                              (\<lambda>v. v = show_word GOAL_RESPONSE_DEADLINE_NS)
                              (DeclarationDrift ''goal_response_deadline_ns'')] of
                         Inl e \<Rightarrow> Inl e | Inr _ \<Rightarrow> Inr m'))))"

section \<open>What the checks establish\<close>

lemma check_each_Inr [simp]: "check_each P xs = Inr u \<longleftrightarrow> (\<forall>x\<in>set xs. P x = Inr ())"
  by (induction xs) (auto split: sum.splits)

lemma entry_is_Inr [simp]: "entry_is m key P e = Inr u \<longleftrightarrow> (\<exists>v. map_of m key = Some v \<and> P v)"
  by (auto simp: entry_is_def case_entry_def entry_def split: option.splits)

lemma has_entry_Inr [simp]: "has_entry m key = Inr u \<longleftrightarrow> (\<exists>v. map_of m key = Some v)"
  by (auto simp: has_entry_def case_entry_def entry_def split: option.splits)

lemma case_entry_Inr [simp]: "case_entry m key = Inr v \<longleftrightarrow> map_of m key = Some v"
  by (auto simp: case_entry_def entry_def split: option.splits)

lemma same_identity_Inr:
  "same_identity m m' cand = Inr u \<longleftrightarrow>
     (\<forall>key. cand \<and> key \<in> set CANDIDATE_KEYS \<or> map_of m key = map_of m' key)"
proof -
  have keys: "set (all_keys m m') = dom (map_of m) \<union> dom (map_of m')"
    by (simp add: all_keys_def dom_map_of_conv_image_fst)
  have "same_identity m m' cand = Inr u \<longleftrightarrow>
      find (\<lambda>key. \<not> (cand \<and> key \<in> set CANDIDATE_KEYS) \<and> map_of m key \<noteq> map_of m' key) (all_keys m m') = None"
    by (simp add: same_identity_def split: option.splits)
  then have "same_identity m m' cand = Inr u \<longleftrightarrow>
      (\<forall>key\<in>dom (map_of m) \<union> dom (map_of m'). cand \<and> key \<in> set CANDIDATE_KEYS \<or> map_of m key = map_of m' key)"
    unfolding find_None_iff keys by blast
  moreover have "map_of m key = map_of m' key" if "key \<notin> dom (map_of m) \<union> dom (map_of m')" for key
  proof -
    from that have "map_of m key = None" "map_of m' key = None" by (simp_all add: domIff)
    then show ?thesis by simp
  qed
  ultimately show ?thesis by blast
qed


subsection \<open>Candidates\<close>

lemma check_artifact_Inr:
  "check_artifact h store name a = Inr a' \<Longrightarrow>
     \<exists>path bs. store (ar_path a) = Some (path, bs) \<and> hash_text h bs = ar_blake3 a \<and> a' = a\<lparr>ar_path := path\<rparr>"
  by (auto simp: check_artifact_def split: option.splits if_splits)

definition checked :: "hash_fn \<Rightarrow> artifacts \<Rightarrow> (string \<times> artifact) list \<Rightarrow> (string \<times> artifact) list \<Rightarrow> bool" where
  "checked h store = list_all2 (\<lambda>(key, a) (key', a'). key' = key \<and> (\<exists>name. check_artifact h store name a = Inr a'))"

lemma check_dependencies_Inr: "check_dependencies h store ds = Inr ds' \<Longrightarrow> checked h store ds ds'"
  by (induction ds arbitrary: ds' rule: check_dependencies.induct)
    (auto simp: checked_def split: sum.splits prod.splits)

text \<open>The programs a build runs besides the component, with the bytes found for them.\<close>

definition fixed_artifacts :: "build \<Rightarrow> (string \<times> artifact) list" where
  "fixed_artifacts b = (''adapter'', bd_adapter b) # (''property'', bd_property b) # bd_dependencies b"

definition programs :: "artifacts \<Rightarrow> (string \<times> artifact) list \<Rightarrow> (string \<times> bytes option) list" where
  "programs store as = map (\<lambda>(key, a). (key, map_option snd (store (ar_path a)))) as"

lemma hash_text_eq: "hash_text h bs = hash_text h bs' \<longleftrightarrow> h bs = h bs'"
proof
  assume "hash_text h bs = hash_text h bs'"
  then have "decode_hex (encode_hex (to_le (h bs))) = decode_hex (encode_hex (to_le (h bs')))"
    by (simp add: hash_text_def)
  then have "from_le (to_le (h bs)) = h bs'" by (simp only: decode_encode_hex option.inject from_to_le)
  then show "h bs = h bs'" by simp
qed (simp add: hash_text_def)

lemma programs_hashes:
  assumes "checked h store as as'"
  shows "map (\<lambda>(key, a). (key, ar_blake3 a)) as' = map (\<lambda>(key, bs). (key, hash_text h (the bs))) (programs store as)"
    and "None \<notin> snd ` set (programs store as)"
  using assms unfolding checked_def
  by (induction rule: list_all2_induct) (auto simp: programs_def dest: check_artifact_Inr)

lemma build_load_Inr:
  assumes "build_load h store b = Inr b'"
  shows "checked h store (fixed_artifacts b) (fixed_artifacts b')"
    and "bd_identity b' = bd_identity b" "bd_adapter_args b' = bd_adapter_args b"
      "bd_property_args b' = bd_property_args b"
  using assms
  by (auto simp: build_load_def Let_def fixed_artifacts_def checked_def split: sum.splits if_splits
      dest: check_dependencies_Inr [unfolded checked_def])

lemma build_candidate_Inr:
  "build_candidate b c = Inr u \<longleftrightarrow>
     same_identity (bd_identity b) (bd_identity c) True = Inr () \<and>
     map (\<lambda>(key, a). (key, ar_blake3 a)) (fixed_artifacts b) = map (\<lambda>(key, a). (key, ar_blake3 a)) (fixed_artifacts c) \<and>
     bd_adapter_args b = bd_adapter_args c \<and> bd_property_args b = bd_property_args c"
  by (auto simp: build_candidate_def fixed_artifacts_def split: sum.splits)

lemma same_hashes_same_bytes:
  assumes "map (\<lambda>(key, bs). (key, hash_text h (the bs))) xs = map (\<lambda>(key, bs). (key, hash_text h (the bs))) ys"
    and "None \<notin> snd ` set xs" "None \<notin> snd ` set ys" and "inj_on h {bs. Some bs \<in> snd ` (set xs \<union> set ys)}"
  shows "xs = ys"
proof (rule map_inj_on [OF assms(1)])
  show "inj_on (\<lambda>(key, bs). (key, hash_text h (the bs))) (set xs \<union> set ys)"
  proof (rule inj_onI, clarsimp)
    fix key bs bs'
    assume "(key, bs) \<in> set xs \<or> (key, bs) \<in> set ys" "(key, bs') \<in> set xs \<or> (key, bs') \<in> set ys"
      and "hash_text h (the bs) = hash_text h (the bs')"
    moreover from this obtain x x' where "bs = Some x" "bs' = Some x'"
      using assms(2,3) by (cases bs; cases bs') (auto simp: image_iff)
    ultimately show "bs = bs'"
      using inj_onD [OF assms(4), of x x'] by (force simp: hash_text_eq image_iff)
  qed
qed

text \<open>
  C33. A candidate accepted against a build can differ in the component only: absent a BLAKE3 collision
  the adapter, the property program and every dependency have the same bytes, the arguments are the
  same, and the identities agree on every key but the component's three.
\<close>

theorem candidate_changes_component_only:
  assumes "build_load h store b = Inr b'" and "build_load h store' c = Inr c'"
    and "build_candidate b' c' = Inr ()"
    and "inj_on h {bs. Some bs \<in> snd ` (set (programs store (fixed_artifacts b)) \<union>
      set (programs store' (fixed_artifacts c)))}"
  shows "programs store (fixed_artifacts b) = programs store' (fixed_artifacts c) \<and>
    bd_adapter_args b = bd_adapter_args c \<and> bd_property_args b = bd_property_args c \<and>
    (\<forall>key. map_of (bd_identity b) key \<noteq> map_of (bd_identity c) key \<longrightarrow> key \<in> set CANDIDATE_KEYS)"
proof -
  note b = build_load_Inr [OF assms(1)] and c = build_load_Inr [OF assms(2)]
  note same = assms(3) [unfolded build_candidate_Inr]
  have "programs store (fixed_artifacts b) = programs store' (fixed_artifacts c)"
    by (rule same_hashes_same_bytes [OF _ programs_hashes(2) [OF b(1)] programs_hashes(2) [OF c(1)] assms(4)])
      (use same programs_hashes(1) [OF b(1)] programs_hashes(1) [OF c(1)] in simp)
  moreover have "\<forall>key. map_of (bd_identity b) key \<noteq> map_of (bd_identity c) key \<longrightarrow> key \<in> set CANDIDATE_KEYS"
    using same b(2) c(2) by (auto simp: same_identity_Inr)
  ultimately show ?thesis using same b c by simp
qed

definition demo_fingerprint :: hash_fn where
  "demo_fingerprint bs = (case bs of [] \<Rightarrow> 0 | b # _ \<Rightarrow> ucast b)"

definition demo_store :: artifacts where
  "demo_store = [''adapter'' \<mapsto> (''/adapter'', [1]), ''property'' \<mapsto> (''/property'', [2]),
     ''old'' \<mapsto> (''/old'', [3]), ''new'' \<mapsto> (''/new'', [4])]"

definition demo_build :: "string \<Rightarrow> string \<Rightarrow> bytes \<Rightarrow> build" where
  "demo_build root component bs =
     \<lparr>bd_identity = [(''adapter_binary_blake3'', hash_text demo_fingerprint [1]),
        (''component_binary_blake3'', hash_text demo_fingerprint bs),
        (''property_binary_blake3'', hash_text demo_fingerprint [2])],
      bd_adapter = \<lparr>ar_path = root @ ''adapter'', ar_blake3 = hash_text demo_fingerprint [1]\<rparr>,
      bd_component = \<lparr>ar_path = root @ component, ar_blake3 = hash_text demo_fingerprint bs\<rparr>,
      bd_property = \<lparr>ar_path = root @ ''property'', ar_blake3 = hash_text demo_fingerprint [2]\<rparr>,
      bd_dependencies = [], bd_adapter_args = [''{component}''], bd_property_args = []\<rparr>"

lemma demo_builds:
  "build_load demo_fingerprint demo_store (demo_build [] ''old'' [3]) = Inr (demo_build ''/'' ''old'' [3])"
  "build_load demo_fingerprint demo_store (demo_build [] ''new'' [4]) = Inr (demo_build ''/'' ''new'' [4])"
  by (simp_all add: build_load_def demo_build_def check_artifact_def demo_store_def pinned_def entry_is_def
      case_entry_def entry_def)

theorem candidate_changes_component_only_witness:
  "build_load demo_fingerprint demo_store (demo_build [] ''old'' [3]) = Inr (demo_build ''/'' ''old'' [3]) \<and>
   build_command (demo_build ''/'' ''old'' [3]) \<noteq> build_command (demo_build ''/'' ''new'' [4]) \<and>
   programs demo_store (fixed_artifacts (demo_build [] ''old'' [3])) =
     programs demo_store (fixed_artifacts (demo_build [] ''new'' [4]))"
proof -
  have "build_candidate (demo_build ''/'' ''old'' [3]) (demo_build ''/'' ''new'' [4]) = Inr ()"
    unfolding build_candidate_Inr same_identity_Inr
    by (auto simp: demo_build_def fixed_artifacts_def CANDIDATE_KEYS_def)
  moreover have "inj_on demo_fingerprint {bs. Some bs \<in> snd ` (set (programs demo_store (fixed_artifacts
      (demo_build [] ''old'' [3]))) \<union> set (programs demo_store (fixed_artifacts (demo_build [] ''new'' [4]))))}"
    by (auto simp: inj_on_def programs_def fixed_artifacts_def demo_build_def demo_store_def demo_fingerprint_def)
  ultimately have "programs demo_store (fixed_artifacts (demo_build [] ''old'' [3])) =
      programs demo_store (fixed_artifacts (demo_build [] ''new'' [4]))"
    using candidate_changes_component_only [OF demo_builds] by blast
  then show ?thesis using demo_builds(1) by (simp add: build_command_def demo_build_def)
qed

subsection \<open>The case identity\<close>

lemma text_of_ascii: "text_of bs = Some t \<Longrightarrow> ascii t = bs"
proof -
  have "(of_char (char_of (unat b)) :: byte) = b" for b :: byte
  proof -
    have "unat b < 256" using unsigned_less [of b, where ?'a = nat] by simp
    have "(of_char (char_of (unat b)) :: byte) = of_nat (of_char (char_of (unat b)))"
      by (rule of_nat_of_char [symmetric])
    also have "\<dots> = b" using \<open>unat b < 256\<close> by simp
    finally show ?thesis .
  qed
  then show "text_of bs = Some t \<Longrightarrow> ascii t = bs"
    by (auto simp: text_of_def ascii_def list_all_iff split: if_splits intro!: map_idI)
qed

definition file_bytes :: "case_dir \<Rightarrow> string \<Rightarrow> bytes" where
  "file_bytes dir name = the (read_file dir name)"

lemma manifest_line_Inr:
  assumes "manifest_line sha dir covered line = Inr name"
  shows "\<exists>digest. split_once_text ''  '' line = Some (digest, name) \<and> name \<notin> covered \<and>
    read_file dir name = Some (file_bytes dir name) \<and> encode_hex (sha (file_bytes dir name)) = map lower_hex digest"
  using assms
  by (auto simp: manifest_line_def read_file_def file_bytes_def split: option.splits if_splits prod.splits)

lemma manifest_lines_same:
  assumes "manifest_lines sha dir ls covered = Inr A" and "manifest_lines sha dir' ls covered = Inr A'"
  shows "A = A' \<and> covered \<subseteq> A \<and> (\<forall>n\<in>A - covered. sha (file_bytes dir n) = sha (file_bytes dir' n) \<and>
    read_file dir n = Some (file_bytes dir n) \<and> read_file dir' n = Some (file_bytes dir' n))"
  using assms
proof (induction sha dir ls covered arbitrary: dir' rule: manifest_lines.induct)
  case (2 sha dir line ls covered)
  from "2.prems" obtain n n' where n: "manifest_line sha dir covered line = Inr n"
      "manifest_lines sha dir ls (insert n covered) = Inr A"
    and n': "manifest_line sha dir' covered line = Inr n'"
      "manifest_lines sha dir' ls (insert n' covered) = Inr A'" by (auto split: sum.splits)
  from manifest_line_Inr [OF n(1)] manifest_line_Inr [OF n'(1)] have same: "n' = n"
    and hashes: "encode_hex (sha (file_bytes dir n)) = encode_hex (sha (file_bytes dir' n))"
    and reads: "read_file dir n = Some (file_bytes dir n)" "read_file dir' n = Some (file_bytes dir' n)" by auto
  from hashes have "sha (file_bytes dir n) = sha (file_bytes dir' n)"
    by (metis decode_encode_hex option.inject)
  with "2.IH" [OF n(1) n(2) n'(2) [unfolded same]] reads show ?case by auto
qed simp

lemma check_manifest_Inr:
  assumes "check_manifest sha dir manifest = Inr A"
  shows "manifest_lines sha dir (filter (\<lambda>l. trim_text l \<noteq> [] \<and> hd l \<noteq> CHR ''#'') (tl (text_lines manifest))) {} = Inr A"
    and "set REQUIRED_FILES \<subseteq> A"
  using assms
  by (auto simp: check_manifest_def find_None_iff split: list.splits option.splits if_splits sum.splits)

lemma case_load_Inr:
  assumes "case_load h kh sha dir = Inr c"
  shows "\<exists>manifest. text_of (file_bytes dir ''MANIFEST.sha256'') = Some manifest \<and>
    check_manifest sha dir manifest = Inr (cf_covered c) \<and>
    read_values dir ''case'' = Inr (cf_declaration c) \<and> read_values dir ''identity'' = Inr (cf_identity c) \<and>
    read_values dir ''expected'' = Inr (cf_expected c) \<and>
    check_declarations (cf_declaration c) (cf_identity c) (cf_expected c) = Inr () \<and>
    check_evidence h kh (cf_declaration c) (cf_identity c) (cf_expected c) (file_bytes dir ''events.bin'')
      (file_bytes dir ''effects_captured.bin'') = Inr (cf_frames c) \<and>
    cf_case_id c = hash_text h (file_bytes dir ''MANIFEST.sha256'') \<and>
    cf_raw_hash c = hash_text h (file_bytes dir ''events.bin'') \<and>
    cf_captured_hash c = hash_text h (file_bytes dir ''effects_captured.bin'')"
  using assms
  by (auto simp: case_load_def read_text_def file_bytes_def text_of_ascii split: option.splits sum.splits)

lemma case_load_reads:
  assumes "case_load h kh sha dir = Inr c" and "n \<in> insert ''MANIFEST.sha256'' (set REQUIRED_FILES)"
  shows "read_file dir n = Some (file_bytes dir n)"
  using assms
  by (auto simp: case_load_def read_values_def read_text_def file_bytes_def REQUIRED_FILES_def
      split: option.splits sum.splits)

lemma case_load_cong:
  assumes "\<And>n. n \<in> insert ''MANIFEST.sha256'' (set REQUIRED_FILES) \<Longrightarrow> read_file dir' n = read_file dir n"
    and "check_manifest sha dir' (the (read_text dir ''MANIFEST.sha256'')) =
      check_manifest sha dir (the (read_text dir ''MANIFEST.sha256''))"
  shows "case_load h kh sha dir' = case_load h kh sha dir"
proof -
  have reads: "read_file dir' ''events.bin'' = read_file dir ''events.bin''"
    "read_file dir' ''effects_captured.bin'' = read_file dir ''effects_captured.bin''"
    using assms(1) by (simp_all add: REQUIRED_FILES_def)
  have texts: "read_values dir' ''case'' = read_values dir ''case''"
    "read_values dir' ''identity'' = read_values dir ''identity''"
    "read_values dir' ''expected'' = read_values dir ''expected''"
    "read_text dir' ''MANIFEST.sha256'' = read_text dir ''MANIFEST.sha256''"
    using assms(1) by (simp_all add: REQUIRED_FILES_def read_values_def read_text_def)
  show ?thesis
  proof (cases "read_text dir ''MANIFEST.sha256''")
    case None
    then show ?thesis by (simp add: case_load_def texts(4))
  next
    case (Some m)
    then have "check_manifest sha dir' m = check_manifest sha dir m" using assms(2) by simp
    then show ?thesis unfolding case_load_def texts reads Some option.case by simp
  qed
qed

end
