(* ===== verification/Bag_Analysis.thy ===== *)
theory Bag_Analysis
  imports Cell_Host Case_File "HOL-Library.While_Combinator" "HOL-Library.Sublist"
begin

text \<open>
  crates/rook-host/src/rmf_bag.rs: replaying the recording of a real blockade node through the cell and
  scoring how far the decision states agree, on the recording as it is and after the lifecycle reorder;
  and the writer of such recordings, \<open>dump_recording\<close> of rmf.rs.  A file is its bytes; the parsing of a
  decimal float is a parameter, and a float is its eight bytes read as a 64-bit word.  A
  count is printed in decimal.
\<close>

subsection \<open>Recordings\<close>

definition BAG_TRACE_DOMAIN :: bytes where "BAG_TRACE_DOMAIN = ascii ''rook-trace-v1/rmf-blockade-bag@1''"

definition CH_SET :: u32 where "CH_SET = 10"
definition CH_READY :: u32 where "CH_READY = 11"
definition CH_REACHED :: u32 where "CH_REACHED = 12"
definition CH_RELEASE :: u32 where "CH_RELEASE = 13"
definition CH_CANCEL :: u32 where "CH_CANCEL = 14"
definition CH_HEARTBEAT_TIMER :: u32 where "CH_HEARTBEAT_TIMER = 15"

datatype bag_error =
    TruncatedDeliveryHeader
  | TruncatedDeliveryPayload
  | TimerPayloadNotEmpty
  | PayloadTooShort
  | TicksNotIncreasing
  | TruncatedHeartbeatHeader
  | TruncatedHeartbeatPayload
  | AngleUnparsed
  | AngleMissing
  | NoDeliveries
  | BagCell trap
  | BagHashing replay_error
  | NotDeterministic
  | ShortState
  | TruncatedStatus
  | MalformedGolden string
  | GoldenMismatch "string list"

text \<open>The match on channel and payload of one delivery.\<close>

definition check_delivery :: "u32 \<Rightarrow> bytes \<Rightarrow> bag_error + unit" where
  "check_delivery channel body =
     (if channel = CH_HEARTBEAT_TIMER
      then if body = [] then Inr () else Inl TimerPayloadNotEmpty
      else if length body < 8 then Inl PayloadTooShort
      else Inr ())"

function read_deliveries_from :: "bytes \<Rightarrow> nat \<Rightarrow> bag_delivery list \<Rightarrow> bag_error + bag_delivery list" where
  "read_deliveries_from bs cursor ds =
     (if \<not> cursor < length bs then Inr ds
      else case get_range cursor (cursor + 16) bs of
        None \<Rightarrow> Inl TruncatedDeliveryHeader
      | Some header \<Rightarrow>
          let tick = from_le (subslice 0 8 header);
              channel = from_le (subslice 8 12 header);
              len = unat (from_le (subslice 12 16 header) :: u32)
          in (case get_range (cursor + 16) (cursor + 16 + len) bs of
                None \<Rightarrow> Inl TruncatedDeliveryPayload
              | Some body \<Rightarrow>
                  (case check_delivery channel body of
                     Inl e \<Rightarrow> Inl e
                   | Inr _ \<Rightarrow>
                       if ds \<noteq> [] \<and> tick \<le> bd_tick (last ds) then Inl TicksNotIncreasing
                       else read_deliveries_from bs (cursor + 16 + len)
                         (ds @ [\<lparr>bd_tick = tick, bd_channel_id = channel, bd_payload = body\<rparr>]))))"
  by pat_completeness auto
termination
  by (relation "measure (\<lambda>(bs, cursor, ds). length bs - cursor)") auto

declare read_deliveries_from.simps [simp del]

definition read_deliveries :: "bytes \<Rightarrow> bag_error + bag_delivery list" where
  "read_deliveries bs = read_deliveries_from bs 0 []"

function read_heartbeats_from :: "bytes \<Rightarrow> nat \<Rightarrow> (u64 \<times> bytes) list \<Rightarrow> bag_error + (u64 \<times> bytes) list" where
  "read_heartbeats_from bs cursor hs =
     (if \<not> cursor < length bs then Inr hs
      else case get_range cursor (cursor + 12) bs of
        None \<Rightarrow> Inl TruncatedHeartbeatHeader
      | Some header \<Rightarrow>
          let tick = from_le (subslice 0 8 header);
              len = unat (from_le (subslice 8 12 header) :: u32)
          in (case get_range (cursor + 12) (cursor + 12 + len) bs of
                None \<Rightarrow> Inl TruncatedHeartbeatPayload
              | Some body \<Rightarrow> read_heartbeats_from bs (cursor + 12 + len) (hs @ [(tick, body)])))"
  by pat_completeness auto
termination
  by (relation "measure (\<lambda>(bs, cursor, hs). length bs - cursor)") auto

declare read_heartbeats_from.simps [simp del]

definition read_heartbeats :: "bytes \<Rightarrow> bag_error + (u64 \<times> bytes) list" where
  "read_heartbeats bs = read_heartbeats_from bs 0 []"

text \<open>The writer of both files: a recorded run, its deliveries in scheduling order.\<close>

definition dump_delivery :: "u64 \<Rightarrow> u32 \<Rightarrow> bytes \<Rightarrow> bytes" where
  "dump_delivery tick channel body =
     to_le tick @ to_le channel @ to_le (word_of_nat (length body) :: u32) @ body"

definition dump_heartbeat :: "u64 \<Rightarrow> bytes \<Rightarrow> bytes" where
  "dump_heartbeat tick body = to_le tick @ to_le (word_of_nat (length body) :: u32) @ body"

definition dump_recording :: "cell_run \<Rightarrow> bytes \<times> bytes" where
  "dump_recording r =
     (concat (map (\<lambda>d. dump_delivery (dv_tick d) (e_channel_id (dv_envelope d)) (dv_payload d))
        (sort_key delivery_key (cr_deliveries r))),
      concat (map (\<lambda>e. dump_heartbeat (em_tick e) (em_payload e)) (cr_emits r)))"

subsection \<open>Parameters and goldens\<close>

text \<open>The first line with the key decides.\<close>

fun angle_from :: "(string \<Rightarrow> u64 option) \<Rightarrow> string list \<Rightarrow> bag_error + u64" where
  "angle_from parse_f64 [] = Inl AngleMissing"
| "angle_from parse_f64 (line # ls) =
     (case split_once CHR ''='' line of
        Some (key, v) \<Rightarrow>
          if trim_text key = ''min_conflict_angle_radians''
          then (case parse_f64 (trim_text v) of None \<Rightarrow> Inl AngleUnparsed | Some angle \<Rightarrow> Inr angle)
          else angle_from parse_f64 ls
      | None \<Rightarrow> angle_from parse_f64 ls)"

definition read_min_conflict_angle :: "(string \<Rightarrow> u64 option) \<Rightarrow> string \<Rightarrow> bag_error + u64" where
  "read_min_conflict_angle parse_f64 text = angle_from parse_f64 (text_lines text)"

fun goldens_from :: "string list \<Rightarrow> (string, string) btree \<Rightarrow> bag_error + (string, string) btree" where
  "goldens_from [] expected = Inr expected"
| "goldens_from (l # ls) expected =
     (let line = trim_text l in
      if line = [] \<or> hd line = CHR ''#'' then goldens_from ls expected
      else case split_once CHR ''='' line of
        None \<Rightarrow> Inl (MalformedGolden line)
      | Some (key, v) \<Rightarrow> goldens_from ls (bt_insert (trim_text key) (trim_text v) expected))"

definition golden_failures :: "(string, string) btree \<Rightarrow> (string, string) btree \<Rightarrow> string list" where
  "golden_failures expected results =
     List.map_filter (\<lambda>(key, want).
         case map_of results key of
           Some got \<Rightarrow> if got = want then None else Some (key @ '': golden '' @ want @ '', got '' @ got)
         | None \<Rightarrow> Some (key @ '': golden present but value not produced'')) expected @
     List.map_filter (\<lambda>(key, _).
         if map_of expected key = None then Some (key @ '': produced but missing from goldens'') else None) results"

definition verify_goldens :: "string \<Rightarrow> (string, string) btree \<Rightarrow> bag_error + unit" where
  "verify_goldens text results =
     (case goldens_from (text_lines text) [] of
        Inl e \<Rightarrow> Inl e
      | Inr expected \<Rightarrow>
          let failures = golden_failures expected results
          in if failures \<noteq> [] then Inl (GoldenMismatch failures) else Inr ())"

subsection \<open>The lifecycle reorder\<close>

text \<open>
  \<open>payload[0..8]\<close> panics on a shorter payload; the reader refuses a recording with one (\<open>check_delivery\<close>).
\<close>

definition participant_of :: "bag_delivery \<Rightarrow> u64 option" where
  "participant_of m =
     (if bd_channel_id m = CH_HEARTBEAT_TIMER then None else Some (from_le (subslice 0 8 (bd_payload m))))"

text \<open>
  The scan of one pass: indices of the first cancel to move and of the set it moves before.  The
  participants' last sets are a map, the blocked ones a list.
\<close>

fun find_race ::
  "nat \<Rightarrow> (u64 \<Rightarrow> nat option) \<Rightarrow> u64 list \<Rightarrow> (bag_delivery \<times> bool) list \<Rightarrow> (nat \<times> nat) option" where
  "find_race i last_set blocked [] = None"
| "find_race i last_set blocked ((m, was_moved) # ms) =
     (case participant_of m of
        None \<Rightarrow> find_race (Suc i) last_set blocked ms
      | Some p \<Rightarrow>
          if bd_channel_id m = CH_SET
          then find_race (Suc i) (last_set(p \<mapsto> i)) (filter (\<lambda>q. q \<noteq> p) blocked) ms
          else if bd_channel_id m \<in> {CH_READY, CH_REACHED} \<and> p \<notin> set blocked
          then find_race (Suc i) last_set (blocked @ [p]) ms
          else if bd_channel_id m = CH_CANCEL \<and> \<not> was_moved
          then (case last_set p of
                  Some s \<Rightarrow> if p \<notin> set blocked then Some (i, s) else find_race (Suc i) last_set blocked ms
                | None \<Rightarrow> find_race (Suc i) last_set blocked ms)
          else find_race (Suc i) last_set blocked ms)"

definition next_race :: "(bag_delivery \<times> bool) list \<Rightarrow> (nat \<times> nat) option" where
  "next_race ms = find_race 0 Map.empty [] ms"

text \<open>\<open>messages.remove(cancel_index)\<close> and \<open>messages.insert(set_index, (cancel, true))\<close>.\<close>

definition move_cancel :: "nat \<Rightarrow> nat \<Rightarrow> (bag_delivery \<times> bool) list \<Rightarrow> (bag_delivery \<times> bool) list" where
  "move_cancel cancel_index set_index ms =
     (let cancel = fst (ms ! cancel_index);
          rest = take cancel_index ms @ drop (Suc cancel_index) ms
      in take set_index rest @ (cancel, True) # drop set_index rest)"

definition reorder_step :: "(bag_delivery \<times> bool) list \<times> nat \<Rightarrow> (bag_delivery \<times> bool) list \<times> nat" where
  "reorder_step s =
     (case s of (ms, moved) \<Rightarrow>
        (case next_race ms of
           None \<Rightarrow> (ms, moved)
         | Some (c, i) \<Rightarrow> (move_cancel c i ms, Suc moved)))"

text \<open>Ticks become strictly increasing; \<open>previous_tick + 1\<close> wraps, as in a release build.\<close>

fun retick :: "u64 \<Rightarrow> bag_delivery list \<Rightarrow> bag_delivery list" where
  "retick previous [] = []"
| "retick previous (m # ms) =
     (let tick = max (bd_tick m) (previous + 1) in m\<lparr>bd_tick := tick\<rparr> # retick tick ms)"

definition reorder_lifecycle :: "bag_delivery list \<Rightarrow> (bag_delivery list \<times> nat) option" where
  "reorder_lifecycle deliveries =
     map_option (\<lambda>(ms, moved). (retick 0 (map fst ms), moved))
       (while_option (\<lambda>(ms, _). next_race ms \<noteq> None) reorder_step
          (map (\<lambda>m. (m, False)) deliveries, 0))"

subsection \<open>Decision states and their common subsequences\<close>

definition distinct_states :: "bytes list \<Rightarrow> bytes list" where
  "distinct_states payloads =
     fold (\<lambda>body states. if last states \<noteq> body then states @ [body] else states) payloads
       [[0, 0, 0, 0, 0]]"

definition lcs_row :: "'a \<Rightarrow> 'a list \<Rightarrow> nat list \<Rightarrow> nat list \<Rightarrow> nat list" where
  "lcs_row x b previous current =
     fold (\<lambda>j cur. cur[j := if x = b ! j then previous ! (j + 1) + 1 else max (previous ! j) (cur ! (j + 1))])
       (rev [0..<length b]) current"

definition lcs_len :: "'a list \<Rightarrow> 'a list \<Rightarrow> nat" where
  "lcs_len a b =
     fst (fold (\<lambda>i (previous, current). (lcs_row (a ! i) b previous current, previous)) (rev [0..<length a])
       (replicate (length b + 1) 0, replicate (length b + 1) 0)) ! 0"

type_synonym per_participant = "(u64, bytes list) btree"

fun split_statuses :: "bytes \<Rightarrow> nat \<Rightarrow> nat \<Rightarrow> per_participant \<Rightarrow> bag_error + per_participant" where
  "split_statuses state offset 0 sequences = Inr sequences"
| "split_statuses state offset (Suc n) sequences =
     (case get_range offset (offset + 49) state of
        None \<Rightarrow> Inl TruncatedStatus
      | Some entry_bytes \<Rightarrow>
          let participant = from_le (subslice 0 8 entry_bytes);
              v = drop 8 entry_bytes;
              sequence = (case map_of sequences participant of None \<Rightarrow> [] | Some s \<Rightarrow> s)
          in split_statuses state (offset + 49) n
               (bt_insert participant (if sequence \<noteq> [] \<and> last sequence = v then sequence else sequence @ [v])
                 sequences))"

fun split_states :: "bytes list \<Rightarrow> per_participant \<Rightarrow> bag_error + per_participant" where
  "split_states [] sequences = Inr sequences"
| "split_states (state # states) sequences =
     (if length state < 5 then Inl ShortState
      else case split_statuses state 5 (unat (from_le (subslice 1 5 state) :: u32)) sequences of
        Inl e \<Rightarrow> Inl e
      | Inr sequences' \<Rightarrow> split_states states sequences')"

definition split_per_participant :: "bytes list \<Rightarrow> bag_error + per_participant" where
  "split_per_participant states = split_states states []"

definition per_participant_lcs :: "bytes list \<Rightarrow> bytes list \<Rightarrow> bag_error + nat \<times> nat" where
  "per_participant_lcs recorded replayed =
     (case split_per_participant recorded of
        Inl e \<Rightarrow> Inl e
      | Inr recorded_per \<Rightarrow>
          (case split_per_participant replayed of
             Inl e \<Rightarrow> Inl e
           | Inr replayed_per \<Rightarrow>
               Inr (sum_list (map (\<lambda>(p, states). lcs_len states
                      (case map_of replayed_per p of None \<Rightarrow> [] | Some s \<Rightarrow> s)) recorded_per),
                    sum_list (map (\<lambda>(p, states). length states) recorded_per))))"

subsection \<open>Hashing and scoring\<close>

definition bag_deliver_envelope :: "hash_fn \<Rightarrow> nat \<Rightarrow> bag_delivery \<Rightarrow> envelope" where
  "bag_deliver_envelope h index d =
     \<lparr>e_kind = KDeliver, e_tick = bd_tick d, e_src_actor = bd_channel_id d, e_dst_actor = CELL_ACTOR_ID,
      e_channel_id = bd_channel_id d, e_payload_len = word_of_nat (length (bd_payload d)),
      e_src_seq = word_of_nat index, e_payload_blake3 = h (bd_payload d)\<rparr>"

definition bag_emit_envelope :: "hash_fn \<Rightarrow> nat \<Rightarrow> u64 \<times> bytes \<Rightarrow> envelope" where
  "bag_emit_envelope h index e =
     \<lparr>e_kind = KEmit, e_tick = fst e, e_src_actor = CELL_ACTOR_ID, e_dst_actor = OUTPUT_ACTOR_ID,
      e_channel_id = 20, e_payload_len = word_of_nat (length (snd e)),
      e_src_seq = word_of_nat index, e_payload_blake3 = h (snd e)\<rparr>"

definition bag_hashes ::
  "hash_fn \<Rightarrow> keyed_fn \<Rightarrow> bag_delivery list \<Rightarrow> (u64 \<times> bytes) list \<Rightarrow> bag_error + replay_hashes" where
  "bag_hashes h kh deliveries emits =
     (case hash_observed h kh BAG_TRACE_DOMAIN
             (map (\<lambda>(i, d). bag_deliver_envelope h i d) (enumerate 0 deliveries))
             (map (\<lambda>(i, e). bag_emit_envelope h i e) (enumerate 0 emits)) of
        Inl e \<Rightarrow> Inl (BagHashing e) | Inr hashes \<Rightarrow> Inr hashes)"

definition show_count :: "nat \<Rightarrow> string" where
  "show_count n = decimal n"

definition bag_replay :: "'g guest \<Rightarrow> u64 \<Rightarrow> bag_delivery list \<Rightarrow> bag_error + (u64 \<times> bytes) list" where
  "bag_replay cell angle deliveries =
     (case replay_bag_deliveries cell angle deliveries of Inl t \<Rightarrow> Inl (BagCell t) | Inr es \<Rightarrow> Inr es)"

text \<open>The results of \<open>run\<close>: the raw replay, its hashes, then its states and those after the reorder.\<close>

definition raw_results ::
  "replay_hashes \<Rightarrow> (u64 \<times> bytes) list \<Rightarrow> (u64 \<times> bytes) list \<Rightarrow> (string, string) btree" where
  "raw_results hashes recorded_heartbeats raw_emits =
     (let recorded_states = distinct_states (map snd recorded_heartbeats);
          raw_states = distinct_states (map snd raw_emits)
      in fold (\<lambda>(key, v). bt_insert key v)
        [(''bag_run_hash'', encode_hex (to_le (run_hash hashes))),
         (''bag_output_digest'', encode_hex (to_le (output_digest hashes))),
         (''recorded_states'', show_count (length recorded_states)),
         (''replay_states'', show_count (length raw_states)),
         (''replay_heartbeats'', show_count (length raw_emits)),
         (''heartbeats_identical'', if map snd recorded_heartbeats = map snd raw_emits then ''1'' else ''0''),
         (''raw_lcs'', show_count (lcs_len recorded_states raw_states))] [])"

definition reordered_results ::
  "nat \<Rightarrow> replay_hashes \<Rightarrow> nat \<Rightarrow> nat \<times> nat \<Rightarrow> (string, string) btree \<Rightarrow> (string, string) btree" where
  "reordered_results moved hashes lcs per results =
     fold (\<lambda>(key, v). bt_insert key v)
       [(''p1_cancels_moved'', show_count moved), (''p1_output_digest'', encode_hex (to_le (output_digest hashes))),
        (''p1_lcs'', show_count lcs), (''p1_per_participant_lcs'', show_count (fst per)),
        (''p1_per_participant_total'', show_count (snd per))] results"

definition bag_score ::
  "hash_fn \<Rightarrow> keyed_fn \<Rightarrow> 'g guest \<Rightarrow> u64 \<Rightarrow> bag_delivery list \<Rightarrow> (u64 \<times> bytes) list \<Rightarrow>
     bag_error + (string, string) btree" where
  "bag_score h kh cell angle deliveries heartbeats =
     (case bag_replay cell angle deliveries of
        Inl e \<Rightarrow> Inl e
      | Inr raw_emits \<Rightarrow>
          (case bag_replay cell angle deliveries of
             Inl e \<Rightarrow> Inl e
           | Inr raw_again \<Rightarrow>
               (case bag_hashes h kh deliveries raw_emits of
                  Inl e \<Rightarrow> Inl e
                | Inr raw_hashes \<Rightarrow>
                    (case bag_hashes h kh deliveries raw_again of
                       Inl e \<Rightarrow> Inl e
                     | Inr again_hashes \<Rightarrow>
                         if raw_hashes \<noteq> again_hashes then Inl NotDeterministic
                         else let (reordered, moved) = the (reorder_lifecycle deliveries) in
                           (case bag_replay cell angle reordered of
                              Inl e \<Rightarrow> Inl e
                            | Inr p1_emits \<Rightarrow>
                                (case bag_hashes h kh reordered p1_emits of
                                   Inl e \<Rightarrow> Inl e
                                 | Inr p1_hashes \<Rightarrow>
                                     let recorded_states = distinct_states (map snd heartbeats);
                                         p1_states = distinct_states (map snd p1_emits)
                                     in (case per_participant_lcs recorded_states p1_states of
                                           Inl e \<Rightarrow> Inl e
                                         | Inr per \<Rightarrow>
                                             Inr (reordered_results moved p1_hashes (lcs_len recorded_states p1_states) per
                                               (raw_results raw_hashes heartbeats raw_emits)))))))))"

definition bag_run ::
  "hash_fn \<Rightarrow> keyed_fn \<Rightarrow> 'g guest \<Rightarrow> (string \<Rightarrow> u64 option) \<Rightarrow> bytes \<Rightarrow> bytes \<Rightarrow> string \<Rightarrow> string option \<Rightarrow>
     bag_error + (string, string) btree" where
  "bag_run h kh cell parse_f64 deliveries_bin heartbeats_bin params goldens =
     (case read_deliveries deliveries_bin of
        Inl e \<Rightarrow> Inl e
      | Inr deliveries \<Rightarrow>
          (case read_heartbeats heartbeats_bin of
             Inl e \<Rightarrow> Inl e
           | Inr heartbeats \<Rightarrow>
               (case read_min_conflict_angle parse_f64 params of
                  Inl e \<Rightarrow> Inl e
                | Inr angle \<Rightarrow>
                    if deliveries = [] then Inl NoDeliveries
                    else (case bag_score h kh cell angle deliveries heartbeats of
                        Inl e \<Rightarrow> Inl e
                      | Inr results \<Rightarrow>
                          (case goldens of
                             None \<Rightarrow> Inr results
                           | Some text \<Rightarrow>
                               (case verify_goldens text results of
                                  Inl e \<Rightarrow> Inl e | Inr _ \<Rightarrow> Inr results))))))"

subsection \<open>Reading back what was written\<close>

definition bag_ok :: "bag_delivery list \<Rightarrow> bool" where
  "bag_ok ds \<longleftrightarrow> sorted_wrt (<) (map bd_tick ds) \<and>
     (\<forall>d\<in>set ds. check_delivery (bd_channel_id d) (bd_payload d) = Inr () \<and> length (bd_payload d) < 2 ^ 32)"

definition bag_bytes :: "bag_delivery list \<Rightarrow> bytes" where
  "bag_bytes ds = concat (map (\<lambda>d. dump_delivery (bd_tick d) (bd_channel_id d) (bd_payload d)) ds)"

definition heartbeat_bytes :: "(u64 \<times> bytes) list \<Rightarrow> bytes" where
  "heartbeat_bytes hs = concat (map (\<lambda>(tick, body). dump_heartbeat tick body) hs)"

lemma bag_bytes_simps [simp]:
  "bag_bytes [] = []" "bag_bytes (d # ds) = dump_delivery (bd_tick d) (bd_channel_id d) (bd_payload d) @ bag_bytes ds"
  "bag_bytes (ds @ es) = bag_bytes ds @ bag_bytes es"
  "heartbeat_bytes [] = []" "heartbeat_bytes ((t, p) # hs) = dump_heartbeat t p @ heartbeat_bytes hs"
  "heartbeat_bytes (hs @ gs) = heartbeat_bytes hs @ heartbeat_bytes gs"
  by (simp_all add: bag_bytes_def heartbeat_bytes_def)

lemma bag_ok_snoc:
  "bag_ok (ds @ [d]) \<longleftrightarrow> bag_ok ds \<and> (ds \<noteq> [] \<longrightarrow> bd_tick (last ds) < bd_tick d) \<and>
     check_delivery (bd_channel_id d) (bd_payload d) = Inr () \<and> length (bd_payload d) < 2 ^ 32"
proof -
  have "sorted_wrt (<) (map bd_tick ds) \<Longrightarrow>
      (\<forall>x\<in>set ds. bd_tick x < bd_tick d) \<longleftrightarrow> (ds \<noteq> [] \<longrightarrow> bd_tick (last ds) < bd_tick d)"
    by (cases ds rule: rev_cases) (auto simp: sorted_wrt_append)
  then show ?thesis by (auto simp: bag_ok_def sorted_wrt_append)
qed

lemma bag_ok_prefix: "bag_ok (ds @ es) \<Longrightarrow> bag_ok ds"
  by (simp add: bag_ok_def sorted_wrt_append)

lemma dump_parts:
  fixes header :: bytes
  assumes "length header = 16"
  shows "to_le (from_le (subslice 0 8 header) :: u64) @ to_le (from_le (subslice 8 12 header) :: u32) @
    to_le (from_le (subslice 12 16 header) :: u32) = header"
proof -
  have "to_le (from_le (subslice 0 8 header) :: u64) = take 8 header"
    "to_le (from_le (subslice 8 12 header) :: u32) = take 4 (drop 8 header)"
    "to_le (from_le (subslice 12 16 header) :: u32) = drop 4 (drop 8 header)"
    using assms by (simp_all add: to_from_le subslice_def)
  then show ?thesis by (metis append_take_drop_id)
qed

lemma heartbeat_parts:
  fixes header :: bytes
  assumes "length header = 12"
  shows "to_le (from_le (subslice 0 8 header) :: u64) @ to_le (from_le (subslice 8 12 header) :: u32) = header"
proof -
  have "to_le (from_le (subslice 0 8 header) :: u64) = take 8 header"
    "to_le (from_le (subslice 8 12 header) :: u32) = drop 8 header"
    using assms by (simp_all add: to_from_le subslice_def)
  then show ?thesis by (metis append_take_drop_id)
qed

lemma get_range_after: "get_range (length p) (length p + n) (p @ r) = (if n \<le> length r then Some (take n r) else None)"
  by (simp add: get_range_def subslice_def)

lemma get_range_split:
  assumes "get_range i (i + n) bs = Some x" and "take i bs = p"
  shows "take (i + n) bs = p @ x" and "length x = n" and "i + n \<le> length bs"
  using assms by (auto simp: get_range_def subslice_def take_add split: if_splits)

lemma word_of_length: "length xs = unat (w :: u32) \<Longrightarrow> word_of_nat (length xs) = w \<and> length xs < 2 ^ 32"
  using unsigned_less [of w, where ?'a = nat] by simp

lemma read_deliveries_complete:
  "bag_ok (ds @ fs) \<Longrightarrow> read_deliveries_from (bag_bytes (ds @ fs)) (length (bag_bytes ds)) ds = Inr (ds @ fs)"
proof (induction fs arbitrary: ds)
  case Nil
  then show ?case by (simp add: read_deliveries_from.simps)
next
  case (Cons f fs)
  let ?header = "to_le (bd_tick f) @ to_le (bd_channel_id f) @ to_le (word_of_nat (length (bd_payload f)) :: u32)"
  have ok: "bag_ok ((ds @ [f]) @ fs)" using Cons.prems by simp
  note f = bag_ok_prefix [OF ok, unfolded bag_ok_snoc]
  have len: "unat (word_of_nat (length (bd_payload f)) :: u32) = length (bd_payload f)"
    using f by (simp add: unat_of_nat take_bit_eq_mod)
  have bytes: "bag_bytes (ds @ f # fs) = bag_bytes ds @ ?header @ bd_payload f @ bag_bytes fs"
    "bag_bytes (ds @ f # fs) = (bag_bytes ds @ ?header) @ bd_payload f @ bag_bytes fs"
    by (simp_all add: dump_delivery_def)
  have h: "get_range (length (bag_bytes ds)) (length (bag_bytes ds) + 16) (bag_bytes (ds @ f # fs)) = Some ?header"
    unfolding bytes(1) get_range_after by simp
  have p: "get_range (length (bag_bytes ds) + 16) (length (bag_bytes ds) + 16 + length (bd_payload f))
      (bag_bytes (ds @ f # fs)) = Some (bd_payload f)"
    unfolding bytes(2) using get_range_after [of "bag_bytes ds @ ?header"] by simp
  have fields: "from_le (subslice 0 8 ?header) = bd_tick f" "from_le (subslice 8 12 ?header) = bd_channel_id f"
    "from_le (subslice 12 16 ?header) = (word_of_nat (length (bd_payload f)) :: u32)"
    by (simp_all add: subslice_append_left)
  have more: "length (bag_bytes ds) < length (bag_bytes (ds @ f # fs))"
    unfolding bytes(1) by simp
  have rec: "\<lparr>bd_tick = bd_tick f, bd_channel_id = bd_channel_id f, bd_payload = bd_payload f\<rparr> = f" by (cases f) simp
  have order: "(ds \<noteq> [] \<and> bd_tick f \<le> bd_tick (last ds)) = False" using f by auto
  define bs where "bs = bag_bytes (ds @ f # fs)"
  define cursor where "cursor = length (bag_bytes ds)"
  note whole = bs_def [symmetric] cursor_def [symmetric]
  have "read_deliveries_from bs cursor ds = read_deliveries_from bs (cursor + 16 + length (bd_payload f)) (ds @ [f])"
    using more f unfolding whole
    by (subst read_deliveries_from.simps) (simp add: h [unfolded whole] p [unfolded whole] fields len Let_def order rec)
  then have "read_deliveries_from (bag_bytes (ds @ f # fs)) (length (bag_bytes ds)) ds =
      read_deliveries_from (bag_bytes (ds @ f # fs)) (length (bag_bytes ds) + 16 + length (bd_payload f)) (ds @ [f])"
    by (simp only: bs_def cursor_def)
  also have "\<dots> = read_deliveries_from (bag_bytes ((ds @ [f]) @ fs)) (length (bag_bytes (ds @ [f]))) (ds @ [f])"
    by (simp add: dump_delivery_def add.assoc)
  also have "\<dots> = Inr ((ds @ [f]) @ fs)" by (rule Cons.IH [OF ok])
  finally show ?case by simp
qed

lemma read_deliveries_sound:
  "read_deliveries_from bs cursor ds = Inr es \<Longrightarrow> cursor \<le> length bs \<Longrightarrow> take cursor bs = bag_bytes ds \<Longrightarrow>
   bag_ok ds \<Longrightarrow> bs = bag_bytes es \<and> bag_ok es"
proof (induction bs cursor ds rule: read_deliveries_from.induct)
  case (1 bs cursor ds)
  show ?case
  proof (cases "cursor < length bs")
    case False
    with 1 show ?thesis by (simp add: read_deliveries_from.simps)
  next
    case True
    from 1(2) True obtain header where h: "get_range cursor (cursor + 16) bs = Some header"
      by (subst (asm) read_deliveries_from.simps) (auto split: option.splits)
    define tick :: u64 where "tick = from_le (subslice 0 8 header)"
    define channel :: u32 where "channel = from_le (subslice 8 12 header)"
    define len where "len = unat (from_le (subslice 12 16 header) :: u32)"
    note fields = tick_def [symmetric] channel_def [symmetric] len_def [symmetric]
    from 1(2) True h obtain body where p: "get_range (cursor + 16) (cursor + 16 + len) bs = Some body"
      and chk: "check_delivery channel body = Inr ()"
      and ord: "\<not> (ds \<noteq> [] \<and> tick \<le> bd_tick (last ds))"
      and rec: "read_deliveries_from bs (cursor + 16 + len)
         (ds @ [\<lparr>bd_tick = tick, bd_channel_id = channel, bd_payload = body\<rparr>]) = Inr es"
      by (subst (asm) read_deliveries_from.simps) (auto simp: Let_def fields split: option.splits sum.splits if_splits)
    note H = get_range_split [OF h 1(4)]
    note P = get_range_split [OF p H(1)]
    let ?d = "\<lparr>bd_tick = tick, bd_channel_id = channel, bd_payload = body\<rparr>"
    have w: "(word_of_nat (length body) :: u32) = from_le (subslice 12 16 header)" "length body < 2 ^ 32"
      using word_of_length P(2) unfolding len_def by blast+
    have "dump_delivery tick channel body = header @ body"
      using dump_parts [OF H(2)] unfolding dump_delivery_def w(1) tick_def channel_def by (metis append_assoc)
    then have "take (cursor + 16 + len) bs = bag_bytes (ds @ [?d])" using P(1) by simp
    moreover have "bag_ok (ds @ [?d])" using 1(5) chk ord w(2) by (auto simp: bag_ok_snoc not_le)
    moreover have "cursor + 16 + len \<le> length bs" by (rule P(3))
    moreover note 1(1) [of header tick channel len body "()"]
    ultimately show ?thesis using True h p chk ord rec by (simp add: fields)
  qed
qed

lemma read_deliveries_Inr: "read_deliveries bs = Inr ds \<longleftrightarrow> bs = bag_bytes ds \<and> bag_ok ds"
proof
  assume "read_deliveries bs = Inr ds"
  then show "bs = bag_bytes ds \<and> bag_ok ds"
    unfolding read_deliveries_def by (rule read_deliveries_sound) (simp_all add: bag_ok_def)
next
  assume "bs = bag_bytes ds \<and> bag_ok ds"
  with read_deliveries_complete [of "[]" ds] show "read_deliveries bs = Inr ds"
    by (simp add: read_deliveries_def)
qed

lemma read_heartbeats_complete:
  "list_all (\<lambda>(t, p). length p < 2 ^ 32) gs \<Longrightarrow>
   read_heartbeats_from (heartbeat_bytes (hs @ gs)) (length (heartbeat_bytes hs)) hs = Inr (hs @ gs)"
proof (induction gs arbitrary: hs)
  case Nil
  then show ?case by (simp add: read_heartbeats_from.simps)
next
  case (Cons g gs)
  obtain t p where g: "g = (t, p)" by force
  let ?header = "to_le t @ to_le (word_of_nat (length p) :: u32)"
  have len: "unat (word_of_nat (length p) :: u32) = length p"
    using Cons.prems by (simp add: g unat_of_nat take_bit_eq_mod)
  have bytes: "heartbeat_bytes (hs @ g # gs) = heartbeat_bytes hs @ ?header @ p @ heartbeat_bytes gs"
    "heartbeat_bytes (hs @ g # gs) = (heartbeat_bytes hs @ ?header) @ p @ heartbeat_bytes gs"
    by (simp_all add: g dump_heartbeat_def)
  define bs where "bs = heartbeat_bytes (hs @ g # gs)"
  define cursor where "cursor = length (heartbeat_bytes hs)"
  note whole = bs_def [symmetric] cursor_def [symmetric]
  have h: "get_range cursor (cursor + 12) bs = Some ?header"
    unfolding bs_def cursor_def bytes(1) get_range_after by simp
  have q: "get_range (cursor + 12) (cursor + 12 + length p) bs = Some p"
    unfolding bs_def cursor_def bytes(2) using get_range_after [of "heartbeat_bytes hs @ ?header"] by simp
  have fields: "from_le (subslice 0 8 ?header) = t" "from_le (subslice 8 12 ?header) = (word_of_nat (length p) :: u32)"
    by (simp_all add: subslice_append_left)
  have "cursor < length bs" unfolding bs_def cursor_def bytes(1) by simp
  then have "read_heartbeats_from bs cursor hs = read_heartbeats_from bs (cursor + 12 + length p) (hs @ [g])"
    by (subst read_heartbeats_from.simps) (simp add: h q fields len Let_def g)
  also have "\<dots> = read_heartbeats_from (heartbeat_bytes ((hs @ [g]) @ gs)) (length (heartbeat_bytes (hs @ [g]))) (hs @ [g])"
    by (simp add: bs_def cursor_def g dump_heartbeat_def add.assoc)
  also have "\<dots> = Inr ((hs @ [g]) @ gs)" by (rule Cons.IH) (use Cons.prems in simp)
  finally show ?case unfolding bs_def cursor_def by simp
qed

lemma read_heartbeats_sound:
  "read_heartbeats_from bs cursor hs = Inr gs \<Longrightarrow> cursor \<le> length bs \<Longrightarrow> take cursor bs = heartbeat_bytes hs \<Longrightarrow>
   list_all (\<lambda>(t, p). length p < 2 ^ 32) hs \<Longrightarrow>
   bs = heartbeat_bytes gs \<and> list_all (\<lambda>(t, p). length p < 2 ^ 32) gs"
proof (induction bs cursor hs rule: read_heartbeats_from.induct)
  case (1 bs cursor hs)
  show ?case
  proof (cases "cursor < length bs")
    case False
    with 1 show ?thesis by (simp add: read_heartbeats_from.simps)
  next
    case True
    from 1(2) True obtain header where h: "get_range cursor (cursor + 12) bs = Some header"
      by (subst (asm) read_heartbeats_from.simps) (auto split: option.splits)
    define tick :: u64 where "tick = from_le (subslice 0 8 header)"
    define len where "len = unat (from_le (subslice 8 12 header) :: u32)"
    note fields = tick_def [symmetric] len_def [symmetric]
    from 1(2) True h obtain body where p: "get_range (cursor + 12) (cursor + 12 + len) bs = Some body"
      and rec: "read_heartbeats_from bs (cursor + 12 + len) (hs @ [(tick, body)]) = Inr gs"
      by (subst (asm) read_heartbeats_from.simps) (auto simp: Let_def fields split: option.splits)
    note H = get_range_split [OF h 1(4)]
    note P = get_range_split [OF p H(1)]
    have w: "(word_of_nat (length body) :: u32) = from_le (subslice 8 12 header)" "length body < 2 ^ 32"
      using word_of_length P(2) unfolding len_def by blast+
    have "dump_heartbeat tick body = header @ body"
      using heartbeat_parts [OF H(2)] unfolding dump_heartbeat_def w(1) tick_def by (metis append_assoc)
    then have "take (cursor + 12 + len) bs = heartbeat_bytes (hs @ [(tick, body)])" using P(1) by simp
    moreover have "list_all (\<lambda>(t, p). length p < 2 ^ 32) (hs @ [(tick, body)])" using 1(5) w(2) by simp
    moreover have "cursor + 12 + len \<le> length bs" by (rule P(3))
    moreover note 1(1) [of header tick len body]
    ultimately show ?thesis using True h p rec by (simp add: fields)
  qed
qed

lemma read_heartbeats_Inr:
  "read_heartbeats bs = Inr hs \<longleftrightarrow> bs = heartbeat_bytes hs \<and> list_all (\<lambda>(t, p). length p < 2 ^ 32) hs"
proof
  assume "read_heartbeats bs = Inr hs"
  then show "bs = heartbeat_bytes hs \<and> list_all (\<lambda>(t, p). length p < 2 ^ 32) hs"
    unfolding read_heartbeats_def by (rule read_heartbeats_sound) simp_all
next
  assume "bs = heartbeat_bytes hs \<and> list_all (\<lambda>(t, p). length p < 2 ^ 32) hs"
  with read_heartbeats_complete [of hs "[]"] show "read_heartbeats bs = Inr hs"
    by (simp add: read_heartbeats_def)
qed

text \<open>What \<open>dump_recording\<close> writes is in the form that is read.\<close>

lemma dump_recording_bytes:
  "dump_recording r =
     (bag_bytes (map (\<lambda>d. \<lparr>bd_tick = dv_tick d, bd_channel_id = e_channel_id (dv_envelope d), bd_payload = dv_payload d\<rparr>)
        (sort_key delivery_key (cr_deliveries r))),
      heartbeat_bytes (map (\<lambda>e. (em_tick e, em_payload e)) (cr_emits r)))"
  by (simp add: dump_recording_def bag_bytes_def heartbeat_bytes_def comp_def)

subsection \<open>One pass of the reorder\<close>

abbreviation flagged :: "bag_delivery list \<Rightarrow> (bag_delivery \<times> bool) list" where
  "flagged ds \<equiv> map (\<lambda>m. (m, False)) ds"

definition of_participant :: "u64 \<Rightarrow> bag_delivery \<times> bool \<Rightarrow> bool" where
  "of_participant p x \<longleftrightarrow> participant_of (fst x) = Some p"

definition sets :: "u64 \<Rightarrow> bag_delivery \<times> bool \<Rightarrow> bool" where
  "sets p x \<longleftrightarrow> of_participant p x \<and> bd_channel_id (fst x) = CH_SET"

definition progress :: "u64 \<Rightarrow> bag_delivery \<times> bool \<Rightarrow> bool" where
  "progress p x \<longleftrightarrow> of_participant p x \<and> bd_channel_id (fst x) \<in> {CH_READY, CH_REACHED}"

definition racing :: "u64 \<Rightarrow> bag_delivery \<times> bool \<Rightarrow> bool" where
  "racing p x \<longleftrightarrow> of_participant p x \<and> bd_channel_id (fst x) = CH_CANCEL \<and> \<not> snd x"

lemmas message_kinds = sets_def progress_def racing_def of_participant_def

lemma channels_differ:
  "CH_SET \<noteq> CH_READY" "CH_SET \<noteq> CH_REACHED" "CH_SET \<noteq> CH_CANCEL" "CH_READY \<noteq> CH_CANCEL" "CH_REACHED \<noteq> CH_CANCEL"
  by (simp_all add: CH_SET_def CH_READY_def CH_REACHED_def CH_CANCEL_def)

text \<open>What the scan knows of the messages it has passed.\<close>

definition scanned :: "(bag_delivery \<times> bool) list \<Rightarrow> (u64 \<Rightarrow> nat option) \<Rightarrow> u64 list \<Rightarrow> bool" where
  "scanned ms last_set blocked \<longleftrightarrow>
     (\<forall>p s. last_set p = Some s \<longrightarrow>
        (\<exists>A x M. ms = A @ x # M \<and> length A = s \<and> sets p x \<and> (\<forall>y\<in>set M. \<not> sets p y) \<and>
           (p \<notin> set blocked \<longrightarrow> (\<forall>y\<in>set M. \<not> progress p y \<and> \<not> racing p y))))"

lemma scanned_pass:
  assumes "scanned ms L B" and "\<And>p. \<not> sets p x" and "\<And>p. progress p x \<Longrightarrow> p \<in> set B'" and "set B \<subseteq> set B'"
    and "\<And>p. racing p x \<Longrightarrow> L p = None \<or> p \<in> set B"
  shows "scanned (ms @ [x]) L B'"
  unfolding scanned_def
proof (intro allI impI)
  fix p s assume L: "L p = Some s"
  with assms(1) obtain A y M where "ms = A @ y # M" "length A = s" "sets p y" "\<forall>z\<in>set M. \<not> sets p z"
    "p \<notin> set B \<longrightarrow> (\<forall>z\<in>set M. \<not> progress p z \<and> \<not> racing p z)" unfolding scanned_def by blast
  moreover have order: "p \<in> set B'" if "racing p x" using assms(4) assms(5) [OF that] L by auto
  ultimately have "ms @ [x] = A @ y # (M @ [x]) \<and> length A = s \<and> sets p y \<and> (\<forall>z\<in>set (M @ [x]). \<not> sets p z) \<and>
      (p \<notin> set B' \<longrightarrow> (\<forall>z\<in>set (M @ [x]). \<not> progress p z \<and> \<not> racing p z))"
    using assms(2-4) order L by auto
  then show "\<exists>A y N. ms @ [x] = A @ y # N \<and> length A = s \<and> sets p y \<and> (\<forall>z\<in>set N. \<not> sets p z) \<and>
      (p \<notin> set B' \<longrightarrow> (\<forall>z\<in>set N. \<not> progress p z \<and> \<not> racing p z))"
    by blast
qed

lemma scanned_set:
  assumes "scanned ms L B" and "sets p x"
  shows "scanned (ms @ [x]) (L(p \<mapsto> length ms)) (filter (\<lambda>q. q \<noteq> p) B)"
  unfolding scanned_def
proof (intro allI impI)
  fix q s assume L: "(L(p \<mapsto> length ms)) q = Some s"
  show "\<exists>A y N. ms @ [x] = A @ y # N \<and> length A = s \<and> sets q y \<and> (\<forall>z\<in>set N. \<not> sets q z) \<and>
      (q \<notin> set (filter (\<lambda>q. q \<noteq> p) B) \<longrightarrow> (\<forall>z\<in>set N. \<not> progress q z \<and> \<not> racing q z))"
  proof (cases "q = p")
    case True
    with L assms(2) show ?thesis by (intro exI [of _ ms] exI [of _ x] exI [of _ "[]"]) simp
  next
    case False
    with L assms(1) obtain A y M where "ms = A @ y # M" "length A = s" "sets q y" "\<forall>z\<in>set M. \<not> sets q z"
      "q \<notin> set B \<longrightarrow> (\<forall>z\<in>set M. \<not> progress q z \<and> \<not> racing q z)" unfolding scanned_def by fastforce
    moreover have "\<not> sets q x" "\<not> progress q x" "\<not> racing q x"
      using assms(2) False by (auto simp: message_kinds)
    ultimately have "ms @ [x] = A @ y # (M @ [x]) \<and> length A = s \<and> sets q y \<and> (\<forall>z\<in>set (M @ [x]). \<not> sets q z) \<and>
      (q \<notin> set (filter (\<lambda>q. q \<noteq> p) B) \<longrightarrow> (\<forall>z\<in>set (M @ [x]). \<not> progress q z \<and> \<not> racing q z))"
      using False by auto
    then show ?thesis by blast
  qed
qed

text \<open>What a race is: a set, messages that do not order it, and a cancel not yet moved.\<close>

definition race_at ::
  "u64 \<Rightarrow> (bag_delivery \<times> bool) list \<Rightarrow> bag_delivery \<times> bool \<Rightarrow> (bag_delivery \<times> bool) list \<Rightarrow> bag_delivery \<times> bool \<Rightarrow> bool" where
  "race_at p A x M y \<longleftrightarrow>
     sets p x \<and> racing p y \<and> (\<forall>z\<in>set M. \<not> sets p z \<and> \<not> progress p z \<and> \<not> racing p z)"

lemma find_race_Some:
  "find_race (length ms) L B rest = Some (c, s) \<Longrightarrow> scanned ms L B \<Longrightarrow>
   \<exists>p A x M y C. ms @ rest = A @ x # M @ y # C \<and> length A = s \<and> c = Suc (length A + length M) \<and> race_at p A x M y"
proof (induction rest arbitrary: ms L B)
  case (Cons x rest)
  obtain m mv where x: "x = (m, mv)" by force
  have again: ?case if "find_race (length (ms @ [x])) L' B' rest = Some (c, s)" "scanned (ms @ [x]) L' B'" for L' B'
    using Cons.IH [OF that] by simp
  show ?case
  proof (cases "participant_of m")
    case None
    then have "scanned (ms @ [x]) L B" using Cons.prems(2) by (intro scanned_pass) (auto simp: message_kinds x)
    with again Cons.prems(1) None show ?thesis by (simp add: x)
  next
    case (Some p)
    have other: "q = p" if "of_participant q x" for q using that Some by (simp add: of_participant_def x)
    show ?thesis
    proof (cases "bd_channel_id m = CH_SET")
      case True
      then have "sets p x" using Some by (simp add: message_kinds x)
      from scanned_set [OF Cons.prems(2) this] again Cons.prems(1) True Some show ?thesis by (simp add: x)
    next
      case no_set: False
      then have not_set: "\<not> sets q x" for q by (simp add: message_kinds x)
      show ?thesis
      proof (cases "bd_channel_id m \<in> {CH_READY, CH_REACHED} \<and> p \<notin> set B")
        case True
        then have "scanned (ms @ [x]) L (B @ [p])"
          using Cons.prems(2) not_set Some channels_differ by (intro scanned_pass) (auto simp: message_kinds x)
        with again Cons.prems(1) True no_set Some show ?thesis by (simp add: x)
      next
        case no_progress: False
        then have blocked: "progress q x \<Longrightarrow> q \<in> set B" for q using other by (auto simp: progress_def x)
        show ?thesis
        proof (cases "racing p x \<and> L p \<noteq> None \<and> p \<notin> set B")
          case True
          then obtain t where t: "L p = Some t" by blast
          have found: "c = length ms" "s = t"
            using Cons.prems(1) True no_set no_progress Some t channels_differ by (auto simp: x racing_def)
          from Cons.prems(2) t True obtain A y M where "ms = A @ y # M" "length A = t" "sets p y"
            "\<forall>z\<in>set M. \<not> sets p z" "\<forall>z\<in>set M. \<not> progress p z \<and> \<not> racing p z" unfolding scanned_def by blast
          with found True have "ms @ x # rest = A @ y # M @ x # rest \<and> length A = s \<and>
              c = Suc (length A + length M) \<and> race_at p A y M x" by (simp add: race_at_def)
          then show ?thesis by blast
        next
          case False
          have race: "L q = None \<or> q \<in> set B" if "racing q x" for q
          proof -
            have "q = p" using that other by (simp add: racing_def)
            with False that show ?thesis by blast
          qed
          have "scanned (ms @ [x]) L B"
            by (rule scanned_pass [OF Cons.prems(2)]) (use not_set blocked race in simp_all)
          moreover have "find_race (length (ms @ [x])) L B rest = Some (c, s)"
          proof (cases "bd_channel_id m = CH_CANCEL \<and> \<not> mv")
            case True
            then have "L p = None \<or> p \<in> set B" using False Some by (simp add: x racing_def of_participant_def)
            then show ?thesis
              using Cons.prems(1) no_set no_progress Some True by (cases "L p") (auto simp: x channels_differ [symmetric])
          next
            case False
            then show ?thesis using Cons.prems(1) no_set no_progress Some by (auto simp: x)
          qed
          ultimately show ?thesis by (rule again [rotated])
        qed
      qed
    qed
  qed
qed simp

lemma next_race_Some:
  assumes "next_race ms = Some (c, s)"
  shows "\<exists>p A x M y C. ms = A @ x # M @ y # C \<and> race_at p A x M y \<and>
    move_cancel c s ms = A @ (fst y, True) # x # M @ C"
proof -
  have "scanned [] Map.empty []" by (simp add: scanned_def)
  from find_race_Some [of "[]", simplified, OF assms [unfolded next_race_def] this] obtain p A x M y C where
    ms: "ms = A @ x # M @ y # C" "length A = s" "c = Suc (length A + length M)" "race_at p A x M y" by blast
  define front where "front = A @ x # M"
  have front: "ms = front @ y # C" "length front = c" using ms by (simp_all add: front_def)
  then have "take c ms @ drop (Suc c) ms = front @ C" "ms ! c = y" by auto
  then have "move_cancel c s ms = A @ (fst y, True) # x # M @ C"
    using ms(2) by (simp add: move_cancel_def Let_def front_def)
  with ms show ?thesis by blast
qed

subsection \<open>The reorder in one pass over each participant's messages\<close>

text \<open>
  The reference for one participant's messages: what came before its last set, that set and what
  follows it, and whether a ready or reached has ordered it.
\<close>

definition settle_step ::
  "bag_delivery \<times> bool \<Rightarrow> bag_delivery list \<times> bag_delivery list \<times> bool \<Rightarrow>
     bag_delivery list \<times> bag_delivery list \<times> bool" where
  "settle_step x st =
     (case st of (before, held, ordered) \<Rightarrow>
        if bd_channel_id (fst x) = CH_SET then (before @ held, [fst x], False)
        else if held = [] then (before @ [fst x], [], ordered)
        else if bd_channel_id (fst x) \<in> {CH_READY, CH_REACHED} then (before, held @ [fst x], True)
        else if bd_channel_id (fst x) = CH_CANCEL \<and> \<not> snd x \<and> \<not> ordered then (before @ [fst x], held, ordered)
        else (before, held @ [fst x], ordered))"

definition settle :: "(bag_delivery \<times> bool) list \<Rightarrow> bag_delivery list" where
  "settle xs = (case fold settle_step xs ([], [], False) of (before, held, ordered) \<Rightarrow> before @ held)"

lemma settle_inert:
  "\<forall>z\<in>set M. of_participant p z \<and> \<not> sets p z \<and> \<not> progress p z \<and> \<not> racing p z \<Longrightarrow> h \<noteq> [] \<Longrightarrow>
   fold settle_step M (a, h, b) = (a, h @ map fst M, b)"
proof (induction M arbitrary: h)
  case (Cons z M)
  then have "settle_step z (a, h, b) = (a, h @ [fst z], b)"
    by (auto simp: settle_step_def message_kinds)
  with Cons show ?case by simp
qed simp

lemma race_settles:
  assumes "race_at p A x M y"
  shows "settle (filter (of_participant q) (A @ (fst y, True) # x # M @ C)) =
    settle (filter (of_participant q) (A @ x # M @ y # C))"
proof -
  from assms have x: "of_participant p x" "bd_channel_id (fst x) = CH_SET"
    and y: "of_participant p y" "bd_channel_id (fst y) = CH_CANCEL" "\<not> snd y"
    by (simp_all add: race_at_def message_kinds)
  have y': "of_participant q (fst y, True) = of_participant q y" by (simp add: of_participant_def)
  show ?thesis
  proof (cases "of_participant q y")
    case True
    then have q: "q = p" using y(1) by (simp add: of_participant_def)
    let ?M = "filter (of_participant p) M"
    have inert: "\<forall>z\<in>set ?M. of_participant p z \<and> \<not> sets p z \<and> \<not> progress p z \<and> \<not> racing p z"
      using assms by (simp add: race_at_def)
    obtain a h b where st: "fold settle_step (filter (of_participant p) A) ([], [], False) = (a, h, b)"
      by (cases "fold settle_step (filter (of_participant p) A) ([], [], False)") blast
    have set_x: "settle_step x (a', h', b') = (a' @ h', [fst x], False)" for a' h' b'
      using x by (simp add: settle_step_def)
    have moved: "\<exists>a' h'. settle_step (fst y, True) (a, h, b) = (a', h', b) \<and> a' @ h' = a @ h @ [fst y]"
      using y channels_differ by (auto simp: settle_step_def)
    have "fold settle_step (?M @ [y]) (a @ h, [fst x], False) = (a @ h @ [fst y], fst x # map fst ?M, False)"
      using settle_inert [OF inert, of "[fst x]" "a @ h" False] y channels_differ by (simp add: settle_step_def)
    moreover have "fold settle_step ?M (a @ h @ [fst y], [fst x], False) = (a @ h @ [fst y], fst x # map fst ?M, False)"
      using settle_inert [OF inert, of "[fst x]" "a @ h @ [fst y]" False] by simp
    ultimately have "fold settle_step (x # ?M @ [y]) (a, h, b) = fold settle_step ((fst y, True) # x # ?M) (a, h, b)"
      using moved by (auto simp: set_x)
    then have "fold settle_step (filter (of_participant p) A @ (x # ?M @ [y]) @ filter (of_participant p) C) s =
        fold settle_step (filter (of_participant p) A @ ((fst y, True) # x # ?M) @ filter (of_participant p) C) s"
      if "s = ([], [], False)" for s
      by (simp only: fold_append comp_apply that st)
    moreover have "of_participant p (fst y, True)" using y(1) by (simp add: of_participant_def)
    ultimately show ?thesis using x y by (simp add: settle_def q)
  next
    case False
    with x y show ?thesis by (simp add: y')
  qed
qed

text \<open>Without a race the pass keeps the order.\<close>

lemma settled_order:
  "find_race i L B rest = None \<Longrightarrow> (h = [] \<longleftrightarrow> L p = None) \<Longrightarrow> (h \<noteq> [] \<longrightarrow> (b \<longleftrightarrow> p \<in> set B)) \<Longrightarrow>
   (case fold settle_step (filter (of_participant p) rest) (a, h, b) of
      (a', h', b') \<Rightarrow> a' @ h' = a @ h @ map fst (filter (of_participant p) rest))"
proof (induction rest arbitrary: i L B a h b)
  case (Cons x rest)
  obtain m mv where x: "x = (m, mv)" by force
  let ?goal = ?case
  show ?case
  proof (cases "of_participant p x")
    case False
    obtain L' B' where "find_race (Suc i) L' B' rest = None" "L' p = L p" "p \<in> set B' \<longleftrightarrow> p \<in> set B"
      using Cons.prems(1) False
      by (auto simp: x of_participant_def split: option.splits if_splits)
    with Cons.IH [of "Suc i" L' B' h b a] Cons.prems False show ?thesis by simp
  next
    case True
    then have p: "participant_of m = Some p" by (simp add: x of_participant_def)
    have goal: ?goal
      if "find_race (Suc i) L' B' rest = None" "settle_step x (a, h, b) = (a', h', b')"
        "h' = [] \<longleftrightarrow> L' p = None" "h' \<noteq> [] \<longrightarrow> (b' \<longleftrightarrow> p \<in> set B')" "a' @ h' = a @ h @ [m]" for L' B' a' h' b'
    proof -
      have zs: "a' @ h' @ zs = a @ h @ m # zs" for zs using that(5) by (metis append.assoc append_Cons append_Nil)
      show ?thesis using Cons.IH [OF that(1,3,4), of a', unfolded zs] True that(2) by (simp add: x)
    qed
    consider (set) "bd_channel_id m = CH_SET"
      | (no_set) "bd_channel_id m \<noteq> CH_SET" "h = []"
      | (progress) "bd_channel_id m \<in> {CH_READY, CH_REACHED}" "bd_channel_id m \<noteq> CH_SET" "h \<noteq> []"
      | (other) "bd_channel_id m \<notin> {CH_SET, CH_READY, CH_REACHED}" "h \<noteq> []" by blast
    then show ?thesis
    proof cases
      case set
      with Cons.prems(1) p have "find_race (Suc i) (L(p \<mapsto> i)) (filter (\<lambda>q. q \<noteq> p) B) rest = None" by (simp add: x)
      from goal [OF this, of "a @ h" "[m]" False] set show ?thesis by (simp add: settle_step_def x)
    next
      case no_set
      then have L: "L p = None" using Cons.prems(2) by simp
      have "find_race (Suc i) L (if bd_channel_id m \<in> {CH_READY, CH_REACHED} \<and> p \<notin> set B then B @ [p] else B) rest = None"
        using Cons.prems(1) p no_set L by (auto simp: x split: if_splits)
      from goal [OF this, of "a @ [m]" "[]" b] no_set L show ?thesis by (simp add: settle_step_def x)
    next
      case progress
      then have L: "L p \<noteq> None" using Cons.prems(2) by simp
      show ?thesis
      proof (cases "p \<in> set B")
        case True
        have "bd_channel_id m \<noteq> CH_CANCEL" using progress channels_differ by auto
        then have "find_race (Suc i) L B rest = None" using Cons.prems(1) p progress True by (simp add: x)
        from goal [OF this, of a "h @ [m]" True] progress L True show ?thesis by (simp add: settle_step_def x)
      next
        case False
        then have "find_race (Suc i) L (B @ [p]) rest = None" using Cons.prems(1) p progress by (simp add: x)
        from goal [OF this, of a "h @ [m]" True] progress L show ?thesis by (simp add: settle_step_def x)
      qed
    next
      case other
      then obtain s where L: "L p = Some s" using Cons.prems(2) by auto
      have b: "b \<longleftrightarrow> p \<in> set B" using Cons.prems(3) other by simp
      have B: "bd_channel_id m = CH_CANCEL \<and> \<not> mv \<Longrightarrow> p \<in> set B" using Cons.prems(1) p other L by (auto simp: x split: if_splits)
      then have "find_race (Suc i) L B rest = None" using Cons.prems(1) p other L by (auto simp: x split: if_splits)
      from goal [OF this, of a "h @ [m]" b] other L b B show ?thesis by (auto simp: settle_step_def x)
    qed
  qed
qed simp

lemma no_race_settled:
  assumes "next_race ms = None"
  shows "settle (filter (of_participant p) ms) = map fst (filter (of_participant p) ms)"
  using settled_order [OF assms [unfolded next_race_def], where h = "[]" and p = p and b = False and a = "[]"]
  by (simp add: settle_def split: prod.splits)

subsection \<open>The loop\<close>

definition reordering :: "bag_delivery list \<Rightarrow> (bag_delivery \<times> bool) list \<times> nat \<Rightarrow> bool" where
  "reordering ds s \<longleftrightarrow>
     (case s of (ms, moved) \<Rightarrow>
        mset (map fst ms) = mset ds \<and>
        filter (\<lambda>m. bd_channel_id m \<noteq> CH_CANCEL) (map fst ms) = filter (\<lambda>m. bd_channel_id m \<noteq> CH_CANCEL) ds \<and>
        (\<forall>p. settle (filter (of_participant p) ms) = settle (filter (of_participant p) (flagged ds))) \<and>
        (\<forall>x\<in>set ms. snd x \<longrightarrow> bd_channel_id (fst x) = CH_CANCEL) \<and>
        moved = length (filter snd ms))"

lemma reorder_step_keeps:
  assumes "reordering ds (ms, moved)" and "next_race ms = Some (c, s)"
  shows "reordering ds (reorder_step (ms, moved))"
    and "length (filter (\<lambda>x. \<not> snd x) (fst (reorder_step (ms, moved)))) < length (filter (\<lambda>x. \<not> snd x) ms)"
proof -
  from next_race_Some [OF assms(2)] obtain p A x M y C where ms: "ms = A @ x # M @ y # C"
    and race: "race_at p A x M y" and move: "move_cancel c s ms = A @ (fst y, True) # x # M @ C" by blast
  have y: "bd_channel_id (fst y) = CH_CANCEL" "\<not> snd y" using race by (simp_all add: race_at_def racing_def)
  have step: "reorder_step (ms, moved) = (A @ (fst y, True) # x # M @ C, Suc moved)"
    using assms(2) move by (simp add: reorder_step_def)
  show "reordering ds (reorder_step (ms, moved))"
    unfolding reordering_def step prod.case
  proof (intro conjI allI)
    show "settle (filter (of_participant p) (A @ (fst y, True) # x # M @ C)) = settle (filter (of_participant p) (flagged ds))" for p
      using assms(1) unfolding race_settles [OF race] reordering_def prod.case ms by blast
  qed (use assms(1) y in \<open>auto simp: reordering_def ms add_mset_commute\<close>)
  show "length (filter (\<lambda>x. \<not> snd x) (fst (reorder_step (ms, moved)))) < length (filter (\<lambda>x. \<not> snd x) ms)"
    using y(2) by (simp add: step) (simp add: ms)
qed

lemma reorder_loop:
  obtains ms moved where
    "while_option (\<lambda>(ms, _). next_race ms \<noteq> None) reorder_step (flagged ds, 0) = Some (ms, moved)"
    and "reordering ds (ms, moved)" and "next_race ms = None"
proof -
  let ?b = "\<lambda>(ms :: (bag_delivery \<times> bool) list, _ :: nat). next_race ms \<noteq> None"
  have init: "reordering ds (flagged ds, 0)"
  proof -
    have "map fst (flagged ds) = ds" "filter snd (flagged ds) = []" by (induction ds) auto
    then show ?thesis unfolding reordering_def prod.case by auto
  qed
  have keep: "reordering ds (reorder_step s) \<and>
      length (filter (\<lambda>x. \<not> snd x) (fst (reorder_step s))) < length (filter (\<lambda>x. \<not> snd x) (fst s))"
    if "reordering ds s" "?b s" for s
    using reorder_step_keeps that by (cases s) auto
  then obtain t where t: "while_option ?b reorder_step (flagged ds, 0) = Some t"
    using measure_while_option_Some [of "reordering ds" ?b reorder_step "\<lambda>s. length (filter (\<lambda>x. \<not> snd x) (fst s))"]
      init by blast
  moreover have "reordering ds t"
    using while_option_rule [of "reordering ds" ?b reorder_step, OF _ t init] keep by blast
  moreover have "\<not> ?b t" by (rule while_option_stop [OF t])
  moreover have "next_race (fst t) = None" using calculation(3) by (cases "next_race (fst t)") (auto simp: case_prod_unfold)
  ultimately show thesis using that [of "fst t" "snd t"] by (simp only: prod.collapse)
qed

definition bd_core :: "bag_delivery \<Rightarrow> u32 \<times> bytes" where
  "bd_core m = (bd_channel_id m, bd_payload m)"

lemma retick_core [simp]: "map bd_core (retick t ms) = map bd_core ms" "length (retick t ms) = length ms"
  by (induction ms arbitrary: t) (simp_all add: Let_def bd_core_def)

lemma retick_increasing:
  "unat t \<le> n \<Longrightarrow> \<forall>m\<in>set ms. unat (bd_tick m) \<le> n \<Longrightarrow> n + length ms < 2 ^ 64 \<Longrightarrow>
   sorted_wrt (<) (map bd_tick (retick t ms)) \<and> (\<forall>m\<in>set (retick t ms). t < bd_tick m)"
proof (induction ms arbitrary: t n)
  case (Cons m ms)
  define tick where "tick = max (bd_tick m) (t + 1)"
  have small: "unat t + 1 < 2 ^ 64" using Cons.prems by simp
  then have t1: "unat (t + 1) = unat t + 1"
    by (simp add: unat_word_ariths)
  then have lt: "t < tick" unfolding tick_def by (simp add: word_less_nat_alt max_def word_le_nat_alt)
  have "unat tick \<le> n + 1" using Cons.prems t1 by (simp add: tick_def max_def)
  moreover have "\<forall>m\<in>set ms. unat (bd_tick m) \<le> n + 1" using Cons.prems(2) by (simp add: le_Suc_eq)
  moreover have "n + 1 + length ms < 2 ^ 64" using Cons.prems(3) by simp
  ultimately have "sorted_wrt (<) (map bd_tick (retick tick ms)) \<and> (\<forall>m\<in>set (retick tick ms). tick < bd_tick m)"
    by (rule Cons.IH)
  with lt show ?case by (auto simp: Let_def tick_def [symmetric])
qed simp

subsection \<open>The longest common subsequence\<close>

text \<open>The recursion the two rows compute, on the suffixes of the two lists.\<close>

fun lcs_spec :: "'a list \<Rightarrow> 'a list \<Rightarrow> nat" where
  "lcs_spec [] ys = 0"
| "lcs_spec (x # xs) [] = 0"
| "lcs_spec (x # xs) (y # ys) =
     (if x = y then lcs_spec xs ys + 1 else max (lcs_spec xs (y # ys)) (lcs_spec (x # xs) ys))"

lemma lcs_spec_Nil [simp]: "lcs_spec xs [] = 0"
  by (cases xs) simp_all

lemma lcs_spec_bound: "subseq zs xs \<Longrightarrow> subseq zs ys \<Longrightarrow> length zs \<le> lcs_spec xs ys"
proof (induction xs ys arbitrary: zs rule: lcs_spec.induct)
  case (3 x xs y ys)
  show ?case
  proof (cases "x = y")
    case True
    show ?thesis
    proof (cases zs)
      case (Cons z zs')
      have "subseq zs' xs" "subseq zs' ys"
        using 3(4,5) by (auto simp: Cons subseq_Cons2_iff dest: subseq_Cons' split: if_splits)
      from 3(1) [OF True this] show ?thesis by (simp add: Cons True)
    qed simp
  next
    case False
    show ?thesis
    proof (cases "subseq zs xs")
      case True
      from 3(2) [OF False True 3(5)] False show ?thesis by simp
    next
      case nx: False
      then obtain zs' where z: "zs = x # zs'"
        using 3(4) by (cases zs) (auto simp: subseq_Cons2_iff split: if_splits)
      with 3(5) False have "subseq zs ys" by (simp add: subseq_Cons2_iff)
      from 3(3) [OF False 3(4) this] False show ?thesis by simp
    qed
  qed
qed simp_all

lemma lcs_spec_attained: "\<exists>zs. subseq zs xs \<and> subseq zs ys \<and> length zs = lcs_spec xs ys"
proof (induction xs ys rule: lcs_spec.induct)
  case (3 x xs y ys)
  show ?case
  proof (cases "x = y")
    case True
    with 3(1) obtain zs where "subseq zs xs" "subseq zs ys" "length zs = lcs_spec xs ys" by blast
    with True show ?thesis by (intro exI [of _ "x # zs"]) simp
  next
    case False
    from 3(2,3) [OF False] obtain zs zs' where
      "subseq zs xs" "subseq zs (y # ys)" "length zs = lcs_spec xs (y # ys)"
      "subseq zs' (x # xs)" "subseq zs' ys" "length zs' = lcs_spec (x # xs) ys" by blast
    with False show ?thesis
      by (cases "lcs_spec xs (y # ys) \<le> lcs_spec (x # xs) ys") (auto simp: max_def)
  qed
qed auto

definition lcs_suffixes :: "'a list \<Rightarrow> 'a list \<Rightarrow> nat list" where
  "lcs_suffixes xs b = map (\<lambda>j. lcs_spec xs (drop j b)) [0..<length b + 1]"

lemma lcs_row_suffixes:
  assumes "length current = length b + 1" and "current ! length b = 0"
  shows "lcs_row x b (lcs_suffixes xs b) current = lcs_suffixes (x # xs) b"
proof -
  let ?f = "\<lambda>j cur. cur[j := if x = b ! j then lcs_suffixes xs b ! (j + 1) + 1
      else max (lcs_suffixes xs b ! j) (cur ! (j + 1))]"
  have "let cur = fold ?f (rev [k..<length b]) current in
      length cur = length b + 1 \<and> (\<forall>j\<le>length b. k \<le> j \<longrightarrow> cur ! j = lcs_spec (x # xs) (drop j b))"
    if "k \<le> length b" for k
    using that
  proof (induction "length b - k" arbitrary: k)
    case 0
    then show ?case using assms by (simp add: Let_def)
  next
    case (Suc n)
    then have k: "k < length b" "n = length b - Suc k" by simp_all
    define cur where "cur = fold ?f (rev [Suc k..<length b]) current"
    from Suc.hyps(1) [OF k(2)] k(1) have cur: "length cur = length b + 1"
      "\<forall>j\<le>length b. Suc k \<le> j \<longrightarrow> cur ! j = lcs_spec (x # xs) (drop j b)"
      by (simp_all add: cur_def Let_def)
    have "fold ?f (rev [k..<length b]) current = ?f k cur"
      using k(1) by (simp add: upt_conv_Cons cur_def)
    moreover have "drop k b = b ! k # drop (Suc k) b" using k(1) by (simp add: Cons_nth_drop_Suc)
    moreover have "lcs_suffixes xs b ! j = lcs_spec xs (drop j b)" if "j \<le> length b" for j
      using that by (simp add: lcs_suffixes_def del: upt_Suc)
    ultimately show ?case
      using cur k(1) by (auto simp: Let_def nth_list_update not_less_eq_eq)
  qed
  from this [of 0] have "length (lcs_row x b (lcs_suffixes xs b) current) = length b + 1"
    "\<forall>j\<le>length b. lcs_row x b (lcs_suffixes xs b) current ! j = lcs_spec (x # xs) (drop j b)"
    by (simp_all add: lcs_row_def Let_def)
  then show ?thesis
    by (intro nth_equalityI) (simp_all add: lcs_suffixes_def del: upt_Suc)
qed

lemma lcs_suffixes_ends: "length (lcs_suffixes xs b) = length b + 1" "lcs_suffixes xs b ! length b = 0"
  "lcs_suffixes xs b ! 0 = lcs_spec xs b"
  by (simp_all add: lcs_suffixes_def del: upt_Suc)

lemma lcs_len_spec: "lcs_len a b = lcs_spec a b"
proof -
  let ?step = "\<lambda>i (previous, current). (lcs_row (a ! i) b previous current, previous)"
  let ?zero = "replicate (length b + 1) 0"
  have zero: "?zero = lcs_suffixes [] b" by (simp add: lcs_suffixes_def map_replicate_const del: upt_Suc)
  have "\<exists>cur. fold ?step (rev [k..<length a]) (?zero, ?zero) = (lcs_suffixes (drop k a) b, cur) \<and>
      length cur = length b + 1 \<and> cur ! length b = 0" if "k \<le> length a" for k
    using that
  proof (induction "length a - k" arbitrary: k)
    case 0
    then show ?case using zero by (auto simp: lcs_suffixes_ends)
  next
    case (Suc n)
    then have k: "k < length a" "n = length a - Suc k" by simp_all
    then obtain cur where cur: "fold ?step (rev [Suc k..<length a]) (?zero, ?zero) = (lcs_suffixes (drop (Suc k) a) b, cur)"
      "length cur = length b + 1" "cur ! length b = 0" using Suc.hyps(1) [OF k(2)] by auto
    have "drop k a = a ! k # drop (Suc k) a" using k(1) by (simp add: Cons_nth_drop_Suc)
    then show ?case
      using k(1) cur lcs_row_suffixes [OF cur(2,3), of "a ! k" "drop (Suc k) a"]
      by (simp add: upt_conv_Cons lcs_suffixes_ends)
  qed
  from this [of 0] show ?thesis
    by (auto simp: lcs_len_def lcs_suffixes_ends)
qed

lemma lcs_len_max: "lcs_len a b = Max {length zs |zs. subseq zs a \<and> subseq zs b}"
proof -
  let ?S = "{length zs |zs. subseq zs a \<and> subseq zs b}"
  have bound: "n \<le> lcs_spec a b" if "n \<in> ?S" for n using that lcs_spec_bound by blast
  then have "finite ?S" by (meson finite_nat_set_iff_bounded_le)
  moreover have "lcs_spec a b \<in> ?S" using lcs_spec_attained [of a b] by (metis (mono_tags, lifting) mem_Collect_eq)
  ultimately have "Max ?S = lcs_spec a b" using bound by (intro Max_eqI) auto
  then show ?thesis by (simp add: lcs_len_spec)
qed

lemma lcs_len_le: "lcs_len a b \<le> length a"
proof -
  obtain zs where "subseq zs a" "length zs = lcs_len a b" using lcs_spec_attained [of a b] lcs_len_spec by metis
  then show ?thesis using list_emb_length by fastforce
qed

lemma lcs_len_full: "lcs_len a b = length a \<longleftrightarrow> subseq a b"
proof
  assume full: "lcs_len a b = length a"
  obtain zs where "subseq zs a" "subseq zs b" "length zs = lcs_len a b"
    using lcs_spec_attained [of a b] lcs_len_spec by metis
  with full subseq_same_length show "subseq a b" by metis
next
  assume "subseq a b"
  then have "length a \<le> lcs_len a b" using lcs_spec_bound [of a a b] by (simp add: lcs_len_spec)
  with lcs_len_le [of a b] show "lcs_len a b = length a" by simp
qed

subsection \<open>Decision states\<close>

lemma remdups_adj_snoc:
  "remdups_adj (xs @ [x]) = (if xs \<noteq> [] \<and> last xs = x then remdups_adj xs else remdups_adj xs @ [x])"
  by (induction xs rule: remdups_adj.induct) auto

lemma distinct_states_remdups: "distinct_states ps = remdups_adj ([0, 0, 0, 0, 0] # ps)"
proof -
  have "fold (\<lambda>p states. if last states \<noteq> p then states @ [p] else states) ps (remdups_adj xs) = remdups_adj (xs @ ps)"
    if "xs \<noteq> []" for xs :: "bytes list" using that
  proof (induction ps arbitrary: xs)
    case (Cons p ps)
    have "fold (\<lambda>p states. if last states \<noteq> p then states @ [p] else states) (p # ps) (remdups_adj xs) =
        fold (\<lambda>p states. if last states \<noteq> p then states @ [p] else states) ps (remdups_adj (xs @ [p]))"
      using Cons.prems by (simp add: remdups_adj_snoc)
    with Cons.IH [of "xs @ [p]"] show ?case by simp
  qed simp
  from this [of "[[0, 0, 0, 0, 0]]"] show ?thesis by (simp add: distinct_states_def)
qed

fun entries_from :: "bytes \<Rightarrow> nat \<Rightarrow> nat \<Rightarrow> bytes list" where
  "entries_from state offset 0 = []"
| "entries_from state offset (Suc n) = subslice offset (offset + 49) state # entries_from state (offset + 49) n"

definition entries_of :: "bytes \<Rightarrow> bytes list" where
  "entries_of state = entries_from state 5 (unat (from_le (subslice 1 5 state) :: u32))"

text \<open>A participant's decisions: its entries without the identity, repetitions dropped.\<close>

definition own_entries :: "u64 \<Rightarrow> bytes list \<Rightarrow> bytes list" where
  "own_entries p es = map (drop 8) (filter (\<lambda>e. from_le (subslice 0 8 e) = p) es)"

definition decisions :: "u64 \<Rightarrow> bytes list \<Rightarrow> bytes list" where
  "decisions p states = remdups_adj (own_entries p (concat (map entries_of states)))"

definition sequence_of :: "per_participant \<Rightarrow> u64 \<Rightarrow> bytes list" where
  "sequence_of m p = (case map_of m p of None \<Rightarrow> [] | Some s \<Rightarrow> s)"

lemma own_entries_simps [simp]: "own_entries p [] = []" "own_entries p (es @ fs) = own_entries p es @ own_entries p fs"
  by (simp_all add: own_entries_def)

lemma split_statuses_sequences:
  "split_statuses state offset n m = Inr m' \<Longrightarrow> bt_ok m \<Longrightarrow> (\<And>p. sequence_of m p = remdups_adj (own_entries p es)) \<Longrightarrow>
   bt_ok m' \<and> (\<forall>p. sequence_of m' p = remdups_adj (own_entries p (es @ entries_from state offset n)))"
proof (induction n arbitrary: offset m es)
  case (Suc n)
  from Suc.prems(1) have "get_range offset (offset + 49) state \<noteq> None" by (auto split: option.splits)
  then have e: "get_range offset (offset + 49) state = Some (subslice offset (offset + 49) state)"
    by (auto simp: get_range_def split: if_splits)
  let ?e = "subslice offset (offset + 49) state"
  let ?p = "from_le (subslice 0 8 ?e) :: u64"
  let ?s = "sequence_of m ?p"
  let ?m = "bt_insert ?p (if ?s \<noteq> [] \<and> last ?s = drop 8 ?e then ?s else ?s @ [drop 8 ?e]) m"
  have split: "split_statuses state (offset + 49) n ?m = Inr m'"
    using Suc.prems(1) unfolding split_statuses.simps(2) e option.case Let_def sequence_of_def .
  have last: "?s \<noteq> [] \<and> last ?s = v \<longleftrightarrow> own_entries ?p es \<noteq> [] \<and> last (own_entries ?p es) = v" for v
    unfolding Suc.prems(3) by simp
  have "sequence_of ?m p = remdups_adj (own_entries p (es @ [?e]))" for p
  proof (cases "p = ?p")
    case True
    have "own_entries ?p (es @ [?e]) = own_entries ?p es @ [drop 8 ?e]" by (simp add: own_entries_def)
    moreover have "sequence_of ?m ?p = (if ?s \<noteq> [] \<and> last ?s = drop 8 ?e then ?s else ?s @ [drop 8 ?e])"
      using Suc.prems(2) by (simp add: sequence_of_def)
    ultimately show ?thesis unfolding True last by (simp only: remdups_adj_snoc Suc.prems(3))
  next
    case False
    then have "own_entries p (es @ [?e]) = own_entries p es" by (auto simp: own_entries_def)
    with False Suc.prems(2,3) show ?thesis by (simp add: sequence_of_def)
  qed
  from Suc.IH [OF split bt_ok_insert [OF Suc.prems(2)] this] show ?case by simp
qed simp

lemma split_states_sequences:
  "split_states states m = Inr m' \<Longrightarrow> bt_ok m \<Longrightarrow> (\<And>p. sequence_of m p = remdups_adj (own_entries p es)) \<Longrightarrow>
   bt_ok m' \<and> (\<forall>p. sequence_of m' p = remdups_adj (own_entries p (es @ concat (map entries_of states))))"
proof (induction states arbitrary: m es)
  case (Cons state states)
  from Cons.prems(1) obtain m1 where
    m1: "split_statuses state 5 (unat (from_le (subslice 1 5 state) :: u32)) m = Inr m1"
    and rest: "split_states states m1 = Inr m'" by (auto split: if_splits sum.splits)
  from split_statuses_sequences [OF m1 Cons.prems(2,3)] have "bt_ok m1"
    "\<And>p. sequence_of m1 p = remdups_adj (own_entries p (es @ entries_of state))"
    unfolding entries_of_def by blast+
  from Cons.IH [OF rest this] show ?case by simp
qed simp

lemma split_per_participant_decisions:
  assumes "split_per_participant states = Inr m"
  shows "bt_ok m" and "sequence_of m p = decisions p states"
  using split_states_sequences [OF assms [unfolded split_per_participant_def], of "[]"]
  by (simp_all add: sequence_of_def decisions_def)

subsection \<open>Goldens\<close>

lemma goldens_from_ok: "goldens_from ls m = Inr m' \<Longrightarrow> bt_ok m \<Longrightarrow> bt_ok m'"
  by (induction ls m rule: goldens_from.induct) (auto simp: Let_def split: if_splits option.splits)

lemma golden_failures_Nil:
  assumes "bt_ok expected" and "bt_ok results"
  shows "golden_failures expected results = [] \<longleftrightarrow> expected = results"
proof
  assume "golden_failures expected results = []"
  then have fails: "\<forall>(key, want)\<in>set expected. map_of results key = Some want"
    "\<forall>(key, got)\<in>set results. map_of expected key \<noteq> None"
    by (auto simp: golden_failures_def map_filter_def filter_empty_conv split: option.splits if_splits)
  have "map_of expected key = map_of results key" for key
  proof (cases "map_of expected key")
    case (Some want)
    then show ?thesis using fails(1) map_of_SomeD [OF Some] by auto
  next
    case None
    show ?thesis
    proof (cases "map_of results key")
      case (Some got)
      with fails(2) map_of_SomeD [OF Some] None show ?thesis by auto
    qed (simp add: None)
  qed
  then show "expected = results" by (intro bt_eqI assms) auto
next
  assume eq: "expected = results"
  have "map_of results key = Some v" if "(key, v) \<in> set results" for key v
    using that assms(2) by (simp add: bt_get_iff)
  then show "golden_failures expected results = []"
    by (auto simp: golden_failures_def map_filter_def filter_empty_conv eq)
qed

text \<open>A run passes its goldens exactly when the file holds the results and nothing else.\<close>

lemma verify_goldens_Inr:
  assumes "bt_ok results"
  shows "verify_goldens text results = Inr () \<longleftrightarrow> goldens_from (text_lines text) [] = Inr results"
proof (cases "goldens_from (text_lines text) []")
  case (Inr expected)
  then have "bt_ok expected" using goldens_from_ok by auto
  then show ?thesis using golden_failures_Nil [OF _ assms] Inr by (auto simp: verify_goldens_def Let_def)
qed (simp add: verify_goldens_def)

section \<open>Properties\<close>

text \<open>
  The readers of the two files of a recording accept exactly the bytes the writer gives records in
  order: deliveries with strictly increasing ticks, an empty timer payload and a participant's identity
  in every other one, heartbeats of any payload.
\<close>

theorem bag_files_exact:
  "(read_deliveries bs = Inr ds \<longleftrightarrow> bs = bag_bytes ds \<and> bag_ok ds) \<and>
   (read_heartbeats bs = Inr hs \<longleftrightarrow> bs = heartbeat_bytes hs \<and> list_all (\<lambda>(t, p). length p < 2 ^ 32) hs)"
  using read_deliveries_Inr read_heartbeats_Inr by blast

text \<open>
  C17. The lifecycle reorder ends on every recording, after at most as many passes as there are cancels.
  It delivers the recorded messages again, the ones that are not cancels in their order; and where no
  tick comes within the recording's length of the largest one, ticks end up strictly increasing.
\<close>

theorem reorder_ends:
  assumes "\<forall>d\<in>set ds. unat (bd_tick d) + length ds < 2 ^ 64"
  shows "\<exists>out moved. reorder_lifecycle ds = Some (out, moved) \<and>
    moved \<le> length (filter (\<lambda>d. bd_channel_id d = CH_CANCEL) ds) \<and>
    mset (map bd_core out) = mset (map bd_core ds) \<and>
    filter (\<lambda>m. fst m \<noteq> CH_CANCEL) (map bd_core out) = filter (\<lambda>m. fst m \<noteq> CH_CANCEL) (map bd_core ds) \<and>
    sorted_wrt (<) (map bd_tick out)"
proof -
  obtain ms moved where
    loop: "while_option (\<lambda>(ms, _). next_race ms \<noteq> None) reorder_step (flagged ds, 0) = Some (ms, moved)"
    and inv: "reordering ds (ms, moved)" using reorder_loop by blast
  let ?out = "retick 0 (map fst ms)"
  have run: "reorder_lifecycle ds = Some (?out, moved)" unfolding reorder_lifecycle_def loop by simp
  have ms: "mset (map fst ms) = mset ds"
    "filter (\<lambda>m. bd_channel_id m \<noteq> CH_CANCEL) (map fst ms) = filter (\<lambda>m. bd_channel_id m \<noteq> CH_CANCEL) ds"
    using inv unfolding reordering_def prod.case by blast+
  have core: "filter (\<lambda>m. fst m \<noteq> CH_CANCEL) (map bd_core xs) =
      map bd_core (filter (\<lambda>m. bd_channel_id m \<noteq> CH_CANCEL) xs)" for xs
    by (simp add: filter_map comp_def bd_core_def)
  have "filter snd ms = filter snd (filter (\<lambda>x. bd_channel_id (fst x) = CH_CANCEL) ms)"
    using inv by (auto simp: reordering_def intro!: filter_cong)
  then have "length (filter snd ms) \<le> length (filter (\<lambda>x. bd_channel_id (fst x) = CH_CANCEL) ms)"
    by (metis length_filter_le)
  also have "\<dots> = length (filter (\<lambda>m. bd_channel_id m = CH_CANCEL) (map fst ms))"
    by (simp add: filter_map comp_def)
  also have "\<dots> = length (filter (\<lambda>d. bd_channel_id d = CH_CANCEL) ds)"
    using ms(1) by (metis mset_filter size_mset)
  finally have few: "moved \<le> length (filter (\<lambda>d. bd_channel_id d = CH_CANCEL) ds)"
    using inv by (simp add: reordering_def)
  have len: "length ms = length ds" using ms(1) by (metis length_map size_mset)
  have "set (map fst ms) = set ds" using ms(1) by (metis set_mset_mset)
  then have "\<forall>m\<in>set (map fst ms). unat (bd_tick m) \<le> 2 ^ 64 - 1 - length ds" using assms by auto
  moreover have "2 ^ 64 - 1 - length ds + length ds < 2 ^ 64 \<or> ds = []"
    using assms by (cases ds) auto
  ultimately have "sorted_wrt (<) (map bd_tick ?out)"
    using retick_increasing [of 0 "2 ^ 64 - 1 - length ds" "map fst ms"] len by auto
  moreover have "mset (map bd_core ?out) = mset (map bd_core ds)"
    using arg_cong [OF ms(1), of "image_mset bd_core"] by (simp only: retick_core mset_map)
  moreover have "filter (\<lambda>m. fst m \<noteq> CH_CANCEL) (map bd_core ?out) =
      filter (\<lambda>m. fst m \<noteq> CH_CANCEL) (map bd_core ds)"
    by (simp only: retick_core core ms(2))
  ultimately show ?thesis using run few by blast
qed

theorem reorder_ends_witness:
  "\<exists>out moved. reorder_lifecycle [\<lparr>bd_tick = 1, bd_channel_id = CH_SET, bd_payload = to_le (7 :: u64)\<rparr>,
      \<lparr>bd_tick = 2, bd_channel_id = CH_CANCEL, bd_payload = to_le (7 :: u64)\<rparr>] = Some (out, moved) \<and>
    sorted_wrt (<) (map bd_tick out)"
  using reorder_ends [of "[\<lparr>bd_tick = 1, bd_channel_id = CH_SET, bd_payload = to_le (7 :: u64)\<rparr>,
      \<lparr>bd_tick = 2, bd_channel_id = CH_CANCEL, bd_payload = to_le (7 :: u64)\<rparr>]"] by auto

text \<open>
  C18. What the repeated scanning leaves of one participant's messages is what one pass over them gives:
  each cancel with a set before it and no ready or reached since that set stands right before the set,
  after the cancels moved there before it; everything else keeps its place.
\<close>

theorem reorder_per_participant:
  "\<exists>out moved. reorder_lifecycle ds = Some (out, moved) \<and>
    (\<forall>p. map bd_core (filter (\<lambda>m. participant_of m = Some p) out) =
       map bd_core (settle (flagged (filter (\<lambda>m. participant_of m = Some p) ds))))"
proof -
  obtain ms moved where
    loop: "while_option (\<lambda>(ms, _). next_race ms \<noteq> None) reorder_step (flagged ds, 0) = Some (ms, moved)"
    and inv: "reordering ds (ms, moved)" and still: "next_race ms = None" using reorder_loop by blast
  let ?out = "retick 0 (map fst ms)"
  have run: "reorder_lifecycle ds = Some (?out, moved)" unfolding reorder_lifecycle_def loop by simp
  have core: "map bd_core (filter (\<lambda>m. participant_of m = Some p) xs) = map bd_core (filter (\<lambda>m. participant_of m = Some p) ys)"
    if "map bd_core xs = map bd_core ys" for p xs ys
  proof -
    have same: "participant_of m = participant_of m'" if "bd_core m = bd_core m'" for m m'
      using that by (simp add: participant_of_def bd_core_def)
    have "list_all2 (\<lambda>m m'. bd_core m = bd_core m') xs ys"
      using that by (simp add: list_all2_conv_all_nth list_eq_iff_nth_eq)
    then show ?thesis by (induction xs ys rule: list_all2_induct) (auto dest: same)
  qed
  have "map bd_core (filter (\<lambda>m. participant_of m = Some p) ?out) =
      map bd_core (settle (flagged (filter (\<lambda>m. participant_of m = Some p) ds)))" for p
  proof -
    have "map bd_core (filter (\<lambda>m. participant_of m = Some p) ?out) =
        map bd_core (filter (\<lambda>m. participant_of m = Some p) (map fst ms))"
      by (rule core) simp
    also have "filter (\<lambda>m. participant_of m = Some p) (map fst ms) = map fst (filter (of_participant p) ms)"
      by (simp add: filter_map comp_def of_participant_def [abs_def])
    also have "\<dots> = settle (filter (of_participant p) ms)" by (simp add: no_race_settled [OF still])
    also have "\<dots> = settle (filter (of_participant p) (flagged ds))" using inv by (simp add: reordering_def)
    also have "filter (of_participant p) (flagged ds) = flagged (filter (\<lambda>m. participant_of m = Some p) ds)"
      by (simp add: filter_map comp_def of_participant_def)
    finally show ?thesis .
  qed
  with run show ?thesis by blast
qed

text \<open>
  C37. \<open>lcs_len\<close>, with its two rows filled from the end, is the length of a longest common subsequence.
\<close>

theorem lcs_len_is_longest: "lcs_len a b = Max {length zs |zs. subseq zs a \<and> subseq zs b}"
  by (rule lcs_len_max)

text \<open>
  C36. The per-participant score matches at most every recorded decision, and it matches all of them
  exactly when each participant's recorded decisions are, in order, among its replayed ones.
\<close>

theorem conformance_meaning:
  assumes "per_participant_lcs recorded replayed = Inr (matched, everything)"
  shows "matched \<le> everything \<and>
    (matched = everything \<longleftrightarrow> (\<forall>p. subseq (decisions p recorded) (decisions p replayed)))"
proof -
  from assms obtain m m' where m: "split_per_participant recorded = Inr m" and m': "split_per_participant replayed = Inr m'"
    and sums: "matched = sum_list (map (\<lambda>(p, s). lcs_len s (sequence_of m' p)) m)"
      "everything = sum_list (map (\<lambda>(p, s). length s) m)"
    by (auto simp: per_participant_lcs_def sequence_of_def split: sum.splits)
  note M = split_per_participant_decisions [OF m] and M' = split_per_participant_decisions [OF m']
  have le: "sum_list (map f xs) \<le> sum_list (map g xs) \<and>
      (sum_list (map f xs) = sum_list (map g xs) \<longleftrightarrow> (\<forall>x\<in>set xs. f x = g x))"
    if "\<And>x. f x \<le> g x" for f g :: "u64 \<times> bytes list \<Rightarrow> nat" and xs
  proof (induction xs)
    case (Cons x xs)
    with that [of x] show ?case by auto
  qed simp
  have entry: "s = decisions p recorded" if "(p, s) \<in> set m" for p s
    using that M bt_get_iff [OF M(1), of p s] by (simp add: sequence_of_def flip: M(2))
  have "matched \<le> everything \<and> (matched = everything \<longleftrightarrow> (\<forall>(p, s)\<in>set m. lcs_len s (sequence_of m' p) = length s))"
    using le [of "\<lambda>(p, s). lcs_len s (sequence_of m' p)" "\<lambda>(p, s). length s" m] lcs_len_le
    by (auto simp: sums split: prod.splits)
  also have "(\<forall>(p, s)\<in>set m. lcs_len s (sequence_of m' p) = length s) \<longleftrightarrow>
      (\<forall>p. subseq (decisions p recorded) (decisions p replayed))"
  proof -
    have absent: "subseq (decisions p recorded) (decisions p replayed)" if "map_of m p = None" for p
      using that M(2) [of p] by (simp add: sequence_of_def)
    show ?thesis
      unfolding lcs_len_full M'(2)
    proof
      assume all: "\<forall>(p, s)\<in>set m. subseq s (decisions p replayed)"
      show "\<forall>p. subseq (decisions p recorded) (decisions p replayed)"
      proof
        fix p
        show "subseq (decisions p recorded) (decisions p replayed)"
        proof (cases "map_of m p")
          case (Some s)
          then have "(p, s) \<in> set m" by (rule map_of_SomeD)
          with all entry show ?thesis by fastforce
        qed (rule absent)
      qed
    next
      assume "\<forall>p. subseq (decisions p recorded) (decisions p replayed)"
      with entry show "\<forall>(p, s)\<in>set m. subseq s (decisions p replayed)" by blast
    qed
  qed
  finally show ?thesis .
qed

theorem conformance_meaning_witness:
  "\<forall>p. subseq (decisions p [1 # to_le (1 :: u32) @ to_le (7 :: u64) @ replicate 41 3])
     (decisions p [0 # to_le (1 :: u32) @ to_le (7 :: u64) @ replicate 41 3])"
proof -
  have "per_participant_lcs [1 # to_le (1 :: u32) @ to_le (7 :: u64) @ replicate 41 3]
      [0 # to_le (1 :: u32) @ to_le (7 :: u64) @ replicate 41 3] = Inr (1, 1)"
    by code_simp
  from conformance_meaning [OF this] show ?thesis by simp
qed

end
