(* ===== verification/Rmf_Scenario.thy ===== *)
theory Rmf_Scenario
  imports Bag_Analysis
begin

text \<open>
  The recording of crates/rook-host/src/rmf.rs: seven scripted robots run against a cell, which closes the
  loop through its heartbeats, and \<open>run\<close>, which records them and holds the recording to its replays.  A
  float is its eight bytes read as a 64-bit word, so the constants are bit patterns; the cell is the
  parameter \<open>guest\<close> of \<open>Cell_Host\<close>.  The printed counts and log lines are not part of the result.
\<close>

subsection \<open>Data\<close>

definition TIMER_ACTOR_ID :: u32 where "TIMER_ACTOR_ID = 50"
definition FIRST_ROBOT_ACTOR_ID :: u32 where "FIRST_ROBOT_ACTOR_ID = 101"
definition SCENARIO_TICKS :: nat where "SCENARIO_TICKS = 4000"
definition HEARTBEAT_PERIOD :: u64 where "HEARTBEAT_PERIOD = 100"

text \<open>\<open>15.0 * PI / 180.0\<close> and \<open>5.0 * PI / 180.0\<close>.\<close>

definition MIN_CONFLICT_ANGLE :: u64 where "MIN_CONFLICT_ANGLE = 0x3FD0C152382D7365"
definition OTHER_ANGLE :: u64 where "OTHER_ANGLE = 0x3FB657184AE74487"

record checkpoint =
  ck_x :: u64
  ck_y :: u64
  ck_map :: string
  ck_can_hold :: bool

definition cp :: "u64 \<Rightarrow> u64 \<Rightarrow> string \<Rightarrow> checkpoint" where
  "cp x y m = \<lparr>ck_x = x, ck_y = y, ck_map = m, ck_can_hold = True\<rparr>"

record robot =
  rb_participant :: u64
  rb_src_actor :: u32
  rb_seq :: u64
  rb_forward :: "checkpoint list"
  rb_radius :: u64
  rb_travel_ticks :: u64
  rb_reservation :: u64
  rb_heading_forward :: bool
  rb_last_reached :: u64
  rb_ready_at :: "u64 option"
  rb_granted_end :: u64
  rb_next_action_tick :: u64
  rb_cycles :: u32
  rb_jumped_the_gun :: bool
  rb_released_once :: bool
  rb_sent_stale_ready :: bool
  rb_cancelled_once :: bool

definition robot_path :: "robot \<Rightarrow> checkpoint list" where
  "robot_path r = (if \<not> rb_heading_forward r then rev (rb_forward r) else rb_forward r)"

text \<open>The coordinates of the seven paths, and the ticks between their checkpoints.\<close>

definition robot_paths :: "(checkpoint list \<times> u64) list" where
  "robot_paths =
     (let f0 = 0; f5 = 0x4014000000000000; f10 = 0x4024000000000000; f14 = 0x402C000000000000;
          f15 = 0x402E000000000000; f20 = 0x4034000000000000; f30 = 0x403E000000000000;
          f30_9 = 0x403EE66666666666; f33 = 0x4040800000000000; f40 = 0x4044000000000000
      in [([cp f5 f0 ''L1'', cp f5 f5 ''L1'', cp f5 f15 ''L1''], 7),
          ([cp f0 f10 ''L1'', cp f5 f10 ''L1'', cp f15 f10 ''L1''], 9),
          ([cp f10 f15 ''L1'', cp f10 f10 ''L1'', cp f10 f0 ''L1''], 8),
          ([cp f15 f5 ''L1'', cp f10 f5 ''L1'', cp f0 f5 ''L1''], 11),
          ([cp f0 f33 ''L1'', cp f14 f30_9 ''L1'', cp f20 f30 ''L1'', cp f30 f30 ''L1'', cp f30 f40 ''L1''], 10),
          ([cp f0 f30 ''L1'', cp f10 f30 ''L1'', cp f20 f30 ''L1'', cp f30 f30 ''L1'', cp f40 f30 ''L1''], 9),
          ([cp f5 f0 ''L2'', cp f5 f15 ''L2''], 6)])"

definition make_robot :: "nat \<Rightarrow> checkpoint list \<times> u64 \<Rightarrow> robot" where
  "make_robot index path =
     \<lparr>rb_participant = word_of_nat index + 1, rb_src_actor = FIRST_ROBOT_ACTOR_ID + word_of_nat index,
      rb_seq = 0, rb_forward = fst path, rb_radius = 0x3FE0000000000000, rb_travel_ticks = snd path,
      rb_reservation = 0, rb_heading_forward = True, rb_last_reached = 0, rb_ready_at = None,
      rb_granted_end = 0, rb_next_action_tick = 3 + word_of_nat index, rb_cycles = 0,
      rb_jumped_the_gun = False, rb_released_once = False, rb_sent_stale_ready = False,
      rb_cancelled_once = False\<rparr>"

definition make_robots :: "robot list" where
  "make_robots = map (\<lambda>(index, path). make_robot index path) (enumerate 0 robot_paths)"

subsection \<open>Messages\<close>

definition rmf_delivery :: "hash_fn \<Rightarrow> u64 \<Rightarrow> u32 \<Rightarrow> u64 \<Rightarrow> u32 \<Rightarrow> bytes \<Rightarrow> delivery" where
  "rmf_delivery h tick src_actor sq channel_id pl =
     \<lparr>dv_envelope =
        \<lparr>e_kind = KDeliver, e_tick = tick, e_src_actor = src_actor, e_dst_actor = CELL_ACTOR_ID,
         e_channel_id = channel_id, e_payload_len = word_of_nat (length pl), e_src_seq = sq,
         e_payload_blake3 = h pl\<rparr>,
      dv_payload = pl\<rparr>"

definition robot_delivery :: "hash_fn \<Rightarrow> robot \<Rightarrow> u64 \<Rightarrow> u32 \<Rightarrow> bytes \<Rightarrow> delivery \<times> robot" where
  "robot_delivery h r tick channel_id pl =
     (rmf_delivery h tick (rb_src_actor r) (rb_seq r) channel_id pl, r\<lparr>rb_seq := rb_seq r + 1\<rparr>)"

definition ready_like :: "robot \<Rightarrow> u64 \<Rightarrow> bytes" where
  "ready_like r checkpoint = to_le (rb_participant r) @ to_le (rb_reservation r) @ to_le checkpoint"

definition encode_checkpoint :: "checkpoint \<Rightarrow> bytes" where
  "encode_checkpoint c =
     to_le (ck_x c) @ to_le (ck_y c) @ [if ck_can_hold c then 1 else 0] @
     to_le (word_of_nat (length (ck_map c)) :: u16) @ ascii (ck_map c)"

definition encode_set :: "robot \<Rightarrow> checkpoint list \<Rightarrow> bytes" where
  "encode_set r path =
     to_le (rb_participant r) @ to_le (rb_reservation r) @ to_le (rb_radius r) @
     to_le (word_of_nat (length path) :: u32) @ concat (map encode_checkpoint path)"

definition robot_messages :: "hash_fn \<Rightarrow> robot \<Rightarrow> u64 \<Rightarrow> robot \<times> delivery list" where
  "robot_messages h r tick =
     (if tick < rb_next_action_tick r then (r, [])
      else let path = robot_path r; last_index = word_of_nat (length path) - 1 in
        if rb_participant r = 1 \<and> tick \<ge> 600 \<and> \<not> rb_jumped_the_gun r \<and> rb_reservation r \<noteq> 0 \<and>
          rb_last_reached r = 0 \<and> rb_ready_at r = Some 0 \<and> rb_granted_end r = 0
        then let r1 = r\<lparr>rb_jumped_the_gun := True\<rparr>;
                 (d, r2) = robot_delivery h r1 tick CH_REACHED (ready_like r1 2)
             in (r2\<lparr>rb_next_action_tick := tick + 5\<rparr>, [d])
        else if rb_participant r = 3 \<and> tick \<ge> 900 \<and> rb_reservation r \<noteq> 0 \<and> \<not> rb_released_once r
        then let r1 = r\<lparr>rb_released_once := True\<rparr>;
                 (d, r2) = robot_delivery h r1 tick CH_RELEASE (ready_like r1 (rb_last_reached r1))
             in (r2\<lparr>rb_ready_at := None, rb_next_action_tick := tick + 12\<rparr>, [d])
        else if rb_participant r = 2 \<and> tick \<ge> 2200 \<and> \<not> rb_sent_stale_ready r
        then let r1 = r\<lparr>rb_sent_stale_ready := True\<rparr>;
                 stale = (if rb_reservation r1 = 0 then 0 else rb_reservation r1 - 1);
                 (d, r2) = robot_delivery h r1 tick CH_READY
                   (to_le (rb_participant r1) @ to_le stale @ to_le (0 :: u64))
             in (r2\<lparr>rb_next_action_tick := tick + 1\<rparr>, [d])
        else if rb_participant r = 4 \<and> tick \<ge> 3000 \<and> rb_reservation r \<noteq> 0 \<and> \<not> rb_cancelled_once r
        then let r1 = r\<lparr>rb_cancelled_once := True\<rparr>;
                 (d, r2) = robot_delivery h r1 tick CH_CANCEL
                   (to_le (rb_participant r1) @ [1] @ to_le (0 :: u64))
             in (r2\<lparr>rb_reservation := 0, rb_next_action_tick := tick + 20\<rparr>, [d])
        else if rb_reservation r = 0
        then if rb_cycles r \<ge> 200 then (r, [])
             else let r1 = r\<lparr>rb_reservation := ucast (rb_cycles r) + 1, rb_cycles := rb_cycles r + 1,
                        rb_last_reached := 0, rb_ready_at := None, rb_granted_end := 0\<rparr>;
                      (d, r2) = robot_delivery h r1 tick CH_SET (encode_set r1 path)
                  in (r2\<lparr>rb_next_action_tick := tick + 3\<rparr>, [d])
        else if rb_last_reached r = last_index
        then (r\<lparr>rb_reservation := 0, rb_heading_forward := \<not> rb_heading_forward r,
                rb_next_action_tick := tick + 15\<rparr>, [])
        else if rb_ready_at r \<noteq> Some (rb_last_reached r)
        then let r1 = r\<lparr>rb_ready_at := Some (rb_last_reached r)\<rparr>;
                 (d, r2) = robot_delivery h r1 tick CH_READY (ready_like r1 (rb_last_reached r1))
             in (r2\<lparr>rb_next_action_tick := tick + 2\<rparr>, [d])
        else if rb_granted_end r > rb_last_reached r
        then let r1 = r\<lparr>rb_last_reached := rb_last_reached r + 1\<rparr>;
                 (d, r2) = robot_delivery h r1 tick CH_REACHED (ready_like r1 (rb_last_reached r1))
             in (r2\<lparr>rb_next_action_tick := tick + rb_travel_ticks r2\<rparr>, [d])
        else (r\<lparr>rb_next_action_tick := tick + 1\<rparr>, []))"

subsection \<open>Heartbeats\<close>

datatype heartbeat_error = ShortHeartbeat | TrailingHeartbeat

record robot_status =
  sx_participant :: u64
  sx_reservation :: u64
  sx_assignment_end :: u64

definition STATUS_BYTES :: nat where "STATUS_BYTES = 49"

definition take_at :: "bytes \<Rightarrow> nat \<Rightarrow> nat \<Rightarrow> heartbeat_error + bytes \<times> nat" where
  "take_at bs cursor n =
     (case get_range cursor (cursor + n) bs of
        None \<Rightarrow> Inl ShortHeartbeat | Some s \<Rightarrow> Inr (s, cursor + n))"

definition take_u64 :: "bytes \<Rightarrow> nat \<Rightarrow> heartbeat_error + u64 \<times> nat" where
  "take_u64 bs cursor =
     (case take_at bs cursor 8 of Inl e \<Rightarrow> Inl e | Inr (s, cursor') \<Rightarrow> Inr (from_le s, cursor'))"

definition take_status :: "bytes \<Rightarrow> nat \<Rightarrow> heartbeat_error + robot_status \<times> nat" where
  "take_status bs c0 =
     (case take_u64 bs c0 of
        Inl e \<Rightarrow> Inl e
      | Inr (participant, c1) \<Rightarrow>
          (case take_u64 bs c1 of
             Inl e \<Rightarrow> Inl e
           | Inr (reservation, c2) \<Rightarrow>
               (case take_at bs c2 1 of
                  Inl e \<Rightarrow> Inl e
                | Inr (any_ready, c3) \<Rightarrow>
                    (case take_at bs c3 8 of
                       Inl e \<Rightarrow> Inl e
                     | Inr (last_ready, c4) \<Rightarrow>
                         (case take_at bs c4 8 of
                            Inl e \<Rightarrow> Inl e
                          | Inr (last_reached, c5) \<Rightarrow>
                              (case take_at bs c5 8 of
                                 Inl e \<Rightarrow> Inl e
                               | Inr (assignment_begin, c6) \<Rightarrow>
                                   (case take_u64 bs c6 of
                                      Inl e \<Rightarrow> Inl e
                                    | Inr (assignment_end, c7) \<Rightarrow>
                                        Inr (\<lparr>sx_participant = participant, sx_reservation = reservation,
                                              sx_assignment_end = assignment_end\<rparr>, c7))))))))"

fun take_statuses :: "bytes \<Rightarrow> nat \<Rightarrow> nat \<Rightarrow> heartbeat_error + robot_status list \<times> nat" where
  "take_statuses bs cursor 0 = Inr ([], cursor)"
| "take_statuses bs cursor (Suc n) =
     (case take_status bs cursor of
        Inl e \<Rightarrow> Inl e
      | Inr (s, cursor') \<Rightarrow>
          (case take_statuses bs cursor' n of
             Inl e \<Rightarrow> Inl e | Inr (ss, cursor'') \<Rightarrow> Inr (s # ss, cursor'')))"

text \<open>On a 64-bit host \<open>5 + 49 * count\<close> does not overflow.\<close>

definition decode_heartbeat :: "bytes \<Rightarrow> heartbeat_error + robot_status list" where
  "decode_heartbeat pl =
     (case take_at pl 0 1 of
        Inl e \<Rightarrow> Inl e
      | Inr (has_gridlock, c1) \<Rightarrow>
          (case take_at pl c1 4 of
             Inl e \<Rightarrow> Inl e
           | Inr (s, c2) \<Rightarrow>
               let n = unat (from_le s :: u32) in
               if length pl < 5 + n * STATUS_BYTES then Inl ShortHeartbeat
               else (case take_statuses pl c2 n of
                   Inl e \<Rightarrow> Inl e
                 | Inr (statuses, cursor) \<Rightarrow>
                     if cursor \<noteq> length pl then Inl TrailingHeartbeat else Inr statuses)))"

text \<open>The first robot with the participant's number.\<close>

fun apply_status :: "robot_status \<Rightarrow> robot list \<Rightarrow> robot list" where
  "apply_status s [] = []"
| "apply_status s (r # rs) =
     (if rb_participant r = sx_participant s
      then (if rb_reservation r = sx_reservation s then r\<lparr>rb_granted_end := sx_assignment_end s\<rparr> else r) # rs
      else r # apply_status s rs)"

definition apply_heartbeat :: "bytes \<Rightarrow> robot list \<Rightarrow> heartbeat_error + robot list" where
  "apply_heartbeat pl robots =
     (case decode_heartbeat pl of Inl e \<Rightarrow> Inl e | Inr statuses \<Rightarrow> Inr (fold apply_status statuses robots))"

fun apply_heartbeats :: "emitted_payload list \<Rightarrow> robot list \<Rightarrow> heartbeat_error + robot list" where
  "apply_heartbeats [] robots = Inr robots"
| "apply_heartbeats (e # es) robots =
     (case apply_heartbeat (em_payload e) robots of
        Inl x \<Rightarrow> Inl x | Inr robots' \<Rightarrow> apply_heartbeats es robots')"

subsection \<open>The recording\<close>

datatype scenario_error = CellTrapped trap | BadHeartbeat heartbeat_error

record 'g scene =
  scn_robots :: "robot list"
  scn_timer_seq :: u64
  scn_deliveries :: "delivery list"
  scn_cell :: "'g cell"

text \<open>What is delivered at a tick: the timer, then each robot, in the order of the scheduling key.\<close>

definition poll :: "hash_fn \<Rightarrow> u64 \<Rightarrow> u64 \<times> robot list \<Rightarrow> (u64 \<times> robot list) \<times> delivery list" where
  "poll h tick st =
     (case st of (timer_seq, robots) \<Rightarrow>
        let timer = (if tick mod HEARTBEAT_PERIOD = 0
                     then [rmf_delivery h tick TIMER_ACTOR_ID timer_seq CH_HEARTBEAT_TIMER []] else []);
            polled = map (\<lambda>r. robot_messages h r tick) robots
        in ((if tick mod HEARTBEAT_PERIOD = 0 then timer_seq + 1 else timer_seq, map fst polled),
            sort_key delivery_key (timer @ concat (map snd polled))))"

definition record_tick :: "hash_fn \<Rightarrow> 'g guest \<Rightarrow> u64 \<Rightarrow> 'g scene \<Rightarrow> scenario_error + 'g scene" where
  "record_tick h guest tick s =
     (case poll h tick (scn_timer_seq s, scn_robots s) of
        ((timer_seq, robots), inbox) \<Rightarrow>
          if inbox = [] then Inr (s\<lparr>scn_robots := robots, scn_timer_seq := timer_seq\<rparr>)
          else (case cell_step guest tick (map message_of inbox) (scn_cell s) of
              Inl t \<Rightarrow> Inl (CellTrapped t)
            | Inr (first_emit, cell) \<Rightarrow>
                (case apply_heartbeats (drop first_emit (hs_emitted_payloads (cl_state cell))) robots of
                   Inl e \<Rightarrow> Inl (BadHeartbeat e)
                 | Inr robots' \<Rightarrow>
                     Inr \<lparr>scn_robots = robots', scn_timer_seq = timer_seq,
                          scn_deliveries = scn_deliveries s @ inbox, scn_cell = cell\<rparr>)))"

fun record_ticks :: "hash_fn \<Rightarrow> 'g guest \<Rightarrow> nat list \<Rightarrow> 'g scene \<Rightarrow> scenario_error + 'g scene" where
  "record_ticks h guest [] s = Inr s"
| "record_ticks h guest (t # ts) s =
     (case record_tick h guest (word_of_nat t) s of
        Inl e \<Rightarrow> Inl e | Inr s' \<Rightarrow> record_ticks h guest ts s')"

definition record_run :: "hash_fn \<Rightarrow> 'g guest \<Rightarrow> u64 \<Rightarrow> scenario_error + cell_run" where
  "record_run h guest min_conflict_angle =
     (case instantiate_cell guest (cell_host min_conflict_angle (SCENARIO_TICKS * 8)) of
        Inl t \<Rightarrow> Inl (CellTrapped t)
      | Inr c \<Rightarrow>
          (case record_ticks h guest [0..<SCENARIO_TICKS]
                  \<lparr>scn_robots = make_robots, scn_timer_seq = 0, scn_deliveries = [], scn_cell = c\<rparr> of
             Inl e \<Rightarrow> Inl e
           | Inr s \<Rightarrow> Inr ((cell_finish (scn_cell s))\<lparr>cr_deliveries := scn_deliveries s\<rparr>)))"

subsection \<open>The experiment\<close>

datatype rmf_error =
    RecordingFailed scenario_error
  | RunHashing replay_error
  | ReplayFailed trap
  | ReplayDiffers string run_mismatch
  | OutputDigestUnchanged
  | RunHashUnchanged
  | GoldensFailed bag_error

text \<open>A replay and its comparison with the recording.\<close>

definition check_replay ::
  "hash_fn \<Rightarrow> keyed_fn \<Rightarrow> 'g guest \<Rightarrow> string \<Rightarrow> cell_run \<Rightarrow> delivery list \<Rightarrow> rmf_error + unit" where
  "check_replay h kh guest label r deliveries =
     (case replay_deliveries guest MIN_CONFLICT_ANGLE deliveries of
        Inl t \<Rightarrow> Inl (ReplayFailed t)
      | Inr replayed \<Rightarrow>
          (case require_same_run h kh r replayed of
             Inl e \<Rightarrow> Inl (ReplayDiffers label e) | Inr _ \<Rightarrow> Inr ()))"

definition rmf_results :: "replay_hashes \<Rightarrow> replay_hashes \<Rightarrow> (string, string) btree" where
  "rmf_results recorded other =
     bt_insert ''rmf_output_digest_min_conflict_angle_5deg'' (encode_hex (to_le (output_digest other)))
       (bt_insert ''rmf_output_digest'' (encode_hex (to_le (output_digest recorded)))
         (bt_insert ''rmf_run_hash'' (encode_hex (to_le (run_hash recorded))) []))"

text \<open>\<open>run\<close>: what is dumped, and the results that are printed; the goldens are the text of their file.\<close>

definition rmf_run ::
  "hash_fn \<Rightarrow> keyed_fn \<Rightarrow> 'g guest \<Rightarrow> string option \<Rightarrow> rmf_error + (bytes \<times> bytes) \<times> (string, string) btree" where
  "rmf_run h kh guest goldens =
     (case record_run h guest MIN_CONFLICT_ANGLE of
        Inl e \<Rightarrow> Inl (RecordingFailed e)
      | Inr r \<Rightarrow>
          (case run_hashes h kh r of
             Inl e \<Rightarrow> Inl (RunHashing e)
           | Inr recorded \<Rightarrow>
               (case check_replay h kh guest ''replay'' r (cr_deliveries r) of
                  Inl e \<Rightarrow> Inl e
                | Inr _ \<Rightarrow>
                    (case check_replay h kh guest ''replay with reversed arrival order'' r (rev (cr_deliveries r)) of
                       Inl e \<Rightarrow> Inl e
                     | Inr _ \<Rightarrow>
                         (case replay_deliveries guest OTHER_ANGLE (cr_deliveries r) of
                            Inl t \<Rightarrow> Inl (ReplayFailed t)
                          | Inr other_run \<Rightarrow>
                              (case run_hashes h kh other_run of
                                 Inl e \<Rightarrow> Inl (RunHashing e)
                               | Inr other \<Rightarrow>
                                   if output_digest other = output_digest recorded then Inl OutputDigestUnchanged
                                   else if run_hash other = run_hash recorded then Inl RunHashUnchanged
                                   else (case (case goldens of None \<Rightarrow> Inr ()
                                             | Some t \<Rightarrow> verify_goldens t (rmf_results recorded other)) of
                                       Inl e \<Rightarrow> Inl (GoldensFailed e)
                                     | Inr _ \<Rightarrow> Inr (dump_recording r, rmf_results recorded other))))))))"

end
