(* ===== verification/Echo_Cell.thy ===== *)
theory Echo_Cell
  imports Cell_Host
begin

text \<open>
  The echo cell (cells/echo-count/src/lib.rs), the host program that checks it against the scheduler
  (crates/rook-host/src/main.rs) and the scheduler compiled to Wasm
  (crates/rook-core-wasm/src/lib.rs).  Where the compiler places the cell's three stack arrays is a
  parameter (\<open>cell_layout\<close>); \<open>Module::from_file\<close> and instantiation are Wasmtime's.
\<close>

unbundle bit_operations_syntax

subsection \<open>The echo cell\<close>

record echo_state =
  ec_count :: u64
  ec_actor_id :: u32

record cell_layout =
  la_payload :: i32
  la_output :: i32
  la_random :: i32

definition rook_init :: "u32 \<Rightarrow> echo_state \<Rightarrow> echo_state" where
  "rook_init actor_id g = g\<lparr>ec_actor_id := actor_id\<rparr>"

text \<open>The guest's own loads and stores; an access out of bounds traps.\<close>

definition guest_store :: "guest_mem \<Rightarrow> i32 \<Rightarrow> bytes \<Rightarrow> trap + guest_mem" where
  "guest_store mem pointer bs =
     (case mem of
        None \<Rightarrow> Inl MemoryFault
      | Some m \<Rightarrow> (case mem_write m (unat pointer) bs of None \<Rightarrow> Inl MemoryFault | Some m' \<Rightarrow> Inr (Some m')))"

definition guest_load :: "guest_mem \<Rightarrow> i32 \<Rightarrow> nat \<Rightarrow> trap + bytes" where
  "guest_load mem pointer n =
     (case mem of
        None \<Rightarrow> Inl MemoryFault
      | Some m \<Rightarrow> (case mem_read m (unat pointer) n of None \<Rightarrow> Inl MemoryFault | Some bs \<Rightarrow> Inr bs))"

text \<open>One message: the body of the loop of \<open>rook_step\<close>.\<close>

definition echo_message ::
  "hash_fn \<Rightarrow> xof_fn \<Rightarrow> cell_layout \<Rightarrow> i32 \<Rightarrow> echo_state \<Rightarrow> host_state \<Rightarrow> guest_mem \<Rightarrow>
     trap + echo_state \<times> host_state \<times> guest_mem" where
  "echo_message h xof la index g st mem =
     (case guest_store mem (la_payload la) (replicate 16 0) of
        Inl e \<Rightarrow> Inl e
      | Inr mem1 \<Rightarrow>
          (case host_call h xof (CallInboxMeta index) st mem1 of
             Inr (VI64 metadata, st1, mem2) \<Rightarrow>
               let payload_length = (ucast metadata :: u32) in
               if unat payload_length > 16
               then (case host_call h xof (CallAbort 1 (la_payload la) 0) st1 mem2 of
                       Inl e \<Rightarrow> Inl e | Inr _ \<Rightarrow> Inl MemoryFault)
               else (case host_call h xof (CallInboxRead index (la_payload la) 16) st1 mem2 of
                 Inl e \<Rightarrow> Inl e
               | Inr (_, st2, mem3) \<Rightarrow>
                   let count = ec_count g + 1; g' = g\<lparr>ec_count := count\<rparr> in
                   (case guest_load mem3 (la_payload la) 16 of
                      Inl e \<Rightarrow> Inl e
                    | Inr payload \<Rightarrow>
                        (case guest_store mem3 (la_output la) (payload @ to_le count) of
                           Inl e \<Rightarrow> Inl e
                         | Inr mem4 \<Rightarrow>
                             (case host_call h xof (CallEmit 8 (la_output la) 24) st2 mem4 of
                                Inl e \<Rightarrow> Inl e
                              | Inr (_, st3, mem5) \<Rightarrow> Inr (g', st3, mem5)))))
           | Inr _ \<Rightarrow> Inl MemoryFault
           | Inl e \<Rightarrow> Inl e))"

fun echo_messages ::
  "hash_fn \<Rightarrow> xof_fn \<Rightarrow> cell_layout \<Rightarrow> nat list \<Rightarrow> echo_state \<Rightarrow> host_state \<Rightarrow> guest_mem \<Rightarrow>
     trap + echo_state \<times> host_state \<times> guest_mem" where
  "echo_messages h xof la [] g st mem = Inr (g, st, mem)"
| "echo_messages h xof la (i # is) g st mem =
     (case echo_message h xof la (word_of_nat i) g st mem of
        Inl e \<Rightarrow> Inl e
      | Inr (g', st', mem') \<Rightarrow> echo_messages h xof la is g' st' mem')"

fun host_calls ::
  "hash_fn \<Rightarrow> xof_fn \<Rightarrow> abi_call list \<Rightarrow> host_state \<Rightarrow> guest_mem \<Rightarrow> trap + host_state \<times> guest_mem" where
  "host_calls h xof [] st mem = Inr (st, mem)"
| "host_calls h xof (c # cs) st mem =
     (case host_call h xof c st mem of
        Inl e \<Rightarrow> Inl e | Inr (_, st', mem') \<Rightarrow> host_calls h xof cs st' mem')"

definition rook_step ::
  "hash_fn \<Rightarrow> xof_fn \<Rightarrow> cell_layout \<Rightarrow> echo_state \<Rightarrow> host_state \<Rightarrow> guest_mem \<Rightarrow>
     trap + echo_state \<times> host_state \<times> guest_mem" where
  "rook_step h xof la g st mem =
     (case host_call h xof CallInboxLen st mem of
        Inr (VI32 message_count, st1, mem1) \<Rightarrow>
          (case echo_messages h xof la [0..<nat (sint message_count)] g st1 mem1 of
             Inl e \<Rightarrow> Inl e
           | Inr (g', st2, mem2) \<Rightarrow>
               (case host_calls h xof
                       [CallTick, CallSetTimer (- 1), CallRand (la_random la) 0, CallParam 0 0 0 0,
                        CallLog 0 0 0] st2 mem2 of
                  Inl e \<Rightarrow> Inl e
                | Inr (st3, mem3) \<Rightarrow> Inr (g', st3, mem3)))
      | Inr _ \<Rightarrow> Inl MemoryFault
      | Inl e \<Rightarrow> Inl e)"

definition echo_guest :: "hash_fn \<Rightarrow> xof_fn \<Rightarrow> cell_layout \<Rightarrow> bytes \<Rightarrow> echo_state guest" where
  "echo_guest h xof la mem =
     \<lparr>g_init = (\<lambda>st. Inr (rook_init CELL_ACTOR_ID \<lparr>ec_count = 0, ec_actor_id = 0\<rparr>, st, Some mem)),
      g_step = rook_step h xof la\<rparr>"

subsection \<open>The host program\<close>

definition EVENT_COUNT :: u32 where "EVENT_COUNT = 100000"

datatype host_error =
    CellTrapped trap
  | WrongEmitCount nat u32
  | ObservedReplayFailed replay_error
  | OutputDiverged
  | NativeReplayFailed replay_error
  | HashesNotEqual string replay_hashes replay_hashes

definition generate_expected_emits :: "hash_fn \<Rightarrow> envelope list \<Rightarrow> envelope list" where
  "generate_expected_emits h deliveries =
     map (\<lambda>event_index.
        let payload = synthetic_payload (word_of_nat event_index) @
              to_le ((word_of_nat event_index :: u64) + 1) in
        \<lparr>e_kind = KEmit, e_tick = e_tick (deliveries ! event_index),
         e_src_actor = CELL_ACTOR_ID, e_dst_actor = OUTPUT_ACTOR_ID,
         e_channel_id = OUTPUT_CHANNEL_ID, e_payload_len = word_of_nat (length payload),
         e_src_seq = word_of_nat event_index, e_payload_blake3 = h payload\<rparr>)
       [0..<length deliveries]"

definition replay_observed :: "hash_fn \<Rightarrow> keyed_fn \<Rightarrow> envelope list \<Rightarrow> host_error + replay_hashes" where
  "replay_observed h kh observed =
     (let deliveries = filter (\<lambda>e. e_kind e = KDeliver) observed in
      case replay h kh deliveries of
        Inl e \<Rightarrow> Inl (ObservedReplayFailed e)
      | Inr expected \<Rightarrow>
          let expected_emits = generate_expected_emits h deliveries;
              actual_emits = filter (\<lambda>e. e_kind e = KEmit) observed
          in if actual_emits \<noteq> expected_emits then Inl OutputDiverged else Inr expected)"

definition echo_host :: "u32 \<Rightarrow> host_state" where
  "echo_host event_count =
     default_host_state\<lparr>hs_actor_id := CELL_ACTOR_ID, hs_emit_channels := [OUTPUT_CHANNEL_ID],
       hs_emitted_payload_limit := unat event_count\<rparr>"

text \<open>The loop over the live ticks: \<open>delivery_index\<close> runs over the generated deliveries.\<close>

function feed_synthetic ::
  "'g guest \<Rightarrow> envelope list \<Rightarrow> nat \<Rightarrow> 'g cell \<Rightarrow> trap + 'g cell" where
  "feed_synthetic cell deliveries delivery_index c =
     (if delivery_index < length deliveries then
        let live_tick = e_tick (deliveries ! delivery_index);
            same = takeWhile (\<lambda>e. e_tick e = live_tick) (drop delivery_index deliveries);
            next_index = delivery_index + length same;
            inbox = map (\<lambda>event_index. \<lparr>ib_channel_id = INPUT_CHANNEL_ID,
                ib_payload = synthetic_payload (word_of_nat event_index)\<rparr>) [delivery_index..<next_index]
        in case cell_step cell live_tick inbox c of
             Inl e \<Rightarrow> Inl e
           | Inr (_, c') \<Rightarrow> feed_synthetic cell deliveries next_index c'
      else Inr c)"
  by pat_completeness auto
termination
  by (relation "measure (\<lambda>(cell, ds, i, c). length ds - i)")
    (auto simp: Cons_nth_drop_Suc [symmetric])

declare feed_synthetic.simps [simp del]

definition observe_emit :: "hash_fn \<Rightarrow> emitted_payload \<Rightarrow> envelope" where
  "observe_emit h e =
     \<lparr>e_kind = KEmit, e_tick = em_tick e, e_src_actor = CELL_ACTOR_ID, e_dst_actor = OUTPUT_ACTOR_ID,
      e_channel_id = OUTPUT_CHANNEL_ID, e_payload_len = word_of_nat (length (em_payload e)),
      e_src_seq = em_src_seq e, e_payload_blake3 = h (em_payload e)\<rparr>"

definition run_cell_replay ::
  "hash_fn \<Rightarrow> keyed_fn \<Rightarrow> 'g guest \<Rightarrow> u32 \<Rightarrow> host_error + replay_hashes" where
  "run_cell_replay h kh cell event_count =
     (case instantiate_cell cell (echo_host event_count) of
        Inl e \<Rightarrow> Inl (CellTrapped e)
      | Inr c \<Rightarrow>
          let deliveries = generate_synthetic_deliveries h event_count in
          (case feed_synthetic cell deliveries 0 c of
             Inl e \<Rightarrow> Inl (CellTrapped e)
           | Inr c' \<Rightarrow>
               let emitted = hs_emitted_payloads (cl_state c') in
               if length emitted \<noteq> unat event_count then Inl (WrongEmitCount (length emitted) event_count)
               else replay_observed h kh (deliveries @ map (observe_emit h) emitted)))"

subsection \<open>The scheduler compiled to Wasm\<close>

text \<open>\<open>replay\<close> and \<open>hash_word\<close> of rook-core-wasm: eight words, four per hash.\<close>

definition core_replay :: "hash_fn \<Rightarrow> keyed_fn \<Rightarrow> u32 \<Rightarrow> u64 list" where
  "core_replay h kh event_count =
     (let hashes = replay_synthetic h kh event_count in
      map from_le (chunks 8 (to_le (run_hash hashes)) @ chunks 8 (to_le (output_digest hashes))))"

definition hash_word :: "u64 list \<Rightarrow> u32 \<Rightarrow> u32 \<Rightarrow> u64 option" where
  "hash_word hash_words hash_kind word_index =
     get_at hash_words (unat hash_kind * 4 + unat word_index)"

definition read_hash_words :: "u64 list \<Rightarrow> u32 \<Rightarrow> digest option" where
  "read_hash_words hash_words hash_kind =
     (case those (map (\<lambda>i. hash_word hash_words hash_kind (word_of_nat i)) [0..<4]) of
        None \<Rightarrow> None
      | Some ws \<Rightarrow> Some (from_le (concat (map to_le ws))))"

definition run_core_wasm :: "hash_fn \<Rightarrow> keyed_fn \<Rightarrow> u32 \<Rightarrow> replay_hashes option" where
  "run_core_wasm h kh event_count =
     (let hash_words = core_replay h kh event_count in
      case (read_hash_words hash_words 0, read_hash_words hash_words 1) of
        (Some r, Some out) \<Rightarrow> Some \<lparr>run_hash = r, output_digest = out\<rparr>
      | _ \<Rightarrow> None)"

definition require_equal :: "string \<Rightarrow> replay_hashes \<Rightarrow> replay_hashes \<Rightarrow> host_error + unit" where
  "require_equal label expected actual =
     (if expected \<noteq> actual then Inl (HashesNotEqual label expected actual) else Inr ())"

text \<open>
  The default mode of \<open>main\<close>: replay in the cell, then natively, then (when a core module is given)
  in Wasm, and compare.  \<open>None\<close> stands for a panic of the Wasm core (an index past the eight words).
\<close>

definition host_main ::
  "hash_fn \<Rightarrow> keyed_fn \<Rightarrow> 'g guest \<Rightarrow> bool \<Rightarrow> (host_error + replay_hashes) option" where
  "host_main h kh cell core_given =
     (case run_cell_replay h kh cell EVENT_COUNT of
        Inl e \<Rightarrow> Some (Inl e)
      | Inr native_hashes \<Rightarrow>
          (case replay h kh (generate_synthetic_deliveries h EVENT_COUNT) of
             Inl e \<Rightarrow> Some (Inl (NativeReplayFailed e))
           | Inr expected_hashes \<Rightarrow>
               (case require_equal ''cell replay'' expected_hashes native_hashes of
                  Inl e \<Rightarrow> Some (Inl e)
                | Inr _ \<Rightarrow>
                    if \<not> core_given then Some (Inr native_hashes)
                    else (case run_core_wasm h kh EVENT_COUNT of
                      None \<Rightarrow> None
                    | Some wasm_hashes \<Rightarrow>
                        (case require_equal ''native versus wasm core'' native_hashes wasm_hashes of
                           Inl e \<Rightarrow> Some (Inl e)
                         | Inr _ \<Rightarrow> Some (Inr native_hashes))))))"

section \<open>The echo cell keeps to the host interface\<close>

lemma abi_steps_calls:
  assumes "abi_steps h xof st mem st1 mem1" and "host_call h xof c st1 mem2 = Inr (v, st2, mem3)"
  shows "abi_steps h xof st mem st2 mem4"
  by (rule then_call [OF abi_steps_memory [OF assms(1)] assms(2)])

lemma echo_message_abi:
  assumes "echo_message h xof la index g st mem = Inr (g', st', mem')"
  shows "abi_steps h xof st mem st' mem'"
proof -
  from assms obtain mem1 metadata st1 mem2 v2 st2 mem3 payload mem4 v3 where
    1: "host_call h xof (CallInboxMeta index) st mem1 = Inr (VI64 metadata, st1, mem2)"
    and 2: "host_call h xof (CallInboxRead index (la_payload la) 16) st1 mem2 = Inr (v2, st2, mem3)"
    and 3: "host_call h xof (CallEmit 8 (la_output la) 24) st2 mem4 = Inr (v3, st', mem')"
    by (auto simp: echo_message_def Let_def simp del: host_call.simps
        split: sum.splits abi_value.splits if_splits)
  show ?thesis
    by (rule abi_steps_calls [OF abi_steps_calls [OF abi_steps_calls [OF idle 1] 2] 3])
qed

lemma echo_messages_abi:
  "echo_messages h xof la is g st mem = Inr (g', st', mem') \<Longrightarrow> abi_steps h xof st mem st' mem'"
proof (induction "is" arbitrary: g st mem)
  case (Cons i "is")
  then obtain g1 st1 mem1 where 1: "echo_message h xof la (word_of_nat i) g st mem = Inr (g1, st1, mem1)"
    and 2: "echo_messages h xof la is g1 st1 mem1 = Inr (g', st', mem')"
    by (auto split: sum.splits)
  show ?case by (rule abi_steps_trans [OF Cons.IH [OF 2] echo_message_abi [OF 1]])
qed (auto intro: idle)

lemma host_calls_abi: "host_calls h xof cs st mem = Inr (st', mem') \<Longrightarrow> abi_steps h xof st mem st' mem'"
proof (induction cs arbitrary: st mem)
  case (Cons c cs)
  then obtain v st1 mem1 where 1: "host_call h xof c st mem = Inr (v, st1, mem1)"
    and 2: "host_calls h xof cs st1 mem1 = Inr (st', mem')"
    by (auto split: sum.splits)
  show ?case by (rule abi_steps_trans [OF Cons.IH [OF 2] abi_steps_call [OF 1]])
qed (auto intro: idle)

lemma rook_step_abi:
  assumes "rook_step h xof la g st mem = Inr (g', st', mem')"
  shows "abi_steps h xof st mem st' mem'"
proof -
  from assms obtain n st1 mem1 st2 mem2 where
    1: "host_call h xof CallInboxLen st mem = Inr (VI32 n, st1, mem1)"
    and 2: "echo_messages h xof la [0..<nat (sint n)] g st1 mem1 = Inr (g', st2, mem2)"
    and 3: "host_calls h xof [CallTick, CallSetTimer (- 1), CallRand (la_random la) 0,
        CallParam 0 0 0 0, CallLog 0 0 0] st2 mem2 = Inr (st', mem')"
    by (auto simp: rook_step_def simp del: host_call.simps host_calls.simps
        split: sum.splits abi_value.splits)
  show ?thesis
    by (rule abi_steps_trans [OF host_calls_abi [OF 3]
          abi_steps_trans [OF echo_messages_abi [OF 2] abi_steps_call [OF 1]]])
qed

interpretation echo: abi_cell h xof "echo_guest h xof la mem" for h xof la mem
  by unfold_locales (auto simp: echo_guest_def intro: idle rook_step_abi)

section \<open>What the echo cell computes\<close>

definition layout_ok :: "cell_layout \<Rightarrow> nat \<Rightarrow> bool" where
  "layout_ok la n \<longleftrightarrow>
     0 \<le> sint (la_payload la) \<and> nat (sint (la_payload la)) + 16 \<le> n \<and>
     0 \<le> sint (la_output la) \<and> nat (sint (la_output la)) + 24 \<le> n \<and>
     0 \<le> sint (la_random la) \<and> nat (sint (la_random la)) \<le> n"

lemma unat_sint:
  assumes "0 \<le> sint (p :: i32)"
  shows "unat p = nat (sint p)"
proof -
  have "sint p < 2 ^ 32" using sint_i32_less [of p] by simp
  then have "uint p = sint p" using assms by (simp add: uint_sint take_bit_int_eq_self)
  then show ?thesis by (simp add: unat_eq_nat_uint)
qed

lemma guest_access:
  assumes "0 \<le> sint p" and "nat (sint p) + length bs \<le> length m"
  shows "\<exists>m'. guest_store (Some m) p bs = Inr (Some m') \<and> length m' = length m"
    and "guest_load (Some m) p (length bs) = Inr (subslice (nat (sint p)) (nat (sint p) + length bs) m)"
proof -
  have "mem_write m (nat (sint p)) bs =
      Some (take (nat (sint p)) m @ bs @ drop (nat (sint p) + length bs) m)"
    using assms(2) by (simp add: mem_write_def)
  then show "\<exists>m'. guest_store (Some m) p bs = Inr (Some m') \<and> length m' = length m"
    using mem_write_Some(1) by (fastforce simp: guest_store_def unat_sint [OF assms(1)])
  show "guest_load (Some m) p (length bs) = Inr (subslice (nat (sint p)) (nat (sint p) + length bs) m)"
    using assms(2) by (simp add: guest_load_def unat_sint [OF assms(1)] mem_read_def get_range_def)
qed

text \<open>One message of 16 bytes: the payload with the count appended, emitted if there is room.\<close>

definition echoed :: "host_state \<Rightarrow> bytes \<Rightarrow> u64 \<Rightarrow> host_state" where
  "echoed st payload cnt =
     (if hs_emitted_payload_bytes st + 24 \<le> MAX_EMITTED_PAYLOAD_BYTES
      then st\<lparr>hs_emitted_payloads := hs_emitted_payloads st @ [emit_record st 8 (payload @ to_le cnt)],
              hs_emitted_payload_bytes := hs_emitted_payload_bytes st + 24,
              hs_emit_sequence := hs_emit_sequence st + 1\<rparr>
      else st)"

lemma abi_emit_echo:
  assumes "8 \<in> set (hs_emit_channels st)" and "0 \<le> sint p" and "nat (sint p) + 24 \<le> length m"
    and "mem_read m (nat (sint p)) 24 = Some (payload @ to_le cnt)" and "length payload = 16"
    and "length (hs_emitted_payloads st) < hs_emitted_payload_limit st"
    and "unat (hs_emit_sequence st) + 1 < 2 ^ 64"
  shows "\<exists>r. abi_emit st (Some m) 8 p 24 = Inr (r, echoed st payload cnt)"
proof -
  have "checked_guest_range (Some m) p 24 MAX_ABI_TRANSFER_BYTES = Inr (m, nat (sint p), 24)"
    using assms(2,3) by (simp add: checked_guest_range_Inr MAX_ABI_TRANSFER_BYTES_def)
  then show ?thesis
    using assms
    by (simp add: abi_emit_def validate_emit_retention_def checked_add_usize_def checked_add_u64_def
        echoed_def emit_record_def MAX_EMITTED_PAYLOAD_BYTES_def)
qed

lemma ucast_meta: "(ucast (push_bit 32 (ucast (c :: u32) :: i64) OR word_of_nat n) :: u32) = word_of_nat n"
  by (rule bit_word_eqI) (auto simp: bit_simps)

lemma echo_message_step:
  assumes "layout_ok la (length m)" and "inbox_get st index = Some message"
    and "length (ib_payload message) = 16" and "8 \<in> set (hs_emit_channels st)"
    and "length (hs_emitted_payloads st) < hs_emitted_payload_limit st"
    and "unat (hs_emit_sequence st) + 1 < 2 ^ 64"
  shows "\<exists>m'. length m' = length m \<and>
    echo_message h xof la index g st (Some m) =
      Inr (g\<lparr>ec_count := ec_count g + 1\<rparr>, echoed st (ib_payload message) (ec_count g + 1), Some m')"
proof -
  let ?p = "la_payload la" and ?o = "la_output la" and ?data = "ib_payload message"
  let ?out = "?data @ to_le (ec_count g + 1)"
  have p: "0 \<le> sint ?p" "nat (sint ?p) + 16 \<le> length m" and o: "0 \<le> sint ?o" "nat (sint ?o) + 24 \<le> length m"
    using assms(1) by (simp_all add: layout_ok_def)
  obtain m1 where m1: "guest_store (Some m) ?p (replicate 16 0) = Inr (Some m1)" "length m1 = length m"
    using guest_access(1) [OF p(1), of "replicate 16 0" m] p(2) by auto
  have "nat (sint ?p) + length ?data \<le> length m1" using p(2) m1(2) assms(3) by simp
  then obtain m2 where m2: "mem_write m1 (nat (sint ?p)) ?data = Some m2" by (simp add: mem_write_def)
  note m2_facts = mem_write_Some(1,2) [OF m2]
  have read: "abi_inbox_read st (Some m1) index ?p 16 = Inr (16, Some m2)"
    using assms(2,3) m2 p(1) by (simp add: abi_inbox_read_def Let_def usize_of_i32_def)
  have load: "guest_load (Some m2) ?p 16 = Inr ?data"
    using m2_facts(2) assms(3) by (simp add: guest_load_def unat_sint [OF p(1)])
  have "nat (sint ?o) + length ?out \<le> length m2" using o(2) m1(2) m2_facts(1) assms(3) by simp
  then obtain m3 where m3: "mem_write m2 (nat (sint ?o)) ?out = Some m3" by (simp add: mem_write_def)
  note m3_facts = mem_write_Some(1,2) [OF m3]
  have store: "guest_store (Some m2) ?o ?out = Inr (Some m3)"
    using m3 by (simp add: guest_store_def unat_sint [OF o(1)])
  have len: "length m3 = length m" using m1(2) m2_facts(1) m3_facts(1) by simp
  have "nat (sint ?o) + 24 \<le> length m3" using o(2) len by simp
  moreover have "mem_read m3 (nat (sint ?o)) 24 = Some ?out" using m3_facts(2) assms(3) by simp
  ultimately obtain r where emit: "abi_emit st (Some m3) 8 ?o 24 = Inr (r, echoed st ?data (ec_count g + 1))"
    using abi_emit_echo [OF assms(4) o(1) _ _ assms(3,5,6)] by blast
  have meta: "(ucast (abi_inbox_meta st index) :: u32) = 16"
    using assms(2,3) ucast_meta [of "ib_channel_id message" 16] by (simp add: abi_inbox_meta_def)
  show ?thesis
    by (intro exI [of _ m3] conjI len)
      (simp add: echo_message_def m1(1) meta read load store emit Let_def)
qed

subsection \<open>The messages of a tick\<close>

text \<open>
  The emit of the \<open>i\<close>-th delivery, and the state after \<open>i\<close> deliveries of the synthetic corpus: the
  retained bytes have room for 174762 emits of 24 bytes, later ones are refused.
\<close>

definition echo_record :: "nat \<Rightarrow> emitted_payload" where
  "echo_record i =
     \<lparr>em_tick = word_of_nat (i div 4), em_src_seq = word_of_nat i, em_channel_id = 8,
      em_payload = synthetic_payload (word_of_nat i) @ to_le (word_of_nat i + 1 :: u64)\<rparr>"

definition echoing :: "nat \<Rightarrow> nat \<Rightarrow> host_state \<Rightarrow> bool" where
  "echoing n i st \<longleftrightarrow>
     hs_emitted_payloads st = map echo_record [0..<min i 174762] \<and>
     hs_emitted_payload_bytes st = 24 * min i 174762 \<and>
     hs_emit_sequence st = word_of_nat (min i 174762) \<and>
     hs_emit_channels st = [8] \<and> hs_emitted_payload_limit st = n \<and> hs_params st = Map.empty"

lemma length_synthetic_payload [simp]: "length (synthetic_payload i) = 16"
  by (simp add: synthetic_payload_def)

lemma echoing_Suc:
  assumes "echoing n i st" and "hs_tick st = word_of_nat (i div 4)"
  shows "echoing n (Suc i) (echoed st (synthetic_payload (word_of_nat i)) (word_of_nat i + 1))"
proof (cases "i < 174762")
  case True
  with assms show ?thesis
    by (simp add: echoing_def echoed_def emit_record_def echo_record_def MAX_EMITTED_PAYLOAD_BYTES_def
        min_def not_less_eq_eq)
next
  case False
  with assms show ?thesis
    by (simp add: echoing_def echoed_def MAX_EMITTED_PAYLOAD_BYTES_def)
qed

lemma echoing_room:
  assumes "echoing n i st" and "i < n"
  shows "length (hs_emitted_payloads st) < hs_emitted_payload_limit st"
    and "unat (hs_emit_sequence st) + 1 < 2 ^ 64" and "8 \<in> set (hs_emit_channels st)"
  using assms by (auto simp: echoing_def unat_of_nat take_bit_eq_mod min_def)

lemma echoed_fields [simp]:
  "hs_inbox (echoed st p c) = hs_inbox st" "hs_tick (echoed st p c) = hs_tick st"
  "hs_random_draw_ordinal (echoed st p c) = hs_random_draw_ordinal st"
  by (simp_all add: echoed_def)

lemma echo_messages_run:
  assumes "layout_ok la sz" and "length m = sz" and "echoing n i st"
    and "ec_count g = word_of_nat i" and "k + length ks = length (hs_inbox st)"
    and "ks = [k..<length (hs_inbox st)]" and "length (hs_inbox st) < 2 ^ 31"
    and "\<forall>j<length ks. ib_payload (hs_inbox st ! (k + j)) = synthetic_payload (word_of_nat (i + j))"
    and "\<forall>j<length ks. hs_tick st = word_of_nat ((i + j) div 4)"
    and "i + length ks \<le> n"
  shows "\<exists>g' st' m'. echo_messages h xof la ks g st (Some m) = Inr (g', st', Some m') \<and>
    length m' = sz \<and> echoing n (i + length ks) st' \<and> ec_count g' = word_of_nat (i + length ks) \<and>
    hs_random_draw_ordinal st' = hs_random_draw_ordinal st"
  using assms
proof (induction ks arbitrary: k i g st m)
  case (Cons x ks)
  have x: "x = k" "ks = [Suc k..<length (hs_inbox st)]" "k < length (hs_inbox st)"
    using upt_eq_Cons_conv [THEN iffD1, OF Cons.prems(6) [symmetric]] by auto
  let ?message = "hs_inbox st ! k" and ?cnt = "word_of_nat i + 1 :: u64"
  have payload: "ib_payload ?message = synthetic_payload (word_of_nat i)" and tick: "hs_tick st = word_of_nat (i div 4)"
    using Cons.prems(8,9) by (auto dest: spec [of _ 0])
  have get: "inbox_get st (word_of_nat k) = Some ?message"
    using x(3) Cons.prems(7) by (simp add: inbox_get_def usize_of_i32_def sint_i32_of_nat get_at_def)
  have "i < n" using Cons.prems(10) by simp
  note room = echoing_room [OF Cons.prems(3) this]
  have "layout_ok la (length m)" using Cons.prems(1,2) by simp
  from echo_message_step [OF this get _ room(3,1,2), of h xof g] obtain m1 where m1: "length m1 = length m"
    "echo_message h xof la (word_of_nat k) g st (Some m) =
       Inr (g\<lparr>ec_count := ?cnt\<rparr>, echoed st (synthetic_payload (word_of_nat i)) ?cnt, Some m1)"
    using Cons.prems(4) by (auto simp: payload)
  let ?st = "echoed st (synthetic_payload (word_of_nat i)) ?cnt" and ?g = "g\<lparr>ec_count := ?cnt\<rparr>"
  have "\<exists>g' st' m'. echo_messages h xof la ks ?g ?st (Some m1) = Inr (g', st', Some m') \<and>
      length m' = sz \<and> echoing n (Suc i + length ks) st' \<and> ec_count g' = word_of_nat (Suc i + length ks) \<and>
      hs_random_draw_ordinal st' = hs_random_draw_ordinal ?st"
  proof (rule Cons.IH [where k = "Suc k"])
    show "echoing n (Suc i) ?st" by (rule echoing_Suc [OF Cons.prems(3) tick])
    show "\<forall>j<length ks. ib_payload (hs_inbox ?st ! (Suc k + j)) = synthetic_payload (word_of_nat (Suc i + j))"
    proof (intro allI impI)
      fix j assume "j < length ks"
      with Cons.prems(8) [rule_format, of "Suc j"]
      show "ib_payload (hs_inbox ?st ! (Suc k + j)) = synthetic_payload (word_of_nat (Suc i + j))"
        by (simp add: ac_simps)
    qed
    show "\<forall>j<length ks. hs_tick ?st = word_of_nat ((Suc i + j) div 4)"
    proof (intro allI impI)
      fix j assume "j < length ks"
      with Cons.prems(9) [rule_format, of "Suc j"]
      show "hs_tick ?st = word_of_nat ((Suc i + j) div 4)" by simp
    qed
  qed (use Cons.prems x m1(1) in \<open>auto simp: add.commute\<close>)
  then show ?case by (simp add: x(1) m1(2))
qed auto

lemma echo_tail:
  assumes "layout_ok la (length m)" and "unat (hs_random_draw_ordinal st) + 1 < 2 ^ 64"
    and "echoing n i st"
  shows "\<exists>st'. host_calls h xof [CallTick, CallSetTimer (- 1), CallRand (la_random la) 0,
      CallParam 0 0 0 0, CallLog 0 0 0] st (Some m) = Inr (st', Some m) \<and>
    echoing n i st' \<and> hs_random_draw_ordinal st' = hs_random_draw_ordinal st + 1"
proof -
  let ?st = "st\<lparr>hs_random_draw_ordinal := hs_random_draw_ordinal st + 1\<rparr>"
  have "checked_guest_range (Some m) (la_random la) 0 MAX_ABI_TRANSFER_BYTES = Inr (m, nat (sint (la_random la)), 0)"
    and zero: "checked_guest_range (Some m) 0 0 MAX_ABI_TRANSFER_BYTES = Inr (m, 0, 0)"
    using assms(1) by (simp_all add: checked_guest_range_Inr layout_ok_def)
  moreover have "mem_write m (nat (sint (la_random la))) [] = Some m"
    using assms(1) by (simp add: mem_write_def layout_ok_def)
  ultimately have rand: "abi_rand h xof st (Some m) (la_random la) 0 = Inr (?st, Some m)"
    using assms(2) by (simp add: abi_rand_def checked_add_u64_def Let_def)
  have param: "\<exists>r. abi_param ?st (Some m) 0 0 0 0 = Inr (r, Some m)"
    using assms(3) by (simp add: abi_param_def zero mem_read_def get_range_def echoing_def)
  have read: "mem_read m 0 0 = Some []" by (simp add: mem_read_def get_range_def subslice_def)
  obtain st' where log: "abi_log ?st (Some m) 0 0 0 = Inr st'"
    by (cases "validate_log_retention (length (hs_log_lines st)) (hs_retained_log_bytes st) 0")
      (auto simp: abi_log_def zero read)
  from abi_log_cases [OF log] assms(3) have "echoing n i st'" "hs_random_draw_ordinal st' = hs_random_draw_ordinal ?st"
    by (auto simp: echoing_def)
  with rand param log show ?thesis by auto
qed

lemma rook_step_run:
  assumes "layout_ok la sz" and "length m = sz" and "echoing n i st"
    and "ec_count g = word_of_nat i" and "length (hs_inbox st) = k" and "k < 2 ^ 31"
    and "\<forall>j<k. ib_payload (hs_inbox st ! j) = synthetic_payload (word_of_nat (i + j))"
    and "\<forall>j<k. hs_tick st = word_of_nat ((i + j) div 4)" and "i + k \<le> n"
    and "unat (hs_random_draw_ordinal st) + 1 < 2 ^ 64"
  shows "\<exists>g' st' m'. rook_step h xof la g st (Some m) = Inr (g', st', Some m') \<and>
    length m' = sz \<and> echoing n (i + k) st' \<and> ec_count g' = word_of_nat (i + k) \<and>
    unat (hs_random_draw_ordinal st') = Suc (unat (hs_random_draw_ordinal st))"
proof -
  note echo_messages_run [OF assms(1-4), of 0 "[0..<k]" h xof, unfolded add_0 length_upt diff_zero assms(5),
      OF refl refl assms(6-9)]
  then obtain g' st1 m1 where
    msgs: "echo_messages h xof la [0..<k] g st (Some m) = Inr (g', st1, Some m1)"
    and m1: "length m1 = sz" "echoing n (i + k) st1" "ec_count g' = word_of_nat (i + k)"
      "hs_random_draw_ordinal st1 = hs_random_draw_ordinal st"
    by blast
  have "layout_ok la (length m1)" using assms(1) m1(1) by simp
  moreover have "unat (hs_random_draw_ordinal st1) + 1 < 2 ^ 64" using assms(10) m1(4) by simp
  ultimately obtain st' where
    tail: "host_calls h xof [CallTick, CallSetTimer (- 1), CallRand (la_random la) 0,
      CallParam 0 0 0 0, CallLog 0 0 0] st1 (Some m1) = Inr (st', Some m1)"
    and st': "echoing n (i + k) st'" "hs_random_draw_ordinal st' = hs_random_draw_ordinal st1 + 1"
    using echo_tail m1(2) by blast
  have "nat (sint (word_of_nat k :: i32)) = k" using assms(6) by (simp add: sint_i32_of_nat)
  then have "rook_step h xof la g st (Some m) = Inr (g', st', Some m1)"
    using msgs tail assms(5) by (simp add: rook_step_def del: host_calls.simps)
  moreover have "unat (hs_random_draw_ordinal st') = Suc (unat (hs_random_draw_ordinal st))"
    using assms(10) st'(2) m1(4) by (simp add: unat_word_ariths)
  ultimately show ?thesis using m1 st'(1) by blast
qed

subsection \<open>The whole corpus\<close>

lemma generate_tick:
  "i < unat n \<Longrightarrow> e_tick (generate_synthetic_deliveries h n ! i) = word_of_nat (i div 4)"
  using unat_u32_bound [of n] by (simp add: generate_synthetic_deliveries_def synth_tick)

lemma same_tick_run:
  assumes "i < unat n" and "xs = generate_synthetic_deliveries h n"
    and "same = takeWhile (\<lambda>e. e_tick e = word_of_nat (i div 4)) (drop i xs)"
  shows "0 < length same" and "length same \<le> 4" and "i + length same \<le> unat n"
    and "\<forall>j<length same. (i + j) div 4 = i div 4"
proof -
  have at: "drop i xs ! j = xs ! (i + j)" "j < length (drop i xs) \<longleftrightarrow> i + j < unat n" for j
    using assms(1) by (auto simp: assms(2))
  have same: "e_tick (xs ! (i + j)) = word_of_nat (i div 4)" "i + j < unat n" if "j < length same" for j
  proof -
    have "j < length (drop i xs)" using that length_takeWhile_le unfolding assms(3) by (rule less_le_trans)
    then show "i + j < unat n" by (simp only: at)
    have "same ! j \<in> set same" using that by simp
    then have "e_tick (same ! j) = word_of_nat (i div 4)"
      unfolding assms(3) by (auto dest: set_takeWhileD)
    then show "e_tick (xs ! (i + j)) = word_of_nat (i div 4)"
      using that by (simp add: assms(3) takeWhile_nth at)
  qed
  have div: "(i + j) div 4 = i div 4" if "j < length same" for j
    using same [OF that] unat_u32_bound [of n] assms(1)
    by (simp add: assms(2) generate_tick u64_of_nat_eq)
  then show "\<forall>j<length same. (i + j) div 4 = i div 4" by blast
  show "length same \<le> 4"
  proof (rule ccontr)
    assume "\<not> length same \<le> 4"
    with div [of 4] show False by simp
  qed
  have "drop i xs = xs ! i # drop (Suc i) xs" using assms(1) by (simp add: assms(2) Cons_nth_drop_Suc)
  moreover have "e_tick (xs ! i) = word_of_nat (i div 4)" using assms(1) by (simp add: assms(2) generate_tick)
  ultimately show "0 < length same" by (simp add: assms(3))
  then have "length same - 1 < length same" by simp
  from same(2) [OF this] \<open>0 < length same\<close> show "i + length same \<le> unat n" by simp
qed

text \<open>A cell after \<open>i\<close> deliveries.\<close>

definition echo_after :: "nat \<Rightarrow> nat \<Rightarrow> nat \<Rightarrow> echo_state cell \<Rightarrow> bool" where
  "echo_after sz n i c \<longleftrightarrow>
     echoing n i (cl_state c) \<and> ec_count (cl_guest c) = word_of_nat i \<and>
     unat (hs_random_draw_ordinal (cl_state c)) \<le> i \<and> (\<exists>m. cl_memory c = Some m \<and> length m = sz)"

lemma feed_synthetic_echo:
  assumes "layout_ok la sz" and "echo_after sz (unat n) i c" and "i \<le> unat n"
  shows "\<exists>c'. feed_synthetic (echo_guest h xof la mem) (generate_synthetic_deliveries h n) i c = Inr c' \<and>
    echo_after sz (unat n) (unat n) c'"
  using assms(2,3)
proof (induction "unat n - i" arbitrary: i c rule: less_induct)
  case less
  let ?xs = "generate_synthetic_deliveries h n"
  show ?case
  proof (cases "i < unat n")
    case False
    with less.prems have "i = unat n" by simp
    with less.prems show ?thesis by (simp add: feed_synthetic.simps)
  next
    case True
    define same where "same = takeWhile (\<lambda>e. e_tick e = word_of_nat (i div 4)) (drop i ?xs)"
    define k where "k = length same"
    note run = same_tick_run [OF True refl same_def, folded k_def]
    define inbox where "inbox = map (\<lambda>event_index. \<lparr>ib_channel_id = INPUT_CHANNEL_ID,
                ib_payload = synthetic_payload (word_of_nat event_index)\<rparr>) [i..<i + k]"
    let ?st = "(cl_state c)\<lparr>hs_tick := word_of_nat (i div 4), hs_inbox := inbox\<rparr>"
    obtain m where m: "cl_memory c = Some m" "length m = sz"
      and st: "echoing (unat n) i (cl_state c)" "ec_count (cl_guest c) = word_of_nat i"
        "unat (hs_random_draw_ordinal (cl_state c)) \<le> i"
      using less.prems(1) unfolding echo_after_def by blast
    have "echoing (unat n) i ?st" using st(1) by (simp add: echoing_def)
    moreover have "length (hs_inbox ?st) = k" by (simp add: inbox_def)
    moreover have "k < 2 ^ 31" using run(2) by simp
    moreover have "\<forall>j<k. ib_payload (hs_inbox ?st ! j) = synthetic_payload (word_of_nat (i + j))"
      by (simp add: inbox_def)
    moreover have "\<forall>j<k. hs_tick ?st = word_of_nat ((i + j) div 4)" using run(4) by simp
    moreover have "unat (hs_random_draw_ordinal ?st) + 1 < 2 ^ 64"
      using st(3) True unat_u32_bound [of n] by simp
    ultimately obtain g' st' m' where
      s: "rook_step h xof la (cl_guest c) ?st (Some m) = Inr (g', st', Some m')"
      and after: "length m' = sz" "echoing (unat n) (i + k) st'" "ec_count g' = word_of_nat (i + k)"
        "unat (hs_random_draw_ordinal st') = Suc (unat (hs_random_draw_ordinal ?st))"
      using rook_step_run [OF assms(1) m(2) _ st(2)] run(3) by blast
    let ?c = "\<lparr>cl_guest = g', cl_state = st'\<lparr>hs_inbox := []\<rparr>, cl_memory = Some m'\<rparr>"
    have "echo_after sz (unat n) (i + k) ?c"
      using after run(1) st(3) by (auto simp: echo_after_def echoing_def)
    moreover have "unat n - (i + k) < unat n - i" using run(1) True by simp
    ultimately obtain c' where
      "feed_synthetic (echo_guest h xof la mem) ?xs (i + k) ?c = Inr c'" "echo_after sz (unat n) (unat n) c'"
      using less.hyps run(3) by blast
    moreover have "feed_synthetic (echo_guest h xof la mem) ?xs i c =
        feed_synthetic (echo_guest h xof la mem) ?xs (i + k) ?c"
      using True s m(1)
      by (subst feed_synthetic.simps)
        (simp add: generate_tick cell_step_def echo_guest_def Let_def
          flip: same_def k_def inbox_def)
    ultimately show ?thesis by simp
  qed
qed

subsection \<open>The whole program\<close>

lemma echo_instance:
  assumes "sz = length mem"
  shows "\<exists>c. instantiate_cell (echo_guest h xof la mem) (echo_host n) = Inr c \<and> echo_after sz (unat n) 0 c"
  using assms
  by (simp add: instantiate_cell_def echo_guest_def echo_after_def echoing_def echo_host_def
      rook_init_def default_host_state_def OUTPUT_CHANNEL_ID_def)

lemma generate_all_deliver: "filter (\<lambda>e. e_kind e = KDeliver) (generate_synthetic_deliveries h n) = generate_synthetic_deliveries h n"
  "filter (\<lambda>e. e_kind e = KEmit) (generate_synthetic_deliveries h n) = []"
  by (auto simp: generate_synthetic_deliveries_def synthetic_delivery_def filter_id_conv filter_empty_conv)

lemma expected_emits_observed:
  assumes "unat n \<le> 174762"
  shows "generate_expected_emits h (generate_synthetic_deliveries h n) =
    map (observe_emit h) (map echo_record [0..<unat n])"
  by (auto simp: generate_expected_emits_def observe_emit_def echo_record_def generate_tick
      OUTPUT_CHANNEL_ID_def Let_def)

lemma observe_filters:
  "filter (\<lambda>e. e_kind e = KDeliver) (map (observe_emit h) xs) = []"
  "filter (\<lambda>e. e_kind e = KEmit) (map (observe_emit h) xs) = map (observe_emit h) xs"
  by (auto simp: observe_emit_def filter_empty_conv filter_id_conv)

lemma run_cell_replay_echo:
  assumes "layout_ok la (length mem)"
  shows "run_cell_replay h kh (echo_guest h xof la mem) n =
    (if unat n \<le> 174762 then Inr (replay_synthetic h kh n) else Inl (WrongEmitCount 174762 n))"
proof -
  obtain c where c: "instantiate_cell (echo_guest h xof la mem) (echo_host n) = Inr c"
    and "echo_after (length mem) (unat n) 0 c"
    using echo_instance [OF refl] by blast
  from feed_synthetic_echo [OF assms this(2)] obtain c' where
    c': "feed_synthetic (echo_guest h xof la mem) (generate_synthetic_deliveries h n) 0 c = Inr c'"
    and "echo_after (length mem) (unat n) (unat n) c'"
    by blast
  then have emits: "hs_emitted_payloads (cl_state c') = map echo_record [0..<min (unat n) 174762]"
    by (simp add: echo_after_def echoing_def)
  have run: "run_cell_replay h kh (echo_guest h xof la mem) n =
      (if min (unat n) 174762 \<noteq> unat n then Inl (WrongEmitCount (min (unat n) 174762) n)
       else replay_observed h kh (generate_synthetic_deliveries h n @
              map (observe_emit h) (map echo_record [0..<unat n])))"
    unfolding run_cell_replay_def c c' Let_def sum.case emits by simp
  show ?thesis
  proof (cases "unat n \<le> 174762")
    case True
    then have "replay_observed h kh (generate_synthetic_deliveries h n @
              map (observe_emit h) (map echo_record [0..<unat n])) = Inr (replay_synthetic h kh n)"
      unfolding replay_observed_def filter_append generate_all_deliver observe_filters Let_def
      by (simp add: replay_synthetic_correct expected_emits_observed)
    with True show ?thesis unfolding run by simp
  qed (simp add: run)
qed

text \<open>A digest travels as four little-endian words.\<close>

lemma chunks_4:
  assumes "length (bs :: bytes) = 32"
  shows "chunks 8 bs = [take 8 bs, take 8 (drop 8 bs), take 8 (drop 16 bs), drop 24 bs]"
proof -
  have step: "chunks 8 xs = take 8 xs # chunks 8 (drop 8 xs)" if "xs \<noteq> []" for xs :: bytes
    using that by (simp add: chunks.simps)
  have "bs \<noteq> []" "drop 8 bs \<noteq> []" "drop 16 bs \<noteq> []" "drop 24 bs \<noteq> []" using assms by auto
  then show ?thesis using assms by (simp add: step)
qed

lemma digest_words:
  "to_le (from_le (take 8 bs) :: u64) @ to_le (from_le (take 8 (drop 8 bs)) :: u64) @
     to_le (from_le (take 8 (drop 16 bs)) :: u64) @ to_le (from_le (drop 24 bs) :: u64) = bs"
  if "length bs = 32"
proof -
  have "take 8 bs @ take 8 (drop 8 bs) @ take 8 (drop 16 bs) @ drop 24 bs = bs"
    using append_take_drop_id [of 8 bs] append_take_drop_id [of 8 "drop 8 bs"]
      append_take_drop_id [of 8 "drop 16 bs"] by simp
  with that show ?thesis by (simp add: to_from_le)
qed

lemma upt_4: "[0..<4] = [0, 1, 2, 3 :: nat]" by (simp add: upt_rec)

lemma read_words:
  "read_hash_words [a, b, c, d, e, f, g, x] 0 = Some (from_le (to_le a @ to_le b @ to_le c @ to_le d))"
  "read_hash_words [a, b, c, d, e, f, g, x] 1 = Some (from_le (to_le e @ to_le f @ to_le g @ to_le x))"
  by (simp_all add: read_hash_words_def hash_word_def get_at_def upt_4)

lemma run_core_wasm_exact: "run_core_wasm h kh n = Some (replay_synthetic h kh n)"
proof -
  let ?r = "replay_synthetic h kh n"
  have "read_hash_words (core_replay h kh n) 0 = Some (run_hash ?r)"
    and "read_hash_words (core_replay h kh n) 1 = Some (output_digest ?r)"
    unfolding core_replay_def Let_def chunks_4 [OF length_to_le_widths(6)] append.simps list.map read_words
    by (simp_all only: digest_words [OF length_to_le_widths(6)] from_to_le)
  then show ?thesis by (simp add: run_core_wasm_def Let_def)
qed

lemma host_main_echo:
  assumes "layout_ok la (length mem)"
  shows "host_main h kh (echo_guest h xof la mem) core_given = Some (Inr (replay_synthetic h kh EVENT_COUNT))"
  by (simp add: host_main_def run_cell_replay_echo [OF assms] EVENT_COUNT_def replay_synthetic_correct
      require_equal_def run_core_wasm_exact)

section \<open>Properties of the host program\<close>

text \<open>
  C38. Fed the synthetic corpus tick by tick through the host interface, the echo cell produces the
  run the scheduler hashes: the host program succeeds with the hashes of the streaming replay, with
  or without a Wasm core to compare.  For any other event count this holds up to 174762 events;
  beyond, the retained emit bytes are full, later emits are refused and the count check reports it.
\<close>

theorem echo_host_agrees:
  assumes "layout_ok la (length mem)"
  shows "run_cell_replay h kh (echo_guest h xof la mem) n =
      (if unat n \<le> 174762 then Inr (replay_synthetic h kh n) else Inl (WrongEmitCount 174762 n)) \<and>
    host_main h kh (echo_guest h xof la mem) core_given = Some (Inr (replay_synthetic h kh EVENT_COUNT))"
  using run_cell_replay_echo [OF assms] host_main_echo [OF assms] by blast

theorem echo_host_agrees_witness:
  "let la = \<lparr>la_payload = 0, la_output = 16, la_random = 40\<rparr>; mem = replicate 64 0 in
     run_cell_replay demo_hash (\<lambda>_ _. 0) (echo_guest demo_hash (\<lambda>_ _ _. 0) la mem) 200000 =
       Inl (WrongEmitCount 174762 200000) \<and>
     host_main demo_hash (\<lambda>_ _. 0) (echo_guest demo_hash (\<lambda>_ _ _. 0) la mem) True =
       Some (Inr (replay_synthetic demo_hash (\<lambda>_ _. 0) EVENT_COUNT))"
proof -
  have "layout_ok \<lparr>la_payload = 0, la_output = 16, la_random = 40\<rparr> (length (replicate 64 (0 :: u8)))"
    by (simp add: layout_ok_def)
  from echo_host_agrees [OF this] show ?thesis unfolding Let_def by auto
qed

text \<open>
  Through eight 64-bit words and two exported functions the host reads back exactly the hashes
  the scheduler computed inside Wasm.
\<close>

theorem wasm_core_roundtrip: "run_core_wasm h kh event_count = Some (replay_synthetic h kh event_count)"
  by (rule run_core_wasm_exact)

end
