(* ===== verification/Rmf_Recording.thy ===== *)
theory Rmf_Recording
  imports Rmf_Scenario Echo_Cell
begin

text \<open>
  What holds of the recording of \<open>Rmf_Scenario\<close>: its deliveries are in the order of their keys and no key
  repeats, so feeding them is what recording did; the robots keep to their paths and grants; heartbeats are
  read exactly; and, for cells that are steady under the retained-emit limit (the locale \<open>steady_cell\<close>), the
  replay of a recording is the recording.
\<close>

section \<open>What is delivered\<close>

lemma robot_delivery_eq:
  "robot_delivery h r tick ch pl = (rmf_delivery h tick (rb_src_actor r) (rb_seq r) ch pl, r\<lparr>rb_seq := rb_seq r + 1\<rparr>)"
  by (simp add: robot_delivery_def)

lemma rmf_delivery_fields [simp]:
  "dv_tick (rmf_delivery h t a sq ch pl) = t" "e_src_actor (dv_envelope (rmf_delivery h t a sq ch pl)) = a"
  "e_channel_id (dv_envelope (rmf_delivery h t a sq ch pl)) = ch" "dv_payload (rmf_delivery h t a sq ch pl) = pl"
  by (simp_all add: rmf_delivery_def)

text \<open>A polled robot sends at most one message, from its own actor, at the tick.\<close>

lemma robot_messages_one:
  "\<exists>ms. snd (robot_messages h r t) = ms \<and> length ms \<le> 1 \<and>
     (\<forall>d\<in>set ms. dv_tick d = t \<and> e_src_actor (dv_envelope d) = rb_src_actor r)"
  unfolding robot_messages_def robot_delivery_eq Let_def by simp

lemma robot_messages_actor [simp]: "rb_src_actor (fst (robot_messages h r t)) = rb_src_actor r"
  unfolding robot_messages_def robot_delivery_eq Let_def by simp

lemma apply_status_actors [simp]: "map rb_src_actor (apply_status s rs) = map rb_src_actor rs"
  by (induction s rs rule: apply_status.induct) auto

lemma apply_heartbeats_actors:
  "apply_heartbeats es rs = Inr rs' \<Longrightarrow> map rb_src_actor rs' = map rb_src_actor rs"
proof (induction es rs rule: apply_heartbeats.induct)
  case (2 e es rs)
  have "map rb_src_actor (fold apply_status ss rs) = map rb_src_actor rs" for ss rs
    by (induction ss arbitrary: rs) auto
  with 2 show ?case by (auto simp: apply_heartbeat_def split: sum.splits)
qed simp

definition robot_actors :: "u32 list" where
  "robot_actors = [101, 102, 103, 104, 105, 106, 107]"

lemma make_robots_actors: "map rb_src_actor make_robots = robot_actors"
  by (simp add: make_robots_def robot_paths_def make_robot_def robot_actors_def FIRST_ROBOT_ACTOR_ID_def Let_def)

text \<open>The deliveries of one tick: at most one from each actor, in the order of the keys.\<close>

definition tick_inbox :: "u64 \<Rightarrow> delivery list \<Rightarrow> bool" where
  "tick_inbox t ds \<longleftrightarrow>
     (\<forall>d\<in>set ds. dv_tick d = t) \<and> sorted (map delivery_key ds) \<and> distinct (map delivery_key ds) \<and>
     length ds \<le> 8 \<and> (t mod HEARTBEAT_PERIOD \<noteq> 0 \<longrightarrow> length ds < 8)"

lemma distinct_map_coarser:
  assumes "distinct (map f xs)" and "\<And>x y. g x = g y \<Longrightarrow> f x = f y"
  shows "distinct (map g xs)"
  using assms(1) by (induction xs) (auto dest: assms(2) simp: image_iff)

lemma concat_actors:
  assumes "distinct (map rb_src_actor rs)"
  shows "distinct (map (\<lambda>d. e_src_actor (dv_envelope d)) (concat (map (\<lambda>r. snd (robot_messages h r t)) rs))) \<and>
    (\<lambda>d. e_src_actor (dv_envelope d)) ` set (concat (map (\<lambda>r. snd (robot_messages h r t)) rs)) \<subseteq> rb_src_actor ` set rs \<and>
    length (concat (map (\<lambda>r. snd (robot_messages h r t)) rs)) \<le> length rs"
  using assms
proof (induction rs)
  case (Cons r rs)
  from robot_messages_one [of h r t] have one: "length (snd (robot_messages h r t)) \<le> 1"
    "\<forall>d\<in>set (snd (robot_messages h r t)). e_src_actor (dv_envelope d) = rb_src_actor r" by auto
  from Cons.prems have rest: "distinct (map rb_src_actor rs)" "rb_src_actor r \<notin> rb_src_actor ` set rs" by simp_all
  note IH = Cons.IH [OF rest(1)]
  show ?case
  proof (cases "snd (robot_messages h r t)")
    case Nil
    with IH show ?thesis by auto
  next
    case (Cons d ms)
    with one have m: "snd (robot_messages h r t) = [d]" "e_src_actor (dv_envelope d) = rb_src_actor r" by simp_all
    define ps where "ps = concat (map (\<lambda>r. snd (robot_messages h r t)) rs)"
    from IH rest(2) have "rb_src_actor r \<notin> (\<lambda>d. e_src_actor (dv_envelope d)) ` set ps" unfolding ps_def by blast
    with IH show ?thesis unfolding list.map(2) concat.simps m ps_def [symmetric] by (auto simp: m(2))
  qed
qed simp

lemma poll_inbox:
  assumes "poll h t (sq, rs) = ((sq', rs'), inbox)" and "map rb_src_actor rs = robot_actors"
  shows "tick_inbox t inbox" and "map rb_src_actor rs' = robot_actors" and "t mod HEARTBEAT_PERIOD = 0 \<Longrightarrow> inbox \<noteq> []"
proof -
  let ?timer = "if t mod HEARTBEAT_PERIOD = 0 then [rmf_delivery h t TIMER_ACTOR_ID sq CH_HEARTBEAT_TIMER []] else []"
  let ?polled = "concat (map (\<lambda>r. snd (robot_messages h r t)) rs)"
  from assms(1) have inbox: "inbox = sort_key delivery_key (?timer @ ?polled)"
    and rs': "rs' = map (\<lambda>r. fst (robot_messages h r t)) rs"
    by (auto simp: poll_def Let_def comp_def)
  show "map rb_src_actor rs' = robot_actors" using assms(2) by (simp add: rs' comp_def)
  have "length (map rb_src_actor rs) = 7" "distinct (map rb_src_actor rs)"
    unfolding assms(2) by (simp_all add: robot_actors_def)
  then have "distinct (map rb_src_actor rs)" "length rs = 7" by simp_all
  note actors = concat_actors [OF this(1), of h t] this(2)
  have notin: "TIMER_ACTOR_ID \<notin> rb_src_actor ` set rs"
    unfolding set_map [symmetric] assms(2) by (simp add: robot_actors_def TIMER_ACTOR_ID_def)
  have "distinct (map (\<lambda>d. e_src_actor (dv_envelope d)) (?timer @ ?polled))"
    using actors(1) notin by auto
  then have "distinct (map delivery_key (?timer @ ?polled))"
    by (rule distinct_map_coarser) (simp add: delivery_key_def scheduling_key_def)
  then have "distinct (map delivery_key inbox)" unfolding inbox distinct_map set_sort distinct_sort by blast
  moreover have "\<forall>d\<in>set inbox. dv_tick d = t"
  proof -
    have "\<forall>d\<in>set ?polled. dv_tick d = t" using robot_messages_one [of h _ t] by auto
    moreover have "\<forall>d\<in>set ?timer. dv_tick d = t" by simp
    moreover have "set inbox = set ?timer \<union> set ?polled" unfolding inbox set_sort set_append ..
    ultimately show ?thesis by blast
  qed
  ultimately show "tick_inbox t inbox"
    using actors by (simp add: tick_inbox_def inbox)
  show "inbox \<noteq> []" if "t mod HEARTBEAT_PERIOD = 0"
  proof -
    have "length inbox = length (?timer @ ?polled)" unfolding inbox by (rule length_sort)
    with that show ?thesis by auto
  qed
qed

subsection \<open>Feeding ticks\<close>

lemma feed_ticks_inbox:
  assumes "ds \<noteq> []" and "\<forall>d\<in>set ds. dv_tick d = t" and "\<forall>d\<in>set es. dv_tick d \<noteq> t"
  shows "feed_ticks cell (ds @ es) c =
    (case cell_step cell t (map message_of ds) c of Inl e \<Rightarrow> Inl e | Inr (k, c') \<Rightarrow> feed_ticks cell es c')"
proof -
  from assms(1) obtain d rest where ds: "ds = d # rest" by (cases ds) auto
  have rest: "\<forall>x\<in>set rest. dv_tick x = t" and d: "dv_tick d = t" using assms(2) by (simp_all add: ds)
  have tw: "takeWhile (\<lambda>x. dv_tick x = t) (rest @ es) = rest" "dropWhile (\<lambda>x. dv_tick x = t) (rest @ es) = es"
    using rest assms(3) by (cases es; auto simp: takeWhile_append dropWhile_append takeWhile_eq_Nil_iff dropWhile_eq_self_iff
        dropWhile_eq_Nil_conv takeWhile_eq_all_conv)+
  show ?thesis unfolding ds append_Cons feed_ticks.simps Let_def d tw ..
qed

lemma sorted_distinct_unique:
  assumes "mset ds' = mset ds" and "sorted (map delivery_key ds)" and "distinct (map delivery_key ds)"
  shows "sort_key delivery_key ds' = ds"
  using sort_deliveries_unique [OF assms(1) [symmetric] assms(3)] assms(2)
  by (simp add: sort_key_id_if_sorted)

text \<open>A tick of the recording is what feeding its deliveries does.\<close>

lemma record_tick_Inr:
  assumes "record_tick h guest t s = Inr s'" and "map rb_src_actor (scn_robots s) = robot_actors"
  shows "\<exists>inbox. scn_deliveries s' = scn_deliveries s @ inbox \<and> tick_inbox t inbox \<and>
    map rb_src_actor (scn_robots s') = robot_actors \<and> (t mod HEARTBEAT_PERIOD = 0 \<longrightarrow> inbox \<noteq> []) \<and>
    (if inbox = [] then scn_cell s' = scn_cell s
     else \<exists>k. cell_step guest t (map message_of inbox) (scn_cell s) = Inr (k, scn_cell s'))"
proof -
  obtain sq robots inbox where p: "poll h t (scn_timer_seq s, scn_robots s) = ((sq, robots), inbox)"
    by (metis surj_pair)
  note P = poll_inbox [OF p assms(2)]
  show ?thesis
  proof (cases "inbox = []")
    case True
    with assms(1) p have "s' = s\<lparr>scn_robots := robots, scn_timer_seq := sq\<rparr>" by (simp add: record_tick_def)
    moreover have "t mod HEARTBEAT_PERIOD \<noteq> 0" by (rule notI) (rule notE [OF P(3) True])
    ultimately show ?thesis using P True by (intro exI [of _ "[]"]) simp
  next
    case False
    with assms(1) p obtain k c robots' where
      c: "cell_step guest t (map message_of inbox) (scn_cell s) = Inr (k, c)"
      and r: "apply_heartbeats (drop k (hs_emitted_payloads (cl_state c))) robots = Inr robots'"
      and s': "s' = \<lparr>scn_robots = robots', scn_timer_seq = sq, scn_deliveries = scn_deliveries s @ inbox, scn_cell = c\<rparr>"
      by (auto simp: record_tick_def split: sum.splits)
    have "map rb_src_actor robots' = robot_actors" using apply_heartbeats_actors [OF r] P(2) by simp
    with c s' P False show ?thesis by (intro exI [of _ inbox]) auto
  qed
qed

definition tick_deliveries :: "nat list \<Rightarrow> delivery list \<Rightarrow> bool" where
  "tick_deliveries ts ds \<longleftrightarrow>
     (\<forall>d\<in>set ds. \<exists>t\<in>set ts. dv_tick d = word_of_nat t) \<and>
     sorted (map delivery_key ds) \<and> distinct (map delivery_key ds) \<and> length ds \<le> 8 * length ts \<and>
     ((\<exists>t\<in>set ts. (word_of_nat t :: u64) mod HEARTBEAT_PERIOD \<noteq> 0) \<longrightarrow> length ds < 8 * length ts)"

lemma delivery_key_tick: "delivery_key a = delivery_key b \<Longrightarrow> dv_tick a = dv_tick b"
  by (simp add: delivery_key_def scheduling_key_def)

lemma delivery_key_less: "dv_tick a < dv_tick b \<Longrightarrow> delivery_key a < delivery_key b"
  by (simp add: delivery_key_def scheduling_key_def less_prod_def less_eq_prod_def)

lemma tick_deliveries_Cons:
  assumes "tick_inbox (word_of_nat t) ds" and "tick_deliveries ts es" and "\<forall>u\<in>set ts. t < u \<and> u < 2 ^ 64"
  shows "tick_deliveries (t # ts) (ds @ es)" and "\<forall>d\<in>set es. dv_tick d \<noteq> word_of_nat t"
proof -
  have later: "dv_tick a < dv_tick b" if "a \<in> set ds" "b \<in> set es" for a b
  proof -
    from that assms(1,2) obtain u where u: "u \<in> set ts" "dv_tick b = word_of_nat u" "dv_tick a = word_of_nat t"
      unfolding tick_inbox_def tick_deliveries_def by blast
    with assms(3) show ?thesis by (auto simp: u64_of_nat_less)
  qed
  have order: "delivery_key a < delivery_key b" if "a \<in> set ds" "b \<in> set es" for a b
    by (rule delivery_key_less [OF later [OF that]])
  have "sorted (map delivery_key (ds @ es))"
    using assms(1,2) order by (auto simp: tick_inbox_def tick_deliveries_def sorted_append intro: less_imp_le)
  moreover have "distinct (map delivery_key (ds @ es))"
    using assms(1,2) order by (fastforce simp: tick_inbox_def tick_deliveries_def)
  moreover have "\<forall>d\<in>set (ds @ es). \<exists>u\<in>set (t # ts). dv_tick d = word_of_nat u"
    using assms(1,2) by (auto simp: tick_inbox_def tick_deliveries_def)
  moreover have "length (ds @ es) \<le> 8 * length (t # ts)"
    using assms(1,2) by (simp add: tick_inbox_def tick_deliveries_def)
  moreover have "length (ds @ es) < 8 * length (t # ts)" if "\<exists>u\<in>set (t # ts). (word_of_nat u :: u64) mod HEARTBEAT_PERIOD \<noteq> 0"
    using assms(1,2) that by (auto simp: tick_inbox_def tick_deliveries_def)
  ultimately show "tick_deliveries (t # ts) (ds @ es)" unfolding tick_deliveries_def by blast
  show "\<forall>d\<in>set es. dv_tick d \<noteq> word_of_nat t"
  proof
    fix d assume d: "d \<in> set es"
    with assms(2) obtain u where u: "u \<in> set ts" "dv_tick d = word_of_nat u" by (auto simp: tick_deliveries_def)
    from assms(3) u(1) have "t < u" "u < 2 ^ 64" by simp_all
    then have "(word_of_nat t :: u64) < word_of_nat u" by (simp add: u64_of_nat_less)
    with u show "dv_tick d \<noteq> word_of_nat t" by simp
  qed
qed

lemma record_ticks_feed:
  assumes "record_ticks h guest ts s = Inr s'" and "map rb_src_actor (scn_robots s) = robot_actors"
    and "sorted_wrt (<) ts" and "\<forall>t\<in>set ts. t < 2 ^ 64"
  shows "\<exists>ds. scn_deliveries s' = scn_deliveries s @ ds \<and> tick_deliveries ts ds \<and>
    feed_ticks guest ds (scn_cell s) = Inr (scn_cell s') \<and> (0 \<in> set ts \<longrightarrow> 0 \<in> dv_tick ` set ds)"
  using assms
proof (induction ts arbitrary: s)
  case Nil
  then show ?case by (simp add: tick_deliveries_def)
next
  case (Cons t ts)
  from Cons.prems(1) obtain s1 where s1: "record_tick h guest (word_of_nat t) s = Inr s1"
    and rest: "record_ticks h guest ts s1 = Inr s'" by (auto split: sum.splits)
  from record_tick_Inr [OF s1 Cons.prems(2)] obtain inbox where
    i: "scn_deliveries s1 = scn_deliveries s @ inbox" "tick_inbox (word_of_nat t) inbox"
      "map rb_src_actor (scn_robots s1) = robot_actors"
      "(word_of_nat t :: u64) mod HEARTBEAT_PERIOD = 0 \<longrightarrow> inbox \<noteq> []"
    and cell: "if inbox = [] then scn_cell s1 = scn_cell s
      else \<exists>k. cell_step guest (word_of_nat t) (map message_of inbox) (scn_cell s) = Inr (k, scn_cell s1)" by blast
  from Cons.IH [OF rest i(3)] Cons.prems(3,4) obtain ds where
    ds: "scn_deliveries s' = scn_deliveries s1 @ ds" "tick_deliveries ts ds"
      "feed_ticks guest ds (scn_cell s1) = Inr (scn_cell s')" by auto
  have order: "\<forall>u\<in>set ts. t < u \<and> u < 2 ^ 64" using Cons.prems(3,4) by simp
  note T = tick_deliveries_Cons [OF i(2) ds(2) order]
  have "feed_ticks guest (inbox @ ds) (scn_cell s) = Inr (scn_cell s')"
  proof (cases "inbox = []")
    case False
    from cell False obtain k where
      k: "cell_step guest (word_of_nat t) (map message_of inbox) (scn_cell s) = Inr (k, scn_cell s1)" by auto
    have "\<forall>d\<in>set inbox. dv_tick d = word_of_nat t" using i(2) by (simp add: tick_inbox_def)
    from feed_ticks_inbox [OF False this T(2), of guest "scn_cell s"] show ?thesis by (simp add: k ds(3))
  qed (use cell ds(3) in simp)
  moreover have "0 \<in> dv_tick ` set (inbox @ ds)" if "0 \<in> set (t # ts)"
  proof -
    from that order have t: "t = 0" by auto
    then have "inbox \<noteq> []" using i(4) by (simp add: HEARTBEAT_PERIOD_def)
    then show ?thesis using i(2) t by (cases inbox) (auto simp: tick_inbox_def image_iff)
  qed
  ultimately show ?case using T(1) i(1) ds(1) by (intro exI [of _ "inbox @ ds"]) simp
qed

lemma make_scene_deliveries:
  assumes "record_run h guest angle = Inr r"
  shows "\<exists>c c'. instantiate_cell guest (cell_host angle (SCENARIO_TICKS * 8)) = Inr c \<and>
    feed_ticks guest (cr_deliveries r) c = Inr c' \<and> r = (cell_finish c')\<lparr>cr_deliveries := cr_deliveries r\<rparr> \<and>
    sorted (map delivery_key (cr_deliveries r)) \<and> distinct (map delivery_key (cr_deliveries r)) \<and>
    length (cr_deliveries r) < SCENARIO_TICKS * 8 \<and> 0 \<in> dv_tick ` set (cr_deliveries r)"
proof -
  from assms obtain c s where c: "instantiate_cell guest (cell_host angle (SCENARIO_TICKS * 8)) = Inr c"
    and s: "record_ticks h guest [0..<SCENARIO_TICKS]
      \<lparr>scn_robots = make_robots, scn_timer_seq = 0, scn_deliveries = [], scn_cell = c\<rparr> = Inr s"
    and r: "r = (cell_finish (scn_cell s))\<lparr>cr_deliveries := scn_deliveries s\<rparr>"
    unfolding record_run_def by (auto split: sum.splits)
  from record_ticks_feed [OF s] have
    F: "tick_deliveries [0..<SCENARIO_TICKS] (scn_deliveries s)" "feed_ticks guest (scn_deliveries s) c = Inr (scn_cell s)"
      "0 \<in> dv_tick ` set (scn_deliveries s)"
    by (auto simp: make_robots_actors SCENARIO_TICKS_def simp del: upt.simps upt_conv_Cons)
  have "(1 :: nat) \<in> set [0..<SCENARIO_TICKS]" "(word_of_nat 1 :: u64) mod HEARTBEAT_PERIOD \<noteq> 0"
    by (simp_all add: SCENARIO_TICKS_def HEARTBEAT_PERIOD_def del: upt.simps)
  then have "\<exists>t\<in>set [0..<SCENARIO_TICKS]. (word_of_nat t :: u64) mod HEARTBEAT_PERIOD \<noteq> 0" by blast
  with F(1) have "length (scn_deliveries s) < 8 * length [0..<SCENARIO_TICKS]" unfolding tick_deliveries_def by blast
  then have "length (scn_deliveries s) < SCENARIO_TICKS * 8" by simp
  moreover have "cr_deliveries r = scn_deliveries s" by (simp add: r)
  ultimately show ?thesis using c F r unfolding tick_deliveries_def by (intro exI [of _ c] exI [of _ "scn_cell s"]) simp
qed

section \<open>Cells that are steady under the retained-emit limit\<close>

text \<open>
  The recording and its replay run under different limits of retained emits.  A cell is steady when
  only a refused emit shows it its limit: a step that stays below one limit and fits another is the
  same step under the other.
\<close>

definition relimit :: "nat \<Rightarrow> host_state \<Rightarrow> host_state" where
  "relimit n st = st\<lparr>hs_emitted_payload_limit := n\<rparr>"

definition fits :: "nat \<Rightarrow> host_state \<Rightarrow> bool" where
  "fits n st \<longleftrightarrow> length (hs_emitted_payloads st) < hs_emitted_payload_limit st \<and> length (hs_emitted_payloads st) \<le> n"

definition recell :: "nat \<Rightarrow> 'g cell \<Rightarrow> 'g cell" where
  "recell n c = c\<lparr>cl_state := relimit n (cl_state c)\<rparr>"

locale steady_cell = abi_cell +
  assumes init_steady: "g_init cell st = Inr (g, st', mem') \<Longrightarrow> fits n st' \<Longrightarrow>
      g_init cell (relimit n st) = Inr (g, relimit n st', mem')"
    and step_steady: "g_step cell g st mem = Inr (g', st', mem') \<Longrightarrow> fits n st' \<Longrightarrow>
      g_step cell g (relimit n st) mem = Inr (g', relimit n st', mem')"
begin

lemma cell_step_steady:
  assumes "cell_step cell t inbox c = Inr (k, c')" and "fits n (cl_state c')"
  shows "cell_step cell t inbox (recell n c) = Inr (k, recell n c')"
proof -
  let ?st = "(cl_state c)\<lparr>hs_tick := t, hs_inbox := inbox\<rparr>"
  from assms(1) obtain g st' mem where s: "g_step cell (cl_guest c) ?st (cl_memory c) = Inr (g, st', mem)"
    and k: "k = length (hs_emitted_payloads (cl_state c))"
    and c': "c' = \<lparr>cl_guest = g, cl_state = st'\<lparr>hs_inbox := []\<rparr>, cl_memory = mem\<rparr>"
    by (auto simp: cell_step_def Let_def split: sum.splits)
  from assms(2) have "fits n st'" by (simp add: fits_def c')
  from step_steady [OF s this]
  have "g_step cell (cl_guest c) ((relimit n (cl_state c))\<lparr>hs_tick := t, hs_inbox := inbox\<rparr>) (cl_memory c) =
      Inr (g, relimit n st', mem)" by (cases "cl_state c") (simp add: relimit_def)
  then show ?thesis by (simp add: cell_step_def recell_def k c' relimit_def)
qed

lemma cell_step_grows:
  assumes "cell_step cell t inbox c = Inr (k, c')" and "fits n (cl_state c')"
  shows "fits n (cl_state c)"
proof -
  let ?st = "(cl_state c)\<lparr>hs_tick := t, hs_inbox := inbox\<rparr>"
  from assms(1) obtain g st' mem where s: "g_step cell (cl_guest c) ?st (cl_memory c) = Inr (g, st', mem)"
    and c': "c' = \<lparr>cl_guest = g, cl_state = st'\<lparr>hs_inbox := []\<rparr>, cl_memory = mem\<rparr>"
    by (auto simp: cell_step_def Let_def split: sum.splits)
  from abi_steps_settings [OF step_abi [OF s]] assms(2) show ?thesis
    by (auto simp: fits_def c' same_settings_def emits_now_def)
qed

lemma feed_ticks_steady:
  "feed_ticks cell ds c = Inr c' \<Longrightarrow> fits n (cl_state c') \<Longrightarrow>
     fits n (cl_state c) \<and> feed_ticks cell ds (recell n c) = Inr (recell n c')"
proof (induction "length ds" arbitrary: ds c rule: less_induct)
  case less
  show ?case
  proof (cases ds)
    case (Cons d rest)
    let ?later = "dropWhile (\<lambda>e. dv_tick e = dv_tick d) rest"
    let ?inbox = "map message_of (d # takeWhile (\<lambda>e. dv_tick e = dv_tick d) rest)"
    obtain k c1 where s: "cell_step cell (dv_tick d) ?inbox c = Inr (k, c1)"
      and f: "feed_ticks cell ?later c1 = Inr c'"
      using less.prems(1) by (auto simp: Cons Let_def split: sum.splits)
    have "length ?later < length ds" by (simp add: Cons less_Suc_eq_le length_dropWhile_le)
    from less.hyps [OF this f less.prems(2)] have
      "fits n (cl_state c1)" "feed_ticks cell ?later (recell n c1) = Inr (recell n c')" by blast+
    with cell_step_grows [OF s] cell_step_steady [OF s] show ?thesis
      unfolding Cons feed_ticks.simps Let_def by simp
  qed (use less in simp)
qed

lemma instantiate_steady:
  assumes "instantiate_cell cell st = Inr c" and "fits n (cl_state c)"
  shows "instantiate_cell cell (relimit n st) = Inr (recell n c)"
  using assms init_steady unfolding instantiate_cell_def
  by (auto simp: recell_def split: sum.splits prod.splits)

lemma finish_recell: "cell_finish (recell n c) = cell_finish c"
  by (simp add: cell_finish_def recell_def relimit_def Let_def)

text \<open>The recording of a steady cell that emits at most once per delivery is its own replay.\<close>

lemma recording_replays:
  assumes "record_run h' cell angle = Inr r" and "length (cr_emits r) \<le> length (cr_deliveries r)"
    and "mset ds = mset (cr_deliveries r)"
  shows "replay_deliveries cell angle ds = Inr r"
proof -
  let ?n = "length (cr_deliveries r)"
  from make_scene_deliveries [OF assms(1)] obtain c c' where
    c: "instantiate_cell cell (cell_host angle (SCENARIO_TICKS * 8)) = Inr c"
    and c': "feed_ticks cell (cr_deliveries r) c = Inr c'" and r: "r = (cell_finish c')\<lparr>cr_deliveries := cr_deliveries r\<rparr>"
    and sorted: "sorted (map delivery_key (cr_deliveries r))" and dist: "distinct (map delivery_key (cr_deliveries r))"
    and bound: "?n < SCENARIO_TICKS * 8" by blast
  have "cr_emits r = hs_emitted_payloads (cl_state c')" by (subst r) (simp add: cell_finish_def Let_def)
  moreover have "hs_emitted_payload_limit (cl_state c') = SCENARIO_TICKS * 8"
  proof -
    have fresh: "fresh_host (cell_host angle (SCENARIO_TICKS * 8))"
      by (simp add: fresh_host_def cell_host_def default_host_state_def)
    from instantiate_life [OF c this] have
      born: "cell_life h xof (cl_state c) (cl_memory c)" "hs_tick (cl_state c) = 0"
        "hs_emitted_payload_limit (cl_state c) = SCENARIO_TICKS * 8"
      by (simp_all add: cell_host_def default_host_state_def)
    have "sorted (map dv_tick (cr_deliveries r))"
      using sorted_dv_tick [of "cr_deliveries r"] by (simp only: sort_key_id_if_sorted [OF sorted])
    from feed_ticks_life [OF c' born(1) this] born show ?thesis by simp
  qed
  ultimately have "fits ?n (cl_state c')" using assms(2) bound by (simp add: fits_def)
  from feed_ticks_steady [OF c' this] have
    steady: "fits ?n (cl_state c)" "feed_ticks cell (cr_deliveries r) (recell ?n c) = Inr (recell ?n c')" by blast+
  have host: "relimit ?n (cell_host angle (SCENARIO_TICKS * 8)) = cell_host angle ?n"
    by (simp add: relimit_def cell_host_def)
  have "sort_key delivery_key ds = cr_deliveries r" by (rule sorted_distinct_unique [OF assms(3) sorted dist])
  then have "replay_deliveries cell angle ds = Inr ((cell_finish c')\<lparr>cr_deliveries := cr_deliveries r\<rparr>)"
    using instantiate_steady [OF c steady(1)] steady(2) by (simp add: replay_deliveries_def host finish_recell)
  then show ?thesis using r by simp
qed

text \<open>And it is hashed.\<close>

lemma recording_hashes:
  assumes "record_run h' cell angle = Inr r" and "length (cr_emits r) \<le> length (cr_deliveries r)"
  shows "\<exists>x. run_hashes h kh r = Inr x"
proof -
  from make_scene_deliveries [OF assms(1)] have D: "distinct (map delivery_key (cr_deliveries r))"
    "length (cr_deliveries r) < SCENARIO_TICKS * 8" "0 \<in> dv_tick ` set (cr_deliveries r)" by blast+
  note E = replay_deliveries_emits [OF recording_replays [OF assms refl]]
  show ?thesis
    unfolding run_hashes_result_iff [OF E(2)] using D E(3) by (auto simp: SCENARIO_TICKS_def)
qed

end

lemma require_same_run_refl: "run_hashes h kh r = Inr x \<Longrightarrow> require_same_run h kh r r = Inr ()"
  unfolding require_same_run_iff by (simp add: list.rel_refl same_emit_def)

subsection \<open>The echo cell is steady\<close>

lemma retention_refused:
  "validate_emit_retention k b m limit = None \<Longrightarrow> k < limit \<Longrightarrow> validate_emit_retention k b m n = None"
  by (auto simp: validate_emit_retention_def split: if_splits option.splits)

lemma retention_kept:
  "validate_emit_retention k b m limit = Some x \<Longrightarrow> k < n \<Longrightarrow> validate_emit_retention k b m n = Some x"
  by (auto simp: validate_emit_retention_def split: if_splits option.splits)

lemma abi_emit_steady:
  assumes "abi_emit st mem ch p l = Inr (r, st')" and "fits n st'"
  shows "abi_emit (relimit n st) mem ch p l = Inr (r, relimit n st')"
proof (cases "ch \<in> set (hs_emit_channels st)")
  case False
  with assms show ?thesis by (simp add: abi_emit_def relimit_def)
next
  case True
  show ?thesis
  proof (cases "checked_guest_range mem p l MAX_ABI_TRANSFER_BYTES")
    case (Inl e)
    with assms True show ?thesis by (simp add: abi_emit_def relimit_def)
  next
    case (Inr range)
    obtain m q k where range: "range = (m, q, k)" by (cases range)
    show ?thesis
    proof (cases "validate_emit_retention (length (hs_emitted_payloads st)) (hs_emitted_payload_bytes st) k
        (hs_emitted_payload_limit st)")
      case None
      with assms True Inr range have st': "st' = st" "r = - 1" by (simp_all add: abi_emit_def)
      with assms(2) retention_refused [OF None] True Inr range show ?thesis
        by (simp add: abi_emit_def relimit_def fits_def)
    next
      case (Some b)
      with assms True Inr range obtain e where e: "hs_emitted_payloads st' = hs_emitted_payloads st @ [e]"
        by (auto simp: abi_emit_def split: option.splits)
      with assms(2) have "length (hs_emitted_payloads st) < n" by (simp add: fits_def)
      from retention_kept [OF Some this] assms(1) True Inr range Some show ?thesis
        by (auto simp: abi_emit_def relimit_def split: option.splits)
    qed
  qed
qed

lemma host_call_steady:
  assumes "host_call h xof c st mem = Inr (v, st', mem')" and "fits n st'"
  shows "fits n st \<and> host_call h xof c (relimit n st) mem = Inr (v, relimit n st', mem')"
proof -
  have "same_settings st st'" "emits_now st st'" using host_call_settings [OF assms(1)] by blast+
  then have "fits n st" using assms(2) by (auto simp: fits_def same_settings_def emits_now_def)
  moreover have "host_call h xof c (relimit n st) mem = Inr (v, relimit n st', mem')"
  proof (cases c)
    case (CallEmit ch p l)
    from assms(1) obtain r where r: "v = VI32 r" "mem' = mem" "abi_emit st mem ch p l = Inr (r, st')"
      by (auto simp: CallEmit split: sum.splits)
    show ?thesis using abi_emit_steady [OF r(3) assms(2)] r(1,2) by (simp add: CallEmit)
  qed (use assms(1) in \<open>auto simp: relimit_def abi_inbox_meta_def abi_inbox_read_def inbox_get_def abi_rand_def
        draw_input_def abi_param_def abi_log_def Let_def split: sum.splits option.splits if_splits\<close>)
  ultimately show ?thesis by blast
qed

lemma echo_message_steady:
  assumes "echo_message h xof la index g st mem = Inr (g', st', mem')" and "fits n st'"
  shows "fits n st \<and> echo_message h xof la index g (relimit n st) mem = Inr (g', relimit n st', mem')"
proof -
  from assms(1) obtain mem1 metadata st1 mem2 v2 st2 mem3 pl mem4 v3 where
    m: "guest_store mem (la_payload la) (replicate 16 0) = Inr mem1" "\<not> unat (ucast metadata :: u32) > 16"
      "guest_load mem3 (la_payload la) 16 = Inr pl"
      "guest_store mem3 (la_output la) (pl @ to_le (ec_count g + 1)) = Inr mem4" "g' = g\<lparr>ec_count := ec_count g + 1\<rparr>"
    and 1: "host_call h xof (CallInboxMeta index) st mem1 = Inr (VI64 metadata, st1, mem2)"
    and 2: "host_call h xof (CallInboxRead index (la_payload la) 16) st1 mem2 = Inr (v2, st2, mem3)"
    and 3: "host_call h xof (CallEmit 8 (la_output la) 24) st2 mem4 = Inr (v3, st', mem')"
    by (auto simp: echo_message_def Let_def simp del: host_call.simps
        split: sum.splits abi_value.splits if_splits)
  note s3 = host_call_steady [OF 3 assms(2)]
  note s2 = host_call_steady [OF 2 s3 [THEN conjunct1]]
  note s1 = host_call_steady [OF 1 s2 [THEN conjunct1]]
  show ?thesis
    using s1 s2 s3 m by (simp add: echo_message_def Let_def del: host_call.simps)
qed

lemma echo_messages_steady:
  "echo_messages h xof la is g st mem = Inr (g', st', mem') \<Longrightarrow> fits n st' \<Longrightarrow>
     fits n st \<and> echo_messages h xof la is g (relimit n st) mem = Inr (g', relimit n st', mem')"
proof (induction "is" arbitrary: g st mem)
  case (Cons i "is")
  then obtain g1 st1 mem1 where 1: "echo_message h xof la (word_of_nat i) g st mem = Inr (g1, st1, mem1)"
    and 2: "echo_messages h xof la is g1 st1 mem1 = Inr (g', st', mem')"
    by (auto split: sum.splits)
  from Cons.IH [OF 2 Cons.prems(2)] echo_message_steady [OF 1] show ?case by simp
qed simp

lemma host_calls_steady:
  "host_calls h xof cs st mem = Inr (st', mem') \<Longrightarrow> fits n st' \<Longrightarrow>
     fits n st \<and> host_calls h xof cs (relimit n st) mem = Inr (relimit n st', mem')"
proof (induction cs arbitrary: st mem)
  case (Cons c cs)
  then obtain v st1 mem1 where 1: "host_call h xof c st mem = Inr (v, st1, mem1)"
    and 2: "host_calls h xof cs st1 mem1 = Inr (st', mem')"
    by (auto split: sum.splits)
  from Cons.IH [OF 2 Cons.prems(2)] host_call_steady [OF 1] show ?case by simp
qed simp

lemma rook_step_steady:
  assumes "rook_step h xof la g st mem = Inr (g', st', mem')" and "fits n st'"
  shows "rook_step h xof la g (relimit n st) mem = Inr (g', relimit n st', mem')"
proof -
  from assms(1) obtain k st1 mem1 st2 mem2 where
    1: "host_call h xof CallInboxLen st mem = Inr (VI32 k, st1, mem1)"
    and 2: "echo_messages h xof la [0..<nat (sint k)] g st1 mem1 = Inr (g', st2, mem2)"
    and 3: "host_calls h xof [CallTick, CallSetTimer (- 1), CallRand (la_random la) 0,
        CallParam 0 0 0 0, CallLog 0 0 0] st2 mem2 = Inr (st', mem')"
    by (auto simp: rook_step_def simp del: host_call.simps host_calls.simps
        split: sum.splits abi_value.splits)
  note s3 = host_calls_steady [OF 3 assms(2)]
  note s2 = echo_messages_steady [OF 2 s3 [THEN conjunct1]]
  note s1 = host_call_steady [OF 1 s2 [THEN conjunct1]]
  show ?thesis
    unfolding rook_step_def s1 [THEN conjunct2] sum.case prod.case abi_value.case s2 [THEN conjunct2] s3 [THEN conjunct2] ..
qed

interpretation echo_steady: steady_cell h xof "echo_guest h xof la mem" for h xof la mem
  by unfold_locales (auto simp: echo_guest_def intro: rook_step_steady)

section \<open>Heartbeats\<close>

lemma take_at_Inr:
  assumes "n > 0"
  shows "take_at bs c n = Inr (s, c') \<longleftrightarrow> length s = n \<and> c' = c + n \<and> drop c bs = s @ drop c' bs"
proof
  assume "take_at bs c n = Inr (s, c')"
  then have len: "c + n \<le> length bs" and s: "s = take n (drop c bs)" and c': "c' = c + n"
    by (auto simp: take_at_def get_range_def subslice_def split: option.splits if_splits)
  have "drop c bs = take n (drop c bs) @ drop n (drop c bs)" by (rule append_take_drop_id [symmetric])
  then have "drop c bs = s @ drop c' bs" by (simp only: s c' drop_drop add.commute)
  then show "length s = n \<and> c' = c + n \<and> drop c bs = s @ drop c' bs" using len by (simp add: s c')
next
  assume a: "length s = n \<and> c' = c + n \<and> drop c bs = s @ drop c' bs"
  then have "length (drop c bs) = n + length (drop (c + n) bs)" by (metis length_append)
  with assms have "c + n \<le> length bs" by (simp add: length_drop)
  moreover have "take n (drop c bs) = s" using a by simp
  ultimately show "take_at bs c n = Inr (s, c')" using a by (simp add: take_at_def get_range_def subslice_def)
qed

lemma take_u64_Inr: "take_u64 bs c = Inr (x, c') \<longleftrightarrow> c' = c + 8 \<and> drop c bs = to_le x @ drop c' bs"
proof -
  have "take_u64 bs c = Inr (x, c') \<longleftrightarrow> (\<exists>s. take_at bs c 8 = Inr (s, c') \<and> x = from_le s)"
    by (auto simp: take_u64_def split: sum.splits prod.splits)
  also have "\<dots> \<longleftrightarrow> (\<exists>s. length s = 8 \<and> c' = c + 8 \<and> drop c bs = s @ drop c' bs \<and> x = from_le s)"
    by (simp add: take_at_Inr)
  also have "\<dots> \<longleftrightarrow> c' = c + 8 \<and> drop c bs = to_le x @ drop c' bs"
    by (auto simp: to_from_le intro!: exI [of _ "to_le x"])
  finally show ?thesis .
qed

text \<open>A status as it is written: what the reader skips is 25 bytes.\<close>

definition encode_status :: "robot_status \<Rightarrow> bytes \<Rightarrow> bytes" where
  "encode_status s skipped = to_le (sx_participant s) @ to_le (sx_reservation s) @ skipped @ to_le (sx_assignment_end s)"

lemma try_pair_Inr:
  "(case m of Inl e \<Rightarrow> Inl e | Inr (y, z) \<Rightarrow> f y z) = Inr x \<longleftrightarrow> (\<exists>y z. m = Inr (y, z) \<and> f y z = Inr x)"
  by (auto split: sum.splits)

lemma split_skipped:
  assumes "length sk = 25"
  shows "\<exists>a b c d. sk = a @ b @ c @ d \<and> length a = 1 \<and> length b = 8 \<and> length c = 8 \<and> length d = 8"
proof -
  have "take (9 + 8) sk = take 9 sk @ take 8 (drop 9 sk)" "take (1 + 8) sk = take 1 sk @ take 8 (drop 1 sk)"
    by (rule take_add)+
  then have "sk = take 1 sk @ take 8 (drop 1 sk) @ take 8 (drop 9 sk) @ drop 17 sk"
    using append_take_drop_id [of 17 sk] by simp
  then show ?thesis using assms
    by (intro exI [of _ "take 1 sk"] exI [of _ "take 8 (drop 1 sk)"] exI [of _ "take 8 (drop 9 sk)"]
        exI [of _ "drop 17 sk"]) simp
qed

lemma take_status_Inr:
  "take_status bs c = Inr (s, c') \<longleftrightarrow>
     c' = c + 49 \<and> (\<exists>skipped. length skipped = 25 \<and> drop c bs = encode_status s skipped @ drop c' bs)"
proof
  assume "take_status bs c = Inr (s, c')"
  then obtain p r a b1 b2 b3 e where
    "drop c bs = to_le (p :: u64) @ to_le (r :: u64) @ a @ b1 @ b2 @ b3 @ to_le (e :: u64) @ drop (49 + c) bs"
    "length a = Suc 0" "length b1 = 8" "length b2 = 8" "length b3 = 8"
    "c' = 49 + c" "s = \<lparr>sx_participant = p, sx_reservation = r, sx_assignment_end = e\<rparr>"
    unfolding take_status_def try_pair_Inr by (auto simp: take_u64_Inr take_at_Inr)
  then show "c' = c + 49 \<and> (\<exists>skipped. length skipped = 25 \<and> drop c bs = encode_status s skipped @ drop c' bs)"
    by (intro conjI exI [of _ "a @ b1 @ b2 @ b3"]) (simp_all add: encode_status_def)
next
  assume a: "c' = c + 49 \<and> (\<exists>skipped. length skipped = 25 \<and> drop c bs = encode_status s skipped @ drop c' bs)"
  then obtain sk where sk: "length sk = 25" and d: "drop c bs = encode_status s sk @ drop (c + 49) bs" by blast
  from split_skipped [OF sk] obtain x b1 b2 b3 where
    x: "sk = x @ b1 @ b2 @ b3" "length x = 1" "length b1 = 8" "length b2 = 8" "length b3 = 8" by blast
  let ?p = "to_le (sx_participant s)" and ?r = "to_le (sx_reservation s)" and ?e = "to_le (sx_assignment_end s)"
  have d: "drop c bs = ?p @ ?r @ x @ b1 @ b2 @ b3 @ ?e @ drop (c + 49) bs"
    using d by (simp add: encode_status_def x(1))
  have at: "drop (c + k) bs = drop k (drop c bs)" for k by (simp add: add.commute)
  have D: "drop (c + 8) bs = ?r @ x @ b1 @ b2 @ b3 @ ?e @ drop (c + 49) bs"
    "drop (c + 16) bs = x @ b1 @ b2 @ b3 @ ?e @ drop (c + 49) bs"
    "drop (c + 17) bs = b1 @ b2 @ b3 @ ?e @ drop (c + 49) bs"
    "drop (c + 25) bs = b2 @ b3 @ ?e @ drop (c + 49) bs"
    "drop (c + 33) bs = b3 @ ?e @ drop (c + 49) bs"
    "drop (c + 41) bs = ?e @ drop (c + 49) bs"
    unfolding at [of 8] at [of 16] at [of 17] at [of 25] at [of 33] at [of 41] d using x(2-5) by simp_all
  have "take_u64 bs c = Inr (sx_participant s, c + 8)" by (simp only: take_u64_Inr d D simp_thms)
  moreover have "take_u64 bs (c + 8) = Inr (sx_reservation s, c + 16)" unfolding take_u64_Inr D by simp
  moreover have "take_at bs (c + 16) 1 = Inr (x, c + 17)" by (simp add: take_at_Inr x(2) D del: One_nat_def)
  moreover have "take_at bs (c + 17) 8 = Inr (b1, c + 25)" by (simp add: take_at_Inr x(3) D)
  moreover have "take_at bs (c + 25) 8 = Inr (b2, c + 33)" by (simp add: take_at_Inr x(4) D)
  moreover have "take_at bs (c + 33) 8 = Inr (b3, c + 41)" by (simp add: take_at_Inr x(5) D)
  moreover have "take_u64 bs (c + 41) = Inr (sx_assignment_end s, c + 49)" unfolding take_u64_Inr D by simp
  ultimately show "take_status bs c = Inr (s, c')"
    using a unfolding take_status_def by (simp del: One_nat_def)
qed

lemma take_statuses_Inr:
  "take_statuses bs c n = Inr (ss, c') \<longleftrightarrow>
     length ss = n \<and> c' = c + 49 * n \<and>
     (\<exists>sks. length sks = n \<and> list_all (\<lambda>sk. length sk = 25) sks \<and>
        drop c bs = concat (map2 encode_status ss sks) @ drop c' bs)"
proof (induction n arbitrary: c ss)
  case (Suc n)
  show ?case
  proof
    assume "take_statuses bs c (Suc n) = Inr (ss, c')"
    then obtain s ss' where s: "take_status bs c = Inr (s, c + 49)" and rest: "take_statuses bs (c + 49) n = Inr (ss', c')"
      and ss: "ss = s # ss'" by (auto simp: take_status_Inr split: sum.splits prod.splits)
    from s obtain sk where sk: "length sk = 25" "drop c bs = encode_status s sk @ drop (c + 49) bs"
      unfolding take_status_Inr by blast
    from rest obtain sks where sks: "length sks = n" "list_all (\<lambda>sk. length sk = 25) sks"
      "drop (c + 49) bs = concat (map2 encode_status ss' sks) @ drop c' bs" "length ss' = n" "c' = c + 49 + 49 * n"
      unfolding Suc.IH by blast
    from sk sks ss show "length ss = Suc n \<and> c' = c + 49 * Suc n \<and>
        (\<exists>sks. length sks = Suc n \<and> list_all (\<lambda>sk. length sk = 25) sks \<and>
          drop c bs = concat (map2 encode_status ss sks) @ drop c' bs)"
      by (intro conjI exI [of _ "sk # sks"]) simp_all
  next
    assume a: "length ss = Suc n \<and> c' = c + 49 * Suc n \<and>
        (\<exists>sks. length sks = Suc n \<and> list_all (\<lambda>sk. length sk = 25) sks \<and>
          drop c bs = concat (map2 encode_status ss sks) @ drop c' bs)"
    then obtain s ss' sk sks where ss: "ss = s # ss'" "length ss' = n"
      and sks: "length sk = 25" "length sks = n" "list_all (\<lambda>sk. length sk = 25) sks"
      and d: "drop c bs = encode_status s sk @ concat (map2 encode_status ss' sks) @ drop c' bs"
      by (auto simp: length_Suc_conv)
    have c': "c' = c + 49 + 49 * n" using a by simp
    have d49: "drop (c + 49) bs = concat (map2 encode_status ss' sks) @ drop c' bs"
    proof -
      have "length (encode_status s sk) = 49" using sks(1) by (simp add: encode_status_def)
      moreover have "drop (c + 49) bs = drop 49 (drop c bs)" by (simp add: add.commute)
      ultimately have "drop (c + 49) bs = concat (map2 encode_status ss' sks) @ drop c' bs" unfolding d by simp
      then show ?thesis .
    qed
    have s: "take_status bs c = Inr (s, c + 49)"
      unfolding take_status_Inr using sks(1) d d49 by auto
    have "take_statuses bs (c + 49) n = Inr (ss', c')"
      unfolding Suc.IH using ss(2) c' sks(2,3) d49 by blast
    with s show "take_statuses bs c (Suc n) = Inr (ss, c')" by (simp add: ss(1))
  qed
qed auto

lemma length_statuses:
  "length ss = length sks \<Longrightarrow> list_all (\<lambda>sk. length sk = 25) sks \<Longrightarrow>
     length (concat (map2 encode_status ss sks)) = 49 * length ss"
  by (induction ss sks rule: list_induct2) (simp_all add: encode_status_def)

lemma decode_heartbeat_Inr:
  "decode_heartbeat pl = Inr ss \<longleftrightarrow>
     length ss < 2 ^ 32 \<and>
     (\<exists>gridlock sks. length sks = length ss \<and> list_all (\<lambda>sk. length sk = 25) sks \<and>
        pl = gridlock # to_le (word_of_nat (length ss) :: u32) @ concat (map2 encode_status ss sks))"
proof
  assume a: "decode_heartbeat pl = Inr ss"
  from a obtain g c1 where g: "take_at pl 0 1 = Inr (g, c1)" unfolding decode_heartbeat_def try_pair_Inr by blast
  then have c1: "c1 = 1" "length g = 1" "pl = g @ drop 1 pl" by (auto simp: take_at_Inr simp del: One_nat_def)
  from a g obtain x c2 where x: "take_at pl 1 4 = Inr (x, c2)"
    unfolding decode_heartbeat_def try_pair_Inr c1(1) by (auto simp: c1(1))
  then have c2: "c2 = 5" "length x = 4" "drop 1 pl = x @ drop 5 pl" by (auto simp: take_at_Inr)
  let ?n = "unat (from_le x :: u32)"
  from a have ss: "take_statuses pl 5 ?n = Inr (ss, length pl)"
    unfolding decode_heartbeat_def g x c1(1) c2(1) sum.case prod.case Let_def
    by (auto split: if_splits sum.splits prod.splits)
  then obtain sks where sks: "length ss = ?n" "length sks = ?n" "list_all (\<lambda>sk. length sk = 25) sks"
    "drop 5 pl = concat (map2 encode_status ss sks)" unfolding take_statuses_Inr by auto
  have n: "to_le (word_of_nat (length ss) :: u32) = x" using to_from_le(2) [OF c2(2)] by (simp add: sks(1))
  from c1(2) obtain b where b: "g = [b]" by (auto simp: length_Suc_conv)
  have "pl = b # x @ concat (map2 encode_status ss sks)" using c1(3) c2(3) sks(4) b by simp
  moreover have "length ss < 2 ^ 32" unfolding sks(1) using unsigned_less [of "from_le x :: u32", where ?'a = nat] by simp
  ultimately show "length ss < 2 ^ 32 \<and>
     (\<exists>gridlock sks. length sks = length ss \<and> list_all (\<lambda>sk. length sk = 25) sks \<and>
        pl = gridlock # to_le (word_of_nat (length ss) :: u32) @ concat (map2 encode_status ss sks))"
    using sks(1-3) n by auto
next
  assume a: "length ss < 2 ^ 32 \<and>
     (\<exists>gridlock sks. length sks = length ss \<and> list_all (\<lambda>sk. length sk = 25) sks \<and>
        pl = gridlock # to_le (word_of_nat (length ss) :: u32) @ concat (map2 encode_status ss sks))"
  then obtain b sks where small: "length ss < 2 ^ 32" and sks: "length sks = length ss" "list_all (\<lambda>sk. length sk = 25) sks"
    and pl: "pl = [b] @ to_le (word_of_nat (length ss) :: u32) @ concat (map2 encode_status ss sks)" by auto
  let ?x = "to_le (word_of_nat (length ss) :: u32)"
  have n: "unat (word_of_nat (length ss) :: u32) = length ss" using small by (simp add: unat_of_nat take_bit_eq_mod)
  have body: "length (concat (map2 encode_status ss sks)) = 49 * length ss"
    by (rule length_statuses) (simp_all add: sks)
  have "take_at pl 0 1 = Inr ([b], 1)" by (simp add: take_at_Inr pl)
  moreover have "take_at pl 1 4 = Inr (?x, 5)" by (simp add: take_at_Inr pl)
  moreover have "take_statuses pl 5 (length ss) = Inr (ss, length pl)"
    unfolding take_statuses_Inr using sks body by (intro conjI exI [of _ sks]) (simp_all add: pl)
  moreover have "\<not> length pl < 5 + length ss * STATUS_BYTES" by (simp add: pl body STATUS_BYTES_def)
  ultimately show "decode_heartbeat pl = Inr ss"
    unfolding decode_heartbeat_def by (simp add: n Let_def del: One_nat_def)
qed

section \<open>Robots\<close>

text \<open>
  The lives of the scripted robots: one of the seven, polled at any tick or granted any range.
\<close>

inductive robot_life :: "hash_fn \<Rightarrow> robot \<Rightarrow> bool" for h where
  made: "r \<in> set make_robots \<Longrightarrow> robot_life h r"
| polled: "robot_life h r \<Longrightarrow> robot_life h (fst (robot_messages h r t))"
| granted: "robot_life h r \<Longrightarrow> robot_life h (r\<lparr>rb_granted_end := e\<rparr>)"

definition last_index :: "robot \<Rightarrow> nat" where
  "last_index r = length (rb_forward r) - 1"

text \<open>A robot stays on its path, and is ready only at a checkpoint it has reached.\<close>

definition on_path :: "robot \<Rightarrow> bool" where
  "on_path r \<longleftrightarrow>
     2 \<le> length (rb_forward r) \<and> length (rb_forward r) \<le> 5 \<and> unat (rb_last_reached r) \<le> last_index r \<and>
     (\<forall>k. rb_ready_at r = Some k \<longrightarrow> k \<le> rb_last_reached r) \<and>
     unat (rb_reservation r) \<le> unat (rb_cycles r) \<and> unat (rb_cycles r) \<le> 200"

lemma length_robot_path [simp]: "length (robot_path r) = length (rb_forward r)"
  by (simp add: robot_path_def)

lemma on_path_made: "r \<in> set make_robots \<Longrightarrow> on_path r"
  by (auto simp: make_robots_def robot_paths_def make_robot_def on_path_def last_index_def Let_def)

text \<open>A turn of a robot, one rule per branch of \<open>robot_messages\<close>, with the channel and payload it sends.\<close>

inductive robot_turn :: "robot \<Rightarrow> robot \<Rightarrow> (u32 \<times> bytes) option \<Rightarrow> bool" where
  idles: "robot_turn r r None"
| polls_again: "rb_reservation r \<noteq> 0 \<Longrightarrow> robot_turn r (r\<lparr>rb_next_action_tick := n\<rparr>) None"
| jumps: "rb_participant r = 1 \<Longrightarrow> \<not> rb_jumped_the_gun r \<Longrightarrow> rb_reservation r \<noteq> 0 \<Longrightarrow> rb_granted_end r = 0 \<Longrightarrow>
    robot_turn r (r\<lparr>rb_jumped_the_gun := True, rb_seq := rb_seq r + 1, rb_next_action_tick := n\<rparr>)
      (Some (CH_REACHED, ready_like r 2))"
| releases: "rb_participant r = 3 \<Longrightarrow> \<not> rb_released_once r \<Longrightarrow> rb_reservation r \<noteq> 0 \<Longrightarrow>
    robot_turn r (r\<lparr>rb_released_once := True, rb_seq := rb_seq r + 1, rb_ready_at := None, rb_next_action_tick := n\<rparr>)
      (Some (CH_RELEASE, ready_like r (rb_last_reached r)))"
| stale: "rb_participant r = 2 \<Longrightarrow> \<not> rb_sent_stale_ready r \<Longrightarrow>
    robot_turn r (r\<lparr>rb_sent_stale_ready := True, rb_seq := rb_seq r + 1, rb_next_action_tick := n\<rparr>)
      (Some (CH_READY, to_le (rb_participant r) @
         to_le (if rb_reservation r = 0 then 0 else rb_reservation r - 1) @ to_le (0 :: u64)))"
| cancels: "rb_participant r = 4 \<Longrightarrow> \<not> rb_cancelled_once r \<Longrightarrow> rb_reservation r \<noteq> 0 \<Longrightarrow>
    robot_turn r (r\<lparr>rb_cancelled_once := True, rb_seq := rb_seq r + 1, rb_reservation := 0, rb_next_action_tick := n\<rparr>)
      (Some (CH_CANCEL, to_le (rb_participant r) @ [1] @ to_le (0 :: u64)))"
| sets: "rb_reservation r = 0 \<Longrightarrow> rb_cycles r < 200 \<Longrightarrow>
    r1 = r\<lparr>rb_reservation := ucast (rb_cycles r) + 1, rb_cycles := rb_cycles r + 1, rb_last_reached := 0,
      rb_ready_at := None, rb_granted_end := 0\<rparr> \<Longrightarrow>
    robot_turn r (r1\<lparr>rb_seq := rb_seq r + 1, rb_next_action_tick := n\<rparr>) (Some (CH_SET, encode_set r1 (robot_path r)))"
| turns: "rb_reservation r \<noteq> 0 \<Longrightarrow> rb_last_reached r = word_of_nat (length (robot_path r)) - 1 \<Longrightarrow>
    robot_turn r (r\<lparr>rb_reservation := 0, rb_heading_forward := \<not> rb_heading_forward r, rb_next_action_tick := n\<rparr>) None"
| readies: "rb_reservation r \<noteq> 0 \<Longrightarrow> rb_ready_at r \<noteq> Some (rb_last_reached r) \<Longrightarrow>
    robot_turn r (r\<lparr>rb_ready_at := Some (rb_last_reached r), rb_seq := rb_seq r + 1, rb_next_action_tick := n\<rparr>)
      (Some (CH_READY, ready_like r (rb_last_reached r)))"
| reaches: "rb_reservation r \<noteq> 0 \<Longrightarrow> rb_ready_at r = Some (rb_last_reached r) \<Longrightarrow>
    rb_last_reached r \<noteq> word_of_nat (length (robot_path r)) - 1 \<Longrightarrow> rb_last_reached r < rb_granted_end r \<Longrightarrow>
    robot_turn r (r\<lparr>rb_last_reached := rb_last_reached r + 1, rb_seq := rb_seq r + 1, rb_next_action_tick := n\<rparr>)
      (Some (CH_REACHED, ready_like r (rb_last_reached r + 1)))"

definition sent :: "hash_fn \<Rightarrow> u64 \<Rightarrow> robot \<Rightarrow> (u32 \<times> bytes) option \<Rightarrow> delivery list" where
  "sent h t r m =
     (case m of None \<Rightarrow> [] | Some (ch, pl) \<Rightarrow> [rmf_delivery h t (rb_src_actor r) (rb_seq r) ch pl])"

lemma robot_messages_turn: "\<exists>r' m. robot_messages h r t = (r', sent h t r m) \<and> robot_turn r r' m"
proof -
  have ready: "ready_like (r\<lparr>rb_jumped_the_gun := a\<rparr>) k = ready_like r k"
    "ready_like (r\<lparr>rb_released_once := a\<rparr>) k = ready_like r k"
    "ready_like (r\<lparr>rb_ready_at := b\<rparr>) k = ready_like r k"
    "ready_like (r\<lparr>rb_last_reached := c\<rparr>) k = ready_like r k" for a b c k
    by (simp_all add: ready_like_def)
  have here: ?thesis if "robot_turn r r' m" "robot_messages h r t = (r', sent h t r m)" for r' m using that by blast
  note run = robot_messages_def robot_delivery_eq Let_def sent_def ready
  let ?j = "rb_participant r = 1 \<and> t \<ge> 600 \<and> \<not> rb_jumped_the_gun r \<and> rb_reservation r \<noteq> 0 \<and>
      rb_last_reached r = 0 \<and> rb_ready_at r = Some 0 \<and> rb_granted_end r = 0"
  let ?l = "rb_participant r = 3 \<and> t \<ge> 900 \<and> rb_reservation r \<noteq> 0 \<and> \<not> rb_released_once r"
  let ?s = "rb_participant r = 2 \<and> t \<ge> 2200 \<and> \<not> rb_sent_stale_ready r"
  let ?c = "rb_participant r = 4 \<and> t \<ge> 3000 \<and> rb_reservation r \<noteq> 0 \<and> \<not> rb_cancelled_once r"
  consider (w) "t < rb_next_action_tick r" | (j) "\<not> t < rb_next_action_tick r" ?j
    | (l) "\<not> t < rb_next_action_tick r" "\<not> ?j" ?l | (s) "\<not> t < rb_next_action_tick r" "\<not> ?j" "\<not> ?l" ?s
    | (c) "\<not> t < rb_next_action_tick r" "\<not> ?j" "\<not> ?l" "\<not> ?s" ?c
    | (n) "\<not> t < rb_next_action_tick r" "\<not> ?j" "\<not> ?l" "\<not> ?s" "\<not> ?c" by blast
  then show ?thesis
  proof cases
    case w
    then show ?thesis by (intro here [OF idles]) (simp add: run)
  next
    case j
    then show ?thesis by (intro here [OF jumps [where n = "t + 5"]]) (simp_all add: run)
  next
    case l
    then show ?thesis by (intro here [OF releases [where n = "t + 12"]]) (simp_all add: run)
  next
    case s
    then show ?thesis by (intro here [OF stale [where n = "t + 1"]]) (simp_all add: run)
  next
    case c
    then show ?thesis by (intro here [OF cancels [where n = "t + 20"]]) (simp_all add: run)
  next
    case n
    then have m: "robot_messages h r t = (if rb_reservation r = 0
        then if rb_cycles r \<ge> 200 then (r, [])
             else let r1 = r\<lparr>rb_reservation := ucast (rb_cycles r) + 1, rb_cycles := rb_cycles r + 1,
                        rb_last_reached := 0, rb_ready_at := None, rb_granted_end := 0\<rparr>;
                      (d, r2) = robot_delivery h r1 t CH_SET (encode_set r1 (robot_path r))
                  in (r2\<lparr>rb_next_action_tick := t + 3\<rparr>, [d])
        else if rb_last_reached r = word_of_nat (length (robot_path r)) - 1
        then (r\<lparr>rb_reservation := 0, rb_heading_forward := \<not> rb_heading_forward r,
                rb_next_action_tick := t + 15\<rparr>, [])
        else if rb_ready_at r \<noteq> Some (rb_last_reached r)
        then let r1 = r\<lparr>rb_ready_at := Some (rb_last_reached r)\<rparr>;
                 (d, r2) = robot_delivery h r1 t CH_READY (ready_like r1 (rb_last_reached r1))
             in (r2\<lparr>rb_next_action_tick := t + 2\<rparr>, [d])
        else if rb_granted_end r > rb_last_reached r
        then let r1 = r\<lparr>rb_last_reached := rb_last_reached r + 1\<rparr>;
                 (d, r2) = robot_delivery h r1 t CH_REACHED (ready_like r1 (rb_last_reached r1))
             in (r2\<lparr>rb_next_action_tick := t + rb_travel_ticks r2\<rparr>, [d])
        else (r\<lparr>rb_next_action_tick := t + 1\<rparr>, []))"
      unfolding robot_messages_def Let_def by (simp only: if_False)
    show ?thesis
    proof (cases "rb_reservation r = 0")
      case True
      show ?thesis
      proof (cases "rb_cycles r \<ge> 200")
        case False
        with True show ?thesis
          by (intro here [OF sets [where n = "t + 3", OF _ _ refl]]) (simp_all add: m robot_delivery_eq sent_def Let_def)
      qed (use True in \<open>intro here [OF idles], simp add: m sent_def\<close>)
    next
      case held: False
      consider (e) "rb_last_reached r = word_of_nat (length (robot_path r)) - 1"
        | (y) "rb_last_reached r \<noteq> word_of_nat (length (robot_path r)) - 1" "rb_ready_at r \<noteq> Some (rb_last_reached r)"
        | (g) "rb_last_reached r \<noteq> word_of_nat (length (robot_path r)) - 1" "rb_ready_at r = Some (rb_last_reached r)"
            "rb_last_reached r < rb_granted_end r"
        | (p) "rb_last_reached r \<noteq> word_of_nat (length (robot_path r)) - 1" "rb_ready_at r = Some (rb_last_reached r)"
            "\<not> rb_last_reached r < rb_granted_end r" by blast
      then show ?thesis
      proof cases
        case e
        with held show ?thesis by (intro here [OF turns [where n = "t + 15"]]) (simp_all add: m sent_def)
      next
        case y
        with held show ?thesis
          by (intro here [OF readies [where n = "t + 2"]]) (simp_all add: m robot_delivery_eq sent_def ready)
      next
        case g
        with held show ?thesis
          by (intro here [OF reaches [where n = "t + rb_travel_ticks r"]]) (simp_all add: m robot_delivery_eq sent_def ready)
      next
        case p
        with held show ?thesis by (intro here [OF polls_again [where n = "t + 1"]]) (simp_all add: m sent_def)
      qed
    qed
  qed
qed

lemma on_path_turn:
  assumes "robot_turn r r' m" and "on_path r"
  shows "on_path r'"
proof -
  have idx: "unat (word_of_nat (length (robot_path r)) - 1 :: u64) = last_index r"
    using assms(2) by (simp add: on_path_def last_index_def unat_sub_if' unat_of_nat take_bit_eq_mod)
  from assms show ?thesis
  proof cases
    case (sets r1 n)
    have "unat (rb_cycles r) < 200" using sets(4) by (simp add: word_less_nat_alt)
    then have "unat (rb_cycles r + 1) = unat (rb_cycles r) + 1"
      "unat (ucast (rb_cycles r) + 1 :: u64) = unat (rb_cycles r) + 1"
      by (simp_all add: unat_word_ariths unsigned_ucast_eq take_bit_eq_mod)
    with sets assms(2) \<open>unat (rb_cycles r) < 200\<close> show ?thesis by (simp add: on_path_def last_index_def)
  next
    case (reaches n)
    have "unat (rb_last_reached r) \<noteq> last_index r" using reaches(5) idx by (metis word_unat_eq_iff)
    with assms(2) have less: "unat (rb_last_reached r) < last_index r" "last_index r < 5"
      unfolding on_path_def last_index_def by linarith+
    then have one: "unat (rb_last_reached r + 1) = unat (rb_last_reached r) + 1" by (simp add: unat_word_ariths)
    then have "rb_last_reached r \<le> rb_last_reached r + 1" by (simp add: word_le_nat_alt)
    with reaches assms(2) less one show ?thesis by (simp add: on_path_def last_index_def)
  qed (use assms(2) in \<open>auto simp: on_path_def last_index_def\<close>)
qed

lemma robot_life_on_path: "robot_life h r \<Longrightarrow> on_path r"
proof (induction rule: robot_life.induct)
  case (polled r t)
  obtain r' m where "robot_messages h r t = (r', sent h t r m)" "robot_turn r r' m"
    using robot_messages_turn by blast
  with on_path_turn [OF this(2) polled.IH] show ?case by simp
next
  case (granted r e)
  then show ?case by (simp add: on_path_def last_index_def)
qed (rule on_path_made)

text \<open>Channels of the robots.\<close>

lemmas channel_defs = CH_SET_def CH_READY_def CH_REACHED_def CH_RELEASE_def CH_CANCEL_def CH_HEARTBEAT_TIMER_def

lemma turn_reaches:
  assumes "robot_turn r r' (Some (CH_REACHED, pl))" and "rb_jumped_the_gun r' = rb_jumped_the_gun r" and "on_path r"
  shows "unat (rb_last_reached r') = unat (rb_last_reached r) + 1 \<and> rb_last_reached r' \<le> rb_granted_end r \<and>
    rb_ready_at r = Some (rb_last_reached r) \<and> pl = ready_like r' (rb_last_reached r')"
  using assms(1)
proof cases
  case (jumps n)
  with assms(2) show ?thesis by simp
next
  case (reaches n)
  have "unat (rb_last_reached r) \<le> 4" using assms(3) by (auto simp: on_path_def last_index_def)
  then have "unat (rb_last_reached r + 1) = unat (rb_last_reached r) + 1" by (simp add: unat_word_ariths)
  moreover have "rb_last_reached r + 1 \<le> rb_granted_end r" using reaches(6) by (rule inc_le)
  ultimately show ?thesis using reaches by (simp add: ready_like_def)
qed (simp_all add: channel_defs)

lemma turn_sets:
  assumes "robot_turn r r' (Some (CH_SET, pl))" and "on_path r"
  shows "rb_reservation r = 0 \<and> unat (rb_reservation r') = unat (rb_cycles r) + 1 \<and> rb_last_reached r' = 0 \<and>
    pl = encode_set r' (robot_path r')"
  using assms(1)
proof cases
  case (sets r1 n)
  have "unat (rb_cycles r) < 200" using sets(4) by (simp add: word_less_nat_alt)
  then have "unat (ucast (rb_cycles r) + 1 :: u64) = unat (rb_cycles r) + 1"
    by (simp add: unat_word_ariths unsigned_ucast_eq take_bit_eq_mod)
  with sets show ?thesis by (simp add: encode_set_def robot_path_def)
qed (simp_all add: channel_defs)


section \<open>Properties\<close>

text \<open>
  C23. A recording of the seven robots is reproduced by its replay: for a cell that keeps to the host
  interface, is steady and emits at most once per delivery, the recorded deliveries in any arrival order
  replay to the recorded run itself, emits, log and counts included; the run is hashed, and under the
  configured angle the check of \<open>run\<close> accepts it.
\<close>

theorem recording_is_its_replay:
  assumes "steady_cell h xof cell" and "record_run h cell angle = Inr r"
    and "length (cr_emits r) \<le> length (cr_deliveries r)" and "mset ds = mset (cr_deliveries r)"
  shows "replay_deliveries cell angle ds = Inr r \<and> (\<exists>x. run_hashes h kh r = Inr x) \<and>
    (angle \<noteq> MIN_CONFLICT_ANGLE \<or> check_replay h kh cell label r ds = Inr ())"
proof -
  have replay: "replay_deliveries cell angle ds = Inr r" by (rule steady_cell.recording_replays [OF assms])
  obtain x where x: "run_hashes h kh r = Inr x"
    using steady_cell.recording_hashes [OF assms(1-3)] by blast
  with replay require_same_run_refl [OF x] show ?thesis by (auto simp: check_replay_def)
qed

lemma idle_steady: "steady_cell demo_hash (\<lambda>_ _ _. 0) idle_guest"
  by unfold_locales (auto simp: idle_guest_def intro: idle)

text \<open>Polled robots and a sleeping cell always make a recording.\<close>

lemma idle_record_ticks:
  "hs_emitted_payloads (cl_state (scn_cell s)) = [] \<Longrightarrow>
     \<exists>s'. record_ticks h idle_guest ts s = Inr s' \<and> hs_emitted_payloads (cl_state (scn_cell s')) = []"
proof (induction ts arbitrary: s)
  case (Cons t ts)
  obtain sq robots inbox where p: "poll h (word_of_nat t) (scn_timer_seq s, scn_robots s) = ((sq, robots), inbox)"
    by (metis surj_pair)
  have "\<exists>s1. record_tick h idle_guest (word_of_nat t) s = Inr s1 \<and> hs_emitted_payloads (cl_state (scn_cell s1)) = []"
    using Cons.prems by (auto simp: record_tick_def p cell_step_def idle_guest_def Let_def)
  with Cons.IH show ?case by fastforce
qed simp

lemma idle_records: "\<exists>r. record_run demo_hash idle_guest MIN_CONFLICT_ANGLE = Inr r \<and> cr_emits r = []"
proof -
  let ?st = "cell_host MIN_CONFLICT_ANGLE (SCENARIO_TICKS * 8)"
  let ?s = "\<lparr>scn_robots = make_robots, scn_timer_seq = 0, scn_deliveries = [],
    scn_cell = \<lparr>cl_guest = (), cl_state = ?st, cl_memory = None\<rparr>\<rparr>"
  have "instantiate_cell idle_guest ?st = Inr \<lparr>cl_guest = (), cl_state = ?st, cl_memory = None\<rparr>"
    by (simp add: instantiate_cell_def idle_guest_def)
  moreover have "hs_emitted_payloads (cl_state (scn_cell ?s)) = []" by (simp add: cell_host_def default_host_state_def)
  from idle_record_ticks [OF this, of demo_hash "[0..<SCENARIO_TICKS]"] obtain s where
    "record_ticks demo_hash idle_guest [0..<SCENARIO_TICKS] ?s = Inr s" "hs_emitted_payloads (cl_state (scn_cell s)) = []"
    by blast
  ultimately show ?thesis by (simp add: record_run_def cell_finish_def Let_def)
qed

theorem recording_is_its_replay_witness:
  "\<exists>r. record_run demo_hash idle_guest MIN_CONFLICT_ANGLE = Inr r \<and>
     replay_deliveries idle_guest MIN_CONFLICT_ANGLE (rev (cr_deliveries r)) = Inr r \<and>
     check_replay demo_hash (\<lambda>_ _. 0) idle_guest ''reversed'' r (rev (cr_deliveries r)) = Inr ()"
proof -
  obtain r where r: "record_run demo_hash idle_guest MIN_CONFLICT_ANGLE = Inr r" "cr_emits r = []"
    using idle_records by blast
  have "length (cr_emits r) \<le> length (cr_deliveries r)" "mset (rev (cr_deliveries r)) = mset (cr_deliveries r)"
    by (simp_all add: r(2))
  from recording_is_its_replay [OF idle_steady r(1) this, of "\<lambda>_ _. 0"] r(1) show ?thesis by blast
qed

text \<open>
  C24. A robot keeps to its path and to its grants: in any life of one of the seven, whatever it is granted,
  it stays within its path; except for the one jump of the script it reports only the checkpoint after the
  last one, from which it was ready and within the granted range; and a new route is set only without a
  reservation, from its first checkpoint, under the number of the next cycle.
\<close>

theorem robots_keep_to_grants:
  assumes "robot_life h r" and "robot_messages h r t = (r', ms)" and "d \<in> set ms"
  shows "unat (rb_last_reached r') < length (robot_path r') \<and>
    (e_channel_id (dv_envelope d) = CH_REACHED \<and> rb_jumped_the_gun r' = rb_jumped_the_gun r \<longrightarrow>
       unat (rb_last_reached r') = unat (rb_last_reached r) + 1 \<and> rb_last_reached r' \<le> rb_granted_end r \<and>
       rb_ready_at r = Some (rb_last_reached r) \<and> dv_payload d = ready_like r' (rb_last_reached r')) \<and>
    (e_channel_id (dv_envelope d) = CH_SET \<longrightarrow>
       rb_reservation r = 0 \<and> unat (rb_reservation r') = unat (rb_cycles r) + 1 \<and> rb_last_reached r' = 0 \<and>
       dv_payload d = encode_set r' (robot_path r'))"
proof -
  note r = robot_life_on_path [OF assms(1)]
  from robot_messages_turn [of h r t] assms(2) obtain m where m: "ms = sent h t r m" "robot_turn r r' m" by auto
  from m(1) assms(3) obtain ch pl where ch: "m = Some (ch, pl)" "e_channel_id (dv_envelope d) = ch" "dv_payload d = pl"
    by (auto simp: sent_def split: option.splits)
  have "unat (rb_last_reached r') < length (robot_path r')"
    using on_path_turn [OF m(2) r] by (auto simp: on_path_def last_index_def)
  moreover have "unat (rb_last_reached r') = unat (rb_last_reached r) + 1 \<and> rb_last_reached r' \<le> rb_granted_end r \<and>
      rb_ready_at r = Some (rb_last_reached r) \<and> dv_payload d = ready_like r' (rb_last_reached r')"
    if "ch = CH_REACHED" "rb_jumped_the_gun r' = rb_jumped_the_gun r"
    using turn_reaches [OF m(2) [unfolded ch(1) that(1)] that(2) r] by (simp add: ch(3))
  moreover have "rb_reservation r = 0 \<and> unat (rb_reservation r') = unat (rb_cycles r) + 1 \<and> rb_last_reached r' = 0 \<and>
      dv_payload d = encode_set r' (robot_path r')" if "ch = CH_SET"
    using turn_sets [OF m(2) [unfolded ch(1) that] r] by (simp add: ch(3))
  ultimately show ?thesis unfolding ch(2) by blast
qed

definition last_robot :: robot where
  "last_robot = last make_robots"

theorem robots_keep_to_grants_witness:
  "\<exists>r' d. robot_messages demo_hash last_robot 9 = (r', [d]) \<and> e_channel_id (dv_envelope d) = CH_SET \<and>
     unat (rb_reservation r') = 1 \<and> dv_payload d = encode_set r' (robot_path r')"
proof -
  have some: "make_robots \<noteq> []" by (simp add: make_robots_def robot_paths_def Let_def)
  have life: "robot_life demo_hash last_robot"
    unfolding last_robot_def by (rule made [OF last_in_set [OF some]])
  have "robot_messages demo_hash last_robot 9 =
      (fst (robot_messages demo_hash last_robot 9), snd (robot_messages demo_hash last_robot 9))" by simp
  moreover have "\<exists>d. snd (robot_messages demo_hash last_robot 9) = [d] \<and> e_channel_id (dv_envelope d) = CH_SET"
    by (simp add: last_robot_def make_robots_def make_robot_def robot_messages_def robot_delivery_eq robot_paths_def Let_def)
  then obtain d where d: "snd (robot_messages demo_hash last_robot 9) = [d]" "e_channel_id (dv_envelope d) = CH_SET" by blast
  ultimately have run: "robot_messages demo_hash last_robot 9 = (fst (robot_messages demo_hash last_robot 9), [d])" by simp
  have "unat (rb_cycles last_robot) = 0"
    by (simp add: last_robot_def make_robots_def robot_paths_def make_robot_def Let_def)
  with robots_keep_to_grants [OF life run, of d] d(2) run show ?thesis by auto
qed

text \<open>
  The heartbeat reader accepts exactly the payloads that hold what their count announces: a gridlock
  byte, the count and 49 bytes per status, of which it returns the participant, the reservation and the end
  of the granted range.  A count larger than the payload is refused before anything is collected.
\<close>

theorem heartbeats_exact:
  "decode_heartbeat pl = Inr ss \<longleftrightarrow>
     length ss < 2 ^ 32 \<and>
     (\<exists>gridlock sks. length sks = length ss \<and> list_all (\<lambda>sk. length sk = 25) sks \<and>
        pl = gridlock # to_le (word_of_nat (length ss) :: u32) @ concat (map2 encode_status ss sks))"
  by (rule decode_heartbeat_Inr)

text \<open>
  C25. What the experiment decides: for such a cell neither replay of the recording can fail, so \<open>run\<close>
  succeeds exactly when the replay under the other angle runs, is hashed and differs in both hashes, and the
  goldens, if given, agree; it dumps the recording and prints the recorded and the other hashes.
\<close>

theorem experiment_verdict:
  assumes "steady_cell h xof cell" and "record_run h cell MIN_CONFLICT_ANGLE = Inr r"
    and "length (cr_emits r) \<le> length (cr_deliveries r)"
  shows "rmf_run h kh cell goldens = Inr (dump, results) \<longleftrightarrow>
    (\<exists>recorded other_run other. run_hashes h kh r = Inr recorded \<and>
       replay_deliveries cell OTHER_ANGLE (cr_deliveries r) = Inr other_run \<and> run_hashes h kh other_run = Inr other \<and>
       output_digest other \<noteq> output_digest recorded \<and> run_hash other \<noteq> run_hash recorded \<and>
       (goldens = None \<or> verify_goldens (the goldens) (rmf_results recorded other) = Inr ()) \<and>
       dump = dump_recording r \<and> results = rmf_results recorded other)"
proof -
  obtain x where x: "run_hashes h kh r = Inr x"
    using steady_cell.recording_hashes [OF assms] by blast
  have check: "check_replay h kh cell label r ds = Inr ()" if "mset ds = mset (cr_deliveries r)" for label ds
    using steady_cell.recording_replays [OF assms that] require_same_run_refl [OF x] by (simp add: check_replay_def)
  have checks: "check_replay h kh cell label r (cr_deliveries r) = Inr ()"
    "check_replay h kh cell label r (rev (cr_deliveries r)) = Inr ()" for label by (simp_all add: check)
  have end_eq: "(case (case goldens of None \<Rightarrow> Inr () | Some t \<Rightarrow> verify_goldens t res) of
      Inl e \<Rightarrow> Inl (GoldensFailed e) | Inr _ \<Rightarrow> Inr (d, res)) = Inr (dump, results) \<longleftrightarrow>
      (goldens = None \<or> verify_goldens (the goldens) res = Inr ()) \<and> dump = d \<and> results = res" for d res
    by (auto split: option.splits sum.splits)
  show ?thesis
    unfolding rmf_run_def assms(2) x checks sum.case
    by (cases "replay_deliveries cell OTHER_ANGLE (cr_deliveries r)"; simp)
       (auto simp: end_eq split: sum.splits)
qed

theorem experiment_verdict_witness:
  "\<nexists>dump results. rmf_run demo_hash (\<lambda>_ _. 0) idle_guest None = Inr (dump, results)"
proof -
  obtain r where r: "record_run demo_hash idle_guest MIN_CONFLICT_ANGLE = Inr r" "cr_emits r = []"
    using idle_records by blast
  have same: "output_digest x = 0 \<and> run_hash x = 0" if "run_hashes demo_hash (\<lambda>_ _. 0) q = Inr x" for q x
  proof -
    have zero: "chain_hash (\<lambda>_ _. 0) k 0 es = 0" for k and es :: "envelope list"
      by (induction es rule: rev_induct) (simp_all add: chain_hash_def extend_chain_def)
    show ?thesis
      using hash_observed_InrD(1,2) [OF that [unfolded run_hashes_def]] by (simp add: zero)
  qed
  have few: "length (cr_emits r) \<le> length (cr_deliveries r)" by (simp add: r(2))
  from experiment_verdict [OF idle_steady r(1) few, of "\<lambda>_ _. 0" None] same show ?thesis by metis
qed

end
