(* ===== verification/Capsule.thy ===== *)
theory Capsule
  imports Case_File
begin

text \<open>
  The capsule writer of crates/rook-adapter-ref/src/fixture.rs (\<open>capsule_files\<close>) and the proof that the
  case loader reads back what it wrote: the texts are printed and parsed, the manifest covers the files
  with their SHA-256, every recorded event is declared.  \<open>source_identity\<close> (the content identities of the
  compiled-in sources) is the parameter \<open>src\<close>.
\<close>

subsection \<open>The files of a capsule\<close>

definition line_text :: "string list \<Rightarrow> string" where
  "line_text ls = concat (map (\<lambda>l. l @ [newline]) ls)"

definition key_value :: "string \<times> string \<Rightarrow> string" where
  "key_value kv = fst kv @ '' = '' @ snd kv"

definition expected_comments :: "scenario \<Rightarrow> string list" where
  "expected_comments sc =
     [''# Expected values for the '' @ sn_name sc @ '' reference scenario. Recorded from the old'',
      ''# component through the scripted environment in crates/rook-adapter-ref.'']"

definition expected_entries :: "hash_fn \<Rightarrow> bytes \<Rightarrow> bytes \<Rightarrow> native_hashes \<Rightarrow> scenario \<Rightarrow> (string \<times> string) list" where
  "expected_entries h events captured hashes sc =
     [(''raw_record_blake3'', encode_hex (to_le (raw_record_hash h events))),
      (''effects_captured_blake3'', encode_hex (to_le (raw_record_hash h captured))),
      (''trace_hash'', encode_hex (to_le (n_trace_hash hashes))),
      (''run_hash'', encode_hex (to_le (n_run_hash hashes))),
      (''output_digest'', encode_hex (to_le (n_output_digest hashes))),
      (''grade'', sn_grade sc),
      (''claim'', ''measured'')]"

text \<open>\<open>endpoint_and_channel_lines\<close>, as entries.\<close>

definition endpoint_entries :: "(string \<times> string) list" where
  "endpoint_entries = map (\<lambda>e. (''endpoint.'' @ show_word (ep_actor e), ep_name e)) endpoints"

definition channel_entries :: "(string \<times> string) list" where
  "channel_entries =
     map (\<lambda>c. (''channel.'' @ show_word (ch_id c),
         ch_name c @ '' '' @ ch_direction c @ '' '' @ join_on CHR '','' (ch_event_types c))) channels"

definition identity_comments :: "string list" where
  "identity_comments =
     [''# Identity manifest of the reference case. Content identities are BLAKE3'',
      ''# over the source embedded in the reference binaries; the runner pins the'',
      ''# binaries it runs.'']"

definition identity_entries :: "hash_fn \<Rightarrow> (string \<Rightarrow> string) \<Rightarrow> scenario \<Rightarrow> (string \<times> string) list" where
  "identity_entries h src sc =
     [(''component'', ''goal-client''),
      (''component_variant'', ''old''),
      (''component_source_blake3'', src ''component_source_blake3''),
      (''adapter'', ADAPTER_NAME),
      (''adapter_protocol'', show_word PROTOCOL_VERSION),
      (''adapter_source_blake3'', src ''adapter_source_blake3''),
      (''property'', sn_property sc),
      (''property_program'', ''rook-property-ref''),
      (''property_input_schema'', ''rook-property-input@1''),
      (''property_source_blake3'', src ''property_source_blake3''),
      (''normalization'', ''none@1''),
      (''normalization_program'', ''rook-adapter-ref driver''),
      (''normalization_source_blake3'', src ''normalization_source_blake3''),
      (''starting_state'', ''fresh''),
      (''starting_state_blake3'', encode_hex (to_le (h []))),
      (''effect_record_order'', ''after-transport'')] @
     endpoint_entries @ channel_entries @
     [(''toolchain'', ''rust 1.95 (workspace rust-version)''),
      (''executable'',
       ''built from public source; no ROS, no plugins, no shared libraries beyond the Rust toolchain'')]"

definition case_comments :: "string list" where
  "case_comments = [''# The case: what was recorded, what the property asks, where it ends.'']"

definition case_entries :: "scenario \<Rightarrow> (string \<times> string) list" where
  "case_entries sc =
     [(''corpus'', REFERENCE_CORPUS),
      (''scenario'', sn_name sc),
      (''property'', sn_property sc),
      (''scope.completion'', sn_completion sc),
      (''scope.observation_end'', ''end_of_recording''),
      (''comparison_policy'', ''raw-bytes-in-order@1''),
      (''goal_response_deadline_ns'', show_word GOAL_RESPONSE_DEADLINE_NS),
      (''grade_reason'', sn_grade_reason sc),
      (''origin'', ''scripted reference environment, not a field recording'')]"

definition file_text :: "string list \<Rightarrow> (string \<times> string) list \<Rightarrow> bytes" where
  "file_text comments kvs = ascii (line_text (comments @ map key_value kvs))"

definition manifest_text :: "(bytes \<Rightarrow> bytes) \<Rightarrow> (string, bytes) btree \<Rightarrow> string" where
  "manifest_text sha files =
     line_text ((MANIFEST_PREFIX @ ''native-adapter'') #
       map (\<lambda>(name, bs). encode_hex (sha bs) @ ''  '' @ name) files)"

definition capsule_files ::
  "hash_fn \<Rightarrow> keyed_fn \<Rightarrow> (bytes \<Rightarrow> bytes) \<Rightarrow> (string \<Rightarrow> string) \<Rightarrow> scenario \<Rightarrow>
     record_error + (string, bytes) btree" where
  "capsule_files h kh sha src sc =
     (case record_scenario h VOld sc of
        Inl e \<Rightarrow> Inl e
      | Inr rg \<Rightarrow>
          let events = encode_stream h (rg_frames rg);
              captured = encode_captured (rg_captured rg);
              hashes = hash_frames h kh (ascii REFERENCE_CORPUS) (rg_frames rg);
              files = bt_insert ''case'' (file_text case_comments (case_entries sc))
                (bt_insert ''identity'' (file_text identity_comments (identity_entries h src sc))
                  (bt_insert ''expected''
                    (file_text (expected_comments sc) (expected_entries h events captured hashes sc))
                    (bt_insert ''effects_captured.bin'' captured (bt_insert ''events.bin'' events []))))
          in Inr (bt_insert ''MANIFEST.sha256'' (ascii (manifest_text sha files)) files))"

text \<open>\<open>write_capsule\<close>: every file written into the directory.\<close>

definition capsule_dir :: "(string, bytes) btree \<Rightarrow> case_dir" where
  "capsule_dir files name = map_option (\<lambda>bs. (True, bs)) (map_of files name)"

subsection \<open>Printing and parsing texts\<close>

definition plain_text :: "string \<Rightarrow> bool" where
  "plain_text s \<longleftrightarrow> s \<noteq> [] \<and> \<not> is_space (hd s) \<and> \<not> is_space (last s) \<and> newline \<notin> set s \<and>
     (\<forall>c\<in>set s. of_char c < (128 :: nat))"

lemma text_of_ascii_text: "(\<forall>c\<in>set s. of_char c < (128 :: nat)) \<Longrightarrow> text_of (ascii s) = Some s"
proof -
  have byte: "(of_char c :: byte) < 128 \<and> char_of (unat (of_char c :: byte)) = c" if "of_char c < (128 :: nat)" for c
  proof -
    have b: "(of_char c :: byte) = of_nat (of_char c :: nat)" by (rule of_nat_of_char [symmetric])
    have "unat (of_char c :: byte) = (of_char c :: nat)"
      unfolding b using that by (simp add: unat_of_nat take_bit_eq_mod)
    then show ?thesis using that by (simp add: word_less_nat_alt)
  qed
  show "\<forall>c\<in>set s. of_char c < (128 :: nat) \<Longrightarrow> text_of (ascii s) = Some s"
    using byte by (auto simp: text_of_def ascii_def list_all_iff intro!: map_idI)
qed

lemma split_lines:
  "\<forall>l\<in>set ls. newline \<notin> set l \<Longrightarrow> split_on newline (line_text ls) = ls @ [[]]"
  by (induction ls) (simp_all add: line_text_def split_on_append)

lemma text_lines_line_text:
  assumes "\<forall>l\<in>set ls. newline \<notin> set l \<and> (l \<noteq> [] \<longrightarrow> last l \<noteq> char_of (13 :: nat))"
  shows "text_lines (line_text ls) = ls"
proof -
  have "split_on newline (line_text ls) = ls @ [[]]" by (rule split_lines) (use assms in blast)
  moreover have "map strip_cr ls = ls" using assms by (intro map_idI) (auto simp: strip_cr_def)
  ultimately show ?thesis by (simp add: text_lines_def)
qed

lemma trim_id: "s \<noteq> [] \<Longrightarrow> \<not> is_space (hd s) \<Longrightarrow> \<not> is_space (last s) \<Longrightarrow> trim_text s = s"
proof -
  assume s: "s \<noteq> []" "\<not> is_space (hd s)" "\<not> is_space (last s)"
  then have "dropWhile is_space s = s" by (cases s) simp_all
  moreover have "dropWhile is_space (rev s) = rev s" using s by (cases s rule: rev_cases) simp_all
  ultimately show ?thesis by (simp add: trim_text_def)
qed

lemma trim_front: "is_space c \<Longrightarrow> trim_text (c # s) = trim_text s"
  by (simp add: trim_text_def)

lemma trim_back:
  assumes "s \<noteq> []" and "\<not> is_space (hd s)" and "\<not> is_space (last s)" and "is_space c"
  shows "trim_text (s @ [c]) = s"
proof -
  have "dropWhile is_space (s @ [c]) = s @ [c]" using assms by (cases s) simp_all
  moreover have "dropWhile is_space (rev (s @ [c])) = rev s"
    using assms by (cases s rule: rev_cases) simp_all
  ultimately show ?thesis by (simp add: trim_text_def)
qed

text \<open>An entry that is read back: the key has no equals sign.\<close>

definition plain_entry :: "string \<times> string \<Rightarrow> bool" where
  "plain_entry kv \<longleftrightarrow> plain_text (fst kv) \<and> plain_text (snd kv) \<and> CHR ''='' \<notin> set (fst kv) \<and> hd (fst kv) \<noteq> CHR ''#''"

lemma space_is_space [simp]: "is_space CHR '' ''"
  by (simp add: is_space_def)

lemma values_line_entry:
  assumes "plain_entry kv" and "map_of m (fst kv) = None"
  shows "values_lines (key_value kv # ls) m = values_lines ls (bt_insert (fst kv) (snd kv) m)"
proof -
  have "split_once CHR ''='' ((fst kv @ '' '') @ CHR ''='' # ('' '' @ snd kv)) = Some (fst kv @ '' '', '' '' @ snd kv)"
    by (rule split_once_append) (use assms in \<open>simp add: plain_entry_def\<close>)
  moreover have "trim_text (fst kv @ '' '') = fst kv"
    using assms by (intro trim_back) (simp_all add: plain_entry_def plain_text_def)
  moreover have "trim_text ('' '' @ snd kv) = snd kv"
    using assms by (simp add: trim_front trim_id plain_entry_def plain_text_def)
  ultimately show ?thesis
    using assms by (simp add: key_value_def plain_entry_def plain_text_def)
qed

lemma values_lines_entries:
  assumes "\<forall>kv\<in>set kvs. plain_entry kv" and "distinct (map fst kvs)" and "bt_ok m"
    and "\<forall>kv\<in>set kvs. map_of m (fst kv) = None"
  shows "\<exists>m'. values_lines (map key_value kvs) m = Inr m' \<and> bt_ok m' \<and> map_of m' = map_of m ++ map_of kvs"
  using assms
proof (induction kvs arbitrary: m)
  case (Cons kv kvs)
  let ?m = "bt_insert (fst kv) (snd kv) m"
  have "\<forall>kv'\<in>set kvs. map_of ?m (fst kv') = None"
    using Cons.prems by (auto simp: image_iff)
  with Cons.IH [of ?m] Cons.prems obtain m' where
    m': "values_lines (map key_value kvs) ?m = Inr m'" "bt_ok m'" "map_of m' = map_of ?m ++ map_of kvs" by (auto simp del: bt_insert_get)
  have "values_lines (map key_value (kv # kvs)) m = values_lines (map key_value kvs) ?m"
    unfolding list.map(2) by (rule values_line_entry) (use Cons.prems in auto)
  moreover have "map_of ?m ++ map_of kvs = map_of m ++ map_of (kv # kvs)"
  proof -
    have "fst kv \<notin> dom (map_of kvs)" using Cons.prems(2) by (simp add: dom_map_of_conv_image_fst)
    then show ?thesis using Cons.prems(3) by (cases kv) (simp add: map_add_upd_left)
  qed
  ultimately show ?case using m' by (intro exI [of _ m']) (simp only: simp_thms)
qed simp

lemma plain_key_value: "plain_entry kv \<Longrightarrow> plain_text (key_value kv) \<and> hd (key_value kv) \<noteq> CHR ''#''"
  by (auto simp: plain_entry_def plain_text_def key_value_def newline_def char_of_def bit_Suc_0_iff)

lemma plain_not_cr: "plain_text l \<Longrightarrow> newline \<notin> set l \<and> (l \<noteq> [] \<longrightarrow> last l \<noteq> char_of (13 :: nat))"
  by (auto simp: plain_text_def is_space_def)

lemma line_text_ascii:
  "\<forall>l\<in>set ls. plain_text l \<Longrightarrow> \<forall>c\<in>set (line_text ls). of_char c < (128 :: nat)"
  by (auto simp: line_text_def plain_text_def newline_def)

definition plain_comments :: "string list \<Rightarrow> bool" where
  "plain_comments ls \<longleftrightarrow> (\<forall>l\<in>set ls. plain_text l \<and> hd l = CHR ''#'')"

lemma values_of_entries:
  assumes "plain_comments cs" and "\<forall>kv\<in>set kvs. plain_entry kv" and "distinct (map fst kvs)"
  shows "\<exists>m. values_of (line_text (cs @ map key_value kvs)) = Inr m \<and> bt_ok m \<and> map_of m = map_of kvs"
proof -
  let ?ls = "cs @ map key_value kvs"
  have plain: "\<forall>l\<in>set ?ls. plain_text l"
    using assms(1,2) plain_key_value by (auto simp: plain_comments_def)
  have "text_lines (line_text ?ls) = ?ls"
    using plain by (intro text_lines_line_text) (blast dest: plain_not_cr)
  moreover have "map trim_text ?ls = ?ls"
    using plain by (intro map_idI trim_id) (auto simp: plain_text_def)
  moreover have "filter (\<lambda>l. l \<noteq> [] \<and> hd l \<noteq> CHR ''#'') ?ls = map key_value kvs"
    using assms(1,2) plain_key_value
    by (auto simp: plain_comments_def plain_text_def filter_empty_conv filter_id_conv)
  ultimately have "values_of (line_text ?ls) = values_lines (map key_value kvs) []"
    unfolding values_of_def by (simp only:)
  with values_lines_entries [OF assms(2,3), of "[]"] show ?thesis by auto
qed

text \<open>What is read from a file that was written as comments and entries.\<close>

lemma read_values_file:
  assumes "dir name = Some (True, file_text cs kvs)" and "plain_comments cs" and "\<forall>kv\<in>set kvs. plain_entry kv"
    and "distinct (map fst kvs)"
  shows "\<exists>m. read_values dir name = Inr m \<and> bt_ok m \<and> map_of m = map_of kvs"
proof -
  have "\<forall>l\<in>set (cs @ map key_value kvs). plain_text l"
    using assms(2,3) plain_key_value by (auto simp: plain_comments_def)
  from text_of_ascii_text [OF line_text_ascii [OF this]] values_of_entries [OF assms(2-4)] show ?thesis
    by (simp add: read_values_def read_text_def read_file_def assms(1) file_text_def)
qed

subsection \<open>The manifest\<close>

lemma split_once_gap:
  assumes "CHR '' '' \<notin> set a"
  shows "split_once_text ''  '' (a @ ''  '' @ b) = Some (a, b)"
  using assms
proof (induction a)
  case Nil
  show ?case by simp
next
  case (Cons c a)
  then show ?case by (simp split: option.splits)
qed

lemma hex_chars: "c \<in> set (encode_hex bs) \<Longrightarrow> hex_value c \<noteq> None"
proof (induction bs)
  case (Cons b bs)
  have "unat b div 16 < 16" using unsigned_less [of b, where ?'a = nat] by simp
  with Cons show ?case by auto
qed simp

lemma length_encode_hex: "length (encode_hex bs) = 2 * length bs"
  by (induction bs) auto

lemma hex_not_space: "hex_value c \<noteq> None \<Longrightarrow> \<not> is_space c \<and> c \<noteq> CHR ''#'' \<and> c \<noteq> newline \<and> of_char c < (128 :: nat)"
  by (auto simp: hex_value_def is_space_def newline_def Let_def split: if_splits)

definition manifest_entry :: "(bytes \<Rightarrow> bytes) \<Rightarrow> string \<times> bytes \<Rightarrow> string" where
  "manifest_entry sha f = encode_hex (sha (snd f)) @ ''  '' @ fst f"

lemma manifest_entry_plain:
  assumes "length (sha (snd f)) = 32" and "plain_text (fst f)"
  shows "plain_text (manifest_entry sha f) \<and> hd (manifest_entry sha f) \<noteq> CHR ''#''"
proof -
  have "length (encode_hex (sha (snd f))) = 64" by (simp add: length_encode_hex assms(1))
  then obtain c cs where hex: "encode_hex (sha (snd f)) = c # cs" by (cases "encode_hex (sha (snd f))") simp_all
  have "\<not> is_space x \<and> x \<noteq> CHR ''#'' \<and> x \<noteq> newline \<and> of_char x < (128 :: nat)" if "x \<in> set (c # cs)" for x
    using hex_not_space [OF hex_chars [of x "sha (snd f)"]] that by (simp add: hex)
  then show ?thesis
    using assms(2) by (auto simp: manifest_entry_def hex plain_text_def newline_def char_of_def bit_Suc_0_iff)
qed

lemma manifest_line_entry:
  assumes "length (sha (snd f)) = 32" and "normal_path (fst f)" "fst f \<noteq> []" "fst f \<notin> covered"
    and "dir (fst f) = Some (True, snd f)"
  shows "manifest_line sha dir covered (manifest_entry sha f) = Inr (fst f)"
proof -
  have hex: "hex_value c \<noteq> None" if "c \<in> set (encode_hex (sha (snd f)))" for c
    by (rule hex_chars [OF that])
  then have "CHR '' '' \<notin> set (encode_hex (sha (snd f)))"
    using hex_not_space space_is_space by blast
  note split = split_once_gap [OF this, of "fst f"]
  have "list_all (\<lambda>c. hex_value c \<noteq> None) (encode_hex (sha (snd f)))"
    using hex by (auto simp: list_all_iff simp del: not_None_eq)
  moreover have "map lower_hex (encode_hex (sha (snd f))) = encode_hex (sha (snd f))"
    using encode_decode_hex [OF decode_encode_hex] by metis
  ultimately show ?thesis
    using assms unfolding manifest_line_def manifest_entry_def split
    by (simp add: length_encode_hex del: not_None_eq)
qed

lemma manifest_lines_entries:
  assumes "\<forall>f\<in>set files. length (sha (snd f)) = 32 \<and> normal_path (fst f) \<and> fst f \<noteq> [] \<and>
      dir (fst f) = Some (True, snd f)"
    and "distinct (map fst files)" and "covered \<inter> fst ` set files = {}"
  shows "manifest_lines sha dir (map (manifest_entry sha) files) covered = Inr (covered \<union> fst ` set files)"
  using assms
proof (induction files arbitrary: covered)
  case (Cons f files)
  then have "manifest_line sha dir covered (manifest_entry sha f) = Inr (fst f)"
    by (intro manifest_line_entry) auto
  moreover have "manifest_lines sha dir (map (manifest_entry sha) files) (insert (fst f) covered) =
      Inr (insert (fst f) covered \<union> fst ` set files)"
    using Cons.prems by (intro Cons.IH) auto
  ultimately show ?case by simp
qed simp

lemma check_manifest_written:
  assumes files: "\<forall>f\<in>set files. length (sha (snd f)) = 32 \<and> normal_path (fst f) \<and> plain_text (fst f) \<and>
      dir (fst f) = Some (True, snd f)"
    and "distinct (map fst files)" and "set REQUIRED_FILES \<subseteq> fst ` set files"
  shows "text_of (ascii (manifest_text sha files)) = Some (manifest_text sha files)"
    and "check_manifest sha dir (manifest_text sha files) = Inr (fst ` set files)"
proof -
  let ?ls = "(MANIFEST_PREFIX @ ''native-adapter'') # map (manifest_entry sha) files"
  have printed: "manifest_text sha files = line_text ?ls"
  proof -
    have "map (\<lambda>(name, bs). encode_hex (sha bs) @ ''  '' @ name) files = map (manifest_entry sha) files"
      by (auto simp: manifest_entry_def)
    then show ?thesis by (simp only: manifest_text_def)
  qed
  have entries: "plain_text (manifest_entry sha f) \<and> hd (manifest_entry sha f) \<noteq> CHR ''#''" if "f \<in> set files" for f
    using files that by (intro manifest_entry_plain) auto
  have "plain_text (MANIFEST_PREFIX @ ''native-adapter'')"
    by (auto simp: plain_text_def MANIFEST_PREFIX_def is_space_def newline_def char_of_def bit_Suc_0_iff)
  with entries have plain: "\<forall>l\<in>set ?ls. plain_text l" by auto
  from text_of_ascii_text [OF line_text_ascii [OF this]]
  show "text_of (ascii (manifest_text sha files)) = Some (manifest_text sha files)" by (simp only: printed)
  have lines: "text_lines (manifest_text sha files) = ?ls"
    unfolding printed using plain by (intro text_lines_line_text) (blast dest: plain_not_cr)
  have "trim_text l \<noteq> [] \<and> hd l \<noteq> CHR ''#''" if "l \<in> set (map (manifest_entry sha) files)" for l
    using that entries by (auto simp: plain_text_def trim_id)
  then have filtered: "filter (\<lambda>l. trim_text l \<noteq> [] \<and> hd l \<noteq> CHR ''#'') (map (manifest_entry sha) files) =
      map (manifest_entry sha) files" by (intro filter_True) blast
  have "manifest_lines sha dir (map (manifest_entry sha) files) {} = Inr ({} \<union> fst ` set files)"
    using files by (intro manifest_lines_entries assms(2)) (auto simp: plain_text_def)
  moreover have "find (\<lambda>n. n \<notin> fst ` set files) REQUIRED_FILES = None"
    using assms(3) by (auto simp: find_None_iff)
  moreover have "strip_prefix MANIFEST_PREFIX (MANIFEST_PREFIX @ ''native-adapter'') = Some ''native-adapter''"
    by (simp only: strip_prefix_Some)
  ultimately show "check_manifest sha dir (manifest_text sha files) = Inr (fst ` set files)"
    unfolding check_manifest_def lines list.case filtered by simp
qed

subsection \<open>The recorded events are declared\<close>

definition event_tuple :: "frame \<Rightarrow> u32 \<times> u32 \<times> u32 \<times> event_type" where
  "event_tuple f = (f_src_actor f, f_dst_actor f, f_channel_id f, f_event_type f)"

definition input_table :: "(u32 \<times> u32 \<times> u32 \<times> event_type) list" where
  "input_table =
     [(ACTOR_COMMAND, COMPONENT_ACTOR_ID, CH_GOAL_COMMAND, EvMessage),
      (ACTOR_CLOCK, COMPONENT_ACTOR_ID, CH_CLOCK, EvClock),
      (ACTOR_ACTION_SERVER, COMPONENT_ACTOR_ID, CH_ACTION_RESPONSE, EvGoalResponse),
      (ACTOR_ACTION_SERVER, COMPONENT_ACTOR_ID, CH_ACTION_RESPONSE, EvResult),
      (ACTOR_ACTION_SERVER, COMPONENT_ACTOR_ID, CH_ACTION_RESPONSE, EvCancelResponse)]"

definition effect_table :: "(u32 \<times> u32 \<times> u32 \<times> event_type) list" where
  "effect_table =
     [(COMPONENT_ACTOR_ID, ACTOR_ACTION_SERVER, CH_ACTION_GOAL, EvGoalSend),
      (COMPONENT_ACTOR_ID, ACTOR_ACTION_SERVER, CH_ACTION_CANCEL, EvCancelSend),
      (COMPONENT_ACTOR_ID, ACTOR_DIAGNOSTICS, CH_STATUS, EvStatus)]"

definition in_tables :: "frame \<Rightarrow> bool" where
  "in_tables f \<longleftrightarrow> f_event_type f = EvGap \<or> event_tuple f \<in> set (input_table @ effect_table)"

lemma issued_in_table:
  "send_of h c goal = (c', e) \<Longrightarrow>
     (COMPONENT_ACTOR_ID, ef_dst_actor e, ef_channel_id e, ef_event_type e) \<in> set effect_table"
  "cancel_of c gid stamp = (c', e) \<Longrightarrow>
     (COMPONENT_ACTOR_ID, ef_dst_actor e, ef_channel_id e, ef_event_type e) \<in> set effect_table"
  "issue_status c words = (c', e) \<Longrightarrow>
     (COMPONENT_ACTOR_ID, ef_dst_actor e, ef_channel_id e, ef_event_type e) \<in> set effect_table"
proof -
  assume "send_of h c goal = (c', e)"
  from issue_effect_fields(4-6) [OF this [unfolded send_of_def]] show "(COMPONENT_ACTOR_ID, ef_dst_actor e, ef_channel_id e, ef_event_type e) \<in> set effect_table"
    by (simp add: effect_table_def)
next
  assume "cancel_of c gid stamp = (c', e)"
  from issue_effect_fields(4-6) [OF this [unfolded cancel_of_def]] show "(COMPONENT_ACTOR_ID, ef_dst_actor e, ef_channel_id e, ef_event_type e) \<in> set effect_table"
    by (simp add: effect_table_def)
next
  assume "issue_status c words = (c', e)"
  from issue_effect_fields(4-6) [OF this [unfolded issue_status_def]] show "(COMPONENT_ACTOR_ID, ef_dst_actor e, ef_channel_id e, ef_event_type e) \<in> set effect_table"
    by (simp add: effect_table_def)
qed

lemma step_in_table:
  "client_step h c inp out c' \<Longrightarrow> \<forall>e\<in>set (oc_effects out).
     (COMPONENT_ACTOR_ID, ef_dst_actor e, ef_channel_id e, ef_event_type e) \<in> set effect_table"
  by (induction rule: client_step.induct) (auto dest: issued_in_table)

definition adds_declared :: "fixture \<Rightarrow> fixture \<Rightarrow> bool" where
  "adds_declared fx fx' \<longleftrightarrow>
     (\<exists>more. rc_frames (fx_recorder fx') = rc_frames (fx_recorder fx) @ more \<and> (\<forall>f\<in>set more. in_tables f))"

lemma adds_declared_refl [intro]: "adds_declared fx fx"
  by (simp add: adds_declared_def)

lemma adds_declared_trans: "adds_declared fx fx1 \<Longrightarrow> adds_declared fx1 fx2 \<Longrightarrow> adds_declared fx fx2"
  by (fastforce simp: adds_declared_def)

lemma adds_declared_frame:
  "rc_frames (fx_recorder fx') = rc_frames (fx_recorder fx) @ [f] \<Longrightarrow> in_tables f \<Longrightarrow> adds_declared fx fx'"
  by (simp add: adds_declared_def)

lemma record_effects_in_tables:
  assumes "record_effects fx es = Inr fx'"
    and "\<forall>e\<in>set es. (COMPONENT_ACTOR_ID, ef_dst_actor e, ef_channel_id e, ef_event_type e) \<in> set effect_table"
  shows "adds_declared fx fx'"
  using assms
proof (induction es arbitrary: fx)
  case (Cons e es)
  have "in_tables (effect_frame (fx_recorder fx) e)"
    using Cons.prems(2) by (simp add: in_tables_def event_tuple_def)
  then have "adds_declared fx (note_effect fx e)" by (intro adds_declared_frame) simp_all
  moreover have "adds_declared (note_effect fx e) fx'"
    using Cons.prems(2) by (intro Cons.IH [OF record_effects_Cons(1) [OF Cons.prems(1)]]) simp
  ultimately show ?case by (rule adds_declared_trans)
qed auto

lemma script_input_in_table:
  assumes "script_input fx a = Inr (src, ch, ty, body)"
  shows "(src, COMPONENT_ACTOR_ID, ch, ty) \<in> set input_table"
proof -
  have "(src, ch, ty) = (ACTOR_COMMAND, CH_GOAL_COMMAND, EvMessage) \<or> (src, ch, ty) = (ACTOR_CLOCK, CH_CLOCK, EvClock) \<or>
      src = ACTOR_ACTION_SERVER \<and> ch = CH_ACTION_RESPONSE \<and> ty \<in> {EvGoalResponse, EvResult, EvCancelResponse}"
    using assms by (cases a) (simp_all split: option.splits if_splits sum.splits prod.splits)
  then show ?thesis unfolding input_table_def by (elim disjE conjE insertE) simp_all
qed

lemma record_input_in_tables:
  assumes "record_input h a fx = Inr fx'"
  shows "adds_declared fx fx'"
proof -
  from assms obtain src ch ty body c' out i where inp: "script_input fx a = Inr (src, ch, ty, body)"
    and step: "step h (fx_component fx) i = Some (c', out)"
    and effs: "record_effects (fx\<lparr>fx_recorder := recorder_push (fx_recorder fx) src COMPONENT_ACTOR_ID ch
      (plain_header ty 0) body, fx_component := c'\<rparr>) (oc_effects out) = Inr fx'"
    by (rule record_inputE)
  have "in_tables (next_frame (fx_recorder fx) src COMPONENT_ACTOR_ID ch (plain_header ty 0) body)"
    using script_input_in_table [OF inp] by (simp add: in_tables_def event_tuple_def)
  then have "adds_declared fx (fx\<lparr>fx_recorder := recorder_push (fx_recorder fx) src COMPONENT_ACTOR_ID ch
      (plain_header ty 0) body, fx_component := c'\<rparr>)" by (intro adds_declared_frame) simp_all
  then show ?thesis
    by (rule adds_declared_trans) (rule record_effects_in_tables [OF effs step_in_table [OF stepE [OF step]]])
qed

lemma record_actions_in_tables: "record_actions h as fx = Inr fx' \<Longrightarrow> adds_declared fx fx'"
proof (induction as arbitrary: fx)
  case (Cons a as)
  show ?case
  proof (cases "a = ActGap")
    case True
    with Cons.prems show ?thesis
      by (auto split: option.splits simp: adds_declared_def in_tables_def)
  next
    case False
    with Cons.prems(1) obtain fx1 :: fixture where
      fx1: "record_input h a fx = Inr fx1" "record_actions h as fx1 = Inr fx'"
      by (auto simp: record_actions_Cons split: sum.splits)
    show ?thesis by (rule adds_declared_trans [OF record_input_in_tables [OF fx1(1)] Cons.IH [OF fx1(2)]])
  qed
qed auto

lemma endpoint_entries_eq:
  "endpoint_entries = [(''endpoint.1'', ''component''), (''endpoint.2'', ''clock''),
     (''endpoint.3'', ''action_server''), (''endpoint.4'', ''command''), (''endpoint.5'', ''diagnostics'')]"
  by (simp add: endpoint_entries_def endpoints_def decimal.simps COMPONENT_ACTOR_ID_def ACTOR_CLOCK_def
      ACTOR_ACTION_SERVER_def ACTOR_COMMAND_def ACTOR_DIAGNOSTICS_def char_of_def bit_Suc_0_iff)

lemma channel_entries_eq:
  "channel_entries = [(''channel.10'', ''goal_command input Message''), (''channel.11'', ''clock input Clock''),
     (''channel.12'', ''action_response input GoalResponse,Result,CancelResponse''),
     (''channel.20'', ''action_goal effect GoalSend''), (''channel.21'', ''action_cancel effect CancelSend''),
     (''channel.22'', ''status effect Status'')]"
  by (simp add: channel_entries_def channels_def decimal.simps CH_GOAL_COMMAND_def CH_CLOCK_def
      CH_ACTION_RESPONSE_def CH_ACTION_GOAL_def CH_ACTION_CANCEL_def CH_STATUS_def char_of_def bit_Suc_0_iff)

lemma table_keys:
  "endpoint_key COMPONENT_ACTOR_ID = ''endpoint.1''" "endpoint_key ACTOR_CLOCK = ''endpoint.2''"
  "endpoint_key ACTOR_ACTION_SERVER = ''endpoint.3''" "endpoint_key ACTOR_COMMAND = ''endpoint.4''"
  "endpoint_key ACTOR_DIAGNOSTICS = ''endpoint.5''"
  "channel_key CH_GOAL_COMMAND = ''channel.10''" "channel_key CH_CLOCK = ''channel.11''"
  "channel_key CH_ACTION_RESPONSE = ''channel.12''" "channel_key CH_ACTION_GOAL = ''channel.20''"
  "channel_key CH_ACTION_CANCEL = ''channel.21''" "channel_key CH_STATUS = ''channel.22''"
  by (simp_all add: endpoint_key_def channel_key_def decimal.simps COMPONENT_ACTOR_ID_def ACTOR_CLOCK_def
      ACTOR_ACTION_SERVER_def ACTOR_COMMAND_def ACTOR_DIAGNOSTICS_def CH_GOAL_COMMAND_def CH_CLOCK_def
      CH_ACTION_RESPONSE_def CH_ACTION_GOAL_def CH_ACTION_CANCEL_def CH_STATUS_def char_of_def bit_Suc_0_iff)

lemma identity_lookup:
  assumes "map_of m = map_of (identity_entries h src sc)"
  shows "map_of m ''endpoint.1'' = Some ''component''" "map_of m ''endpoint.2'' = Some ''clock''"
    "map_of m ''endpoint.3'' = Some ''action_server''" "map_of m ''endpoint.4'' = Some ''command''"
    "map_of m ''endpoint.5'' = Some ''diagnostics''"
    "map_of m ''channel.10'' = Some ''goal_command input Message''" "map_of m ''channel.11'' = Some ''clock input Clock''"
    "map_of m ''channel.12'' = Some ''action_response input GoalResponse,Result,CancelResponse''"
    "map_of m ''channel.20'' = Some ''action_goal effect GoalSend''"
    "map_of m ''channel.21'' = Some ''action_cancel effect CancelSend''"
    "map_of m ''channel.22'' = Some ''status effect Status''"
  by (simp_all add: assms identity_entries_def endpoint_entries_eq channel_entries_eq)

lemma declarations_parse:
  "rsplit3 ''goal_command input Message'' = Some (''Message'', ''input'', ''goal_command'')"
  "rsplit3 ''clock input Clock'' = Some (''Clock'', ''input'', ''clock'')"
  "rsplit3 ''action_response input GoalResponse,Result,CancelResponse'' =
     Some (''GoalResponse,Result,CancelResponse'', ''input'', ''action_response'')"
  "rsplit3 ''action_goal effect GoalSend'' = Some (''GoalSend'', ''effect'', ''action_goal'')"
  "rsplit3 ''action_cancel effect CancelSend'' = Some (''CancelSend'', ''effect'', ''action_cancel'')"
  "rsplit3 ''status effect Status'' = Some (''Status'', ''effect'', ''status'')"
  by (simp_all add: rsplit3_def)

lemma validate_in_tables:
  assumes m: "map_of m = map_of (identity_entries h src sc)" and f: "in_tables f"
  shows "validate_event f m = Inr ()"
proof (cases "f_event_type f = EvGap")
  case True
  then show ?thesis by (simp add: validate_event_def frame_kind_def)
next
  case False
  note found = case_entry_Inr [THEN iffD2, OF identity_lookup(1) [OF m]] case_entry_Inr [THEN iffD2, OF identity_lookup(2) [OF m]]
    case_entry_Inr [THEN iffD2, OF identity_lookup(3) [OF m]] case_entry_Inr [THEN iffD2, OF identity_lookup(4) [OF m]]
    case_entry_Inr [THEN iffD2, OF identity_lookup(5) [OF m]] case_entry_Inr [THEN iffD2, OF identity_lookup(6) [OF m]]
    case_entry_Inr [THEN iffD2, OF identity_lookup(7) [OF m]] case_entry_Inr [THEN iffD2, OF identity_lookup(8) [OF m]]
    case_entry_Inr [THEN iffD2, OF identity_lookup(9) [OF m]] case_entry_Inr [THEN iffD2, OF identity_lookup(10) [OF m]]
    case_entry_Inr [THEN iffD2, OF identity_lookup(11) [OF m]]
  from False f have "event_tuple f \<in> set (input_table @ effect_table)" by (simp add: in_tables_def)
  then show ?thesis
    using False unfolding input_table_def effect_table_def
    by (auto simp: event_tuple_def validate_event_def table_keys found declares_def declarations_parse
        frame_kind_def)
qed

subsection \<open>The texts are plain\<close>

definition plain_key :: "string \<Rightarrow> bool" where
  "plain_key k \<longleftrightarrow> plain_text k \<and> CHR ''='' \<notin> set k \<and> hd k \<noteq> CHR ''#''"

lemma plain_entries_iff:
  "(\<forall>kv\<in>set kvs. plain_entry kv) \<longleftrightarrow> list_all plain_key (map fst kvs) \<and> list_all plain_text (map snd kvs)"
  by (auto simp: plain_entry_def plain_key_def list_all_iff)

lemma hex_plain: "bs \<noteq> [] \<Longrightarrow> plain_text (encode_hex bs)"
proof -
  assume bs: "bs \<noteq> []"
  then have "encode_hex bs \<noteq> []" by (cases bs) simp_all
  moreover from this have "hd (encode_hex bs) \<in> set (encode_hex bs)" "last (encode_hex bs) \<in> set (encode_hex bs)"
    by simp_all
  ultimately show ?thesis
    using hex_not_space [OF hex_chars [of _ bs]] unfolding plain_text_def by blast
qed

lemma digest_plain: "plain_text (encode_hex (to_le (d :: digest)))"
proof -
  have "length (to_le d) = 32" by simp
  then have "to_le d \<noteq> []" by (cases "to_le d") simp_all
  then show ?thesis by (rule hex_plain)
qed

definition plain_scenario :: "scenario \<Rightarrow> bool" where
  "plain_scenario sc \<longleftrightarrow>
     list_all plain_text [sn_name sc, sn_property sc, sn_completion sc, sn_grade_reason sc] \<and>
     sn_grade sc \<in> set [''Complete'', ''Rebuilt'', ''Inferred'', ''Watch-only'']"

lemma plain_literals:
  "list_all plain_text [''goal-client'', ''old'', ''rook-adapter-ref'', ''1'', ''rook-property-ref'',
     ''rook-property-input@1'', ''none@1'', ''rook-adapter-ref driver'', ''fresh'', ''after-transport'',
     ''rust 1.95 (workspace rust-version)'',
     ''built from public source; no ROS, no plugins, no shared libraries beyond the Rust toolchain'',
     ''component'', ''clock'', ''action_server'', ''command'', ''diagnostics'', ''goal_command input Message'',
     ''clock input Clock'', ''action_response input GoalResponse,Result,CancelResponse'',
     ''action_goal effect GoalSend'', ''action_cancel effect CancelSend'', ''status effect Status'',
     ''adapter-ref@1'', ''end_of_recording'', ''raw-bytes-in-order@1'', ''1000000000'',
     ''scripted reference environment, not a field recording'', ''measured'', ''Complete'', ''Rebuilt'',
     ''Inferred'', ''Watch-only'']"
  by code_simp

lemma deadline_text: "show_word GOAL_RESPONSE_DEADLINE_NS = ''1000000000''"
  by (simp add: GOAL_RESPONSE_DEADLINE_NS_def decimal.simps char_of_def bit_Suc_0_iff)

lemma deadline_parses: "parse_i64 ''1000000000'' = Some 1000000000"
  by (simp add: parse_i64_def parse_digits_def digit_value_def)

lemma case_entries_plain:
  assumes "plain_scenario sc"
  shows "\<forall>kv\<in>set (case_entries sc). plain_entry kv" and "distinct (map fst (case_entries sc))"
proof -
  have keys: "map fst (case_entries sc) =
      [''corpus'', ''scenario'', ''property'', ''scope.completion'', ''scope.observation_end'', ''comparison_policy'',
       ''goal_response_deadline_ns'', ''grade_reason'', ''origin'']"
    by (simp add: case_entries_def)
  have "list_all plain_key [''corpus'', ''scenario'', ''property'', ''scope.completion'', ''scope.observation_end'',
      ''comparison_policy'', ''goal_response_deadline_ns'', ''grade_reason'', ''origin'']" by code_simp
  moreover have "list_all plain_text (map snd (case_entries sc))"
    using plain_literals assms by (simp add: case_entries_def REFERENCE_CORPUS_def plain_scenario_def deadline_text)
  ultimately show "\<forall>kv\<in>set (case_entries sc). plain_entry kv" unfolding plain_entries_iff keys by blast
  show "distinct (map fst (case_entries sc))" unfolding keys by simp
qed

lemma expected_entries_plain:
  assumes "plain_scenario sc"
  shows "\<forall>kv\<in>set (expected_entries h events captured hashes sc). plain_entry kv"
    and "distinct (map fst (expected_entries h events captured hashes sc))"
proof -
  have keys: "map fst (expected_entries h events captured hashes sc) =
      [''raw_record_blake3'', ''effects_captured_blake3'', ''trace_hash'', ''run_hash'', ''output_digest'', ''grade'', ''claim'']"
    by (simp add: expected_entries_def)
  have "list_all plain_key [''raw_record_blake3'', ''effects_captured_blake3'', ''trace_hash'', ''run_hash'',
      ''output_digest'', ''grade'', ''claim'']" by code_simp
  moreover have "list_all plain_text (map snd (expected_entries h events captured hashes sc))"
    using plain_literals assms digest_plain by (auto simp: expected_entries_def plain_scenario_def)
  ultimately show "\<forall>kv\<in>set (expected_entries h events captured hashes sc). plain_entry kv"
    unfolding plain_entries_iff keys by blast
  show "distinct (map fst (expected_entries h events captured hashes sc))" unfolding keys by simp
qed

lemma identity_entries_plain:
  assumes "plain_scenario sc" and "\<forall>k. plain_text (src k)"
  shows "\<forall>kv\<in>set (identity_entries h src sc). plain_entry kv" and "distinct (map fst (identity_entries h src sc))"
proof -
  have keys: "map fst (identity_entries h src sc) =
      [''component'', ''component_variant'', ''component_source_blake3'', ''adapter'', ''adapter_protocol'',
       ''adapter_source_blake3'', ''property'', ''property_program'', ''property_input_schema'',
       ''property_source_blake3'', ''normalization'', ''normalization_program'', ''normalization_source_blake3'',
       ''starting_state'', ''starting_state_blake3'', ''effect_record_order'', ''endpoint.1'', ''endpoint.2'',
       ''endpoint.3'', ''endpoint.4'', ''endpoint.5'', ''channel.10'', ''channel.11'', ''channel.12'', ''channel.20'',
       ''channel.21'', ''channel.22'', ''toolchain'', ''executable'']"
    by (simp add: identity_entries_def endpoint_entries_eq channel_entries_eq)
  have "list_all plain_key
      [''component'', ''component_variant'', ''component_source_blake3'', ''adapter'', ''adapter_protocol'',
       ''adapter_source_blake3'', ''property'', ''property_program'', ''property_input_schema'',
       ''property_source_blake3'', ''normalization'', ''normalization_program'', ''normalization_source_blake3'',
       ''starting_state'', ''starting_state_blake3'', ''effect_record_order'', ''endpoint.1'', ''endpoint.2'',
       ''endpoint.3'', ''endpoint.4'', ''endpoint.5'', ''channel.10'', ''channel.11'', ''channel.12'', ''channel.20'',
       ''channel.21'', ''channel.22'', ''toolchain'', ''executable'']" by code_simp
  moreover note digest_plain
  moreover have "show_word PROTOCOL_VERSION = ''1''"
    by (simp add: PROTOCOL_VERSION_def decimal.simps char_of_def bit_Suc_0_iff)
  ultimately show "\<forall>kv\<in>set (identity_entries h src sc). plain_entry kv"
    unfolding plain_entries_iff keys using plain_literals assms
    by (simp add: identity_entries_def endpoint_entries_eq channel_entries_eq plain_scenario_def ADAPTER_NAME_def)
  show "distinct (map fst (identity_entries h src sc))" unfolding keys by simp
qed

lemma comments_plain:
  "plain_comments case_comments" "plain_comments identity_comments"
  "plain_text (sn_name sc) \<Longrightarrow> plain_comments (expected_comments sc)"
proof -
  show "plain_comments case_comments" by code_simp
  show "plain_comments identity_comments" by code_simp
  assume name: "plain_text (sn_name sc)"
  have "plain_text ''# Expected values for the'' \<and> plain_text ''reference scenario. Recorded from the old''" by code_simp
  then have "plain_text (''# Expected values for the '' @ sn_name sc @ '' reference scenario. Recorded from the old'')"
    using name by (auto simp: plain_text_def newline_def char_of_def)
  moreover have "plain_text ''# component through the scripted environment in crates/rook-adapter-ref.''" by code_simp
  ultimately show "plain_comments (expected_comments sc)" by (simp add: plain_comments_def expected_comments_def)
qed

section \<open>A written capsule is read back\<close>

lemma capsule_files_eq:
  assumes "record_scenario h VOld sc = Inr rg"
  shows "capsule_files h kh sha src sc =
    (let events = encode_stream h (rg_frames rg); captured = encode_captured (rg_captured rg);
         hashes = hash_frames h kh (ascii REFERENCE_CORPUS) (rg_frames rg);
         files = [(''case'', file_text case_comments (case_entries sc)), (''effects_captured.bin'', captured),
           (''events.bin'', events),
           (''expected'', file_text (expected_comments sc) (expected_entries h events captured hashes sc)),
           (''identity'', file_text identity_comments (identity_entries h src sc))]
     in Inr ((''MANIFEST.sha256'', ascii (manifest_text sha files)) # files))"
  by (simp add: capsule_files_def assms Let_def less_char_def)

lemma names_plain:
  "list_all (\<lambda>n. normal_path n \<and> plain_text n)
     [''case'', ''effects_captured.bin'', ''events.bin'', ''expected'', ''identity'']"
  by code_simp

lemma check_declarations_written:
  assumes "map_of d = map_of (case_entries sc)" and "map_of m = map_of (identity_entries h src sc)"
    and "map_of e = map_of (expected_entries h events captured hashes sc)" and "plain_scenario sc"
  shows "check_declarations d m e = Inr ()"
proof -
  have "map_of d ''goal_response_deadline_ns'' = Some ''1000000000''"
    by (simp add: assms(1) case_entries_def deadline_text)
  then have deadline: "case_entry d ''goal_response_deadline_ns'' = Inr ''1000000000''" by simp
  have "(case case_entry d ''goal_response_deadline_ns'' of Inl e \<Rightarrow> Inl e | Inr v \<Rightarrow> positive_deadline v) = Inr ()"
    unfolding deadline by (simp add: positive_deadline_def deadline_parses)
  moreover have "map_of d ''property'' = Some (sn_property sc)" by (simp add: assms(1) case_entries_def)
  moreover have "\<forall>key\<in>set DECLARATION_KEYS. map_of d key \<noteq> None"
    by (simp add: DECLARATION_KEYS_def assms(1) case_entries_def)
  moreover have "\<forall>key\<in>set IDENTITY_KEYS. map_of m key \<noteq> None"
    by (simp add: IDENTITY_KEYS_def assms(2) identity_entries_def)
  moreover have "map_of m ''property_input_schema'' = Some INPUT_SCHEMA"
    by (simp add: assms(2) identity_entries_def INPUT_SCHEMA_def)
  moreover have "map_of e ''claim'' = Some ''measured''" "map_of e ''grade'' = Some (sn_grade sc)"
    by (simp_all add: assms(3) expected_entries_def)
  moreover have "map_of m ''property'' = Some (sn_property sc)" by (simp add: assms(2) identity_entries_def)
  ultimately show ?thesis
    using assms(4) unfolding check_declarations_def check_each_Inr by (auto simp: plain_scenario_def)
qed

lemma recorded_frames:
  assumes "record_scenario h v sc = Inr rg" and "\<forall>a\<in>set (sn_actions sc). small_command a"
  shows "valid_stream (rg_frames rg)" and "rg_captured rg = map payload (filter is_emit (rg_frames rg))"
    and "decode_captured (encode_captured (rg_captured rg)) = Inr (rg_captured rg)"
    and "\<exists>more. rg_frames rg = start_frames h (sn_name sc) @ more \<and>
      (\<forall>f\<in>set more. f_event_type f = EvEnd \<or> in_tables f)"
proof -
  from record_scenario_Inr [OF assms] obtain fx :: fixture where
    run: "record_actions h (sn_actions sc) \<lparr>fx_recorder = recorder_start h (sn_name sc),
      fx_component = new_component v, fx_last_goal = None, fx_last_cancel = None\<rparr> = Inr fx"
    and ok: "recorder_ok (script_session h (sn_name sc)) (fx_recorder fx)"
    and captured: "rg_captured rg = rc_captured (fx_recorder fx)"
    and frames: "rg_frames rg = rc_frames (fx_recorder fx) @ [next_frame (fx_recorder fx) SESSION_ACTOR_ID
      SESSION_ACTOR_ID SESSION_CHANNEL_ID (plain_header EvEnd 0)
      (encode_end \<lparr>en_uuid = session_uuid h (sn_name sc),
         en_frame_count = word_of_nat (length (rc_frames (fx_recorder fx)))\<rparr>)]" by blast
  show valid: "valid_stream (rg_frames rg)"
    using end_push_valid [OF ok] by (simp add: frames script_session_def)
  show payloads: "rg_captured rg = map payload (filter is_emit (rg_frames rg))"
    using ok by (simp add: captured frames recorder_ok_def is_emit_def frame_kind_def)
  have "\<forall>f\<in>set (rg_frames rg). length (payload f) < 2 ^ 32"
    using valid by (auto simp: valid_stream_def ok_prefix_def frame_ok_def wf_frame_def in_set_conv_nth)
  then have "\<forall>p\<in>set (rg_captured rg). length p < 2 ^ 32" by (auto simp: payloads)
  then show "decode_captured (encode_captured (rg_captured rg)) = Inr (rg_captured rg)"
    by (rule decode_encode_captured)
  from record_actions_in_tables [OF run] obtain more where
    "rc_frames (fx_recorder fx) = start_frames h (sn_name sc) @ more" "\<forall>f\<in>set more. in_tables f"
    by (auto simp: adds_declared_def recorder_start_frames)
  then show "\<exists>more. rg_frames rg = start_frames h (sn_name sc) @ more \<and>
      (\<forall>f\<in>set more. f_event_type f = EvEnd \<or> in_tables f)"
    by (auto simp: frames)
qed

lemma check_start_written:
  assumes "map_of m = map_of (identity_entries h src sc)" and "frames = start_frames h name @ later"
    and "\<forall>f\<in>set later. f_event_type f = EvEnd \<or> in_tables f"
  shows "check_start m frames = Inr ()"
proof -
  have "f_event_type f \<noteq> EvStartingState" if "f \<in> set later" for f
    using assms(3) that by (auto simp: in_tables_def event_tuple_def input_table_def effect_table_def)
  then have "filter (\<lambda>f. f_event_type f = EvStartingState) later = []" by (simp add: filter_empty_conv)
  then obtain s where starts: "filter (\<lambda>f. f_event_type f = EvStartingState) frames = [s]"
    and s: "f_ordinal s = 1" "f_body s = to_le (1 :: u16) @ to_le (h [])"
    by (simp add: assms(2) start_frames_def state_body_def starting_state_def STATE_METHOD_FRESH_def)
  have "map_of m ''starting_state'' = Some ''fresh''"
    "map_of m ''starting_state_blake3'' = Some (encode_hex (to_le (h [])))"
    by (simp_all add: assms(1) identity_entries_def)
  then have start: "case_entry m ''starting_state'' = Inr ''fresh''"
    and digest: "entry_is m ''starting_state_blake3'' (\<lambda>v. encode_hex (to_le (h [])) = v) StartDrift = Inr ()"
    by simp_all
  have "start_method ''fresh'' = Some 1" by (simp add: start_method_def)
  with s show ?thesis
    unfolding check_start_def starts list.case start sum.case by (simp add: digest del: entry_is_Inr)
qed

lemma check_hashes_written:
  assumes "map_of d = map_of (case_entries sc)"
    and "map_of e = map_of (expected_entries h events captured (hash_frames h kh (ascii REFERENCE_CORPUS) frames) sc)"
  shows "check_hashes h kh d e frames = Inr ()"
proof -
  have corpus: "case_entry d ''corpus'' = Inr REFERENCE_CORPUS" by (simp add: assms(1) case_entries_def)
  show ?thesis
    unfolding check_hashes_def corpus sum.case Let_def check_each_Inr
    by (simp add: expect_hash_def assms(2) expected_entries_def)
qed

lemma evidence_written:
  assumes rec: "record_scenario h VOld sc = Inr rg" and small: "\<forall>a\<in>set (sn_actions sc). small_command a"
    and len: "length (rg_frames rg) < 2 ^ 64"
    and d: "map_of d = map_of (case_entries sc)" and m: "map_of m = map_of (identity_entries h src sc)"
    and e: "map_of e = map_of (expected_entries h (encode_stream h (rg_frames rg)) (encode_captured (rg_captured rg))
      (hash_frames h kh (ascii REFERENCE_CORPUS) (rg_frames rg)) sc)"
  shows "check_evidence h kh d m e (encode_stream h (rg_frames rg)) (encode_captured (rg_captured rg)) = Inr (rg_frames rg)"
proof -
  note frames = recorded_frames [OF rec small]
  have raw: "check_each (\<lambda>(key, bs). expect_hash e key (hash_text h bs))
      [(''raw_record_blake3'', encode_stream h (rg_frames rg)),
       (''effects_captured_blake3'', encode_captured (rg_captured rg))] = Inr ()"
    unfolding check_each_Inr by (simp add: expect_hash_def e expected_entries_def hash_text_def raw_record_hash_def)
  have decoded: "decode_stream h (encode_stream h (rg_frames rg)) = Inr (rg_frames rg)"
    using frames(1) decode_stream_iff [OF len] by blast
  from frames(4) obtain later where later: "rg_frames rg = start_frames h (sn_name sc) @ later"
    "\<forall>f\<in>set later. f_event_type f = EvEnd \<or> in_tables f" by blast
  have "validate_event f m = Inr ()" if "f \<in> set (rg_frames rg)" for f
  proof (cases "frame_kind f = KMarker")
    case True
    then show ?thesis by (simp add: validate_event_def)
  next
    case False
    then have "in_tables f" using that later by (auto simp: start_frames_def frame_kind_def)
    then show ?thesis by (rule validate_in_tables [OF m])
  qed
  then have "check_each (\<lambda>f. validate_event f m) (rg_frames rg) = Inr ()" by simp
  moreover have "check_start m (rg_frames rg) = Inr ()" by (rule check_start_written [OF m later])
  moreover have "check_captured (encode_captured (rg_captured rg)) (rg_frames rg) = Inr ()"
    by (simp add: check_captured_def frames(3)) (simp add: frames(2))
  moreover have "check_hashes h kh d e (rg_frames rg) = Inr ()" by (rule check_hashes_written [OF d e])
  ultimately have "check_each id [check_each (\<lambda>f. validate_event f m) (rg_frames rg), check_start m (rg_frames rg),
      check_captured (encode_captured (rg_captured rg)) (rg_frames rg), check_hashes h kh d e (rg_frames rg)] = Inr ()"
    unfolding check_each_Inr by simp
  then show ?thesis unfolding check_evidence_def raw decoded sum.case by (simp only: sum.case)
qed

text \<open>A directory that holds the files of a capsule, and perhaps others.\<close>

lemma capsule_loads_in:
  assumes "record_scenario h VOld sc = Inr rg" and "length (rg_frames rg) < 2 ^ 64"
    and "\<forall>a\<in>set (sn_actions sc). small_command a" and "plain_scenario sc"
    and "\<forall>k. plain_text (src k)" and "\<forall>bs. length (sha bs) = 32"
    and "capsule_files h kh sha src sc = Inr whole" and "\<forall>f\<in>set whole. dir (fst f) = Some (True, snd f)"
  shows "\<exists>c. case_load h kh sha dir = Inr c \<and>
    cf_frames c = rg_frames rg \<and> cf_covered c = set REQUIRED_FILES \<and>
    map_of (cf_declaration c) = map_of (case_entries sc) \<and>
    map_of (cf_identity c) = map_of (identity_entries h src sc)"
proof -
  define events where "events = encode_stream h (rg_frames rg)"
  define captured where "captured = encode_captured (rg_captured rg)"
  define entries where "entries = expected_entries h events captured
      (hash_frames h kh (ascii REFERENCE_CORPUS) (rg_frames rg)) sc"
  define files where "files = [(''case'', file_text case_comments (case_entries sc)),
      (''effects_captured.bin'', captured), (''events.bin'', events),
      (''expected'', file_text (expected_comments sc) entries),
      (''identity'', file_text identity_comments (identity_entries h src sc))]"
  have whole: "whole = (''MANIFEST.sha256'', ascii (manifest_text sha files)) # files"
    using assms(7) unfolding capsule_files_eq [OF assms(1)]
    by (simp add: files_def entries_def events_def captured_def Let_def)
  then have found: "\<forall>f\<in>set files. dir (fst f) = Some (True, snd f)"
    and manifest_file: "dir ''MANIFEST.sha256'' = Some (True, ascii (manifest_text sha files))"
    using assms(8) by simp_all
  have "plain_text (sn_name sc)" using assms(4) by (simp add: plain_scenario_def)
  note comments = comments_plain(1,2) comments_plain(3) [OF this]
  obtain d where d: "read_values dir ''case'' = Inr d" "map_of d = map_of (case_entries sc)"
    using read_values_file [OF _ comments(1) case_entries_plain [OF assms(4)], of dir "''case''"] found
    by (auto simp: files_def)
  obtain m where m: "read_values dir ''identity'' = Inr m" "map_of m = map_of (identity_entries h src sc)"
    using read_values_file [OF _ comments(2) identity_entries_plain [OF assms(4,5)], of dir "''identity''" h] found
    by (auto simp: files_def)
  have entries: "\<forall>kv\<in>set entries. plain_entry kv" "distinct (map fst entries)"
    unfolding entries_def by (rule expected_entries_plain [OF assms(4)])+
  obtain e where e: "read_values dir ''expected'' = Inr e" "map_of e = map_of entries"
    using read_values_file [OF _ comments(3) entries, of dir "''expected''"] found
    by (auto simp: files_def)
  have names: "set REQUIRED_FILES = fst ` set files" "distinct (map fst files)"
    by (auto simp: REQUIRED_FILES_def files_def)
  have "\<forall>f\<in>set files. length (sha (snd f)) = 32 \<and> normal_path (fst f) \<and> plain_text (fst f) \<and>
      dir (fst f) = Some (True, snd f)"
    using found assms(6) names_plain by (auto simp: files_def)
  note manifest = check_manifest_written [OF this names(2) equalityD1 [OF names(1)]]
  have texts: "read_text dir ''MANIFEST.sha256'' = Some (manifest_text sha files)"
    using manifest(1) by (simp add: read_text_def read_file_def manifest_file)
  have reads: "read_file dir ''events.bin'' = Some events" "read_file dir ''effects_captured.bin'' = Some captured"
    using found by (simp_all add: read_file_def files_def)
  have declared: "check_declarations d m e = Inr ()"
    by (rule check_declarations_written [OF d(2) m(2) e(2) [unfolded entries_def] assms(4)])
  have evidence: "check_evidence h kh d m e events captured = Inr (rg_frames rg)"
    unfolding events_def captured_def
    by (rule evidence_written [OF assms(1,3,2) d(2) m(2) e(2) [unfolded entries_def events_def captured_def]])
  have "\<exists>c. case_load h kh sha dir = Inr c \<and> cf_frames c = rg_frames rg \<and> cf_covered c = fst ` set files \<and>
      cf_declaration c = d \<and> cf_identity c = m"
    unfolding case_load_def texts option.case manifest(2) sum.case d(1) m(1) e(1) declared reads evidence by simp
  then show ?thesis using d(2) m(2) names(1) by auto
qed

section \<open>Properties of cases\<close>

text \<open>
  C29. The capsule written for a scenario loads: the loader accepts every file of it, returns the
  recorded frames, and reads back the entries that were printed into its texts.
\<close>

theorem capsule_loads:
  assumes "record_scenario h VOld sc = Inr rg" and "length (rg_frames rg) < 2 ^ 64"
    and "\<forall>a\<in>set (sn_actions sc). small_command a" and "plain_scenario sc"
    and "\<forall>k. plain_text (src k)" and "\<forall>bs. length (sha bs) = 32"
  shows "\<exists>files c. capsule_files h kh sha src sc = Inr files \<and> case_load h kh sha (capsule_dir files) = Inr c \<and>
    cf_frames c = rg_frames rg \<and> cf_covered c = set REQUIRED_FILES \<and>
    map_of (cf_declaration c) = map_of (case_entries sc) \<and>
    map_of (cf_identity c) = map_of (identity_entries h src sc)"
proof -
  obtain files where files: "capsule_files h kh sha src sc = Inr files" and names: "distinct (map fst files)"
    unfolding capsule_files_eq [OF assms(1)] by (simp add: Let_def)
  have "\<forall>f\<in>set files. capsule_dir files (fst f) = Some (True, snd f)"
    using names by (auto simp: capsule_dir_def)
  from capsule_loads_in [OF assms files this] files show ?thesis by blast
qed

definition demo_capsule :: scenario where
  "demo_capsule =
     \<lparr>sn_name = ''demo'', sn_property = PROPERTY_TIMEOUT_CANCEL, sn_completion = ''cancel_request_issued'',
      sn_grade = ''Complete'', sn_grade_reason = ''scripted'', sn_actions = [ActCommand [1, 2, 3]]\<rparr>"

lemma demo_capsule_records:
  "\<exists>rg. record_scenario h VOld demo_capsule = Inr rg \<and> length (rg_frames rg) = 4"
  by (simp add: record_scenario_def demo_capsule_def record_input_def recorder_start_def Let_def
      new_component_def step_def on_goal_command_def message_codec.dec_enc [simplified] default_outcome_def
      recorder_push_def ACTOR_COMMAND_def CH_GOAL_COMMAND_def CH_CLOCK_def
      COMPONENT_ACTOR_ID_def SESSION_ACTOR_ID_def SESSION_CHANNEL_ID_def
      del: next_frame_fields recorder_push_frames)

lemma demo_capsule_plain:
  "plain_scenario demo_capsule" "\<forall>a\<in>set (sn_actions demo_capsule). small_command a"
  "\<forall>k. plain_text ((\<lambda>_. ''00'') k)" "\<forall>bs. length ((\<lambda>_. replicate 32 0) bs) = 32"
proof -
  show "plain_scenario demo_capsule" by code_simp
  have "plain_text ''00''" by code_simp
  then show "\<forall>k. plain_text ((\<lambda>_. ''00'') k)" by simp
qed (simp_all add: demo_capsule_def small_command_def)

theorem capsule_loads_witness:
  "\<exists>files c. capsule_files demo_hash (\<lambda>_ _. 0) (\<lambda>_. replicate 32 0) (\<lambda>_. ''00'') demo_capsule = Inr files \<and>
     case_load demo_hash (\<lambda>_ _. 0) (\<lambda>_. replicate 32 0) (capsule_dir files) = Inr c \<and> length (cf_frames c) = 4"
proof -
  obtain rg where rg: "record_scenario demo_hash VOld demo_capsule = Inr rg" "length (rg_frames rg) = 4"
    using demo_capsule_records by blast
  have "length (rg_frames rg) < 2 ^ 64" by (simp add: rg(2))
  from capsule_loads [OF rg(1) this demo_capsule_plain(2,1,3,4), of "\<lambda>_ _. 0"] rg(2) show ?thesis by auto
qed

text \<open>
  C28. The case identity commits the whole case: two directories that load under the same identity load
  as the same case, and every file the manifest covers has the same contents in both, unless BLAKE3
  collides on the two manifests or SHA-256 on the covered files.
\<close>

theorem case_id_commits:
  assumes "case_load h kh sha dir = Inr c" and "case_load h kh sha dir' = Inr c'"
    and "cf_case_id c = cf_case_id c'"
    and "h (file_bytes dir ''MANIFEST.sha256'') = h (file_bytes dir' ''MANIFEST.sha256'') \<Longrightarrow>
      file_bytes dir ''MANIFEST.sha256'' = file_bytes dir' ''MANIFEST.sha256''"
    and "\<And>n. n \<in> cf_covered c \<Longrightarrow> sha (file_bytes dir n) = sha (file_bytes dir' n) \<Longrightarrow>
      file_bytes dir n = file_bytes dir' n"
  shows "c' = c \<and> (\<forall>n\<in>cf_covered c. read_file dir' n = read_file dir n)"
proof -
  from case_load_Inr [OF assms(1)] obtain m where m: "text_of (file_bytes dir ''MANIFEST.sha256'') = Some m"
      "check_manifest sha dir m = Inr (cf_covered c)"
      "cf_case_id c = hash_text h (file_bytes dir ''MANIFEST.sha256'')"
    by blast
  from case_load_Inr [OF assms(2)] obtain m' where m': "text_of (file_bytes dir' ''MANIFEST.sha256'') = Some m'"
      "check_manifest sha dir' m' = Inr (cf_covered c')"
      "cf_case_id c' = hash_text h (file_bytes dir' ''MANIFEST.sha256'')"
    by blast
  have manifest: "file_bytes dir ''MANIFEST.sha256'' = file_bytes dir' ''MANIFEST.sha256''"
    by (rule assms(4)) (use assms(3) in \<open>simp only: m(3) m'(3) hash_text_eq\<close>)
  then have mm: "m' = m" using m(1) m'(1) by simp
  from manifest_lines_same [OF check_manifest_Inr(1) [OF m(2)] check_manifest_Inr(1) [OF m'(2) [unfolded mm]]]
  have covered: "cf_covered c' = cf_covered c"
    and files: "\<forall>n\<in>cf_covered c. sha (file_bytes dir n) = sha (file_bytes dir' n) \<and>
      read_file dir n = Some (file_bytes dir n) \<and> read_file dir' n = Some (file_bytes dir' n)" by auto
  have same: "read_file dir' n = read_file dir n" if n: "n \<in> cf_covered c" for n
  proof -
    have "file_bytes dir n = file_bytes dir' n"
      by (rule assms(5) [OF n]) (use n files in blast)
    then show ?thesis using files n by auto
  qed
  have "read_file dir' n = read_file dir n" if "n \<in> insert ''MANIFEST.sha256'' (set REQUIRED_FILES)" for n
    using that same check_manifest_Inr(2) [OF m(2)] manifest
      case_load_reads [OF assms(1) that] case_load_reads [OF assms(2) that] by auto
  moreover have "read_text dir ''MANIFEST.sha256'' = Some m"
    using m(1) case_load_reads [OF assms(1)] by (simp add: read_text_def)
  ultimately have "case_load h kh sha dir' = case_load h kh sha dir"
    using m(2) m'(2) by (intro case_load_cong) (simp_all add: covered mm)
  then show ?thesis using assms(1,2) same by simp
qed


lemma case_load_id:
  "case_load h kh sha dir = Inr c \<Longrightarrow> cf_case_id c = hash_text h (file_bytes dir ''MANIFEST.sha256'')"
  by (drule case_load_Inr) (elim exE conjE)

theorem case_id_commits_witness:
  "\<exists>dir c. case_load demo_hash (\<lambda>_ _. 0) (\<lambda>_. replicate 32 0) dir = Inr c \<and>
     case_load demo_hash (\<lambda>_ _. 0) (\<lambda>_. replicate 32 0) (dir(''README'' \<mapsto> (True, [1]))) = Inr c"
proof -
  let ?load = "case_load demo_hash (\<lambda>_ _. 0) (\<lambda>_. replicate 32 0)"
  obtain rg where rg: "record_scenario demo_hash VOld demo_capsule = Inr rg" "length (rg_frames rg) = 4"
    using demo_capsule_records by blast
  have len: "length (rg_frames rg) < 2 ^ 64" by (simp add: rg(2))
  obtain files where
    files: "capsule_files demo_hash (\<lambda>_ _. 0) (\<lambda>_. replicate 32 0) (\<lambda>_. ''00'') demo_capsule = Inr files"
    and names: "distinct (map fst files)" "''README'' \<notin> fst ` set files"
    unfolding capsule_files_eq [OF rg(1)] by (simp add: Let_def)
  define dir where "dir = capsule_dir files"
  define dir' where "dir' = dir(''README'' \<mapsto> (True, [1]))"
  have found: "\<forall>f\<in>set files. dir (fst f) = Some (True, snd f)" "\<forall>f\<in>set files. dir' (fst f) = Some (True, snd f)"
    using names by (auto simp: dir_def dir'_def capsule_dir_def intro: rev_image_eqI)
  note loads = capsule_loads_in [OF rg(1) len demo_capsule_plain(2,1,3,4) files]
  obtain c where c: "?load dir = Inr c" "cf_covered c = set REQUIRED_FILES" using loads [OF found(1)] by blast
  obtain c' where c': "?load dir' = Inr c'" using loads [OF found(2)] by blast
  have same: "file_bytes dir n = file_bytes dir' n" if "n \<noteq> ''README''" for n
    using that by (simp add: file_bytes_def read_file_def dir'_def)
  have "cf_case_id c = hash_text demo_hash (file_bytes dir ''MANIFEST.sha256'')"
    "cf_case_id c' = hash_text demo_hash (file_bytes dir' ''MANIFEST.sha256'')"
    by (rule case_load_id [OF c(1)], rule case_load_id [OF c'])
  then have ids: "cf_case_id c = cf_case_id c'" using same [of "''MANIFEST.sha256''"] by simp
  have "file_bytes dir n = file_bytes dir' n" if "n \<in> cf_covered c" for n
    by (rule same) (use that c(2) in \<open>auto simp: REQUIRED_FILES_def\<close>)
  moreover have "file_bytes dir ''MANIFEST.sha256'' = file_bytes dir' ''MANIFEST.sha256''" by (rule same) simp
  ultimately have "c' = c" by (rule conjunct1 [OF case_id_commits [OF c(1) c' ids], rotated])
  then have "?load dir' = Inr c" by (simp only: c')
  with c(1) show ?thesis unfolding dir'_def by blast
qed

end
