(* ===== verification/Capsule_Verifier.thy ===== *)
theory Capsule_Verifier
  imports Bag_Analysis Capsule
begin

text \<open>
  crates/rook-verify/src/main.rs: \<open>rook-verify\<close>, the verifier of a self-contained capsule.  It checks the
  manifest, replays a Wasm capsule through its cell or checks the files of a native one, and its exit
  code says verified, diverged or refused.  A directory is what \<open>symlink_metadata\<close> and \<open>read\<close> give for a
  name; SHA-256, BLAKE3, the compiler of the cell's module and the parsing of a decimal float are
  parameters.  The texts are ASCII.  What the outcomes carry is what is printed of them.
\<close>

subsection \<open>Files and texts\<close>

record capsule_fs =
  fs_is_file :: "string \<Rightarrow> bool option" \<comment> \<open>\<open>symlink_metadata\<close>: \<open>None\<close> is an error\<close>
  fs_read :: "string \<Rightarrow> bytes option"

datatype verifier_error =
    UnreadableFile string
  | MalformedManifest string
  | NameEscapes string
  | MalformedLine string
  | RepeatedKey string
  | MissingKey string
  | UnknownKey string
  | StatesUnparsed
  | NotHex string
  | BagFailed bag_error

definition fs_text :: "capsule_fs \<Rightarrow> string \<Rightarrow> verifier_error + string" where
  "fs_text fs name =
     (case fs_read fs name of
        None \<Rightarrow> Inl (UnreadableFile name)
      | Some bs \<Rightarrow> (case text_of bs of None \<Rightarrow> Inl (UnreadableFile name) | Some t \<Rightarrow> Inr t))"

definition fs_bytes :: "capsule_fs \<Rightarrow> string \<Rightarrow> verifier_error + bytes" where
  "fs_bytes fs name = (case fs_read fs name of None \<Rightarrow> Inl (UnreadableFile name) | Some bs \<Rightarrow> Inr bs)"

definition trim_end :: "string \<Rightarrow> string" where
  "trim_end s = rev (dropWhile is_space (rev s))"

fun key_values_from :: "string list \<Rightarrow> (string, string) btree \<Rightarrow> verifier_error + (string, string) btree" where
  "key_values_from [] values = Inr values"
| "key_values_from (l # ls) values =
     (let line = trim_text l in
      if line = [] \<or> hd line = CHR ''#'' then key_values_from ls values
      else case split_once CHR ''='' line of
        None \<Rightarrow> Inl (MalformedLine line)
      | Some (key, v) \<Rightarrow>
          if map_of values (trim_text key) \<noteq> None then Inl (RepeatedKey (trim_text key))
          else key_values_from ls (bt_insert (trim_text key) (trim_text v) values))"

definition read_key_values :: "capsule_fs \<Rightarrow> string \<Rightarrow> verifier_error + (string, string) btree" where
  "read_key_values fs name =
     (case fs_text fs name of Inl e \<Rightarrow> Inl e | Inr text \<Rightarrow> key_values_from (text_lines text) [])"

record expected =
  xp_bag_run_hash :: string
  xp_bag_output_digest :: string
  xp_heartbeats_recorded_sha256 :: string
  xp_recorded_states :: nat

text \<open>\<open>usize::from_str\<close>.\<close>

definition parse_usize :: "string \<Rightarrow> nat option" where
  "parse_usize s =
     (case parse_digits (case s of c # cs \<Rightarrow> if c = CHR ''+'' then cs else s | [] \<Rightarrow> s) of
        None \<Rightarrow> None
      | Some n \<Rightarrow> if n < 2 ^ 64 then Some n else None)"

text \<open>\<open>values.remove(key)\<close> or the error naming the key.\<close>

definition take_key :: "string \<Rightarrow> (string, string) btree \<Rightarrow> verifier_error + string \<times> (string, string) btree" where
  "take_key key values =
     (case map_of values key of
        None \<Rightarrow> Inl (MissingKey key)
      | Some v \<Rightarrow> Inr (v, filter (\<lambda>(k, _). k \<noteq> key) values))"

definition lower_hex64 :: "string \<Rightarrow> bool" where
  "lower_hex64 v \<longleftrightarrow>
     \<not> (length v \<noteq> 64 \<or>
        \<not> list_all (\<lambda>c. let n = of_char c :: nat in 48 \<le> n \<and> n \<le> 57 \<or> 97 \<le> n \<and> n \<le> 102) v)"

definition expected_of :: "(string, string) btree \<Rightarrow> verifier_error + expected" where
  "expected_of values0 =
     (case take_key ''bag_run_hash'' values0 of
        Inl e \<Rightarrow> Inl e
      | Inr (bag_run_hash, values1) \<Rightarrow>
          (case take_key ''bag_output_digest'' values1 of
             Inl e \<Rightarrow> Inl e
           | Inr (bag_output_digest, values2) \<Rightarrow>
               (case take_key ''heartbeats_recorded_sha256'' values2 of
                  Inl e \<Rightarrow> Inl e
                | Inr (heartbeats_recorded_sha256, values3) \<Rightarrow>
                    (case take_key ''recorded_states'' values3 of
                       Inl e \<Rightarrow> Inl e
                     | Inr (states, values4) \<Rightarrow>
                         (case parse_usize states of
                            None \<Rightarrow> Inl StatesUnparsed
                          | Some recorded_states \<Rightarrow>
                              if values4 \<noteq> [] then Inl (UnknownKey (fst (hd values4)))
                              else (case find (\<lambda>(key, v). \<not> lower_hex64 v)
                                      [(''bag_run_hash'', bag_run_hash),
                                       (''bag_output_digest'', bag_output_digest),
                                       (''heartbeats_recorded_sha256'', heartbeats_recorded_sha256)] of
                                  Some (key, _) \<Rightarrow> Inl (NotHex key)
                                | None \<Rightarrow>
                                    Inr \<lparr>xp_bag_run_hash = bag_run_hash, xp_bag_output_digest = bag_output_digest,
                                         xp_heartbeats_recorded_sha256 = heartbeats_recorded_sha256,
                                         xp_recorded_states = recorded_states\<rparr>))))))"

definition read_expected :: "capsule_fs \<Rightarrow> string \<Rightarrow> verifier_error + expected" where
  "read_expected fs name = (case read_key_values fs name of Inl e \<Rightarrow> Inl e | Inr values \<Rightarrow> expected_of values)"

subsection \<open>The manifest\<close>

datatype manifest_failure =
    NoHeader
  | ListedTwice string
  | ListedMissing string
  | NotRegularFile string
  | Sha256Mismatch string

definition CAPSULE_HEADER :: string where "CAPSULE_HEADER = ''# rook-capsule-v1 kind=''"

definition capsule_kind :: "string \<Rightarrow> string option" where
  "capsule_kind text =
     (case text_lines text of
        [] \<Rightarrow> None
      | line # _ \<Rightarrow>
          (case strip_prefix CAPSULE_HEADER (trim_end line) of
             None \<Rightarrow> None
           | Some kind \<Rightarrow>
               if kind \<noteq> [] \<and> list_all (\<lambda>c. let n = of_char c :: nat in 33 \<le> n \<and> n \<le> 126) kind
               then Some kind else None))"

text \<open>One listed file: an error, a failure that is printed, or the name.\<close>

definition check_listed ::
  "(bytes \<Rightarrow> bytes) \<Rightarrow> capsule_fs \<Rightarrow> string set \<Rightarrow> string \<Rightarrow> verifier_error + (manifest_failure + string)" where
  "check_listed sha fs names line =
     (case split_once_text ''  '' line of
        None \<Rightarrow> Inl (MalformedManifest line)
      | Some (hex, name) \<Rightarrow>
          if CHR ''/'' \<in> set name \<or> CHR 0x5C \<in> set name \<or> split_once_text ''..'' name \<noteq> None
          then Inl (NameEscapes name)
          else if name \<in> names then Inr (Inl (ListedTwice name))
          else (case fs_is_file fs name of
              None \<Rightarrow> Inr (Inl (ListedMissing name))
            | Some is_file \<Rightarrow>
                if \<not> is_file then Inr (Inl (NotRegularFile name))
                else (case fs_read fs name of
                    None \<Rightarrow> Inr (Inl (ListedMissing name))
                  | Some bs \<Rightarrow>
                      if encode_hex (sha bs) \<noteq> hex then Inr (Inl (Sha256Mismatch name)) else Inr (Inr name))))"

fun check_listing ::
  "(bytes \<Rightarrow> bytes) \<Rightarrow> capsule_fs \<Rightarrow> string list \<Rightarrow> string set \<Rightarrow> verifier_error + (manifest_failure + string set)" where
  "check_listing sha fs [] names = Inr (Inr names)"
| "check_listing sha fs (l # ls) names =
     (let line = trim_end l in
      if line = [] \<or> hd line = CHR ''#'' then check_listing sha fs ls names
      else case check_listed sha fs names line of
        Inl e \<Rightarrow> Inl e
      | Inr (Inl failure) \<Rightarrow> Inr (Inl failure)
      | Inr (Inr name) \<Rightarrow> check_listing sha fs ls (insert name names))"

definition verify_manifest ::
  "(bytes \<Rightarrow> bytes) \<Rightarrow> capsule_fs \<Rightarrow> verifier_error + (manifest_failure + string \<times> string set)" where
  "verify_manifest sha fs =
     (case fs_text fs ''MANIFEST.sha256'' of
        Inl e \<Rightarrow> Inl e
      | Inr text \<Rightarrow>
          (case capsule_kind text of
             None \<Rightarrow> Inr (Inl NoHeader)
           | Some kind \<Rightarrow>
               (case check_listing sha fs (text_lines text) {} of
                  Inl e \<Rightarrow> Inl e
                | Inr (Inl failure) \<Rightarrow> Inr (Inl failure)
                | Inr (Inr names) \<Rightarrow> Inr (Inr (kind, names)))))"

subsection \<open>Outcomes\<close>

datatype divergence =
    HeartbeatsSha
  | RunHash string
  | OutputDigest string
  | FirstDivergentTick u64 nat
  | RawRecord string
  | CapturedEffects string
  | RecordedHash string string

datatype outcome =
    ManifestRefused manifest_failure
  | KindUnsupported string
  | NotCovered string
  | WasmDiverged "divergence list"
  | WasmStatesDiffer nat nat
  | WasmVerified
  | IdentityKeyMissing string
  | CaseKeyMissing string
  | ClaimNotMeasured string
  | GradeUnknown string
  | CapturedMalformed
  | EventsNotClosed stream_error
  | NativeDiverged "divergence list"
  | NativeChecked nat nat string \<comment> \<open>frames, gaps, declared grade\<close>

text \<open>Returned by \<open>run\<close>; an error becomes 2 in \<open>main\<close>.\<close>

fun outcome_code :: "outcome \<Rightarrow> int" where
  "outcome_code WasmVerified = 0"
| "outcome_code (WasmDiverged ds) = 1"
| "outcome_code (WasmStatesDiffer n m) = 1"
| "outcome_code (NativeDiverged ds) = 1"
| "outcome_code _ = 2"

definition process_code :: "verifier_error + outcome \<Rightarrow> int" where
  "process_code r = (case r of Inl e \<Rightarrow> 2 | Inr x \<Rightarrow> outcome_code x)"

subsection \<open>A Wasm capsule\<close>

definition first_payload_divergence :: "(u64 \<times> bytes) list \<Rightarrow> (u64 \<times> bytes) list \<Rightarrow> nat option" where
  "first_payload_divergence recorded replayed =
     (let shared = min (length recorded) (length replayed) in
      case find (\<lambda>i. snd (recorded ! i) \<noteq> snd (replayed ! i)) [0..<shared] of
        Some i \<Rightarrow> Some i
      | None \<Rightarrow> if length recorded \<noteq> length replayed then Some shared else None)"

definition bag_result :: "bag_error + 'a \<Rightarrow> verifier_error + 'a" where
  "bag_result r = (case r of Inl e \<Rightarrow> Inl (BagFailed e) | Inr x \<Rightarrow> Inr x)"

text \<open>From the recording and its replay: the divergences in the order they are printed.\<close>

definition wasm_divergences ::
  "(bytes \<Rightarrow> bytes) \<Rightarrow> expected \<Rightarrow> bytes \<Rightarrow> (u64 \<times> bytes) list \<Rightarrow> (u64 \<times> bytes) list \<Rightarrow> replay_hashes \<Rightarrow>
     divergence list" where
  "wasm_divergences sha xp recorded_bytes recorded replayed hashes =
     (if encode_hex (sha recorded_bytes) \<noteq> xp_heartbeats_recorded_sha256 xp then [HeartbeatsSha] else []) @
     (if encode_hex (to_le (run_hash hashes)) \<noteq> xp_bag_run_hash xp
      then [RunHash (encode_hex (to_le (run_hash hashes)))] else []) @
     (if encode_hex (to_le (output_digest hashes)) \<noteq> xp_bag_output_digest xp
      then [OutputDigest (encode_hex (to_le (output_digest hashes)))] else []) @
     (case first_payload_divergence recorded replayed of
        None \<Rightarrow> []
      | Some i \<Rightarrow>
          [FirstDivergentTick (fst (if i < length recorded then recorded ! i else replayed ! i)) i])"

definition wasm_outcome ::
  "(bytes \<Rightarrow> bytes) \<Rightarrow> expected \<Rightarrow> bytes \<Rightarrow> (u64 \<times> bytes) list \<Rightarrow> (u64 \<times> bytes) list \<Rightarrow> replay_hashes \<Rightarrow> outcome" where
  "wasm_outcome sha xp recorded_bytes recorded replayed hashes =
     (let ds = wasm_divergences sha xp recorded_bytes recorded replayed hashes;
          states = length (distinct_states (map snd replayed))
      in if ds \<noteq> [] then WasmDiverged ds
         else if states \<noteq> xp_recorded_states xp then WasmStatesDiffer states (xp_recorded_states xp)
         else WasmVerified)"

definition run_wasm ::
  "hash_fn \<Rightarrow> keyed_fn \<Rightarrow> (bytes \<Rightarrow> bytes) \<Rightarrow> (bytes \<Rightarrow> 'g guest) \<Rightarrow> (string \<Rightarrow> u64 option) \<Rightarrow> capsule_fs \<Rightarrow>
     verifier_error + outcome" where
  "run_wasm h kh sha compile parse_f64 fs =
     (case read_expected fs ''expected'' of
        Inl e \<Rightarrow> Inl e
      | Inr xp \<Rightarrow>
          (case fs_bytes fs ''heartbeats_recorded.bin'' of
             Inl e \<Rightarrow> Inl e
           | Inr recorded_bytes \<Rightarrow>
               (case fs_bytes fs ''deliveries.bin'' of
                  Inl e \<Rightarrow> Inl e
                | Inr deliveries_bytes \<Rightarrow>
                    (case bag_result (read_deliveries deliveries_bytes) of
                       Inl e \<Rightarrow> Inl e
                     | Inr deliveries \<Rightarrow>
                         (case bag_result (read_heartbeats recorded_bytes) of
                            Inl e \<Rightarrow> Inl e
                          | Inr recorded \<Rightarrow>
                              (case fs_text fs ''params'' of
                                 Inl e \<Rightarrow> Inl e
                               | Inr params \<Rightarrow>
                                   (case bag_result (read_min_conflict_angle parse_f64 params) of
                                      Inl e \<Rightarrow> Inl e
                                    | Inr angle \<Rightarrow>
                                        (case fs_bytes fs ''rmf_blockade_cell.wasm'' of
                                           Inl e \<Rightarrow> Inl e
                                         | Inr module_bytes \<Rightarrow>
                                             (case bag_result (bag_replay (compile module_bytes) angle deliveries) of
                                                Inl e \<Rightarrow> Inl e
                                              | Inr replayed \<Rightarrow>
                                                  (case bag_result (bag_hashes h kh deliveries replayed) of
                                                     Inl e \<Rightarrow> Inl e
                                                   | Inr hashes \<Rightarrow>
                                                       Inr (wasm_outcome sha xp recorded_bytes recorded replayed hashes)))))))))))"

subsection \<open>A native capsule\<close>

definition WASM_RMF_BLOCKADE_FILES :: "string list" where
  "WASM_RMF_BLOCKADE_FILES =
     [''expected'', ''deliveries.bin'', ''heartbeats_recorded.bin'', ''params'', ''rmf_blockade_cell.wasm'']"

definition NATIVE_ADAPTER_FILES :: "string list" where
  "NATIVE_ADAPTER_FILES = [''expected'', ''events.bin'', ''effects_captured.bin'', ''identity'', ''case'']"

definition NATIVE_IDENTITY_KEYS :: "string list" where
  "NATIVE_IDENTITY_KEYS =
     [''component'', ''adapter'', ''adapter_protocol'', ''property'', ''property_source_blake3'',
      ''normalization'', ''normalization_source_blake3'', ''starting_state'', ''effect_record_order'',
      ''endpoint.1'']"

definition NATIVE_CASE_KEYS :: "string list" where
  "NATIVE_CASE_KEYS =
     [''corpus'', ''scenario'', ''property'', ''scope.completion'', ''scope.observation_end'',
      ''comparison_policy'']"

text \<open>The records of the captured effects, each a valid effect; \<open>None\<close> is any of its errors.\<close>

function captured_records_from :: "nat \<Rightarrow> nat \<Rightarrow> bytes \<Rightarrow> nat option" where
  "captured_records_from cursor records bs =
     (if \<not> cursor < length bs then Some records
      else case get_range cursor (cursor + 4) bs of
        None \<Rightarrow> None
      | Some header \<Rightarrow>
          let len = unat (from_le header :: u32)
          in if \<not> cursor + 4 + len \<le> length bs then None
             else (case decode_payload (word_of_nat records) (subslice (cursor + 4) (cursor + 4 + len) bs) of
                 Inl _ \<Rightarrow> None
               | Inr (hdr, _) \<Rightarrow>
                   if event_kind (h_event_type hdr) \<noteq> KEmit then None
                   else captured_records_from (cursor + 4 + len) (Suc records) bs))"
  by pat_completeness auto
termination
  by (relation "measure (\<lambda>(cursor, records, bs). length bs - cursor)") auto

declare captured_records_from.simps [simp del]

definition check_captured_records :: "bytes \<Rightarrow> nat option" where
  "check_captured_records bs = captured_records_from 0 0 bs"

definition file_divergences :: "hash_fn \<Rightarrow> (string, string) btree \<Rightarrow> bytes \<Rightarrow> bytes \<Rightarrow> divergence list" where
  "file_divergences h expected events captured =
     (let raw = encode_hex (to_le (raw_record_hash h events));
          captured_hex = encode_hex (to_le (raw_record_hash h captured))
      in (if Some raw \<noteq> map_of expected ''raw_record_blake3'' then [RawRecord raw] else []) @
         (if Some captured_hex \<noteq> map_of expected ''effects_captured_blake3'' then [CapturedEffects captured_hex] else []))"

definition hash_divergences :: "(string, string) btree \<Rightarrow> native_hashes \<Rightarrow> divergence list" where
  "hash_divergences expected hashes =
     List.map_filter (\<lambda>(key, actual).
         if Some (encode_hex (to_le actual)) \<noteq> map_of expected key
         then Some (RecordedHash key (encode_hex (to_le actual))) else None)
       [(''trace_hash'', n_trace_hash hashes), (''run_hash'', n_run_hash hashes),
        (''output_digest'', n_output_digest hashes)]"

definition NATIVE_EXPECTED_KEYS :: "string list" where
  "NATIVE_EXPECTED_KEYS =
     [''raw_record_blake3'', ''effects_captured_blake3'', ''trace_hash'', ''run_hash'', ''output_digest'',
      ''grade'', ''claim'']"

definition lacks :: "(string, string) btree \<Rightarrow> string \<Rightarrow> bool" where
  "lacks m key \<longleftrightarrow> map_of m key = None"

definition native_declared ::
  "(string, string) btree \<Rightarrow> (string, string) btree \<Rightarrow> (string, string) btree \<Rightarrow> outcome option" where
  "native_declared expected identity caze =
     (let grade = the (map_of expected ''grade''); claim = the (map_of expected ''claim'') in
      case find (lacks identity) NATIVE_IDENTITY_KEYS of
        Some key \<Rightarrow> Some (IdentityKeyMissing key)
      | None \<Rightarrow>
          (case find (lacks caze) NATIVE_CASE_KEYS of
             Some key \<Rightarrow> Some (CaseKeyMissing key)
           | None \<Rightarrow>
               if claim \<noteq> ''measured'' then Some (ClaimNotMeasured claim)
               else if grade \<notin> {''Complete'', ''Rebuilt'', ''Inferred'', ''Watch-only''} then Some (GradeUnknown grade)
               else None))"

definition native_files ::
  "hash_fn \<Rightarrow> keyed_fn \<Rightarrow> (string, string) btree \<Rightarrow> bytes \<Rightarrow> bytes \<Rightarrow> bytes \<Rightarrow> outcome" where
  "native_files h kh expected corpus events captured =
     (case check_captured_records captured of
        None \<Rightarrow> CapturedMalformed
      | Some _ \<Rightarrow>
          (case decode_stream h events of
             Inl e \<Rightarrow> EventsNotClosed e
           | Inr frames \<Rightarrow>
               let ds = file_divergences h expected events captured @
                     hash_divergences expected (hash_frames h kh corpus frames)
               in if ds \<noteq> [] then NativeDiverged ds
                  else NativeChecked (length frames) (length (filter (\<lambda>f. f_event_type f = EvGap) frames))
                    (the (map_of expected ''grade''))))"

definition run_native :: "hash_fn \<Rightarrow> keyed_fn \<Rightarrow> capsule_fs \<Rightarrow> verifier_error + outcome" where
  "run_native h kh fs =
     (case read_key_values fs ''expected'' of
        Inl e \<Rightarrow> Inl e
      | Inr expected \<Rightarrow>
          (case read_key_values fs ''case'' of
             Inl e \<Rightarrow> Inl e
           | Inr caze \<Rightarrow>
               (case find (lacks expected) NATIVE_EXPECTED_KEYS of
                  Some key \<Rightarrow> Inl (MissingKey key)
                | None \<Rightarrow>
                    (case read_key_values fs ''identity'' of
                       Inl e \<Rightarrow> Inl e
                     | Inr identity \<Rightarrow>
                         (case native_declared expected identity caze of
                            Some refusal \<Rightarrow> Inr refusal
                          | None \<Rightarrow>
                              (case fs_bytes fs ''events.bin'' of
                                 Inl e \<Rightarrow> Inl e
                               | Inr events \<Rightarrow>
                                   (case fs_bytes fs ''effects_captured.bin'' of
                                      Inl e \<Rightarrow> Inl e
                                    | Inr captured \<Rightarrow>
                                        Inr (native_files h kh expected (ascii (the (map_of caze ''corpus'')))
                                          events captured))))))))"

subsection \<open>The program\<close>

definition run_capsule ::
  "hash_fn \<Rightarrow> keyed_fn \<Rightarrow> (bytes \<Rightarrow> bytes) \<Rightarrow> (bytes \<Rightarrow> 'g guest) \<Rightarrow> (string \<Rightarrow> u64 option) \<Rightarrow> capsule_fs \<Rightarrow>
     verifier_error + outcome" where
  "run_capsule h kh sha compile parse_f64 fs =
     (case verify_manifest sha fs of
        Inl e \<Rightarrow> Inl e
      | Inr (Inl failure) \<Rightarrow> Inr (ManifestRefused failure)
      | Inr (Inr (kind, names)) \<Rightarrow>
          if kind \<notin> {''wasm-rmf-blockade'', ''native-adapter''} then Inr (KindUnsupported kind)
          else (case find (\<lambda>name. name \<notin> names)
                  (if kind = ''wasm-rmf-blockade'' then WASM_RMF_BLOCKADE_FILES else NATIVE_ADAPTER_FILES) of
              Some name \<Rightarrow> Inr (NotCovered name)
            | None \<Rightarrow>
                if kind = ''native-adapter'' then run_native h kh fs
                else run_wasm h kh sha compile parse_f64 fs))"

datatype verifier_run = PrintedVersion | PrintedUsage | Ran "verifier_error + outcome"

text \<open>\<open>main\<close> on arguments that are text: what it did and its exit status.\<close>

definition verifier_main ::
  "hash_fn \<Rightarrow> keyed_fn \<Rightarrow> (bytes \<Rightarrow> bytes) \<Rightarrow> (bytes \<Rightarrow> 'g guest) \<Rightarrow> (string \<Rightarrow> u64 option) \<Rightarrow>
     (string \<Rightarrow> capsule_fs) \<Rightarrow> string list \<Rightarrow> verifier_run \<times> int" where
  "verifier_main h kh sha compile parse_f64 directory args =
     (case args of
        [dir] \<Rightarrow>
          if dir = ''--version'' then (PrintedVersion, 0)
          else if strip_prefix ''-'' dir = None
          then let r = run_capsule h kh sha compile parse_f64 (directory dir) in (Ran r, process_code r)
          else (PrintedUsage, 2)
      | _ \<Rightarrow> (PrintedUsage, 2))"

section \<open>What the exit codes mean\<close>

lemma first_payload_divergence_None:
  "first_payload_divergence recorded replayed = None \<longleftrightarrow> map snd recorded = map snd replayed"
proof -
  have "first_payload_divergence recorded replayed = None \<longleftrightarrow>
      length recorded = length replayed \<and> (\<forall>i < length recorded. snd (recorded ! i) = snd (replayed ! i))"
    by (auto simp: first_payload_divergence_def Let_def find_None_iff split: option.splits simp: find_Some_iff)
  then show ?thesis by (auto simp: list_eq_iff_nth_eq)
qed

lemma wasm_divergences_Nil:
  "wasm_divergences sha xp bs recorded replayed hashes = [] \<longleftrightarrow>
     encode_hex (sha bs) = xp_heartbeats_recorded_sha256 xp \<and>
     encode_hex (to_le (run_hash hashes)) = xp_bag_run_hash xp \<and>
     encode_hex (to_le (output_digest hashes)) = xp_bag_output_digest xp \<and>
     map snd recorded = map snd replayed"
  unfolding first_payload_divergence_None [symmetric]
  by (auto simp: wasm_divergences_def split: option.splits)

lemma wasm_outcome_Verified:
  "wasm_outcome sha xp bs recorded replayed hashes = WasmVerified \<longleftrightarrow>
     encode_hex (sha bs) = xp_heartbeats_recorded_sha256 xp \<and>
     encode_hex (to_le (run_hash hashes)) = xp_bag_run_hash xp \<and>
     encode_hex (to_le (output_digest hashes)) = xp_bag_output_digest xp \<and>
     map snd recorded = map snd replayed \<and> length (distinct_states (map snd recorded)) = xp_recorded_states xp"
  unfolding wasm_outcome_def Let_def wasm_divergences_Nil [symmetric]
  by (auto simp: wasm_divergences_Nil)

lemma outcome_code_zero: "process_code r = 0 \<longleftrightarrow> r = Inr WasmVerified"
proof (cases r)
  case (Inr x)
  then show ?thesis by (cases x) (simp_all add: process_code_def)
qed (simp add: process_code_def)

lemma outcome_code_range: "process_code r \<in> {0, 1, 2}"
proof (cases r)
  case (Inr x)
  then show ?thesis by (cases x) (simp_all add: process_code_def)
qed (simp add: process_code_def)

lemma bag_result_Inr [simp]: "bag_result r = Inr x \<longleftrightarrow> r = Inr x"
  by (simp add: bag_result_def split: sum.splits)

lemma fs_bytes_Inr [simp]: "fs_bytes fs name = Inr bs \<longleftrightarrow> fs_read fs name = Some bs"
  by (simp add: fs_bytes_def split: option.splits)

lemma covered_None: "find (\<lambda>name. name \<notin> names) files = None \<longleftrightarrow> set files \<subseteq> names"
  by (auto simp: find_None_iff)

text \<open>The parts of a Wasm capsule that runs to a verdict.\<close>

definition wasm_parts ::
  "hash_fn \<Rightarrow> keyed_fn \<Rightarrow> (bytes \<Rightarrow> 'g guest) \<Rightarrow> (string \<Rightarrow> u64 option) \<Rightarrow> capsule_fs \<Rightarrow> expected \<Rightarrow> bytes \<Rightarrow>
     bag_delivery list \<Rightarrow> (u64 \<times> bytes) list \<Rightarrow> (u64 \<times> bytes) list \<Rightarrow> replay_hashes \<Rightarrow> bool" where
  "wasm_parts h kh compile parse_f64 fs xp recorded_bytes deliveries recorded replayed hashes \<longleftrightarrow>
     read_expected fs ''expected'' = Inr xp \<and> fs_read fs ''heartbeats_recorded.bin'' = Some recorded_bytes \<and>
     read_heartbeats recorded_bytes = Inr recorded \<and>
     (\<exists>bs. fs_read fs ''deliveries.bin'' = Some bs \<and> read_deliveries bs = Inr deliveries) \<and>
     (\<exists>params angle module_bytes. fs_text fs ''params'' = Inr params \<and>
        read_min_conflict_angle parse_f64 params = Inr angle \<and>
        fs_read fs ''rmf_blockade_cell.wasm'' = Some module_bytes \<and>
        bag_replay (compile module_bytes) angle deliveries = Inr replayed) \<and>
     bag_hashes h kh deliveries replayed = Inr hashes"

lemma run_wasm_Inr:
  "run_wasm h kh sha compile parse_f64 fs = Inr x \<longleftrightarrow>
     (\<exists>xp bs deliveries recorded replayed hashes.
        wasm_parts h kh compile parse_f64 fs xp bs deliveries recorded replayed hashes \<and>
        x = wasm_outcome sha xp bs recorded replayed hashes)"
  unfolding run_wasm_def try_Inr wasm_parts_def by auto

text \<open>What is accepted of the manifest.\<close>

definition native_parts ::
  "capsule_fs \<Rightarrow> (string, string) btree \<Rightarrow> (string, string) btree \<Rightarrow> (string, string) btree \<Rightarrow> bool" where
  "native_parts fs expected identity caze \<longleftrightarrow>
     read_key_values fs ''expected'' = Inr expected \<and> read_key_values fs ''case'' = Inr caze \<and>
     read_key_values fs ''identity'' = Inr identity \<and>
     list_all (\<lambda>key. map_of expected key \<noteq> None) NATIVE_EXPECTED_KEYS"

lemma run_native_Inr:
  "run_native h kh fs = Inr x \<longleftrightarrow>
     (\<exists>expected identity caze. native_parts fs expected identity caze \<and>
        (native_declared expected identity caze = Some x \<or>
         native_declared expected identity caze = None \<and>
           (\<exists>events captured. fs_read fs ''events.bin'' = Some events \<and>
             fs_read fs ''effects_captured.bin'' = Some captured \<and>
             native_files h kh expected (ascii (the (map_of caze ''corpus''))) events captured = x)))"
proof -
  have keys: "(case find (lacks expected) NATIVE_EXPECTED_KEYS of Some key \<Rightarrow> Inl (MissingKey key) | None \<Rightarrow> r) = Inr x \<longleftrightarrow>
      list_all (\<lambda>key. map_of expected key \<noteq> None) NATIVE_EXPECTED_KEYS \<and> r = Inr x" for expected r
  proof (cases "find (lacks expected) NATIVE_EXPECTED_KEYS")
    case None
    then have "list_all (\<lambda>key. map_of expected key \<noteq> None) NATIVE_EXPECTED_KEYS"
      by (auto simp: find_None_iff list_all_iff lacks_def)
    then show ?thesis unfolding None by simp
  next
    case (Some key)
    then have "key \<in> set NATIVE_EXPECTED_KEYS \<and> map_of expected key = None"
      by (auto simp: find_Some_iff lacks_def)
    then have "\<not> list_all (\<lambda>key. map_of expected key \<noteq> None) NATIVE_EXPECTED_KEYS"
      unfolding list_all_iff by blast
    then show ?thesis unfolding Some by simp
  qed
  have opt: "(case d of Some refusal \<Rightarrow> Inr refusal | None \<Rightarrow> r) = Inr x \<longleftrightarrow>
      d = Some x \<or> d = None \<and> r = Inr x" for d and r :: "verifier_error + outcome"
    by (auto split: option.splits)
  show ?thesis
    unfolding run_native_def try_Inr keys opt native_parts_def fs_bytes_Inr sum.inject by blast
qed

lemma native_declared_code: "native_declared expected identity caze = Some x \<Longrightarrow> outcome_code x = 2"
  by (auto simp: native_declared_def Let_def split: option.splits if_splits)

text \<open>The hashes a native capsule's files do not have.\<close>

definition native_differences ::
  "hash_fn \<Rightarrow> keyed_fn \<Rightarrow> (string, string) btree \<Rightarrow> bytes \<Rightarrow> bytes \<Rightarrow> bytes \<Rightarrow> frame list \<Rightarrow> divergence list" where
  "native_differences h kh expected corpus events captured frames =
     file_divergences h expected events captured @ hash_divergences expected (hash_frames h kh corpus frames)"

lemma native_files_code:
  "outcome_code (native_files h kh expected corpus events captured) =
     (if \<exists>frames. check_captured_records captured \<noteq> None \<and> decode_stream h events = Inr frames \<and>
         native_differences h kh expected corpus events captured frames \<noteq> []
      then 1 else 2)"
  by (auto simp: native_files_def native_differences_def Let_def split: option.split sum.split)

lemma native_never_zero: "process_code (run_native h kh fs) \<noteq> 0"
proof -
  have "outcome_code x \<noteq> 0" if "run_native h kh fs = Inr x" for x
  proof -
    have files: "outcome_code (native_files h kh e corpus events captured) \<noteq> 0" for e corpus events captured
      by (simp add: native_files_code)
    from that obtain e i c events captured corpus where
      "native_declared e i c = Some x \<or> native_files h kh e corpus events captured = x"
      unfolding run_native_Inr by blast
    then show ?thesis using files native_declared_code [of e i c x] by auto
  qed
  then show ?thesis by (auto simp: process_code_def split: sum.split)
qed

lemma run_capsule_verified:
  "run_capsule h kh sha compile parse_f64 fs = Inr WasmVerified \<longleftrightarrow>
     (\<exists>names. verify_manifest sha fs = Inr (Inr (''wasm-rmf-blockade'', names)) \<and>
        set WASM_RMF_BLOCKADE_FILES \<subseteq> names \<and> run_wasm h kh sha compile parse_f64 fs = Inr WasmVerified)"
proof -
  have "run_native h kh fs \<noteq> Inr WasmVerified"
    using native_never_zero [of h kh fs] by (simp add: outcome_code_zero)
  then have "run_capsule h kh sha compile parse_f64 fs = Inr WasmVerified \<longleftrightarrow>
      (\<exists>names. verify_manifest sha fs = Inr (Inr (''wasm-rmf-blockade'', names)) \<and>
        find (\<lambda>name. name \<notin> names) WASM_RMF_BLOCKADE_FILES = None \<and>
        run_wasm h kh sha compile parse_f64 fs = Inr WasmVerified)"
    by (auto simp: run_capsule_def split: sum.splits option.splits)
  then show ?thesis unfolding covered_None .
qed

lemma verified_iff:
  "process_code (run_capsule h kh sha compile parse_f64 fs) = 0 \<longleftrightarrow>
     (\<exists>names xp bs deliveries recorded replayed hashes.
        verify_manifest sha fs = Inr (Inr (''wasm-rmf-blockade'', names)) \<and>
        set WASM_RMF_BLOCKADE_FILES \<subseteq> names \<and>
        wasm_parts h kh compile parse_f64 fs xp bs deliveries recorded replayed hashes \<and>
        map snd recorded = map snd replayed \<and>
        encode_hex (to_le (run_hash hashes)) = xp_bag_run_hash xp \<and>
        encode_hex (to_le (output_digest hashes)) = xp_bag_output_digest xp \<and>
        encode_hex (sha bs) = xp_heartbeats_recorded_sha256 xp \<and>
        length (distinct_states (map snd recorded)) = xp_recorded_states xp)"
proof -
  have "Inr WasmVerified = (Inr x :: verifier_error + outcome) \<longleftrightarrow> WasmVerified = x" for x by simp
  then show ?thesis
    unfolding outcome_code_zero run_capsule_verified run_wasm_Inr
      eq_commute [of WasmVerified "wasm_outcome _ _ _ _ _ _"] wasm_outcome_Verified
    by blast
qed

subsection \<open>The manifest\<close>

lemma check_listed_name:
  assumes "check_listed sha fs names line = Inr (Inr name)"
  shows "\<exists>hex bs. split_once_text ''  '' line = Some (hex, name) \<and> name \<notin> names \<and> fs_is_file fs name = Some True \<and>
    fs_read fs name = Some bs \<and> encode_hex (sha bs) = hex \<and>
    \<not> (CHR ''/'' \<in> set name \<or> CHR 0x5C \<in> set name \<or> split_once_text ''..'' name \<noteq> None)"
  using assms by (auto simp: check_listed_def split: option.splits if_splits prod.splits)

lemma check_listing_same:
  "check_listing sha fs ls names = Inr (Inr A) \<Longrightarrow> check_listing sha fs' ls names = Inr (Inr A') \<Longrightarrow>
   A = A' \<and> (\<forall>name\<in>A - names. \<exists>bs bs'. fs_read fs name = Some bs \<and> fs_read fs' name = Some bs' \<and>
     encode_hex (sha bs) = encode_hex (sha bs'))"
proof (induction sha fs ls names arbitrary: fs' rule: check_listing.induct)
  case (2 sha fs l ls names)
  let ?line = "trim_end l"
  show ?case
  proof (cases "?line = [] \<or> hd ?line = CHR ''#''")
    case True
    with 2(1) [OF refl True] 2(3,4) show ?thesis by (simp add: Let_def)
  next
    case False
    from 2(3) False obtain name where n: "check_listed sha fs names ?line = Inr (Inr name)"
      and r: "check_listing sha fs ls (insert name names) = Inr (Inr A)"
      by (auto simp: Let_def split: sum.splits)
    from 2(4) False obtain name' where n': "check_listed sha fs' names ?line = Inr (Inr name')"
      and r': "check_listing sha fs' ls (insert name' names) = Inr (Inr A')"
      by (auto simp: Let_def split: sum.splits)
    from check_listed_name [OF n] check_listed_name [OF n'] obtain bs bs' where
      same: "name' = name" "fs_read fs name = Some bs" "fs_read fs' name = Some bs'"
      "encode_hex (sha bs) = encode_hex (sha bs')" by auto
    from 2(2) [OF refl False n refl r [unfolded same(1)]] r' same show ?thesis by auto
  qed
qed simp

text \<open>A name is accepted once, as a regular file in the directory.\<close>

lemma verify_manifest_names:
  assumes "verify_manifest sha fs = Inr (Inr (kind, names))" and "verify_manifest sha fs' = Inr (Inr (kind', names'))"
    and "fs_read fs ''MANIFEST.sha256'' = fs_read fs' ''MANIFEST.sha256''"
  shows "kind = kind' \<and> names = names' \<and>
    (\<forall>name\<in>names. \<exists>bs bs'. fs_read fs name = Some bs \<and> fs_read fs' name = Some bs' \<and> sha bs = sha bs')"
proof -
  have same: "fs_text fs ''MANIFEST.sha256'' = fs_text fs' ''MANIFEST.sha256''" using assms(3) by (simp add: fs_text_def)
  from assms(1) obtain t where t: "fs_text fs ''MANIFEST.sha256'' = Inr t" "capsule_kind t = Some kind"
    "check_listing sha fs (text_lines t) {} = Inr (Inr names)"
    by (auto simp: verify_manifest_def split: sum.splits option.splits)
  from assms(2) t(1) have t': "capsule_kind t = Some kind'" "check_listing sha fs' (text_lines t) {} = Inr (Inr names')"
    by (auto simp: verify_manifest_def same [symmetric] split: sum.splits option.splits)
  have hex: "encode_hex a = encode_hex b \<longleftrightarrow> a = b" for a b by (metis decode_encode_hex option.inject)
  from check_listing_same [OF t(3) t'(2)] t(2) t'(1) show ?thesis unfolding hex by auto
qed

subsection \<open>A case that loads is checked\<close>

text \<open>What the loader reads as keys and values, this reader reads too.\<close>

lemma key_values_of_values:
  "values_lines (filter (\<lambda>l. l \<noteq> [] \<and> hd l \<noteq> CHR ''#'') (map trim_text ls)) m = Inr m' \<Longrightarrow>
     key_values_from ls m = Inr m'"
proof (induction ls arbitrary: m)
  case (Cons l ls)
  show ?case
  proof (cases "trim_text l = [] \<or> hd (trim_text l) = CHR ''#''")
    case True
    with Cons show ?thesis by (auto simp: Let_def)
  next
    case False
    with Cons.prems obtain key v where
      kv: "split_once CHR ''='' (trim_text l) = Some (key, v)" "map_of m (trim_text key) = None"
      and rest: "values_lines (filter (\<lambda>l. l \<noteq> [] \<and> hd l \<noteq> CHR ''#'') (map trim_text ls))
        (bt_insert (trim_text key) (trim_text v) m) = Inr m'"
      by (auto split: option.splits if_splits prod.splits)
    from False kv Cons.IH [OF rest] show ?thesis by (simp add: Let_def)
  qed
qed simp

lemma read_key_values_of:
  assumes "read_values dir name = Inr m" and "fs_read fs name = read_file dir name"
  shows "read_key_values fs name = Inr m"
  using assms key_values_of_values
  by (auto simp: read_values_def read_text_def read_key_values_def fs_text_def values_of_def split: option.splits)

text \<open>What is decoded as captured effects and is the emits of a stream, is records of effects.\<close>

lemma captured_records_decoded:
  "decode_captured_from cursor bs = Inr ps \<Longrightarrow>
   \<forall>p\<in>set ps. \<exists>hdr body. (\<forall>n. decode_payload n p = Inr (hdr, body)) \<and> event_kind (h_event_type hdr) = KEmit \<Longrightarrow>
   captured_records_from cursor records bs = Some (records + length ps)"
proof (induction cursor bs arbitrary: ps records rule: decode_captured_from.induct)
  case (1 cursor bs)
  show ?case
  proof (cases "cursor < length bs")
    case False
    with 1(2) show ?thesis by (simp add: decode_captured_from.simps captured_records_from.simps)
  next
    case True
    from 1(2) True obtain hdr p qs where
      hdr: "get_range cursor (cursor + 4) bs = Some hdr"
      and p: "get_range (cursor + 4) (cursor + 4 + unat (from_le hdr :: u32)) bs = Some p"
      and qs: "decode_captured_from (cursor + 4 + unat (from_le hdr :: u32)) bs = Inr qs" and ps: "ps = p # qs"
      by (auto simp: decode_captured_from.simps [of cursor] Let_def split: option.splits if_splits sum.splits)
    from p have sub: "cursor + 4 + unat (from_le hdr :: u32) \<le> length bs"
      "subslice (cursor + 4) (cursor + 4 + unat (from_le hdr :: u32)) bs = p"
      by (simp_all add: get_range_def split: if_splits)
    from 1(3) ps obtain eh body where dec: "\<forall>n. decode_payload n p = Inr (eh, body)" "event_kind (h_event_type eh) = KEmit"
      by auto
    have "captured_records_from (cursor + 4 + unat (from_le hdr :: u32)) (Suc records) bs = Some (Suc records + length qs)"
      by (rule 1(1) [OF _ hdr refl p qs]) (use True 1(3) ps in auto)
    then show ?thesis
      by (subst captured_records_from.simps) (simp add: True hdr Let_def sub dec ps)
  qed
qed

lemma stream_run_wf: "stream_run st fs st' \<Longrightarrow> \<forall>f\<in>set fs. wf_frame f"
  by (induction rule: stream_run.induct) auto

lemma decoded_payloads:
  assumes "decode_stream h events = Inr frames" and "f \<in> set frames"
  shows "decode_payload n (payload f) = Inr (f_header f, f_body f)"
proof -
  have "wf_frame f" using assms stream_run_wf unfolding decode_stream_Inr by blast
  then show ?thesis unfolding wf_frame_def payload_def by (intro decode_payload_encode) simp_all
qed

lemma check_captured_records_of:
  assumes "check_captured captured frames = Inr ()" and "decode_stream h events = Inr frames"
  shows "check_captured_records captured \<noteq> None"
proof -
  from assms(1) have "decode_captured_from 0 captured = Inr (map payload (filter is_emit frames))"
    by (auto simp: check_captured_def decode_captured_def split: sum.splits if_splits)
  then have "captured_records_from 0 0 captured = Some (0 + length (map payload (filter is_emit frames)))"
    by (rule captured_records_decoded)
      (auto simp: is_emit_def frame_kind_def decoded_payloads [OF assms(2)])
  then show ?thesis by (simp add: check_captured_records_def)
qed

text \<open>The manifest's names: the loader keeps a trailing space of a name, this one trims it.\<close>

lemma trim_end_prefix: "\<exists>sp. s = trim_end s @ sp \<and> (\<forall>c\<in>set sp. is_space c)"
proof -
  have "s = rev (takeWhile is_space (rev s) @ dropWhile is_space (rev s))" by simp
  then have "s = trim_end s @ rev (takeWhile is_space (rev s))" unfolding trim_end_def rev_append by simp
  moreover have "\<forall>c\<in>set (rev (takeWhile is_space (rev s))). is_space c" by (auto dest: set_takeWhileD)
  ultimately show ?thesis by blast
qed

lemma trim_end_id: "s \<noteq> [] \<Longrightarrow> \<not> is_space (last s) \<Longrightarrow> trim_end s = s"
  by (cases s rule: rev_cases) (simp_all add: trim_end_def)

lemma trim_end_Nil: "trim_end s = [] \<longleftrightarrow> trim_text s = []"
proof -
  have "trim_end s = [] \<longleftrightarrow> (\<forall>c\<in>set s. is_space c)"
    by (auto simp: trim_end_def)
  moreover have "trim_text s = [] \<longleftrightarrow> (\<forall>c\<in>set s. is_space c)"
    by (auto simp: trim_text_def dest: set_dropWhileD)
       (metis dropWhile_eq_Nil_conv hd_dropWhile hd_in_set)
  ultimately show ?thesis by simp
qed

lemma trim_end_hd: "trim_end s \<noteq> [] \<Longrightarrow> hd (trim_end s) = hd s"
  using trim_end_prefix [of s] by (metis hd_append2)

lemma split_once_text_Some: "split_once_text sep s = Some (a, b) \<Longrightarrow> s = a @ sep @ b"
proof (induction s arbitrary: a)
  case (Cons c cs)
  then show ?case by (auto simp: strip_prefix_Some split: option.splits prod.splits simp del: strip_prefix.simps)
qed (simp split: if_splits)

lemma check_listing_grows: "check_listing sha fs ls names = Inr (Inr A) \<Longrightarrow> names \<subseteq> A"
  by (induction sha fs ls names rule: check_listing.induct) (auto simp: Let_def split: if_splits sum.splits)

lemma listed_names:
  assumes "manifest_lines sha dir (filter (\<lambda>l. trim_text l \<noteq> [] \<and> hd l \<noteq> CHR ''#'') ls) covered = Inr C"
    and "check_listing sha fs ls names = Inr (Inr A)"
    and "n \<in> C" and "n \<notin> covered" and "n \<noteq> []" and "\<not> is_space (last n)"
  shows "n \<in> A"
  using assms(1-4)
proof (induction ls arbitrary: covered names)
  case (Cons l ls)
  let ?line = "trim_end l"
  show ?case
  proof (cases "?line = [] \<or> hd ?line = CHR ''#''")
    case True
    then have "\<not> (trim_text l \<noteq> [] \<and> hd l \<noteq> CHR ''#'')" using trim_end_Nil trim_end_hd by metis
    with Cons True show ?thesis by (simp add: Let_def)
  next
    case False
    then have "trim_text l \<noteq> []" "hd l \<noteq> CHR ''#''" using trim_end_Nil trim_end_hd by metis+
    with Cons.prems(1) obtain m where m: "manifest_line sha dir covered l = Inr m"
      "manifest_lines sha dir (filter (\<lambda>l. trim_text l \<noteq> [] \<and> hd l \<noteq> CHR ''#'') ls) (insert m covered) = Inr C"
      by (auto split: sum.splits)
    from Cons.prems(2) False obtain name where name: "check_listed sha fs names ?line = Inr (Inr name)"
      and rest: "check_listing sha fs ls (insert name names) = Inr (Inr A)"
      by (auto simp: Let_def split: sum.splits)
    show ?thesis
    proof (cases "n = m")
      case True
      from manifest_line_Inr [OF m(1)] obtain digest where d: "split_once_text ''  '' l = Some (digest, m)" by blast
      from split_once_text_Some [OF d] have "last l = last n" "l \<noteq> []" using True assms(5) by auto
      then have "?line = l" using assms(6) by (intro trim_end_id) simp_all
      with check_listed_name [OF name] d True have "name = n" by auto
      then show ?thesis using check_listing_grows [OF rest] by blast
    next
      case False
      then show ?thesis using Cons.IH [OF m(2) rest Cons.prems(3)] Cons.prems(4) by simp
    qed
  qed
qed simp

lemma manifests_agree:
  assumes "check_manifest sha dir t = Inr C" and "capsule_kind t = Some kind"
    and "check_listing sha fs (text_lines t) {} = Inr (Inr names)"
  shows "kind = ''native-adapter'' \<and> set NATIVE_ADAPTER_FILES \<subseteq> names"
proof -
  from assms(1) obtain ls where ls: "text_lines t = (MANIFEST_PREFIX @ ''native-adapter'') # ls"
    by (auto simp: check_manifest_def strip_prefix_Some split: list.splits option.splits if_splits)
  let ?first = "MANIFEST_PREFIX @ ''native-adapter''"
  have first: "trim_end ?first = ?first" "hd ?first = CHR ''#''" "?first \<noteq> []"
    by (simp_all add: MANIFEST_PREFIX_def trim_end_def is_space_def)
  have "strip_prefix CAPSULE_HEADER ?first = Some ''native-adapter''"
    unfolding strip_prefix_Some by (simp add: CAPSULE_HEADER_def MANIFEST_PREFIX_def)
  then have kind: "kind = ''native-adapter''"
    using assms(2) unfolding capsule_kind_def ls list.case first(1) by (simp split: if_splits)
  from check_manifest_Inr [OF assms(1)] have C:
    "manifest_lines sha dir (filter (\<lambda>l. trim_text l \<noteq> [] \<and> hd l \<noteq> CHR ''#'') ls) {} = Inr C"
    "set REQUIRED_FILES \<subseteq> C" by (simp_all add: ls)
  have rest: "check_listing sha fs ls {} = Inr (Inr names)"
    using assms(3) unfolding ls check_listing.simps Let_def first(1) by (simp only: first(2) simp_thms if_True)
  have "set NATIVE_ADAPTER_FILES = set REQUIRED_FILES"
    by (auto simp: NATIVE_ADAPTER_FILES_def REQUIRED_FILES_def)
  moreover have "n \<noteq> [] \<and> \<not> is_space (last n)" if "n \<in> set REQUIRED_FILES" for n
    using that by (auto simp: REQUIRED_FILES_def is_space_def)
  ultimately have "set NATIVE_ADAPTER_FILES \<subseteq> names"
    using listed_names [OF C(1) rest] C(2) by blast
  with kind show ?thesis ..
qed

lemma loaded_declarations:
  assumes "case_load h kh sha dir = Inr c"
  shows "list_all (\<lambda>key. map_of (cf_declaration c) key \<noteq> None) NATIVE_CASE_KEYS"
    and "list_all (\<lambda>key. map_of (cf_identity c) key \<noteq> None) (filter (\<lambda>k. k \<notin> {''effect_record_order'', ''endpoint.1''}) NATIVE_IDENTITY_KEYS)"
    and "map_of (cf_expected c) ''claim'' = Some ''measured''"
    and "\<exists>grade. map_of (cf_expected c) ''grade'' = Some grade \<and> grade \<in> {''Complete'', ''Rebuilt'', ''Inferred'', ''Watch-only''}"
proof -
  from case_load_Inr [OF assms] have "check_declarations (cf_declaration c) (cf_identity c) (cf_expected c) = Inr ()" by blast
  note all = this [unfolded check_declarations_def check_each_Inr]
  have "has_entry (cf_declaration c) key = Inr ()" if "key \<in> set DECLARATION_KEYS" for key
    using all [THEN bspec, of "has_entry (cf_declaration c) key"] that by simp
  then have D1: "\<forall>key\<in>set DECLARATION_KEYS. map_of (cf_declaration c) key \<noteq> None" by simp
  have "has_entry (cf_identity c) key = Inr ()" if "key \<in> set IDENTITY_KEYS" for key
    using all [THEN bspec, of "has_entry (cf_identity c) key"] that by simp
  then have D2: "\<forall>key\<in>set IDENTITY_KEYS. map_of (cf_identity c) key \<noteq> None" by simp
  have D3: "entry_is (cf_expected c) ''claim'' (\<lambda>v. v = ''measured'') NotMeasured = Inr ()"
    using all by (simp del: entry_is_Inr)
  have D4: "entry_is (cf_expected c) ''grade'' (\<lambda>v. v \<in> set [''Complete'', ''Rebuilt'', ''Inferred'', ''Watch-only'']) UnknownGrade = Inr ()"
    using all [THEN bspec, of "entry_is (cf_expected c) ''grade'' (\<lambda>v. v \<in> set [''Complete'', ''Rebuilt'', ''Inferred'', ''Watch-only'']) UnknownGrade"]
    by (simp del: entry_is_Inr)
  note D = D1 D2 D3 D4
  show "list_all (\<lambda>key. map_of (cf_declaration c) key \<noteq> None) NATIVE_CASE_KEYS"
    using D(1) by (simp add: DECLARATION_KEYS_def NATIVE_CASE_KEYS_def)
  show "list_all (\<lambda>key. map_of (cf_identity c) key \<noteq> None) (filter (\<lambda>k. k \<notin> {''effect_record_order'', ''endpoint.1''}) NATIVE_IDENTITY_KEYS)"
    using D(2) by (simp add: IDENTITY_KEYS_def NATIVE_IDENTITY_KEYS_def)
  show "map_of (cf_expected c) ''claim'' = Some ''measured''"
    and "\<exists>grade. map_of (cf_expected c) ''grade'' = Some grade \<and> grade \<in> {''Complete'', ''Rebuilt'', ''Inferred'', ''Watch-only''}"
    using D(3,4) by auto
qed

lemma loaded_hashes:
  assumes "case_load h kh sha dir = Inr c"
  shows "\<exists>corpus. map_of (cf_declaration c) ''corpus'' = Some corpus \<and>
    native_differences h kh (cf_expected c) (ascii corpus) (file_bytes dir ''events.bin'')
      (file_bytes dir ''effects_captured.bin'') (cf_frames c) = [] \<and>
    decode_stream h (file_bytes dir ''events.bin'') = Inr (cf_frames c) \<and>
    check_captured_records (file_bytes dir ''effects_captured.bin'') \<noteq> None \<and>
    list_all (\<lambda>key. map_of (cf_expected c) key \<noteq> None)
      [''raw_record_blake3'', ''effects_captured_blake3'', ''trace_hash'', ''run_hash'', ''output_digest'']"
proof -
  let ?events = "file_bytes dir ''events.bin''" and ?captured = "file_bytes dir ''effects_captured.bin''"
  from case_load_Inr [OF assms] have ev: "check_evidence h kh (cf_declaration c) (cf_identity c) (cf_expected c)
      ?events ?captured = Inr (cf_frames c)" by blast
  then have raw: "check_each (\<lambda>(key, bs). expect_hash (cf_expected c) key (hash_text h bs))
        [(''raw_record_blake3'', ?events), (''effects_captured_blake3'', ?captured)] = Inr ()"
    and dec: "decode_stream h ?events = Inr (cf_frames c)"
    and rest: "check_each id
      [check_each (\<lambda>f. validate_event f (cf_identity c)) (cf_frames c), check_start (cf_identity c) (cf_frames c),
       check_captured ?captured (cf_frames c), check_hashes h kh (cf_declaration c) (cf_expected c) (cf_frames c)] = Inr ()"
    unfolding check_evidence_def try_Inr by (cases "decode_stream h ?events"; simp add: try_Inr del: check_each_Inr)+
  from rest have captured: "check_captured ?captured (cf_frames c) = Inr ()"
    and hashes: "check_hashes h kh (cf_declaration c) (cf_expected c) (cf_frames c) = Inr ()"
    unfolding check_each_Inr by simp_all
  from hashes obtain corpus where corpus: "map_of (cf_declaration c) ''corpus'' = Some corpus"
    and hs: "check_each (\<lambda>(key, actual). expect_hash (cf_expected c) key (encode_hex (to_le actual)))
      [(''trace_hash'', n_trace_hash (hash_frames h kh (ascii corpus) (cf_frames c))),
       (''run_hash'', n_run_hash (hash_frames h kh (ascii corpus) (cf_frames c))),
       (''output_digest'', n_output_digest (hash_frames h kh (ascii corpus) (cf_frames c)))] = Inr ()"
    unfolding check_hashes_def try_Inr Let_def by auto
  from raw hs have "map_of (cf_expected c) ''raw_record_blake3'' = Some (hash_text h ?events)"
    "map_of (cf_expected c) ''effects_captured_blake3'' = Some (hash_text h ?captured)"
    "map_of (cf_expected c) ''trace_hash'' = Some (encode_hex (to_le (n_trace_hash (hash_frames h kh (ascii corpus) (cf_frames c)))))"
    "map_of (cf_expected c) ''run_hash'' = Some (encode_hex (to_le (n_run_hash (hash_frames h kh (ascii corpus) (cf_frames c)))))"
    "map_of (cf_expected c) ''output_digest'' = Some (encode_hex (to_le (n_output_digest (hash_frames h kh (ascii corpus) (cf_frames c)))))"
    unfolding check_each_Inr by (auto simp: expect_hash_def)
  then show ?thesis
    using corpus dec check_captured_records_of [OF captured dec]
    by (simp add: native_differences_def file_divergences_def hash_divergences_def Let_def raw_record_hash_def
        hash_text_def map_filter_simps)
qed

lemma loaded_native:
  assumes "case_load h kh sha dir = Inr c" and "\<And>n. fs_read fs n = read_file dir n"
    and "map_of (cf_identity c) ''effect_record_order'' \<noteq> None" and "map_of (cf_identity c) ''endpoint.1'' \<noteq> None"
  shows "\<exists>grade. map_of (cf_expected c) ''grade'' = Some grade \<and>
    run_native h kh fs = Inr (NativeChecked (length (cf_frames c))
      (length (filter (\<lambda>f. f_event_type f = EvGap) (cf_frames c))) grade)"
proof -
  let ?events = "file_bytes dir ''events.bin''" and ?captured = "file_bytes dir ''effects_captured.bin''"
  note D = loaded_declarations [OF assms(1)]
  from D(4) obtain grade where grade: "map_of (cf_expected c) ''grade'' = Some grade"
    "grade \<in> {''Complete'', ''Rebuilt'', ''Inferred'', ''Watch-only''}" by blast
  from loaded_hashes [OF assms(1)] obtain corpus where corpus: "map_of (cf_declaration c) ''corpus'' = Some corpus"
    and H: "native_differences h kh (cf_expected c) (ascii corpus) ?events ?captured (cf_frames c) = []"
      "decode_stream h ?events = Inr (cf_frames c)" "check_captured_records ?captured \<noteq> None"
      "list_all (\<lambda>key. map_of (cf_expected c) key \<noteq> None)
        [''raw_record_blake3'', ''effects_captured_blake3'', ''trace_hash'', ''run_hash'', ''output_digest'']" by blast
  from case_load_Inr [OF assms(1)] have texts: "read_key_values fs ''expected'' = Inr (cf_expected c)"
    "read_key_values fs ''case'' = Inr (cf_declaration c)" "read_key_values fs ''identity'' = Inr (cf_identity c)"
    using read_key_values_of assms(2) by blast+
  have parts: "native_parts fs (cf_expected c) (cf_identity c) (cf_declaration c)"
    using texts H(4) grade(1) D(3) by (simp add: native_parts_def NATIVE_EXPECTED_KEYS_def)
  have "find (lacks (cf_identity c)) NATIVE_IDENTITY_KEYS = None"
    using D(2) assms(3,4) unfolding find_None_iff by (auto simp: NATIVE_IDENTITY_KEYS_def lacks_def)
  moreover have "find (lacks (cf_declaration c)) NATIVE_CASE_KEYS = None"
    using D(1) unfolding find_None_iff by (auto simp: list_all_iff lacks_def)
  ultimately have declared: "native_declared (cf_expected c) (cf_identity c) (cf_declaration c) = None"
    using grade D(3) by (simp add: native_declared_def Let_def)
  have files: "fs_read fs ''events.bin'' = Some ?events" "fs_read fs ''effects_captured.bin'' = Some ?captured"
    using case_load_reads [OF assms(1)] assms(2) by (simp_all add: REQUIRED_FILES_def)
  have "native_files h kh (cf_expected c) (ascii corpus) ?events ?captured = NativeChecked (length (cf_frames c))
      (length (filter (\<lambda>f. f_event_type f = EvGap) (cf_frames c))) grade"
    using H grade(1) by (auto simp: native_files_def native_differences_def Let_def)
  then have "native_files h kh (cf_expected c) (ascii (the (map_of (cf_declaration c) ''corpus''))) ?events ?captured =
      NativeChecked (length (cf_frames c)) (length (filter (\<lambda>f. f_event_type f = EvGap) (cf_frames c))) grade"
    by (simp add: corpus)
  with parts declared files have "run_native h kh fs = Inr (NativeChecked (length (cf_frames c))
      (length (filter (\<lambda>f. f_event_type f = EvGap) (cf_frames c))) grade)"
    unfolding run_native_Inr by blast
  then show ?thesis using grade(1) by blast
qed

lemma loaded_checked:
  assumes "case_load h kh sha dir = Inr c" and "verify_manifest sha fs = Inr (Inr (kind, names))"
    and "\<And>n. fs_read fs n = read_file dir n"
    and "map_of (cf_identity c) ''effect_record_order'' \<noteq> None" and "map_of (cf_identity c) ''endpoint.1'' \<noteq> None"
  shows "\<exists>grade. map_of (cf_expected c) ''grade'' = Some grade \<and>
    run_capsule h kh sha compile parse_f64 fs = Inr (NativeChecked (length (cf_frames c))
      (length (filter (\<lambda>f. f_event_type f = EvGap) (cf_frames c))) grade)"
proof -
  from case_load_Inr [OF assms(1)] obtain t where
    t: "text_of (file_bytes dir ''MANIFEST.sha256'') = Some t" "check_manifest sha dir t = Inr (cf_covered c)" by blast
  then have "fs_text fs ''MANIFEST.sha256'' = Inr t"
    using case_load_reads [OF assms(1), of "''MANIFEST.sha256''"] assms(3) by (simp add: fs_text_def)
  with assms(2) have "capsule_kind t = Some kind" "check_listing sha fs (text_lines t) {} = Inr (Inr names)"
    by (auto simp: verify_manifest_def split: option.splits sum.splits)
  from manifests_agree [OF t(2) this] have kind: "kind = ''native-adapter''"
    and covered: "find (\<lambda>name. name \<notin> names) NATIVE_ADAPTER_FILES = None" by (simp_all add: covered_None)
  have "run_capsule h kh sha compile parse_f64 fs = run_native h kh fs"
    unfolding run_capsule_def assms(2) sum.case prod.case kind by (simp add: covered)
  with loaded_native [OF assms(1,3-5)] show ?thesis by simp
qed

subsection \<open>A written capsule\<close>

text \<open>A directory of regular files that holds the given ones.\<close>

definition holds :: "capsule_fs \<Rightarrow> (string \<times> bytes) list \<Rightarrow> bool" where
  "holds fs files \<longleftrightarrow> (\<forall>f\<in>set files. fs_is_file fs (fst f) = Some True \<and> fs_read fs (fst f) = Some (snd f))"

definition flat_name :: "string \<Rightarrow> bool" where
  "flat_name name \<longleftrightarrow> \<not> (CHR ''/'' \<in> set name \<or> CHR 0x5C \<in> set name \<or> split_once_text ''..'' name \<noteq> None)"

lemma names_flat:
  "list_all flat_name [''case'', ''effects_captured.bin'', ''events.bin'', ''expected'', ''identity'']"
  by code_simp

lemma check_listing_written:
  assumes "\<forall>f\<in>set files. length (sha (snd f)) = 32 \<and> plain_text (fst f) \<and> flat_name (fst f)"
    and "holds fs files" and "distinct (map fst files)" and "names \<inter> fst ` set files = {}"
  shows "check_listing sha fs (map (manifest_entry sha) files) names = Inr (Inr (names \<union> fst ` set files))"
  using assms
proof (induction files arbitrary: names)
  case (Cons f files)
  have plain: "plain_text (manifest_entry sha f)" "hd (manifest_entry sha f) \<noteq> CHR ''#''"
    using manifest_entry_plain [of sha f] Cons.prems(1) by simp_all
  then have line: "trim_end (manifest_entry sha f) = manifest_entry sha f" "manifest_entry sha f \<noteq> []"
    by (simp_all add: trim_end_id plain_text_def)
  have "CHR '' '' \<notin> set (encode_hex (sha (snd f)))"
    using hex_chars hex_not_space space_is_space by blast
  from split_once_gap [OF this, of "fst f"] have "check_listed sha fs names (manifest_entry sha f) = Inr (Inr (fst f))"
    using Cons.prems unfolding check_listed_def manifest_entry_def
    by (simp add: holds_def flat_name_def)
  moreover have "check_listing sha fs (map (manifest_entry sha) files) (insert (fst f) names) =
      Inr (Inr (insert (fst f) names \<union> fst ` set files))"
    using Cons.prems by (intro Cons.IH) (auto simp: holds_def)
  ultimately show ?case using plain(2) line by (simp add: Let_def)
qed simp

lemma verify_manifest_written:
  assumes "\<forall>f\<in>set files. length (sha (snd f)) = 32 \<and> plain_text (fst f) \<and> flat_name (fst f)"
    and "holds fs files" and "distinct (map fst files)"
    and "fs_read fs ''MANIFEST.sha256'' = Some (ascii (manifest_text sha files))"
  shows "verify_manifest sha fs = Inr (Inr (''native-adapter'', fst ` set files))"
proof -
  let ?first = "MANIFEST_PREFIX @ ''native-adapter''"
  let ?ls = "?first # map (manifest_entry sha) files"
  have printed: "manifest_text sha files = line_text ?ls"
  proof -
    have "map (\<lambda>(name, bs). encode_hex (sha bs) @ ''  '' @ name) files = map (manifest_entry sha) files"
      by (auto simp: manifest_entry_def)
    then show ?thesis by (simp only: manifest_text_def)
  qed
  have first: "plain_text ?first" by (auto simp: plain_text_def MANIFEST_PREFIX_def is_space_def newline_def char_of_def bit_Suc_0_iff)
  moreover have "plain_text (manifest_entry sha f)" if "f \<in> set files" for f
    using assms(1) that manifest_entry_plain [of sha f] by blast
  ultimately have plain: "\<forall>l\<in>set ?ls. plain_text l" by auto
  have body: "fs_text fs ''MANIFEST.sha256'' = Inr (line_text ?ls)"
    unfolding fs_text_def assms(4) option.case printed text_of_ascii_text [OF line_text_ascii [OF plain]] ..
  have lines: "text_lines (line_text ?ls) = ?ls"
    using plain by (intro text_lines_line_text) (blast dest: plain_not_cr)
  have trimmed: "trim_end ?first = ?first" "?first \<noteq> []" "hd ?first = CHR ''#''"
    by (simp_all add: MANIFEST_PREFIX_def trim_end_def is_space_def)
  have "strip_prefix CAPSULE_HEADER ?first = Some ''native-adapter''"
    unfolding strip_prefix_Some by (simp add: CAPSULE_HEADER_def MANIFEST_PREFIX_def)
  then have kind: "capsule_kind (line_text ?ls) = Some ''native-adapter''"
    unfolding capsule_kind_def lines list.case trimmed(1) option.case by simp
  have "check_listing sha fs ?ls {} = check_listing sha fs (map (manifest_entry sha) files) {}"
    unfolding check_listing.simps Let_def trimmed(1) by (simp only: trimmed simp_thms if_True)
  also have "\<dots> = Inr (Inr ({} \<union> fst ` set files))" by (rule check_listing_written [OF assms(1-3)]) simp
  finally show ?thesis unfolding verify_manifest_def body sum.case kind option.case lines by simp
qed

lemma written_capsule_listed:
  assumes "record_scenario h VOld sc = Inr rg" and "\<forall>bs. length (sha bs) = 32"
    and "capsule_files h kh sha src sc = Inr files" and "holds fs files"
  shows "verify_manifest sha fs = Inr (Inr (''native-adapter'', set REQUIRED_FILES))"
    and "map fst files = [''MANIFEST.sha256'', ''case'', ''effects_captured.bin'', ''events.bin'', ''expected'', ''identity'']"
proof -
  obtain rest where shape: "files = (''MANIFEST.sha256'', ascii (manifest_text sha rest)) # rest"
    and names: "map fst rest = [''case'', ''effects_captured.bin'', ''events.bin'', ''expected'', ''identity'']"
    using assms(3) unfolding capsule_files_eq [OF assms(1)] Let_def by auto
  have dist: "distinct (map fst rest)" unfolding names by simp
  have "list_all (\<lambda>n. plain_text n \<and> flat_name n) (map fst rest)"
    unfolding names using names_plain names_flat by simp
  then have ok: "\<forall>f\<in>set rest. length (sha (snd f)) = 32 \<and> plain_text (fst f) \<and> flat_name (fst f)"
    using assms(2) by (auto simp: list_all_iff)
  have "fst ` set rest = set REQUIRED_FILES" unfolding set_map [symmetric] names by (auto simp: REQUIRED_FILES_def)
  moreover have "holds fs rest" "fs_read fs ''MANIFEST.sha256'' = Some (ascii (manifest_text sha rest))"
    using assms(4) by (auto simp: holds_def shape)
  ultimately show "verify_manifest sha fs = Inr (Inr (''native-adapter'', set REQUIRED_FILES))"
    using verify_manifest_written [OF ok _ dist] by simp
  show "map fst files = [''MANIFEST.sha256'', ''case'', ''effects_captured.bin'', ''events.bin'', ''expected'', ''identity'']"
    by (simp add: shape names)
qed

text \<open>The directory a capsule is written into.\<close>

definition capsule_fs_of :: "(string, bytes) btree \<Rightarrow> capsule_fs" where
  "capsule_fs_of files =
     \<lparr>fs_is_file = (\<lambda>n. map_option (\<lambda>_. True) (map_of files n)), fs_read = map_of files\<rparr>"

lemma capsule_fs_reads: "fs_read (capsule_fs_of files) n = read_file (capsule_dir files) n"
  by (simp add: capsule_fs_of_def read_file_def capsule_dir_def option.map_comp comp_def option.map_ident)

lemma capsule_fs_holds: "distinct (map fst files) \<Longrightarrow> holds (capsule_fs_of files) files"
  by (auto simp: holds_def capsule_fs_of_def)

text \<open>The demonstration capsule, and a copy with a file the manifest does not name.\<close>

definition with_readme :: "capsule_fs \<Rightarrow> capsule_fs" where
  "with_readme fs = \<lparr>fs_is_file = (fs_is_file fs)(''README'' \<mapsto> True), fs_read = (fs_read fs)(''README'' \<mapsto> [1])\<rparr>"

lemma demo_verifies:
  "\<exists>files c. case_load demo_hash (\<lambda>_ _. 0) (\<lambda>_. replicate 32 0) (capsule_dir files) = Inr c \<and> length (cf_frames c) = 4 \<and>
     map_of (cf_identity c) = map_of (identity_entries demo_hash (\<lambda>_. ''00'') demo_capsule) \<and>
     fs_read (capsule_fs_of files) ''README'' = None \<and>
     verify_manifest (\<lambda>_. replicate 32 0) (capsule_fs_of files) = Inr (Inr (''native-adapter'', set REQUIRED_FILES)) \<and>
     verify_manifest (\<lambda>_. replicate 32 0) (with_readme (capsule_fs_of files)) =
       Inr (Inr (''native-adapter'', set REQUIRED_FILES))"
proof -
  let ?sha = "\<lambda>_ :: bytes. replicate 32 (0 :: byte)"
  obtain rg where rg: "record_scenario demo_hash VOld demo_capsule = Inr rg" "length (rg_frames rg) = 4"
    using demo_capsule_records by blast
  have len: "length (rg_frames rg) < 2 ^ 64" by (simp add: rg(2))
  obtain files where files: "capsule_files demo_hash (\<lambda>_ _. 0) ?sha (\<lambda>_. ''00'') demo_capsule = Inr files"
    and dist: "distinct (map fst files)" unfolding capsule_files_eq [OF rg(1)] by (simp add: Let_def)
  then have "\<forall>f\<in>set files. capsule_dir files (fst f) = Some (True, snd f)" by (auto simp: capsule_dir_def)
  from capsule_loads_in [OF rg(1) len demo_capsule_plain(2,1,3,4) files this] rg(2) obtain c where
    c: "case_load demo_hash (\<lambda>_ _. 0) ?sha (capsule_dir files) = Inr c" "length (cf_frames c) = 4"
      "map_of (cf_identity c) = map_of (identity_entries demo_hash (\<lambda>_. ''00'') demo_capsule)" by auto
  have sha: "\<forall>bs. length (?sha bs) = 32" by simp
  note listed = written_capsule_listed [OF rg(1) sha files]
  from dist have held: "holds (capsule_fs_of files) files" by (rule capsule_fs_holds)
  note names = listed(2) [OF held]
  then have "''README'' \<notin> fst ` set files" unfolding set_map [symmetric] by simp
  then have "fst f \<noteq> ''README''" if "f \<in> set files" for f using that by (metis imageI)
  then have "holds (with_readme (capsule_fs_of files)) files" using held by (auto simp: holds_def with_readme_def)
  moreover have "fs_read (capsule_fs_of files) ''README'' = None"
    using \<open>''README'' \<notin> fst ` set files\<close> by (simp add: capsule_fs_of_def map_of_eq_None_iff)
  ultimately show ?thesis using c listed(1) [OF held] listed(1) by blast
qed

section \<open>Properties\<close>

text \<open>
  C19. \<open>rook-verify\<close> exits with 0 exactly when the manifest covers a Wasm capsule's files and the replay of
  its recording through its cell emits the recorded heartbeats byte for byte, with the expected run hash,
  output digest, SHA-256 of the recorded stream and number of decision states.
\<close>

theorem verified_means:
  "process_code (run_capsule h kh sha compile parse_f64 fs) = 0 \<longleftrightarrow>
     (\<exists>names xp bs deliveries recorded replayed hashes.
        verify_manifest sha fs = Inr (Inr (''wasm-rmf-blockade'', names)) \<and>
        set WASM_RMF_BLOCKADE_FILES \<subseteq> names \<and>
        wasm_parts h kh compile parse_f64 fs xp bs deliveries recorded replayed hashes \<and>
        map snd recorded = map snd replayed \<and>
        encode_hex (to_le (run_hash hashes)) = xp_bag_run_hash xp \<and>
        encode_hex (to_le (output_digest hashes)) = xp_bag_output_digest xp \<and>
        encode_hex (sha bs) = xp_heartbeats_recorded_sha256 xp \<and>
        length (distinct_states (map snd recorded)) = xp_recorded_states xp)"
  by (rule verified_iff)

text \<open>
  C22. A native capsule never exits with 0.  It exits with 1 exactly when its declarations are acceptable,
  its captured effects are effects, its events are a closed stream, and some hash of its files or of its
  recorded execution is not the expected one; everything else is a refusal with 2.
\<close>

theorem native_exit_codes:
  "process_code (run_native h kh fs) \<in> {1, 2} \<and>
   (process_code (run_native h kh fs) = 1 \<longleftrightarrow>
     (\<exists>expected identity caze events captured frames.
        native_parts fs expected identity caze \<and> native_declared expected identity caze = None \<and>
        fs_read fs ''events.bin'' = Some events \<and> fs_read fs ''effects_captured.bin'' = Some captured \<and>
        check_captured_records captured \<noteq> None \<and> decode_stream h events = Inr frames \<and>
        native_differences h kh expected (ascii (the (map_of caze ''corpus''))) events captured frames \<noteq> []))"
proof -
  have code: "process_code (run_native h kh fs) = 1 \<longleftrightarrow> (\<exists>x. run_native h kh fs = Inr x \<and> outcome_code x = 1)"
    by (cases "run_native h kh fs") (simp_all add: process_code_def)
  have declared: "native_declared e i c = Some x \<Longrightarrow> outcome_code x \<noteq> 1" for e i c x
    using native_declared_code [of e i c x] by simp
  have files: "outcome_code (native_files h kh e corpus events captured) = 1 \<longleftrightarrow>
      (\<exists>frames. check_captured_records captured \<noteq> None \<and> decode_stream h events = Inr frames \<and>
         native_differences h kh e corpus events captured frames \<noteq> [])" for e corpus events captured
    by (simp add: native_files_code)
  have "process_code (run_native h kh fs) = 1 \<longleftrightarrow>
      (\<exists>expected identity caze events captured. native_parts fs expected identity caze \<and>
        native_declared expected identity caze = None \<and> fs_read fs ''events.bin'' = Some events \<and>
        fs_read fs ''effects_captured.bin'' = Some captured \<and>
        outcome_code (native_files h kh expected (ascii (the (map_of caze ''corpus''))) events captured) = 1)"
    unfolding code run_native_Inr using declared by blast
  then have "process_code (run_native h kh fs) = 1 \<longleftrightarrow>
     (\<exists>expected identity caze events captured frames.
        native_parts fs expected identity caze \<and> native_declared expected identity caze = None \<and>
        fs_read fs ''events.bin'' = Some events \<and> fs_read fs ''effects_captured.bin'' = Some captured \<and>
        check_captured_records captured \<noteq> None \<and> decode_stream h events = Inr frames \<and>
        native_differences h kh expected (ascii (the (map_of caze ''corpus''))) events captured frames \<noteq> [])"
    unfolding files by blast
  moreover have "process_code (run_native h kh fs) \<in> {1, 2}"
    using native_never_zero [of h kh fs] outcome_code_range [of "run_native h kh fs"] by simp
  ultimately show ?thesis by blast
qed

text \<open>
  C21. The manifest commits the verdict: two directories with the same manifest, both accepted against it,
  have the same outcome, unless SHA-256 collides on the contents of a covered file.
\<close>

theorem manifest_commits_verdict:
  assumes "verify_manifest sha fs = Inr (Inr (kind, names))" and "verify_manifest sha fs' = Inr (Inr (kind', names'))"
    and "fs_read fs ''MANIFEST.sha256'' = fs_read fs' ''MANIFEST.sha256''"
    and "\<And>name bs bs'. name \<in> names \<Longrightarrow> fs_read fs name = Some bs \<Longrightarrow> fs_read fs' name = Some bs' \<Longrightarrow>
      sha bs = sha bs' \<Longrightarrow> bs = bs'"
  shows "run_capsule h kh sha compile parse_f64 fs = run_capsule h kh sha compile parse_f64 fs'"
proof -
  note N = verify_manifest_names [OF assms(1-3)]
  have same: "fs_read fs name = fs_read fs' name" if name: "name \<in> names" for name
  proof -
    from N name obtain bs bs' where b: "fs_read fs name = Some bs" "fs_read fs' name = Some bs'" "sha bs = sha bs'" by blast
    then have "bs = bs'" using assms(4) [OF name] by blast
    with b show ?thesis by simp
  qed
  have reads: "fs_bytes fs name = fs_bytes fs' name" "fs_text fs name = fs_text fs' name"
    "read_key_values fs name = read_key_values fs' name" "read_expected fs name = read_expected fs' name"
    if "name \<in> names" for name
    using same [OF that] by (simp_all add: fs_bytes_def fs_text_def read_key_values_def read_expected_def)
  have wasm: "run_wasm h kh sha compile parse_f64 fs = run_wasm h kh sha compile parse_f64 fs'"
    if "set WASM_RMF_BLOCKADE_FILES \<subseteq> names"
  proof -
    have "''expected'' \<in> names" "''deliveries.bin'' \<in> names" "''heartbeats_recorded.bin'' \<in> names"
      "''params'' \<in> names" "''rmf_blockade_cell.wasm'' \<in> names"
      using that by (simp_all add: WASM_RMF_BLOCKADE_FILES_def)
    then show ?thesis unfolding run_wasm_def by (simp only: reads)
  qed
  have native: "run_native h kh fs = run_native h kh fs'" if "set NATIVE_ADAPTER_FILES \<subseteq> names"
  proof -
    have "''expected'' \<in> names" "''events.bin'' \<in> names" "''effects_captured.bin'' \<in> names"
      "''identity'' \<in> names" "''case'' \<in> names"
      using that by (simp_all add: NATIVE_ADAPTER_FILES_def)
    then show ?thesis unfolding run_native_def by (simp only: reads)
  qed
  show ?thesis
  proof (cases "kind \<in> {''wasm-rmf-blockade'', ''native-adapter''}")
    case True
    let ?files = "if kind = ''wasm-rmf-blockade'' then WASM_RMF_BLOCKADE_FILES else NATIVE_ADAPTER_FILES"
    have eqs: "kind' = kind" "names' = names" using N by simp_all
    show ?thesis
    proof (cases "find (\<lambda>name. name \<notin> names) ?files")
      case None
      then have "set ?files \<subseteq> names" unfolding covered_None .
      with True wasm native None show ?thesis
        unfolding run_capsule_def assms(1,2) sum.case prod.case eqs by (auto split: if_splits)
    next
      case (Some name)
      show ?thesis unfolding run_capsule_def assms(1,2) sum.case prod.case eqs Some option.case ..
    qed
  next
    case False
    with N show ?thesis unfolding run_capsule_def assms(1,2) sum.case prod.case by simp
  qed
qed

theorem manifest_commits_verdict_witness:
  "\<exists>fs fs'. fs_read fs ''README'' \<noteq> fs_read fs' ''README'' \<and>
     run_capsule demo_hash (\<lambda>_ _. 0) (\<lambda>_. replicate 32 0) (\<lambda>_. idle_guest) (\<lambda>_. None) fs =
     run_capsule demo_hash (\<lambda>_ _. 0) (\<lambda>_. replicate 32 0) (\<lambda>_. idle_guest) (\<lambda>_. None) fs'"
proof -
  obtain fs where fs: "fs_read fs ''README'' = None"
    "verify_manifest (\<lambda>_. replicate 32 0) fs = Inr (Inr (''native-adapter'', set REQUIRED_FILES))"
    "verify_manifest (\<lambda>_. replicate 32 0) (with_readme fs) = Inr (Inr (''native-adapter'', set REQUIRED_FILES))"
    using demo_verifies by blast
  have same: "fs_read fs n = fs_read (with_readme fs) n" if "n \<noteq> ''README''" for n
    using that by (simp add: with_readme_def)
  have "''README'' \<notin> set REQUIRED_FILES" by (simp add: REQUIRED_FILES_def)
  then have "bs = bs'" if "n \<in> set REQUIRED_FILES" "fs_read fs n = Some bs" "fs_read (with_readme fs) n = Some bs'" for n bs bs'
    using that same [of n] by (metis option.inject)
  moreover have "fs_read fs ''MANIFEST.sha256'' = fs_read (with_readme fs) ''MANIFEST.sha256''" by (rule same) simp
  ultimately have "run_capsule demo_hash (\<lambda>_ _. 0) (\<lambda>_. replicate 32 0) (\<lambda>_. idle_guest) (\<lambda>_. None) fs =
     run_capsule demo_hash (\<lambda>_ _. 0) (\<lambda>_. replicate 32 0) (\<lambda>_. idle_guest) (\<lambda>_. None) (with_readme fs)"
    by (intro manifest_commits_verdict [OF fs(2,3)])
  moreover have "fs_read fs ''README'' \<noteq> fs_read (with_readme fs) ''README''" using fs(1) by (simp add: with_readme_def)
  ultimately show ?thesis by blast
qed

text \<open>
  C20. The two verifiers agree: what the case loader accepts, \<open>rook-verify\<close> checks and finds intact, with the
  loader's frames and the declared grade, provided it accepts the listing of the manifest and the identity
  has the two keys that only it demands.
\<close>

theorem loaded_case_checked:
  assumes "case_load h kh sha dir = Inr c" and "verify_manifest sha fs = Inr (Inr (kind, names))"
    and "\<And>n. fs_read fs n = read_file dir n"
    and "map_of (cf_identity c) ''effect_record_order'' \<noteq> None" and "map_of (cf_identity c) ''endpoint.1'' \<noteq> None"
  shows "\<exists>grade. map_of (cf_expected c) ''grade'' = Some grade \<and>
    run_capsule h kh sha compile parse_f64 fs = Inr (NativeChecked (length (cf_frames c))
      (length (filter (\<lambda>f. f_event_type f = EvGap) (cf_frames c))) grade)"
  by (rule loaded_checked [OF assms])

theorem loaded_case_checked_witness:
  "\<exists>fs gaps grade. run_capsule demo_hash (\<lambda>_ _. 0) (\<lambda>_. replicate 32 0) (\<lambda>_. idle_guest) (\<lambda>_. None) fs =
     Inr (NativeChecked 4 gaps grade)"
proof -
  obtain files c where c: "case_load demo_hash (\<lambda>_ _. 0) (\<lambda>_. replicate 32 0) (capsule_dir files) = Inr c"
    "length (cf_frames c) = 4" "map_of (cf_identity c) = map_of (identity_entries demo_hash (\<lambda>_. ''00'') demo_capsule)"
    and fs: "verify_manifest (\<lambda>_. replicate 32 0) (capsule_fs_of files) = Inr (Inr (''native-adapter'', set REQUIRED_FILES))"
    using demo_verifies by blast
  have "map_of (cf_identity c) ''effect_record_order'' \<noteq> None" "map_of (cf_identity c) ''endpoint.1'' \<noteq> None"
    by (simp_all add: c(3) identity_entries_def endpoint_entries_eq)
  from loaded_case_checked [OF c(1) fs capsule_fs_reads this, of "\<lambda>_. idle_guest" "\<lambda>_. None"] c(2) show ?thesis by auto
qed

end
