(* ===== verification/Case_Runner.thy ===== *)
theory Case_Runner
  imports Case_File
begin

text \<open>
  crates/rook-verify/src/runner.rs: the replay of a case through an adapter with the recorded goals put
  in correspondence with the replayed ones, and the property program evaluated on the run.  It keeps
  the driver's state, with the normalization's beside it.  The adapter and its exit status are
  parameters, as is the property program: a function from the input it is given to the result it
  prints and its exit status, or \<open>None\<close> when it fails or prints no result.  A replay gives it distinct
  inputs only, so that it is a function is no restriction.  A line the adapter owes and does not write
  within the time limit is a closed stdout.
\<close>

unbundle bit_operations_syntax

type_synonym property_program = "property_input \<Rightarrow> (property_result \<times> int) option"

record 's run_env =
  re_react :: "'s adapter"
  re_exit :: "'s \<Rightarrow> int option" \<comment> \<open>the exit status once its stdin is closed, unless killed\<close>
  re_program :: property_program
  re_source_hash :: string
  re_reference_hash :: string
  re_case :: case_file
  re_identity :: identity_map
  re_candidate :: bool

datatype runner_error =
    RunCase case_error
  | RunGoals goals_error
  | RunDriver replay_failure
  | NotFromEndpoint u64
  | IdentityDriftAt string
  | DuplicateEndpoint
  | DuplicateChannel
  | DeadlineUnreadable
  | PropertyProgramFailed
  | PropertyResultDiffers
  | PropertyExitDisagrees
  | PassedWithoutCompletion
  | CompletionOutsideEvidence
  | UndecodedEffect stream_error
  | EffectsForUnconsumedInput
  | LateProgress
  | LateDenial
  | LateAssociation
  | LateEffect
  | LateSequence
  | AdapterUnsuccessful

text \<open>\<open>execution_mismatch\<close> and \<open>mismatch\<close> exit with 1, other errors with 2.\<close>

fun runner_exit_code :: "runner_error \<Rightarrow> int" where
  "runner_exit_code (RunCase e) = case_exit_code e"
| "runner_exit_code (RunGoals (DuplicateReplayed _)) = 1"
| "runner_exit_code (RunGoals CancelUnknown) = 1"
| "runner_exit_code _ = 2"

text \<open>The message of a refused translation, as it enters a stop's reason.\<close>

fun goals_text :: "goals_error \<Rightarrow> string" where
  "goals_text (MissingEntry key) = ''missing manifest entry '' @ key"
| "goals_text (MissingClient ch) = ''missing originating client for channel '' @ show_word ch"
| "goals_text MissingGoalIdentity = ''missing goal identity''"
| "goals_text (DuplicateReplayed n) = ''duplicate or zero replay goal identity at '' @ show_word n"
| "goals_text CancelUnknown = ''cancel names an unknown goal identity''"
| "goals_text NotAnIssuance = ''response does not name a goal issuance''"
| "goals_text IssuanceMissing = ''response needs a missing corresponding goal issuance''"
| "goals_text (StaleResponse n) = ''wrong or stale response identity at recorded ordinal '' @ show_word n"
| "goals_text ResponseGoalDiffers = ''response goal identity differs from issued goal''"
| "goals_text NotACancel = ''cancel response does not name a cancel request''"
| "goals_text DuplicateCancelled = ''duplicate goal identity in cancel response''"
| "goals_text UnknownCancelled = ''unknown goal identity in cancel response''"
| "goals_text CancelledGoalDiffers = ''cancel response goal identity differs''"
| "goals_text (BadCancelBody e) = body_error_text e"
| "goals_text _ = []" \<comment> \<open>errors of \<open>Goals::new\<close>, which no translation makes\<close>

subsection \<open>The property program\<close>

text \<open>\<open>entry(..)?\<close> of the declaration, with the errors of the runner.\<close>

definition run_entry :: "identity_map \<Rightarrow> string \<Rightarrow> runner_error + string" where
  "run_entry m key = (case case_entry m key of Inl e \<Rightarrow> Inl (RunCase e) | Inr v \<Rightarrow> Inr v)"

definition run_property_input ::
  "identity_map \<Rightarrow> run \<Rightarrow> identity_map \<Rightarrow> runner_error + property_input" where
  "run_property_input declaration r m =
     (case run_entry declaration ''property'' of
        Inl e \<Rightarrow> Inl e
      | Inr property \<Rightarrow>
          (case run_entry declaration ''scenario'' of
             Inl e \<Rightarrow> Inl e
           | Inr scenario \<Rightarrow>
               (case run_entry declaration ''scope.completion'' of
                  Inl e \<Rightarrow> Inl e
                | Inr completion \<Rightarrow>
                    (case run_entry declaration ''scope.observation_end'' of
                       Inl e \<Rightarrow> Inl e
                     | Inr observation_end \<Rightarrow>
                         (case run_entry declaration ''goal_response_deadline_ns'' of
                            Inl e \<Rightarrow> Inl e
                          | Inr deadline \<Rightarrow>
                              (case parse_i64 deadline of
                                 None \<Rightarrow> Inl DeadlineUnreadable
                               | Some deadline_ns \<Rightarrow>
                                   let inp = property_input_of property scenario
                                         \<lparr>sc_completion = completion, sc_observation_end = observation_end\<rparr>
                                         (word_of_int deadline_ns) r m
                                   in Inr (if r_finish_reason r = FinishScope
                                       then inp\<lparr>pi_evidence := (pi_evidence inp)\<lparr>ev_end_of_recording := False\<rparr>\<rparr>
                                       else inp)))))))"

definition check_result :: "property_input \<Rightarrow> run \<Rightarrow> property_result \<Rightarrow> int \<Rightarrow> runner_error + property_result" where
  "check_result inp r result ec =
     (if \<not> (pr_schema result = RESULT_SCHEMA \<and> pr_property result = pi_property inp)
      then Inl PropertyResultDiffers
      else if ec \<noteq> exit_code result then Inl PropertyExitDisagrees
      else if pr_result result = VPass then
        (case pr_completion_ordinal result of
           None \<Rightarrow> Inl PassedWithoutCompletion
         | Some ordinal \<Rightarrow>
             if list_ex (\<lambda>f. f_ordinal f = ordinal) (r_frames r) then Inr result
             else Inl CompletionOutsideEvidence)
      else Inr result)"

definition property_evaluate ::
  "property_program \<Rightarrow> identity_map \<Rightarrow> run \<Rightarrow> identity_map \<Rightarrow> runner_error + property_result" where
  "property_evaluate program declaration r m =
     (case run_property_input declaration r m of
        Inl e \<Rightarrow> Inl e
      | Inr inp \<Rightarrow>
          (case program inp of
             None \<Rightarrow> Inl PropertyProgramFailed
           | Some (result, ec) \<Rightarrow> check_result inp r result ec))"

subsection \<open>Starting the adapter\<close>

record 's runner =
  rn_driver :: "'s driver"
  rn_goals :: goals
  rn_canonical :: "u64 \<Rightarrow> frame option" \<comment> \<open>the effects by ordinal, with recorded goals\<close>
  rn_terminal :: "property_result option"
  rn_finish_callbacks :: "u64 list"

definition runner_state_of :: "identity_map \<Rightarrow> runner_error + starting_state_id" where
  "runner_state_of m =
     (case run_entry m ''starting_state'' of
        Inl e \<Rightarrow> Inl e
      | Inr method \<Rightarrow>
          (case run_entry m ''starting_state_blake3'' of
             Inl e \<Rightarrow> Inl e | Inr b \<Rightarrow> Inr \<lparr>ss_method = method, ss_blake3 = b\<rparr>))"

definition identity_is :: "identity_map \<Rightarrow> string \<Rightarrow> string \<Rightarrow> runner_error + unit" where
  "identity_is m key actual =
     (case run_entry m key of
        Inl e \<Rightarrow> Inl e | Inr v \<Rightarrow> if actual = v then Inr () else Inl (IdentityDriftAt key))"

fun observe_endpoints :: "endpoint list \<Rightarrow> identity_map \<Rightarrow> runner_error + identity_map" where
  "observe_endpoints [] m = Inr m"
| "observe_endpoints (e # es) m =
     (if map_of m (endpoint_key (ep_actor e)) \<noteq> None then Inl DuplicateEndpoint
      else observe_endpoints es (bt_insert (endpoint_key (ep_actor e)) (ep_name e) m))"

definition channel_declaration :: "channel \<Rightarrow> string" where
  "channel_declaration c =
     ch_name c @ '' '' @ ch_direction c @ '' '' @ join_on CHR '','' (ch_event_types c)"

fun observe_channels :: "channel list \<Rightarrow> identity_map \<Rightarrow> runner_error + identity_map" where
  "observe_channels [] m = Inr m"
| "observe_channels (c # cs) m =
     (if map_of m (channel_key (ch_id c)) \<noteq> None then Inl DuplicateChannel
      else observe_channels cs (bt_insert (channel_key (ch_id c)) (channel_declaration c) m))"

definition declared_endpoints :: "identity_map \<Rightarrow> identity_map" where
  "declared_endpoints m =
     filter (\<lambda>(k, _). strip_prefix ''endpoint.'' k \<noteq> None \<or> strip_prefix ''channel.'' k \<noteq> None) m"

text \<open>The arm for \<open>Response::Started\<close>.\<close>

definition check_started ::
  "identity_map \<Rightarrow> starting_state_id \<Rightarrow> identity \<Rightarrow> endpoint list \<Rightarrow> channel list \<Rightarrow> starting_state_id \<Rightarrow>
     runner_error + unit" where
  "check_started m requested i eps chs state =
     (case check_each id
             [identity_is m ''component'' (i_component i), identity_is m ''component_variant'' (i_variant i),
              identity_is m ''adapter'' (i_adapter i),
              identity_is m ''adapter_protocol'' (show_word (i_protocol i))] of
        Inl e \<Rightarrow> Inl e
      | Inr _ \<Rightarrow>
          (case observe_endpoints eps [] of
             Inl e \<Rightarrow> Inl e
           | Inr seen \<Rightarrow>
               (case observe_channels chs seen of
                  Inl e \<Rightarrow> Inl e
                | Inr observed \<Rightarrow>
                    (case same_identity (declared_endpoints m) observed False of
                       Inl e \<Rightarrow> Inl (RunCase e)
                     | Inr _ \<Rightarrow>
                         if state \<noteq> requested then Inl (RunDriver (WrongStartingState state)) else Inr ()))))"

definition start_runner :: "'s run_env \<Rightarrow> 's \<Rightarrow> goals \<Rightarrow> string \<Rightarrow> string \<Rightarrow> starting_state_id \<Rightarrow> runner_error + 's runner" where
  "start_runner env s g corpus scenario requested =
     (let st = send_request (re_react env) (Start PROTOCOL_VERSION corpus scenario requested)
           \<lparr>d_adapter = s, d_queue = [], d_frames = [], d_steps = [], d_effects = [],
            d_progress = [], d_pending = [], d_session_sequence = 0,
            d_effect_sequences = Map.empty\<rparr>
      in case receive st of
        Inl e \<Rightarrow> Inl (RunDriver e)
      | Inr (Started protocol i eps chs state, st') \<Rightarrow>
          if protocol \<noteq> PROTOCOL_VERSION
          then Inl (RunDriver (UnexpectedStartAnswer (Started protocol i eps chs state)))
          else (case check_started (re_identity env) requested i eps chs state of
              Inl e \<Rightarrow> Inl e
            | Inr _ \<Rightarrow>
                Inr \<lparr>rn_driver = st', rn_goals = g, rn_canonical = Map.empty, rn_terminal = None,
                     rn_finish_callbacks = []\<rparr>)
      | Inr (StartRefused reason, st') \<Rightarrow> Inl (RunDriver (AdapterRefusedStart reason))
      | Inr (other, st') \<Rightarrow> Inl (RunDriver (UnexpectedStartAnswer other)))"

subsection \<open>Delivering one input\<close>

definition runner_ref :: "frame list \<Rightarrow> frame \<Rightarrow> runner_error + request_ref option" where
  "runner_ref recording inp =
     (case request_ref_of recording inp of
        Inl e \<Rightarrow> Inl (RunDriver (BadRequestRef e))
      | Inr None \<Rightarrow> Inr None
      | Inr (Some r) \<Rightarrow>
          if f_src_actor inp = rr_dst_actor r \<and> f_dst_actor inp = rr_src_actor r then Inr (Some r)
          else Inl (NotFromEndpoint (f_ordinal inp)))"

text \<open>The response with this run's goals, or why this run's request is not the recorded one.\<close>

definition answer_for ::
  "goals \<Rightarrow> (u64 \<Rightarrow> frame option) \<Rightarrow> frame list \<Rightarrow> frame list \<Rightarrow> frame \<Rightarrow> request_ref \<Rightarrow> string + frame" where
  "answer_for g canon recording fs recorded request =
     (let recorded_request = recording ! unat (rr_ordinal request);
          issued = issued_by_component fs request;
          equivalent = (case issued of None \<Rightarrow> False
             | Some i \<Rightarrow>
                 let c = (case canon (f_ordinal i) of None \<Rightarrow> i | Some c \<Rightarrow> c)
                 in f_dst_actor c = f_dst_actor recorded_request \<and>
                    f_header c = f_header recorded_request \<and> f_body c = f_body recorded_request)
      in case goals_input g recorded recorded_request of
           Inl e \<Rightarrow>
             Inl (''unsupported response dependency at ordinal '' @ show_word (f_ordinal recorded) @ '' ('' @
               goals_text e @ '')'')
         | Inr translated \<Rightarrow>
             if equivalent then Inr translated
             else Inl (case issued of
                 Some _ \<Rightarrow>
                   ''recorded response at ordinal '' @ show_word (f_ordinal recorded) @
                   '' answers recorded request '' @ show_word (rr_ordinal request) @
                   '', but this run's request on channel '' @ show_word (rr_channel_id request) @
                   '' sequence '' @ show_word (rr_src_seq request) @ '' differs from it''
               | None \<Rightarrow>
                   ''recorded response at ordinal '' @ show_word (f_ordinal recorded) @
                   '' answers recorded request '' @ show_word (rr_ordinal request) @
                   '', which this run never issued''))"

text \<open>The run that the property is evaluated on at an effect: the step counts as consumed.\<close>

definition current_run :: "frame \<Rightarrow> u64 \<Rightarrow> 's driver \<Rightarrow> run" where
  "current_run recorded replayed_ordinal st =
     \<lparr>r_frames = d_frames st,
      r_steps = d_steps st @
        [\<lparr>dl_recorded_ordinal = f_ordinal recorded, dl_replayed_ordinal = Some replayed_ordinal,
          dl_status = StatusOk, dl_reason = None\<rparr>],
      r_effects = d_effects st, r_progress = d_progress st,
      r_pending_after_last_step = d_pending st, r_pending_at_finish = d_pending st,
      r_stop = StopExhausted, r_finish_reason = FinishScope\<rparr>"

definition decisive :: "property_result \<Rightarrow> bool" where
  "decisive r \<longleftrightarrow> pr_result r \<in> {VPass, VFail, VInvalid}"

text \<open>The arm for \<open>Response::Effect\<close>, up to the evaluation of the property.\<close>

definition collect_effect ::
  "'s run_env \<Rightarrow> frame \<Rightarrow> u64 list \<Rightarrow> u64 \<Rightarrow> u64 \<Rightarrow> wire_frame \<Rightarrow> 's runner \<Rightarrow> runner_error + 's runner" where
  "collect_effect env recorded authorized stp callback effect rn =
     (let st = rn_driver rn in
      if stp \<noteq> f_ordinal recorded \<or> callback \<notin> set authorized
      then Inl (RunDriver (UnauthorizedEffect stp callback authorized))
      else case frame_from_wire (word_of_nat (length (d_frames st))) effect of
        Inl e \<Rightarrow> Inl (RunDriver (BadEffectWire e))
      | Inr f \<Rightarrow>
          if f_src_actor f \<noteq> COMPONENT_ACTOR_ID \<or> frame_kind f \<noteq> KEmit
          then Inl (RunDriver (NotAComponentEffect (f_event_type f) (f_src_actor f)))
          else if h_schema (f_header f) \<noteq> EVENT_SCHEMA \<or>
                  h_flags (f_header f) AND NOT FLAGS_DEFINED \<noteq> 0
          then Inl (RunDriver (BadEffectHeader (h_schema (f_header f)) (h_flags (f_header f))))
          else (case validate_event f (re_identity env) of
              Inl e \<Rightarrow> Inl (RunCase e)
            | Inr _ \<Rightarrow>
                let expected = next_seq (d_effect_sequences st) (f_channel_id f) in
                if f_src_seq f \<noteq> expected
                then Inl (RunDriver (BadEffectSequence (f_channel_id f) (f_src_seq f) expected))
                else (case decode_payload (word_of_nat (length (d_frames st))) (payload f) of
                    Inl e \<Rightarrow> Inl (UndecodedEffect e)
                  | Inr _ \<Rightarrow>
                      (case goals_effect (rn_goals rn) f of
                         Inl e \<Rightarrow> Inl (RunGoals e)
                       | Inr (g, c) \<Rightarrow>
                           let ordinal = word_of_nat (length (d_frames st)) in
                           Inr (rn\<lparr>rn_driver := st\<lparr>d_effect_sequences :=
                                    (d_effect_sequences st)(f_channel_id f \<mapsto> expected + 1),
                                  d_frames := push_frame (d_frames st) f,
                                  d_effects := d_effects st @ [(callback, ordinal)]\<rparr>,
                                rn_goals := g,
                                rn_canonical := (rn_canonical rn)(ordinal \<mapsto> c\<lparr>f_ordinal := ordinal\<rparr>)\<rparr>)))))"

text \<open>A candidate is stopped at the first effect that decides the property.\<close>

definition decide_at_effect ::
  "'s run_env \<Rightarrow> frame \<Rightarrow> u64 list \<Rightarrow> u64 \<Rightarrow> response list \<Rightarrow> 's runner \<Rightarrow> runner_error + 's runner \<times> bool" where
  "decide_at_effect env recorded authorized replayed_ordinal ls rn =
     (if \<not> re_candidate env then Inr (rn, False)
      else let current = current_run recorded replayed_ordinal (rn_driver rn) in
        case property_evaluate (re_program env) (cf_declaration (re_case env)) current (re_identity env) of
          Inl e \<Rightarrow> Inl e
        | Inr result \<Rightarrow>
            if decisive result
            then Inr (rn\<lparr>rn_driver := (rn_driver rn)\<lparr>d_steps := r_steps current, d_queue := ls\<rparr>,
                       rn_terminal := Some result, rn_finish_callbacks := authorized\<rparr>, True)
            else Inr (rn, False))"

text \<open>
  The arm for \<open>Response::Stepped\<close>; its second check of a refused input's effects is the first one again.
\<close>

definition runner_stepped ::
  "frame \<Rightarrow> u64 \<Rightarrow> u64 \<Rightarrow> step_status \<Rightarrow> string option \<Rightarrow> pending list \<Rightarrow> 's runner \<Rightarrow>
     runner_error + 's runner \<times> stop option" where
  "runner_stepped recorded replayed_ordinal ordinal stat reason ps rn =
     (if ordinal \<noteq> f_ordinal recorded then Inl (RunDriver (AnsweredOther ordinal (f_ordinal recorded)))
      else if \<not> (stat = StatusOk \<or>
                 word_of_nat (length (d_frames (rn_driver rn))) = replayed_ordinal + 1)
      then Inl EffectsForUnconsumedInput
      else case accept_stepped recorded replayed_ordinal ordinal stat reason ps (rn_driver rn) of
        Inl e \<Rightarrow> Inl (RunDriver e)
      | Inr (st, stp) \<Rightarrow> Inr (rn\<lparr>rn_driver := st\<rparr>, stp))"

text \<open>The receive loop.  A run that the property decides stops as an exhausted one does.\<close>

fun run_lines ::
  "'s run_env \<Rightarrow> frame \<Rightarrow> u64 list \<Rightarrow> u64 \<Rightarrow> response list \<Rightarrow> 's runner \<Rightarrow>
     runner_error + 's runner \<times> stop option" where
  "run_lines env recorded authorized replayed_ordinal [] rn = Inl (RunDriver AdapterClosed)"
| "run_lines env recorded authorized replayed_ordinal (EffectLine stp callback effect # ls) rn =
     (case collect_effect env recorded authorized stp callback effect rn of
        Inl e \<Rightarrow> Inl e
      | Inr rn' \<Rightarrow>
          (case decide_at_effect env recorded authorized replayed_ordinal ls rn' of
             Inl e \<Rightarrow> Inl e
           | Inr (rn'', True) \<Rightarrow> Inr (rn'', Some StopExhausted)
           | Inr (rn'', False) \<Rightarrow> run_lines env recorded authorized replayed_ordinal ls rn''))"
| "run_lines env recorded authorized replayed_ordinal (ProgressLine stp callback name # ls) rn =
     (if stp \<noteq> f_ordinal recorded \<or> callback \<notin> set authorized
      then Inl (RunDriver (UnauthorizedProgress name stp callback authorized))
      else run_lines env recorded authorized replayed_ordinal ls
        (rn\<lparr>rn_driver := (rn_driver rn)\<lparr>d_progress := d_progress (rn_driver rn) @
             [(callback, name, word_of_nat (length (d_frames (rn_driver rn))) - 1)]\<rparr>\<rparr>))"
| "run_lines env recorded authorized replayed_ordinal (Stepped ordinal stat reason ps # ls) rn =
     runner_stepped recorded replayed_ordinal ordinal stat reason ps
       (rn\<lparr>rn_driver := (rn_driver rn)\<lparr>d_queue := ls\<rparr>\<rparr>)"
| "run_lines env recorded authorized replayed_ordinal (other # ls) rn =
     Inl (RunDriver (UnexpectedStepAnswer other))"

text \<open>The body of the loop over the recording, for an input that is delivered.\<close>

definition run_input ::
  "'s run_env \<Rightarrow> frame \<Rightarrow> 's runner \<Rightarrow> runner_error + 's runner \<times> stop option" where
  "run_input env recorded rn =
     (let recording = cf_frames (re_case env); st = rn_driver rn in
      case runner_ref recording recorded of
        Inl e \<Rightarrow> Inl e
      | Inr request \<Rightarrow>
          (case (case request of None \<Rightarrow> Inr recorded
                 | Some r \<Rightarrow> answer_for (rn_goals rn) (rn_canonical rn) recording (d_frames st) recorded r) of
             Inl reason \<Rightarrow>
               Inr (rn\<lparr>rn_driver := st\<lparr>d_steps := d_steps st @
                       [\<lparr>dl_recorded_ordinal = f_ordinal recorded, dl_replayed_ordinal = None,
                         dl_status = StatusRefused, dl_reason = Some reason\<rparr>]\<rparr>\<rparr>,
                    Some (StopRefused (f_ordinal recorded) reason))
           | Inr translated \<Rightarrow>
               let st1 = send_request (re_react env) (StepRequest (wire_of_frame translated) request) st;
                   authorized = authorized_callbacks st1 recorded request;
                   replayed_ordinal = word_of_nat (length (d_frames st1))
               in run_lines env recorded authorized replayed_ordinal (d_queue st1)
                    (rn\<lparr>rn_driver := st1\<lparr>d_frames := push_frame (d_frames st1) translated\<rparr>\<rparr>)))"

fun run_deliver ::
  "'s run_env \<Rightarrow> frame list \<Rightarrow> 's runner \<Rightarrow> runner_error + 's runner \<times> stop" where
  "run_deliver env [] rn = Inr (rn, StopExhausted)"
| "run_deliver env (recorded # rest) rn =
     (if f_event_type recorded = EvSession then
        run_deliver env rest
          (rn\<lparr>rn_driver := (rn_driver rn)\<lparr>d_frames := push_frame (d_frames (rn_driver rn)) recorded,
             d_session_sequence := f_src_seq recorded + 1\<rparr>\<rparr>)
      else if f_event_type recorded = EvEnd then Inr (rn, StopExhausted)
      else if f_event_type recorded = EvGap then
        (case decode_gap (f_ordinal recorded) (f_body recorded) of
           Inl e \<Rightarrow> Inl (RunDriver (BadMarker e))
         | Inr g \<Rightarrow> Inr (rn, StopGap (f_ordinal recorded) g))
      else if frame_kind recorded = KEmit then run_deliver env rest rn
      else case run_input env recorded rn of
        Inl e \<Rightarrow> Inl e
      | Inr (rn', Some stp) \<Rightarrow> Inr (rn', stp)
      | Inr (rn', None) \<Rightarrow> run_deliver env rest rn')"

subsection \<open>Finishing\<close>

definition last_step_is :: "'s driver \<Rightarrow> u64 \<Rightarrow> bool" where
  "last_step_is st ordinal \<longleftrightarrow> d_steps st \<noteq> [] \<and> dl_recorded_ordinal (last (d_steps st)) = ordinal"

text \<open>An effect written after the one that decided the property: kept, and counted.\<close>

definition late_effect ::
  "'s run_env \<Rightarrow> u64 \<Rightarrow> u64 \<Rightarrow> wire_frame \<Rightarrow> 's runner \<Rightarrow> runner_error + 's runner" where
  "late_effect env stp callback effect rn =
     (let st = rn_driver rn in
      if \<not> (last_step_is st stp \<and> callback \<in> set (rn_finish_callbacks rn)) then Inl LateAssociation
      else case frame_from_wire (word_of_nat (length (d_frames st))) effect of
        Inl e \<Rightarrow> Inl (RunDriver (BadEffectWire e))
      | Inr f \<Rightarrow>
          if \<not> (f_src_actor f = COMPONENT_ACTOR_ID \<and> frame_kind f = KEmit) then Inl LateEffect
          else (case decode_payload (f_ordinal f) (payload f) of
              Inl e \<Rightarrow> Inl (UndecodedEffect e)
            | Inr _ \<Rightarrow>
                (case validate_event f (re_identity env) of
                   Inl e \<Rightarrow> Inl (RunCase e)
                 | Inr _ \<Rightarrow>
                     let expected = next_seq (d_effect_sequences st) (f_channel_id f) in
                     if f_src_seq f \<noteq> expected then Inl LateSequence
                     else (case goals_effect (rn_goals rn) f of
                         Inl e \<Rightarrow> Inl (RunGoals e)
                       | Inr (g, c) \<Rightarrow>
                           Inr (rn\<lparr>rn_driver := st\<lparr>d_effect_sequences :=
                                    (d_effect_sequences st)(f_channel_id f \<mapsto> expected + 1),
                                  d_frames := push_frame (d_frames st) f,
                                  d_effects := d_effects st @ [(callback, word_of_nat (length (d_frames st)))]\<rparr>,
                                rn_goals := g,
                                rn_canonical := (rn_canonical rn)(f_ordinal f \<mapsto> c)\<rparr>)))))"

fun finish_lines ::
  "'s run_env \<Rightarrow> finish_reason \<Rightarrow> response list \<Rightarrow> 's runner \<Rightarrow> runner_error + 's runner \<times> pending list" where
  "finish_lines env finish_reason [] rn = Inl (RunDriver AdapterClosed)"
| "finish_lines env finish_reason (Finished reason ps reported # ls) rn =
     (if reason \<noteq> finish_reason then Inl (RunDriver (WrongFinishReason reason))
      else if reported \<noteq> word_of_nat (length (d_effects (rn_driver rn)))
      then Inl (RunDriver (WrongEffectCount reported (length (d_effects (rn_driver rn)))))
      else Inr (rn, ps))"
| "finish_lines env finish_reason (ProgressLine stp callback name # ls) rn =
     (if rn_terminal rn = None then Inl (RunDriver (UnexpectedFinishAnswer (ProgressLine stp callback name)))
      else if \<not> (last_step_is (rn_driver rn) stp \<and> callback \<in> set (rn_finish_callbacks rn))
      then Inl LateProgress
      else finish_lines env finish_reason ls
        (rn\<lparr>rn_driver := (rn_driver rn)\<lparr>d_progress := d_progress (rn_driver rn) @
             [(callback, name, word_of_nat (length (d_frames (rn_driver rn))) - 1)]\<rparr>\<rparr>))"
| "finish_lines env finish_reason (Stepped ordinal stat reason ps # ls) rn =
     (if rn_terminal rn = None
      then Inl (RunDriver (UnexpectedFinishAnswer (Stepped ordinal stat reason ps)))
      else if \<not> (last_step_is (rn_driver rn) ordinal \<and> stat = StatusOk) then Inl LateDenial
      else finish_lines env finish_reason ls (rn\<lparr>rn_driver := (rn_driver rn)\<lparr>d_pending := ps\<rparr>\<rparr>))"
| "finish_lines env finish_reason (EffectLine stp callback effect # ls) rn =
     (if rn_terminal rn = None
      then Inl (RunDriver (UnexpectedFinishAnswer (EffectLine stp callback effect)))
      else case late_effect env stp callback effect rn of
        Inl e \<Rightarrow> Inl e
      | Inr rn' \<Rightarrow> finish_lines env finish_reason ls rn')"
| "finish_lines env finish_reason (other # ls) rn = Inl (RunDriver (UnexpectedFinishAnswer other))"

definition runner_finish_reason :: "stop \<Rightarrow> 's runner \<Rightarrow> finish_reason" where
  "runner_finish_reason stp rn =
     (if stp = StopExhausted \<and> rn_terminal rn = None then FinishExhausted else FinishScope)"

definition finish_runner ::
  "'s run_env \<Rightarrow> stop \<Rightarrow> 's runner \<Rightarrow> runner_error + 's runner \<times> pending list" where
  "finish_runner env stp rn =
     (let st = send_request (re_react env) (Finish (runner_finish_reason stp rn)) (rn_driver rn) in
      case finish_lines env (runner_finish_reason stp rn) (d_queue st) (rn\<lparr>rn_driver := st\<rparr>) of
        Inl e \<Rightarrow> Inl e
      | Inr (rn', ps) \<Rightarrow>
          if re_exit env (d_adapter (rn_driver rn')) = Some 0 then Inr (rn', ps)
          else Inl AdapterUnsuccessful)"

subsection \<open>The run and its normalized frames\<close>

record execution =
  x_run :: run
  x_normalized :: "frame list"
  x_property :: property_result
  x_scope_completed :: bool

text \<open>Effects with the recorded goals, inputs with the bodies that were recorded.\<close>

definition normalize_frame ::
  "frame list \<Rightarrow> (u64 \<Rightarrow> frame option) \<Rightarrow> delivered list \<Rightarrow> frame \<Rightarrow> frame" where
  "normalize_frame recording canon steps f =
     (case canon (f_ordinal f) of
        Some effect \<Rightarrow> effect
      | None \<Rightarrow>
          (case find (\<lambda>s. dl_replayed_ordinal s = Some (f_ordinal f)) steps of
             Some s \<Rightarrow> f\<lparr>f_body := f_body (recording ! unat (dl_recorded_ordinal s))\<rparr>
           | None \<Rightarrow> f))"

definition run_of :: "session \<Rightarrow> stop \<Rightarrow> pending list \<Rightarrow> 's runner \<Rightarrow> run" where
  "run_of sess stp ps rn =
     (let st = rn_driver rn in
      \<lparr>r_frames = d_frames st @
         [end_frame (s_uuid sess) (word_of_nat (length (d_frames st))) (d_session_sequence st)],
       r_steps = d_steps st, r_effects = d_effects st, r_progress = d_progress st,
       r_pending_after_last_step = d_pending st, r_pending_at_finish = ps, r_stop = stp,
       r_finish_reason = runner_finish_reason stp rn\<rparr>)"

definition run_property :: "'s run_env \<Rightarrow> run \<Rightarrow> 's runner \<Rightarrow> runner_error + property_result" where
  "run_property env r rn =
     (case rn_terminal rn of
        Some result \<Rightarrow> Inr result
      | None \<Rightarrow> property_evaluate (re_program env) (cf_declaration (re_case env)) r (re_identity env))"

definition prepare_run ::
  "'s run_env \<Rightarrow> runner_error + string \<times> string \<times> goals \<times> session \<times> starting_state_id" where
  "prepare_run env =
     (let declaration = cf_declaration (re_case env) in
      case run_entry declaration ''corpus'' of
        Inl e \<Rightarrow> Inl e
      | Inr corpus \<Rightarrow>
          (case run_entry declaration ''scenario'' of
             Inl e \<Rightarrow> Inl e
           | Inr scenario \<Rightarrow>
               (case run_entry declaration ''comparison_policy'' of
                  Inl e \<Rightarrow> Inl e
                | Inr policy \<Rightarrow>
                    (case goals_new (re_source_hash env) (re_reference_hash env) (cf_frames (re_case env))
                            (re_identity env) policy of
                       Inl e \<Rightarrow> Inl (RunGoals e)
                     | Inr g \<Rightarrow>
                         (case cf_frames (re_case env) of
                            [] \<Rightarrow> Inl (RunDriver EmptyRecording)
                          | session_frame # _ \<Rightarrow>
                              (case decode_session (f_body session_frame) of
                                 Inl e \<Rightarrow> Inl (RunDriver (BadMarker e))
                               | Inr sess \<Rightarrow>
                                   (case runner_state_of (re_identity env) of
                                      Inl e \<Rightarrow> Inl e
                                    | Inr requested \<Rightarrow> Inr (corpus, scenario, g, sess, requested))))))))"

definition run_case_replay :: "'s run_env \<Rightarrow> 's \<Rightarrow> runner_error + execution" where
  "run_case_replay env s =
     (case prepare_run env of
        Inl e \<Rightarrow> Inl e
      | Inr (corpus, scenario, g, sess, requested) \<Rightarrow>
          (case start_runner env s g corpus scenario requested of
             Inl e \<Rightarrow> Inl e
           | Inr rn0 \<Rightarrow>
               (case run_deliver env (cf_frames (re_case env)) rn0 of
                  Inl e \<Rightarrow> Inl e
                | Inr (rn, stp) \<Rightarrow>
                    (case finish_runner env stp rn of
                       Inl e \<Rightarrow> Inl e
                     | Inr (rn', ps) \<Rightarrow>
                         (case run_property env (run_of sess stp ps rn') rn' of
                            Inl e \<Rightarrow> Inl e
                          | Inr result \<Rightarrow>
                              Inr \<lparr>x_run = run_of sess stp ps rn',
                                   x_normalized =
                                     map (normalize_frame (cf_frames (re_case env)) (rn_canonical rn')
                                        (d_steps (rn_driver rn')))
                                       (r_frames (run_of sess stp ps rn')),
                                   x_property = result,
                                   x_scope_completed = (pr_result result = VPass)\<rparr>)))))"

end
