(* ===== verification/Runner_Invariant.thy ===== *)
theory Runner_Invariant
  imports Case_Runner
begin

text \<open>
  The invariant of the case runner's replay: the frames collected so far form the prefix of a stream, the
  normalization has translated every effect, and the delivered inputs stand for the recorded ones.
\<close>

section \<open>What the steps of a replay do\<close>

subsection \<open>Translations change bodies only\<close>

lemma goals_effect_frame:
  assumes "goals_effect g f = Inr (g', c)"
  shows "\<exists>b. c = f\<lparr>f_body := b\<rparr>"
proof -
  have "\<exists>b. put_id k i f = f\<lparr>f_body := b\<rparr>" for k i unfolding put_id_def by blast
  moreover have "\<exists>b. f = f\<lparr>f_body := b\<rparr>" by (rule exI [of _ "f_body f"]) simp
  ultimately show ?thesis
    using assms by (auto simp: goals_effect_def Let_def split: if_splits sum.splits option.splits)
qed

lemma cancelled_goals_length: "cancelled_goals g c is seen = Inr js \<Longrightarrow> length js = length is"
  by (induction "is" arbitrary: seen js) (auto split: if_splits sum.splits option.splits)

lemma encode_cancel_response_length:
  "encode_cancel_response c = Inr body \<Longrightarrow> length body = 11 + 16 * length (cr_goals c)"
  by (auto simp: encode_cancel_response_def length_concat comp_def sum_list_triv split: if_splits)

text \<open>A recorded response keeps its layout when it is translated.\<close>

definition same_layout :: "frame \<Rightarrow> frame \<Rightarrow> bool" where
  "same_layout f d \<longleftrightarrow>
     (\<exists>b. d = f\<lparr>f_body := b\<rparr> \<and> length b = length (f_body f) \<and>
        (b = f_body f \<or> f_event_type f \<in> {EvGoalResponse, EvFeedback, EvResult, EvCancelResponse}) \<and>
        (body_fits (f_event_type f) (f_body f) \<longrightarrow> body_fits (f_event_type f) b))"

lemma same_layout_refl [simp]: "same_layout f f"
  unfolding same_layout_def by (rule exI [of _ "f_body f"]) simp

lemma goals_input_layout:
  assumes "goals_input g raw request = Inr d"
  shows "same_layout raw d"
proof -
  consider (goal) "f_event_type raw \<in> {EvGoalResponse, EvFeedback, EvResult}"
    | (cancel) "f_event_type raw = EvCancelResponse"
    | (other) "f_event_type raw \<notin> {EvGoalResponse, EvFeedback, EvResult, EvCancelResponse}" by blast
  then show ?thesis
  proof cases
    case goal
    then obtain i where "id_at (f_body raw) 8 = Inr i" and d: "d = raw \<or> (\<exists>j. d = put_id 8 j raw)"
      using assms by (auto simp: goals_input_def split: if_splits option.splits sum.splits)
    then have len: "24 \<le> length (f_body raw)" by (auto simp: id_at_def get_range_def split: if_splits)
    show ?thesis
    proof (cases "d = raw")
      case False
      then obtain j where "d = put_id 8 j raw" using d by blast
      with len goal show ?thesis
        unfolding same_layout_def put_id_def
        by (intro exI [of _ "take 8 (f_body raw) @ to_le j @ drop 24 (f_body raw)"]) auto
    qed simp
  next
    case cancel
    then obtain r js b where dec: "decode_cancel_response (f_body raw) = Inr r"
      and js: "length js = length (cr_goals r)" and enc: "encode_cancel_response (r\<lparr>cr_goals := js\<rparr>) = Inr b"
      and d: "d = raw\<lparr>f_body := b\<rparr>"
      using assms by (auto simp: goals_input_def split: if_splits sum.splits dest: cancelled_goals_length)
    have "length b = length (f_body raw)"
      using encode_cancel_response_length [OF enc] encode_cancel_response_length [OF encode_decode_cancel_response [OF dec]] js
      by simp
    moreover have "body_fits EvCancelResponse b"
      using decode_encode_cancel_response [OF enc] by (auto simp: decode_cancel_response_def u16_at_def Let_def split: if_splits)
    ultimately show ?thesis
      unfolding same_layout_def using cancel d by (intro exI [of _ b]) auto
  next
    case other
    then show ?thesis using assms by (simp add: goals_input_def)
  qed
qed

lemma answer_for_layout: "answer_for g canon recording fs f r = Inr d \<Longrightarrow> same_layout f d"
  by (auto simp: answer_for_def Let_def split: sum.splits if_splits option.splits dest: goals_input_layout)

subsection \<open>Effects\<close>

definition add_effect :: "u64 \<Rightarrow> frame \<Rightarrow> 's driver \<Rightarrow> 's driver" where
  "add_effect callback f st =
     st\<lparr>d_effect_sequences := (d_effect_sequences st)(f_channel_id f \<mapsto> f_src_seq f + 1),
        d_frames := d_frames st @ [f], d_effects := d_effects st @ [(callback, f_ordinal f)]\<rparr>"

definition effect_of :: "'s driver \<Rightarrow> frame \<Rightarrow> bool" where
  "effect_of st f \<longleftrightarrow>
     is_emit f \<and> f_src_actor f = COMPONENT_ACTOR_ID \<and> wf_header (f_header f) \<and>
     body_fits (f_event_type f) (f_body f) \<and> f_src_seq f = next_seq (d_effect_sequences st) (f_channel_id f) \<and>
     f_ordinal f = word_of_nat (length (d_frames st)) \<and> f_observed_ns f = 0"

text \<open>One more effect in the run, translated and kept beside it.\<close>

definition effect_step :: "'s runner \<Rightarrow> 's runner \<Rightarrow> bool" where
  "effect_step rn rn' \<longleftrightarrow>
     (\<exists>callback f g c. effect_of (rn_driver rn) f \<and> goals_effect (rn_goals rn) f = Inr (g, c) \<and>
        rn' = rn\<lparr>rn_driver := add_effect callback f (rn_driver rn), rn_goals := g,
                rn_canonical := (rn_canonical rn)(f_ordinal f \<mapsto> c)\<rparr>)"

lemma frame_from_wire_fields:
  "frame_from_wire n w = Inr f \<Longrightarrow> f_ordinal f = n \<and> f_observed_ns f = 0"
  by (auto simp: frame_from_wire_def split: option.splits)

lemma decode_payload_fits:
  "decode_payload n (payload f) = Inr p \<Longrightarrow> wf_header (f_header f) \<and> body_fits (f_event_type f) (f_body f)"
  by (auto simp: decode_payload_def payload_def encode_header_def EVENT_HEADER_SIZE_def Let_def wf_header_def
      split: if_splits)

lemma collect_effect_step:
  assumes "collect_effect env recorded authorized stp callback w rn = Inr rn'"
  shows "effect_step rn rn'"
proof -
  from assms obtain f p g c where wire: "frame_from_wire (word_of_nat (length (d_frames (rn_driver rn)))) w = Inr f"
    and f: "f_src_actor f = COMPONENT_ACTOR_ID" "frame_kind f = KEmit"
      "f_src_seq f = next_seq (d_effect_sequences (rn_driver rn)) (f_channel_id f)"
    and p: "decode_payload (word_of_nat (length (d_frames (rn_driver rn)))) (payload f) = Inr p"
    and c: "goals_effect (rn_goals rn) f = Inr (g, c)"
    and rn': "rn' = rn\<lparr>rn_driver := (rn_driver rn)\<lparr>d_effect_sequences :=
          (d_effect_sequences (rn_driver rn))(f_channel_id f \<mapsto> f_src_seq f + 1),
        d_frames := push_frame (d_frames (rn_driver rn)) f,
        d_effects := d_effects (rn_driver rn) @ [(callback, word_of_nat (length (d_frames (rn_driver rn))))]\<rparr>,
      rn_goals := g, rn_canonical := (rn_canonical rn)(word_of_nat (length (d_frames (rn_driver rn))) \<mapsto>
        c\<lparr>f_ordinal := word_of_nat (length (d_frames (rn_driver rn)))\<rparr>)\<rparr>"
    by (auto simp: collect_effect_def Let_def split: if_splits sum.splits prod.splits)
  have f': "f_ordinal f = word_of_nat (length (d_frames (rn_driver rn)))" "f_observed_ns f = 0"
    using frame_from_wire_fields [OF wire] by simp_all
  obtain b where "c = f\<lparr>f_body := b\<rparr>" using goals_effect_frame [OF c] by blast
  then have "c\<lparr>f_ordinal := word_of_nat (length (d_frames (rn_driver rn)))\<rparr> = c" using f' by simp
  moreover have "push_frame (d_frames (rn_driver rn)) f = d_frames (rn_driver rn) @ [f]"
    using f' by (simp add: push_frame_def)
  ultimately have "rn' = rn\<lparr>rn_driver := add_effect callback f (rn_driver rn), rn_goals := g,
      rn_canonical := (rn_canonical rn)(f_ordinal f \<mapsto> c)\<rparr>"
    using rn' f' by (simp add: add_effect_def)
  moreover have "effect_of (rn_driver rn) f"
    using f f' decode_payload_fits [OF p] by (simp add: effect_of_def is_emit_def)
  ultimately show ?thesis using c unfolding effect_step_def by blast
qed

lemma late_effect_step:
  assumes "late_effect env stp callback w rn = Inr rn'"
  shows "effect_step rn rn'"
proof -
  from assms obtain f p g c where wire: "frame_from_wire (word_of_nat (length (d_frames (rn_driver rn)))) w = Inr f"
    and f: "f_src_actor f = COMPONENT_ACTOR_ID" "frame_kind f = KEmit"
      "f_src_seq f = next_seq (d_effect_sequences (rn_driver rn)) (f_channel_id f)"
    and p: "decode_payload (f_ordinal f) (payload f) = Inr p"
    and c: "goals_effect (rn_goals rn) f = Inr (g, c)"
    and rn': "rn' = rn\<lparr>rn_driver := (rn_driver rn)\<lparr>d_effect_sequences :=
          (d_effect_sequences (rn_driver rn))(f_channel_id f \<mapsto> f_src_seq f + 1),
        d_frames := push_frame (d_frames (rn_driver rn)) f,
        d_effects := d_effects (rn_driver rn) @ [(callback, word_of_nat (length (d_frames (rn_driver rn))))]\<rparr>,
      rn_goals := g, rn_canonical := (rn_canonical rn)(f_ordinal f \<mapsto> c)\<rparr>"
    by (auto simp: late_effect_def Let_def split: if_splits sum.splits prod.splits)
  have f': "f_ordinal f = word_of_nat (length (d_frames (rn_driver rn)))" "f_observed_ns f = 0"
    using frame_from_wire_fields [OF wire] by simp_all
  have "rn' = rn\<lparr>rn_driver := add_effect callback f (rn_driver rn), rn_goals := g,
      rn_canonical := (rn_canonical rn)(f_ordinal f \<mapsto> c)\<rparr>"
    using rn' f' by (simp add: add_effect_def push_frame_def)
  moreover have "effect_of (rn_driver rn) f"
    using f f' decode_payload_fits [OF p] by (simp add: effect_of_def is_emit_def)
  ultimately show ?thesis using c unfolding effect_step_def by blast
qed

lemma effect_step_terminal: "effect_step rn rn' \<Longrightarrow> rn_terminal rn' = rn_terminal rn"
  by (auto simp: effect_step_def)

subsection \<open>The receive loops\<close>

text \<open>What the stream and the normalization depend on.\<close>

definition runner_view :: "'s runner \<Rightarrow>
    frame list \<times> (u32 \<Rightarrow> u64 option) \<times> delivered list \<times> u64 \<times> goals \<times> (u64 \<Rightarrow> frame option)" where
  "runner_view rn =
     (d_frames (rn_driver rn), d_effect_sequences (rn_driver rn), d_steps (rn_driver rn),
      d_session_sequence (rn_driver rn), rn_goals rn, rn_canonical rn)"

inductive effects_added :: "'s runner \<Rightarrow> 's runner \<Rightarrow> bool" for rn where
  effects_none: "runner_view rn' = runner_view rn \<Longrightarrow> effects_added rn rn'"
| effects_snoc: "effects_added rn rn1 \<Longrightarrow> effect_step rn1 rn2 \<Longrightarrow> runner_view rn3 = runner_view rn2 \<Longrightarrow>
    effects_added rn rn3"

lemma effect_step_view:
  assumes "effect_step rn1 rn2" and "runner_view rn1 = runner_view rn1'"
  shows "\<exists>rn2'. effect_step rn1' rn2' \<and> runner_view rn2' = runner_view rn2"
proof -
  from assms(1) obtain callback f g c where f: "effect_of (rn_driver rn1) f"
    "goals_effect (rn_goals rn1) f = Inr (g, c)"
    and rn2: "rn2 = rn1\<lparr>rn_driver := add_effect callback f (rn_driver rn1), rn_goals := g,
                rn_canonical := (rn_canonical rn1)(f_ordinal f \<mapsto> c)\<rparr>"
    unfolding effect_step_def by blast
  let ?rn = "rn1'\<lparr>rn_driver := add_effect callback f (rn_driver rn1'), rn_goals := g,
                rn_canonical := (rn_canonical rn1')(f_ordinal f \<mapsto> c)\<rparr>"
  have "effect_of (rn_driver rn1') f" "goals_effect (rn_goals rn1') f = Inr (g, c)"
    using f assms(2) by (simp_all add: effect_of_def runner_view_def)
  then have "effect_step rn1' ?rn" unfolding effect_step_def by blast
  moreover have "runner_view ?rn = runner_view rn2"
    using assms(2) by (simp add: rn2 runner_view_def add_effect_def)
  ultimately show ?thesis by blast
qed

lemma effects_added_view:
  assumes "effects_added rn rn1" and "runner_view rn2 = runner_view rn1"
  shows "effects_added rn rn2"
  using assms(1)
proof cases
  case effects_none
  show ?thesis by (rule effects_added.effects_none) (rule trans [OF assms(2) effects_none])
next
  case (effects_snoc rn3 rn4)
  show ?thesis
    by (rule effects_added.effects_snoc [OF effects_snoc(1,2)]) (rule trans [OF assms(2) effects_snoc(3)])
qed

lemma effects_added_trans:
  assumes "effects_added rn1 rn2" and "effects_added rn rn1"
  shows "effects_added rn rn2"
  using assms
proof (induction rule: effects_added.induct)
  case (effects_none rn')
  then show ?case using effects_added_view by blast
next
  case (effects_snoc rn2 rn3 rn4)
  then show ?case using effects_added.effects_snoc by blast
qed

lemma effects_added_from:
  assumes "runner_view rn1 = runner_view rn" and "effects_added rn1 rn2"
  shows "effects_added rn rn2"
  by (rule effects_added_trans [OF assms(2) effects_none [OF assms(1)]])

lemma effects_added_step: "effect_step rn rn1 \<Longrightarrow> effects_added rn1 rn2 \<Longrightarrow> effects_added rn rn2"
  by (rule effects_added_trans [of rn1]) (auto intro: effects_snoc [OF effects_none])

text \<open>The decision at an effect, as the step is counted as consumed.\<close>

definition decided_by ::
  "'s run_env \<Rightarrow> frame \<Rightarrow> u64 \<Rightarrow> 's runner \<Rightarrow> property_result \<Rightarrow> 's runner \<Rightarrow> bool" where
  "decided_by env recorded ro rn result rn' \<longleftrightarrow>
     re_candidate env \<and> decisive result \<and>
     property_evaluate (re_program env) (cf_declaration (re_case env))
       (current_run recorded ro (rn_driver rn)) (re_identity env) = Inr result \<and>
     rn_terminal rn' = Some result \<and>
     runner_view rn' = runner_view (rn\<lparr>rn_driver := (rn_driver rn)\<lparr>d_steps :=
       r_steps (current_run recorded ro (rn_driver rn))\<rparr>\<rparr>)"

lemma decide_at_effect_Inr:
  assumes "decide_at_effect env recorded authorized ro ls rn = Inr (rn', b)"
  shows "if b then \<exists>result. decided_by env recorded ro rn result rn' else rn' = rn"
  using assms
  by (auto simp: decide_at_effect_def decided_by_def Let_def runner_view_def split: if_splits sum.splits)

lemma run_lines_Inr:
  assumes "run_lines env recorded authorized ro ls rn = Inr (rn', stp)"
  shows "\<exists>rn1. effects_added rn rn1 \<and> rn_terminal rn1 = rn_terminal rn \<and>
    ((\<exists>n stat reason ps. runner_stepped recorded ro n stat reason ps rn1 = Inr (rn', stp)) \<or>
     stp = Some StopExhausted \<and> (\<exists>result. decided_by env recorded ro rn1 result rn'))"
  using assms
proof (induction env recorded authorized ro ls rn rule: run_lines.induct)
  case (2 env recorded authorized ro n callback w ls rn)
  from "2.prems" obtain rn1 where rn1: "collect_effect env recorded authorized n callback w rn = Inr rn1"
    by (auto split: sum.splits)
  from "2.prems" rn1 obtain rn2 b where d: "decide_at_effect env recorded authorized ro ls rn1 = Inr (rn2, b)"
    by (auto split: sum.splits)
  note step = collect_effect_step [OF rn1]
  show ?case
  proof (cases b)
    case True
    with "2.prems" rn1 d have "rn' = rn2" "stp = Some StopExhausted" by simp_all
    moreover have "effects_added rn rn1" by (rule effects_added_step [OF step effects_none]) simp
    moreover have "rn_terminal rn1 = rn_terminal rn" by (rule effect_step_terminal [OF step])
    moreover have "\<exists>result. decided_by env recorded ro rn1 result rn2"
      using decide_at_effect_Inr [OF d] True by simp
    ultimately show ?thesis by blast
  next
    case False
    with decide_at_effect_Inr [OF d] have "rn2 = rn1" by simp
    with "2.prems" rn1 d False have d': "decide_at_effect env recorded authorized ro ls rn1 = Inr (rn1, False)"
      and more: "run_lines env recorded authorized ro ls rn1 = Inr (rn', stp)" by simp_all
    from "2.IH" [OF rn1 d' refl refl more] obtain rn3 where "effects_added rn1 rn3" "rn_terminal rn3 = rn_terminal rn1"
      "(\<exists>n stat reason ps. runner_stepped recorded ro n stat reason ps rn3 = Inr (rn', stp)) \<or>
       stp = Some StopExhausted \<and> (\<exists>result. decided_by env recorded ro rn3 result rn')" by blast
    moreover have "effects_added rn rn3" by (rule effects_added_step [OF step]) fact
    moreover have "rn_terminal rn1 = rn_terminal rn" by (rule effect_step_terminal [OF step])
    ultimately show ?thesis by (intro exI [of _ rn3] conjI) simp_all
  qed
next
  case (3 env recorded authorized ro n callback name ls rn)
  let ?rn = "rn\<lparr>rn_driver := (rn_driver rn)\<lparr>d_progress := d_progress (rn_driver rn) @
             [(callback, name, word_of_nat (length (d_frames (rn_driver rn))) - 1)]\<rparr>\<rparr>"
  from "3.prems" have auth: "\<not> (n \<noteq> f_ordinal recorded \<or> callback \<notin> set authorized)"
    and more: "run_lines env recorded authorized ro ls ?rn = Inr (rn', stp)"
    by (auto split: if_splits)
  from "3.IH" [OF auth more] obtain rn3 where "effects_added ?rn rn3" "rn_terminal rn3 = rn_terminal ?rn"
      "(\<exists>n stat reason ps. runner_stepped recorded ro n stat reason ps rn3 = Inr (rn', stp)) \<or>
       stp = Some StopExhausted \<and> (\<exists>result. decided_by env recorded ro rn3 result rn')" by blast
  moreover have "effects_added rn rn3"
    by (rule effects_added_from [of ?rn]) (simp_all add: runner_view_def \<open>effects_added ?rn rn3\<close>)
  ultimately show ?case by (intro exI [of _ rn3] conjI) simp_all
next
  case (4 env recorded authorized ro n stat reason ps ls rn)
  let ?rn = "rn\<lparr>rn_driver := (rn_driver rn)\<lparr>d_queue := ls\<rparr>\<rparr>"
  have "effects_added rn ?rn" by (rule effects_none) (simp add: runner_view_def)
  moreover have "runner_stepped recorded ro n stat reason ps ?rn = Inr (rn', stp)" using "4.prems" by simp
  ultimately show ?case by (intro exI [of _ ?rn] conjI) auto
qed simp_all

lemma finish_lines_Inr:
  assumes "finish_lines env fr ls rn = Inr (rn', ps)"
  shows "effects_added rn rn' \<and> rn_terminal rn' = rn_terminal rn \<and>
    (rn_terminal rn = None \<longrightarrow> rn' = rn)"
  using assms
proof (induction env fr ls rn rule: finish_lines.induct)
  case (2 env fr reason qs reported ls rn)
  then show ?case by (auto intro: effects_none split: if_splits)
next
  case (3 env fr n callback name ls rn)
  let ?rn = "rn\<lparr>rn_driver := (rn_driver rn)\<lparr>d_progress := d_progress (rn_driver rn) @
             [(callback, name, word_of_nat (length (d_frames (rn_driver rn))) - 1)]\<rparr>\<rparr>"
  from "3.prems" have t: "rn_terminal rn \<noteq> None"
      "\<not> \<not> (last_step_is (rn_driver rn) n \<and> callback \<in> set (rn_finish_callbacks rn))"
    and more: "finish_lines env fr ls ?rn = Inr (rn', ps)"
    by (auto split: if_splits)
  from "3.IH" [OF t more] have ih: "effects_added ?rn rn'" "rn_terminal rn' = rn_terminal rn" by simp_all
  have "effects_added rn rn'" by (rule effects_added_from [OF _ ih(1)]) (simp add: runner_view_def)
  with ih t show ?case by blast
next
  case (4 env fr n stat reason qs ls rn)
  let ?rn = "rn\<lparr>rn_driver := (rn_driver rn)\<lparr>d_pending := qs\<rparr>\<rparr>"
  from "4.prems" have t: "rn_terminal rn \<noteq> None" "\<not> \<not> (last_step_is (rn_driver rn) n \<and> stat = StatusOk)"
    and more: "finish_lines env fr ls ?rn = Inr (rn', ps)"
    by (auto split: if_splits)
  from "4.IH" [OF t more] have ih: "effects_added ?rn rn'" "rn_terminal rn' = rn_terminal rn" by simp_all
  have "effects_added rn rn'" by (rule effects_added_from [OF _ ih(1)]) (simp add: runner_view_def)
  with ih t show ?case by blast
next
  case (5 env fr n callback w ls rn)
  from "5.prems" have t: "rn_terminal rn \<noteq> None" by (auto split: if_splits)
  with "5.prems" obtain rn1 where rn1: "late_effect env n callback w rn = Inr rn1"
    and more: "finish_lines env fr ls rn1 = Inr (rn', ps)" by (auto split: sum.splits)
  from "5.IH" [OF t rn1 more] have ih: "effects_added rn1 rn'" "rn_terminal rn' = rn_terminal rn1" by simp_all
  note step = late_effect_step [OF rn1]
  have "effects_added rn rn'" by (rule effects_added_step [OF step ih(1)])
  with ih t effect_step_terminal [OF step] show ?case by auto
qed simp_all

lemma finish_runner_Inr:
  assumes "finish_runner env stp rn = Inr (rn', ps)"
  shows "effects_added rn rn'" and "rn_terminal rn' = rn_terminal rn"
    and "rn_terminal rn = None \<Longrightarrow> runner_view rn' = runner_view rn"
    and "re_exit env (d_adapter (rn_driver rn')) = Some 0"
proof -
  let ?st = "send_request (re_react env) (Finish (runner_finish_reason stp rn)) (rn_driver rn)"
  from assms have fin: "finish_lines env (runner_finish_reason stp rn) (d_queue ?st) (rn\<lparr>rn_driver := ?st\<rparr>) = Inr (rn', ps)"
    and ex: "re_exit env (d_adapter (rn_driver rn')) = Some 0"
    by (auto simp: finish_runner_def Let_def split: sum.splits if_splits)
  have same: "runner_view (rn\<lparr>rn_driver := ?st\<rparr>) = runner_view rn" by (simp add: runner_view_def)
  note f = finish_lines_Inr [OF fin]
  show "effects_added rn rn'" using effects_added_from [OF same] f by blast
  show "rn_terminal rn' = rn_terminal rn" using f by simp
  show "rn_terminal rn = None \<Longrightarrow> runner_view rn' = runner_view rn" using f same by simp
  show "re_exit env (d_adapter (rn_driver rn')) = Some 0" by (rule ex)
qed

section \<open>The invariant of a replay\<close>

text \<open>The inputs of a stream after its session frame, and what translation keeps of each.\<close>

definition delivered_in :: "frame list \<Rightarrow> frame list" where
  "delivered_in fs = filter (\<lambda>f. \<not> is_emit f) (tl fs)"

definition shape :: "frame \<Rightarrow> frame" where
  "shape f = f\<lparr>f_ordinal := 0, f_observed_ns := 0, f_body := []\<rparr>"

definition links :: "delivered list \<Rightarrow> (u64 \<times> u64) list" where
  "links steps = List.map_filter (\<lambda>s. map_option (\<lambda>r. (r, dl_recorded_ordinal s)) (dl_replayed_ordinal s)) steps"

text \<open>The translations of the effects of the run, by ordinal.\<close>

definition normal_inv :: "goals \<Rightarrow> 's runner \<Rightarrow> bool" where
  "normal_inv g0 rn \<longleftrightarrow>
     (let effs = filter is_emit (d_frames (rn_driver rn)) in
      (\<exists>ns. normalize_effects g0 effs = Inr (rn_goals rn, ns) \<and>
         map (\<lambda>f. rn_canonical rn (f_ordinal f)) effs = map Some ns) \<and>
      (\<forall>n. rn_canonical rn n \<noteq> None \<longrightarrow> n \<in> f_ordinal ` set effs))"

definition stream_inv :: "'s runner \<Rightarrow> bool" where
  "stream_inv rn \<longleftrightarrow>
     frames_inv (d_effect_sequences (rn_driver rn)) (d_frames (rn_driver rn)) \<and>
     (\<forall>f\<in>set (d_frames (rn_driver rn)). is_emit f \<longrightarrow> body_fits (f_event_type f) (f_body f)) \<and>
     session_of (d_frames (rn_driver rn)) \<noteq> None"

lemma normalize_effects_snoc:
  "normalize_effects g (fs @ [f]) =
     (case normalize_effects g fs of
        Inl e \<Rightarrow> Inl e
      | Inr (g', ns) \<Rightarrow>
          (case goals_effect g' f of Inl e \<Rightarrow> Inl e | Inr (g'', n) \<Rightarrow> Inr (g'', ns @ [n])))"
  by (induction fs arbitrary: g) (auto split: sum.splits prod.splits)

lemma effect_step_stream:
  assumes "effect_step rn rn'" and "stream_inv rn"
  shows "stream_inv rn'" and "session_of (d_frames (rn_driver rn')) = session_of (d_frames (rn_driver rn))"
proof -
  from assms(1) obtain callback f where f: "effect_of (rn_driver rn) f"
    and rn': "rn_driver rn' = add_effect callback f (rn_driver rn)"
    unfolding effect_step_def by auto
  let ?fs = "d_frames (rn_driver rn)"
  have "push_frame ?fs f = ?fs @ [f]" using f by (simp add: push_frame_def effect_of_def)
  moreover have "frames_inv ((d_effect_sequences (rn_driver rn))(f_channel_id f \<mapsto> f_src_seq f + 1)) (push_frame ?fs f)"
    using assms(2) f by (intro frames_inv_effect) (simp_all add: stream_inv_def effect_of_def)
  moreover have "?fs \<noteq> []" using assms(2) by (auto simp: stream_inv_def session_of_def)
  ultimately show "stream_inv rn'" and "session_of (d_frames (rn_driver rn')) = session_of ?fs"
    using assms(2) f by (auto simp: stream_inv_def rn' add_effect_def session_of_snoc effect_of_def)
qed

lemma renumbered_fresh:
  assumes "renumbered fs" and "length fs < 2 ^ 64" and "f \<in> set fs"
  shows "f_ordinal f \<noteq> word_of_nat (length fs)"
proof
  assume eq: "f_ordinal f = word_of_nat (length fs)"
  from assms(3) obtain i where i: "i < length fs" "fs ! i = f" by (auto simp: in_set_conv_nth)
  have "map f_ordinal fs ! i = map word_of_nat [0..<length fs] ! i" using assms(1) by (simp add: renumbered_def)
  then have "f_ordinal f = word_of_nat i" using i by simp
  then have "(word_of_nat (length fs) :: u64) = word_of_nat i" using eq by simp
  with u64_of_nat_eq [OF assms(2), of i] i assms(2) show False by simp
qed

lemma effect_step_normal:
  assumes "effect_step rn rn'" and "stream_inv rn" and "normal_inv g0 rn"
    and "length (d_frames (rn_driver rn)) < 2 ^ 64"
  shows "normal_inv g0 rn'"
proof -
  from assms(1) obtain callback f g c where f: "effect_of (rn_driver rn) f"
    and c: "goals_effect (rn_goals rn) f = Inr (g, c)"
    and rn': "rn' = rn\<lparr>rn_driver := add_effect callback f (rn_driver rn), rn_goals := g,
                rn_canonical := (rn_canonical rn)(f_ordinal f \<mapsto> c)\<rparr>"
    unfolding effect_step_def by blast
  let ?fs = "d_frames (rn_driver rn)"
  have emit: "is_emit f" and ord: "f_ordinal f = word_of_nat (length ?fs)" using f by (simp_all add: effect_of_def)
  have "renumbered ?fs" using assms(2) by (simp add: stream_inv_def frames_inv_def)
  note fresh = renumbered_fresh [OF this assms(4), folded ord]
  from assms(3) obtain ns where ns: "normalize_effects g0 (filter is_emit ?fs) = Inr (rn_goals rn, ns)"
    "map (\<lambda>f. rn_canonical rn (f_ordinal f)) (filter is_emit ?fs) = map Some ns"
    and dom: "\<forall>n. rn_canonical rn n \<noteq> None \<longrightarrow> n \<in> f_ordinal ` set (filter is_emit ?fs)"
    by (auto simp: normal_inv_def Let_def)
  have fs': "filter is_emit (d_frames (rn_driver rn')) = filter is_emit ?fs @ [f]"
    using emit by (simp add: rn' add_effect_def)
  have "normalize_effects g0 (filter is_emit ?fs @ [f]) = Inr (g, ns @ [c])"
    by (simp add: normalize_effects_snoc ns c)
  moreover have "map (\<lambda>f. rn_canonical rn' (f_ordinal f)) (filter is_emit ?fs) =
      map (\<lambda>f. rn_canonical rn (f_ordinal f)) (filter is_emit ?fs)"
    using fresh by (auto simp: rn')
  ultimately show ?thesis
    using ns(2) dom unfolding normal_inv_def fs' Let_def by (auto simp: rn')
qed

text \<open>What a run of effects leaves.\<close>

lemma effects_added_inv:
  assumes "effects_added rn rn'" and "stream_inv rn"
  shows "stream_inv rn' \<and> session_of (d_frames (rn_driver rn')) = session_of (d_frames (rn_driver rn)) \<and>
    d_steps (rn_driver rn') = d_steps (rn_driver rn) \<and>
    d_session_sequence (rn_driver rn') = d_session_sequence (rn_driver rn) \<and>
    (\<exists>effs. d_frames (rn_driver rn') = d_frames (rn_driver rn) @ effs \<and> (\<forall>f\<in>set effs. is_emit f) \<and>
       (effs = [] \<longrightarrow> runner_view rn' = runner_view rn)) \<and>
    (length (d_frames (rn_driver rn')) < 2 ^ 64 \<longrightarrow> normal_inv g0 rn \<longrightarrow> normal_inv g0 rn')"
  using assms(1)
proof induction
  case (effects_none rn')
  then show ?case using assms(2)
    by (auto simp: runner_view_def stream_inv_def normal_inv_def)
next
  case (effects_snoc rn1 rn2 rn3)
  from effects_snoc(3) have same: "d_frames (rn_driver rn3) = d_frames (rn_driver rn2)"
    "d_effect_sequences (rn_driver rn3) = d_effect_sequences (rn_driver rn2)"
    "d_steps (rn_driver rn3) = d_steps (rn_driver rn2)"
    "d_session_sequence (rn_driver rn3) = d_session_sequence (rn_driver rn2)"
    "rn_goals rn3 = rn_goals rn2" "rn_canonical rn3 = rn_canonical rn2"
    by (simp_all add: runner_view_def)
  from effects_snoc(2) obtain callback f where f: "effect_of (rn_driver rn1) f"
    and d: "rn_driver rn2 = add_effect callback f (rn_driver rn1)"
    unfolding effect_step_def by auto
  have fr: "d_frames (rn_driver rn2) = d_frames (rn_driver rn1) @ [f]"
    "d_steps (rn_driver rn2) = d_steps (rn_driver rn1)"
    "d_session_sequence (rn_driver rn2) = d_session_sequence (rn_driver rn1)"
    by (simp_all add: d add_effect_def)
  note ih = effects_snoc.IH
  have inv1: "stream_inv rn1" using ih by blast
  note st = effect_step_stream [OF effects_snoc(2) inv1]
  have "stream_inv rn3" using st(1) by (simp add: stream_inv_def same)
  moreover have "normal_inv g0 rn3" if "length (d_frames (rn_driver rn3)) < 2 ^ 64" "normal_inv g0 rn"
  proof -
    have l: "length (d_frames (rn_driver rn1)) < 2 ^ 64" using that(1) by (simp add: same fr)
    have "normal_inv g0 rn1" using ih l that(2) by blast
    from effect_step_normal [OF effects_snoc(2) inv1 this l] show ?thesis
      by (simp add: normal_inv_def same)
  qed
  moreover obtain effs where "d_frames (rn_driver rn1) = d_frames (rn_driver rn) @ effs" "\<forall>f\<in>set effs. is_emit f"
    using ih by blast
  then have "d_frames (rn_driver rn3) = d_frames (rn_driver rn) @ (effs @ [f]) \<and> (\<forall>f\<in>set (effs @ [f]). is_emit f)"
    using f by (simp add: same fr effect_of_def)
  then have "\<exists>effs. d_frames (rn_driver rn3) = d_frames (rn_driver rn) @ effs \<and> (\<forall>f\<in>set effs. is_emit f) \<and>
       (effs = [] \<longrightarrow> runner_view rn3 = runner_view rn)" by blast
  ultimately show ?case using ih st(2) by (simp add: same fr)
qed

lemma shape_fields:
  "sequence_key (shape f) = sequence_key f" "f_src_actor (shape f) = f_src_actor f"
  "f_header (shape f) = f_header f" "f_dst_actor (shape f) = f_dst_actor f"
  "f_channel_id (shape f) = f_channel_id f" "f_src_seq (shape f) = f_src_seq f"
  by (simp_all add: shape_def sequence_key_def)

lemma seq_count_delivered:
  assumes "component_emits fs" and "a \<noteq> COMPONENT_ACTOR_ID" and "fs \<noteq> []" and "\<not> is_emit (hd fs)"
  shows "seq_count fs (a, ch) = (if sequence_key (hd fs) = (a, ch) then 1 else 0) +
    length (filter (\<lambda>g. sequence_key g = (a, ch)) (map shape (delivered_in fs)))"
proof -
  obtain f gs where fs: "fs = f # gs" using assms(3) by (cases fs) auto
  have "seq_count gs (a, ch) = length (filter (\<lambda>g. sequence_key g = (a, ch)) (filter (\<lambda>f. \<not> is_emit f) gs))"
    if "component_emits gs" for gs
    using that assms(2)
    by (induction gs) (auto simp: component_emits_def sequence_key_def)
  moreover have "component_emits gs" using assms(1) by (simp add: fs component_emits_def)
  ultimately show ?thesis
    by (simp add: fs delivered_in_def filter_map comp_def shape_fields)
qed

definition run_inv :: "goals \<Rightarrow> frame list \<Rightarrow> 's runner \<Rightarrow> bool" where
  "run_inv g0 dn rn \<longleftrightarrow>
     dn \<noteq> [] \<and> stream_inv rn \<and>
     (length (d_frames (rn_driver rn)) < 2 ^ 64 \<longrightarrow> normal_inv g0 rn) \<and>
     session_of (d_frames (rn_driver rn)) = session_of dn \<and>
     core (hd (d_frames (rn_driver rn))) = core (hd dn) \<and>
     map shape (delivered_in (d_frames (rn_driver rn))) = map shape (delivered_in dn) \<and>
     links (d_steps (rn_driver rn)) =
       zip (map f_ordinal (delivered_in (d_frames (rn_driver rn)))) (map f_ordinal (delivered_in dn))"

definition counted :: "'s runner \<Rightarrow> bool" where
  "counted rn \<longleftrightarrow>
     d_session_sequence (rn_driver rn) =
       word_of_nat (seq_count (d_frames (rn_driver rn)) (SESSION_ACTOR_ID, SESSION_CHANNEL_ID))"

lemma session_first: "session_of fs \<noteq> None \<Longrightarrow> fs \<noteq> [] \<and> f_event_type (hd fs) = EvSession \<and> \<not> is_emit (hd fs)"
  by (cases fs) (auto simp: session_of_def is_emit_def frame_kind_def split: if_splits)

lemma run_inv_counts:
  assumes inv: "run_inv g0 dn rn" and "component_emits dn" and "a \<noteq> COMPONENT_ACTOR_ID"
  shows "seq_count (d_frames (rn_driver rn)) (a, ch) = seq_count dn (a, ch)"
proof -
  let ?fs = "d_frames (rn_driver rn)"
  have fs: "session_of ?fs \<noteq> None" "component_emits ?fs"
    using inv unfolding run_inv_def stream_inv_def frames_inv_def by blast+
  have "session_of ?fs = session_of dn" using inv unfolding run_inv_def by blast
  with fs(1) have dn: "session_of dn \<noteq> None" by simp
  note first = session_first [OF fs(1)] session_first [OF dn]
  have "sequence_key (hd ?fs) = sequence_key (hd dn)"
    using inv core_eqD [of "hd ?fs" "hd dn"] by (simp add: run_inv_def sequence_key_def)
  then show ?thesis
    using inv seq_count_delivered [OF fs(2) assms(3)] seq_count_delivered [OF assms(2,3)] first
    by (simp add: run_inv_def)
qed

lemma same_layoutD:
  assumes "same_layout f d"
  shows "f_event_type d = f_event_type f" "f_header d = f_header f" "is_emit d = is_emit f" "sequence_key d = sequence_key f"
    "f_src_actor d = f_src_actor f" "f_src_seq d = f_src_seq f" "frame_tuple d = frame_tuple f"
    "shape d = shape f" "fits f \<Longrightarrow> fits d" "f_ordinal d = f_ordinal f"
  using assms
  by (auto simp: same_layout_def is_emit_def frame_kind_def sequence_key_def frame_tuple_def shape_def fits_def)

definition pushed :: "frame \<Rightarrow> 's runner \<Rightarrow> 's runner" where
  "pushed d rn = rn\<lparr>rn_driver := (rn_driver rn)\<lparr>d_frames := push_frame (d_frames (rn_driver rn)) d\<rparr>\<rparr>"

lemma push_translated:
  assumes inv: "run_inv g0 dn rn" and ok: "next_input_ok dn f" and lay: "same_layout f d"
  shows "stream_inv (pushed d rn)" and "normal_inv g0 rn \<Longrightarrow> normal_inv g0 (pushed d rn)"
    and "session_of (d_frames (rn_driver (pushed d rn))) = session_of dn"
    and "hd (d_frames (rn_driver (pushed d rn))) = hd (d_frames (rn_driver rn))"
    and "delivered_in (d_frames (rn_driver (pushed d rn))) = delivered_in (d_frames (rn_driver rn)) @
      [d\<lparr>f_ordinal := word_of_nat (length (d_frames (rn_driver rn))), f_observed_ns := 0\<rparr>]"
    and "delivered_in (dn @ [f]) = delivered_in dn @ [f]"
proof -
  let ?fs = "d_frames (rn_driver rn)"
  let ?d = "d\<lparr>f_ordinal := word_of_nat (length ?fs), f_observed_ns := 0\<rparr>"
  note D = same_layoutD [OF lay]
  have fok: "frame_ok dn f" and notemit: "\<not> is_emit f" and type: "f_event_type f \<notin> {EvSession, EvEnd, EvGap}"
    and emits: "component_emits (dn @ [f])"
    using ok by (simp_all add: next_input_ok_def)
  have sess: "session_of ?fs \<noteq> None" and finv: "frames_inv (d_effect_sequences (rn_driver rn)) ?fs"
    using inv unfolding run_inv_def stream_inv_def by blast+
  have same: "session_of ?fs = session_of dn" using inv unfolding run_inv_def by blast
  have nonempty: "?fs \<noteq> []" using session_first [OF sess] by simp
  have src: "f_src_actor f \<noteq> COMPONENT_ACTOR_ID" using emits notemit by (auto simp: component_emits_def)
  have emits_dn: "component_emits dn" using emits by (simp add: component_emits_def)
  have d_notemit: "\<not> is_emit ?d" using D(3) notemit by (simp add: is_emit_def frame_kind_def)
  have count: "seq_count ?fs (sequence_key f) = seq_count dn (sequence_key f)"
    using run_inv_counts [OF inv emits_dn src] by (simp add: sequence_key_def)
  have key: "sequence_key ?d = sequence_key f" using D(4) by (simp add: sequence_key_def)
  have fits_d: "fits ?d" using D(9) frame_ok_fits [OF fok] by (simp add: fits_def payload_def)
  have "frame_ok ?fs ?d"
    using fok finv sess type D no_end_last [of ?fs] fits_d
    by (cases "f_event_type f")
      (auto simp: frame_ok_def wf_frame_def fits_def frame_tuple_def key count frames_inv_def marker_ok_def)
  then have "frames_inv (d_effect_sequences (rn_driver rn)) (push_frame ?fs d)"
    using finv d_notemit src type fits_d D(1,5)
    by (auto simp: frames_inv_def push_frame_def component_emits_def sequence_key_def)
  then show "stream_inv (pushed d rn)"
    using inv sess nonempty d_notemit
    by (auto simp: stream_inv_def pushed_def session_of_push push_frame_def session_of_snoc run_inv_def)
  show "normal_inv g0 rn \<Longrightarrow> normal_inv g0 (pushed d rn)"
    using d_notemit by (simp add: normal_inv_def pushed_def push_frame_def)
  show "session_of (d_frames (rn_driver (pushed d rn))) = session_of dn"
    using same nonempty by (simp add: pushed_def session_of_push)
  show "hd (d_frames (rn_driver (pushed d rn))) = hd ?fs"
    using nonempty by (simp add: pushed_def push_frame_def)
  show "delivered_in (d_frames (rn_driver (pushed d rn))) = delivered_in ?fs @ [?d]"
    using nonempty d_notemit by (simp add: pushed_def push_frame_def delivered_in_def)
  show "delivered_in (dn @ [f]) = delivered_in dn @ [f]"
    using ok notemit by (simp add: delivered_in_def next_input_ok_def)
qed

lemma links_snoc [simp]:
  "links (steps @ [s]) = links steps @
     (case dl_replayed_ordinal s of None \<Rightarrow> [] | Some r \<Rightarrow> [(r, dl_recorded_ordinal s)])"
  by (simp add: links_def map_filter_snoc List.map_filter_simps split: option.splits)

lemma delivered_in_emits: "fs \<noteq> [] \<Longrightarrow> \<forall>f\<in>set effs. is_emit f \<Longrightarrow> delivered_in (fs @ effs) = delivered_in fs"
  by (auto simp: delivered_in_def filter_empty_conv)

text \<open>The input counted as consumed after its effects.\<close>

lemma consumed_inv:
  assumes inv: "run_inv g0 dn rn" and ok: "next_input_ok dn f" and lay: "same_layout f d"
    and added: "effects_added (pushed d rn) rn1"
    and ro: "ro = word_of_nat (length (d_frames (rn_driver rn)))"
    and view: "d_frames (rn_driver rn') = d_frames (rn_driver rn1)"
      "d_effect_sequences (rn_driver rn') = d_effect_sequences (rn_driver rn1)"
      "rn_goals rn' = rn_goals rn1" "rn_canonical rn' = rn_canonical rn1"
    and steps: "d_steps (rn_driver rn') = d_steps (rn_driver rn1) @ [s]" "dl_replayed_ordinal s = Some ro"
      "dl_recorded_ordinal s = f_ordinal f"
  shows "run_inv g0 (dn @ [f]) rn'"
proof -
  note P = push_translated [OF inv ok lay]
  note A = effects_added_inv [OF added P(1), of g0]
  obtain effs where effs: "d_frames (rn_driver rn1) = d_frames (rn_driver (pushed d rn)) @ effs" "\<forall>f\<in>set effs. is_emit f"
    using A by blast
  have ne: "d_frames (rn_driver (pushed d rn)) \<noteq> []" by (simp add: pushed_def push_frame_def)
  have del: "delivered_in (d_frames (rn_driver rn')) = delivered_in (d_frames (rn_driver (pushed d rn)))"
    using delivered_in_emits [OF ne effs(2)] by (simp add: view effs(1))
  have len: "length (delivered_in (d_frames (rn_driver rn))) = length (delivered_in dn)"
    using inv map_eq_imp_length_eq unfolding run_inv_def by blast
  have "stream_inv rn'" using conjunct1 [OF A] by (simp add: stream_inv_def view)
  moreover have "normal_inv g0 rn'" if "length (d_frames (rn_driver rn')) < 2 ^ 64"
  proof -
    have l: "length (d_frames (rn_driver rn1)) < 2 ^ 64" using that by (simp add: view)
    then have "length (d_frames (rn_driver rn)) < 2 ^ 64" by (simp add: effs(1) pushed_def push_frame_def)
    then have "normal_inv g0 rn" using inv by (simp add: run_inv_def)
    then have "normal_inv g0 (pushed d rn)" by (rule P(2))
    then have "normal_inv g0 rn1" using A l by blast
    then show ?thesis by (simp add: normal_inv_def view)
  qed
  moreover have "session_of (d_frames (rn_driver rn')) = session_of (dn @ [f])"
    using conjunct1 [OF conjunct2 [OF A]] P(3) ok by (simp add: view session_of_snoc next_input_ok_def)
  moreover have "core (hd (d_frames (rn_driver rn'))) = core (hd (dn @ [f]))"
    using inv P(4) ne ok by (simp add: view effs(1) run_inv_def next_input_ok_def)
  moreover have "map shape (delivered_in (d_frames (rn_driver rn'))) = map shape (delivered_in (dn @ [f]))"
    using inv same_layoutD(8) [OF lay]
    by (simp add: del P(5,6) run_inv_def) (simp add: shape_def)
  moreover have "links (d_steps (rn_driver rn')) =
       zip (map f_ordinal (delivered_in (d_frames (rn_driver rn')))) (map f_ordinal (delivered_in (dn @ [f])))"
  proof -
    have "d_steps (rn_driver rn1) = d_steps (rn_driver (pushed d rn))" using A by blast
    then have "d_steps (rn_driver rn1) = d_steps (rn_driver rn)" by (simp add: pushed_def)
    then show ?thesis using inv len by (simp add: steps del P(5,6) ro run_inv_def)
  qed
  ultimately show ?thesis by (simp add: run_inv_def)
qed

lemma run_inv_core:
  assumes "d_frames (rn_driver rn') = d_frames (rn_driver rn)"
    and "d_effect_sequences (rn_driver rn') = d_effect_sequences (rn_driver rn)"
    and "links (d_steps (rn_driver rn')) = links (d_steps (rn_driver rn))"
    and "d_session_sequence (rn_driver rn') = d_session_sequence (rn_driver rn)"
    and "rn_goals rn' = rn_goals rn" and "rn_canonical rn' = rn_canonical rn"
  shows "run_inv g0 dn rn' = run_inv g0 dn rn" and "counted rn' = counted rn"
  by (simp_all only: run_inv_def counted_def stream_inv_def normal_inv_def assms)

lemma run_inv_view: "runner_view rn' = runner_view rn \<Longrightarrow> run_inv g0 dn rn' = run_inv g0 dn rn"
  by (rule run_inv_core) (simp_all add: runner_view_def)

lemma counted_view: "runner_view rn' = runner_view rn \<Longrightarrow> counted rn' = counted rn"
  by (rule run_inv_core) (simp_all add: runner_view_def)

lemma seq_count_effects:
  assumes "component_emits effs" and "\<forall>f\<in>set effs. is_emit f" and "a \<noteq> COMPONENT_ACTOR_ID"
  shows "seq_count effs (a, ch) = 0"
  by (rule seq_count_emits [OF assms])

text \<open>The outcomes of an input: consumed; refused, the run stopping before it; or decided by it.\<close>

definition session_channel :: "frame \<Rightarrow> bool" where
  "session_channel f \<longleftrightarrow> f_src_actor f = SESSION_ACTOR_ID \<and> f_channel_id f = SESSION_CHANNEL_ID"

lemma run_input_inv:
  assumes inv: "run_inv g0 dn rn" and cnt: "counted rn" and ok: "next_input_ok dn f"
    and run: "run_input env f rn = Inr (rn', stp)" and live: "rn_terminal rn = None"
  shows "case stp of
      None \<Rightarrow> run_inv g0 (dn @ [f]) rn' \<and> counted rn' \<and> rn_terminal rn' = None
    | Some s \<Rightarrow>
        if s = StopExhausted
        then re_candidate env \<and> rn_terminal rn' \<noteq> None \<and> run_inv g0 (dn @ [f]) rn' \<and>
          d_steps (rn_driver rn') \<noteq> [] \<and> dl_recorded_ordinal (last (d_steps (rn_driver rn'))) = f_ordinal f \<and>
          (counted rn' \<longleftrightarrow> \<not> session_channel f)
        else length (d_frames (rn_driver rn')) < 2 ^ 64 - 1 \<longrightarrow>
          run_inv g0 dn rn' \<and> counted rn' \<and> rn_terminal rn' = None"
proof -
  let ?recording = "cf_frames (re_case env)"
  let ?st = "rn_driver rn"
  from run obtain request where req: "runner_ref ?recording f = Inr request"
    by (auto simp: run_input_def Let_def split: sum.splits)
  let ?answer = "case request of None \<Rightarrow> Inr f
      | Some r \<Rightarrow> answer_for (rn_goals rn) (rn_canonical rn) ?recording (d_frames ?st) f r"
  show ?thesis
  proof (cases ?answer)
    case (Inl reason)
    with run req have r: "stp = Some (StopRefused (f_ordinal f) reason)"
      "rn' = rn\<lparr>rn_driver := ?st\<lparr>d_steps := d_steps ?st @
         [\<lparr>dl_recorded_ordinal = f_ordinal f, dl_replayed_ordinal = None,
           dl_status = StatusRefused, dl_reason = Some reason\<rparr>]\<rparr>\<rparr>"
      by (auto simp: run_input_def Let_def)
    have "run_inv g0 dn rn'" "counted rn'"
      using run_inv_core [of rn' rn] inv cnt by (simp_all add: r(2))
    with r live show ?thesis by simp
  next
    case (Inr d)
    have lay: "same_layout f d"
      using Inr by (cases request) (auto dest: answer_for_layout)
    define st1 where "st1 = send_request (re_react env) (StepRequest (wire_of_frame d) request) ?st"
    define rn1 where "rn1 = rn\<lparr>rn_driver := st1\<rparr>"
    define ro :: u64 where "ro = word_of_nat (length (d_frames (rn_driver rn1)))"
    have lines: "run_lines env f (authorized_callbacks st1 f request) ro (d_queue st1) (pushed d rn1) = Inr (rn', stp)"
      using run by (simp add: run_input_def Let_def req Inr pushed_def rn1_def st1_def ro_def)
    have view1: "runner_view rn1 = runner_view rn" by (simp add: rn1_def st1_def runner_view_def)
    have inv1: "run_inv g0 dn rn1" and cnt1: "counted rn1"
      using run_inv_view [OF view1] counted_view [OF view1] inv cnt by simp_all
    have term1: "rn_terminal (pushed d rn1) = None" using live by (simp add: pushed_def rn1_def)
    note P = push_translated [OF inv1 ok lay]
    from run_lines_Inr [OF lines, unfolded term1] obtain rn2 where added: "effects_added (pushed d rn1) rn2"
      and term2: "rn_terminal rn2 = None"
      and out: "(\<exists>n stat reason ps. runner_stepped f ro n stat reason ps rn2 = Inr (rn', stp)) \<or>
        stp = Some StopExhausted \<and> (\<exists>result. decided_by env f ro rn2 result rn')"
      by blast
    note A = effects_added_inv [OF added P(1), of g0]
    obtain effs where effs: "d_frames (rn_driver rn2) = d_frames (rn_driver (pushed d rn1)) @ effs"
      "\<forall>f\<in>set effs. is_emit f" "effs = [] \<longrightarrow> runner_view rn2 = runner_view (pushed d rn1)"
      using A by blast
    have seq2: "d_session_sequence (rn_driver rn2) = d_session_sequence (rn_driver rn1)"
      and steps2: "d_steps (rn_driver rn2) = d_steps (rn_driver rn1)"
    proof -
      from A have "d_session_sequence (rn_driver rn2) = d_session_sequence (rn_driver (pushed d rn1))"
        and "d_steps (rn_driver rn2) = d_steps (rn_driver (pushed d rn1))" by blast+
      then show "d_session_sequence (rn_driver rn2) = d_session_sequence (rn_driver rn1)"
        "d_steps (rn_driver rn2) = d_steps (rn_driver rn1)" by (simp_all add: pushed_def)
    qed
    have "component_emits (d_frames (rn_driver rn2))"
      using A unfolding stream_inv_def frames_inv_def by blast
    then have effs_emit: "component_emits effs" by (simp add: effs(1) component_emits_def)
    have sess2: "seq_count (d_frames (rn_driver rn2)) (SESSION_ACTOR_ID, SESSION_CHANNEL_ID) =
        seq_count (d_frames (rn_driver rn1)) (SESSION_ACTOR_ID, SESSION_CHANNEL_ID) +
        (if session_channel f then 1 else 0)"
      using seq_count_effects [OF effs_emit effs(2) session_not_component] same_layoutD(4) [OF lay]
      by (simp add: effs(1) pushed_def push_frame_def session_channel_def sequence_key_def)
    have src: "f_src_seq f = d_session_sequence (rn_driver rn1)" if "session_channel f"
    proof -
      have emits: "component_emits dn" and fok: "frame_ok dn f"
        using ok by (simp_all add: next_input_ok_def component_emits_def)
      have "sequence_key f = (SESSION_ACTOR_ID, SESSION_CHANNEL_ID)"
        using that by (simp add: session_channel_def sequence_key_def)
      then show ?thesis
        using fok cnt1 run_inv_counts [OF inv1 emits session_not_component, of SESSION_CHANNEL_ID]
        by (simp add: frame_ok_def counted_def)
    qed
    from out consider
      (stepped) n stat reason ps where "runner_stepped f ro n stat reason ps rn2 = Inr (rn', stp)" "stat \<noteq> StatusRefused"
      | (refused) n reason ps where "runner_stepped f ro n StatusRefused reason ps rn2 = Inr (rn', stp)"
      | (decided) result where "stp = Some StopExhausted" "decided_by env f ro rn2 result rn'" by blast
    then show ?thesis
    proof cases
      case stepped
      then have stp: "stp = None" and rn': "rn' = rn2\<lparr>rn_driver := (rn_driver rn2)\<lparr>d_pending := ps,
          d_session_sequence := (if session_channel f then f_src_seq f + 1 else d_session_sequence (rn_driver rn2)),
          d_steps := d_steps (rn_driver rn2) @ [\<lparr>dl_recorded_ordinal = f_ordinal f, dl_replayed_ordinal = Some ro,
            dl_status = stat, dl_reason = reason\<rparr>]\<rparr>\<rparr>"
        by (auto simp: runner_stepped_def accept_stepped_def session_channel_def split: if_splits)
      have "run_inv g0 (dn @ [f]) rn'"
        by (rule consumed_inv [OF inv1 ok lay added ro_def, where s = "\<lparr>dl_recorded_ordinal = f_ordinal f,
            dl_replayed_ordinal = Some ro, dl_status = stat, dl_reason = reason\<rparr>"]) (simp_all add: rn')
      moreover have "counted rn'"
        using cnt1 src by (simp add: counted_def rn' sess2 seq2)
      ultimately show ?thesis using stp term2 by (simp add: rn')
    next
      case refused
      then have stp: "stp = Some (StopRefused (f_ordinal f) (case reason of None \<Rightarrow> [] | Some t \<Rightarrow> t))"
        and rn': "rn' = rn2\<lparr>rn_driver := (rn_driver rn2)\<lparr>d_pending := ps, d_frames := butlast (d_frames (rn_driver rn2)),
          d_steps := d_steps (rn_driver rn2) @ [\<lparr>dl_recorded_ordinal = f_ordinal f, dl_replayed_ordinal = None,
            dl_status = StatusRefused, dl_reason = reason\<rparr>]\<rparr>\<rparr>"
        and len: "(word_of_nat (length (d_frames (rn_driver rn2))) :: u64) = ro + 1"
        by (auto simp: runner_stepped_def accept_stepped_def split: if_splits)
      have "run_inv g0 dn rn' \<and> counted rn'" if small: "length (d_frames (rn_driver rn')) < 2 ^ 64 - 1"
      proof -
        have l2: "length (d_frames (rn_driver rn2)) = Suc (length (d_frames (rn_driver rn1))) + length effs"
          by (simp add: effs(1) pushed_def push_frame_def)
        then have small2: "length (d_frames (rn_driver rn2)) < 2 ^ 64" using small by (simp add: rn')
        have "(word_of_nat (length (d_frames (rn_driver rn2))) :: u64) = word_of_nat (Suc (length (d_frames (rn_driver rn1))))"
          using len by (simp add: ro_def add.commute)
        moreover have "Suc (length (d_frames (rn_driver rn1))) < 2 ^ 64" using small2 l2 by simp
        ultimately have "length (d_frames (rn_driver rn2)) = Suc (length (d_frames (rn_driver rn1)))"
          using u64_of_nat_eq [OF small2] by blast
        then have "effs = []" using l2 by simp
        then have v: "runner_view rn2 = runner_view (pushed d rn1)" using effs(3) by simp
        then have "d_frames (rn_driver rn') = d_frames (rn_driver rn1)" "d_effect_sequences (rn_driver rn') = d_effect_sequences (rn_driver rn1)"
          "links (d_steps (rn_driver rn')) = links (d_steps (rn_driver rn1))" "rn_goals rn' = rn_goals rn1"
          "rn_canonical rn' = rn_canonical rn1" "d_session_sequence (rn_driver rn') = d_session_sequence (rn_driver rn1)"
          by (simp_all add: rn' runner_view_def pushed_def push_frame_def)
        from run_inv_core [OF this(1,2,3,6,4,5)] show ?thesis using inv1 cnt1 by blast
      qed
      with stp term2 show ?thesis by (simp add: rn')
    next
      case decided
      let ?cur = "rn2\<lparr>rn_driver := (rn_driver rn2)\<lparr>d_steps := d_steps (rn_driver rn2) @
          [\<lparr>dl_recorded_ordinal = f_ordinal f, dl_replayed_ordinal = Some ro, dl_status = StatusOk, dl_reason = None\<rparr>]\<rparr>\<rparr>"
      from decided(2) have view: "runner_view rn' = runner_view ?cur" and cand: "re_candidate env"
        and t: "rn_terminal rn' = Some result"
        by (simp_all add: decided_by_def current_run_def)
      have inv': "run_inv g0 (dn @ [f]) ?cur"
        by (rule consumed_inv [OF inv1 ok lay added ro_def, where s = "\<lparr>dl_recorded_ordinal = f_ordinal f,
            dl_replayed_ordinal = Some ro, dl_status = StatusOk, dl_reason = None\<rparr>"]) simp_all
      have "run_inv g0 (dn @ [f]) rn'" using run_inv_view [OF view] inv' by simp
      moreover have "d_steps (rn_driver rn') = d_steps (rn_driver ?cur)" using view by (simp add: runner_view_def)
      moreover have "counted rn' \<longleftrightarrow> \<not> session_channel f"
      proof -
        have "counted ?cur \<longleftrightarrow> \<not> session_channel f" using cnt1 by (simp add: counted_def sess2 seq2)
        then show ?thesis using counted_view [OF view] by simp
      qed
      ultimately show ?thesis using decided(1) cand t by simp
    qed
  qed
qed

end
