(* ===== verification/Case_Replay.thy ===== *)
theory Case_Replay
  imports Runner_Invariant
begin

text \<open>
  Replays of a case by the case runner: what a successful one consists of, its normalized frames, and
  the properties of both.
\<close>

subsection \<open>Runs\<close>

lemma run_deliver_input:
  assumes "f_event_type f \<notin> {EvSession, EvEnd, EvGap}" and "\<not> is_emit f"
    and "run_deliver env (f # rest) rn = Inr (rn', stp)"
  shows "\<exists>rn1 s. run_input env f rn = Inr (rn1, s) \<and>
    (s = None \<and> run_deliver env rest rn1 = Inr (rn', stp) \<or> s = Some stp \<and> rn1 = rn')"
proof -
  have "run_deliver env (f # rest) rn = (case run_input env f rn of
        Inl e \<Rightarrow> Inl e
      | Inr (rn', Some stp) \<Rightarrow> Inr (rn', stp)
      | Inr (rn', None) \<Rightarrow> run_deliver env rest rn')"
    using assms(1,2) by (simp add: is_emit_def)
  with assms(3) show ?thesis
    by (cases "run_input env f rn") (auto split: prod.splits option.splits)
qed

lemma run_inv_emit: "run_inv g0 dn rn \<Longrightarrow> is_emit f \<Longrightarrow> run_inv g0 (dn @ [f]) rn"
  by (simp add: run_inv_def session_of_snoc delivered_in_def)

lemma run_inv_nonempty: "run_inv g0 dn rn \<Longrightarrow> dn \<noteq> []"
  by (simp add: run_inv_def)

lemma run_inv_no_end:
  assumes "run_inv g0 dn rn"
  shows "f_event_type (last dn) \<noteq> EvEnd"
proof
  assume e: "f_event_type (last dn) = EvEnd"
  let ?fs = "d_frames (rn_driver rn)"
  have "session_of ?fs \<noteq> None" and same: "session_of ?fs = session_of dn"
    using assms unfolding run_inv_def stream_inv_def by blast+
  then have s: "dn \<noteq> [] \<and> f_event_type (hd dn) = EvSession" using session_first [of dn] by simp
  with e have "last dn \<in> set (tl dn)" by (cases dn) (auto split: if_splits)
  moreover have "\<not> is_emit (last dn)" using e by (simp add: is_emit_def frame_kind_def)
  ultimately have "shape (last dn) \<in> set (map shape (delivered_in dn))" by (simp add: delivered_in_def)
  moreover have "map shape (delivered_in dn) = map shape (delivered_in ?fs)" using assms by (simp add: run_inv_def)
  ultimately have "shape (last dn) \<in> shape ` set (delivered_in ?fs)" by simp
  then obtain f where f: "f \<in> set (delivered_in ?fs)" "shape (last dn) = shape f" by blast
  have "f \<in> set ?fs" using f(1) by (cases ?fs) (auto simp: delivered_in_def)
  moreover have "f_event_type f = EvEnd"
    using e arg_cong [OF f(2), of f_header] by (simp add: shape_fields)
  ultimately show False using assms unfolding run_inv_def stream_inv_def frames_inv_def by blast
qed

lemma run_deliver_inv:
  assumes "ok_prefix (dn @ rest)" "component_emits (dn @ rest)" "run_inv g0 dn rn" "counted rn"
    and "rn_terminal rn = None"
    and "run_deliver env rest rn = Inr (rn', stp)" and "length (d_frames (rn_driver rn')) < 2 ^ 64 - 1"
  shows "\<exists>dn' rest'. dn @ rest = dn' @ rest' \<and> run_inv g0 dn' rn' \<and>
    (if rn_terminal rn' = None
     then counted rn' \<and> (stp = StopExhausted \<longrightarrow> rest' = [] \<or> (\<exists>f. rest' = [f] \<and> f_event_type f = EvEnd))
     else stp = StopExhausted \<and> re_candidate env \<and>
       d_steps (rn_driver rn') \<noteq> [] \<and> dl_recorded_ordinal (last (d_steps (rn_driver rn'))) = f_ordinal (last dn') \<and>
       (counted rn' \<longleftrightarrow> \<not> session_channel (last dn')))"
  using assms
proof (induction rest arbitrary: dn rn)
  case Nil
  then show ?case by (intro exI [of _ dn] exI [of _ "[]"]) auto
next
  case (Cons f rest)
  let ?goal = "\<lambda>all dn' rest'. all = dn' @ rest' \<and> run_inv g0 dn' rn' \<and>
    (if rn_terminal rn' = None
     then counted rn' \<and> (stp = StopExhausted \<longrightarrow> rest' = [] \<or> (\<exists>f. rest' = [f] \<and> f_event_type f = EvEnd))
     else stp = StopExhausted \<and> re_candidate env \<and>
       d_steps (rn_driver rn') \<noteq> [] \<and> dl_recorded_ordinal (last (d_steps (rn_driver rn'))) = f_ordinal (last dn') \<and>
       (counted rn' \<longleftrightarrow> \<not> session_channel (last dn')))"
  have ok: "frame_ok dn f" using Cons.prems(1) by (rule ok_prefix_middle)
  have emits: "component_emits (dn @ [f])" using Cons.prems(2) by (auto simp: component_emits_def)
  have nonempty: "dn \<noteq> []" using Cons.prems(3) by (rule run_inv_nonempty)
  have again: "\<exists>dn' rest'. ?goal ((dn @ [f]) @ rest) dn' rest'"
    if "run_inv g0 (dn @ [f]) rn1" "counted rn1" "rn_terminal rn1 = None"
      "run_deliver env rest rn1 = Inr (rn', stp)" for rn1
    using Cons.IH [of "dn @ [f]" rn1] Cons.prems that by simp
  have not_session: "f_event_type f \<noteq> EvSession"
    using ok nonempty by (auto simp: frame_ok_def marker_ok_def)
  consider "f_event_type f = EvEnd" | "f_event_type f = EvGap"
    | (emit) "is_emit f" "f_event_type f \<notin> {EvSession, EvEnd, EvGap}"
    | (inp) "\<not> is_emit f" "f_event_type f \<notin> {EvSession, EvEnd, EvGap}"
    using emit_type(1) not_session by blast
  then show ?case
  proof cases
    case 1
    then have "rn' = rn" "stp = StopExhausted" "rest = []"
      using Cons.prems(6) end_is_last [OF Cons.prems(1)] by simp_all
    with 1 Cons.prems(3,4,5) show ?thesis by (intro exI [of _ dn] exI [of _ "f # rest"]) auto
  next
    case 2
    then have "rn' = rn" "stp \<noteq> StopExhausted"
      using Cons.prems(6) by (auto split: sum.splits)
    with Cons.prems(3,4,5) show ?thesis by (intro exI [of _ dn] exI [of _ "f # rest"]) auto
  next
    case emit
    have "run_deliver env rest rn = Inr (rn', stp)" using Cons.prems(6) emit by (simp add: is_emit_def)
    from again [OF run_inv_emit [OF Cons.prems(3) emit(1)] Cons.prems(4,5) this] show ?thesis by simp
  next
    case inp
    then have next_ok: "next_input_ok dn f" using ok emits nonempty by (simp add: next_input_ok_def)
    from run_deliver_input [OF inp(2,1) Cons.prems(6)] obtain rn1 s where
      d: "run_input env f rn = Inr (rn1, s)"
      and k: "s = None \<and> run_deliver env rest rn1 = Inr (rn', stp) \<or> s = Some stp \<and> rn1 = rn'" by blast
    note step = run_input_inv [OF Cons.prems(3,4) next_ok d Cons.prems(5)]
    show ?thesis
    proof (cases s)
      case None
      with step k have "run_inv g0 (dn @ [f]) rn1" "counted rn1" "rn_terminal rn1 = None"
        "run_deliver env rest rn1 = Inr (rn', stp)" by simp_all
      from again [OF this] show ?thesis by simp
    next
      case (Some stp')
      with k have eq: "stp' = stp" "rn1 = rn'" by simp_all
      show ?thesis
      proof (cases "stp = StopExhausted")
        case True
        with step Some eq have "?goal (dn @ f # rest) (dn @ [f]) rest" by auto
        then show ?thesis by blast
      next
        case False
        with step Some eq Cons.prems(7) have "?goal (dn @ f # rest) dn (f # rest)" by simp
        then show ?thesis by blast
      qed
    qed
  qed
qed

lemma session_inv:
  assumes "frame_ok [] f" and "f_event_type f = EvSession" and "component_emits [f]"
    and "d_frames (rn_driver rn) = []" and "d_effect_sequences (rn_driver rn) = Map.empty"
    and "d_steps (rn_driver rn) = []" and "rn_goals rn = g0" and "rn_canonical rn = Map.empty"
  shows "run_inv g0 [f] (rn\<lparr>rn_driver := (rn_driver rn)\<lparr>d_frames := push_frame (d_frames (rn_driver rn)) f,
             d_session_sequence := f_src_seq f + 1\<rparr>\<rparr>)" (is "run_inv g0 [f] ?rn")
    and "counted (rn\<lparr>rn_driver := (rn_driver rn)\<lparr>d_frames := push_frame (d_frames (rn_driver rn)) f,
             d_session_sequence := f_src_seq f + 1\<rparr>\<rparr>)"
proof -
  have "driver_inv [] ((rn_driver rn)\<lparr>d_session_sequence := 0\<rparr>)"
    using assms(4,5) by (simp add: driver_inv_def frames_inv_def component_emits_def next_seq_def)
  from deliver_session_inv [OF this assms(1,2,3)]
  have inv: "driver_inv [f] (rn_driver ?rn)" by (simp add: assms(4))
  show "counted ?rn" using inv by (simp add: counted_def driver_inv_def)
  have emit: "\<not> is_emit f" using assms(2) by (simp add: is_emit_def frame_kind_def)
  then have emit': "\<not> is_emit (f\<lparr>f_ordinal := 0, f_observed_ns := 0\<rparr>)" by (simp add: is_emit_def frame_kind_def)
  have fr: "d_frames (rn_driver ?rn) = [f\<lparr>f_ordinal := 0, f_observed_ns := 0\<rparr>]"
    using assms(4) by (simp add: push_frame_def)
  have "normal_inv g0 ?rn"
    using assms(7,8) emit' unfolding normal_inv_def fr Let_def by simp
  moreover have "stream_inv ?rn" using inv emit' fr by (simp add: stream_inv_def driver_inv_def)
  ultimately show "run_inv g0 [f] ?rn"
    using inv fr assms(6) by (simp add: run_inv_def driver_inv_def delivered_in_def core_push links_def List.map_filter_simps)
qed

lemma start_runner_Inr:
  assumes "start_runner env s g corpus scenario requested = Inr rn"
  shows "d_frames (rn_driver rn) = []" "d_effect_sequences (rn_driver rn) = Map.empty"
    "d_steps (rn_driver rn) = []" "rn_goals rn = g" "rn_canonical rn = Map.empty" "rn_terminal rn = None"
proof -
  obtain q where "\<exists>st'. rn = \<lparr>rn_driver = st', rn_goals = g, rn_canonical = Map.empty, rn_terminal = None,
                     rn_finish_callbacks = []\<rparr> \<and> d_frames st' = [] \<and> d_effect_sequences st' = Map.empty \<and>
                     d_steps st' = []"
    using assms
    by (auto simp: start_runner_def Let_def receive_def split: list.splits response.splits if_splits sum.splits)
  then show "d_frames (rn_driver rn) = []" "d_effect_sequences (rn_driver rn) = Map.empty"
    "d_steps (rn_driver rn) = []" "rn_goals rn = g" "rn_canonical rn = Map.empty" "rn_terminal rn = None"
    by auto
qed

text \<open>A replay that succeeds, taken apart.\<close>

definition decided :: "execution \<Rightarrow> bool" where
  "decided x \<longleftrightarrow> r_stop (x_run x) = StopExhausted \<and> r_finish_reason (x_run x) = FinishScope"

definition replay_parts ::
  "'s run_env \<Rightarrow> execution \<Rightarrow> goals \<Rightarrow> 's runner \<Rightarrow> session \<Rightarrow> stop \<Rightarrow> pending list \<Rightarrow> frame list \<Rightarrow> frame list \<Rightarrow>
     string \<Rightarrow> bool" where
  "replay_parts env x g0 rn sess stp ps dn rest policy \<longleftrightarrow>
     x_run x = run_of sess stp ps rn \<and>
     x_normalized x = map (normalize_frame (cf_frames (re_case env)) (rn_canonical rn) (d_steps (rn_driver rn)))
       (r_frames (x_run x)) \<and>
     goals_new (re_source_hash env) (re_reference_hash env) (cf_frames (re_case env)) (re_identity env) policy = Inr g0 \<and>
     map_of (cf_declaration (re_case env)) ''comparison_policy'' = Some policy \<and>
     cf_frames (re_case env) = dn @ rest \<and> run_inv g0 dn rn \<and> session_of dn = Some sess \<and>
     run_property env (x_run x) rn = Inr (x_property x) \<and>
     (if rn_terminal rn = None
      then counted rn \<and> (stp = StopExhausted \<longrightarrow> (\<exists>f. rest = [f] \<and> f_event_type f = EvEnd))
      else stp = StopExhausted \<and> re_candidate env \<and>
        d_steps (rn_driver rn) \<noteq> [] \<and> dl_recorded_ordinal (last (d_steps (rn_driver rn))) = f_ordinal (last dn) \<and>
        (counted rn \<longleftrightarrow> \<not> session_channel (last dn)))"

lemma run_case_replay_Inr:
  assumes run: "run_case_replay env s = Inr x"
    and valid: "valid_stream (cf_frames (re_case env))" and emits: "component_emits (cf_frames (re_case env))"
    and small: "length (r_frames (x_run x)) < 2 ^ 64"
  shows "\<exists>g0 rn sess stp ps dn rest policy. replay_parts env x g0 rn sess stp ps dn rest policy"
proof -
  let ?rec = "cf_frames (re_case env)"
  from run obtain corpus scenario g0 sess requested where
    prep: "prepare_run env = Inr (corpus, scenario, g0, sess, requested)"
    by (auto simp: run_case_replay_def split: sum.splits)
  from run obtain rn0 rn1 rn2 stp ps where start: "start_runner env s g0 corpus scenario requested = Inr rn0"
    and del: "run_deliver env ?rec rn0 = Inr (rn1, stp)"
    and fin: "finish_runner env stp rn1 = Inr (rn2, ps)"
    and result: "run_property env (run_of sess stp ps rn2) rn2 = Inr (x_property x)"
    and x: "x_run x = run_of sess stp ps rn2"
      "x_normalized x = map (normalize_frame ?rec (rn_canonical rn2) (d_steps (rn_driver rn2))) (r_frames (run_of sess stp ps rn2))"
    by (auto simp: run_case_replay_def prep split: sum.splits prod.splits)
  from prep obtain policy f fs where pol: "map_of (cf_declaration (re_case env)) ''comparison_policy'' = Some policy"
    and g0: "goals_new (re_source_hash env) (re_reference_hash env) ?rec (re_identity env) policy = Inr g0"
    and rec: "?rec = f # fs" and sess: "decode_session (f_body f) = Inr sess"
    by (auto simp: prepare_run_def run_entry_def Let_def split: sum.splits list.splits)
  note S = start_runner_Inr [OF start]
  have okp: "ok_prefix ?rec" using valid by (simp add: valid_stream_def)
  have type: "f_event_type f = EvSession" and so: "session_of ?rec = Some sess"
    using valid_first [OF valid [unfolded rec]] sess by (auto simp: rec)
  have fok: "frame_ok [] f" using ok_prefix_middle [of "[]" f fs] okp rec by simp
  have em: "component_emits [f]" using emits by (simp add: rec component_emits_def)
  let ?rn = "rn0\<lparr>rn_driver := (rn_driver rn0)\<lparr>d_frames := push_frame (d_frames (rn_driver rn0)) f,
             d_session_sequence := f_src_seq f + 1\<rparr>\<rparr>"
  note I = session_inv [OF fok type em S(1-5)]
  have del': "run_deliver env fs ?rn = Inr (rn1, stp)" using del type by (simp add: rec)
  have fr2: "length (d_frames (rn_driver rn2)) < 2 ^ 64 - 1" using small by (simp add: x run_of_def Let_def)
  note F = finish_runner_Inr [OF fin]
  have len12: "length (d_frames (rn_driver rn1)) \<le> length (d_frames (rn_driver rn2))"
    using F(1)
  proof induction
    case (effects_none rn')
    then show ?case by (simp add: runner_view_def)
  next
    case (effects_snoc rn1' rn2' rn3')
    then show ?case by (auto simp: runner_view_def effect_step_def add_effect_def)
  qed
  then have fr1: "length (d_frames (rn_driver rn1)) < 2 ^ 64 - 1" using fr2 by simp
  have ok': "ok_prefix ([f] @ fs)" "component_emits ([f] @ fs)" "rn_terminal ?rn = None"
    using okp emits S(6) by (simp_all add: rec)
  from run_deliver_inv [OF ok'(1,2) I ok'(3) del' fr1] obtain dn rest where
    dn: "[f] @ fs = dn @ rest" "run_inv g0 dn rn1"
    and out: "if rn_terminal rn1 = None
     then counted rn1 \<and> (stp = StopExhausted \<longrightarrow> rest = [] \<or> (\<exists>f. rest = [f] \<and> f_event_type f = EvEnd))
     else stp = StopExhausted \<and> re_candidate env \<and>
       d_steps (rn_driver rn1) \<noteq> [] \<and> dl_recorded_ordinal (last (d_steps (rn_driver rn1))) = f_ordinal (last dn) \<and>
       (counted rn1 \<longleftrightarrow> \<not> session_channel (last dn))" by blast
  have st1: "stream_inv rn1" using dn(2) by (simp add: run_inv_def)
  note A = effects_added_inv [OF F(1) st1, of g0]
  obtain effs where effs: "d_frames (rn_driver rn2) = d_frames (rn_driver rn1) @ effs" "\<forall>f\<in>set effs. is_emit f"
    using A by blast
  have ne: "d_frames (rn_driver rn1) \<noteq> []" using st1 session_first by (simp add: stream_inv_def)
  have steps: "d_steps (rn_driver rn2) = d_steps (rn_driver rn1)"
    and seq: "d_session_sequence (rn_driver rn2) = d_session_sequence (rn_driver rn1)" using A by blast+
  have inv2: "run_inv g0 dn rn2"
  proof -
    have "normal_inv g0 rn2" if "length (d_frames (rn_driver rn2)) < 2 ^ 64"
      using A that len12 dn(2) unfolding run_inv_def by (meson le_less_trans)
    moreover have "session_of (d_frames (rn_driver rn2)) = session_of (d_frames (rn_driver rn1))" and "stream_inv rn2"
      using A by blast+
    ultimately show ?thesis
      using dn(2) delivered_in_emits [OF ne effs(2)] ne by (simp add: run_inv_def effs(1) steps)
  qed
  have cnt: "counted rn2 \<longleftrightarrow> counted rn1"
  proof -
    have "component_emits (d_frames (rn_driver rn2))" using inv2 unfolding run_inv_def stream_inv_def frames_inv_def by blast
    then have "component_emits effs" by (simp add: effs(1) component_emits_def)
    from seq_count_effects [OF this effs(2) session_not_component] show ?thesis
      by (simp add: counted_def seq effs(1))
  qed
  have "session_of dn = Some sess"
    using so dn(1) run_inv_nonempty [OF dn(2)] rec by (cases dn) (simp_all add: session_of_def)
  moreover have "?rec = dn @ rest" using dn(1) rec by simp
  moreover have "if rn_terminal rn2 = None
     then counted rn2 \<and> (stp = StopExhausted \<longrightarrow> (\<exists>f. rest = [f] \<and> f_event_type f = EvEnd))
     else stp = StopExhausted \<and> re_candidate env \<and>
       d_steps (rn_driver rn2) \<noteq> [] \<and> dl_recorded_ordinal (last (d_steps (rn_driver rn2))) = f_ordinal (last dn) \<and>
       (counted rn2 \<longleftrightarrow> \<not> session_channel (last dn))"
  proof (cases "rn_terminal rn1 = None")
    case True
    have "rest \<noteq> []"
    proof
      assume "rest = []"
      then have "f_event_type (last dn) = EvEnd" using valid \<open>?rec = dn @ rest\<close> by (simp add: valid_stream_def)
      with run_inv_no_end [OF inv2] show False by simp
    qed
    with True out F(2) cnt show ?thesis by simp
  next
    case False
    with out F(2) cnt show ?thesis by (auto simp: steps)
  qed
  moreover note x(1) x(2) [folded x(1)] inv2 g0 pol result [folded x(1)]
  ultimately have "replay_parts env x g0 rn2 sess stp ps dn rest policy"
    unfolding replay_parts_def by (intro conjI)
  then show ?thesis by blast
qed

subsection \<open>The normalized frames\<close>

lemma normalize_effects_frames:
  "normalize_effects g fs = Inr (g', ns) \<Longrightarrow> list_all2 (\<lambda>f c. \<exists>b. c = f\<lparr>f_body := b\<rparr>) fs ns"
  by (induction fs arbitrary: g ns) (auto split: sum.splits prod.splits dest: goals_effect_frame)

lemma find_links:
  "(case find (\<lambda>s. dl_replayed_ordinal s = Some r) steps of
      None \<Rightarrow> r \<notin> fst ` set (links steps) | Some s \<Rightarrow> (r, dl_recorded_ordinal s) \<in> set (links steps))"
  by (induction steps) (auto simp: links_def List.map_filter_simps split: option.splits)

lemma renumbered_nth: "renumbered fs \<Longrightarrow> i < length fs \<Longrightarrow> f_ordinal (fs ! i) = word_of_nat i"
proof -
  assume "renumbered fs" "i < length fs"
  moreover from this have "map f_ordinal fs ! i = map word_of_nat [0..<length fs] ! i" by (simp add: renumbered_def)
  ultimately show ?thesis by simp
qed

lemma renumbered_distinct:
  assumes "renumbered fs" and "length fs < 2 ^ 64"
  shows "distinct (map f_ordinal fs)"
proof -
  have "inj_on (word_of_nat :: nat \<Rightarrow> u64) {0..<length fs}"
  proof (rule inj_onI)
    fix i j assume "i \<in> {0..<length fs}" "j \<in> {0..<length fs}" "(word_of_nat i :: u64) = word_of_nat j"
    then show "i = j" using assms(2) u64_of_nat_eq [of i j] by simp
  qed
  then show ?thesis using assms(1) by (simp add: renumbered_def distinct_map)
qed

lemma valid_renumbered: "ok_prefix fs \<Longrightarrow> renumbered fs"
  unfolding renumbered_def
  by (rule nth_equalityI) (simp_all add: ok_prefix_def frame_ok_def)

lemma inputs_of_delivered: "fs \<noteq> [] \<Longrightarrow> \<not> is_emit (hd fs) \<Longrightarrow> inputs_of fs = core (hd fs) # map core (delivered_in fs)"
  by (cases fs) (simp_all add: inputs_of_def delivered_in_def)

lemma core_shape: "shape f = shape g \<Longrightarrow> core (f\<lparr>f_body := f_body g\<rparr>) = core g"
  by (cases f; cases g) (simp add: shape_def core_def)

lemma renumbered_hd: "renumbered fs \<Longrightarrow> fs \<noteq> [] \<Longrightarrow> f_ordinal (hd fs) = 0"
  using renumbered_nth [of fs 0] by (cases fs) simp_all

lemma normalized_run:
  assumes inv: "run_inv g0 dn rn" and small: "length (d_frames (rn_driver rn)) < 2 ^ 64"
    and rec: "ok_prefix (dn @ rest)" "length (dn @ rest) < 2 ^ 64"
    and norm: "norm = normalize_frame (dn @ rest) (rn_canonical rn) (d_steps (rn_driver rn))"
  shows "\<exists>ns. normalize_effects g0 (filter is_emit (d_frames (rn_driver rn))) = Inr (rn_goals rn, ns) \<and>
      filter is_emit (map norm (d_frames (rn_driver rn))) = ns"
    and "inputs_of (map norm (d_frames (rn_driver rn))) = inputs_of dn"
    and "f_ordinal e = word_of_nat (length (d_frames (rn_driver rn))) \<Longrightarrow> norm e = e"
proof -
  let ?fs = "d_frames (rn_driver rn)"
  have stream: "stream_inv rn" and normal: "normal_inv g0 rn"
    and lnk: "links (d_steps (rn_driver rn)) = zip (map f_ordinal (delivered_in ?fs)) (map f_ordinal (delivered_in dn))"
    and shp: "map shape (delivered_in ?fs) = map shape (delivered_in dn)"
    and hds: "core (hd ?fs) = core (hd dn)" and ss: "session_of ?fs = session_of dn"
    using inv small unfolding run_inv_def by blast+
  have ren: "renumbered ?fs" and s: "session_of ?fs \<noteq> None" using stream by (simp_all add: stream_inv_def frames_inv_def)
  have dist: "distinct (map f_ordinal ?fs)" by (rule renumbered_distinct [OF ren small])
  have first: "?fs \<noteq> []" "\<not> is_emit (hd ?fs)" "dn \<noteq> []" "\<not> is_emit (hd dn)"
    using session_first [OF s] session_first [of dn] s ss by simp_all
  have len: "length (delivered_in ?fs) = length (delivered_in dn)" using map_eq_imp_length_eq [OF shp] .
  from normal obtain ns where ns: "normalize_effects g0 (filter is_emit ?fs) = Inr (rn_goals rn, ns)"
    and canon: "map (\<lambda>f. rn_canonical rn (f_ordinal f)) (filter is_emit ?fs) = map Some ns"
    and dom: "\<And>n. rn_canonical rn n \<noteq> None \<Longrightarrow> n \<in> f_ordinal ` set (filter is_emit ?fs)"
    by (auto simp: normal_inv_def Let_def)
  have emits: "map norm (filter is_emit ?fs) = ns \<and> (\<forall>f\<in>set (filter is_emit ?fs). is_emit (norm f))"
  proof -
    have nth: "norm (filter is_emit ?fs ! i) = ns ! i" if "i < length (filter is_emit ?fs)" for i
      using arg_cong [OF canon, of "\<lambda>xs. xs ! i"] that map_eq_imp_length_eq [OF canon] by (simp add: norm normalize_frame_def)
    have "map norm (filter is_emit ?fs) = ns"
      by (rule nth_equalityI) (use nth map_eq_imp_length_eq [OF canon] in simp_all)
    moreover have "is_emit c = is_emit f" if "c = f\<lparr>f_body := b\<rparr>" for c f b
      using that by (simp add: is_emit_def frame_kind_def)
    with normalize_effects_frames [OF ns] have "list_all2 (\<lambda>f c. is_emit c = is_emit f) (filter is_emit ?fs) ns"
      by (auto elim: list_all2_mono)
    then have "\<forall>i<length ns. is_emit (ns ! i)" using nth_mem [of _ "filter is_emit ?fs"] by (simp add: list_all2_conv_all_nth)
    then have "\<forall>c\<in>set ns. is_emit c" by (auto simp: in_set_conv_nth)
    ultimately show ?thesis by auto
  qed
  have not_canon: "rn_canonical rn (f_ordinal f) = None" if "f \<in> set ?fs" "\<not> is_emit f" for f
  proof (rule ccontr)
    assume "rn_canonical rn (f_ordinal f) \<noteq> None"
    then obtain g where "g \<in> set ?fs" "is_emit g" "f_ordinal g = f_ordinal f" using dom by fastforce
    with that dist show False by (auto simp: distinct_map dest: inj_onD)
  qed
  have fst_links: "fst ` set (links (d_steps (rn_driver rn))) = f_ordinal ` set (delivered_in ?fs)"
    using len by (simp add: lnk flip: set_map)
  have del_in: "set (delivered_in ?fs) \<subseteq> set (tl ?fs)" by (auto simp: delivered_in_def)
  have hd_norm: "norm (hd ?fs) = hd ?fs"
  proof -
    have "f_ordinal (hd ?fs) \<notin> f_ordinal ` set (tl ?fs)"
      using dist first(1) by (cases ?fs) auto
    then have "f_ordinal (hd ?fs) \<notin> fst ` set (links (d_steps (rn_driver rn)))"
      using fst_links del_in by auto
    then have "find (\<lambda>s. dl_replayed_ordinal s = Some (f_ordinal (hd ?fs))) (d_steps (rn_driver rn)) = None"
      using find_links [of "f_ordinal (hd ?fs)" "d_steps (rn_driver rn)"] by (force split: option.splits)
    moreover have "rn_canonical rn (f_ordinal (hd ?fs)) = None" using not_canon [of "hd ?fs"] first by simp
    ultimately show ?thesis by (simp add: norm normalize_frame_def)
  qed
  have del_norm: "core (norm (delivered_in ?fs ! i)) = core (delivered_in dn ! i) \<and> \<not> is_emit (norm (delivered_in ?fs ! i))"
    if i: "i < length (delivered_in ?fs)" for i
  proof -
    let ?f = "delivered_in ?fs ! i" and ?r = "delivered_in dn ! i"
    have f: "?f \<in> set (tl ?fs)" "\<not> is_emit ?f" using nth_mem [OF i] by (auto simp: delivered_in_def)
    have r: "?r \<in> set (dn @ rest)"
      using nth_mem [of i "delivered_in dn"] i len first(3) by (cases dn) (auto simp: delivered_in_def)
    then obtain j where j: "j < length (dn @ rest)" "(dn @ rest) ! j = ?r"
      unfolding in_set_conv_nth by blast
    then have "f_ordinal ?r = word_of_nat j" using renumbered_nth [OF valid_renumbered [OF rec(1)] j(1)] by simp
    then have at: "(dn @ rest) ! unat (f_ordinal ?r) = ?r"
      using j rec(2) by (simp add: unsigned_of_nat take_bit_nat_eq_self)
    have "f_ordinal ?f \<in> fst ` set (links (d_steps (rn_driver rn)))" using fst_links nth_mem [OF i] by simp
    then obtain st where st: "find (\<lambda>s. dl_replayed_ordinal s = Some (f_ordinal ?f)) (d_steps (rn_driver rn)) = Some st"
      and mem: "(f_ordinal ?f, dl_recorded_ordinal st) \<in> set (links (d_steps (rn_driver rn)))"
      using find_links [of "f_ordinal ?f" "d_steps (rn_driver rn)"] by (auto split: option.splits)
    from mem obtain k where k: "k < length (delivered_in ?fs)" "f_ordinal (delivered_in ?fs ! k) = f_ordinal ?f"
      "dl_recorded_ordinal st = f_ordinal (delivered_in dn ! k)"
      using len by (auto simp: lnk in_set_conv_nth)
    have "distinct (map f_ordinal (delivered_in ?fs))"
      using dist by (cases ?fs) (auto simp: delivered_in_def distinct_map_filter)
    then have "k = i" using k(1,2) i nth_eq_iff_index_eq [of "map f_ordinal (delivered_in ?fs)" k i] by simp
    then have body: "norm ?f = ?f\<lparr>f_body := f_body ?r\<rparr>"
      using st not_canon [of ?f] f k(3) at first(1) by (cases ?fs) (simp_all add: norm normalize_frame_def)
    have "shape ?f = shape ?r"
      using arg_cong [OF shp, of "\<lambda>xs. xs ! i"] i len by simp
    then show ?thesis using body core_shape [of ?f ?r] f(2) by (simp add: is_emit_def frame_kind_def)
  qed
  have keep: "is_emit (norm f) = is_emit f" if f: "f \<in> set ?fs" for f
  proof (cases "is_emit f")
    case True
    with emits that show ?thesis by auto
  next
    case False
    show ?thesis
    proof (cases "f = hd ?fs")
      case True
      then show ?thesis using hd_norm by simp
    next
      case other: False
      with f first(1) False have "f \<in> set (delivered_in ?fs)" by (cases ?fs) (auto simp: delivered_in_def)
      then obtain i where "i < length (delivered_in ?fs)" "delivered_in ?fs ! i = f" by (auto simp: in_set_conv_nth)
      with del_norm [of i] False show ?thesis by simp
    qed
  qed
  have flt: "filter P (map norm fs) = map norm (filter P fs)" if "\<forall>f\<in>set fs. P (norm f) = P f" for P fs
    using that by (induction fs) auto
  have "filter is_emit (map norm ?fs) = map norm (filter is_emit ?fs)" by (rule flt) (use keep in blast)
  with ns emits show "\<exists>ns. normalize_effects g0 (filter is_emit ?fs) = Inr (rn_goals rn, ns) \<and>
      filter is_emit (map norm ?fs) = ns" by simp
  have tl_in: "set (tl ?fs) \<subseteq> set ?fs" by (cases ?fs) auto
  have "delivered_in (map norm ?fs) = map norm (delivered_in ?fs)"
    unfolding delivered_in_def map_tl [symmetric] by (rule flt) (use keep tl_in in auto)
  moreover have "map (core \<circ> norm) (delivered_in ?fs) = map core (delivered_in dn)"
    by (rule nth_equalityI) (use del_norm len in simp_all)
  ultimately show "inputs_of (map norm ?fs) = inputs_of dn"
    using first hd_norm hds inputs_of_delivered [of dn] inputs_of_delivered [of "map norm ?fs"]
    by (simp add: hd_map)
  assume e: "f_ordinal e = word_of_nat (length ?fs)"
  have fresh: "f_ordinal e \<notin> f_ordinal ` set ?fs" 
  proof
    assume "f_ordinal e \<in> f_ordinal ` set ?fs"
    then obtain f where "f \<in> set ?fs" "f_ordinal f = word_of_nat (length ?fs)" using e by fastforce
    with renumbered_fresh [OF ren small] show False by blast
  qed
  have "rn_canonical rn (f_ordinal e) = None" 
    using dom [of "f_ordinal e"] fresh by fastforce
  moreover have "f_ordinal e \<notin> fst ` set (links (d_steps (rn_driver rn)))"
    unfolding fst_links using fresh del_in tl_in by auto
  then have "find (\<lambda>s. dl_replayed_ordinal s = Some (f_ordinal e)) (d_steps (rn_driver rn)) = None"
    using find_links [of "f_ordinal e" "d_steps (rn_driver rn)"] by (force split: option.splits)
  ultimately show "norm e = e" by (simp add: norm normalize_frame_def)
qed

section \<open>Properties of a replayed case\<close>

text \<open>The input whose effect decided the property.\<close>

definition deciding_input :: "frame list \<Rightarrow> execution \<Rightarrow> frame" where
  "deciding_input recording x = recording ! unat (dl_recorded_ordinal (last (r_steps (x_run x))))"

lemma valid_ordinal_index:
  assumes "ok_prefix fs" and "length fs < 2 ^ 64" and "f \<in> set fs"
  shows "fs ! unat (f_ordinal f) = f"
proof -
  obtain j where j: "j < length fs" "fs ! j = f" using assms(3) by (auto simp: in_set_conv_nth)
  then have "f_ordinal f = word_of_nat j" using renumbered_nth [OF valid_renumbered [OF assms(1)] j(1)] by simp
  then show ?thesis using j assms(2) by (simp add: unsigned_of_nat take_bit_nat_eq_self)
qed

text \<open>
  C3. Whatever the adapter and the property program answer, a successful replay of a valid case whose
  component sends exactly its effects gives a stream that the native decoder accepts, if every effect
  fits a frame, unless a candidate was stopped at an effect that answers an input of the session
  channel: then the end frame repeats that input's sequence number and the decoder refuses the
  stream.  The normalized frames hold a prefix of the recorded inputs, unchanged and in order, and
  all of them when the replay ends exhausted without a decision.
\<close>

theorem case_replay_is_a_stream:
  assumes "run_case_replay env s = Inr x"
    and "valid_stream (cf_frames (re_case env))" and "component_emits (cf_frames (re_case env))"
    and "length (r_frames (x_run x)) < 2 ^ 64" and "length (cf_frames (re_case env)) < 2 ^ 64"
  shows "(decode_stream k (encode_stream k (r_frames (x_run x))) = Inr (r_frames (x_run x)) \<longleftrightarrow>
      (\<forall>f\<in>set (r_frames (x_run x)). is_emit f \<longrightarrow> length (f_body f) < 2 ^ 32 - 8) \<and>
      \<not> (decided x \<and> session_channel (deciding_input (cf_frames (re_case env)) x))) \<and>
    (decided x \<longrightarrow> re_candidate env) \<and>
    (\<exists>n. inputs_of (butlast (x_normalized x)) = take n (inputs_of (cf_frames (re_case env)))) \<and>
    (r_stop (x_run x) = StopExhausted \<longrightarrow> \<not> decided x \<longrightarrow>
      inputs_of (butlast (x_normalized x)) = inputs_of (butlast (cf_frames (re_case env))))"
proof -
  let ?rec = "cf_frames (re_case env)"
  from run_case_replay_Inr [OF assms(1-4)] obtain g0 rn sess stp ps dn rest policy where
    parts: "replay_parts env x g0 rn sess stp ps dn rest policy" by blast
  from parts have x: "x_run x = run_of sess stp ps rn"
    and xn: "x_normalized x = map (normalize_frame ?rec (rn_canonical rn) (d_steps (rn_driver rn))) (r_frames (x_run x))"
    and rec: "?rec = dn @ rest" and inv: "run_inv g0 dn rn" and sess: "session_of dn = Some sess"
    unfolding replay_parts_def by blast+
  from parts have out: "if rn_terminal rn = None
     then counted rn \<and> (stp = StopExhausted \<longrightarrow> (\<exists>f. rest = [f] \<and> f_event_type f = EvEnd))
     else stp = StopExhausted \<and> re_candidate env \<and>
       d_steps (rn_driver rn) \<noteq> [] \<and> dl_recorded_ordinal (last (d_steps (rn_driver rn))) = f_ordinal (last dn) \<and>
       (counted rn \<longleftrightarrow> \<not> session_channel (last dn))"
    unfolding replay_parts_def by (elim conjE)
  let ?fs = "d_frames (rn_driver rn)"
  let ?e = "end_frame (s_uuid sess) (word_of_nat (length ?fs)) (d_session_sequence (rn_driver rn))"
  have fr: "r_frames (x_run x) = ?fs @ [?e]" by (simp add: x run_of_def Let_def)
  have small: "length ?fs < 2 ^ 64" using assms(4) by (simp add: fr)
  have okrec: "ok_prefix (dn @ rest)" "length (dn @ rest) < 2 ^ 64"
    using assms(2,5) rec by (simp_all add: valid_stream_def)
  have dec: "decided x \<longleftrightarrow> rn_terminal rn \<noteq> None"
    using out by (auto simp: decided_def x run_of_def Let_def runner_finish_reason_def split: if_splits)
  have inp: "deciding_input ?rec x = last dn" if "decided x"
  proof -
    have "last dn \<in> set (dn @ rest)" using run_inv_nonempty [OF inv] by simp
    from valid_ordinal_index [OF okrec this] show ?thesis
      using out that dec by (simp add: deciding_input_def x run_of_def Let_def rec split: if_splits)
  qed
  have cnt: "counted rn \<longleftrightarrow> \<not> (decided x \<and> session_channel (deciding_input ?rec x))"
    using out dec inp by (cases "rn_terminal rn = None") auto
  have stream: "frames_inv (d_effect_sequences (rn_driver rn)) ?fs"
    and fit: "\<forall>f\<in>set ?fs. is_emit f \<longrightarrow> body_fits (f_event_type f) (f_body f)"
    and sfs: "session_of ?fs = Some sess"
    using inv sess by (auto simp: run_inv_def stream_inv_def)
  have e: "f_event_type ?e = EvEnd" "\<not> is_emit ?e" "f_ordinal ?e = word_of_nat (length ?fs)"
    by (simp_all add: end_frame_def is_emit_def frame_kind_def)
  have e_ok: "frame_ok ?fs ?e \<longleftrightarrow> counted rn"
  proof
    show "counted rn \<Longrightarrow> frame_ok ?fs ?e" by (rule end_frame_ok [OF stream sfs]) (simp add: counted_def)
    show "frame_ok ?fs ?e \<Longrightarrow> counted rn"
      by (simp add: frame_ok_def counted_def end_frame_def sequence_key_def)
  qed
  have sizes: "(\<forall>f\<in>set ?fs. is_emit f \<longrightarrow> fits f) \<longleftrightarrow>
      (\<forall>f\<in>set (r_frames (x_run x)). is_emit f \<longrightarrow> length (f_body f) < 2 ^ 32 - 8)"
    using fit e(2) by (auto simp: fr fits_def EVENT_HEADER_SIZE_def)
  have "valid_stream (r_frames (x_run x)) \<longleftrightarrow> (\<forall>f\<in>set ?fs. is_emit f \<longrightarrow> fits f) \<and> counted rn"
    using e_ok e(1) sound_prefix_ok [of ?fs] stream by (auto simp: valid_stream_def fr frames_inv_def)
  then have "decode_stream k (encode_stream k (r_frames (x_run x))) = Inr (r_frames (x_run x)) \<longleftrightarrow>
      (\<forall>f\<in>set (r_frames (x_run x)). is_emit f \<longrightarrow> length (f_body f) < 2 ^ 32 - 8) \<and>
      \<not> (decided x \<and> session_channel (deciding_input ?rec x))"
    using decode_stream_iff [OF assms(4)] sizes cnt by simp
  moreover have "decided x \<longrightarrow> re_candidate env" using out dec by (simp split: if_splits)
  moreover have N: "inputs_of (butlast (x_normalized x)) = inputs_of dn"
    using normalized_run(2) [OF inv small okrec refl] by (simp add: xn fr rec butlast_append)
  then have "inputs_of (butlast (x_normalized x)) = take (length (inputs_of dn)) (inputs_of ?rec)"
    by (simp add: rec)
  moreover have "inputs_of (butlast (x_normalized x)) = inputs_of (butlast ?rec)"
    if "r_stop (x_run x) = StopExhausted" "\<not> decided x"
    using that dec out N by (auto simp: rec x run_of_def Let_def)
  ultimately show ?thesis by blast
qed

text \<open>
  C4. Under the goal-ids policy the comparison of a run's normalized frames with the recording finds the
  effects in agreement exactly when the effects the adapter wrote are the recorded ones up to a
  renaming of goal identities that is injective and nonzero for each client.
\<close>

theorem normalized_agreement:
  assumes "run_case_replay env s = Inr x"
    and "valid_stream (cf_frames (re_case env))" and "component_emits (cf_frames (re_case env))"
    and "length (r_frames (x_run x)) < 2 ^ 64" and "length (cf_frames (re_case env)) < 2 ^ 64"
    and "map_of (cf_declaration (re_case env)) ''comparison_policy'' = Some policy"
    and "goals_new (re_source_hash env) (re_reference_hash env) (cf_frames (re_case env)) (re_identity env) policy = Inr g"
    and "gl_enabled g" and "recs = filter is_emit (cf_frames (re_case env))" and "cancels_known g recs"
  shows "effects_agree (compare h kh corpus (cf_frames (re_case env)) ((x_run x)\<lparr>r_frames := x_normalized x\<rparr>)) \<longleftrightarrow>
    (\<exists>\<rho>. proper_renaming g recs \<rho> \<and>
      map effect_key (filter is_emit (r_frames (x_run x))) = map (effect_key \<circ> rename_goal g \<rho>) recs)"
proof -
  let ?rec = "cf_frames (re_case env)"
  from run_case_replay_Inr [OF assms(1-4)] obtain g0 rn sess stp ps dn rest policy' where
    parts: "replay_parts env x g0 rn sess stp ps dn rest policy'" by blast
  from parts have x: "x_run x = run_of sess stp ps rn"
    and xn: "x_normalized x = map (normalize_frame ?rec (rn_canonical rn) (d_steps (rn_driver rn))) (r_frames (x_run x))"
    and g0: "goals_new (re_source_hash env) (re_reference_hash env) ?rec (re_identity env) policy' = Inr g0"
    and pol: "map_of (cf_declaration (re_case env)) ''comparison_policy'' = Some policy'"
    and rec: "?rec = dn @ rest" and inv: "run_inv g0 dn rn"
    unfolding replay_parts_def by blast+
  have g: "g0 = g" using g0 pol assms(6,7) by simp
  let ?fs = "d_frames (rn_driver rn)"
  let ?e = "end_frame (s_uuid sess) (word_of_nat (length ?fs)) (d_session_sequence (rn_driver rn))"
  have fr: "r_frames (x_run x) = ?fs @ [?e]" by (simp add: x run_of_def Let_def)
  have small: "length ?fs < 2 ^ 64" using assms(4) by (simp add: fr)
  have okrec: "ok_prefix (dn @ rest)" "length (dn @ rest) < 2 ^ 64"
    using assms(2,5) rec by (simp_all add: valid_stream_def)
  note N = normalized_run [OF inv small okrec refl]
  have "\<not> is_emit ?e" "f_ordinal ?e = word_of_nat (length ?fs)" by (simp_all add: end_frame_def is_emit_def frame_kind_def)
  then have emits: "filter is_emit (x_normalized x) =
      filter is_emit (map (normalize_frame ?rec (rn_canonical rn) (d_steps (rn_driver rn))) ?fs)"
    and raws: "filter is_emit (r_frames (x_run x)) = filter is_emit ?fs"
    using N(3) [of ?e] by (simp_all add: xn fr rec)
  from N(1) obtain ns where ns: "normalize_effects g (filter is_emit ?fs) = Inr (rn_goals rn, ns)"
    "filter is_emit (x_normalized x) = ns" by (auto simp: emits rec g)
  have dist: "distinct (map f_ordinal ?rec)"
    unfolding rec by (rule renumbered_distinct [OF valid_renumbered [OF okrec(1)] okrec(2)])
  have "effects_agree (compare h kh corpus ?rec ((x_run x)\<lparr>r_frames := x_normalized x\<rparr>)) \<longleftrightarrow>
      map effect_key recs = map effect_key ns"
    by (simp add: effects_agree_def compare_def Let_def compare_effects_None ns(2) assms(9))
  also have "\<dots> \<longleftrightarrow> (\<exists>g' ns. normalize_effects g (filter is_emit ?fs) = Inr (g', ns) \<and> map effect_key ns = map effect_key recs)"
    using ns(1) by auto
  also have "\<dots> \<longleftrightarrow> (\<exists>\<rho>. proper_renaming g recs \<rho> \<and>
      map effect_key (filter is_emit ?fs) = map (effect_key \<circ> rename_goal g \<rho>) recs)"
  proof -
    have "recorded_effects g recs"
      unfolding assms(9) by (rule goals_new_recorded [OF assms(7) dist assms(8) assms(10) [unfolded assms(9)]])
    then show ?thesis using renamed_run translated_run by blast
  qed
  finally show ?thesis by (simp only: raws)
qed

text \<open>A case with one input, answered by one goal, and an adapter that issues its goal as 9.\<close>

definition case_message :: frame where
  "case_message =
     \<lparr>f_ordinal = 1, f_src_actor = 5, f_dst_actor = COMPONENT_ACTOR_ID, f_channel_id = 3, f_src_seq = 0,
      f_observed_ns = 2, f_header = \<lparr>h_event_type = EvMessage, h_schema = 1, h_flags = 0\<rparr>, f_body = message []\<rparr>"

definition case_send :: frame where
  "case_send = demo_goal_send\<lparr>f_ordinal := 2\<rparr>"

definition case_frames :: "frame list" where
  "case_frames =
     [hd demo_frames, case_message, case_send, end_frame 7 3 1]"

definition case_identity :: identity_map where
  "case_identity =
     [(''adapter'', ''a''), (''adapter_protocol'', show_word PROTOCOL_VERSION),
      (channel_key 3, ''command input Message''), (channel_key 7, ''goal effect GoalSend''),
      (''component'', ''c''), (''component_variant'', ''v''),
      (endpoint_key COMPONENT_ACTOR_ID, ''navigator''), (endpoint_key 5, ''caller''),
      (endpoint_key ACTOR_ACTION_SERVER, ''server''),
      (''normalization'', POLICY), (''normalization.client.7'', ''navigator''),
      (''normalization_source_blake3'', ''00''), (''starting_state'', ''fresh''), (''starting_state_blake3'', ''00''),
      (''adapter_binary_blake3'', hash_text demo_fingerprint [1]),
      (''component_binary_blake3'', hash_text demo_fingerprint [3]),
      (''property_binary_blake3'', hash_text demo_fingerprint [2])]"

definition case_declaration :: identity_map where
  "case_declaration =
     [(''comparison_policy'', ''goal-ids-in-order@1''), (''corpus'', ''c''), (''goal_response_deadline_ns'', ''1''),
      (''property'', ''p''), (''scenario'', ''s''), (''scope.completion'', ''x''), (''scope.observation_end'', ''y'')]"

definition case_demo :: case_file where
  "case_demo =
     \<lparr>cf_identity = case_identity, cf_declaration = case_declaration, cf_expected = [], cf_frames = case_frames,
      cf_case_id = [], cf_raw_hash = [], cf_captured_hash = [], cf_covered = {''build.json''}\<rparr>"

fun goal_adapter :: "unit adapter" where
  "goal_adapter s (Start protocol corpus scenario state) =
     (s, [Started PROTOCOL_VERSION \<lparr>i_component = ''c'', i_variant = ''v'', i_adapter = ''a'', i_protocol = PROTOCOL_VERSION\<rparr>
        [\<lparr>ep_actor = COMPONENT_ACTOR_ID, ep_name = ''navigator''\<rparr>, \<lparr>ep_actor = 5, ep_name = ''caller''\<rparr>,
         \<lparr>ep_actor = ACTOR_ACTION_SERVER, ep_name = ''server''\<rparr>]
        [\<lparr>ch_id = 3, ch_name = ''command'', ch_direction = ''input'', ch_event_types = [''Message'']\<rparr>,
         \<lparr>ch_id = 7, ch_name = ''goal'', ch_direction = ''effect'', ch_event_types = [''GoalSend'']\<rparr>] state])"
| "goal_adapter s (StepRequest w r) =
     (s, [EffectLine 1 1 (wire_of_frame (put_id 0 9 demo_goal_send)), Stepped 1 StatusOk None []])"
| "goal_adapter s (Finish reason) = (s, [Finished reason [] 1])"

definition case_env :: "unit run_env" where
  "case_env =
     \<lparr>re_react = goal_adapter, re_exit = (\<lambda>_. Some 0),
      re_program = (\<lambda>inp. Some (verdict_result (pi_property inp) VInconclusive NoAcceptance, 3)),
      re_source_hash = ''00'', re_reference_hash = [], re_case = case_demo, re_identity = case_identity,
      re_candidate = False\<rparr>"

lemma case_frame_fields:
  "f_event_type case_message = EvMessage" "frame_kind case_message = KDeliver" "f_body case_message = message []"
  "f_src_actor case_message = 5" "f_ordinal case_message = 1" "f_channel_id case_message = 3"
  "f_event_type (hd demo_frames) = EvSession" "f_event_type (end_frame u n q) = EvEnd"
  by (simp_all add: case_message_def frame_kind_def demo_frames_def end_frame_def)

definition case_goals :: goals where
  "case_goals =
     \<lparr>gl_enabled = True, gl_clients = [7 \<mapsto> ''navigator''],
      gl_issuances = (\<lambda>_. [])(''navigator'' := [(2, 7)]), gl_counts = (\<lambda>_. 0), gl_pairs = [], gl_seen = {}\<rparr>"

lemma case_keys: "endpoint_key COMPONENT_ACTOR_ID = ''endpoint.1''" "endpoint_key 5 = ''endpoint.5''"
  "endpoint_key ACTOR_ACTION_SERVER = ''endpoint.3''" "channel_key 3 = ''channel.3''" "channel_key 7 = ''channel.7''"
  by code_simp+

lemma case_send_fields:
  "f_event_type case_send = EvGoalSend" "frame_kind case_send = KEmit" "f_channel_id case_send = 7" "f_ordinal case_send = 2"
  "id_at (f_body case_send) 0 = Inr 7"
  "is_emit case_send" "f_src_actor case_send = COMPONENT_ACTOR_ID" "f_dst_actor case_send = ACTOR_ACTION_SERVER"
  "f_src_seq case_send = 0"
  using demo_goal_send_id
  by (simp_all add: case_send_def is_emit_def frame_kind_def demo_goal_send_def demo_request_def)

lemma case_env_fields:
  "cf_frames (re_case case_env) = case_frames" "cf_declaration (re_case case_env) = case_declaration"
  "re_identity case_env = case_identity" "re_react case_env = goal_adapter" "re_source_hash case_env = ''00''"
  "re_reference_hash case_env = []" "re_exit case_env s = Some 0" "\<not> re_candidate case_env"
  "re_program case_env inp = Some (verdict_result (pi_property inp) VInconclusive NoAcceptance, 3)"
  by (simp_all add: case_env_def case_demo_def)

lemma case_declaration_entries:
  "map_of case_declaration ''comparison_policy'' = Some ''goal-ids-in-order@1''"
  "map_of case_declaration ''corpus'' = Some ''c''" "map_of case_declaration ''scenario'' = Some ''s''"
  "map_of case_declaration ''property'' = Some ''p''" "map_of case_declaration ''scope.completion'' = Some ''x''"
  "map_of case_declaration ''scope.observation_end'' = Some ''y''"
  "map_of case_declaration ''goal_response_deadline_ns'' = Some ''1''"
  by (simp_all add: case_declaration_def)

lemma case_identity_entries:
  "map_of case_identity ''starting_state'' = Some ''fresh''"
  "map_of case_identity ''starting_state_blake3'' = Some ''00''"
  "map_of case_identity ''component'' = Some ''c''" "map_of case_identity ''component_variant'' = Some ''v''"
  "map_of case_identity ''adapter'' = Some ''a''"
  "map_of case_identity ''adapter_protocol'' = Some (show_word PROTOCOL_VERSION)"
  "map_of case_identity ''endpoint.1'' = Some ''navigator''" "map_of case_identity ''endpoint.3'' = Some ''server''"
  "map_of case_identity ''channel.7'' = Some ''goal effect GoalSend''"
  by (simp_all add: case_identity_def case_keys)

lemma case_goals_new:
  "goals_new ''00'' [] case_frames case_identity ''goal-ids-in-order@1'' = Inr case_goals"
  by (simp add: goals_new_def entry_def case_identity_def POLICY_def case_send_fields goals_client_def
      case_goals_def parse_u32_def parse_digits_def digit_value_def case_keys case_frames_def case_frame_fields)

lemma demo_session_first: "decode_session (f_body (hd demo_frames)) = Inr demo_session"
  by (simp add: demo_frames_def decode_encode_session)

lemma case_prepare:
  "prepare_run case_env = Inr (''c'', ''s'', case_goals, demo_session, \<lparr>ss_method = ''fresh'', ss_blake3 = ''00''\<rparr>)"
  by (simp add: prepare_run_def case_env_fields run_entry_def case_declaration_entries case_goals_new
    case_entry_def entry_def)
   (simp add: case_frames_def demo_session_first runner_state_of_def case_env_fields run_entry_def case_entry_def
      entry_def case_identity_entries)

lemma case_declared:
  "declared_endpoints case_identity =
     [(''channel.3'', ''command input Message''), (''channel.7'', ''goal effect GoalSend''),
      (''endpoint.1'', ''navigator''), (''endpoint.5'', ''caller''), (''endpoint.3'', ''server'')]"
  by (simp add: declared_endpoints_def case_identity_def case_keys)

lemma goal_adapter_starts:
  assumes "\<And>rq. (\<forall>reason. rq \<noteq> Finish reason) \<Longrightarrow> re_react env () rq = goal_adapter () rq" and "re_identity env = m"
    and "map_of m ''component'' = Some ''c''" "map_of m ''component_variant'' = Some ''v''"
    "map_of m ''adapter'' = Some ''a''" "map_of m ''adapter_protocol'' = Some (show_word PROTOCOL_VERSION)"
    "declared_endpoints m = declared_endpoints case_identity"
  shows "\<exists>rn. start_runner env () g corpus scenario \<lparr>ss_method = ''fresh'', ss_blake3 = ''00''\<rparr> = Inr rn \<and>
     rn_driver rn = \<lparr>d_adapter = (), d_queue = [], d_frames = [], d_steps = [], d_effects = [],
            d_progress = [], d_pending = [], d_session_sequence = 0, d_effect_sequences = Map.empty\<rparr> \<and>
     rn_goals rn = g \<and> rn_canonical rn = Map.empty \<and> rn_terminal rn = None"
proof -
  let ?eps = "[\<lparr>ep_actor = COMPONENT_ACTOR_ID, ep_name = ''navigator''\<rparr>, \<lparr>ep_actor = 5, ep_name = ''caller''\<rparr>,
         \<lparr>ep_actor = ACTOR_ACTION_SERVER, ep_name = ''server''\<rparr>]"
  let ?chs = "[\<lparr>ch_id = 3, ch_name = ''command'', ch_direction = ''input'', ch_event_types = [''Message'']\<rparr>,
         \<lparr>ch_id = 7, ch_name = ''goal'', ch_direction = ''effect'', ch_event_types = [''GoalSend'']\<rparr>]"
  let ?seen = "[(''endpoint.1'', ''navigator''), (''endpoint.3'', ''server''), (''endpoint.5'', ''caller'')]"
  let ?obs = "(''channel.3'', ''command input Message'') # (''channel.7'', ''goal effect GoalSend'') # ?seen"
  let ?i = "\<lparr>i_component = ''c'', i_variant = ''v'', i_adapter = ''a'', i_protocol = PROTOCOL_VERSION\<rparr>"
  have eps: "observe_endpoints ?eps [] = Inr ?seen" by (simp add: case_keys)
  have chs: "observe_channels ?chs ?seen = Inr ?obs" by (simp add: case_keys channel_declaration_def)
  have same: "same_identity (declared_endpoints m) ?obs False = Inr ()"
    unfolding same_identity_Inr assms(7) case_declared by simp
  have ids: "check_each id
             [identity_is m ''component'' (i_component ?i), identity_is m ''component_variant'' (i_variant ?i),
              identity_is m ''adapter'' (i_adapter ?i),
              identity_is m ''adapter_protocol'' (show_word (i_protocol ?i))] = Inr ()"
    by (simp add: identity_is_def run_entry_def case_entry_def entry_def assms(3-6))
  have "check_started m \<lparr>ss_method = ''fresh'', ss_blake3 = ''00''\<rparr> ?i ?eps ?chs
      \<lparr>ss_method = ''fresh'', ss_blake3 = ''00''\<rparr> = Inr ()"
    unfolding check_started_def ids eps sum.case chs same by simp
  then show ?thesis
    by (simp add: start_runner_def send_request_def assms(1,2) receive_def)
qed

lemma case_start:
  "\<exists>rn. start_runner case_env () case_goals ''c'' ''s'' \<lparr>ss_method = ''fresh'', ss_blake3 = ''00''\<rparr> = Inr rn \<and>
     rn_driver rn = \<lparr>d_adapter = (), d_queue = [], d_frames = [], d_steps = [], d_effects = [],
            d_progress = [], d_pending = [], d_session_sequence = 0, d_effect_sequences = Map.empty\<rparr> \<and>
     rn_goals rn = case_goals \<and> rn_canonical rn = Map.empty \<and> rn_terminal rn = None"
  by (rule goal_adapter_starts [OF _ case_env_fields(3) case_identity_entries(3,4,5,6) refl])
    (simp add: case_env_fields)

text \<open>The goal of the run: the recorded one, issued as 9.\<close>

definition case_issued :: frame where
  "case_issued = put_id 0 9 case_send"

lemma case_issued_fields:
  "f_event_type case_issued = EvGoalSend" "frame_kind case_issued = KEmit" "f_channel_id case_issued = 7"
  "f_ordinal case_issued = 2" "id_at (f_body case_issued) 0 = Inr 9" "is_emit case_issued"
  "f_src_actor case_issued = COMPONENT_ACTOR_ID" "f_dst_actor case_issued = ACTOR_ACTION_SERVER"
  "f_src_seq case_issued = 0" "f_header case_issued = \<lparr>h_event_type = EvGoalSend, h_schema = 1, h_flags = 3\<rparr>"
  "length (f_body case_issued) = 16"
  using case_send_fields
  by (simp_all add: case_issued_def is_emit_def frame_kind_def)
   (simp_all add: put_id_def case_send_def demo_goal_send_def demo_request_def encode_goal_send_def)

lemma case_wire:
  "frame_from_wire 2 (wire_of_frame (put_id 0 9 demo_goal_send)) = Inr case_issued"
  unfolding frame_from_wire_of_frame
  by (simp add: case_issued_def case_send_def put_id_def demo_goal_send_def demo_request_def)

lemma case_effect_valid: "validate_event case_issued case_identity = Inr ()"
proof -
  have "declares ''goal effect GoalSend'' case_issued"
    by (simp add: declares_def case_issued_fields rsplit3_def)
  then show ?thesis
    by (simp add: validate_event_def case_issued_fields case_keys case_entry_def entry_def case_identity_entries)
qed

lemma case_effect_decodes: "decode_payload n (payload case_issued) = Inr (f_header case_issued, f_body case_issued)"
  unfolding payload_def
  by (rule decode_payload_encode)
    (simp_all add: case_issued_fields wf_header_def EVENT_SCHEMA_def FLAGS_DEFINED_def FLAG_ATTEMPTED_def
      FLAG_CONFIRMED_def FLAG_COUNT_UNKNOWN_def)

lemma case_effect_goal: "\<exists>g. goals_effect case_goals case_issued = Inr (g, case_send)"
proof -
  have "put_id 0 7 case_issued = case_send"
    unfolding case_issued_def put_put by (rule put_same) (rule case_send_fields)
  moreover have client: "goals_client case_goals case_issued = Inr ''navigator''"
    by (simp add: goals_client_def case_goals_def case_issued_fields)
  have "gl_seen case_goals = {}" "gl_counts case_goals ''navigator'' = 0" "gl_enabled case_goals"
    "get_at (gl_issuances case_goals ''navigator'') 0 = Some (2, 7)"
    by (simp_all add: case_goals_def get_at_def)
  ultimately show ?thesis
    unfolding goals_effect_def case_issued_fields(1,5) client by simp
qed

lemma case_replayed:
  "\<exists>x. run_case_replay case_env () = Inr x \<and> \<not> decided x \<and> r_stop (x_run x) = StopExhausted \<and>
     length (r_frames (x_run x)) = 4 \<and>
     filter is_emit (r_frames (x_run x)) = [case_issued] \<and> x_normalized x = map timeless case_frames"
proof -
  from case_start obtain rn0 where start: "start_runner case_env () case_goals ''c'' ''s''
      \<lparr>ss_method = ''fresh'', ss_blake3 = ''00''\<rparr> = Inr rn0"
    and rn0: "rn_driver rn0 = \<lparr>d_adapter = (), d_queue = [], d_frames = [], d_steps = [], d_effects = [],
            d_progress = [], d_pending = [], d_session_sequence = 0, d_effect_sequences = Map.empty\<rparr>"
      "rn_goals rn0 = case_goals" "rn_canonical rn0 = Map.empty" "rn_terminal rn0 = None" by blast
  obtain g where g: "goals_effect case_goals case_issued = Inr (g, case_send)" using case_effect_goal by blast
  let ?s0 = "(hd demo_frames)\<lparr>f_ordinal := 0, f_observed_ns := 0\<rparr>"
  let ?m0 = "case_message\<lparr>f_ordinal := 1, f_observed_ns := 0\<rparr>"
  let ?d1 = "\<lparr>d_adapter = (), d_queue = [], d_frames = [?s0], d_steps = [], d_effects = [],
            d_progress = [], d_pending = [], d_session_sequence = 1, d_effect_sequences = Map.empty\<rparr>"
  let ?rn1 = "rn0\<lparr>rn_driver := ?d1\<rparr>"
  define d2 where "d2 = \<lparr>d_adapter = (), d_queue = [], d_frames = [?s0, ?m0, case_issued],
      d_steps = [\<lparr>dl_recorded_ordinal = 1, dl_replayed_ordinal = Some 1, dl_status = StatusOk, dl_reason = None\<rparr>],
      d_effects = [(1, 2)], d_progress = [], d_pending = [], d_session_sequence = 1, d_effect_sequences = [7 \<mapsto> 1]\<rparr>"
  have ref: "runner_ref case_frames case_message = Inr None"
    by (simp add: runner_ref_def request_ref_of_def names_request_def case_frame_fields)
  let ?w = "wire_of_frame (put_id 0 9 demo_goal_send)"
  let ?lines = "[EffectLine 1 1 ?w, Stepped 1 StatusOk None []]"
  have auth: "authorized_callbacks st case_message None = [1]" for st :: "unit driver"
    by (simp add: authorized_callbacks_def case_frame_fields)
  have fields: "EVENT_SCHEMA = 1" "FLAGS_DEFINED = 7"
    by (simp_all add: EVENT_SCHEMA_def FLAGS_DEFINED_def FLAG_ATTEMPTED_def FLAG_CONFIRMED_def FLAG_COUNT_UNKNOWN_def)
  have eff: "collect_effect case_env case_message [1] 1 1 ?w rn =
      Inr (rn\<lparr>rn_driver := (rn_driver rn)\<lparr>d_effect_sequences := [7 \<mapsto> 1], d_frames := push_frame (d_frames (rn_driver rn)) case_issued,
                d_effects := [(1, 2)]\<rparr>,
              rn_goals := g, rn_canonical := (rn_canonical rn)(2 \<mapsto> case_send)\<rparr>)"
    if rn: "length (d_frames (rn_driver rn)) = 2" "d_effect_sequences (rn_driver rn) = Map.empty"
      "d_effects (rn_driver rn) = []" "rn_goals rn = case_goals" for rn :: "unit runner"
  proof -
    have send2: "case_send\<lparr>f_ordinal := 2\<rparr> = case_send" by (simp add: case_send_def)
    show ?thesis
      using case_wire case_effect_valid case_effect_decodes g
      by (simp add: collect_effect_def rn case_frame_fields case_issued_fields case_env_fields fields
          next_seq_def Let_def send2)
  qed
  define rn1 where "rn1 = rn0\<lparr>rn_driver := ?d1\<rparr>"
  have rn1: "rn_driver rn1 = ?d1" "rn_goals rn1 = case_goals" "rn_canonical rn1 = Map.empty" "rn_terminal rn1 = None"
    using rn0 by (simp_all add: rn1_def)
  define rn2 where "rn2 = rn1\<lparr>rn_driver := d2, rn_goals := g, rn_canonical := [2 \<mapsto> case_send]\<rparr>"
  have push_m: "push_frame [?s0] case_message = [?s0, ?m0]" by (simp add: push_frame_def)
  have push_i: "push_frame [?s0, ?m0] case_issued = [?s0, ?m0, case_issued]"
  proof -
    have "f_observed_ns case_issued = 0"
      by (simp add: case_issued_def put_id_def case_send_def demo_goal_send_def demo_request_def)
    moreover have "case_issued\<lparr>f_ordinal := 2, f_observed_ns := 0\<rparr> = case_issued"
      using case_issued_fields(4) calculation by (cases case_issued) simp
    ultimately show ?thesis by (simp add: push_frame_def)
  qed
  have lines: "run_lines case_env case_message [1] 1 ?lines
      (rn1\<lparr>rn_driver := ?d1\<lparr>d_queue := ?lines, d_frames := [?s0, ?m0]\<rparr>\<rparr>) = Inr (rn2, None)"
    by (simp add: eff rn1 push_i decide_at_effect_def case_env_fields runner_stepped_def accept_stepped_def
        case_frame_fields SESSION_ACTOR_ID_def rn2_def d2_def)
  have inp: "run_input case_env case_message rn1 = Inr (rn2, None)"
    using lines by (simp add: run_input_def case_env_fields ref rn1 send_request_def auth push_m)
  have del: "run_deliver case_env case_frames rn0 = Inr (rn2, StopExhausted)"
  proof -
    have "run_deliver case_env (case_message # [case_send, end_frame 7 3 1]) rn1 = Inr (rn2, StopExhausted)"
      by (simp add: case_frame_fields inp case_send_fields)
    moreover have "run_deliver case_env case_frames rn0 =
        run_deliver case_env (case_message # [case_send, end_frame 7 3 1]) rn1"
    proof -
      have "(hd demo_frames)\<lparr>f_ordinal := 0, f_observed_ns := 0\<rparr> = ?s0" "f_src_seq (hd demo_frames) = 0"
        by (simp_all add: demo_frames_def)
      then show ?thesis
        by (simp only: case_frames_def run_deliver.simps(2) [of _ "hd demo_frames"] case_frame_fields if_True simp_thms)
          (simp add: rn0 rn1_def push_frame_def)
    qed
    ultimately show ?thesis by simp
  qed
  define rn3 where "rn3 = rn2\<lparr>rn_driver := d2\<lparr>d_queue := [Finished FinishExhausted [] 1]\<rparr>\<rparr>"
  have fin: "finish_runner case_env StopExhausted rn2 = Inr (rn3, [])"
    using rn1(4)
    by (simp add: finish_runner_def runner_finish_reason_def rn3_def rn2_def d2_def send_request_def case_env_fields)
  have none: "rn_terminal rn3 = None" using rn1(4) by (simp add: rn3_def rn2_def)
  have answers: "\<exists>p. run_property case_env r rn3 = Inr p" for r
    using none
    by (simp add: run_property_def property_evaluate_def run_property_input_def run_entry_def case_entry_def
        entry_def case_env_fields case_declaration_entries check_result_def verdict_result_def exit_code_def
        property_input_of_def parse_i64_def parse_digits_def digit_value_def Let_def split: stop.splits)
  have prep: "prepare_run case_env = Inr (''c'', ''s'', case_goals, demo_session, \<lparr>ss_method = ''fresh'', ss_blake3 = ''00''\<rparr>)"
    by (rule case_prepare)
  obtain x where x: "run_case_replay case_env () = Inr x" "x_run x = run_of demo_session StopExhausted [] rn3"
    and xn: "x_normalized x = map (normalize_frame case_frames (rn_canonical rn3) (d_steps (rn_driver rn3))) (r_frames (x_run x))"
    using answers [of "run_of demo_session StopExhausted [] rn3"]
    by (auto simp: run_case_replay_def prep start del fin case_env_fields)
  have frames: "r_frames (x_run x) = [?s0, ?m0, case_issued, end_frame 7 3 1]"
    by (simp add: x(2) run_of_def rn3_def rn2_def d2_def demo_session_def)
  have "case_frames ! 1 = case_message" by (simp add: case_frames_def)
  moreover have "timeless (hd demo_frames) = ?s0" "timeless case_message = ?m0" "timeless case_send = case_send"
    "timeless (end_frame 7 3 1) = end_frame 7 3 1"
    by (simp_all add: timeless_def demo_frames_def case_message_def case_send_def demo_goal_send_def demo_request_def
        end_frame_def)
  moreover have "f_ordinal (end_frame 7 3 1) = 3" by (simp add: end_frame_def)
  moreover have "?m0\<lparr>f_body := f_body case_message\<rparr> = ?m0" by (simp add: case_message_def)
  ultimately have "x_normalized x = map timeless case_frames"
    unfolding xn frames
    by (simp add: rn3_def rn2_def d2_def normalize_frame_def case_issued_fields)
      (simp add: case_frames_def)
  moreover note frames
  moreover have "\<not> is_emit ?s0" "\<not> is_emit ?m0" "\<not> is_emit (end_frame 7 3 1)"
    by (simp_all add: is_emit_def frame_kind_def demo_frames_def case_message_def end_frame_def)
  moreover have "r_stop (x_run x) = StopExhausted" "\<not> decided x"
    using none by (simp_all add: decided_def x(2) run_of_def Let_def runner_finish_reason_def)
  ultimately show ?thesis using x(1) case_issued_fields(6) by (intro exI [of _ x]) simp
qed

lemma case_frames_valid: "valid_stream case_frames" "component_emits case_frames"
proof -
  have f0: "frame_ok [] (hd demo_frames)"
    using valid_demo ok_prefix_middle [of "[]" "hd demo_frames" "tl demo_frames"]
    by (simp add: valid_stream_def demo_frames_def)
  have so: "session_of [hd demo_frames] = Some demo_session"
    by (simp add: session_of_def demo_session_first case_frame_fields)
  have raw: "one_to_three (u16_at (message []) 0)" "length (message []) = 2"
    by (simp_all add: u16_at_def message_def SERIALIZATION_RAW_def subslice_def one_to_three_def)
  have f1: "frame_ok [hd demo_frames] case_message"
    using so raw by (simp add: frame_ok_def case_frame_fields wf_frame_def)
      (simp add: case_message_def wf_header_def EVENT_SCHEMA_def EVENT_HEADER_SIZE_def sequence_key_def marker_ok_def
        demo_frames_def)
  have so2: "session_of [hd demo_frames, case_message] = Some demo_session"
    "session_of [hd demo_frames, case_message, case_send] = Some demo_session"
    using so by (simp_all add: session_of_def)
  have f2: "frame_ok [hd demo_frames, case_message] case_send"
  proof -
    have "wf_frame case_send" "marker_ok [hd demo_frames, case_message] case_send"
      using so2 by (simp_all add: wf_frame_def marker_ok_def case_send_fields)
        (simp_all add: case_send_def demo_goal_send_def demo_request_def wf_header_def EVENT_SCHEMA_def
          EVENT_HEADER_SIZE_def encode_goal_send_def FLAGS_DEFINED_def FLAG_ATTEMPTED_def FLAG_CONFIRMED_def
          FLAG_COUNT_UNKNOWN_def)
    then show ?thesis
      by (simp add: frame_ok_def case_send_fields case_frame_fields sequence_key_def)
        (simp add: demo_frames_def case_message_def COMPONENT_ACTOR_ID_def)
  qed
  have f3: "frame_ok [hd demo_frames, case_message, case_send] (end_frame 7 3 1)"
    using so2 by (simp add: frame_ok_def end_frame_def wf_frame_def wf_header_def EVENT_SCHEMA_def
        EVENT_HEADER_SIZE_def sequence_key_def frame_tuple_def session_tuple_def marker_ok_def case_send_fields
        demo_session_def)
      (simp add: demo_frames_def case_message_def case_send_fields COMPONENT_ACTOR_ID_def SESSION_ACTOR_ID_def
        SESSION_CHANNEL_ID_def)
  have "ok_prefix (((([] @ [hd demo_frames]) @ [case_message]) @ [case_send]) @ [end_frame 7 3 1])"
    unfolding ok_prefix_snoc using f0 f1 f2 f3 by simp
  then show "valid_stream case_frames"
    by (simp add: valid_stream_def case_frames_def end_frame_def)
  show "component_emits case_frames"
    by (simp add: component_emits_def case_frames_def case_send_fields)
      (simp add: is_emit_def frame_kind_def demo_frames_def case_message_def end_frame_def COMPONENT_ACTOR_ID_def
        SESSION_ACTOR_ID_def)
qed


theorem case_replay_is_a_stream_witness:
  "\<exists>x. run_case_replay case_env () = Inr x \<and>
     decode_stream demo_hash (encode_stream demo_hash (r_frames (x_run x))) = Inr (r_frames (x_run x)) \<and>
     inputs_of (butlast (x_normalized x)) = inputs_of (butlast case_frames)"
proof -
  obtain x where x: "run_case_replay case_env () = Inr x" "\<not> decided x"
    "r_stop (x_run x) = StopExhausted" "length (r_frames (x_run x)) = 4"
    "filter is_emit (r_frames (x_run x)) = [case_issued]" using case_replayed by blast
  have small: "length (r_frames (x_run x)) < 2 ^ 64" "length (cf_frames (re_case case_env)) < 2 ^ 64"
    by (simp_all add: x case_env_fields case_frames_def)
  have "\<forall>f\<in>set (r_frames (x_run x)). is_emit f \<longrightarrow> length (f_body f) < 2 ^ 32 - 8"
  proof (intro ballI impI)
    fix f assume "f \<in> set (r_frames (x_run x))" "is_emit f"
    then have "f \<in> set (filter is_emit (r_frames (x_run x)))" by simp
    then show "length (f_body f) < 2 ^ 32 - 8" by (simp add: x case_issued_fields)
  qed
  then show ?thesis
    using case_replay_is_a_stream [OF x(1) case_frames_valid [folded case_env_fields(1)] small, of demo_hash] x
    by (intro exI [of _ x]) (simp add: case_env_fields)
qed

theorem normalized_agreement_witness:
  "\<exists>x. run_case_replay case_env () = Inr x \<and>
     effects_agree (compare demo_hash demo_keyed [] case_frames ((x_run x)\<lparr>r_frames := x_normalized x\<rparr>))"
proof -
  obtain x where x: "run_case_replay case_env () = Inr x" "length (r_frames (x_run x)) = 4"
    "filter is_emit (r_frames (x_run x)) = [case_issued]" using case_replayed by blast
  have small: "length (r_frames (x_run x)) < 2 ^ 64" "length (cf_frames (re_case case_env)) < 2 ^ 64"
    by (simp_all add: x case_env_fields case_frames_def)
  have recs: "[case_send] = filter is_emit (cf_frames (re_case case_env))"
    by (simp add: case_env_fields case_frames_def case_send_fields)
      (simp add: is_emit_def frame_kind_def demo_frames_def case_message_def end_frame_def)
  have goals: "goals_new (re_source_hash case_env) (re_reference_hash case_env) (cf_frames (re_case case_env))
      (re_identity case_env) ''goal-ids-in-order@1'' = Inr case_goals"
    by (simp add: case_env_fields case_goals_new)
  have enabled: "gl_enabled case_goals" by (simp add: case_goals_def)
  have known: "cancels_known case_goals [case_send]" by (simp add: cancels_known_def case_send_fields)
  have pol: "map_of (cf_declaration (re_case case_env)) ''comparison_policy'' = Some ''goal-ids-in-order@1''"
    by (simp add: case_env_fields case_declaration_entries)
  note agree = normalized_agreement [OF x(1) case_frames_valid [folded case_env_fields(1)] small pol goals enabled recs known,
      of demo_hash demo_keyed "[]"]
  have client: "goals_client case_goals case_send = Inr ''navigator''"
    by (simp add: goals_client_def case_goals_def case_send_fields)
  have "proper_renaming case_goals [case_send] (\<lambda>_ _. 9)"
    by (auto simp: proper_renaming_def issue_of_def client case_send_fields inj_on_def)
  moreover have "rename_goal case_goals (\<lambda>_ _. 9) case_send = case_issued"
    by (simp add: rename_goal_def client case_send_fields case_issued_def)
  ultimately have "effects_agree (compare demo_hash demo_keyed [] (cf_frames (re_case case_env))
      ((x_run x)\<lparr>r_frames := x_normalized x\<rparr>))"
    unfolding agree x(3) by (intro exI [of _ "\<lambda>_ _. 9"]) simp
  then show ?thesis using x(1) by (simp add: case_env_fields)
qed

end
