(* ===== verification/Verify_Report.thy ===== *)
theory Verify_Report
  imports Case_Replay
begin

text \<open>
  crates/rook-verify/src/lib.rs: verifying a case and testing a candidate against it.  Starting a
  program is a parameter: the command it is started with gives the adapter, or the property program,
  that runs.  So are the build files a path names (the case's own \<open>build.json\<close>, and the path given for a
  candidate, in one lookup) and the identities compiled into the runner.  The report is the record of
  what is measured; what it copies of the case is not repeated in it.
\<close>

type_synonym invocation = "string \<times> string list" \<comment> \<open>executable and arguments\<close>

record 's programs =
  pg_adapter :: "invocation \<Rightarrow> 's adapter"
  pg_state :: "invocation \<Rightarrow> 's" \<comment> \<open>the started adapter's state\<close>
  pg_exit :: "invocation \<Rightarrow> 's \<Rightarrow> int option"
  pg_property :: "invocation \<Rightarrow> property_program"

record 's verifier =
  vf_programs :: "'s programs"
  vf_builds :: "string \<Rightarrow> (artifacts \<times> build) option" \<comment> \<open>a parsed build file and its directory\<close>
  vf_executable :: string
  vf_template :: string
  vf_sources :: "(string \<times> string) list"
  vf_source_hash :: string
  vf_reference_hash :: string

datatype verify_error =
    VerifyCase case_error
  | NoBuildFile string
  | UnknownCandidate string
  | VerifyGoals goals_error
  | VerifyRun runner_error
  | InvalidProperty detail

fun verify_exit_code :: "verify_error \<Rightarrow> int" where
  "verify_exit_code (VerifyCase e) = case_exit_code e"
| "verify_exit_code (VerifyRun e) = runner_exit_code e"
| "verify_exit_code _ = 2"

subsection \<open>Comparing an execution with the recording\<close>

record compared =
  cp_raw_effects_equal :: bool
  cp_first_differing :: "(nat \<times> wire_frame option \<times> wire_frame option) option"
  cp_normalized_first :: "nat option"
  cp_agreement :: string

definition normalized_run :: "execution \<Rightarrow> run" where
  "normalized_run x = (x_run x)\<lparr>r_frames := x_normalized x\<rparr>"

text \<open>\<open>partition_point\<close> of the ordinals, which a loaded recording counts from zero.\<close>

definition frames_before :: "u64 \<Rightarrow> frame list \<Rightarrow> frame list" where
  "frames_before ordinal fs = takeWhile (\<lambda>f. f_ordinal f < ordinal) fs"

definition agreement_of ::
  "hash_fn \<Rightarrow> keyed_fn \<Rightarrow> bytes \<Rightarrow> frame list \<Rightarrow> execution \<Rightarrow> string" where
  "agreement_of h kh corpus recording x =
     (let normalized = compare h kh corpus recording (normalized_run x) in
      case r_stop (x_run x) of
        StopGap ordinal _ \<Rightarrow>
          if effects_agree (compare h kh corpus (frames_before ordinal recording) (normalized_run x))
          then ''unavailable'' else ''diverged''
      | _ \<Rightarrow>
          if effects_agree normalized \<and> run_agrees normalized then ''measured agreement'' else ''diverged'')"

definition run_comparison ::
  "hash_fn \<Rightarrow> keyed_fn \<Rightarrow> bytes \<Rightarrow> frame list \<Rightarrow> execution \<Rightarrow> compared" where
  "run_comparison h kh corpus recording x =
     (let raw = compare h kh corpus recording (x_run x);
          recorded = filter is_emit recording;
          replayed = filter is_emit (r_frames (x_run x))
      in \<lparr>cp_raw_effects_equal = effects_agree raw,
          cp_first_differing =
            map_option (\<lambda>i. (i, map_option wire_of_frame (get_at recorded i),
                map_option wire_of_frame (get_at replayed i))) (cm_first_difference raw),
          cp_normalized_first = cm_first_difference (compare h kh corpus recording (normalized_run x)),
          cp_agreement = agreement_of h kh corpus recording x\<rparr>)"

text \<open>A mismatch the baseline has established: over the whole recording, or before the point it stopped.\<close>

definition baseline_mismatch ::
  "hash_fn \<Rightarrow> keyed_fn \<Rightarrow> bytes \<Rightarrow> frame list \<Rightarrow> execution \<Rightarrow> bool" where
  "baseline_mismatch h kh corpus recording x =
     (case r_stop (x_run x) of
        StopExhausted \<Rightarrow> agreement_of h kh corpus recording x \<noteq> ''measured agreement''
      | StopGap ordinal _ \<Rightarrow>
          \<not> effects_agree (compare h kh corpus (frames_before ordinal recording) (normalized_run x))
      | StopRefused ordinal _ \<Rightarrow>
          \<not> effects_agree (compare h kh corpus (frames_before ordinal recording) (normalized_run x)))"

subsection \<open>The programs of a case\<close>

record plan =
  pl_command :: invocation
  pl_property :: invocation
  pl_identity :: identity_map
  pl_build :: "build option" \<comment> \<open>the baseline's artifacts, unless compiled in\<close>
  pl_candidate :: "build option"

definition load_build :: "hash_fn \<Rightarrow> 's verifier \<Rightarrow> string \<Rightarrow> verify_error + build" where
  "load_build h vf path =
     (case vf_builds vf path of
        None \<Rightarrow> Inl (NoBuildFile path)
      | Some (store, b) \<Rightarrow> (case build_load h store b of Inl e \<Rightarrow> Inl (VerifyCase e) | Inr b' \<Rightarrow> Inr b'))"

text \<open>A candidate build is loaded and checked against the baseline.\<close>

definition load_candidate ::
  "hash_fn \<Rightarrow> 's verifier \<Rightarrow> build \<Rightarrow> string option \<Rightarrow> verify_error + build option" where
  "load_candidate h vf baseline candidate =
     (case candidate of
        None \<Rightarrow> Inr None
      | Some name \<Rightarrow>
          (case load_build h vf name of
             Inl e \<Rightarrow> Inl e
           | Inr tested \<Rightarrow>
               (case build_candidate baseline tested of
                  Inl e \<Rightarrow> Inl (VerifyCase e) | Inr _ \<Rightarrow> Inr (Some tested))))"

definition build_plan :: "hash_fn \<Rightarrow> 's verifier \<Rightarrow> case_file \<Rightarrow> string option \<Rightarrow> verify_error + plan" where
  "build_plan h vf c candidate =
     (case load_build h vf ''build.json'' of
        Inl e \<Rightarrow> Inl e
      | Inr baseline \<Rightarrow>
          (case same_identity (cf_identity c) (bd_identity baseline) False of
             Inl e \<Rightarrow> Inl (VerifyCase e)
           | Inr _ \<Rightarrow>
               (case load_candidate h vf baseline candidate of
                  Inl e \<Rightarrow> Inl e
                | Inr tested \<Rightarrow>
                    Inr \<lparr>pl_command = build_command baseline,
                         pl_property = (ar_path (bd_property baseline), bd_property_args baseline),
                         pl_identity = bd_identity baseline, pl_build = Some baseline,
                         pl_candidate = tested\<rparr>)))"

definition reference_command :: "'s verifier \<Rightarrow> string \<Rightarrow> invocation" where
  "reference_command vf variant = (vf_executable vf, [''__adapter'', variant])"

definition reference_plan :: "'s verifier \<Rightarrow> case_file \<Rightarrow> string option \<Rightarrow> verify_error + plan" where
  "reference_plan vf c candidate =
     (case reference_identity (vf_template vf) (vf_sources vf) c of
        Inl e \<Rightarrow> Inl (VerifyCase e)
      | Inr m \<Rightarrow>
          (case case_entry m ''component_variant'' of
             Inl e \<Rightarrow> Inl (VerifyCase e)
           | Inr variant \<Rightarrow>
               if (case candidate of None \<Rightarrow> False | Some name \<Rightarrow> parse_variant name = None)
               then Inl (UnknownCandidate (the candidate))
               else Inr \<lparr>pl_command = reference_command vf variant,
                         pl_property = (vf_executable vf, [''__property'']),
                         pl_identity = m, pl_build = None, pl_candidate = None\<rparr>))"

text \<open>Refusals of identities and normalization come before any program is started.\<close>

definition verify_plan :: "hash_fn \<Rightarrow> 's verifier \<Rightarrow> case_file \<Rightarrow> string option \<Rightarrow> verify_error + plan" where
  "verify_plan h vf c candidate =
     (case (if ''build.json'' \<in> cf_covered c then build_plan h vf c candidate
            else reference_plan vf c candidate) of
        Inl e \<Rightarrow> Inl e
      | Inr p \<Rightarrow>
          (case case_entry (cf_declaration c) ''comparison_policy'' of
             Inl e \<Rightarrow> Inl (VerifyCase e)
           | Inr policy \<Rightarrow>
               (case goals_new (vf_source_hash vf) (vf_reference_hash vf) (cf_frames c) (pl_identity p) policy of
                  Inl e \<Rightarrow> Inl (VerifyGoals e) | Inr _ \<Rightarrow> Inr p)))"

definition command_env ::
  "'s verifier \<Rightarrow> case_file \<Rightarrow> invocation \<Rightarrow> invocation \<Rightarrow> identity_map \<Rightarrow> bool \<Rightarrow> 's run_env" where
  "command_env vf c adapter property m candidate =
     \<lparr>re_react = pg_adapter (vf_programs vf) adapter, re_exit = pg_exit (vf_programs vf) adapter,
      re_program = pg_property (vf_programs vf) property, re_source_hash = vf_source_hash vf,
      re_reference_hash = vf_reference_hash vf, re_case = c, re_identity = m, re_candidate = candidate\<rparr>"

definition run_command ::
  "'s verifier \<Rightarrow> case_file \<Rightarrow> invocation \<Rightarrow> invocation \<Rightarrow> identity_map \<Rightarrow> bool \<Rightarrow> verify_error + execution" where
  "run_command vf c adapter property m candidate =
     (case run_case_replay (command_env vf c adapter property m candidate)
             (pg_state (vf_programs vf) adapter) of
       Inl e \<Rightarrow> Inl (VerifyRun e) | Inr x \<Rightarrow> Inr x)"

definition candidate_command :: "'s verifier \<Rightarrow> plan \<Rightarrow> string \<Rightarrow> invocation" where
  "candidate_command vf p name =
     (case pl_candidate p of Some b \<Rightarrow> build_command b | None \<Rightarrow> reference_command vf name)"

definition candidate_identity :: "plan \<Rightarrow> string \<Rightarrow> identity_map" where
  "candidate_identity p name =
     (case pl_candidate p of
        Some b \<Rightarrow> bd_identity b | None \<Rightarrow> bt_insert ''component_variant'' name (pl_identity p))"

subsection \<open>The report\<close>

record report =
  rp_command :: string
  rp_exit_code :: int
  rp_case_id :: string
  rp_source_identity :: identity_map
  rp_candidate_identity :: "identity_map option"
  rp_scope_completed :: bool
  rp_baseline_reproduced :: "bool option"
  rp_baseline_comparison :: compared
  rp_comparison :: compared
  rp_recorded_hashes :: native_hashes
  rp_raw_hashes :: native_hashes
  rp_normalized_hashes :: native_hashes
  rp_gap_count :: nat
  rp_property_result :: property_result
  rp_property_input :: property_input \<comment> \<open>whose events and evidence are reported\<close>
  rp_finish_reason :: finish_reason
  rp_recorded_effects :: "wire_frame list"

text \<open>The exit code of a finished verification, or test of a candidate.\<close>

definition report_exit_code ::
  "hash_fn \<Rightarrow> keyed_fn \<Rightarrow> bytes \<Rightarrow> frame list \<Rightarrow> execution \<Rightarrow> execution option \<Rightarrow> int" where
  "report_exit_code h kh corpus recording baseline tested =
     (let reproduced = (agreement_of h kh corpus recording baseline = ''measured agreement'');
          complete = (r_stop (x_run baseline) = StopExhausted);
          mismatch = baseline_mismatch h kh corpus recording baseline
      in case tested of
           Some x \<Rightarrow> if mismatch then 1 else exit_code (x_property x)
         | None \<Rightarrow>
             if reproduced then 0
             else if complete \<or> mismatch \<or>
                 (case r_stop (x_run baseline) of StopRefused _ _ \<Rightarrow> True | _ \<Rightarrow> False)
             then 1 else 2)"

definition make_report ::
  "hash_fn \<Rightarrow> keyed_fn \<Rightarrow> case_file \<Rightarrow> bytes \<Rightarrow> identity_map \<Rightarrow> identity_map \<Rightarrow> property_input \<Rightarrow>
     execution \<Rightarrow> execution option \<Rightarrow> report" where
  "make_report h kh c corpus m tested_m inp baseline candidate =
     (let recording = cf_frames c;
          x = (case candidate of None \<Rightarrow> baseline | Some x \<Rightarrow> x);
          mismatch = baseline_mismatch h kh corpus recording baseline
      in \<lparr>rp_command = (if candidate \<noteq> None then ''test'' else ''verify''),
          rp_exit_code = report_exit_code h kh corpus recording baseline candidate,
          rp_case_id = cf_case_id c, rp_source_identity = m,
          rp_candidate_identity = (if candidate \<noteq> None then Some tested_m else None),
          rp_scope_completed = x_scope_completed x,
          rp_baseline_reproduced =
            (if mismatch then Some False
             else if r_stop (x_run baseline) = StopExhausted
             then Some (agreement_of h kh corpus recording baseline = ''measured agreement'') else None),
          rp_baseline_comparison = run_comparison h kh corpus recording baseline,
          rp_comparison = run_comparison h kh corpus recording x,
          rp_recorded_hashes = hash_frames h kh corpus recording,
          rp_raw_hashes = hash_frames h kh corpus (r_frames (x_run x)),
          rp_normalized_hashes = hash_frames h kh corpus (x_normalized x),
          rp_gap_count = length (filter (\<lambda>f. f_event_type f = EvGap) recording),
          rp_property_result = x_property x, rp_property_input = inp,
          rp_finish_reason = r_finish_reason (x_run x),
          rp_recorded_effects = map wire_of_frame (filter is_emit recording)\<rparr>)"

definition verify_loaded ::
  "hash_fn \<Rightarrow> keyed_fn \<Rightarrow> 's verifier \<Rightarrow> case_file \<Rightarrow> string option \<Rightarrow> verify_error + report" where
  "verify_loaded h kh vf c candidate =
     (case verify_plan h vf c candidate of
        Inl e \<Rightarrow> Inl e
      | Inr p \<Rightarrow>
          (case run_command vf c (pl_command p) (pl_property p) (pl_identity p) False of
             Inl e \<Rightarrow> Inl e
           | Inr baseline \<Rightarrow>
               if pr_result (x_property baseline) = VInvalid
               then Inl (InvalidProperty (pr_detail (x_property baseline)))
               else (case (case candidate of
                         None \<Rightarrow> Inr None
                       | Some name \<Rightarrow>
                           map_sum id Some (run_command vf c (candidate_command vf p name) (pl_property p)
                             (candidate_identity p name) True)) of
                   Inl e \<Rightarrow> Inl e
                 | Inr tested \<Rightarrow>
                     (case case_entry (cf_declaration c) ''corpus'' of
                        Inl e \<Rightarrow> Inl (VerifyCase e)
                      | Inr corpus \<Rightarrow>
                          let tested_m = (case candidate of
                                None \<Rightarrow> pl_identity p | Some name \<Rightarrow> candidate_identity p name)
                          in (case run_property_input (cf_declaration c)
                                (x_run (case tested of None \<Rightarrow> baseline | Some x \<Rightarrow> x)) tested_m of
                             Inl e \<Rightarrow> Inl (VerifyRun e)
                           | Inr inp \<Rightarrow>
                               Inr (make_report h kh c (ascii corpus) (pl_identity p) tested_m inp
                                 baseline tested))))))"

definition verify_case ::
  "hash_fn \<Rightarrow> keyed_fn \<Rightarrow> (bytes \<Rightarrow> bytes) \<Rightarrow> 's verifier \<Rightarrow> case_dir \<Rightarrow> string option \<Rightarrow> verify_error + report" where
  "verify_case h kh sha vf dir candidate =
     (case case_load h kh sha dir of
        Inl e \<Rightarrow> Inl (VerifyCase e) | Inr c \<Rightarrow> verify_loaded h kh vf c candidate)"

text \<open>\<open>error_report\<close>: the exit code and what it says of the files and of the execution.\<close>

definition execution_failure :: "verify_error \<Rightarrow> bool" where
  "execution_failure e \<longleftrightarrow>
     (case e of
        VerifyRun (RunGoals (DuplicateReplayed _)) \<Rightarrow> True
      | VerifyRun (RunGoals CancelUnknown) \<Rightarrow> True | _ \<Rightarrow> False)"

definition files_failure :: "verify_error \<Rightarrow> bool" where
  "files_failure e \<longleftrightarrow>
     (case e of
        VerifyCase c \<Rightarrow> integrity_failure c | VerifyRun (RunCase c) \<Rightarrow> integrity_failure c | _ \<Rightarrow> False)"

definition error_report :: "verify_error \<Rightarrow> int \<times> string \<times> string" where
  "error_report e =
     (verify_exit_code e,
      if files_failure e then ''diverged'' else if execution_failure e then ''passed'' else ''unavailable'',
      if execution_failure e then ''diverged'' else ''unavailable'')"

text \<open>\<open>property_subcommand\<close>: the reference property as a program.\<close>

definition reference_program :: property_program where
  "reference_program inp =
     (case evaluate inp of Inl _ \<Rightarrow> None | Inr r \<Rightarrow> Some (r, exit_code r))"

section \<open>The result that decides a replay\<close>

text \<open>The property program was asked about a run of the frames collected, and its answer was accepted.\<close>

definition judged :: "'s run_env \<Rightarrow> frame list \<Rightarrow> property_result \<Rightarrow> bool" where
  "judged env fs result \<longleftrightarrow>
     (\<exists>r. property_evaluate (re_program env) (cf_declaration (re_case env)) r (re_identity env) = Inr result \<and>
        set (r_frames r) \<subseteq> set fs)"

lemma judged_mono: "judged env fs result \<Longrightarrow> set fs \<subseteq> set gs \<Longrightarrow> judged env gs result"
  unfolding judged_def by blast

lemma effects_added_frames: "effects_added rn rn' \<Longrightarrow> set (d_frames (rn_driver rn)) \<subseteq> set (d_frames (rn_driver rn'))"
  by (induction rule: effects_added.induct) (auto simp: runner_view_def effect_step_def add_effect_def)

lemma run_lines_judged:
  assumes "run_lines env recorded authorized ro ls rn = Inr (rn', stp)" and "rn_terminal rn = None"
    and "rn_terminal rn' = Some result"
  shows "judged env (d_frames (rn_driver rn')) result"
proof -
  from run_lines_Inr [OF assms(1), unfolded assms(2)] obtain rn1 where t: "rn_terminal rn1 = None"
    and out: "(\<exists>n stat reason ps. runner_stepped recorded ro n stat reason ps rn1 = Inr (rn', stp)) \<or>
     stp = Some StopExhausted \<and> (\<exists>result. decided_by env recorded ro rn1 result rn')" by blast
  from out show ?thesis
  proof
    assume "\<exists>n stat reason ps. runner_stepped recorded ro n stat reason ps rn1 = Inr (rn', stp)"
    then have "rn_terminal rn' = rn_terminal rn1"
      by (auto simp: runner_stepped_def split: if_splits sum.splits)
    with t assms(3) show ?thesis by simp
  next
    assume "stp = Some StopExhausted \<and> (\<exists>result. decided_by env recorded ro rn1 result rn')"
    then obtain res where d: "decided_by env recorded ro rn1 res rn'" by blast
    then have "res = result" using assms(3) by (simp add: decided_by_def)
    moreover have "d_frames (rn_driver rn') = d_frames (rn_driver rn1)"
      using d by (simp add: decided_by_def runner_view_def)
    ultimately show ?thesis
      using d unfolding judged_def decided_by_def
      by (intro exI [of _ "current_run recorded ro (rn_driver rn1)"]) (simp add: current_run_def)
  qed
qed

lemma run_input_judged:
  assumes "run_input env f rn = Inr (rn', stp)" and "rn_terminal rn = None" and "rn_terminal rn' = Some result"
  shows "judged env (d_frames (rn_driver rn')) result"
proof -
  from assms(1) obtain request where req: "runner_ref (cf_frames (re_case env)) f = Inr request"
    by (auto simp: run_input_def Let_def split: sum.splits)
  let ?answer = "case request of None \<Rightarrow> Inr f
      | Some r \<Rightarrow> answer_for (rn_goals rn) (rn_canonical rn) (cf_frames (re_case env)) (d_frames (rn_driver rn)) f r"
  show ?thesis
  proof (cases ?answer)
    case (Inl reason)
    with assms(1) req have "rn_terminal rn' = rn_terminal rn" by (auto simp: run_input_def Let_def)
    with assms show ?thesis by simp
  next
    case (Inr d)
    define st1 where "st1 = send_request (re_react env) (StepRequest (wire_of_frame d) request) (rn_driver rn)"
    define rn1 where "rn1 = rn\<lparr>rn_driver := st1\<lparr>d_frames := push_frame (d_frames st1) d\<rparr>\<rparr>"
    have lines: "run_lines env f (authorized_callbacks st1 f request) (word_of_nat (length (d_frames st1))) (d_queue st1) rn1 = Inr (rn', stp)"
      using assms(1) by (simp add: run_input_def Let_def req Inr rn1_def st1_def)
    have "rn_terminal rn1 = None" using assms(2) by (simp add: rn1_def)
    from run_lines_judged [OF lines this assms(3)] show ?thesis .
  qed
qed

lemma run_lines_live:
  "run_lines env recorded authorized ro ls rn = Inr (rn', None) \<Longrightarrow> rn_terminal rn = None \<Longrightarrow> rn_terminal rn' = None"
  using run_lines_Inr [of env recorded authorized ro ls rn rn' None]
  by (auto simp: runner_stepped_def split: if_splits sum.splits)

lemma run_input_live:
  assumes "run_input env f rn = Inr (rn', None)" and "rn_terminal rn = None"
  shows "rn_terminal rn' = None"
proof -
  from assms(1) obtain authorized ro ls rn1 where "run_lines env f authorized ro ls rn1 = Inr (rn', None)"
    "rn_terminal rn1 = rn_terminal rn"
    by (auto simp: run_input_def Let_def split: sum.splits)
  with run_lines_live assms(2) show ?thesis by metis
qed

lemma run_deliver_judged:
  assumes "run_deliver env rest rn = Inr (rn', stp)" and "rn_terminal rn = None" and "rn_terminal rn' = Some result"
  shows "judged env (d_frames (rn_driver rn')) result"
  using assms
proof (induction rest arbitrary: rn)
  case (Cons f rest)
  show ?case
  proof (cases "f_event_type f \<in> {EvSession, EvEnd, EvGap} \<or> is_emit f")
    case True
    then consider "f_event_type f = EvSession" | "f_event_type f = EvEnd" | "f_event_type f = EvGap"
      | "is_emit f" "f_event_type f \<notin> {EvSession, EvEnd, EvGap}" by blast
    then show ?thesis
    proof cases
      case 1
      with Cons.prems(1) have d: "run_deliver env rest (rn\<lparr>rn_driver := (rn_driver rn)\<lparr>d_frames := push_frame (d_frames (rn_driver rn)) f,
             d_session_sequence := f_src_seq f + 1\<rparr>\<rparr>) = Inr (rn', stp)" by simp
      from Cons.IH [OF d _ Cons.prems(3)] Cons.prems(2) show ?thesis by simp
    next
      case 4
      then have "run_deliver env rest rn = Inr (rn', stp)" using Cons.prems(1) by (simp add: is_emit_def)
      from Cons.IH [OF this Cons.prems(2,3)] show ?thesis .
    qed (use Cons.prems in \<open>auto split: sum.splits\<close>)
  next
    case False
    then have inp: "f_event_type f \<notin> {EvSession, EvEnd, EvGap}" "\<not> is_emit f" by blast+
    from run_deliver_input [OF inp Cons.prems(1)] obtain rn1 s where i: "run_input env f rn = Inr (rn1, s)"
      and k: "s = None \<and> run_deliver env rest rn1 = Inr (rn', stp) \<or> s = Some stp \<and> rn1 = rn'" by blast
    from k show ?thesis
    proof
      assume a: "s = None \<and> run_deliver env rest rn1 = Inr (rn', stp)"
      show ?thesis
      proof (cases "rn_terminal rn1")
        case None
        with Cons.IH [of rn1] a Cons.prems(3) show ?thesis by blast
      next
        case (Some res)
        with run_input_live [OF _ Cons.prems(2)] i a show ?thesis by simp
      qed
    next
      assume "s = Some stp \<and> rn1 = rn'"
      with run_input_judged [OF i Cons.prems(2)] Cons.prems(3) show ?thesis by simp
    qed
  qed
qed simp

text \<open>The result a replay returns: judged on frames of the run, or on the finished run.\<close>

lemma run_case_replay_judged:
  assumes "run_case_replay env s = Inr x"
  shows "judged env (r_frames (x_run x)) (x_property x)"
    and "x_scope_completed x \<longleftrightarrow> pr_result (x_property x) = VPass"
proof -
  from assms obtain corpus scenario g0 sess requested where
    prep: "prepare_run env = Inr (corpus, scenario, g0, sess, requested)"
    by (auto simp: run_case_replay_def split: sum.splits)
  from assms obtain rn0 rn1 rn2 stp ps where start: "start_runner env s g0 corpus scenario requested = Inr rn0"
    and del: "run_deliver env (cf_frames (re_case env)) rn0 = Inr (rn1, stp)"
    and fin: "finish_runner env stp rn1 = Inr (rn2, ps)"
    and result: "run_property env (run_of sess stp ps rn2) rn2 = Inr (x_property x)"
    and x: "x_run x = run_of sess stp ps rn2" "x_scope_completed x = (pr_result (x_property x) = VPass)"
    by (auto simp: run_case_replay_def prep split: sum.splits prod.splits)
  show "x_scope_completed x \<longleftrightarrow> pr_result (x_property x) = VPass" by (simp add: x)
  note F = finish_runner_Inr [OF fin]
  have sub: "set (d_frames (rn_driver rn2)) \<subseteq> set (r_frames (x_run x))" by (auto simp: x run_of_def Let_def)
  show "judged env (r_frames (x_run x)) (x_property x)"
  proof (cases "rn_terminal rn2")
    case None
    with result show ?thesis unfolding judged_def x run_property_def by auto
  next
    case (Some res)
    then have res: "x_property x = res" "rn_terminal rn1 = Some res" using result F(2) by (simp_all add: run_property_def)
    from run_deliver_judged [OF del start_runner_Inr(6) [OF start] res(2)]
    have "judged env (d_frames (rn_driver rn1)) (x_property x)" by (simp add: res)
    then show ?thesis using judged_mono effects_added_frames [OF F(1)] sub by (meson subset_trans)
  qed
qed

lemma check_result_Inr:
  assumes "check_result inp r result ec = Inr res"
  shows "res = result" and "ec = exit_code result" and "pr_schema result = RESULT_SCHEMA"
    and "pr_property result = pi_property inp"
    and "pr_result result = VPass \<Longrightarrow> \<exists>f\<in>set (r_frames r). pr_completion_ordinal result = Some (f_ordinal f)"
  using assms by (auto simp: check_result_def list_ex_iff split: if_splits option.splits)

lemma run_property_input_property:
  "run_property_input declaration r m = Inr inp \<Longrightarrow> map_of declaration ''property'' = Some (pi_property inp)"
  by (auto simp: run_property_input_def run_entry_def Let_def property_input_of_def split: sum.splits option.splits
      if_splits prod.splits stop.splits)

lemma judged_result:
  assumes "judged env fs result"
  shows "pr_schema result = RESULT_SCHEMA"
    and "map_of (cf_declaration (re_case env)) ''property'' = Some (pr_property result)"
    and "\<exists>inp. re_program env inp = Some (result, exit_code result)"
    and "pr_result result = VPass \<Longrightarrow> \<exists>f\<in>set fs. pr_completion_ordinal result = Some (f_ordinal f)"
proof -
  from assms obtain r where pe: "property_evaluate (re_program env) (cf_declaration (re_case env)) r (re_identity env) = Inr result"
    and sub: "set (r_frames r) \<subseteq> set fs" by (auto simp: judged_def)
  from pe obtain inp res ec where inp: "run_property_input (cf_declaration (re_case env)) r (re_identity env) = Inr inp"
    and ans: "re_program env inp = Some (res, ec)" and chk: "check_result inp r res ec = Inr result"
    by (auto simp: property_evaluate_def split: sum.splits option.splits)
  note C = check_result_Inr [OF chk]
  show "pr_schema result = RESULT_SCHEMA" using C by simp
  show "map_of (cf_declaration (re_case env)) ''property'' = Some (pr_property result)"
    using C run_property_input_property [OF inp] by simp
  show "\<exists>inp. re_program env inp = Some (result, exit_code result)" using C ans by auto
  show "pr_result result = VPass \<Longrightarrow> \<exists>f\<in>set fs. pr_completion_ordinal result = Some (f_ordinal f)"
    using C sub by auto
qed

section \<open>What a report says\<close>

lemma bt_insert_other: "key \<noteq> k \<Longrightarrow> map_of (bt_insert k v m) key = map_of m key"
  by (induction m) auto

lemma timeless_effects:
  assumes "map timeless fs = map timeless gs"
  shows "map effect_key (filter is_emit fs) = map effect_key (filter is_emit gs)"
proof -
  have "map effect_key (filter is_emit (map timeless xs)) = map effect_key (filter is_emit xs)" for xs
    by (simp add: filter_map comp_def)
  from this [of fs] this [of gs] assms show ?thesis by simp
qed

lemma effects_agree_iff:
  "effects_agree (compare h kh corpus fs r) \<longleftrightarrow>
     map effect_key (filter is_emit fs) = map effect_key (filter is_emit (r_frames r))"
  by (simp add: effects_agree_def compare_def Let_def compare_effects_None)

lemma verify_loaded_Inr:
  assumes "verify_loaded h kh vf c candidate = Inr r"
  shows "\<exists>p x t corpus inp. verify_plan h vf c candidate = Inr p \<and>
    run_command vf c (pl_command p) (pl_property p) (pl_identity p) False = Inr x \<and>
    pr_result (x_property x) \<noteq> VInvalid \<and>
    (case candidate of
       None \<Rightarrow> t = None
     | Some name \<Rightarrow> \<exists>y. t = Some y \<and>
         run_command vf c (candidate_command vf p name) (pl_property p) (candidate_identity p name) True = Inr y) \<and>
    map_of (cf_declaration c) ''corpus'' = Some corpus \<and>
    r = make_report h kh c (ascii corpus) (pl_identity p)
      (case candidate of None \<Rightarrow> pl_identity p | Some name \<Rightarrow> candidate_identity p name) inp x t"
proof -
  from assms obtain p where p: "verify_plan h vf c candidate = Inr p"
    by (auto simp: verify_loaded_def split: sum.splits)
  from assms p obtain x where x: "run_command vf c (pl_command p) (pl_property p) (pl_identity p) False = Inr x"
    and valid: "pr_result (x_property x) \<noteq> VInvalid"
    by (auto simp: verify_loaded_def split: sum.splits if_splits)
  let ?t = "case candidate of None \<Rightarrow> Inr None
      | Some name \<Rightarrow> map_sum id Some (run_command vf c (candidate_command vf p name) (pl_property p)
          (candidate_identity p name) True)"
  from assms p x valid obtain t where t: "?t = Inr t"
    by (cases ?t) (simp_all add: verify_loaded_def)
  from assms p x valid t obtain corpus where corpus: "map_of (cf_declaration c) ''corpus'' = Some corpus"
    by (cases "case_entry (cf_declaration c) ''corpus''") (simp_all add: verify_loaded_def)
  from assms p x valid t corpus obtain inp where
    "r = make_report h kh c (ascii corpus) (pl_identity p)
      (case candidate of None \<Rightarrow> pl_identity p | Some name \<Rightarrow> candidate_identity p name) inp x t"
    by (auto simp: verify_loaded_def case_entry_def entry_def Let_def split: sum.splits)
  moreover have "case candidate of
       None \<Rightarrow> t = None
     | Some name \<Rightarrow> \<exists>y. t = Some y \<and>
         run_command vf c (candidate_command vf p name) (pl_property p) (candidate_identity p name) True = Inr y"
  proof (cases candidate)
    case (Some name)
    with t show ?thesis
      by (cases "run_command vf c (candidate_command vf p name) (pl_property p) (candidate_identity p name) True") auto
  qed (use t in simp)
  ultimately show ?thesis using p x valid corpus by blast
qed

lemma verify_loaded_None:
  "verify_loaded h kh vf c None = Inr r \<longleftrightarrow>
     (\<exists>p x corpus inp. verify_plan h vf c None = Inr p \<and>
        run_command vf c (pl_command p) (pl_property p) (pl_identity p) False = Inr x \<and>
        pr_result (x_property x) \<noteq> VInvalid \<and> map_of (cf_declaration c) ''corpus'' = Some corpus \<and>
        run_property_input (cf_declaration c) (x_run x) (pl_identity p) = Inr inp \<and>
        r = make_report h kh c (ascii corpus) (pl_identity p) (pl_identity p) inp x None)"
proof -
  have mapped: "(case m of Inl e \<Rightarrow> Inl (VerifyCase e) | Inr y \<Rightarrow> f y) = Inr z \<longleftrightarrow> (\<exists>y. m = Inr y \<and> f y = Inr z)"
    "(case n of Inl e \<Rightarrow> Inl (VerifyRun e) | Inr y \<Rightarrow> g y) = Inr z \<longleftrightarrow> (\<exists>y. n = Inr y \<and> g y = Inr z)"
    for m n f g and z :: report by (auto split: sum.splits)
  show ?thesis
    unfolding verify_loaded_def try_Inr Let_def option.case
    by (auto simp: mapped try_Inr)
qed

lemma agreement_measured:
  "agreement_of h kh corpus recording x = ''measured agreement'' \<longleftrightarrow>
     (\<forall>n g. r_stop (x_run x) \<noteq> StopGap n g) \<and>
     effects_agree (compare h kh corpus recording (normalized_run x)) \<and>
     run_agrees (compare h kh corpus recording (normalized_run x))"
  by (simp add: agreement_of_def Let_def split: stop.split)

lemma agreement_timeless:
  assumes "map timeless (x_normalized x) = map timeless recording"
  shows "effects_agree (compare h kh corpus recording (normalized_run x)) \<and>
    run_agrees (compare h kh corpus recording (normalized_run x))"
proof -
  have "hash_frames h kh corpus (x_normalized x) = hash_frames h kh corpus recording"
    using hash_frames_timeless [of h kh corpus "x_normalized x"] hash_frames_timeless [of h kh corpus recording]
    by (simp add: assms)
  then show ?thesis
    using timeless_effects [OF assms] unfolding effects_agree_iff
    by (simp add: run_agrees_def compare_def Let_def normalized_run_def)
qed

lemma verify_exit_code_cases:
  "verify_exit_code e = (if files_failure e \<or> execution_failure e then 1 else 2)"
proof (cases e)
  case (VerifyRun x)
  have "runner_exit_code x = (if files_failure (VerifyRun x) \<or> execution_failure (VerifyRun x) then 1 else 2)"
    by (cases x rule: runner_exit_code.cases)
      (simp_all add: case_exit_code_def files_failure_def execution_failure_def)
  with VerifyRun show ?thesis by simp
qed (simp_all add: case_exit_code_def files_failure_def execution_failure_def)

text \<open>The status of verifying what \<open>Case::load\<close> returned.\<close>

definition verify_status :: "hash_fn \<Rightarrow> keyed_fn \<Rightarrow> 's verifier \<Rightarrow> case_error + case_file \<Rightarrow> int" where
  "verify_status h kh vf loaded =
     (case (case loaded of Inl e \<Rightarrow> Inl (VerifyCase e) | Inr c \<Rightarrow> verify_loaded h kh vf c None) of
        Inl e \<Rightarrow> verify_exit_code e | Inr r \<Rightarrow> rp_exit_code r)"

lemma verify_case_status:
  "(case verify_case h kh sha vf dir None of Inl e \<Rightarrow> verify_exit_code e | Inr r \<Rightarrow> rp_exit_code r) =
     verify_status h kh vf (case_load h kh sha dir)"
  by (simp add: verify_case_def verify_status_def split: sum.split)

text \<open>The baseline's replay of a loaded case, and one that is reported: its property result is valid and
  the case says what to compare it under.\<close>

definition baseline_run :: "hash_fn \<Rightarrow> 's verifier \<Rightarrow> case_error + case_file \<Rightarrow> case_file \<Rightarrow> plan \<Rightarrow>
    verify_error + execution \<Rightarrow> bool" where
  "baseline_run h vf loaded c p out \<longleftrightarrow>
     loaded = Inr c \<and> verify_plan h vf c None = Inr p \<and>
     run_command vf c (pl_command p) (pl_property p) (pl_identity p) False = out"

definition reported :: "hash_fn \<Rightarrow> 's verifier \<Rightarrow> case_error + case_file \<Rightarrow> case_file \<Rightarrow> string \<Rightarrow>
    execution \<Rightarrow> bool" where
  "reported h vf loaded c corpus x \<longleftrightarrow>
     (\<exists>p inp. baseline_run h vf loaded c p (Inr x) \<and> pr_result (x_property x) \<noteq> VInvalid \<and>
        map_of (cf_declaration c) ''corpus'' = Some corpus \<and>
        run_property_input (cf_declaration c) (x_run x) (pl_identity p) = Inr inp)"

text \<open>Files that are not what the manifest or the evidence says: found on loading the case, on loading
  its builds, or during the replay.\<close>

definition files_altered :: "hash_fn \<Rightarrow> 's verifier \<Rightarrow> case_error + case_file \<Rightarrow> bool" where
  "files_altered h vf loaded \<longleftrightarrow>
     (\<exists>e. integrity_failure e \<and>
        (loaded = Inl e \<or> (\<exists>c. loaded = Inr c \<and> verify_plan h vf c None = Inl (VerifyCase e)) \<or>
         (\<exists>c p. baseline_run h vf loaded c p (Inl (VerifyRun (RunCase e))))))"

text \<open>A replay whose goal identities cannot be matched with the recorded ones: one used twice, or a
  cancel that names none.\<close>

definition goals_mismatched :: "hash_fn \<Rightarrow> 's verifier \<Rightarrow> case_error + case_file \<Rightarrow> bool" where
  "goals_mismatched h vf loaded \<longleftrightarrow>
     (\<exists>c p e. baseline_run h vf loaded c p (Inl (VerifyRun (RunGoals e))) \<and>
        (e = CancelUnknown \<or> (\<exists>n. e = DuplicateReplayed n)))"

lemma plan_error:
  "verify_plan h vf c None = Inl e \<Longrightarrow> \<not> execution_failure e \<and> (files_failure e \<longrightarrow> (\<exists>x. e = VerifyCase x \<and> integrity_failure x))"
  by (auto simp: verify_plan_def build_plan_def reference_plan_def load_build_def load_candidate_def execution_failure_def files_failure_def
     split: sum.splits if_splits option.splits)

lemma run_property_input_error:
  "run_property_input d r m = Inl e \<Longrightarrow> \<not> files_failure (VerifyRun e) \<and> \<not> execution_failure (VerifyRun e)"
  by (auto simp: run_property_input_def run_entry_def case_entry_def entry_def Let_def files_failure_def
      execution_failure_def split: sum.splits option.splits)


lemma run_command_error: "run_command vf c a q m b = Inl e \<Longrightarrow> \<exists>x. e = VerifyRun x"
  by (auto simp: run_command_def split: sum.splits)

text \<open>Whatever was loaded: either a replay is reported, or the status tells altered files and mismatched
  goals from every other refusal.\<close>

lemma verify_status_cases:
  obtains (report) c corpus x where "reported h vf loaded c corpus x"
      "verify_status h kh vf loaded = report_exit_code h kh (ascii corpus) (cf_frames c) x None"
      "\<not> files_altered h vf loaded" "\<not> goals_mismatched h vf loaded"
  | (refused) "\<nexists>c corpus x. reported h vf loaded c corpus x"
      "verify_status h kh vf loaded = (if files_altered h vf loaded \<or> goals_mismatched h vf loaded then 1 else 2)"
proof (cases loaded)
  case (Inl e)
  have "\<nexists>c corpus x. reported h vf loaded c corpus x" "files_altered h vf loaded \<longleftrightarrow> integrity_failure e"
    "\<not> goals_mismatched h vf loaded" "verify_status h kh vf loaded = case_exit_code e"
    by (auto simp: Inl reported_def baseline_run_def files_altered_def goals_mismatched_def verify_status_def)
  then show ?thesis using refused by (simp add: case_exit_code_def)
next
  case loaded: (Inr c)
  show ?thesis
  proof (cases "verify_plan h vf c None")
    case (Inl e)
    have "\<nexists>c corpus x. reported h vf loaded c corpus x" "\<not> goals_mismatched h vf loaded"
      "files_altered h vf loaded \<longleftrightarrow> (\<exists>x. e = VerifyCase x \<and> integrity_failure x)"
      using Inl by (auto simp: loaded reported_def baseline_run_def files_altered_def goals_mismatched_def)
    moreover have "verify_status h kh vf loaded = verify_exit_code e"
      by (simp add: loaded verify_status_def verify_loaded_def Inl)
    moreover have "(\<exists>x. e = VerifyCase x \<and> integrity_failure x) \<longleftrightarrow> files_failure e \<or> execution_failure e"
      using plan_error [OF Inl] by (auto simp: files_failure_def)
    ultimately show ?thesis using refused by (simp add: verify_exit_code_cases)
  next
    case plan: (Inr p)
    have base: "baseline_run h vf loaded c' p' out \<longleftrightarrow> c' = c \<and> p' = p \<and>
        run_command vf c (pl_command p) (pl_property p) (pl_identity p) False = out" for c' p' out
      using plan by (auto simp: baseline_run_def loaded)
    show ?thesis
    proof (cases "run_command vf c (pl_command p) (pl_property p) (pl_identity p) False")
      case (Inl e)
      obtain y where e: "e = VerifyRun y" using run_command_error [OF Inl] by blast
      have "\<nexists>c corpus x. reported h vf loaded c corpus x" by (simp add: reported_def base Inl)
      moreover have "verify_status h kh vf loaded = verify_exit_code e"
        by (simp add: loaded verify_status_def verify_loaded_def plan Inl)
      moreover have "files_altered h vf loaded \<or> goals_mismatched h vf loaded \<longleftrightarrow>
          files_failure e \<or> execution_failure e"
        using plan unfolding files_altered_def goals_mismatched_def base Inl e
        by (auto simp: loaded files_failure_def execution_failure_def split: runner_error.splits goals_error.splits)
      ultimately show ?thesis using refused by (simp add: verify_exit_code_cases)
    next
      case run: (Inr x)
      have fine: "\<not> files_altered h vf loaded" "\<not> goals_mismatched h vf loaded"
        using plan unfolding files_altered_def goals_mismatched_def base run by (auto simp: loaded)
      have rep: "reported h vf loaded c' corpus x' \<longleftrightarrow> c' = c \<and> x' = x \<and> pr_result (x_property x) \<noteq> VInvalid \<and>
          map_of (cf_declaration c) ''corpus'' = Some corpus \<and>
          (\<exists>inp. run_property_input (cf_declaration c) (x_run x) (pl_identity p) = Inr inp)" for c' corpus x'
        unfolding reported_def base run by auto
      have two: ?thesis if "\<nexists>c corpus x. reported h vf loaded c corpus x" "verify_status h kh vf loaded = 2"
        using refused that fine by simp
      show ?thesis
      proof (cases "pr_result (x_property x) = VInvalid")
        case True
        then show ?thesis
          using rep by (intro two) (auto simp: loaded verify_status_def verify_loaded_def plan run)
      next
        case valid: False
        show ?thesis
        proof (cases "map_of (cf_declaration c) ''corpus''")
          case None
          with valid rep show ?thesis
            by (intro two) (auto simp: loaded verify_status_def verify_loaded_def plan run case_entry_def
                entry_def case_exit_code_def)
        next
          case corpus: (Some corpus)
          show ?thesis
          proof (cases "run_property_input (cf_declaration c) (x_run x) (pl_identity p)")
            case (Inl e)
            have "verify_exit_code (VerifyRun e) = 2"
              using run_property_input_error [OF Inl] by (simp add: verify_exit_code_cases del: verify_exit_code.simps)
            with Inl valid corpus rep show ?thesis
              by (intro two) (auto simp: loaded verify_status_def verify_loaded_def plan run case_entry_def
                  entry_def)
          next
            case (Inr inp)
            have "reported h vf loaded c corpus x" by (simp add: rep valid corpus Inr)
            moreover have "verify_status h kh vf loaded = report_exit_code h kh (ascii corpus) (cf_frames c) x None"
              by (simp add: loaded verify_status_def verify_loaded_def plan run valid case_entry_def entry_def
                  corpus Inr make_report_def Let_def)
            ultimately show ?thesis using report fine by blast
          qed
        qed
      qed
    qed
  qed
qed

lemma reported_unique:
  "reported h vf loaded c corpus x \<Longrightarrow> reported h vf loaded c' corpus' x' \<Longrightarrow> c' = c \<and> corpus' = corpus \<and> x' = x"
  by (auto simp: reported_def baseline_run_def)

text \<open>The normalized effects are those recorded before an ordinal.\<close>

definition effects_before :: "u64 \<Rightarrow> case_file \<Rightarrow> execution \<Rightarrow> bool" where
  "effects_before n c x \<longleftrightarrow>
     map effect_key (filter is_emit (frames_before n (cf_frames c))) = map effect_key (filter is_emit (x_normalized x))"

lemma report_status:
  assumes "no_collision kh (domain_key h NATIVE_RUN_DOMAIN) (run_inputs h kh (ascii corpus) (cf_frames c))
      (run_inputs h kh (ascii corpus) (x_normalized x))"
    and "inj_on h (payload ` (set (cf_frames c) \<union> set (x_normalized x)))"
  shows "report_exit_code h kh (ascii corpus) (cf_frames c) x None =
    (case r_stop (x_run x) of
       StopGap n _ \<Rightarrow> if effects_before n c x then 2 else 1
     | _ \<Rightarrow> if map timeless (x_normalized x) = map timeless (cf_frames c) then 0 else 1)"
proof -
  let ?cmp = "compare h kh (ascii corpus) (cf_frames c) (normalized_run x)"
  have agree: "effects_agree ?cmp \<and> run_agrees ?cmp \<longleftrightarrow> map timeless (x_normalized x) = map timeless (cf_frames c)"
  proof
    assume "effects_agree ?cmp \<and> run_agrees ?cmp"
    then have "n_run_hash (hash_frames h kh (ascii corpus) (cf_frames c)) =
        n_run_hash (hash_frames h kh (ascii corpus) (x_normalized x))"
      by (simp add: run_agrees_def compare_def Let_def normalized_run_def)
    from run_hash_views [OF assms(1) this] have
      "map (envelope_view h) (cf_frames c) = map (envelope_view h) (x_normalized x)" by blast
    from map_timeless_view [OF this assms(2)] show "map timeless (x_normalized x) = map timeless (cf_frames c)"
      by simp
  next
    assume eq: "map timeless (x_normalized x) = map timeless (cf_frames c)"
    then show "effects_agree ?cmp \<and> run_agrees ?cmp" by (rule agreement_timeless)
  qed
  show ?thesis
  proof (cases "r_stop (x_run x)")
    case (StopGap n g)
    then have "agreement_of h kh (ascii corpus) (cf_frames c) x \<noteq> ''measured agreement''"
      by (simp add: agreement_measured)
    then have "report_exit_code h kh (ascii corpus) (cf_frames c) x None =
        (if effects_agree (compare h kh (ascii corpus) (frames_before n (cf_frames c)) (normalized_run x)) then 2 else 1)"
      unfolding report_exit_code_def Let_def by (simp add: StopGap baseline_mismatch_def)
    with StopGap show ?thesis by (simp add: effects_agree_iff normalized_run_def effects_before_def)
  next
    case StopExhausted
    then have "report_exit_code h kh (ascii corpus) (cf_frames c) x None = (if effects_agree ?cmp \<and> run_agrees ?cmp then 0 else 1)"
      unfolding report_exit_code_def Let_def agreement_measured by simp
    with StopExhausted agree show ?thesis by simp
  next
    case (StopRefused n reason)
    then have "report_exit_code h kh (ascii corpus) (cf_frames c) x None = (if effects_agree ?cmp \<and> run_agrees ?cmp then 0 else 1)"
      unfolding report_exit_code_def Let_def agreement_measured by simp
    with StopRefused agree show ?thesis by simp
  qed
qed

text \<open>What a reported replay showed of the recording.\<close>

definition case_reproduced :: "hash_fn \<Rightarrow> 's verifier \<Rightarrow> case_error + case_file \<Rightarrow> bool" where
  "case_reproduced h vf loaded \<longleftrightarrow>
     (\<exists>c corpus x. reported h vf loaded c corpus x \<and> (\<forall>n g. r_stop (x_run x) \<noteq> StopGap n g) \<and>
        map timeless (x_normalized x) = map timeless (cf_frames c))"

definition case_cut_short :: "hash_fn \<Rightarrow> 's verifier \<Rightarrow> case_error + case_file \<Rightarrow> bool" where
  "case_cut_short h vf loaded \<longleftrightarrow>
     (\<exists>c corpus x n g. reported h vf loaded c corpus x \<and> r_stop (x_run x) = StopGap n g \<and> effects_before n c x)"

definition case_differs :: "hash_fn \<Rightarrow> 's verifier \<Rightarrow> case_error + case_file \<Rightarrow> bool" where
  "case_differs h vf loaded \<longleftrightarrow>
     (\<exists>c corpus x. reported h vf loaded c corpus x \<and>
        (case r_stop (x_run x) of
           StopGap n _ \<Rightarrow> \<not> effects_before n c x
         | _ \<Rightarrow> map timeless (x_normalized x) \<noteq> map timeless (cf_frames c)))"

text \<open>
  C11. The status with which a native case is verified, given what \<open>Case::load\<close> returned for its directory,
  in full, unless BLAKE3 collides on what is hashed of the frames of a reported replay.  A replay is reported
  when the plan was made, the run ended without an error, the property result is valid and the declaration
  names the corpus and a property input.  The status is 0 exactly when a replay is reported that did not
  stop at a gap and whose normalized frames are the recorded ones, all but their observed times.  It is 1
  exactly when a reported replay differs (in those frames, or, stopped at a gap, in the effects recorded
  before it), or a file is not what the manifest or the evidence says, or the replay's goal identities
  cannot be matched with the recorded ones.  It is 2 exactly when a reported replay stopped at a gap with
  the effects before it agreeing, or no replay was reported for any other reason: a malformed case or
  build, a refused plan, an adapter or property program that failed, an invalid property result.
\<close>

theorem verify_exit_code_meaning:
  assumes "\<And>c corpus x. reported h vf loaded c corpus x \<Longrightarrow>
      no_collision kh (domain_key h NATIVE_RUN_DOMAIN) (run_inputs h kh (ascii corpus) (cf_frames c))
        (run_inputs h kh (ascii corpus) (x_normalized x)) \<and>
      inj_on h (payload ` (set (cf_frames c) \<union> set (x_normalized x)))"
  shows "(verify_status h kh vf loaded = 0 \<longleftrightarrow> case_reproduced h vf loaded) \<and>
    (verify_status h kh vf loaded = 1 \<longleftrightarrow>
      case_differs h vf loaded \<or> files_altered h vf loaded \<or> goals_mismatched h vf loaded) \<and>
    (verify_status h kh vf loaded = 2 \<longleftrightarrow>
      case_cut_short h vf loaded \<or>
      (\<nexists>c corpus x. reported h vf loaded c corpus x) \<and>
        \<not> files_altered h vf loaded \<and> \<not> goals_mismatched h vf loaded) \<and>
    verify_status h kh vf loaded \<in> {0, 1, 2} \<and>
    ((\<exists>c p x. baseline_run h vf loaded c p (Inr x) \<and> pr_result (x_property x) = VInvalid) \<longrightarrow>
      verify_status h kh vf loaded = 2) \<and>
    (\<forall>sha dir. case_load h kh sha dir = loaded \<longrightarrow>
      (case verify_case h kh sha vf dir None of Inl e \<Rightarrow> verify_exit_code e | Inr r \<Rightarrow> rp_exit_code r) =
        verify_status h kh vf loaded)"
proof -
  note dir = verify_case_status [of h kh _ vf]
  have invalid: "verify_status h kh vf loaded = 2"
    if "baseline_run h vf loaded c p (Inr x)" "pr_result (x_property x) = VInvalid" for c p x
    using that by (simp add: baseline_run_def verify_status_def verify_loaded_def)
  show ?thesis
  proof (cases rule: verify_status_cases [of h vf loaded kh])
    case (report c corpus x)
    have only: "reported h vf loaded c' corpus' x' \<longleftrightarrow> c' = c \<and> corpus' = corpus \<and> x' = x" for c' corpus' x'
      using reported_unique [OF report(1)] report(1) by blast
    have st: "verify_status h kh vf loaded = (case r_stop (x_run x) of
         StopGap n _ \<Rightarrow> if effects_before n c x then 2 else 1
       | _ \<Rightarrow> if map timeless (x_normalized x) = map timeless (cf_frames c) then 0 else 1)"
      using assms [OF report(1)] report(2) by (simp only: report_status)
    have shown: "case_reproduced h vf loaded \<longleftrightarrow> (\<forall>n g. r_stop (x_run x) \<noteq> StopGap n g) \<and>
        map timeless (x_normalized x) = map timeless (cf_frames c)"
      "case_cut_short h vf loaded \<longleftrightarrow> (\<exists>n g. r_stop (x_run x) = StopGap n g \<and> effects_before n c x)"
      "case_differs h vf loaded \<longleftrightarrow> (case r_stop (x_run x) of
           StopGap n _ \<Rightarrow> \<not> effects_before n c x
         | _ \<Rightarrow> map timeless (x_normalized x) \<noteq> map timeless (cf_frames c))"
      unfolding case_reproduced_def case_cut_short_def case_differs_def only by simp_all
    have "\<not> (\<exists>c p x. baseline_run h vf loaded c p (Inr x) \<and> pr_result (x_property x) = VInvalid)"
      using report(1) by (auto simp: reported_def baseline_run_def)
    then show ?thesis
      using report(1,3,4) dir unfolding shown st [symmetric]
      by (cases "r_stop (x_run x)") (auto simp: st)
  next
    case refused
    then have none: "\<not> case_reproduced h vf loaded" "\<not> case_cut_short h vf loaded" "\<not> case_differs h vf loaded"
      by (auto simp: case_reproduced_def case_cut_short_def case_differs_def)
    then show ?thesis using refused invalid dir by (auto split: if_splits)
  qed
qed

text \<open>
  C12. A test of a candidate exits with 0 only when the baseline, run before it, showed no mismatch with
  the recording, and the candidate's own property result is a pass that the property program printed
  with exit status 0, for the case's property, with a completion ordinal that is a frame of the
  candidate's run; the candidate ran under the baseline's identity but for the component's entries.
\<close>

theorem test_pass_is_evidence:
  assumes "verify_loaded h kh vf c (Some name) = Inr r" and "rp_exit_code r = 0"
  shows "\<exists>p x y. verify_plan h vf c (Some name) = Inr p \<and>
    run_command vf c (pl_command p) (pl_property p) (pl_identity p) False = Inr x \<and>
    run_command vf c (candidate_command vf p name) (pl_property p) (candidate_identity p name) True = Inr y \<and>
    \<not> baseline_mismatch h kh (ascii (the (map_of (cf_declaration c) ''corpus''))) (cf_frames c) x \<and>
    rp_property_result r = x_property y \<and> pr_result (x_property y) = VPass \<and>
    map_of (cf_declaration c) ''property'' = Some (pr_property (x_property y)) \<and>
    (\<exists>inp. pg_property (vf_programs vf) (pl_property p) inp = Some (x_property y, 0)) \<and>
    (\<exists>f\<in>set (r_frames (x_run y)). pr_completion_ordinal (x_property y) = Some (f_ordinal f)) \<and>
    (\<forall>key. key \<notin> set CANDIDATE_KEYS \<longrightarrow>
      map_of (candidate_identity p name) key = map_of (pl_identity p) key)"
proof -
  from verify_loaded_Inr [OF assms(1)] obtain p x y corpus inp where
    p: "verify_plan h vf c (Some name) = Inr p"
    and x: "run_command vf c (pl_command p) (pl_property p) (pl_identity p) False = Inr x"
    and y: "run_command vf c (candidate_command vf p name) (pl_property p) (candidate_identity p name) True = Inr y"
    and corpus: "map_of (cf_declaration c) ''corpus'' = Some corpus"
    and r: "r = make_report h kh c (ascii corpus) (pl_identity p) (candidate_identity p name) inp x (Some y)"
    by auto
  have code: "rp_exit_code r = (if baseline_mismatch h kh (ascii corpus) (cf_frames c) x then 1 else exit_code (x_property y))"
    by (simp add: r make_report_def Let_def report_exit_code_def)
  with assms(2) have mismatch: "\<not> baseline_mismatch h kh (ascii corpus) (cf_frames c) x"
    and zero: "exit_code (x_property y) = 0" by (auto split: if_splits)
  then have pass: "pr_result (x_property y) = VPass" by (simp add: exit_code_def split: verdict.splits)
  let ?env = "command_env vf c (candidate_command vf p name) (pl_property p) (candidate_identity p name) True"
  from y obtain s where run: "run_case_replay ?env s = Inr y"
    by (auto simp: run_command_def split: sum.splits)
  have env: "re_program ?env = pg_property (vf_programs vf) (pl_property p)" "re_case ?env = c"
    by (simp_all add: command_env_def)
  note J = judged_result [OF run_case_replay_judged(1) [OF run]]
  have keys: "map_of (candidate_identity p name) key = map_of (pl_identity p) key"
    if key: "key \<notin> set CANDIDATE_KEYS" for key
  proof (cases "pl_candidate p")
    case None
    have "key \<noteq> ''component_variant''" using key by (auto simp: CANDIDATE_KEYS_def)
    then show ?thesis by (simp add: candidate_identity_def None bt_insert_other)
  next
    case (Some b)
    from p have "build_plan h vf c (Some name) = Inr p"
      using Some by (auto simp: verify_plan_def reference_plan_def split: if_splits sum.splits)
    then obtain baseline where base: "pl_identity p = bd_identity baseline"
      and cand: "load_candidate h vf baseline (Some name) = Inr (Some b)"
      using Some by (auto simp: build_plan_def split: sum.splits)
    then have "build_candidate baseline b = Inr ()" by (auto simp: load_candidate_def split: sum.splits)
    then have "same_identity (bd_identity baseline) (bd_identity b) True = Inr ()"
      by (auto simp: build_candidate_def split: sum.splits)
    then have "map_of (bd_identity baseline) key = map_of (bd_identity b) key"
      using key unfolding same_identity_Inr by blast
    then show ?thesis using base by (simp add: candidate_identity_def Some)
  qed
  show ?thesis
    using p x y mismatch pass J(2,3,4) [unfolded env] zero corpus keys
    by (intro exI [of _ p] exI [of _ x] exI [of _ y]) (simp add: r make_report_def Let_def)
qed

section \<open>A verifier of one case\<close>

definition verified_build :: build where
  "verified_build = (demo_build [] ''old'' [3])\<lparr>bd_identity := case_identity\<rparr>"

definition tested_build :: build where
  "tested_build = (demo_build [] ''new'' [4])\<lparr>bd_identity :=
     bt_insert ''component_binary_blake3'' (hash_text demo_fingerprint [4]) case_identity\<rparr>"

definition case_verifier :: "unit verifier" where
  "case_verifier =
     \<lparr>vf_programs = \<lparr>pg_adapter = (\<lambda>_. goal_adapter), pg_state = (\<lambda>_. ()), pg_exit = (\<lambda>_ _. Some 0),
        pg_property = (\<lambda>_. re_program case_env)\<rparr>,
      vf_builds = [''build.json'' \<mapsto> (demo_store, verified_build), ''new.json'' \<mapsto> (demo_store, tested_build)],
      vf_executable = [], vf_template = [], vf_sources = [], vf_source_hash = ''00'', vf_reference_hash = []\<rparr>"

definition ordinal_keyed :: keyed_fn where
  "ordinal_keyed key x = (if length x = 32 then 0 else 1 + ucast (x ! 40))"

lemma verified_build_loads:
  "build_load demo_fingerprint demo_store verified_build = Inr ((demo_build ''/'' ''old'' [3])\<lparr>bd_identity := case_identity\<rparr>)"
proof -
  have "map_of case_identity ''adapter_binary_blake3'' = Some (hash_text demo_fingerprint [1])"
    "map_of case_identity ''component_binary_blake3'' = Some (hash_text demo_fingerprint [3])"
    "map_of case_identity ''property_binary_blake3'' = Some (hash_text demo_fingerprint [2])"
    by (simp_all add: case_identity_def case_keys)
  then show ?thesis
    by (simp add: verified_build_def build_load_def demo_build_def check_artifact_def demo_store_def pinned_def
        entry_is_def case_entry_def entry_def Let_def)
qed

definition verified_plan :: plan where
  "verified_plan =
     \<lparr>pl_command = build_command (demo_build ''/'' ''old'' [3]), pl_property = (''/property'', []),
      pl_identity = case_identity, pl_build = Some ((demo_build ''/'' ''old'' [3])\<lparr>bd_identity := case_identity\<rparr>),
      pl_candidate = None\<rparr>"

lemma case_plan: "verify_plan demo_fingerprint case_verifier case_demo None = Inr verified_plan"
proof -
  have c: "cf_covered case_demo = {''build.json''}" "cf_identity case_demo = case_identity"
    "cf_declaration case_demo = case_declaration" "cf_frames case_demo = case_frames"
    by (simp_all add: case_demo_def)
  have "same_identity case_identity case_identity False = Inr ()" by (simp add: same_identity_Inr)
  then have "build_plan demo_fingerprint case_verifier case_demo None = Inr verified_plan"
    using verified_build_loads
    by (simp add: build_plan_def load_build_def load_candidate_def case_verifier_def c verified_plan_def
        build_command_def) (simp add: demo_build_def)
  moreover have "vf_source_hash case_verifier = ''00''" "vf_reference_hash case_verifier = []"
    "pl_identity verified_plan = case_identity"
    by (simp_all add: case_verifier_def verified_plan_def)
  ultimately show ?thesis
    unfolding verify_plan_def c using case_goals_new
    by (simp add: case_declaration_entries case_entry_def entry_def)
qed

lemma case_command_env:
  "command_env case_verifier case_demo cmd prp case_identity False = case_env"
  by (simp add: command_env_def case_verifier_def case_env_def)

lemma case_run:
  "\<exists>x r. run_command case_verifier case_demo (pl_command verified_plan) (pl_property verified_plan)
       (pl_identity verified_plan) False = Inr x \<and>
     verify_loaded demo_fingerprint kh case_verifier case_demo None = Inr r \<and>
     r_stop (x_run x) = StopExhausted \<and> x_normalized x = map timeless case_frames"
proof -
  from case_replayed obtain x where x: "run_case_replay case_env () = Inr x" "r_stop (x_run x) = StopExhausted"
    "x_normalized x = map timeless case_frames" by blast
  have m: "pl_identity verified_plan = case_identity" by (simp add: verified_plan_def)
  have run: "run_command case_verifier case_demo (pl_command verified_plan) (pl_property verified_plan)
      (pl_identity verified_plan) False = Inr x"
    by (simp add: run_command_def m case_command_env x(1))
  obtain inp where ans: "re_program case_env inp = Some (x_property x, exit_code (x_property x))"
    using judged_result(3) [OF run_case_replay_judged(1) [OF x(1)]] by blast
  have verdict: "pr_result (verdict_result (pi_property inp) VInconclusive NoAcceptance) = VInconclusive"
    by (simp add: verdict_result_def)
  have valid: "pr_result (x_property x) \<noteq> VInvalid"
    using ans verdict by (metis case_env_fields(9) fst_conv option.inject verdict.distinct(11))
  have c: "cf_declaration case_demo = case_declaration" by (simp add: case_demo_def)
  have "\<exists>inp'. run_property_input case_declaration (x_run x) case_identity = Inr inp'"
    by (simp add: run_property_input_def run_entry_def case_entry_def entry_def case_declaration_entries
        parse_i64_def parse_digits_def digit_value_def Let_def)
  then obtain inp' where inp: "run_property_input case_declaration (x_run x) case_identity = Inr inp'" ..
  have "\<exists>r. verify_loaded demo_fingerprint kh case_verifier case_demo None = Inr r"
    unfolding verify_loaded_def case_plan sum.case run option.case
    using valid inp by (simp add: c case_declaration_entries m case_entry_def entry_def)
  with x run show ?thesis by blast
qed

lemma case_hashing:
  "no_collision ordinal_keyed (domain_key demo_fingerprint NATIVE_RUN_DOMAIN)
     (run_inputs demo_fingerprint ordinal_keyed corpus case_frames)
     (run_inputs demo_fingerprint ordinal_keyed corpus (map timeless case_frames))"
  "inj_on demo_fingerprint (payload ` (set case_frames \<union> set (map timeless case_frames)))"
proof -
  have bytes: "envelope_bytes h (timeless f) = envelope_bytes h f" "payload (timeless f) = payload f" for h f
    by (simp_all add: envelope_bytes_def payload_def timeless_def frame_kind_def)
  have "chain_inputs (envelope_bytes h) kh key c (map timeless fs) = chain_inputs (envelope_bytes h) kh key c fs"
    for h kh key c fs
    by (induction fs arbitrary: c) (simp_all add: bytes)
  moreover have "hash_frames h kh corpus (map timeless fs) = hash_frames h kh corpus fs" for h kh fs
    using hash_frames_timeless [of h kh corpus fs] by simp
  ultimately have same: "run_inputs h kh corpus (map timeless fs) = run_inputs h kh corpus fs" for h kh fs
    by (simp add: run_inputs_def seeded_inputs_def)
  have ordinals: "map f_ordinal case_frames = [0, 1, 2, 3]"
    by (simp add: case_frames_def case_frame_fields case_send_fields end_frame_def demo_frames_def)
  have keyed: "ordinal_keyed key (to_le (c :: digest)) = 0"
    "ordinal_keyed key (to_le c @ envelope_bytes h f) = 1 + ucast (to_le (f_ordinal f) ! 0 :: byte)" for key c h f
    by (simp_all add: ordinal_keyed_def envelope_bytes_def nth_append)
  have low: "ucast (to_le (0 :: u64) ! 0 :: byte) = (0 :: digest)" "ucast (to_le (1 :: u64) ! 0 :: byte) = (1 :: digest)"
    "ucast (to_le (2 :: u64) ! 0 :: byte) = (2 :: digest)" "ucast (to_le (3 :: u64) ! 0 :: byte) = (3 :: digest)"
    by code_simp+
  show "no_collision ordinal_keyed (domain_key demo_fingerprint NATIVE_RUN_DOMAIN)
     (run_inputs demo_fingerprint ordinal_keyed corpus case_frames)
     (run_inputs demo_fingerprint ordinal_keyed corpus (map timeless case_frames))"
    using ordinals
    unfolding same no_collision_def
    by (simp add: run_inputs_def seeded_inputs_def case_frames_def keyed inj_on_def low)
  show "inj_on demo_fingerprint (payload ` (set case_frames \<union> set (map timeless case_frames)))"
  proof -
    have "payload f = to_le (event_code (f_event_type f)) @ to_le (h_schema (f_header f)) @ to_le (h_flags (f_header f)) @ f_body f"
      for f by (simp add: payload_def encode_header_def)
    then have first: "demo_fingerprint (payload f) = ucast (to_le (event_code (f_event_type f)) ! 0)" for f
      by (simp add: demo_fingerprint_def to_le_def)
    have codes: "ucast (to_le (1 :: u16) ! 0 :: byte) = (1 :: digest)" "ucast (to_le (16 :: u16) ! 0 :: byte) = (16 :: digest)"
      "ucast (to_le (34 :: u16) ! 0 :: byte) = (34 :: digest)" "ucast (to_le (2 :: u16) ! 0 :: byte) = (2 :: digest)"
      by code_simp+
    show ?thesis
      by (simp add: case_frames_def case_frame_fields case_send_fields inj_on_def bytes first codes)
  qed
qed

theorem verify_exit_code_meaning_witness:
  "verify_status demo_fingerprint ordinal_keyed case_verifier (Inr case_demo) = 0"
proof -
  obtain x r where run: "run_command case_verifier case_demo (pl_command verified_plan) (pl_property verified_plan)
       (pl_identity verified_plan) False = Inr x"
    and r: "verify_loaded demo_fingerprint ordinal_keyed case_verifier case_demo None = Inr r"
    and stop: "r_stop (x_run x) = StopExhausted" and xn: "x_normalized x = map timeless case_frames"
    using case_run by blast
  have fr: "cf_frames case_demo = case_frames" by (simp add: case_demo_def)
  have only: "c = case_demo \<and> y = x" if "reported demo_fingerprint case_verifier (Inr case_demo) c corpus y" for c corpus y
    using that case_plan run by (auto simp: reported_def baseline_run_def)
  have hashing: "no_collision ordinal_keyed (domain_key demo_fingerprint NATIVE_RUN_DOMAIN)
        (run_inputs demo_fingerprint ordinal_keyed (ascii corpus) (cf_frames c))
        (run_inputs demo_fingerprint ordinal_keyed (ascii corpus) (x_normalized y)) \<and>
      inj_on demo_fingerprint (payload ` (set (cf_frames c) \<union> set (x_normalized y)))"
    if "reported demo_fingerprint case_verifier (Inr case_demo) c corpus y" for c corpus y
    using only [OF that] case_hashing by (simp add: fr xn)
  have "reported demo_fingerprint case_verifier (Inr case_demo) case_demo ''c'' x"
    using r [unfolded verify_loaded_None] case_plan run fr
    by (auto simp: reported_def baseline_run_def case_demo_def case_declaration_entries)
  moreover have "map timeless (map timeless case_frames) = map timeless case_frames"
    by (simp add: timeless_def)
  ultimately have "case_reproduced demo_fingerprint case_verifier (Inr case_demo)"
    unfolding case_reproduced_def using stop fr xn by fastforce
  with verify_exit_code_meaning [OF hashing] show ?thesis by blast
qed

text \<open>A case in which nothing happened, its baseline build, and a candidate whose component differs.\<close>

definition idle_identity :: "bytes \<Rightarrow> identity_map" where
  "idle_identity component =
     map (\<lambda>(key, v). if key = ''component_binary_blake3'' then (key, hash_text demo_fingerprint component) else (key, v))
       case_identity"

definition idle_case :: case_file where
  "idle_case = case_demo\<lparr>cf_frames := [hd demo_frames, end_frame 7 1 1]\<rparr>"

definition idle_build :: "string \<Rightarrow> string \<Rightarrow> bytes \<Rightarrow> build" where
  "idle_build root name bs = (demo_build root name bs)\<lparr>bd_identity := idle_identity bs\<rparr>"

fun idle_adapter :: "unit adapter" where
  "idle_adapter s (Finish reason) = (s, [Finished reason [] 0])"
| "idle_adapter s request = goal_adapter s request"

definition idle_program :: property_program where
  "idle_program inp =
     Some ((verdict_result (pi_property inp) VPass NoAcceptance)\<lparr>pr_completion_ordinal := Some 0\<rparr>, 0)"

definition idle_verifier :: "unit verifier" where
  "idle_verifier =
     \<lparr>vf_programs = \<lparr>pg_adapter = (\<lambda>_. idle_adapter), pg_state = (\<lambda>_. ()), pg_exit = (\<lambda>_ _. Some 0),
        pg_property = (\<lambda>_. idle_program)\<rparr>,
      vf_builds = [''build.json'' \<mapsto> (demo_store, idle_build [] ''old'' [3]),
        ''new.json'' \<mapsto> (demo_store, idle_build [] ''new'' [4])],
      vf_executable = [], vf_template = [], vf_sources = [], vf_source_hash = ''00'', vf_reference_hash = []\<rparr>"

lemma idle_entries:
  "map_of (idle_identity bs) ''starting_state'' = Some ''fresh''"
  "map_of (idle_identity bs) ''starting_state_blake3'' = Some ''00''"
  "map_of (idle_identity bs) ''component'' = Some ''c''" "map_of (idle_identity bs) ''component_variant'' = Some ''v''"
  "map_of (idle_identity bs) ''adapter'' = Some ''a''"
  "map_of (idle_identity bs) ''adapter_protocol'' = Some (show_word PROTOCOL_VERSION)"
  "map_of (idle_identity bs) ''adapter_binary_blake3'' = Some (hash_text demo_fingerprint [1])"
  "map_of (idle_identity bs) ''component_binary_blake3'' = Some (hash_text demo_fingerprint bs)"
  "map_of (idle_identity bs) ''property_binary_blake3'' = Some (hash_text demo_fingerprint [2])"
  "declared_endpoints (idle_identity bs) = declared_endpoints case_identity"
  by (simp_all add: idle_identity_def case_identity_def case_keys declared_endpoints_def)

lemma idle_other: "key \<noteq> ''component_binary_blake3'' \<Longrightarrow> map_of (idle_identity bs) key = map_of case_identity key"
proof -
  assume key: "key \<noteq> ''component_binary_blake3''"
  have "map_of (map (\<lambda>(k, v). if k = ''component_binary_blake3'' then (k, w) else (k, v)) m) key = map_of m key"
    for w and m :: identity_map
    using key by (induction m) auto
  then show "map_of (idle_identity bs) key = map_of case_identity key" by (simp add: idle_identity_def)
qed

definition idle_env :: "bytes \<Rightarrow> bool \<Rightarrow> unit run_env" where
  "idle_env bs candidate =
     \<lparr>re_react = idle_adapter, re_exit = (\<lambda>_. Some 0), re_program = idle_program, re_source_hash = ''00'',
      re_reference_hash = [], re_case = idle_case, re_identity = idle_identity bs, re_candidate = candidate\<rparr>"

lemma idle_env_fields:
  "cf_frames (re_case (idle_env bs cand)) = [hd demo_frames, end_frame 7 1 1]"
  "cf_declaration (re_case (idle_env bs cand)) = case_declaration"
  "re_identity (idle_env bs cand) = idle_identity bs" "re_react (idle_env bs cand) = idle_adapter"
  "re_source_hash (idle_env bs cand) = ''00''" "re_reference_hash (idle_env bs cand) = []"
  "re_exit (idle_env bs cand) s = Some 0" "re_program (idle_env bs cand) = idle_program"
  by (simp_all add: idle_env_def idle_case_def case_demo_def)

definition idle_goals :: goals where
  "idle_goals = case_goals\<lparr>gl_issuances := (\<lambda>_. [])\<rparr>"

lemma idle_adapter_start: "\<forall>reason. rq \<noteq> Finish reason \<Longrightarrow> idle_adapter s rq = goal_adapter s rq"
  by (cases rq) simp_all

lemma idle_goals_new:
  "goals_new ''00'' [] [hd demo_frames, end_frame 7 1 1] (idle_identity bs) ''goal-ids-in-order@1'' = Inr idle_goals"
  by (simp add: goals_new_def entry_def idle_identity_def case_identity_def POLICY_def idle_goals_def
      case_goals_def parse_u32_def parse_digits_def digit_value_def case_keys case_frame_fields)

lemma idle_replayed:
  "\<exists>x. run_case_replay (idle_env bs cand) () = Inr x \<and> r_stop (x_run x) = StopExhausted \<and>
     x_normalized x = map timeless [hd demo_frames, end_frame 7 1 1] \<and> pr_result (x_property x) = VPass \<and>
     r_finish_reason (x_run x) = FinishExhausted"
proof -
  let ?env = "idle_env bs cand"
  obtain rn0 where start: "start_runner ?env () idle_goals ''c'' ''s''
      \<lparr>ss_method = ''fresh'', ss_blake3 = ''00''\<rparr> = Inr rn0"
    and rn0: "rn_driver rn0 = \<lparr>d_adapter = (), d_queue = [], d_frames = [], d_steps = [], d_effects = [],
            d_progress = [], d_pending = [], d_session_sequence = 0, d_effect_sequences = Map.empty\<rparr>"
      "rn_goals rn0 = idle_goals" "rn_canonical rn0 = Map.empty" "rn_terminal rn0 = None"
    using goal_adapter_starts [OF _ idle_env_fields(3) idle_entries(3,4,5,6,10), of _ cand idle_goals "''c''" "''s''"]
      idle_adapter_start by (auto simp: idle_env_fields)
  have prep: "prepare_run ?env = Inr (''c'', ''s'', idle_goals, demo_session, \<lparr>ss_method = ''fresh'', ss_blake3 = ''00''\<rparr>)"
    by (simp add: prepare_run_def idle_env_fields run_entry_def case_declaration_entries idle_goals_new
        case_entry_def entry_def demo_session_first runner_state_of_def idle_entries)
  let ?s0 = "(hd demo_frames)\<lparr>f_ordinal := 0, f_observed_ns := 0\<rparr>"
  define rn1 where "rn1 = rn0\<lparr>rn_driver := (rn_driver rn0)\<lparr>d_frames := [?s0], d_session_sequence := 1\<rparr>\<rparr>"
  have seq: "f_src_seq (hd demo_frames) = 0" by (simp add: demo_frames_def)
  have del: "run_deliver ?env [hd demo_frames, end_frame 7 1 1] rn0 = Inr (rn1, StopExhausted)"
    by (simp add: case_frame_fields rn0 rn1_def push_frame_def seq)
  define rn2 where "rn2 = rn1\<lparr>rn_driver := (rn_driver rn1)\<lparr>d_queue := [Finished FinishExhausted [] 0]\<rparr>\<rparr>"
  have fin: "finish_runner ?env StopExhausted rn1 = Inr (rn2, [])"
    by (simp add: finish_runner_def runner_finish_reason_def rn2_def rn1_def rn0 send_request_def idle_env_fields)
  have answers: "\<exists>p. run_property ?env (run_of demo_session StopExhausted [] rn2) rn2 = Inr p \<and> pr_result p = VPass"
    by (simp add: run_property_def rn2_def rn1_def rn0 property_evaluate_def run_property_input_def run_entry_def
        case_entry_def entry_def idle_env_fields case_declaration_entries idle_program_def check_result_def
        verdict_result_def exit_code_def property_input_of_def parse_i64_def parse_digits_def digit_value_def
        run_of_def Let_def)
  then obtain p where p: "run_property ?env (run_of demo_session StopExhausted [] rn2) rn2 = Inr p" "pr_result p = VPass"
    by blast
  obtain x where x: "run_case_replay ?env () = Inr x" "x_run x = run_of demo_session StopExhausted [] rn2" "x_property x = p"
    and xn: "x_normalized x = map (normalize_frame [hd demo_frames, end_frame 7 1 1] (rn_canonical rn2)
      (d_steps (rn_driver rn2))) (r_frames (x_run x))"
    unfolding run_case_replay_def prep idle_env_fields(1) sum.case prod.case start del fin p(1) by fastforce
  have frames: "r_frames (x_run x) = [?s0, end_frame 7 1 1]"
    by (simp add: x(2) run_of_def rn2_def rn1_def rn0 demo_session_def)
  have "timeless (hd demo_frames) = ?s0" "timeless (end_frame 7 1 1) = end_frame 7 1 1"
    by (simp_all add: timeless_def demo_frames_def end_frame_def)
  then have "x_normalized x = map timeless [hd demo_frames, end_frame 7 1 1]"
    unfolding xn frames by (simp add: rn2_def rn1_def rn0 normalize_frame_def)
  moreover have "r_stop (x_run x) = StopExhausted" "r_finish_reason (x_run x) = FinishExhausted"
    by (simp_all add: x(2) run_of_def Let_def runner_finish_reason_def rn2_def rn1_def rn0)
  ultimately show ?thesis using x p by blast
qed

definition idle_plan :: plan where
  "idle_plan =
     \<lparr>pl_command = build_command (idle_build ''/'' ''old'' [3]), pl_property = (''/property'', []),
      pl_identity = idle_identity [3], pl_build = Some (idle_build ''/'' ''old'' [3]),
      pl_candidate = Some (idle_build ''/'' ''new'' [4])\<rparr>"

lemma idle_builds:
  "load_build demo_fingerprint idle_verifier ''build.json'' = Inr (idle_build ''/'' ''old'' [3])"
  "load_build demo_fingerprint idle_verifier ''new.json'' = Inr (idle_build ''/'' ''new'' [4])"
  by (simp_all add: load_build_def idle_verifier_def idle_build_def build_load_def demo_build_def check_artifact_def
      demo_store_def pinned_def entry_is_def case_entry_def entry_def Let_def idle_entries)

lemma idle_planned: "verify_plan demo_fingerprint idle_verifier idle_case (Some ''new.json'') = Inr idle_plan"
proof -
  have c: "cf_covered idle_case = {''build.json''}" "cf_identity idle_case = idle_identity [3]"
    "cf_declaration idle_case = case_declaration" "cf_frames idle_case = [hd demo_frames, end_frame 7 1 1]"
    by (simp_all add: idle_case_def case_demo_def) (simp add: idle_identity_def case_identity_def case_keys)
  have b: "bd_identity (idle_build r n bs) = idle_identity bs" for r n bs by (simp add: idle_build_def)
  have "\<forall>key. True \<and> key \<in> set CANDIDATE_KEYS \<or> map_of (idle_identity [3]) key = map_of (idle_identity [4]) key"
  proof
    fix key
    have "key \<in> set CANDIDATE_KEYS" if "key = ''component_binary_blake3''" using that by (simp add: CANDIDATE_KEYS_def)
    then show "True \<and> key \<in> set CANDIDATE_KEYS \<or> map_of (idle_identity [3]) key = map_of (idle_identity [4]) key"
      using idle_other by metis
  qed
  then have "same_identity (idle_identity [3]) (idle_identity [4]) True = Inr ()"
    unfolding same_identity_Inr .
  then have cand: "build_candidate (idle_build ''/'' ''old'' [3]) (idle_build ''/'' ''new'' [4]) = Inr ()"
    unfolding build_candidate_def b sum.case by (simp add: idle_build_def demo_build_def)
  have "same_identity (idle_identity [3]) (idle_identity [3]) False = Inr ()" by (simp add: same_identity_Inr)
  then have "build_plan demo_fingerprint idle_verifier idle_case (Some ''new.json'') = Inr idle_plan"
    unfolding build_plan_def load_candidate_def option.case idle_builds sum.case c b cand
    by (simp add: idle_plan_def idle_build_def demo_build_def)
  moreover have "vf_source_hash idle_verifier = ''00''" "vf_reference_hash idle_verifier = []"
    "pl_identity idle_plan = idle_identity [3]"
    by (simp_all add: idle_verifier_def idle_plan_def)
  ultimately show ?thesis
    unfolding verify_plan_def c using idle_goals_new [of "[3]"]
    by (simp add: case_declaration_entries case_entry_def entry_def)
qed

lemma idle_run:
  "run_command idle_verifier idle_case cmd prp (idle_identity bs) cand =
     (case run_case_replay (idle_env bs cand) () of Inl e \<Rightarrow> Inl (VerifyRun e) | Inr x \<Rightarrow> Inr x)"
proof -
  have "command_env idle_verifier idle_case cmd prp (idle_identity bs) cand = idle_env bs cand"
    by (simp add: command_env_def idle_verifier_def idle_env_def)
  moreover have "pg_state (vf_programs idle_verifier) cmd = ()" by simp
  ultimately show ?thesis by (simp add: run_command_def)
qed

lemma idle_tested:
  "\<exists>r. verify_loaded demo_fingerprint demo_keyed idle_verifier idle_case (Some ''new.json'') = Inr r \<and> rp_exit_code r = 0"
proof -
  let ?frames = "[hd demo_frames, end_frame 7 1 1]"
  obtain x where x: "run_case_replay (idle_env [3] False) () = Inr x" "r_stop (x_run x) = StopExhausted"
    "x_normalized x = map timeless ?frames" "pr_result (x_property x) = VPass"
    using idle_replayed [of "[3]" False] by blast
  obtain y where y: "run_case_replay (idle_env [4] True) () = Inr y" "pr_result (x_property y) = VPass"
    using idle_replayed [of "[4]" True] by blast
  have m: "pl_identity idle_plan = idle_identity [3]" "candidate_identity idle_plan n = idle_identity [4]" for n
    by (simp_all add: idle_plan_def candidate_identity_def idle_build_def)
  have c: "cf_declaration idle_case = case_declaration" "cf_frames idle_case = ?frames"
    by (simp_all add: idle_case_def case_demo_def)
  have valid: "pr_result (x_property x) \<noteq> VInvalid" using x(4) by simp
  obtain inp where inp: "run_property_input case_declaration (x_run y) (idle_identity [4]) = Inr inp"
    by (simp add: run_property_input_def run_entry_def case_entry_def entry_def case_declaration_entries
        parse_i64_def parse_digits_def digit_value_def Let_def)
  have "map timeless (x_normalized x) = map timeless ?frames" by (simp add: x(3) timeless_def)
  then have "agreement_of demo_fingerprint demo_keyed (ascii ''c'') ?frames x = ''measured agreement''"
    unfolding agreement_measured using agreement_timeless x(2) by simp
  then have "\<not> baseline_mismatch demo_fingerprint demo_keyed (ascii ''c'') ?frames x"
    by (simp add: baseline_mismatch_def x(2))
  then have "report_exit_code demo_fingerprint demo_keyed (ascii ''c'') ?frames x (Some y) = 0"
    by (simp add: report_exit_code_def Let_def exit_code_def y(2))
  moreover have "verify_loaded demo_fingerprint demo_keyed idle_verifier idle_case (Some ''new.json'') =
      Inr (make_report demo_fingerprint demo_keyed idle_case (ascii ''c'') (idle_identity [3]) (idle_identity [4]) inp x (Some y))"
    unfolding verify_loaded_def idle_planned sum.case option.case m idle_run x(1) y(1) c inp
    using valid by (simp add: case_declaration_entries case_entry_def entry_def inp)
  ultimately show ?thesis by (simp add: make_report_def c Let_def)
qed

theorem test_pass_is_evidence_witness:
  "\<exists>r. verify_loaded demo_fingerprint demo_keyed idle_verifier idle_case (Some ''new.json'') = Inr r \<and>
     pr_result (rp_property_result r) = VPass"
proof -
  obtain r where r: "verify_loaded demo_fingerprint demo_keyed idle_verifier idle_case (Some ''new.json'') = Inr r"
    "rp_exit_code r = 0" using idle_tested by blast
  from test_pass_is_evidence [OF r] r(1) show ?thesis by auto
qed

end
