(* ===== verification/Rook_Commands.thy ===== *)
theory Rook_Commands
  imports Capsule_Verifier Verify_Report Reproduction
begin

text \<open>
  The command-line programs: crates/rook-verify/src/bin/rook.rs with the Wasm arm of lib.rs
  (\<open>wasm_verify\<close>), and crates/rook-adapter-ref/src/bin/rook-adapter-ref.rs and rook-property-ref.rs.  Arguments are text; a
  program is what it prints and its exit status.  What a program meets outside is a parameter: directories,
  the lines on its input, the parsed property inputs, and the parameters of the modelled parts.  Writing
  files and starting the sibling program succeed.
\<close>

subsection \<open>rook-adapter-ref\<close>

datatype adapter_output =
    AdapterServed "response list" "serve_error option"
  | UnknownComponent string
  | WroteFixtures "(string \<times> (record_error + (string, bytes) btree)) list"
  | PrintedIdentity
  | AdapterUsage

definition serve_output :: "hash_fn \<Rightarrow> line list \<Rightarrow> string \<Rightarrow> adapter_output \<times> int" where
  "serve_output h lines name =
     (case parse_variant name of
        None \<Rightarrow> (UnknownComponent name, 2)
      | Some v \<Rightarrow>
          (case serve h v lines of
             (rs, None) \<Rightarrow> (AdapterServed rs None, 0) | (rs, Some e) \<Rightarrow> (AdapterServed rs (Some e), 2)))"

text \<open>Every scenario is written, also after one that fails.\<close>

definition fixtures_output ::
  "hash_fn \<Rightarrow> keyed_fn \<Rightarrow> (bytes \<Rightarrow> bytes) \<Rightarrow> (string \<Rightarrow> string) \<Rightarrow> adapter_output \<times> int" where
  "fixtures_output h kh sha src =
     (let written = map (\<lambda>sc. (sn_name sc, capsule_files h kh sha src sc)) scenarios
      in (WroteFixtures written, if list_ex (\<lambda>(_, r). isl r) written then 2 else 0))"

definition adapter_main ::
  "hash_fn \<Rightarrow> keyed_fn \<Rightarrow> (bytes \<Rightarrow> bytes) \<Rightarrow> (string \<Rightarrow> string) \<Rightarrow> line list \<Rightarrow> string list \<Rightarrow> adapter_output \<times> int" where
  "adapter_main h kh sha src lines args =
     (case args of
        [a, b, c] \<Rightarrow>
          if a = ''serve'' \<and> b = ''--component'' then serve_output h lines c else (AdapterUsage, 2)
      | [a, b] \<Rightarrow> if a = ''fixtures'' then fixtures_output h kh sha src else (AdapterUsage, 2)
      | [a] \<Rightarrow> if a = ''identity'' then (PrintedIdentity, 0) else (AdapterUsage, 2)
      | _ \<Rightarrow> (AdapterUsage, 2))"

subsection \<open>rook-property-ref\<close>

text \<open>An input file that is read and parsed, or not; \<open>describe\<close> is the text of an error.\<close>

definition property_main ::
  "(eval_error option \<Rightarrow> string) \<Rightarrow> (string \<Rightarrow> property_input option) \<Rightarrow> string list \<Rightarrow> property_result option \<times> int" where
  "property_main describe inputs args =
     (case args of
        [a, path] \<Rightarrow>
          if a = ''evaluate''
          then let result = (case inputs path of
                   None \<Rightarrow> invalid_result ''unknown'' (describe None)
                 | Some inp \<Rightarrow>
                     (case evaluate inp of
                        Inl e \<Rightarrow> invalid_result ''unknown'' (describe (Some e)) | Inr r \<Rightarrow> r))
               in (Some result, exit_code result)
          else (None, 2)
      | _ \<Rightarrow> (None, 2))"

subsection \<open>rook\<close>

record ('s, 'g) rook_world =
  rw_fs :: "string \<Rightarrow> capsule_fs"
  rw_case :: "string \<Rightarrow> case_dir"
  rw_verifier :: "string \<Rightarrow> 's verifier"
  rw_stdin :: "line list"
  rw_inputs :: "string \<Rightarrow> property_input option"
  rw_sha :: "bytes \<Rightarrow> bytes"
  rw_compile :: "bytes \<Rightarrow> 'g guest"
  rw_float :: "string \<Rightarrow> u64 option"

datatype rook_error =
    RookUsage
  | ManifestUnread string
  | CaseRefused verify_error
  | UnknownVariant string
  | ServingFailed serve_error
  | PropertyFailed "eval_error option"

datatype rook_output =
    CaseReport report
  | SiblingReport verifier_run
  | AdapterDone "response list"
  | PropertyDone property_result
  | ErrorReport rook_error

definition rook_error_code :: "rook_error \<Rightarrow> int" where
  "rook_error_code e = (case e of CaseRefused v \<Rightarrow> verify_exit_code v | _ \<Rightarrow> 2)"

definition WASM_FIRST_LINE :: string where
  "WASM_FIRST_LINE = ''# rook-capsule-v1 kind=wasm-rmf-blockade''"

text \<open>\<open>wasm_verify\<close>: the sibling program on the directory, and its exit code.\<close>

definition wasm_verify ::
  "hash_fn \<Rightarrow> keyed_fn \<Rightarrow> ('s, 'g) rook_world \<Rightarrow> string \<Rightarrow> rook_output \<times> int" where
  "wasm_verify h kh w path =
     (let (output, code) = verifier_main h kh (rw_sha w) (rw_compile w) (rw_float w) (rw_fs w) [path]
      in (SiblingReport output, code))"

definition run_case_output ::
  "hash_fn \<Rightarrow> keyed_fn \<Rightarrow> ('s, 'g) rook_world \<Rightarrow> string \<Rightarrow> string option \<Rightarrow> rook_error + rook_output \<times> int" where
  "run_case_output h kh w path candidate =
     (case verify_case h kh (rw_sha w) (rw_verifier w path) (rw_case w path) candidate of
        Inl e \<Rightarrow> Inl (CaseRefused e) | Inr r \<Rightarrow> Inr (CaseReport r, rp_exit_code r))"

definition rook_verify :: "hash_fn \<Rightarrow> keyed_fn \<Rightarrow> ('s, 'g) rook_world \<Rightarrow> string \<Rightarrow> rook_error + rook_output \<times> int" where
  "rook_verify h kh w path =
     (case fs_text (rw_fs w path) ''MANIFEST.sha256'' of
        Inl e \<Rightarrow> Inl (ManifestUnread path)
      | Inr manifest \<Rightarrow>
          if (case text_lines manifest of [] \<Rightarrow> False | l # _ \<Rightarrow> l = WASM_FIRST_LINE)
          then Inr (wasm_verify h kh w path)
          else run_case_output h kh w path None)"

text \<open>\<open>run\<close>, and the exit code \<open>main\<close> takes from the report.\<close>

definition rook_run :: "hash_fn \<Rightarrow> keyed_fn \<Rightarrow> ('s, 'g) rook_world \<Rightarrow> string list \<Rightarrow> rook_error + rook_output \<times> int" where
  "rook_run h kh w args =
     (case args of
        [a, b] \<Rightarrow>
          if a = ''verify'' \<and> strip_prefix ''-'' b = None then rook_verify h kh w b
          else if a = ''__adapter''
          then (case parse_variant b of
              None \<Rightarrow> Inl (UnknownVariant b)
            | Some v \<Rightarrow>
                (case serve h v (rw_stdin w) of
                   (rs, None) \<Rightarrow> Inr (AdapterDone rs, 0) | (rs, Some e) \<Rightarrow> Inl (ServingFailed e)))
          else if a = ''__property''
          then (case rw_inputs w b of
              None \<Rightarrow> Inl (PropertyFailed None)
            | Some inp \<Rightarrow>
                (case evaluate inp of
                   Inl e \<Rightarrow> Inl (PropertyFailed (Some e)) | Inr r \<Rightarrow> Inr (PropertyDone r, exit_code r)))
          else Inl RookUsage
      | [a, path, flag, candidate] \<Rightarrow>
          if a = ''test'' \<and> flag = ''--candidate'' \<and> strip_prefix ''-'' path = None
          then run_case_output h kh w path (Some candidate)
          else Inl RookUsage
      | _ \<Rightarrow> Inl RookUsage)"

definition rook_main :: "hash_fn \<Rightarrow> keyed_fn \<Rightarrow> ('s, 'g) rook_world \<Rightarrow> string list \<Rightarrow> rook_output \<times> int" where
  "rook_main h kh w args =
     (case rook_run h kh w args of Inl e \<Rightarrow> (ErrorReport e, rook_error_code e) | Inr x \<Rightarrow> x)"

section \<open>Properties of the programs\<close>

subsection \<open>The reference scenarios record\<close>

lemmas record_eval =
  record_scenario_def record_input_def recorder_start_def Let_def
  new_component_def step_def on_goal_command_def message_codec.dec_enc [simplified] clock_codec.dec_enc [simplified]
  goal_response_codec.dec_enc [simplified] goal_send_codec.dec_enc [simplified] goal_result_codec.dec_enc [simplified] default_outcome_def
  on_clock_def submit_goal_def check_deadline_def issue_effect_def issue_status_def checked_add_i64_def
  on_goal_response_def on_result_def settled_def bound_def next_seq_def
  GOAL_RESPONSE_DEADLINE_NS_def CLOCK_ROS_def waits_def recorder_push_def ACTOR_COMMAND_def CH_GOAL_COMMAND_def
  CH_CLOCK_def ACTOR_CLOCK_def ACTOR_ACTION_SERVER_def CH_ACTION_GOAL_def CH_STATUS_def ACTOR_DIAGNOSTICS_def
  CH_ACTION_RESPONSE_def COMPONENT_ACTOR_ID_def SESSION_ACTOR_ID_def SESSION_CHANNEL_ID_def

lemma timeout_records:
  "\<exists>rg. record_scenario h VOld (scenarios ! 0) = Inr rg \<and> length (rg_frames rg) = 9"
  by (simp add: record_eval scenarios_def del: next_frame_fields recorder_push_frames)

lemma timely_records:
  "\<exists>rg. record_scenario h VOld (scenarios ! 1) = Inr rg \<and> length (rg_frames rg) = 11"
  by (simp add: record_eval scenarios_def del: next_frame_fields recorder_push_frames)

lemma command_gap_records:
  "\<exists>rg. record_scenario h VOld (scenarios ! 2) = Inr rg \<and> length (rg_frames rg) = 5"
  by (simp add: record_eval scenarios_def encode_gap_def script_gap_def ascii_def del: next_frame_fields recorder_push_frames)

lemma command_end_records:
  "\<exists>rg. record_scenario h VOld (scenarios ! 3) = Inr rg \<and> length (rg_frames rg) = 4"
  by (simp add: record_eval scenarios_def del: next_frame_fields recorder_push_frames)

lemma timeout_gap_records:
  "\<exists>rg. record_scenario h VOld (scenarios ! 4) = Inr rg \<and> length (rg_frames rg) = 8"
  by (simp add: record_eval scenarios_def encode_gap_def script_gap_def ascii_def del: next_frame_fields recorder_push_frames)


subsection \<open>What an exit with 0 shows\<close>

text \<open>The evidence of a Wasm capsule.\<close>

definition wasm_evidence :: "hash_fn \<Rightarrow> keyed_fn \<Rightarrow> ('s, 'g) rook_world \<Rightarrow> capsule_fs \<Rightarrow> bool" where
  "wasm_evidence h kh w fs \<longleftrightarrow>
     (\<exists>names xp bs deliveries recorded replayed hashes.
        verify_manifest (rw_sha w) fs = Inr (Inr (''wasm-rmf-blockade'', names)) \<and>
        set WASM_RMF_BLOCKADE_FILES \<subseteq> names \<and>
        wasm_parts h kh (rw_compile w) (rw_float w) fs xp bs deliveries recorded replayed hashes \<and>
        map snd recorded = map snd replayed \<and>
        encode_hex (to_le (run_hash hashes)) = xp_bag_run_hash xp \<and>
        encode_hex (to_le (output_digest hashes)) = xp_bag_output_digest xp \<and>
        encode_hex (rw_sha w bs) = xp_heartbeats_recorded_sha256 xp \<and>
        length (distinct_states (map snd recorded)) = xp_recorded_states xp)"

text \<open>The evidence of a native case: its replay, not stopped at a gap, has the recorded effects and run hash.\<close>

definition case_evidence :: "hash_fn \<Rightarrow> keyed_fn \<Rightarrow> (bytes \<Rightarrow> bytes) \<Rightarrow> 's verifier \<Rightarrow> case_dir \<Rightarrow> bool" where
  "case_evidence h kh sha vf dir \<longleftrightarrow>
     (\<exists>c p x corpus inp. case_load h kh sha dir = Inr c \<and> verify_plan h vf c None = Inr p \<and>
        run_command vf c (pl_command p) (pl_property p) (pl_identity p) False = Inr x \<and>
        pr_result (x_property x) \<noteq> VInvalid \<and> map_of (cf_declaration c) ''corpus'' = Some corpus \<and>
        run_property_input (cf_declaration c) (x_run x) (pl_identity p) = Inr inp \<and>
        (\<forall>n g. r_stop (x_run x) \<noteq> StopGap n g) \<and>
        map effect_key (filter is_emit (cf_frames c)) = map effect_key (filter is_emit (x_normalized x)) \<and>
        n_run_hash (hash_frames h kh (ascii corpus) (cf_frames c)) =
          n_run_hash (hash_frames h kh (ascii corpus) (x_normalized x)))"

lemma verify_exit_code_positive: "verify_exit_code e \<in> {1, 2}"
proof (cases e)
  case (VerifyRun x)
  have "runner_exit_code x \<in> {1, 2}" by (cases x rule: runner_exit_code.cases) (simp_all add: case_exit_code_def)
  with VerifyRun show ?thesis by simp
qed (simp_all add: case_exit_code_def)

lemma case_output_zero:
  "(case run_case_output h kh w path None of Inl e \<Rightarrow> rook_error_code e | Inr x \<Rightarrow> snd x) = 0 \<longleftrightarrow>
     case_evidence h kh (rw_sha w) (rw_verifier w path) (rw_case w path)"
proof -
  have "rp_exit_code (make_report h kh c (ascii corpus) m m inp x None) = 0 \<longleftrightarrow>
      (\<forall>n g. r_stop (x_run x) \<noteq> StopGap n g) \<and>
      map effect_key (filter is_emit (cf_frames c)) = map effect_key (filter is_emit (x_normalized x)) \<and>
      n_run_hash (hash_frames h kh (ascii corpus) (cf_frames c)) =
        n_run_hash (hash_frames h kh (ascii corpus) (x_normalized x))" for c corpus m inp x
    unfolding make_report_def Let_def report.simps report_exit_code_def option.case agreement_measured effects_agree_iff
    by (simp add: run_agrees_def compare_def normalized_run_def Let_def)
  note zero = this
  show ?thesis
  proof (cases "verify_case h kh (rw_sha w) (rw_verifier w path) (rw_case w path) None")
    case (Inl e)
    have "\<exists>r. verify_case h kh (rw_sha w) (rw_verifier w path) (rw_case w path) None = Inr r"
      if "case_evidence h kh (rw_sha w) (rw_verifier w path) (rw_case w path)"
    proof -
      from that obtain c p x corpus inp where "case_load h kh (rw_sha w) (rw_case w path) = Inr c"
        and "verify_plan h (rw_verifier w path) c None = Inr p \<and>
          run_command (rw_verifier w path) c (pl_command p) (pl_property p) (pl_identity p) False = Inr x \<and>
          pr_result (x_property x) \<noteq> VInvalid \<and> map_of (cf_declaration c) ''corpus'' = Some corpus \<and>
          run_property_input (cf_declaration c) (x_run x) (pl_identity p) = Inr inp"
        unfolding case_evidence_def by blast
      then show ?thesis using verify_loaded_None [of h kh "rw_verifier w path" c] by (auto simp: verify_case_def)
    qed
    with Inl have "\<not> case_evidence h kh (rw_sha w) (rw_verifier w path) (rw_case w path)" by auto
    with Inl show ?thesis using verify_exit_code_positive [of e]
      by (auto simp: run_case_output_def rook_error_code_def)
  next
    case (Inr r)
    then obtain c where c: "case_load h kh (rw_sha w) (rw_case w path) = Inr c"
      and r: "verify_loaded h kh (rw_verifier w path) c None = Inr r"
      by (auto simp: verify_case_def split: sum.splits)
    from r [unfolded verify_loaded_None] show ?thesis
      unfolding case_evidence_def using c Inr zero by (auto simp: run_case_output_def)
  qed
qed

lemma rook_verify_main:
  "rook_main h kh w [''verify'', dir] =
     (if strip_prefix ''-'' dir = None
      then (case rook_verify h kh w dir of Inl e \<Rightarrow> (ErrorReport e, rook_error_code e) | Inr x \<Rightarrow> x)
      else (ErrorReport RookUsage, 2))"
  by (simp add: rook_main_def rook_run_def rook_error_code_def)

lemma verifier_main_dir:
  "strip_prefix ''-'' dir = None \<Longrightarrow>
     snd (verifier_main h kh sha compile parse_f64 directory [dir]) =
       process_code (run_capsule h kh sha compile parse_f64 (directory dir))"
  by (auto simp: verifier_main_def Let_def)

text \<open>
  C13. \<open>rook verify\<close> exits with 0 exactly on evidence: the manifest's first line names a Wasm capsule and the
  sibling verifier's replay emits the recorded heartbeats and the expected hashes; or the directory loads as
  a case and its replay, not stopped at a gap, has the recorded effects and the recorded run hash.
\<close>

theorem rook_zero_is_evidence:
  "snd (rook_main h kh w [''verify'', dir]) = 0 \<longleftrightarrow>
     strip_prefix ''-'' dir = None \<and>
     (\<exists>manifest. fs_text (rw_fs w dir) ''MANIFEST.sha256'' = Inr manifest \<and>
        (if (\<exists>ls. text_lines manifest = WASM_FIRST_LINE # ls) then wasm_evidence h kh w (rw_fs w dir)
         else case_evidence h kh (rw_sha w) (rw_verifier w dir) (rw_case w dir)))"
proof (cases "strip_prefix ''-'' dir")
  case (Some r)
  then show ?thesis by (simp add: rook_verify_main)
next
  case None
  show ?thesis
  proof (cases "fs_text (rw_fs w dir) ''MANIFEST.sha256''")
    case (Inl e)
    with None show ?thesis by (simp add: rook_verify_main rook_verify_def rook_error_code_def)
  next
    case (Inr manifest)
    have first: "(case text_lines manifest of [] \<Rightarrow> False | l # _ \<Rightarrow> l = WASM_FIRST_LINE) \<longleftrightarrow>
        (\<exists>ls. text_lines manifest = WASM_FIRST_LINE # ls)" by (auto split: list.splits)
    show ?thesis
    proof (cases "\<exists>ls. text_lines manifest = WASM_FIRST_LINE # ls")
      case True
      have "snd (rook_main h kh w [''verify'', dir]) = snd (wasm_verify h kh w dir)"
        using None Inr True by (simp add: rook_verify_main rook_verify_def first)
      also have "\<dots> = process_code (run_capsule h kh (rw_sha w) (rw_compile w) (rw_float w) (rw_fs w dir))"
        using verifier_main_dir [OF None] by (simp add: wasm_verify_def case_prod_unfold Let_def)
      finally show ?thesis using None Inr True by (simp add: verified_iff wasm_evidence_def)
    next
      case False
      then have "snd (rook_main h kh w [''verify'', dir]) =
          (case run_case_output h kh w dir None of Inl e \<Rightarrow> rook_error_code e | Inr x \<Rightarrow> snd x)"
        using None Inr by (simp add: rook_verify_main rook_verify_def first split: sum.split)
      then show ?thesis using None Inr False case_output_zero [of h kh w dir] by simp
    qed
  qed
qed

subsection \<open>The reference cases\<close>

lemma scenarios_plain: "list_all plain_scenario scenarios"
  by code_simp

lemma scenarios_small: "list_all (\<lambda>sc. list_all small_command (sn_actions sc)) scenarios"
  by (simp add: scenarios_def small_command_def)

lemma scenarios_record:
  assumes "sc \<in> set scenarios"
  shows "\<exists>rg. record_scenario h VOld sc = Inr rg \<and> length (rg_frames rg) < 2 ^ 64"
proof -
  have "length scenarios = 5" by (simp add: scenarios_def)
  with assms obtain i where i: "i < 5" "sc = scenarios ! i" by (metis in_set_conv_nth)
  then consider "i = 0" | "i = 1" | "i = 2" | "i = 3" | "i = 4" by linarith
  then show ?thesis
  proof cases
    case 1
    with i(2) timeout_records [of h] show ?thesis by force
  next
    case 2
    with i(2) timely_records [of h] show ?thesis by force
  next
    case 3
    with i(2) command_gap_records [of h] show ?thesis by force
  next
    case 4
    with i(2) command_end_records [of h] show ?thesis by force
  next
    case 5
    with i(2) timeout_gap_records [of h] show ?thesis by force
  qed
qed

text \<open>
  What is written for a scenario: it loads as a case with the recorded frames, the sibling verifier finds
  the files whole and the case native, and the replay of the case through the old variant has the recorded
  effects and stops at a gap or at the end as the script does.
\<close>

definition reference_case ::
  "hash_fn \<Rightarrow> keyed_fn \<Rightarrow> (bytes \<Rightarrow> bytes) \<Rightarrow> (bytes \<Rightarrow> 'g guest) \<Rightarrow> (string \<Rightarrow> u64 option) \<Rightarrow>
     scenario \<Rightarrow> (string, bytes) btree \<Rightarrow> bool" where
  "reference_case h kh sha compile parse_f64 sc files \<longleftrightarrow>
     (\<exists>rg c gaps grade r.
        record_scenario h VOld sc = Inr rg \<and>
        case_load h kh sha (capsule_dir files) = Inr c \<and> cf_frames c = rg_frames rg \<and>
        run_capsule h kh sha compile parse_f64 (capsule_fs_of files) =
          Inr (NativeChecked (length (rg_frames rg)) gaps grade) \<and>
        replay_recording h (reference_adapter h VOld) (Serving None 0) (cf_frames c)
          REFERENCE_CORPUS (sn_name sc) = Inr r \<and>
        effects_agree (compare h kh (ascii REFERENCE_CORPUS) (cf_frames c) r) \<and>
        (if ActGap \<in> set (sn_actions sc) then \<exists>n. r_stop r = StopGap n script_gap
         else r_stop r = StopExhausted \<and> run_agrees (compare h kh (ascii REFERENCE_CORPUS) (cf_frames c) r)))"

lemma reference_case_written:
  assumes rec: "record_scenario h VOld sc = Inr rg" "length (rg_frames rg) < 2 ^ 64"
    and sc: "\<forall>a\<in>set (sn_actions sc). small_command a" "plain_scenario sc"
    and src: "\<forall>k. plain_text (src k)" and sha: "\<forall>bs. length (sha bs) = 32"
  shows "\<exists>files. capsule_files h kh sha src sc = Inr files \<and> reference_case h kh sha compile parse_f64 sc files"
proof -
  obtain files where files: "capsule_files h kh sha src sc = Inr files" and dist: "distinct (map fst files)"
    unfolding capsule_files_eq [OF rec(1)] by (simp add: Let_def)
  then have "\<forall>f\<in>set files. capsule_dir files (fst f) = Some (True, snd f)" by (auto simp: capsule_dir_def)
  from capsule_loads_in [OF rec sc src sha files this] obtain c where
    c: "case_load h kh sha (capsule_dir files) = Inr c" "cf_frames c = rg_frames rg"
    and ids: "map_of (cf_identity c) = map_of (identity_entries h src sc)" by blast
  note listed = written_capsule_listed(1) [OF rec(1) sha files capsule_fs_holds [OF dist]]
  have "map_of (cf_identity c) ''effect_record_order'' \<noteq> None" "map_of (cf_identity c) ''endpoint.1'' \<noteq> None"
    unfolding ids by (simp_all add: identity_entries_def endpoint_entries_eq)
  from loaded_checked [OF c(1) listed capsule_fs_reads this, of compile parse_f64] c(2) obtain gaps grade where
    checked: "run_capsule h kh sha compile parse_f64 (capsule_fs_of files) =
      Inr (NativeChecked (length (rg_frames rg)) gaps grade)" by auto
  from reference.reproduces [OF rec(1) sc(1) rec(2)] obtain r where
    run: "replay_recording h (reference_adapter h VOld) (Serving None 0) (rg_frames rg)
      REFERENCE_CORPUS (sn_name sc) = Inr r"
    and emits: "filter is_emit (r_frames r) = map timeless (filter is_emit (rg_frames rg))"
    and stop: "if ActGap \<in> set (sn_actions sc) then \<exists>n. r_stop r = StopGap n script_gap
     else r_stop r = StopExhausted \<and> r_frames r = map timeless (rg_frames rg)" by blast
  have "effects_agree (compare h kh (ascii REFERENCE_CORPUS) (rg_frames rg) r)"
    by (simp add: effects_agree_def compare_def emits compare_effects_None comp_def Let_def)
  moreover have "run_agrees (compare h kh (ascii REFERENCE_CORPUS) (rg_frames rg) r)"
    if "r_frames r = map timeless (rg_frames rg)"
    by (simp add: run_agrees_def compare_def that hash_frames_timeless Let_def)
  ultimately have "reference_case h kh sha compile parse_f64 sc files"
    unfolding reference_case_def using rec(1) c checked run stop
    by (intro exI [of _ rg] exI [of _ c] exI [of _ gaps] exI [of _ grade] exI [of _ r]) simp
  with files show ?thesis by blast
qed

text \<open>
  C14. \<open>rook-adapter-ref fixtures\<close> writes every reference scenario and exits with 0: each directory loads as
  a case with the recorded frames, the sibling verifier accepts it as a native case, and its replay through
  the old variant has the recorded effects, ends at the scripted gap or consumes the whole recording, and in
  that case has the recorded run hash.
\<close>

theorem reference_cases_hold:
  assumes "\<forall>k. plain_text (src k)" and "\<forall>bs. length (sha bs) = 32"
  shows "\<exists>written. adapter_main h kh sha src lines [''fixtures'', dir] = (WroteFixtures written, 0) \<and>
    list_all2 (\<lambda>sc w. fst w = sn_name sc \<and>
      (\<exists>files. snd w = Inr files \<and> reference_case h kh sha compile parse_f64 sc files)) scenarios written"
proof -
  let ?written = "map (\<lambda>sc. (sn_name sc, capsule_files h kh sha src sc)) scenarios"
  have each: "\<exists>files. capsule_files h kh sha src sc = Inr files \<and> reference_case h kh sha compile parse_f64 sc files"
    if sc: "sc \<in> set scenarios" for sc
  proof -
    from scenarios_record [OF sc] obtain rg where "record_scenario h VOld sc = Inr rg" "length (rg_frames rg) < 2 ^ 64"
      by blast
    moreover have "\<forall>a\<in>set (sn_actions sc). small_command a" "plain_scenario sc"
      using sc scenarios_small scenarios_plain by (auto simp: list_all_iff)
    ultimately show ?thesis by (intro reference_case_written assms)
  qed
  then have "list_all2 (\<lambda>sc w. fst w = sn_name sc \<and>
      (\<exists>files. snd w = Inr files \<and> reference_case h kh sha compile parse_f64 sc files)) scenarios ?written"
    by (simp add: list_all2_map2 list.rel_map list_all2_same)
  moreover have "\<not> list_ex (\<lambda>(_, r). isl r) ?written" using each by (force simp: list_ex_iff)
  ultimately show ?thesis by (intro exI [of _ ?written]) (simp add: adapter_main_def fixtures_output_def)
qed

theorem reference_cases_hold_witness:
  "\<exists>written. adapter_main demo_hash (\<lambda>_ _. 0) (\<lambda>_. replicate 32 0) (\<lambda>_. ''00'') [] [''fixtures'', ''out''] =
       (WroteFixtures written, 0) \<and> length written = 5"
proof -
  from reference_cases_hold [OF demo_capsule_plain(3,4)] obtain written where
    w: "adapter_main demo_hash (\<lambda>_ _. 0) (\<lambda>_. replicate 32 0) (\<lambda>_. ''00'') [] [''fixtures'', ''out''] =
      (WroteFixtures written, 0)" and len: "length scenarios = length written"
    by (blast dest: list_all2_lengthD)
  have "length scenarios = 5" by (simp add: scenarios_def)
  with w len show ?thesis by auto
qed

end
