(* ===== verification/Nav2_Pack.thy ===== *)
theory Nav2_Pack
  imports Verify_Report Capsule "HOL-Library.Countable"
begin

text \<open>
  crates/rook-verify/examples/nav2_pack.rs: packing a captured Nav2 transcript into a case with its
  builds, which the case loader checks last.  What is outside is a record of lookups: whether a path
  exists, the capture a path holds (its bytes, already parsed), the canonical path and contents of any
  other file, the text of a build as JSON, and the content identity of the compiled-in normalization.
  Texts are ASCII.  Creating the directory and writing into it succeed; what a refused capture leaves
  in the directory is not kept.
\<close>

subsection \<open>The capture\<close>

record capture =
  cap_scenario :: string
  cap_frames :: "wire_frame list"
  cap_captured :: "wire_frame list"

record pack_world =
  pk_exists :: "string \<Rightarrow> bool"
  pk_capture :: "string \<Rightarrow> (bytes \<times> capture) option"
  pk_file :: "string \<Rightarrow> (string \<times> bytes) option" \<comment> \<open>canonical path, contents\<close>
  pk_render :: "build \<Rightarrow> bytes"
  pk_source_hash :: string

datatype pack_error =
    PackUsage
  | CaseExists
  | NoCapture
  | MissingOrdinal
  | PackWire wire_error
  | NotContiguous
  | PackStream stream_error
  | ChannelsDiffer
  | UnknownCapture
  | NoFile string
  | PackLoad case_error

text \<open>\<open>Path::join\<close> of plain paths: an absolute path replaces the first.\<close>

definition join_path :: "string \<Rightarrow> string \<Rightarrow> string" where
  "join_path a b =
     (if b \<noteq> [] \<and> hd b = CHR ''/'' then b
      else if a = [] \<or> last a = CHR ''/'' then a @ b else a @ CHR ''/'' # b)"

text \<open>\<open>frame\<close>.\<close>

definition packed_frame :: "wire_frame \<Rightarrow> pack_error + frame" where
  "packed_frame w =
     (case w_ordinal w of
        None \<Rightarrow> Inl MissingOrdinal
      | Some n \<Rightarrow> (case frame_from_wire n w of Inl e \<Rightarrow> Inl (PackWire e) | Inr f \<Rightarrow> Inr f))"

definition pack_marker :: "u64 \<Rightarrow> event_type \<Rightarrow> u64 \<Rightarrow> bytes \<Rightarrow> frame" where
  "pack_marker n ty q body =
     \<lparr>f_ordinal = n, f_src_actor = 0, f_dst_actor = 0, f_channel_id = 0, f_src_seq = q, f_observed_ns = 0,
      f_header = \<lparr>h_event_type = ty, h_schema = 1, h_flags = 0\<rparr>, f_body = body\<rparr>"

definition capture_uuid :: "hash_fn \<Rightarrow> capture \<Rightarrow> id16" where
  "capture_uuid h cap = from_le (take 16 (to_le (h (ascii (cap_scenario cap)))))"

definition session_sequence :: "frame \<Rightarrow> frame" where
  "session_sequence f = (if f_event_type f = EvStartingState then f\<lparr>f_src_seq := 1\<rparr> else f)"

fun pack_wires :: "wire_frame list \<Rightarrow> frame list \<Rightarrow> pack_error + frame list" where
  "pack_wires [] fs = Inr fs"
| "pack_wires (w # ws) fs =
     (case packed_frame w of
        Inl e \<Rightarrow> Inl e
      | Inr f \<Rightarrow>
          if f_ordinal f \<noteq> word_of_nat (length fs) then Inl NotContiguous
          else pack_wires ws (fs @ [session_sequence f]))"

definition packed_frames :: "hash_fn \<Rightarrow> capture \<Rightarrow> pack_error + frame list" where
  "packed_frames h cap =
     (let uuid = capture_uuid h cap;
          opening = pack_marker 0 EvSession 0 (encode_session \<lparr>s_uuid = uuid, s_record_utc_ns = 0, s_pid = 0\<rparr>)
      in case pack_wires (cap_frames cap) [opening] of
           Inl e \<Rightarrow> Inl e
         | Inr fs \<Rightarrow>
             let n = word_of_nat (length fs)
             in Inr (fs @ [pack_marker n EvEnd 2 (encode_end \<lparr>en_uuid = uuid, en_frame_count = n\<rparr>)]))"

fun captured_payloads :: "wire_frame list \<Rightarrow> pack_error + bytes list" where
  "captured_payloads [] = Inr []"
| "captured_payloads (w # ws) =
     (case packed_frame w of
        Inl e \<Rightarrow> Inl e
      | Inr f \<Rightarrow> (case captured_payloads ws of Inl e \<Rightarrow> Inl e | Inr ps \<Rightarrow> Inr (payload f # ps)))"

text \<open>The frames of the case, with both channels checked against each other.\<close>

definition packed_recording :: "hash_fn \<Rightarrow> capture \<Rightarrow> pack_error + frame list \<times> bytes list" where
  "packed_recording h cap =
     (case packed_frames h cap of
        Inl e \<Rightarrow> Inl e
      | Inr fs \<Rightarrow>
          (case decode_stream h (encode_stream h fs) of
             Inl e \<Rightarrow> Inl (PackStream e)
           | Inr _ \<Rightarrow>
               (case captured_payloads (cap_captured cap) of
                  Inl e \<Rightarrow> Inl e
                | Inr ps \<Rightarrow> if ps \<noteq> map payload (filter is_emit fs) then Inl ChannelsDiffer else Inr (fs, ps))))"

subsection \<open>Texts\<close>

definition btree_of :: "('k::linorder \<times> 'v) list \<Rightarrow> ('k, 'v) btree" where
  "btree_of kvs = fold (\<lambda>(k, v). bt_insert k v) kvs []"

text \<open>\<open>write_values\<close>.\<close>

definition values_file :: "identity_map \<Rightarrow> bytes" where
  "values_file m = file_text [] m"

definition capture_property :: "string \<Rightarrow> pack_error + string \<times> string" where
  "capture_property scenario =
     (if scenario = ''timely'' then Inr (''nav2-timely-ack-no-cancel@1'', ''observation_interval_elapsed'')
      else if scenario \<in> set [''overlap'', ''wrong-result'']
      then Inr (''nav2-overlap-results@1'', ''matching_result_processed'')
      else if scenario = ''cancel-ack'' then Inr (''nav2-cancel-ack@1'', ''cancel_acknowledged'')
      else if scenario = ''cancel-before-goal'' then Inr (''nav2-goal-termination@1'', ''goal_terminated'')
      else if scenario \<in> set [''timeout'', ''missing-clock'', ''frozen-clock'']
      then Inr (''nav2-goal-response-timeout-cancel@1'', ''cancel_request_issued'')
      else Inl UnknownCapture)"

definition NAV2_CORPUS :: string where "NAV2_CORPUS = ''nav2-action@1''"

definition pack_declaration :: "string \<Rightarrow> string \<Rightarrow> string \<Rightarrow> identity_map" where
  "pack_declaration scenario property completion = btree_of
     [(''corpus'', NAV2_CORPUS), (''scenario'', scenario),
      (''property'', property), (''scope.completion'', completion),
      (''scope.observation_end'', ''end_of_recording''),
      (''comparison_policy'', ''goal-ids-in-order@1''),
      (''goal_response_deadline_ns'', ''20000000''),
      (''origin'', ''upstream-issue recreation; scripted environment; no field incident claim''),
      (''grade_reason'', ''Complete within the scripted class boundary; substituted executor/action client; DDS, lifecycle and server behavior outside scope'')]"

definition pack_expected :: "hash_fn \<Rightarrow> keyed_fn \<Rightarrow> frame list \<Rightarrow> bytes \<Rightarrow> identity_map" where
  "pack_expected h kh frames captured =
     (let hashes = hash_frames h kh (ascii NAV2_CORPUS) frames
      in btree_of
        [(''claim'', ''measured''), (''grade'', ''Complete''),
         (''raw_record_blake3'', hash_text h (encode_stream h frames)),
         (''effects_captured_blake3'', hash_text h captured),
         (''trace_hash'', encode_hex (to_le (n_trace_hash hashes))),
         (''run_hash'', encode_hex (to_le (n_run_hash hashes))),
         (''output_digest'', encode_hex (to_le (n_output_digest hashes)))])"

subsection \<open>The builds\<close>

definition pack_artifact :: "hash_fn \<Rightarrow> pack_world \<Rightarrow> string \<Rightarrow> pack_error + artifact" where
  "pack_artifact h w path =
     (case pk_file w path of
        None \<Rightarrow> Inl (NoFile path)
      | Some (found, bs) \<Rightarrow> Inr \<lparr>ar_path = found, ar_blake3 = hash_text h bs\<rparr>)"

fun pack_dependencies ::
  "hash_fn \<Rightarrow> pack_world \<Rightarrow> (string \<times> string) list \<Rightarrow> (string, artifact) btree \<Rightarrow>
     pack_error + (string, artifact) btree" where
  "pack_dependencies h w [] ds = Inr ds"
| "pack_dependencies h w ((key, path) # ps) ds =
     (case pack_artifact h w path of
        Inl e \<Rightarrow> Inl e | Inr a \<Rightarrow> pack_dependencies h w ps (bt_insert key a ds))"

definition NAV2_SOURCES :: "string list" where
  "NAV2_SOURCES =
     [''component.cpp'', ''control.hpp'', ''harness.hpp'', ''integration.diff'', ''prepare.py'', ''CMakeLists.txt'']"

text \<open>The sources the component is built from, and then the files the runtime loads.\<close>

definition nav2_dependencies ::
  "hash_fn \<Rightarrow> pack_world \<Rightarrow> string \<Rightarrow> string \<Rightarrow> pack_error + (string, artifact) btree" where
  "nav2_dependencies h w source binaries =
     (case pack_dependencies h w
             (map (\<lambda>name. (''dependency.source.'' @ name, join_path source name)) NAV2_SOURCES) [] of
        Inl e \<Rightarrow> Inl e
      | Inr ds \<Rightarrow>
          let runtime = join_path binaries ''runtime-paths.txt'' in
          (case Option.bind (pk_file w runtime) (\<lambda>(_, bs). text_of bs) of
             None \<Rightarrow> Inl (NoFile runtime)
           | Some t \<Rightarrow>
               pack_dependencies h w (map (\<lambda>path. (''dependency.runtime.'' @ path, path)) (text_lines t)) ds))"

definition nav2_entries :: "hash_fn \<Rightarrow> pack_world \<Rightarrow> string \<Rightarrow> artifact \<Rightarrow> artifact \<Rightarrow> (string \<times> string) list" where
  "nav2_entries h w property adapter program =
     [(''component'', ''nav2-bt-action''),
      (''adapter'', ''rook-nav2-adapter''),
      (''adapter_protocol'', ''1''),
      (''starting_state'', ''fresh''),
      (''starting_state_blake3'', hash_text h []),
      (''normalization'', POLICY),
      (''normalization_source_blake3'', pk_source_hash w),
      (''normalization.client.20'', ''nav2-wait''),
      (''normalization.client.21'', ''nav2-wait''),
      (''property'', property),
      (''property_input_schema'', ''rook-property-input@1''),
      (''property_source_blake3'', ar_blake3 program),
      (''adapter_binary_blake3'', ar_blake3 adapter),
      (''property_binary_blake3'', ar_blake3 program),
      (''effect_record_order'', ''attempted API call at dependency seam; diagnostic status on tick return'')]"

definition nav2_endpoints :: "(string \<times> string) list" where
  "nav2_endpoints =
     map (\<lambda>(actor, name). (''endpoint.'' @ decimal actor, name))
       (enumerate 0 [''session'', ''component'', ''clock'', ''action_server'', ''command'', ''diagnostics''])"

definition nav2_channels :: "(string \<times> string) list" where
  "nav2_channels =
     map (\<lambda>(ch, declaration). (''channel.'' @ decimal ch, declaration))
       [(10, ''tick input Message''), (11, ''clock input Clock''),
        (12, ''action_response input GoalResponse,Feedback,Result,CancelResponse''),
        (20, ''action_goal effect GoalSend''), (21, ''action_cancel effect CancelSend''),
        (22, ''status effect Status'')]"

text \<open>The identity all variants share.\<close>

definition nav2_identity ::
  "hash_fn \<Rightarrow> pack_world \<Rightarrow> string \<Rightarrow> artifact \<Rightarrow> artifact \<Rightarrow> (string, artifact) btree \<Rightarrow> identity_map" where
  "nav2_identity h w property adapter program dependencies =
     btree_of (nav2_entries h w property adapter program @ nav2_endpoints @ nav2_channels @
       map (\<lambda>(key, a). (key, ar_blake3 a)) dependencies)"

definition pack_variant ::
  "hash_fn \<Rightarrow> pack_world \<Rightarrow> string \<Rightarrow> artifact \<Rightarrow> artifact \<Rightarrow> (string, artifact) btree \<Rightarrow> string \<Rightarrow>
     identity_map \<Rightarrow> pack_error + build" where
  "pack_variant h w binaries adapter program dependencies variant m =
     (case pack_artifact h w (join_path binaries (''nav2_component_'' @ variant)) of
        Inl e \<Rightarrow> Inl e
      | Inr component \<Rightarrow>
          let header = join_path (join_path binaries ''upstream'')
              (if variant = ''old'' then ''old.hpp'' else ''fixed.hpp'') in
          (case pk_file w header of
             None \<Rightarrow> Inl (NoFile header)
           | Some (_, bs) \<Rightarrow>
               let m' = bt_insert ''component_source_blake3'' (hash_text h bs)
                   (bt_insert ''component_binary_blake3'' (ar_blake3 component)
                     (bt_insert ''component_variant'' variant m))
               in Inr \<lparr>bd_identity = m', bd_adapter = adapter, bd_component = component, bd_property = program,
                    bd_dependencies = dependencies, bd_adapter_args = [''{component}''], bd_property_args = []\<rparr>))"

definition VARIANTS :: "string list" where
  "VARIANTS = [''old'', ''fixed'', ''noop'', ''always-cancel'']"

text \<open>The files of every variant; the old one's are those of the case.\<close>

fun pack_variants ::
  "(string \<Rightarrow> identity_map \<Rightarrow> pack_error + build) \<Rightarrow> (build \<Rightarrow> bytes) \<Rightarrow> string list \<Rightarrow> identity_map \<Rightarrow>
     (string, bytes) btree \<Rightarrow> pack_error + (string, bytes) btree" where
  "pack_variants variant_of render [] m files = Inr files"
| "pack_variants variant_of render (v # vs) m files =
     (case variant_of v m of
        Inl e \<Rightarrow> Inl e
      | Inr b \<Rightarrow>
          let files1 = bt_insert (v @ ''.json'') (render b) files;
              files2 = (if v = ''old''
                then bt_insert ''build.json'' (render b) (bt_insert ''identity'' (values_file (bd_identity b)) files1)
                else files1)
          in pack_variants variant_of render vs (bd_identity b) files2)"

subsection \<open>The case\<close>

definition pack_builds ::
  "hash_fn \<Rightarrow> pack_world \<Rightarrow> string \<Rightarrow> string \<Rightarrow> string \<Rightarrow> (string, bytes) btree \<Rightarrow>
     pack_error + (string, bytes) btree" where
  "pack_builds h w source binaries property files =
     (case pack_artifact h w (join_path source ''adapter.py'') of
        Inl e \<Rightarrow> Inl e
      | Inr adapter \<Rightarrow>
          (case pack_artifact h w (join_path source ''property.py'') of
             Inl e \<Rightarrow> Inl e
           | Inr program \<Rightarrow>
               (case nav2_dependencies h w source binaries of
                  Inl e \<Rightarrow> Inl e
                | Inr ds \<Rightarrow>
                    pack_variants (pack_variant h w binaries adapter program ds) (pk_render w) VARIANTS
                      (nav2_identity h w property adapter program ds) files)))"

definition pack_files ::
  "hash_fn \<Rightarrow> keyed_fn \<Rightarrow> pack_world \<Rightarrow> string \<Rightarrow> string \<Rightarrow> bytes \<Rightarrow> capture \<Rightarrow>
     pack_error + (string, bytes) btree" where
  "pack_files h kh w source binaries raw cap =
     (case packed_recording h cap of
        Inl e \<Rightarrow> Inl e
      | Inr (fs, ps) \<Rightarrow>
          (case capture_property (cap_scenario cap) of
             Inl e \<Rightarrow> Inl e
           | Inr (property, completion) \<Rightarrow>
               let captured = encode_captured ps;
                   files = btree_of
                     [(''events.bin'', encode_stream h fs), (''effects_captured.bin'', captured),
                      (''capture.json'', raw),
                      (''case'', values_file (pack_declaration (cap_scenario cap) property completion)),
                      (''expected'', values_file (pack_expected h kh fs captured))]
               in pack_builds h w source binaries property files))"

text \<open>The manifest covers every file of the directory; the loader checks the result.\<close>

definition pack_case ::
  "hash_fn \<Rightarrow> keyed_fn \<Rightarrow> (bytes \<Rightarrow> bytes) \<Rightarrow> pack_world \<Rightarrow> string \<Rightarrow> string \<Rightarrow> bytes \<Rightarrow> capture \<Rightarrow>
     pack_error + (string, bytes) btree" where
  "pack_case h kh sha w source binaries raw cap =
     (case pack_files h kh w source binaries raw cap of
        Inl e \<Rightarrow> Inl e
      | Inr files \<Rightarrow>
          let whole = bt_insert ''MANIFEST.sha256'' (ascii (manifest_text sha files)) files in
          (case case_load h kh sha (capsule_dir whole) of
             Inl e \<Rightarrow> Inl (PackLoad e) | Inr _ \<Rightarrow> Inr whole))"

definition pack_main ::
  "hash_fn \<Rightarrow> keyed_fn \<Rightarrow> (bytes \<Rightarrow> bytes) \<Rightarrow> pack_world \<Rightarrow> string list \<Rightarrow> pack_error + (string, bytes) btree" where
  "pack_main h kh sha w args =
     (case args of
        [capture_path, source, binaries, root] \<Rightarrow>
          if pk_exists w root then Inl CaseExists
          else (case pk_capture w capture_path of
              None \<Rightarrow> Inl NoCapture
            | Some (raw, cap) \<Rightarrow> pack_case h kh sha w source binaries raw cap)
      | _ \<Rightarrow> Inl PackUsage)"

section \<open>Encoded frames are told apart\<close>

definition small_payload :: "frame \<Rightarrow> bool" where
  "small_payload f \<longleftrightarrow> length (payload f) < 2 ^ 32"

lemma to_le_append:
  "to_le (b :: u16) @ x = to_le b' @ y \<longleftrightarrow> b = b' \<and> x = y"
  "to_le (c :: u32) @ x = to_le c' @ y \<longleftrightarrow> c = c' \<and> x = y"
  "to_le (d :: u64) @ x = to_le d' @ y \<longleftrightarrow> d = d' \<and> x = y"
  "to_le (f :: digest) @ x = to_le f' @ y \<longleftrightarrow> f = f' \<and> x = y"
  by (simp_all add: append_eq_append_conv)

lemma encode_frame_inject:
  assumes "encode_frame h f @ r = encode_frame h g @ r'" and "small_payload f" and "small_payload g"
  shows "f = g \<and> r = r'"
proof -
  have chunks: "f_ordinal f = f_ordinal g \<and> f_src_actor f = f_src_actor g \<and>
    f_dst_actor f = f_dst_actor g \<and> f_channel_id f = f_channel_id g \<and>
    (word_of_nat (length (payload f)) :: u32) = word_of_nat (length (payload g)) \<and>
    f_src_seq f = f_src_seq g \<and> f_observed_ns f = f_observed_ns g \<and> payload f @ r = payload g @ r'"
    using assms(1) unfolding encode_frame_def envelope_bytes_def append_assoc to_le_append by blast
  have "length (payload f) = length (payload g)"
    using chunks assms(2,3) unat_u32 [of "length (payload f)"] unat_u32 [of "length (payload g)"]
    unfolding small_payload_def by metis
  with chunks have same: "payload f = payload g \<and> r = r'" by (simp add: append_eq_append_conv del: length_payload)
  then have hdr: "event_code (f_event_type f) = event_code (f_event_type g) \<and>
      h_schema (f_header f) = h_schema (f_header g) \<and> h_flags (f_header f) = h_flags (f_header g) \<and>
      f_body f = f_body g"
    unfolding payload_def encode_header_def append_assoc to_le_append by blast
  then have "f_event_type f = f_event_type g" by (metis from_u16_event_code option.inject)
  with hdr have "f_header f = f_header g" by (simp add: event_header.equality)
  with chunks hdr same show ?thesis by (simp add: frame.equality)
qed

lemma encode_stream_inject:
  assumes "encode_stream h fs = encode_stream h gs" and "list_all small_payload fs" and "list_all small_payload gs"
  shows "fs = gs"
  using assms
proof (induction fs arbitrary: gs)
  case Nil
  then show ?case by (cases gs) auto
next
  case (Cons f fs)
  then obtain g gs' where gs: "gs = g # gs'" by (cases gs) auto
  with Cons.prems have "f = g \<and> encode_stream h fs = encode_stream h gs'"
    by (intro encode_frame_inject) simp_all
  with Cons.IH [of gs'] Cons.prems gs show ?case by simp
qed

lemma run_small_payloads: "stream_run st fs st' \<Longrightarrow> list_all small_payload fs"
  by (induction rule: stream_run.induct) (simp_all add: small_payload_def wf_frame_def)

lemma decode_own_stream:
  assumes "decode_stream h (encode_stream h fs) = Inr gs" and "list_all small_payload fs"
  shows "gs = fs"
  using assms unfolding decode_stream_Inr by (metis encode_stream_inject run_small_payloads)

section \<open>Maps made of entries\<close>

lemma fold_insert_ok: "bt_ok m \<Longrightarrow> bt_ok (fold (\<lambda>(k, v). bt_insert k v) kvs m)"
  by (induction kvs arbitrary: m) auto

lemma btree_of_ok [simp]: "bt_ok (btree_of kvs)"
  by (simp add: btree_of_def fold_insert_ok)

lemma fold_insert_get:
  "bt_ok m \<Longrightarrow> map_of (fold (\<lambda>(k, v). bt_insert k v) kvs m) = map_of m ++ map_of (rev kvs)"
  by (induction kvs arbitrary: m) (auto simp: fun_eq_iff map_add_def split: option.splits)

lemma map_of_distinct_rev: "distinct (map fst kvs) \<Longrightarrow> map_of (rev kvs) = map_of kvs"
proof -
  assume d: "distinct (map fst kvs)"
  then have "distinct (map fst (rev kvs))" by (simp add: rev_map [symmetric])
  with d show ?thesis by (simp add: map_of_inject_set)
qed

lemma btree_of_get: "distinct (map fst kvs) \<Longrightarrow> map_of (btree_of kvs) = map_of kvs"
  unfolding btree_of_def by (subst fold_insert_get) (auto simp: map_of_distinct_rev)

lemma insert_set_subset: "set (bt_insert k v m) \<subseteq> insert (k, v) (set m)"
  by (induction k v m rule: bt_insert.induct) auto

lemma btree_of_set: "set (btree_of kvs) \<subseteq> set kvs"
proof -
  have "set (fold (\<lambda>(k, v). bt_insert k v) kvs m) \<subseteq> set kvs \<union> set m" for m :: "('a::linorder \<times> 'b) list"
  proof (induction kvs arbitrary: m)
    case (Cons kv kvs)
    obtain k v where kv: "kv = (k, v)" by force
    show ?case using Cons.IH [of "bt_insert k v m"] insert_set_subset [of k v m] by (auto simp: kv)
  qed simp
  from this [of "[]"] show ?thesis by (simp add: btree_of_def)
qed

lemma read_values_file_of:
  assumes "dir name = Some (True, values_file m)" and "bt_ok m" and "\<forall>kv\<in>set m. plain_entry kv"
  shows "read_values dir name = Inr m"
proof -
  have "dir name = Some (True, file_text [] m)" "plain_comments []"
    using assms(1) by (simp_all add: values_file_def plain_comments_def)
  note read = read_values_file [of dir name, OF this assms(3) bt_ok_distinct [OF assms(2)]]
  then obtain m' where m': "read_values dir name = Inr m'" "bt_ok m'" "map_of m' = map_of m" by (elim exE conjE)
  from bt_eqI [OF m'(2) assms(2) m'(3)] show ?thesis unfolding m'(1) by (rule arg_cong)
qed

section \<open>The recording of a packed case\<close>

text \<open>Fewer frames than ordinals, and bodies that a frame can carry.\<close>

definition small_capture :: "capture \<Rightarrow> bool" where
  "small_capture cap \<longleftrightarrow>
     length (cap_frames cap) + 2 < 2 ^ 64 \<and> list_all (\<lambda>w. length (w_body_hex w) < 2 ^ 32) (cap_frames cap)"

lemma length_decode_hex: "decode_hex s = Some bs \<Longrightarrow> 2 * length bs = length s"
  using encode_decode_hex [of s bs] length_encode_hex [of bs] by (metis length_map)

lemma packed_frame_small:
  assumes "packed_frame w = Inr f" and "length (w_body_hex w) < 2 ^ 32"
  shows "small_payload (session_sequence f)"
proof -
  from assms(1) have "decode_hex (w_body_hex w) = Some (f_body f)"
    by (auto simp: packed_frame_def frame_from_wire_def split: option.splits sum.splits)
  from length_decode_hex [OF this] assms(2) have "length (f_body f) < 2 ^ 31" by simp
  then show ?thesis
    by (simp add: small_payload_def session_sequence_def payload_def encode_header_def)
qed

lemma pack_wires_Inr:
  assumes "pack_wires ws fs = Inr gs" and "list_all (\<lambda>w. length (w_body_hex w) < 2 ^ 32) ws" and "list_all small_payload fs"
  shows "list_all small_payload gs \<and> length gs = length fs + length ws"
  using assms
proof (induction ws arbitrary: fs)
  case (Cons w ws)
  from Cons.prems(1) obtain f where f: "packed_frame w = Inr f" "pack_wires ws (fs @ [session_sequence f]) = Inr gs"
    by (auto split: sum.splits if_splits)
  from Cons.IH [OF f(2)] packed_frame_small [OF f(1)] Cons.prems show ?case by simp
qed simp

lemma packed_recording_Inr:
  assumes "packed_recording h cap = Inr (fs, ps)" and "small_capture cap"
  shows "decode_stream h (encode_stream h fs) = Inr fs" and "length fs < 2 ^ 64"
    and "ps = map payload (filter is_emit fs)" and "decode_captured (encode_captured ps) = Inr ps"
proof -
  let ?opening = "pack_marker 0 EvSession 0
    (encode_session \<lparr>s_uuid = capture_uuid h cap, s_record_utc_ns = 0, s_pid = 0\<rparr>)"
  from assms(1) obtain fs' gs where frames: "packed_frames h cap = Inr fs" and dec: "decode_stream h (encode_stream h fs) = Inr gs"
    and ps: "ps = map payload (filter is_emit fs)"
    by (auto simp: packed_recording_def split: sum.splits if_splits)
  from frames obtain ms where ms: "pack_wires (cap_frames cap) [?opening] = Inr ms"
    and fs: "fs = ms @ [pack_marker (word_of_nat (length ms)) EvEnd 2
      (encode_end \<lparr>en_uuid = capture_uuid h cap, en_frame_count = word_of_nat (length ms)\<rparr>)]"
    by (auto simp: packed_frames_def Let_def split: sum.splits)
  have marker: "small_payload (pack_marker n ty q body)" if "length body < 100" for n ty q body
    using that by (simp add: small_payload_def pack_marker_def payload_def encode_header_def)
  have "list_all small_payload ms \<and> length ms = 1 + length (cap_frames cap)"
    using pack_wires_Inr [OF ms] assms(2) marker by (simp add: small_capture_def encode_session_def)
  then have small: "list_all small_payload fs" and len: "length fs = length (cap_frames cap) + 2"
    using marker by (simp_all add: fs encode_end_def)
  from decode_own_stream [OF dec small] dec show "decode_stream h (encode_stream h fs) = Inr fs" by simp
  show "length fs < 2 ^ 64" using len assms(2) by (simp add: small_capture_def)
  show "ps = map payload (filter is_emit fs)" by (rule ps)
  have "\<forall>p\<in>set ps. length p < 2 ^ 32" using small by (auto simp: ps list_all_iff small_payload_def)
  then show "decode_captured (encode_captured ps) = Inr ps" by (rule decode_encode_captured)
qed

section \<open>The builds of a packed case\<close>

lemma pack_variants_Inr:
  "pack_variants variant_of render VARIANTS m files = Inr files' \<longleftrightarrow>
     (\<exists>b1 b2 b3 b4. variant_of ''old'' m = Inr b1 \<and> variant_of ''fixed'' (bd_identity b1) = Inr b2 \<and>
        variant_of ''noop'' (bd_identity b2) = Inr b3 \<and> variant_of ''always-cancel'' (bd_identity b3) = Inr b4 \<and>
        files' = bt_insert ''always-cancel.json'' (render b4) (bt_insert ''noop.json'' (render b3)
          (bt_insert ''fixed.json'' (render b2) (bt_insert ''build.json'' (render b1)
            (bt_insert ''identity'' (values_file (bd_identity b1)) (bt_insert ''old.json'' (render b1) files))))))"
  by (auto simp: VARIANTS_def Let_def split: sum.splits)

text \<open>A build of a variant: the shared programs, and an identity that differs in the component's keys only.\<close>

definition variant_build ::
  "hash_fn \<Rightarrow> pack_world \<Rightarrow> artifact \<Rightarrow> artifact \<Rightarrow> (string, artifact) btree \<Rightarrow> identity_map \<Rightarrow> string \<Rightarrow> build \<Rightarrow> bool" where
  "variant_build h w adapter program ds m variant b \<longleftrightarrow>
     bd_adapter b = adapter \<and> bd_property b = program \<and> bd_dependencies b = ds \<and>
     bd_adapter_args b = [''{component}''] \<and> bd_property_args b = [] \<and> bt_ok (bd_identity b) \<and>
     (\<exists>path. pack_artifact h w path = Inr (bd_component b)) \<and>
     (\<exists>bs. \<forall>key. map_of (bd_identity b) key =
        (if key = ''component_variant'' then Some variant
         else if key = ''component_binary_blake3'' then Some (ar_blake3 (bd_component b))
         else if key = ''component_source_blake3'' then Some (hash_text h bs) else map_of m key))"

lemma pack_variant_Inr:
  assumes "pack_variant h w binaries adapter program ds variant m' = Inr b" and "bt_ok m'"
    and "\<forall>key. key \<notin> set CANDIDATE_KEYS \<longrightarrow> map_of m' key = map_of m key"
  shows "variant_build h w adapter program ds m variant b"
proof -
  from assms(1) obtain component path header bs where
    c: "pack_artifact h w (join_path binaries (''nav2_component_'' @ variant)) = Inr component"
    and b: "b = \<lparr>bd_identity = bt_insert ''component_source_blake3'' (hash_text h bs)
        (bt_insert ''component_binary_blake3'' (ar_blake3 component) (bt_insert ''component_variant'' variant m')),
      bd_adapter = adapter, bd_component = component, bd_property = program, bd_dependencies = ds,
      bd_adapter_args = [''{component}''], bd_property_args = []\<rparr>"
    by (auto simp: pack_variant_def Let_def split: sum.splits option.splits)
  have each: "\<forall>key. map_of (bd_identity b) key =
        (if key = ''component_variant'' then Some variant
         else if key = ''component_binary_blake3'' then Some (ar_blake3 (bd_component b))
         else if key = ''component_source_blake3'' then Some (hash_text h bs) else map_of m key)"
  proof
    fix key
    have m': "map_of (bd_identity b) = (map_of m')(''component_variant'' \<mapsto> variant,
        ''component_binary_blake3'' \<mapsto> ar_blake3 (bd_component b), ''component_source_blake3'' \<mapsto> hash_text h bs)"
      using assms(2) by (simp add: b)
    show "map_of (bd_identity b) key =
        (if key = ''component_variant'' then Some variant
         else if key = ''component_binary_blake3'' then Some (ar_blake3 (bd_component b))
         else if key = ''component_source_blake3'' then Some (hash_text h bs) else map_of m key)"
    proof (cases "key \<in> set CANDIDATE_KEYS")
      case True
      then show ?thesis unfolding m' CANDIDATE_KEYS_def by auto
    next
      case False
      then have "key \<noteq> ''component_variant''" "key \<noteq> ''component_binary_blake3''"
        "key \<noteq> ''component_source_blake3''" by (auto simp: CANDIDATE_KEYS_def)
      then show ?thesis using assms(3) False unfolding m' by simp
    qed
  qed
  have entries: "\<exists>bs. \<forall>key. map_of (bd_identity b) key =
        (if key = ''component_variant'' then Some variant
         else if key = ''component_binary_blake3'' then Some (ar_blake3 (bd_component b))
         else if key = ''component_source_blake3'' then Some (hash_text h bs) else map_of m key)"
    by (rule exI [of _ bs]) (rule each)
  have "bd_adapter b = adapter \<and> bd_property b = program \<and> bd_dependencies b = ds \<and>
      bd_adapter_args b = [''{component}''] \<and> bd_property_args b = [] \<and> bt_ok (bd_identity b)"
    using assms(2) by (simp add: b)
  moreover have "\<exists>path. pack_artifact h w path = Inr (bd_component b)" using c by (auto simp: b)
  ultimately show ?thesis unfolding variant_build_def using entries by (elim conjE) (intro conjI; assumption)
qed

lemma variant_build_other:
  "variant_build h w adapter program ds m variant b \<Longrightarrow> key \<notin> set CANDIDATE_KEYS \<Longrightarrow>
     map_of (bd_identity b) key = map_of m key"
  by (auto simp: variant_build_def CANDIDATE_KEYS_def)

lemma pack_dependencies_Inr:
  assumes "pack_dependencies h w ps ds = Inr ds'" and "bt_ok ds"
    and "\<forall>e\<in>set ds. fst e \<in> K \<and> (\<exists>path. pack_artifact h w path = Inr (snd e))" and "fst ` set ps \<subseteq> K"
  shows "bt_ok ds' \<and> (\<forall>e\<in>set ds'. fst e \<in> K \<and> (\<exists>path. pack_artifact h w path = Inr (snd e)))"
  using assms
proof (induction ps arbitrary: ds)
  case (Cons p ps)
  obtain key path where p: "p = (key, path)" by force
  from Cons.prems(1) obtain a where a: "pack_artifact h w path = Inr a"
    and more: "pack_dependencies h w ps (bt_insert key a ds) = Inr ds'"
    by (auto simp: p split: sum.splits)
  have keep: "\<forall>e\<in>set (bt_insert key a ds). fst e \<in> K \<and> (\<exists>path. pack_artifact h w path = Inr (snd e))"
  proof
    fix e
    assume "e \<in> set (bt_insert key a ds)"
    then consider "e = (key, a)" | "e \<in> set ds" using insert_set_subset [of key a ds] by blast
    then show "fst e \<in> K \<and> (\<exists>path. pack_artifact h w path = Inr (snd e))"
    proof cases
      case 1
      have "key \<in> K" using Cons.prems(4) by (simp add: p)
      with 1 a show ?thesis by auto
    qed (use Cons.prems(3) in blast)
  qed
  show ?case by (rule Cons.IH [OF more _ keep]) (use Cons.prems(2,4) in simp_all)
qed simp

section \<open>The texts of a packed case\<close>

lemma nav2_endpoints_eq:
  "nav2_endpoints = [(''endpoint.0'', ''session''), (''endpoint.1'', ''component''), (''endpoint.2'', ''clock''),
     (''endpoint.3'', ''action_server''), (''endpoint.4'', ''command''), (''endpoint.5'', ''diagnostics'')]"
  by (simp add: nav2_endpoints_def decimal.simps char_of_def bit_Suc_0_iff)

lemma nav2_channels_eq:
  "nav2_channels = [(''channel.10'', ''tick input Message''), (''channel.11'', ''clock input Clock''),
     (''channel.12'', ''action_response input GoalResponse,Feedback,Result,CancelResponse''),
     (''channel.20'', ''action_goal effect GoalSend''), (''channel.21'', ''action_cancel effect CancelSend''),
     (''channel.22'', ''status effect Status'')]"
  by (simp add: nav2_channels_def decimal.simps char_of_def bit_Suc_0_iff)

lemma nav2_keys:
  "map fst (nav2_entries h w property adapter program @ nav2_endpoints @ nav2_channels) =
     [''component'', ''adapter'', ''adapter_protocol'', ''starting_state'', ''starting_state_blake3'', ''normalization'',
      ''normalization_source_blake3'', ''normalization.client.20'', ''normalization.client.21'', ''property'',
      ''property_input_schema'', ''property_source_blake3'', ''adapter_binary_blake3'', ''property_binary_blake3'',
      ''effect_record_order'', ''endpoint.0'', ''endpoint.1'', ''endpoint.2'', ''endpoint.3'', ''endpoint.4'',
      ''endpoint.5'', ''channel.10'', ''channel.11'', ''channel.12'', ''channel.20'', ''channel.21'', ''channel.22'']"
  by (simp add: nav2_entries_def nav2_endpoints_eq nav2_channels_eq)

lemma nav2_keys_plain:
  "list_all plain_key
     [''component'', ''adapter'', ''adapter_protocol'', ''starting_state'', ''starting_state_blake3'', ''normalization'',
      ''normalization_source_blake3'', ''normalization.client.20'', ''normalization.client.21'', ''property'',
      ''property_input_schema'', ''property_source_blake3'', ''adapter_binary_blake3'', ''property_binary_blake3'',
      ''effect_record_order'', ''endpoint.0'', ''endpoint.1'', ''endpoint.2'', ''endpoint.3'', ''endpoint.4'',
      ''endpoint.5'', ''channel.10'', ''channel.11'', ''channel.12'', ''channel.20'', ''channel.21'', ''channel.22'']"
  "list_all plain_key CANDIDATE_KEYS"
  "list_all plain_key [''corpus'', ''scenario'', ''property'', ''scope.completion'', ''scope.observation_end'',
     ''comparison_policy'', ''goal_response_deadline_ns'', ''origin'', ''grade_reason'']"
  "list_all plain_key [''claim'', ''grade'', ''raw_record_blake3'', ''effects_captured_blake3'', ''trace_hash'',
     ''run_hash'', ''output_digest'']"
  by code_simp+

lemma nav2_texts_plain:
  "list_all plain_text [''nav2-bt-action'', ''rook-nav2-adapter'', ''1'', ''fresh'', POLICY, ''nav2-wait'',
     ''rook-property-input@1'', ''attempted API call at dependency seam; diagnostic status on tick return'',
     ''session'', ''component'', ''clock'', ''action_server'', ''command'', ''diagnostics'', ''tick input Message'',
     ''clock input Clock'', ''action_response input GoalResponse,Feedback,Result,CancelResponse'',
     ''action_goal effect GoalSend'', ''action_cancel effect CancelSend'', ''status effect Status'',
     ''old'', ''fixed'', ''noop'', ''always-cancel'', NAV2_CORPUS, ''end_of_recording'', ''goal-ids-in-order@1'',
     ''20000000'', ''measured'', ''Complete'']"
  "plain_text ''upstream-issue recreation; scripted environment; no field incident claim''"
  "plain_text ''Complete within the scripted class boundary; substituted executor/action client; DDS, lifecycle and server behavior outside scope''"
  by code_simp+

lemma capture_property_plain:
  assumes "capture_property scenario = Inr (property, completion)"
  shows "plain_text scenario" and "plain_text property" and "plain_text completion"
proof -
  have "list_all plain_text [''timely'', ''overlap'', ''wrong-result'', ''cancel-ack'', ''cancel-before-goal'', ''timeout'',
      ''missing-clock'', ''frozen-clock'', ''nav2-timely-ack-no-cancel@1'', ''observation_interval_elapsed'',
      ''nav2-overlap-results@1'', ''matching_result_processed'', ''nav2-cancel-ack@1'', ''cancel_acknowledged'',
      ''nav2-goal-termination@1'', ''goal_terminated'', ''nav2-goal-response-timeout-cancel@1'', ''cancel_request_issued'']"
    by code_simp
  then show "plain_text scenario" "plain_text property" "plain_text completion"
    using assms by (auto simp: capture_property_def split: if_splits)
qed

lemma hash_text_plain: "plain_text (hash_text h bs)"
  by (simp add: hash_text_def digest_plain)

text \<open>What the runtime's paths and the compiled-in identity must be for the identity to be read back.\<close>

definition plain_runtime :: "pack_world \<Rightarrow> string \<Rightarrow> bool" where
  "plain_runtime w binaries \<longleftrightarrow> plain_text (pk_source_hash w) \<and>
     (\<forall>c bs t. pk_file w (join_path binaries ''runtime-paths.txt'') = Some (c, bs) \<and> text_of bs = Some t \<longrightarrow>
        list_all (\<lambda>path. plain_text path \<and> CHR ''='' \<notin> set path) (text_lines t))"

definition dependency_keys :: "string set" where
  "dependency_keys = {k. plain_key k \<and> (\<exists>r. k = ''dependency.'' @ r)}"

lemma dependency_key:
  assumes "plain_text path" and "CHR ''='' \<notin> set path"
  shows "''dependency.source.'' @ path \<in> dependency_keys" and "''dependency.runtime.'' @ path \<in> dependency_keys"
proof -
  have split: "''dependency.source.'' @ path = ''dependency.'' @ (''source.'' @ path)"
    "''dependency.runtime.'' @ path = ''dependency.'' @ (''runtime.'' @ path)" by simp_all
  have "plain_key (''dependency.source.'' @ path)" "plain_key (''dependency.runtime.'' @ path)"
    using assms by (auto simp: plain_key_def plain_text_def is_space_def newline_def char_of_def bit_Suc_0_iff)
  then show "''dependency.source.'' @ path \<in> dependency_keys" "''dependency.runtime.'' @ path \<in> dependency_keys"
    unfolding dependency_keys_def using split by blast+
qed

lemma nav2_dependencies_Inr:
  assumes "nav2_dependencies h w source binaries = Inr ds" and "plain_runtime w binaries"
  shows "bt_ok ds \<and> (\<forall>e\<in>set ds. fst e \<in> dependency_keys \<and> (\<exists>path. pack_artifact h w path = Inr (snd e)))"
proof -
  let ?sources = "map (\<lambda>name. (''dependency.source.'' @ name, join_path source name)) NAV2_SOURCES"
  from assms(1) obtain ds1 c bs t where ds1: "pack_dependencies h w ?sources [] = Inr ds1"
    and t: "pk_file w (join_path binaries ''runtime-paths.txt'') = Some (c, bs)" "text_of bs = Some t"
    and ds: "pack_dependencies h w (map (\<lambda>path. (''dependency.runtime.'' @ path, path)) (text_lines t)) ds1 = Inr ds"
    unfolding nav2_dependencies_def Let_def by (fastforce simp: bind_eq_Some_conv split: sum.splits option.splits)
  have "list_all (\<lambda>n. plain_text n \<and> CHR ''='' \<notin> set n) NAV2_SOURCES" by code_simp
  then have "fst ` set ?sources \<subseteq> dependency_keys" using dependency_key(1) by (auto simp: list_all_iff)
  then have first: "bt_ok ds1 \<and> (\<forall>e\<in>set ds1. fst e \<in> dependency_keys \<and> (\<exists>path. pack_artifact h w path = Inr (snd e)))"
    by (intro pack_dependencies_Inr [OF ds1 bt_ok_Nil]) simp_all
  have "list_all (\<lambda>path. plain_text path \<and> CHR ''='' \<notin> set path) (text_lines t)"
    using assms(2) t by (simp add: plain_runtime_def)
  then have "fst ` set (map (\<lambda>path. (''dependency.runtime.'' @ path, path)) (text_lines t)) \<subseteq> dependency_keys"
    using dependency_key(2) by (auto simp: list_all_iff)
  with first show ?thesis by (intro pack_dependencies_Inr [OF ds]) blast+
qed

lemma pack_artifact_Inr:
  "pack_artifact h w path = Inr a \<longleftrightarrow>
     (\<exists>bs. pk_file w path = Some (ar_path a, bs) \<and> ar_blake3 a = hash_text h bs)"
  by (cases a) (auto simp: pack_artifact_def split: option.splits)

definition good_dependencies :: "hash_fn \<Rightarrow> pack_world \<Rightarrow> (string, artifact) btree \<Rightarrow> bool" where
  "good_dependencies h w ds \<longleftrightarrow>
     bt_ok ds \<and> (\<forall>e\<in>set ds. fst e \<in> dependency_keys \<and> (\<exists>path. pack_artifact h w path = Inr (snd e)))"

lemma nav2_identity_get:
  assumes "good_dependencies h w ds"
  shows "map_of (nav2_identity h w property adapter program ds) =
    map_of (nav2_entries h w property adapter program @ nav2_endpoints @ nav2_channels @
      map (\<lambda>(key, a). (key, ar_blake3 a)) ds)"
proof -
  let ?kvs = "nav2_entries h w property adapter program @ nav2_endpoints @ nav2_channels"
  have keys: "map fst (map (\<lambda>(key, a). (key, ar_blake3 a)) ds) = map fst ds"
    by (simp add: case_prod_beta comp_def)
  have "distinct (map fst ?kvs)" unfolding nav2_keys by simp
  moreover have "distinct (map fst ds)" using assms by (simp add: good_dependencies_def bt_ok_distinct)
  moreover have "k \<notin> set (map fst ?kvs)" if "k \<in> set (map fst ds)" for k
  proof -
    from that assms obtain r where "k = ''dependency.'' @ r" by (auto simp: good_dependencies_def dependency_keys_def)
    then show ?thesis unfolding nav2_keys by simp
  qed
  ultimately have "distinct (map fst (?kvs @ map (\<lambda>(key, a). (key, ar_blake3 a)) ds))"
    unfolding map_append [of fst ?kvs] distinct_append keys by blast
  then show ?thesis unfolding nav2_identity_def append_assoc by (rule btree_of_get)
qed

lemma nav2_identity_lookup:
  assumes "good_dependencies h w ds"
  shows "list_all (\<lambda>(key, v). map_of (nav2_identity h w property adapter program ds) key = Some v)
      (nav2_entries h w property adapter program)"
    and "(key, a) \<in> set ds \<Longrightarrow> map_of (nav2_identity h w property adapter program ds) key = Some (ar_blake3 a)"
proof -
  show "list_all (\<lambda>(key, v). map_of (nav2_identity h w property adapter program ds) key = Some v)
      (nav2_entries h w property adapter program)"
    unfolding nav2_identity_get [OF assms] nav2_entries_def by simp
  assume e: "(key, a) \<in> set ds"
  with assms obtain r where "key = ''dependency.'' @ r" by (force simp: good_dependencies_def dependency_keys_def)
  then have "key \<notin> set (map fst (nav2_entries h w property adapter program @ nav2_endpoints @ nav2_channels))"
    unfolding nav2_keys by simp
  then have "map_of (nav2_entries h w property adapter program @ nav2_endpoints @ nav2_channels) key = None"
    by (simp only: map_of_eq_None_iff list.set_map)  simp
  then have "map_of (nav2_identity h w property adapter program ds) key =
      map_of (map (\<lambda>(key, a). (key, ar_blake3 a)) ds) key"
    unfolding nav2_identity_get [OF assms] by (auto simp: map_add_def split: option.splits)
  also have "\<dots> = map_option ar_blake3 (map_of ds key)" by (simp add: map_of_map)
  also have "map_of ds key = Some a" using e assms by (simp add: good_dependencies_def bt_get_iff)
  finally show "map_of (nav2_identity h w property adapter program ds) key = Some (ar_blake3 a)" by simp
qed

lemma nav2_entries_plain:
  assumes "plain_runtime w binaries" and "plain_text property" and "pack_artifact h w p1 = Inr adapter"
    and "pack_artifact h w p2 = Inr program"
  shows "\<forall>kv\<in>set (nav2_entries h w property adapter program @ nav2_endpoints @ nav2_channels). plain_entry kv"
proof -
  have "plain_text (ar_blake3 adapter)" "plain_text (ar_blake3 program)"
    using assms(3,4) hash_text_plain by (auto simp: pack_artifact_Inr)
  then show ?thesis
    unfolding plain_entries_iff nav2_keys using nav2_keys_plain(1) nav2_texts_plain(1) assms(1,2)
    by (simp add: nav2_entries_def nav2_endpoints_eq nav2_channels_eq hash_text_plain plain_runtime_def)
qed

lemma identity_plain:
  assumes "plain_runtime w binaries" and "plain_text property" and "pack_artifact h w p1 = Inr adapter"
    and "pack_artifact h w p2 = Inr program" and ds: "good_dependencies h w ds"
    and b: "variant_build h w adapter program ds (nav2_identity h w property adapter program ds) variant b"
    and "plain_text variant"
  shows "\<forall>kv\<in>set (bd_identity b). plain_entry kv"
proof
  fix kv
  assume kv: "kv \<in> set (bd_identity b)"
  obtain key v where e: "kv = (key, v)" by force
  let ?m = "nav2_identity h w property adapter program ds"
  have "map_of (bd_identity b) key = Some v" using kv b by (simp add: e variant_build_def bt_get_iff)
  with b obtain bs where get: "(if key = ''component_variant'' then Some variant
      else if key = ''component_binary_blake3'' then Some (ar_blake3 (bd_component b))
      else if key = ''component_source_blake3'' then Some (hash_text h bs) else map_of ?m key) = Some v"
    by (auto simp: variant_build_def)
  have "plain_text (ar_blake3 (bd_component b))"
    using b hash_text_plain by (auto simp: variant_build_def pack_artifact_Inr)
  moreover have "plain_key k" if "k \<in> set CANDIDATE_KEYS" for k using that nav2_keys_plain(2) by (auto simp: list_all_iff)
  ultimately have component: "plain_entry kv" if "key \<in> set CANDIDATE_KEYS"
    using get that assms(7) hash_text_plain by (auto simp: e plain_entry_def plain_key_def CANDIDATE_KEYS_def split: if_splits)
  show "plain_entry kv"
  proof (cases "key \<in> set CANDIDATE_KEYS")
    case False
    then have "map_of ?m key = Some v" using get by (auto simp: CANDIDATE_KEYS_def)
    then have "kv \<in> set (nav2_entries h w property adapter program @ nav2_endpoints @ nav2_channels @
        map (\<lambda>(key, a). (key, ar_blake3 a)) ds)"
      unfolding nav2_identity_def e using map_of_SomeD btree_of_set by fast
    then consider "kv \<in> set (nav2_entries h w property adapter program @ nav2_endpoints @ nav2_channels)"
      | "kv \<in> set (map (\<lambda>(key, a). (key, ar_blake3 a)) ds)" unfolding set_append by blast
    then show ?thesis
    proof cases
      case 1
      with nav2_entries_plain [OF assms(1-4)] show ?thesis by blast
    next
      case 2
      then obtain a where a: "(key, a) \<in> set ds" "v = ar_blake3 a" by (auto simp: e)
      with ds have "plain_key key" "\<exists>path. pack_artifact h w path = Inr a"
        by (force simp: good_dependencies_def dependency_keys_def)+
      then show ?thesis using a(2) hash_text_plain by (auto simp: e plain_entry_def plain_key_def pack_artifact_Inr)
    qed
  qed (rule component)
qed

section \<open>The final check\<close>

lemma pack_declaration_get:
  "map_of (pack_declaration scenario property completion) =
     map_of [(''corpus'', NAV2_CORPUS), (''scenario'', scenario), (''property'', property), (''scope.completion'', completion),
       (''scope.observation_end'', ''end_of_recording''), (''comparison_policy'', ''goal-ids-in-order@1''),
       (''goal_response_deadline_ns'', ''20000000''),
       (''origin'', ''upstream-issue recreation; scripted environment; no field incident claim''),
       (''grade_reason'', ''Complete within the scripted class boundary; substituted executor/action client; DDS, lifecycle and server behavior outside scope'')]"
  unfolding pack_declaration_def by (rule btree_of_get) simp

lemma pack_declaration_plain:
  assumes "capture_property scenario = Inr (property, completion)"
  shows "\<forall>kv\<in>set (pack_declaration scenario property completion). plain_entry kv"
proof -
  let ?kvs = "[(''corpus'', NAV2_CORPUS), (''scenario'', scenario), (''property'', property), (''scope.completion'', completion),
       (''scope.observation_end'', ''end_of_recording''), (''comparison_policy'', ''goal-ids-in-order@1''),
       (''goal_response_deadline_ns'', ''20000000''),
       (''origin'', ''upstream-issue recreation; scripted environment; no field incident claim''),
       (''grade_reason'', ''Complete within the scripted class boundary; substituted executor/action client; DDS, lifecycle and server behavior outside scope'')]"
  have "\<forall>kv\<in>set ?kvs. plain_entry kv"
    unfolding plain_entries_iff list.map fst_conv snd_conv
    using nav2_keys_plain(3) nav2_texts_plain capture_property_plain [OF assms] by simp
  moreover have "set (pack_declaration scenario property completion) \<subseteq> set ?kvs"
    unfolding pack_declaration_def by (rule btree_of_set)
  ultimately show ?thesis by blast
qed

definition expected_list :: "hash_fn \<Rightarrow> keyed_fn \<Rightarrow> frame list \<Rightarrow> bytes \<Rightarrow> (string \<times> string) list" where
  "expected_list h kh frames captured =
     (let hashes = hash_frames h kh (ascii NAV2_CORPUS) frames
      in [(''claim'', ''measured''), (''grade'', ''Complete''),
         (''raw_record_blake3'', hash_text h (encode_stream h frames)),
         (''effects_captured_blake3'', hash_text h captured),
         (''trace_hash'', encode_hex (to_le (n_trace_hash hashes))),
         (''run_hash'', encode_hex (to_le (n_run_hash hashes))),
         (''output_digest'', encode_hex (to_le (n_output_digest hashes)))])"

lemma pack_expected_list: "pack_expected h kh frames captured = btree_of (expected_list h kh frames captured)"
  by (simp add: pack_expected_def expected_list_def Let_def)

lemma pack_expected_get: "map_of (pack_expected h kh frames captured) = map_of (expected_list h kh frames captured)"
  unfolding pack_expected_list by (rule btree_of_get) (simp add: expected_list_def Let_def)

lemma pack_expected_plain: "\<forall>kv\<in>set (pack_expected h kh frames captured). plain_entry kv"
proof -
  have "\<forall>kv\<in>set (expected_list h kh frames captured). plain_entry kv"
    unfolding plain_entries_iff expected_list_def Let_def list.map fst_conv snd_conv
    using nav2_keys_plain(4) nav2_texts_plain(1) hash_text_plain digest_plain by simp
  then show ?thesis using btree_of_set unfolding pack_expected_list by blast
qed

lemma nav2_deadline: "positive_deadline ''20000000'' = Inr ()"
  by (simp add: positive_deadline_def parse_i64_def parse_digits_def digit_value_def)

lemma variant_build_component:
  assumes "variant_build h w adapter program ds m variant b"
  shows "map_of (bd_identity b) ''component_variant'' = Some variant"
    and "map_of (bd_identity b) ''component_binary_blake3'' = Some (ar_blake3 (bd_component b))"
    and "key \<in> set CANDIDATE_KEYS \<Longrightarrow> map_of (bd_identity b) key \<noteq> None"
proof -
  from assms obtain bs where get: "\<forall>key. map_of (bd_identity b) key =
        (if key = ''component_variant'' then Some variant
         else if key = ''component_binary_blake3'' then Some (ar_blake3 (bd_component b))
         else if key = ''component_source_blake3'' then Some (hash_text h bs) else map_of m key)"
    unfolding variant_build_def by blast
  then show "map_of (bd_identity b) ''component_variant'' = Some variant"
    "map_of (bd_identity b) ''component_binary_blake3'' = Some (ar_blake3 (bd_component b))" by simp_all
  assume "key \<in> set CANDIDATE_KEYS"
  then consider "key = ''component_variant''" | "key = ''component_binary_blake3''" | "key = ''component_source_blake3''"
    by (auto simp: CANDIDATE_KEYS_def)
  then show "map_of (bd_identity b) key \<noteq> None" by cases (simp_all add: get)
qed

lemma nav2_declarations:
  assumes "good_dependencies h w ds"
    and b: "variant_build h w adapter program ds (nav2_identity h w property adapter program ds) variant b"
  shows "check_declarations (pack_declaration scenario property completion) (bd_identity b)
    (pack_expected h kh frames captured) = Inr ()"
proof -
  let ?d = "pack_declaration scenario property completion" and ?e = "pack_expected h kh frames captured"
  have "map_of ?d ''goal_response_deadline_ns'' = Some ''20000000''" unfolding pack_declaration_get by simp
  then have deadline: "case_entry ?d ''goal_response_deadline_ns'' = Inr ''20000000''" by simp
  have "(case case_entry ?d ''goal_response_deadline_ns'' of Inl e \<Rightarrow> Inl e | Inr v \<Rightarrow> positive_deadline v) = Inr ()"
    unfolding deadline by (simp add: nav2_deadline)
  moreover have "map_of ?d ''property'' = Some property" unfolding pack_declaration_get by simp
  moreover have "\<forall>key\<in>set DECLARATION_KEYS. map_of ?d key \<noteq> None"
    unfolding DECLARATION_KEYS_def pack_declaration_get by simp
  moreover have "map_of ?e ''claim'' = Some ''measured''" "map_of ?e ''grade'' = Some ''Complete''"
    unfolding pack_expected_get expected_list_def Let_def by simp_all
  moreover have keys: "map_of (bd_identity b) key = map_of (nav2_identity h w property adapter program ds) key"
    if "key \<notin> set CANDIDATE_KEYS" for key using that by (rule variant_build_other [OF b])
  then have shared: "map_of (bd_identity b) key = Some v"
    if "(key, v) \<in> set (nav2_entries h w property adapter program)" for key v
  proof -
    have "key \<notin> set CANDIDATE_KEYS" using that by (auto simp: nav2_entries_def CANDIDATE_KEYS_def)
    with keys nav2_identity_lookup(1) [OF assms(1), of property adapter program] that show ?thesis
      by (auto simp: list_all_iff)
  qed
  have "map_of (bd_identity b) ''property'' = Some property"
    "map_of (bd_identity b) ''property_input_schema'' = Some INPUT_SCHEMA"
    by (rule shared, simp add: nav2_entries_def INPUT_SCHEMA_def)+
  moreover have "\<forall>key\<in>set IDENTITY_KEYS. map_of (bd_identity b) key \<noteq> None"
  proof
    fix key
    assume "key \<in> set IDENTITY_KEYS"
    moreover have "set IDENTITY_KEYS \<subseteq> set CANDIDATE_KEYS \<union> fst ` set (nav2_entries h w property adapter program)"
      by (simp add: IDENTITY_KEYS_def CANDIDATE_KEYS_def nav2_entries_def)
    ultimately consider "key \<in> set CANDIDATE_KEYS" | v where "(key, v) \<in> set (nav2_entries h w property adapter program)"
      by force
    then show "map_of (bd_identity b) key \<noteq> None"
    proof cases
      case 1
      then show ?thesis by (rule variant_build_component(3) [OF b])
    next
      case 2
      then show ?thesis by (simp add: shared)
    qed
  qed
  ultimately show ?thesis unfolding check_declarations_def check_each_Inr by auto
qed

text \<open>What the loader finds in the evidence: only an undeclared event or another start can be refused.\<close>

lemma nav2_evidence:
  assumes "decode_stream h (encode_stream h fs) = Inr fs" and "ps = map payload (filter is_emit fs)"
    and "decode_captured (encode_captured ps) = Inr ps"
  shows "check_evidence h kh (pack_declaration scenario property completion) m
      (pack_expected h kh fs (encode_captured ps)) (encode_stream h fs) (encode_captured ps) = Inr gs \<longleftrightarrow>
    gs = fs \<and> (\<forall>f\<in>set fs. validate_event f m = Inr ()) \<and> check_start m fs = Inr ()"
proof -
  let ?d = "pack_declaration scenario property completion" and ?e = "pack_expected h kh fs (encode_captured ps)"
  have raw: "check_each (\<lambda>(key, bs). expect_hash ?e key (hash_text h bs))
      [(''raw_record_blake3'', encode_stream h fs), (''effects_captured_blake3'', encode_captured ps)] = Inr ()"
    unfolding check_each_Inr by (simp add: expect_hash_def pack_expected_get expected_list_def Let_def)
  have corpus: "case_entry ?d ''corpus'' = Inr NAV2_CORPUS" by (simp add: pack_declaration_get)
  have hashes: "check_hashes h kh ?d ?e fs = Inr ()"
    unfolding check_hashes_def corpus sum.case Let_def check_each_Inr
    by (simp add: expect_hash_def pack_expected_get expected_list_def Let_def)
  have captured: "check_captured (encode_captured ps) fs = Inr ()"
    unfolding check_captured_def assms(3) by (simp add: assms(2))
  have checks: "check_each id [check_each (\<lambda>f. validate_event f m) fs, check_start m fs, Inr (), Inr ()] = Inr () \<longleftrightarrow>
      (\<forall>f\<in>set fs. validate_event f m = Inr ()) \<and> check_start m fs = Inr ()"
    unfolding check_each_Inr by simp
  have result: "(case r of Inl e \<Rightarrow> Inl e | Inr _ \<Rightarrow> Inr fs) = Inr gs \<longleftrightarrow> r = Inr () \<and> gs = fs"
    for r :: "case_error + unit" by (cases r) auto
  show ?thesis
    unfolding check_evidence_def raw assms(1) sum.case hashes captured result checks by (rule conj_commute)
qed

section \<open>What packing writes\<close>

definition build_files ::
  "(build \<Rightarrow> bytes) \<Rightarrow> build \<Rightarrow> build \<Rightarrow> build \<Rightarrow> build \<Rightarrow> (string, bytes) btree \<Rightarrow> (string, bytes) btree" where
  "build_files render b1 b2 b3 b4 files =
     bt_insert ''always-cancel.json'' (render b4) (bt_insert ''noop.json'' (render b3)
       (bt_insert ''fixed.json'' (render b2) (bt_insert ''build.json'' (render b1)
         (bt_insert ''identity'' (values_file (bd_identity b1)) (bt_insert ''old.json'' (render b1) files)))))"

text \<open>The builds of a packed case, on the identity they share.\<close>

definition four_builds ::
  "hash_fn \<Rightarrow> pack_world \<Rightarrow> string \<Rightarrow> build \<Rightarrow> build \<Rightarrow> build \<Rightarrow> build \<Rightarrow> bool" where
  "four_builds h w property b1 b2 b3 b4 \<longleftrightarrow>
     (\<exists>adapter program ds p1 p2.
        pack_artifact h w p1 = Inr adapter \<and> pack_artifact h w p2 = Inr program \<and> good_dependencies h w ds \<and>
        list_all2 (variant_build h w adapter program ds (nav2_identity h w property adapter program ds))
          VARIANTS [b1, b2, b3, b4])"

lemma pack_builds_Inr:
  assumes "pack_builds h w source binaries property files = Inr files'" and "plain_runtime w binaries"
  shows "\<exists>b1 b2 b3 b4. four_builds h w property b1 b2 b3 b4 \<and> files' = build_files (pk_render w) b1 b2 b3 b4 files"
proof -
  from assms(1) obtain adapter program ds where
    programs: "pack_artifact h w (join_path source ''adapter.py'') = Inr adapter"
      "pack_artifact h w (join_path source ''property.py'') = Inr program"
    and ds: "nav2_dependencies h w source binaries = Inr ds"
    and variants: "pack_variants (pack_variant h w binaries adapter program ds) (pk_render w) VARIANTS
      (nav2_identity h w property adapter program ds) files = Inr files'"
    by (auto simp: pack_builds_def split: sum.splits)
  let ?m = "nav2_identity h w property adapter program ds"
  let ?V = "pack_variant h w binaries adapter program ds"
  from variants [unfolded pack_variants_Inr] obtain b1 b2 b3 b4 where
    b1: "?V ''old'' ?m = Inr b1" and b2: "?V ''fixed'' (bd_identity b1) = Inr b2"
    and b3: "?V ''noop'' (bd_identity b2) = Inr b3" and b4: "?V ''always-cancel'' (bd_identity b3) = Inr b4"
    and files: "files' = build_files (pk_render w) b1 b2 b3 b4 files"
    unfolding build_files_def by blast
  have later: "variant_build h w adapter program ds ?m v' b'"
    if "variant_build h w adapter program ds ?m v b" and "?V v' (bd_identity b) = Inr b'" for v v' b b'
    using pack_variant_Inr [OF that(2), of ?m] variant_build_other [OF that(1)] that(1)
    by (auto simp: variant_build_def)
  have "bt_ok ?m" by (simp add: nav2_identity_def)
  then have v1: "variant_build h w adapter program ds ?m ''old'' b1" by (rule pack_variant_Inr [OF b1]) simp
  note v2 = later [OF v1 b2]
  note v3 = later [OF v2 b3]
  note v4 = later [OF v3 b4]
  have "good_dependencies h w ds"
    unfolding good_dependencies_def by (rule nav2_dependencies_Inr [OF ds assms(2)])
  then have "four_builds h w property b1 b2 b3 b4"
    unfolding four_builds_def VARIANTS_def using programs v1 v2 v3 v4 by (auto simp del: pack_artifact_Inr)
  with files show ?thesis by blast
qed

definition case_files :: "hash_fn \<Rightarrow> keyed_fn \<Rightarrow> bytes \<Rightarrow> capture \<Rightarrow> frame list \<Rightarrow> bytes list \<Rightarrow> string \<times> string \<Rightarrow>
    (string, bytes) btree" where
  "case_files h kh raw cap fs ps pc = btree_of
     [(''events.bin'', encode_stream h fs), (''effects_captured.bin'', encode_captured ps), (''capture.json'', raw),
      (''case'', values_file (pack_declaration (cap_scenario cap) (fst pc) (snd pc))),
      (''expected'', values_file (pack_expected h kh fs (encode_captured ps)))]"

lemma pack_files_Inr:
  assumes "pack_files h kh w source binaries raw cap = Inr files" and "plain_runtime w binaries"
  shows "\<exists>fs ps property completion b1 b2 b3 b4. packed_recording h cap = Inr (fs, ps) \<and>
    capture_property (cap_scenario cap) = Inr (property, completion) \<and> four_builds h w property b1 b2 b3 b4 \<and>
    files = build_files (pk_render w) b1 b2 b3 b4 (case_files h kh raw cap fs ps (property, completion))"
proof -
  from assms(1) obtain fs ps property completion where parts: "packed_recording h cap = Inr (fs, ps)"
    "capture_property (cap_scenario cap) = Inr (property, completion)"
    and builds: "pack_builds h w source binaries property (case_files h kh raw cap fs ps (property, completion)) = Inr files"
    by (auto simp: pack_files_def case_files_def Let_def split: sum.splits)
  from pack_builds_Inr [OF builds assms(2)] obtain b1 b2 b3 b4 where "four_builds h w property b1 b2 b3 b4"
    "files = build_files (pk_render w) b1 b2 b3 b4 (case_files h kh raw cap fs ps (property, completion))" by blast
  with parts show ?thesis
    by (intro exI [of _ fs] exI [of _ ps] exI [of _ property] exI [of _ completion] exI [of _ b1] exI [of _ b2]
        exI [of _ b3] exI [of _ b4] conjI)
qed

lemma packed_file_map:
  "bt_ok (build_files render b1 b2 b3 b4 (case_files h kh raw cap fs ps pc))"
  "map_of (build_files render b1 b2 b3 b4 (case_files h kh raw cap fs ps pc)) =
     (map_of [(''events.bin'', encode_stream h fs), (''effects_captured.bin'', encode_captured ps), (''capture.json'', raw),
      (''case'', values_file (pack_declaration (cap_scenario cap) (fst pc) (snd pc))),
      (''expected'', values_file (pack_expected h kh fs (encode_captured ps)))])
      (''old.json'' \<mapsto> render b1, ''identity'' \<mapsto> values_file (bd_identity b1), ''build.json'' \<mapsto> render b1,
       ''fixed.json'' \<mapsto> render b2, ''noop.json'' \<mapsto> render b3, ''always-cancel.json'' \<mapsto> render b4)"
  "fst ` set (build_files render b1 b2 b3 b4 (case_files h kh raw cap fs ps pc)) =
     set [''always-cancel.json'', ''noop.json'', ''fixed.json'', ''build.json'', ''identity'', ''old.json'',
       ''events.bin'', ''effects_captured.bin'', ''capture.json'', ''case'', ''expected'']"
proof -
  let ?kvs = "[(''events.bin'', encode_stream h fs), (''effects_captured.bin'', encode_captured ps), (''capture.json'', raw),
      (''case'', values_file (pack_declaration (cap_scenario cap) (fst pc) (snd pc))),
      (''expected'', values_file (pack_expected h kh fs (encode_captured ps)))]"
  have ok: "bt_ok (case_files h kh raw cap fs ps pc)" by (simp add: case_files_def)
  then show "bt_ok (build_files render b1 b2 b3 b4 (case_files h kh raw cap fs ps pc))"
    by (simp add: build_files_def)
  have get: "map_of (case_files h kh raw cap fs ps pc) = map_of ?kvs"
    unfolding case_files_def by (rule btree_of_get) simp
  show "map_of (build_files render b1 b2 b3 b4 (case_files h kh raw cap fs ps pc)) =
     (map_of ?kvs)(''old.json'' \<mapsto> render b1, ''identity'' \<mapsto> values_file (bd_identity b1), ''build.json'' \<mapsto> render b1,
       ''fixed.json'' \<mapsto> render b2, ''noop.json'' \<mapsto> render b3, ''always-cancel.json'' \<mapsto> render b4)"
    unfolding build_files_def get [symmetric] by (simp only: bt_insert_get bt_ok_insert ok)
  have "fst ` set (case_files h kh raw cap fs ps pc) = fst ` set ?kvs"
    unfolding dom_map_of_conv_image_fst [symmetric] get ..
  then show "fst ` set (build_files render b1 b2 b3 b4 (case_files h kh raw cap fs ps pc)) =
     set [''always-cancel.json'', ''noop.json'', ''fixed.json'', ''build.json'', ''identity'', ''old.json'',
       ''events.bin'', ''effects_captured.bin'', ''capture.json'', ''case'', ''expected'']"
    by (simp add: build_files_def)
qed

lemma packed_names_plain:
  "list_all (\<lambda>n. normal_path n \<and> plain_text n \<and> n \<noteq> ''MANIFEST.sha256'')
     [''always-cancel.json'', ''noop.json'', ''fixed.json'', ''build.json'', ''identity'', ''old.json'',
       ''events.bin'', ''effects_captured.bin'', ''capture.json'', ''case'', ''expected'']"
  by code_simp

definition with_manifest :: "(bytes \<Rightarrow> bytes) \<Rightarrow> (string, bytes) btree \<Rightarrow> (string, bytes) btree" where
  "with_manifest sha files = bt_insert ''MANIFEST.sha256'' (ascii (manifest_text sha files)) files"

text \<open>The loader on what was written.\<close>

lemma packed_load:
  assumes rec: "packed_recording h cap = Inr (fs, ps)" and small: "small_capture cap"
    and pc: "capture_property (cap_scenario cap) = Inr (property, completion)"
    and builds: "four_builds h w property b1 b2 b3 b4" and plain: "plain_runtime w binaries"
    and files: "files = build_files (pk_render w) b1 b2 b3 b4 (case_files h kh raw cap fs ps (property, completion))"
    and sha: "\<forall>bs. length (sha bs) = 32"
  shows "case_load h kh sha (capsule_dir (with_manifest sha files)) = Inr c \<longrightarrow>
      cf_frames c = fs \<and> cf_identity c = bd_identity b1 \<and> cf_covered c = fst ` set files"
    and "(\<exists>c. case_load h kh sha (capsule_dir (with_manifest sha files)) = Inr c) \<longleftrightarrow>
      (\<forall>f\<in>set fs. validate_event f (bd_identity b1) = Inr ()) \<and> check_start (bd_identity b1) fs = Inr ()"
proof -
  define dir where "dir = capsule_dir (with_manifest sha files)"
  note fm = packed_file_map [where render = "pk_render w" and ?b1.0 = b1 and ?b2.0 = b2 and ?b3.0 = b3 and ?b4.0 = b4
      and h = h and kh = kh and raw = raw and cap = cap and fs = fs and ps = ps and pc = "(property, completion)",
      folded files, unfolded fst_conv snd_conv]
  have get: "dir n = map_option (Pair True) (map_of files n)" if "n \<noteq> ''MANIFEST.sha256''" for n
    using that fm(1) by (simp add: dir_def capsule_dir_def with_manifest_def)
  have manifest_file: "dir ''MANIFEST.sha256'' = Some (True, ascii (manifest_text sha files))"
    using fm(1) by (simp add: dir_def capsule_dir_def with_manifest_def)
  have found: "length (sha (snd f)) = 32 \<and> normal_path (fst f) \<and> plain_text (fst f) \<and> dir (fst f) = Some (True, snd f)"
    if "f \<in> set files" for f
  proof -
    have "fst f \<in> fst ` set files" using that by simp
    with packed_names_plain have "normal_path (fst f) \<and> plain_text (fst f) \<and> fst f \<noteq> ''MANIFEST.sha256''"
      unfolding fm(3) list_all_iff by blast
    moreover have "map_of files (fst f) = Some (snd f)" using that fm(1) by (simp add: bt_get_iff)
    ultimately show ?thesis using sha get by simp
  qed
  then have all_found: "\<forall>f\<in>set files. length (sha (snd f)) = 32 \<and> normal_path (fst f) \<and> plain_text (fst f) \<and>
      dir (fst f) = Some (True, snd f)" by blast
  have "set REQUIRED_FILES \<subseteq> fst ` set files" unfolding fm(3) REQUIRED_FILES_def by simp
  note manifest = check_manifest_written [where files = files and sha = sha and dir = dir,
      OF all_found bt_ok_distinct [OF fm(1)] this]
  have texts: "read_text dir ''MANIFEST.sha256'' = Some (manifest_text sha files)"
    using manifest(1) by (simp add: read_text_def read_file_def manifest_file)
  have reads: "read_file dir ''events.bin'' = Some (encode_stream h fs)"
    "read_file dir ''effects_captured.bin'' = Some (encode_captured ps)"
    by (simp_all add: read_file_def get fm(2))
  from builds obtain adapter program ds p1 p2 where programs: "pack_artifact h w p1 = Inr adapter" "pack_artifact h w p2 = Inr program"
    and ds: "good_dependencies h w ds"
    and b1: "variant_build h w adapter program ds (nav2_identity h w property adapter program ds) ''old'' b1"
    unfolding four_builds_def VARIANTS_def by auto
  have "plain_text ''old''" by code_simp
  note identity = identity_plain [OF plain capture_property_plain(2) [OF pc] programs ds b1 this]
  have d: "read_values dir ''case'' = Inr (pack_declaration (cap_scenario cap) property completion)"
    by (rule read_values_file_of [OF _ _ pack_declaration_plain [OF pc]])
      (simp_all add: get fm(2) pack_declaration_def)
  have m: "read_values dir ''identity'' = Inr (bd_identity b1)"
    by (rule read_values_file_of [OF _ _ identity]) (use b1 in \<open>simp_all add: get fm(2) variant_build_def\<close>)
  have e: "read_values dir ''expected'' = Inr (pack_expected h kh fs (encode_captured ps))"
    by (rule read_values_file_of [OF _ _ pack_expected_plain]) (simp_all add: get fm(2) pack_expected_list)
  note recording = packed_recording_Inr [OF rec small]
  note evidence = nav2_evidence [OF recording(1,3,4), of kh "cap_scenario cap" property completion "bd_identity b1"]
  let ?ev = "check_evidence h kh (pack_declaration (cap_scenario cap) property completion) (bd_identity b1)
      (pack_expected h kh fs (encode_captured ps)) (encode_stream h fs) (encode_captured ps)"
  have load: "case_load h kh sha dir = Inr c \<longleftrightarrow> (\<exists>gs. ?ev = Inr gs \<and>
      c = \<lparr>cf_identity = bd_identity b1, cf_declaration = pack_declaration (cap_scenario cap) property completion,
           cf_expected = pack_expected h kh fs (encode_captured ps), cf_frames = gs,
           cf_case_id = hash_text h (ascii (manifest_text sha files)), cf_raw_hash = hash_text h (encode_stream h fs),
           cf_captured_hash = hash_text h (encode_captured ps), cf_covered = fst ` set files\<rparr>)" for c
    unfolding case_load_def texts option.case manifest(2) sum.case d m e nav2_declarations [OF ds b1] reads
    by (cases ?ev) auto
  show "case_load h kh sha (capsule_dir (with_manifest sha files)) = Inr c \<longrightarrow>
      cf_frames c = fs \<and> cf_identity c = bd_identity b1 \<and> cf_covered c = fst ` set files"
    unfolding dir_def [symmetric] load evidence by auto
  show "(\<exists>c. case_load h kh sha (capsule_dir (with_manifest sha files)) = Inr c) \<longleftrightarrow>
      (\<forall>f\<in>set fs. validate_event f (bd_identity b1) = Inr ()) \<and> check_start (bd_identity b1) fs = Inr ()"
    unfolding dir_def [symmetric] load evidence by blast
qed

section \<open>The declarations of a packed case\<close>

definition nav2_tables :: identity_map where "nav2_tables = nav2_endpoints @ nav2_channels"

definition nav2_start :: "hash_fn \<Rightarrow> identity_map" where
  "nav2_start h = [(''starting_state'', ''fresh''), (''starting_state_blake3'', hash_text h [])]"

lemma table_lookup:
  assumes "good_dependencies h w ds" and "key = ''endpoint.'' @ r \<or> key = ''channel.'' @ r"
    and b: "variant_build h w adapter program ds (nav2_identity h w property adapter program ds) variant b"
  shows "map_of (bd_identity b) key = map_of nav2_tables key"
proof -
  have "key \<notin> set CANDIDATE_KEYS" using assms(2) by (auto simp: CANDIDATE_KEYS_def)
  then have "map_of (bd_identity b) key = map_of (nav2_identity h w property adapter program ds) key"
    by (rule variant_build_other [OF b])
  also have "\<dots> = map_of (nav2_entries h w property adapter program @ nav2_tables @
      map (\<lambda>(key, a). (key, ar_blake3 a)) ds) key"
    unfolding nav2_identity_get [OF assms(1)] nav2_tables_def by simp
  also have "\<dots> = map_of nav2_tables key"
  proof -
    have "key \<notin> fst ` set (nav2_entries h w property adapter program)"
      using assms(2) by (auto simp: nav2_entries_def)
    moreover have "key \<notin> fst ` set ds"
    proof
      assume "key \<in> fst ` set ds"
      then obtain r' where "key = ''dependency.'' @ r'"
        using assms(1) by (force simp: good_dependencies_def dependency_keys_def)
      then show False using assms(2) by auto
    qed
    then have "key \<notin> fst ` set (map (\<lambda>(key, a). (key, ar_blake3 a)) ds)" by force
    ultimately have "map_of (nav2_entries h w property adapter program) key = None"
      "map_of (map (\<lambda>(key, a). (key, ar_blake3 a)) ds) key = None" by (simp_all add: map_of_eq_None_iff)
    then show ?thesis by (auto simp: map_add_def split: option.splits)
  qed
  finally show ?thesis .
qed

lemma validate_event_tables:
  assumes "good_dependencies h w ds"
    and b: "variant_build h w adapter program ds (nav2_identity h w property adapter program ds) variant b"
  shows "validate_event f (bd_identity b) = validate_event f nav2_tables"
proof -
  have same: "case_entry (bd_identity b) key = case_entry nav2_tables key"
    if "key = ''endpoint.'' @ r \<or> key = ''channel.'' @ r" for key r
    using table_lookup [OF assms(1) that b] by (simp add: case_entry_def entry_def)
  have keys: "case_entry (bd_identity b) (endpoint_key a) = case_entry nav2_tables (endpoint_key a)"
    "case_entry (bd_identity b) (channel_key a) = case_entry nav2_tables (channel_key a)" for a
    by (rule same [of _ "show_word a"], simp add: endpoint_key_def channel_key_def)+
  show ?thesis unfolding validate_event_def keys ..
qed

lemma check_start_shared:
  assumes "good_dependencies h w ds"
    and b: "variant_build h w adapter program ds (nav2_identity h w property adapter program ds) variant b"
  shows "check_start (bd_identity b) fs = check_start (nav2_start h) fs"
proof -
  have "map_of (bd_identity b) key = Some v"
    if "(key, v) \<in> set [(''starting_state'', ''fresh''), (''starting_state_blake3'', hash_text h [])]" for key v
  proof -
    have "(key, v) \<in> set (nav2_entries h w property adapter program)" "key \<notin> set CANDIDATE_KEYS"
      using that by (auto simp: nav2_entries_def CANDIDATE_KEYS_def)
    then show ?thesis
      using nav2_identity_lookup(1) [OF assms(1), of property adapter program] variant_build_other [OF b, of key]
      by (auto simp: list_all_iff)
  qed
  then have "map_of (bd_identity b) ''starting_state'' = Some ''fresh''"
    "map_of (bd_identity b) ''starting_state_blake3'' = Some (hash_text h [])" by simp_all
  moreover have "map_of (nav2_start h) ''starting_state'' = Some ''fresh''"
    "map_of (nav2_start h) ''starting_state_blake3'' = Some (hash_text h [])" by (simp_all add: nav2_start_def)
  ultimately have keys: "case_entry (bd_identity b) ''starting_state'' = case_entry (nav2_start h) ''starting_state''"
    "case_entry (bd_identity b) ''starting_state_blake3'' = case_entry (nav2_start h) ''starting_state_blake3''"
    by (simp_all add: case_entry_def entry_def)
  show ?thesis unfolding check_start_def entry_is_def keys ..
qed

lemma packed_case_iff:
  assumes files: "pack_files h kh w source binaries raw cap = Inr files" and small: "small_capture cap"
    and plain: "plain_runtime w binaries" and sha: "\<forall>bs. length (sha bs) = 32"
  shows "\<exists>fs ps. packed_recording h cap = Inr (fs, ps) \<and>
    (pack_case h kh sha w source binaries raw cap = Inr (with_manifest sha files) \<longleftrightarrow>
       (\<forall>f\<in>set fs. validate_event f nav2_tables = Inr ()) \<and> check_start (nav2_start h) fs = Inr ()) \<and>
    (\<forall>c. case_load h kh sha (capsule_dir (with_manifest sha files)) = Inr c \<longrightarrow>
       cf_frames c = fs \<and> cf_covered c = fst ` set files)"
proof -
  from pack_files_Inr [OF files plain] obtain fs ps property completion b1 b2 b3 b4 where
    rec: "packed_recording h cap = Inr (fs, ps)" and pc: "capture_property (cap_scenario cap) = Inr (property, completion)"
    and builds: "four_builds h w property b1 b2 b3 b4"
    and eq: "files = build_files (pk_render w) b1 b2 b3 b4 (case_files h kh raw cap fs ps (property, completion))" by blast
  from builds obtain adapter program ds where ds: "good_dependencies h w ds"
    and b1: "variant_build h w adapter program ds (nav2_identity h w property adapter program ds) ''old'' b1"
    unfolding four_builds_def VARIANTS_def by auto
  note load = packed_load [OF rec small pc builds plain eq sha]
  have "pack_case h kh sha w source binaries raw cap = Inr (with_manifest sha files) \<longleftrightarrow>
      (\<exists>c. case_load h kh sha (capsule_dir (with_manifest sha files)) = Inr c)"
    unfolding pack_case_def files sum.case Let_def with_manifest_def [symmetric]
    by (auto split: sum.splits)
  then have "pack_case h kh sha w source binaries raw cap = Inr (with_manifest sha files) \<longleftrightarrow>
      (\<forall>f\<in>set fs. validate_event f nav2_tables = Inr ()) \<and> check_start (nav2_start h) fs = Inr ()"
    unfolding load(2) validate_event_tables [OF ds b1] check_start_shared [OF ds b1] .
  with rec load(1) show ?thesis by (intro exI [of _ fs] exI [of _ ps]) blast
qed

section \<open>The packed builds\<close>

text \<open>A canonical path names the file it was found for.\<close>

definition canonical_paths :: "pack_world \<Rightarrow> bool" where
  "canonical_paths w \<longleftrightarrow> (\<forall>p c bs. pk_file w p = Some (c, bs) \<longrightarrow> pk_file w c = Some (c, bs))"

text \<open>A verifier that finds the packed build files, and the artifacts where they were packed from.\<close>

definition reads_packed :: "pack_world \<Rightarrow> (bytes \<Rightarrow> build option) \<Rightarrow> 's verifier \<Rightarrow> (string, bytes) btree \<Rightarrow> bool" where
  "reads_packed w parse vf whole \<longleftrightarrow>
     (\<forall>b. parse (pk_render w b) = Some b) \<and>
     (\<forall>name. vf_builds vf name =
        Option.bind (map_of whole name) (\<lambda>bs. map_option (\<lambda>b. (pk_file w, b)) (parse bs)))"

lemma check_packed_artifact:
  assumes "canonical_paths w" and "pack_artifact h w path = Inr a"
  shows "check_artifact h (pk_file w) name a = Inr a"
proof -
  from assms(2) obtain bs where "pk_file w path = Some (ar_path a, bs)" and hash: "ar_blake3 a = hash_text h bs"
    by (auto simp: pack_artifact_Inr)
  with assms(1) have "pk_file w (ar_path a) = Some (ar_path a, bs)" unfolding canonical_paths_def by blast
  with hash show ?thesis by (simp add: check_artifact_def)
qed

lemma check_packed_dependencies:
  assumes "canonical_paths w" and "\<forall>e\<in>set ds. \<exists>path. pack_artifact h w path = Inr (snd e)"
  shows "check_dependencies h (pk_file w) ds = Inr ds"
  using assms(2)
proof (induction ds)
  case (Cons e ds)
  obtain key a where e: "e = (key, a)" by force
  from Cons.prems obtain path where "pack_artifact h w path = Inr a" by (auto simp: e)
  note check_packed_artifact [OF assms(1) this, of key]
  moreover have "check_dependencies h (pk_file w) ds = Inr ds" using Cons by simp
  ultimately show ?case by (simp add: e)
qed simp

lemma packed_build_loads:
  assumes paths: "canonical_paths w" and p1: "pack_artifact h w p1 = Inr adapter"
    and p2: "pack_artifact h w p2 = Inr program" and ds: "good_dependencies h w ds"
    and b: "variant_build h w adapter program ds (nav2_identity h w property adapter program ds) variant b"
  shows "build_load h (pk_file w) b = Inr b"
proof -
  have parts: "bd_adapter b = adapter" "bd_property b = program" "bd_dependencies b = ds"
    "bd_adapter_args b = [''{component}'']" "\<exists>path. pack_artifact h w path = Inr (bd_component b)"
    using b by (simp_all add: variant_build_def)
  from parts(5) obtain p3 where p3: "pack_artifact h w p3 = Inr (bd_component b)" by blast
  note checked = check_packed_artifact [OF paths p1] check_packed_artifact [OF paths p2] check_packed_artifact [OF paths p3]
  have deps: "check_dependencies h (pk_file w) ds = Inr ds"
    using ds by (intro check_packed_dependencies [OF paths]) (auto simp: good_dependencies_def)
  have "map_of (bd_identity b) key = Some (ar_blake3 a)" if listed: "(key, a) \<in> set (pinned b)" for key a
  proof -
    let ?m = "nav2_identity h w property adapter program ds"
    consider "key = ''component_binary_blake3''" "a = bd_component b"
      | "(key, ar_blake3 a) \<in> set (nav2_entries h w property adapter program)" "key \<notin> set CANDIDATE_KEYS"
      | "(key, a) \<in> set ds"
    proof -
      from listed have "key = ''adapter_binary_blake3'' \<and> a = adapter \<or> key = ''component_binary_blake3'' \<and> a = bd_component b \<or>
          key = ''property_binary_blake3'' \<and> a = program \<or> (key, a) \<in> set ds"
        unfolding pinned_def parts(1-3) by simp
      moreover have "(''adapter_binary_blake3'', ar_blake3 adapter) \<in> set (nav2_entries h w property adapter program)"
        "(''property_binary_blake3'', ar_blake3 program) \<in> set (nav2_entries h w property adapter program)"
        "''adapter_binary_blake3'' \<notin> set CANDIDATE_KEYS" "''property_binary_blake3'' \<notin> set CANDIDATE_KEYS"
        by (simp_all add: nav2_entries_def CANDIDATE_KEYS_def)
      ultimately show thesis using that by blast
    qed
    then show ?thesis
    proof cases
      case 1
      then show ?thesis by (simp add: variant_build_component(2) [OF b])
    next
      case 2
      then show ?thesis using nav2_identity_lookup(1) [OF ds, of property adapter program] variant_build_other [OF b 2(2)]
        by (auto simp: list_all_iff)
    next
      case 3
      then obtain r where "key = ''dependency.'' @ r" using ds by (force simp: good_dependencies_def dependency_keys_def)
      then have "key \<notin> set CANDIDATE_KEYS" by (auto simp: CANDIDATE_KEYS_def)
      from variant_build_other [OF b this] nav2_identity_lookup(2) [OF ds 3] show ?thesis by simp
    qed
  qed
  then have "check_each (\<lambda>(key, a). entry_is (bd_identity b) key (\<lambda>v. v = ar_blake3 a) (ArtifactDrift key)) (pinned b) = Inr ()"
    unfolding check_each_Inr by auto
  moreover have "b\<lparr>bd_adapter := adapter, bd_component := bd_component b, bd_property := program,
      bd_dependencies := ds\<rparr> = b" by (simp flip: parts(1-3))
  ultimately show ?thesis
    unfolding build_load_def parts(1-3) checked sum.case deps Let_def by (simp add: parts(4) del: check_each_Inr)
qed

lemma packed_builds_agree:
  assumes "variant_build h w adapter program ds m variant b" and "variant_build h w adapter program ds m variant' b'"
  shows "build_candidate b b' = Inr ()"
proof -
  have "same_identity (bd_identity b) (bd_identity b') True = Inr ()"
    using variant_build_other [OF assms(1)] variant_build_other [OF assms(2)] unfolding same_identity_Inr by metis
  then show ?thesis
    using assms unfolding build_candidate_Inr by (simp add: variant_build_def fixed_artifacts_def)
qed

section \<open>Properties\<close>

text \<open>
  C16. The packer's last check refuses only what it does not itself derive: for a capture that a stream can
  carry, the written directory loads exactly when every event is one the Nav2 tables declare and the starting
  state is the fresh one, and then it loads with the packed frames, every file covered.
\<close>

theorem packed_case_loads:
  assumes "pack_files h kh w source binaries raw cap = Inr files" and "small_capture cap"
    and "plain_runtime w binaries" and "\<forall>bs. length (sha bs) = 32"
  shows "\<exists>fs ps. packed_recording h cap = Inr (fs, ps) \<and>
    (pack_case h kh sha w source binaries raw cap = Inr (with_manifest sha files) \<longleftrightarrow>
       (\<forall>f\<in>set fs. validate_event f nav2_tables = Inr ()) \<and> check_start (nav2_start h) fs = Inr ()) \<and>
    (\<forall>c. case_load h kh sha (capsule_dir (with_manifest sha files)) = Inr c \<longrightarrow>
       cf_frames c = fs \<and> cf_covered c = fst ` set files)"
  by (rule packed_case_iff [OF assms])

text \<open>
  C15. Every build the packer writes is a candidate of the case it packs: the case loads, its plan runs the old
  component and tests the named variant, through the same adapter, and the two identities differ in the
  component's keys only.
\<close>

theorem packed_builds_are_candidates:
  assumes packed: "pack_case h kh sha w source binaries raw cap = Inr whole" and small: "small_capture cap"
    and plain: "plain_runtime w binaries" and sha: "\<forall>bs. length (sha bs) = 32"
    and paths: "canonical_paths w" and reads: "reads_packed w parse vf whole" and variant: "variant \<in> set VARIANTS"
  shows "\<exists>c p b. case_load h kh sha (capsule_dir whole) = Inr c \<and> ''build.json'' \<in> cf_covered c \<and>
    build_plan h vf c (Some (variant @ ''.json'')) = Inr p \<and>
    pl_identity p = cf_identity c \<and> map_of (cf_identity c) ''component_variant'' = Some ''old'' \<and>
    pl_candidate p = Some b \<and> map_of (bd_identity b) ''component_variant'' = Some variant \<and>
    fst (pl_command p) = ar_path (bd_adapter b) \<and> build_command b = (ar_path (bd_adapter b), [ar_path (bd_component b)]) \<and>
    (\<forall>key. map_of (bd_identity b) key \<noteq> map_of (cf_identity c) key \<longrightarrow> key \<in> set CANDIDATE_KEYS)"
proof -
  from packed obtain files c where files: "pack_files h kh w source binaries raw cap = Inr files"
    and whole: "whole = with_manifest sha files" and c: "case_load h kh sha (capsule_dir whole) = Inr c"
    by (auto simp: pack_case_def with_manifest_def Let_def split: sum.splits)
  from pack_files_Inr [OF files plain] obtain fs ps property completion b1 b2 b3 b4 where
    rec: "packed_recording h cap = Inr (fs, ps)" and pc: "capture_property (cap_scenario cap) = Inr (property, completion)"
    and builds: "four_builds h w property b1 b2 b3 b4"
    and eq: "files = build_files (pk_render w) b1 b2 b3 b4 (case_files h kh raw cap fs ps (property, completion))" by blast
  from builds obtain adapter program ds p1 p2 where programs: "pack_artifact h w p1 = Inr adapter" "pack_artifact h w p2 = Inr program"
    and ds: "good_dependencies h w ds"
    and vs: "list_all2 (variant_build h w adapter program ds (nav2_identity h w property adapter program ds))
      VARIANTS [b1, b2, b3, b4]"
    unfolding four_builds_def by blast
  let ?vb = "variant_build h w adapter program ds (nav2_identity h w property adapter program ds)"
  have b1: "?vb ''old'' b1" using vs by (simp add: VARIANTS_def)
  have loaded: "cf_frames c = fs \<and> cf_identity c = bd_identity b1 \<and> cf_covered c = fst ` set files"
    using packed_load(1) [OF rec small pc builds plain eq sha] c unfolding whole by blast
  have names: "map_of whole n = map_of files n" if "n \<noteq> ''MANIFEST.sha256''" for n
    using that by (simp add: whole with_manifest_def eq packed_file_map(1))
  have load: "load_build h vf n = Inr b" if "map_of files n = Some (pk_render w b)" "n \<noteq> ''MANIFEST.sha256''" "?vb v b" for n v b
    using that(1) reads packed_build_loads [OF paths programs ds that(3)] names [OF that(2)]
    by (simp add: load_build_def reads_packed_def)
  have base: "load_build h vf ''build.json'' = Inr b1"
    by (rule load [OF _ _ b1]) (simp_all add: eq packed_file_map(2))
  obtain b where b: "?vb variant b" and tested: "map_of files (variant @ ''.json'') = Some (pk_render w b)"
    using vs variant unfolding eq packed_file_map(2) by (auto simp: VARIANTS_def)
  have "variant @ ''.json'' \<noteq> ''MANIFEST.sha256''" using variant by (auto simp: VARIANTS_def)
  then have "load_build h vf (variant @ ''.json'') = Inr b" by (rule load [OF tested _ b])
  then have candidate: "load_candidate h vf b1 (Some (variant @ ''.json'')) = Inr (Some b)"
    by (simp add: load_candidate_def packed_builds_agree [OF b1 b])
  have same: "same_identity (cf_identity c) (bd_identity b1) False = Inr ()" unfolding same_identity_Inr by (simp add: loaded)
  have "\<forall>key. map_of (bd_identity b) key \<noteq> map_of (cf_identity c) key \<longrightarrow> key \<in> set CANDIDATE_KEYS"
    using variant_build_other [OF b] variant_build_other [OF b1] loaded by metis
  moreover have "build_command b = (ar_path (bd_adapter b), [ar_path (bd_component b)])" "bd_adapter b = bd_adapter b1"
    using b b1 by (simp_all add: variant_build_def build_command_def)
  moreover have "''build.json'' \<in> cf_covered c" using loaded by (simp add: eq packed_file_map(3))
  moreover note variant_build_component(1) [OF b] variant_build_component(1) [OF b1]
  moreover define p where "p = \<lparr>pl_command = build_command b1,
      pl_property = (ar_path (bd_property b1), bd_property_args b1), pl_identity = bd_identity b1, pl_build = Some b1,
      pl_candidate = Some b\<rparr>"
  moreover from this have "build_plan h vf c (Some (variant @ ''.json'')) = Inr p"
    unfolding build_plan_def base sum.case same candidate by simp
  moreover have "fst (build_command b1) = ar_path (bd_adapter b1)" by (simp add: build_command_def)
  ultimately show ?thesis using c loaded by (intro exI [of _ c] exI [of _ p] exI [of _ b]) simp
qed

subsection \<open>A packed case\<close>

text \<open>Builds as bytes and back, through their number.\<close>

definition build_number :: "build \<Rightarrow> nat" where
  "build_number b = to_nat (bd_identity b, (ar_path (bd_adapter b), ar_blake3 (bd_adapter b)),
     (ar_path (bd_component b), ar_blake3 (bd_component b)), (ar_path (bd_property b), ar_blake3 (bd_property b)),
     map (\<lambda>(key, a). (key, ar_path a, ar_blake3 a)) (bd_dependencies b), bd_adapter_args b, bd_property_args b)"

definition demo_render :: "build \<Rightarrow> bytes" where "demo_render b = replicate (build_number b) 0"

definition demo_parse :: "bytes \<Rightarrow> build option" where
  "demo_parse bs =
     (case from_nat (length bs) :: identity_map \<times> (string \<times> string) \<times> (string \<times> string) \<times> (string \<times> string) \<times>
          (string \<times> string \<times> string) list \<times> string list \<times> string list of
        (m, (p1, h1), (p2, h2), (p3, h3), ds, as, bs') \<Rightarrow>
          Some \<lparr>bd_identity = m, bd_adapter = \<lparr>ar_path = p1, ar_blake3 = h1\<rparr>,
             bd_component = \<lparr>ar_path = p2, ar_blake3 = h2\<rparr>, bd_property = \<lparr>ar_path = p3, ar_blake3 = h3\<rparr>,
             bd_dependencies = map (\<lambda>(key, p, d). (key, \<lparr>ar_path = p, ar_blake3 = d\<rparr>)) ds,
             bd_adapter_args = as, bd_property_args = bs'\<rparr>)"

lemma demo_parse_render: "demo_parse (demo_render b) = Some b"
proof -
  have deps: "map ((\<lambda>(key, p, d). (key, \<lparr>ar_path = p, ar_blake3 = d\<rparr>)) \<circ> (\<lambda>(key, a). (key, ar_path a, ar_blake3 a))) ds = ds"
    for ds :: "(string, artifact) btree" by (induction ds) auto
  show ?thesis by (simp add: demo_parse_def demo_render_def build_number_def deps)
qed

text \<open>Every path names an empty file; no runtime file is listed.\<close>

definition demo_pack_world :: pack_world where
  "demo_pack_world = \<lparr>pk_exists = (\<lambda>_. False), pk_capture = (\<lambda>_. None), pk_file = (\<lambda>p. Some (p, [])),
     pk_render = demo_render, pk_source_hash = ''00''\<rparr>"

definition demo_start_frame :: "hash_fn \<Rightarrow> frame" where
  "demo_start_frame h =
     \<lparr>f_ordinal = 1, f_src_actor = SESSION_ACTOR_ID, f_dst_actor = COMPONENT_ACTOR_ID, f_channel_id = SESSION_CHANNEL_ID,
      f_src_seq = 1, f_observed_ns = 0, f_header = \<lparr>h_event_type = EvStartingState, h_schema = 1, h_flags = 0\<rparr>,
      f_body = starting_state STATE_METHOD_FRESH (h [])\<rparr>"

definition demo_capture :: capture where
  "demo_capture = \<lparr>cap_scenario = ''timeout'', cap_frames = [wire_of_frame (demo_start_frame (\<lambda>_. 0))], cap_captured = []\<rparr>"

definition demo_packed_frames :: "frame list" where
  "demo_packed_frames =
     (let uuid = capture_uuid (\<lambda>_. 0) demo_capture in
      [pack_marker 0 EvSession 0 (encode_session \<lparr>s_uuid = uuid, s_record_utc_ns = 0, s_pid = 0\<rparr>),
       demo_start_frame (\<lambda>_. 0),
       pack_marker 2 EvEnd 2 (encode_end \<lparr>en_uuid = uuid, en_frame_count = 2\<rparr>)])"

lemma demo_packed_valid: "valid_stream demo_packed_frames"
proof -
  have "ok_prefix ([] @ [demo_packed_frames ! 0] @ [demo_packed_frames ! 1] @ [demo_packed_frames ! 2])"
    unfolding append_assoc [symmetric] ok_prefix_snoc
    by (simp add: demo_packed_frames_def demo_start_frame_def pack_marker_def Let_def frame_ok_def marker_ok_def wf_frame_def
        wf_header_def session_of_def EVENT_SCHEMA_def EVENT_HEADER_SIZE_def seq_count_def sequence_key_def frame_tuple_def
        session_tuple_def SESSION_ACTOR_ID_def SESSION_CHANNEL_ID_def COMPONENT_ACTOR_ID_def decode_encode_session
        starting_state_def u16_at_def subslice_def one_to_three_def STATE_METHOD_FRESH_def)
  then show ?thesis by (simp add: valid_stream_def demo_packed_frames_def pack_marker_def Let_def)
qed

lemma demo_packed_recording: "packed_recording (\<lambda>_. 0) demo_capture = Inr (demo_packed_frames, [])"
proof -
  have wire: "packed_frame (wire_of_frame (demo_start_frame (\<lambda>_. 0))) = Inr (demo_start_frame (\<lambda>_. 0))"
    unfolding packed_frame_def frame_from_wire_of_frame by (simp add: wire_of_frame_def demo_start_frame_def)
  have start: "f_ordinal (demo_start_frame (\<lambda>_. 0)) = 1" "session_sequence (demo_start_frame (\<lambda>_. 0)) = demo_start_frame (\<lambda>_. 0)"
    by (simp_all add: demo_start_frame_def session_sequence_def)
  have captured: "cap_frames demo_capture = [wire_of_frame (demo_start_frame (\<lambda>_. 0))]" by (simp add: demo_capture_def)
  have frames: "packed_frames (\<lambda>_. 0) demo_capture = Inr demo_packed_frames"
    by (simp add: packed_frames_def demo_packed_frames_def Let_def captured wire start)
  have "length demo_packed_frames < 2 ^ 64" by (simp add: demo_packed_frames_def Let_def)
  from decode_stream_iff [OF this] demo_packed_valid
  have "decode_stream (\<lambda>_. 0) (encode_stream (\<lambda>_. 0) demo_packed_frames) = Inr demo_packed_frames" by blast
  moreover have "filter is_emit demo_packed_frames = []"
    by (simp add: demo_packed_frames_def Let_def pack_marker_def demo_start_frame_def is_emit_def frame_kind_def)
  moreover have "cap_captured demo_capture = []" by (simp add: demo_capture_def)
  ultimately show ?thesis by (simp add: packed_recording_def frames)
qed

lemma demo_artifact: "pack_artifact h demo_pack_world p = Inr \<lparr>ar_path = p, ar_blake3 = hash_text h []\<rparr>"
  by (simp add: pack_artifact_def demo_pack_world_def)

lemma demo_dependencies: "\<exists>ds. nav2_dependencies h demo_pack_world source binaries = Inr ds"
proof -
  have some: "\<exists>ds'. pack_dependencies h demo_pack_world ps ds = Inr ds'" for ps ds
    by (induction ps arbitrary: ds) (auto simp: demo_artifact)
  obtain ds where "pack_dependencies h demo_pack_world
      (map (\<lambda>name. (''dependency.source.'' @ name, join_path source name)) NAV2_SOURCES) [] = Inr ds"
    using some by blast
  then show ?thesis by (simp add: nav2_dependencies_def demo_pack_world_def text_of_def text_lines_def)
qed

lemma demo_variant: "\<exists>b. pack_variant h demo_pack_world binaries adapter program ds v m = Inr b"
  by (simp add: pack_variant_def demo_artifact Let_def) (simp add: demo_pack_world_def)

lemma demo_pack_files: "\<exists>files. pack_files (\<lambda>_. 0) kh demo_pack_world source binaries raw demo_capture = Inr files"
proof -
  obtain ds where ds: "nav2_dependencies (\<lambda>_. 0) demo_pack_world source binaries = Inr ds" using demo_dependencies by blast
  have "\<exists>files'. pack_variants (pack_variant (\<lambda>_. 0) demo_pack_world binaries adapter program ds) render vs m files = Inr files'"
    for adapter program render vs m files
  proof (induction vs arbitrary: m files)
    case (Cons v vs)
    obtain b where "pack_variant (\<lambda>_. 0) demo_pack_world binaries adapter program ds v m = Inr b" using demo_variant by blast
    with Cons.IH show ?case by (simp add: Let_def)
  qed simp
  then have "\<exists>files'. pack_builds (\<lambda>_. 0) demo_pack_world source binaries property files = Inr files'" for property files
    by (simp add: pack_builds_def demo_artifact ds)
  moreover have "capture_property (cap_scenario demo_capture) =
      Inr (''nav2-goal-response-timeout-cancel@1'', ''cancel_request_issued'')"
    by (simp add: capture_property_def demo_capture_def)
  ultimately show ?thesis by (simp add: pack_files_def demo_packed_recording Let_def)
qed

lemma demo_pack_plain:
  "small_capture demo_capture" "plain_runtime demo_pack_world binaries" "canonical_paths demo_pack_world"
  "\<forall>bs. length ((\<lambda>_. replicate 32 0 :: bytes) bs) = 32"
proof -
  show "small_capture demo_capture"
    by (simp add: small_capture_def demo_capture_def wire_of_frame_def demo_start_frame_def length_encode_hex starting_state_def)
  have "plain_text ''00''" by code_simp
  then show "plain_runtime demo_pack_world binaries"
    by (auto simp: plain_runtime_def demo_pack_world_def text_of_def text_lines_def)
  show "canonical_paths demo_pack_world" by (simp add: canonical_paths_def demo_pack_world_def)
qed simp

text \<open>The demonstration capture is declared and starts fresh.\<close>

lemma demo_declared:
  "\<forall>f\<in>set demo_packed_frames. validate_event f nav2_tables = Inr ()"
  "check_start (nav2_start (\<lambda>_. 0)) demo_packed_frames = Inr ()"
proof -
  show "\<forall>f\<in>set demo_packed_frames. validate_event f nav2_tables = Inr ()"
    by (simp add: demo_packed_frames_def Let_def pack_marker_def demo_start_frame_def validate_event_def frame_kind_def)
  have starts: "filter (\<lambda>f. f_event_type f = EvStartingState) demo_packed_frames = [demo_start_frame (\<lambda>_. 0)]"
    by (simp add: demo_packed_frames_def Let_def pack_marker_def demo_start_frame_def)
  have s: "f_ordinal (demo_start_frame (\<lambda>_. 0)) = 1" "f_body (demo_start_frame (\<lambda>_. 0)) = to_le (1 :: u16) @ to_le (0 :: digest)"
    by (simp_all add: demo_start_frame_def starting_state_def STATE_METHOD_FRESH_def)
  have fresh: "case_entry (nav2_start (\<lambda>_. 0)) ''starting_state'' = Inr ''fresh''" by (simp add: nav2_start_def)
  have digest: "entry_is (nav2_start (\<lambda>_. 0)) ''starting_state_blake3'' (\<lambda>v. encode_hex (to_le (0 :: digest)) = v) StartDrift = Inr ()"
    by (simp add: nav2_start_def hash_text_def)
  have "start_method ''fresh'' = Some 1" by (simp add: start_method_def)
  with s show "check_start (nav2_start (\<lambda>_. 0)) demo_packed_frames = Inr ()"
    unfolding check_start_def starts list.case fresh sum.case by (simp add: digest del: entry_is_Inr)
qed

theorem packed_case_loads_witness:
  "\<exists>files. pack_case (\<lambda>_. 0) (\<lambda>_ _. 0) (\<lambda>_. replicate 32 0) demo_pack_world ''src'' ''out'' [] demo_capture =
     Inr (with_manifest (\<lambda>_. replicate 32 0) files)"
proof -
  obtain files where files: "pack_files (\<lambda>_. 0) (\<lambda>_ _. 0) demo_pack_world ''src'' ''out'' [] demo_capture = Inr files"
    using demo_pack_files by blast
  from packed_case_loads [OF files demo_pack_plain(1,2,4)] demo_packed_recording demo_declared
  show ?thesis by (intro exI [of _ files]) auto
qed

theorem packed_builds_are_candidates_witness:
  "\<exists>whole c p b vf.
     pack_case (\<lambda>_. 0) (\<lambda>_ _. 0) (\<lambda>_. replicate 32 0) demo_pack_world ''src'' ''out'' [] demo_capture = Inr whole \<and>
     reads_packed demo_pack_world demo_parse (vf :: unit verifier) whole \<and>
     case_load (\<lambda>_. 0) (\<lambda>_ _. 0) (\<lambda>_. replicate 32 0) (capsule_dir whole) = Inr c \<and>
     build_plan (\<lambda>_. 0) vf c (Some ''fixed.json'') = Inr p \<and> pl_candidate p = Some b \<and>
     map_of (bd_identity b) ''component_variant'' = Some ''fixed''"
proof -
  obtain files where files: "pack_files (\<lambda>_. 0) (\<lambda>_ _. 0) demo_pack_world ''src'' ''out'' [] demo_capture = Inr files"
    using demo_pack_files by blast
  define whole where "whole = with_manifest (\<lambda>_. replicate 32 0) files"
  from packed_case_iff [OF files demo_pack_plain(1,2,4)] demo_packed_recording demo_declared
  have packed: "pack_case (\<lambda>_. 0) (\<lambda>_ _. 0) (\<lambda>_. replicate 32 0) demo_pack_world ''src'' ''out'' [] demo_capture = Inr whole"
    by (auto simp: whole_def)
  define vf :: "unit verifier" where
    "vf = case_verifier\<lparr>vf_builds := \<lambda>name. Option.bind (map_of whole name) (\<lambda>bs. map_option (\<lambda>b. (pk_file demo_pack_world, b)) (demo_parse bs))\<rparr>"
  have "pk_render demo_pack_world = demo_render" by (simp add: demo_pack_world_def)
  then have reads: "reads_packed demo_pack_world demo_parse vf whole"
    by (simp add: reads_packed_def demo_parse_render vf_def)
  have "''fixed'' \<in> set VARIANTS" by (simp add: VARIANTS_def)
  from packed_builds_are_candidates [OF packed demo_pack_plain(1,2,4,3) reads this] packed reads show ?thesis by auto
qed

end
