(* ===== verification/Spec2Isabelle.thy ===== *)
theory Spec2Isabelle
  imports Rmf_Recording Rook_Commands Nav2_Pack
begin

text \<open>
  A model of Rook's deterministic record-and-replay core, translated from the Rust crates under
  src/crates/, and the theorems that make it correct.

  The program.  A recording is a native stream: a list of frames (inputs of one component, its
  effects, session markers, gaps) with a chain hash over it.  A driver replays the recorded inputs
  through an adapter that hosts a variant of the component, collects the effects of this run,
  compares them with the recorded ones and hands the replayed events to a property program, which
  decides whether the component cancels a goal whose response is overdue.  The same hash chain serves
  the older Wasm-cell corpus, whose scheduler orders deliveries by tick.

  Theories, in import order, and the code they model:
  \<^item> Rook_Prelude: machine integers, little-endian codecs, slices, windows, chunks, decimal text; the
    interfaces \<open>codec\<close> and \<open>canonical\<close> every encoder and decoder pair is an instance of.
  \<^item> Hash_Chain: keyed BLAKE3 chains (rook-core and rook-native \<open>extend_chain\<close>, \<open>domain_key\<close>) and the
    interface \<open>chained\<close>: what the last digest of a chain commits, interpreted by both crates.
  \<^item> Rook_Core: rook-core/src/lib.rs, the cell scheduler.  \<open>replay\<close>, \<open>replay_synthetic\<close>, \<open>hash_observed\<close>
    keep their loops as recursive functions over the sorted deliveries.
  \<^item> Native_Stream: rook-native/src/lib.rs.  \<open>decode_stream\<close> keeps its state as \<open>stream_state\<close>; one
    iteration is \<open>read_frame\<close> (bytes) then \<open>check_frame\<close> (sequence, markers).
  \<^item> Adapter_Bodies, Goal_Client, Adapter_Serve: rook-adapter-ref bodies.rs, component.rs, and
    adapter.rs with protocol.rs and the text codecs of lib.rs.  \<open>step\<close> is \<open>Component::step\<close>; an
    \<open>option\<close> result keeps the source's \<open>unreachable!\<close> and \<open>expect\<close> as \<open>None\<close>.
  \<^item> Driver: rook-adapter-ref/src/driver.rs.  The adapter is an arbitrary transition \<open>react\<close>.
  \<^item> Property_Check: rook-adapter-ref/src/property.rs, the two reference properties and their input.
  \<^item> Fixture_Recorder: rook-adapter-ref/src/fixture.rs, the scripted environment that records a scenario.
  \<^item> Reproduction: recorder, driver and adapter composed: a recording replayed through the adapter around
    the same variant.  The adapter is used through the interface \<open>component_adapter\<close>.
  \<^item> Ordered_Map, Goal_Normalization: the standard library's ordered maps and text functions, and
    rook-verify/src/normalization.rs, the goal correspondence between a recording and a run.
  \<^item> Case_File, Capsule: rook-verify/src/case.rs, which checks a case directory before anything runs, and
    the capsule writer of fixture.rs; a directory is a lookup from names to contents.
  \<^item> Case_Runner, Runner_Invariant, Case_Replay: rook-verify/src/runner.rs, the replay of a case with its
    start-up checks, goal correspondence, early stop and property program; the invariant of its loop
    (\<open>run_inv\<close>) and what a finished replay is.
  \<^item> Verify_Report: rook-verify/src/lib.rs \<open>run_case\<close>: the plan of programs, baseline and candidate runs,
    their comparison, the report and its exit code.
  \<^item> Cell_Abi, Cell_Host, Echo_Cell: the Wasm-cell host.  rook-host/src/abi.rs (one function per host
    call, over the guest memory as a byte list), the cell handling of rook-host/src/rmf.rs, and
    cells/echo-count, rook-host/src/main.rs and rook-core-wasm/src/lib.rs together.
  \<^item> Bag_Analysis: rook-host/src/rmf_bag.rs, the recorded decisions of a bag: its files, the lifecycle
    reorder, the conformance metrics, and \<open>dump_recording\<close> of rmf.rs.
  \<^item> Capsule_Verifier: rook-verify/src/main.rs, the verifier of Wasm and native capsules.
  \<^item> Rmf_Scenario, Rmf_Recording: rook-host/src/rmf.rs, the seven scripted robots and the recording loop,
    and its replay through the same cell.
  \<^item> Rook_Commands: the programs rook, rook-adapter-ref and rook-property-ref: arguments, dispatch, exit
    codes, over the modelled parts.
  \<^item> Nav2_Pack: rook-verify/examples/nav2_pack.rs, which packs a captured transcript into a case with a
    build for every variant of the component.

  How the parts meet.  Every boundary between components is a definition both sides are proved against.
  The recorder's streams are what the decoder accepts and the driver replays; the capsule writer's
  directories are what the case loader and the capsule verifier accept; the case runner's streams are
  what the report compares; the cell host's runs are what the scheduler hashes.  Rook_Commands closes the
  chain: an exit with 0 of \<open>rook verify\<close> is the evidence its parts establish, and the reference cases
  that \<open>rook-adapter-ref fixtures\<close> writes have it; the builds Nav2_Pack writes are candidates the report
  accepts against the case it packs.

  What the lemmas show.  Codecs are exact inverses (interpretations of \<open>canonical_codec\<close>).  Inductive
  relations state each state machine independently of its code and the code is proved to refine them:
  \<open>stream_run\<close> for the stream decoder, \<open>client_step\<close> and \<open>client_run\<close> for the component, \<open>serves\<close> for
  the adapter.  Invariants are proved by induction over them: \<open>frames_inv\<close> and \<open>driver_inv\<close> (the
  replayed frames are a well-formed stream so far), \<open>run_inv\<close> (the same for the case runner, with the
  goal renaming), \<open>in_sequence\<close> and \<open>awaits_goal\<close> (numbering and the open goal).  The verdicts are
  characterised over the whole of \<open>evaluate\<close>, missing and pending submissions included, by predicates over
  the events (\<open>judged_goal\<close>, \<open>never_submitted\<close>, \<open>deadline_seen\<close>, \<open>cancelled\<close>, \<open>acceptance\<close>) that do not
  mention the evaluation order; exit codes by the evidence they stand for, and for the verification of a
  case by every way it can end.  The reorder of a bag is
  proved to end, and to keep every participant's order.  A guest is used through \<open>abi_cell\<close>, and one
  that never traps and keeps the retention limits through its extension \<open>steady_cell\<close>, which the echo
  cell's guest provides.

  Parameters.  BLAKE3 is not under src/: it is \<open>h\<close> (and \<open>kh\<close> keyed), an arbitrary function; the
  theorems about commitment name the collisions they exclude on the strings actually hashed.  The
  adapter process of the driver is \<open>react\<close> with an arbitrary state type.  SHA-256 is \<open>sha\<close>; the content
  identities of compiled-in sources are \<open>src\<close>; the case directory and the artifacts of a build are lookups;
  a compiled Wasm module is a \<open>guest\<close>; the parser of decimal floats is an argument, and a float is its
  bit pattern.

  Bounds.  No fuel is used: every loop is a structural or measured recursion, but for the reorder's
  fixpoint loop, a \<open>while_option\<close> proved to end.  Integers keep their width, so sequence numbers and
  ordinals wrap where the release build wraps; the theorems that need it assume fewer than \<open>2 ^ 64\<close>
  frames.

  Not modelled.  JSON text and its parser (a protocol line is a parsed message, blank or garbled);
  processes, pipes and time limits; the configuration of the Wasm engine, its fuel and page limits;
  texts outside ASCII; what is printed for a reader (\<open>readable\<close> of the report, the usage lines); error
  and detail texts, which are constructors that carry the values the text shows, except where the text
  itself crosses an interface (refusal reasons, status bodies); the C++ cell and the Python tools.
\<close>

end
